(* ===== verification/Prelude.thy ===== *)
theory Prelude
  imports Main "HOL-Library.Word"
begin

unbundle bit_operations_syntax

text \<open>
  Shared vocabulary of the development: the outcome type of kernel code, machine integers, the
  constants of \<open>src/param.h\<close> and \<open>src/types.h\<close>, and pointer chains with the two loops that walk
  them (search for a node, visit every node).
\<close>

section \<open>Collections of facts\<close>

named_theorems res_simps \<open>rewrite rules for outcomes\<close>
named_theorems chain_simps \<open>facts about pointer chains and their walks\<close>
named_theorems kst_simps \<open>projections of kernel states after updates\<close>

section \<open>Outcomes of kernel code\<close>

text \<open>
  A call returns a value, ends in \<open>panic\<close> with its message (\<open>src/console.c\<close>: \<open>panic\<close> never
  returns), dereferences a pointer or an index the program has no right to (\<open>Fault\<close>), or runs
  for ever (\<open>Hang\<close>).
\<close>

datatype 'a res = Ret 'a | Panic string | Fault | Hang

primrec bindr :: "'a res \<Rightarrow> ('a \<Rightarrow> 'b res) \<Rightarrow> 'b res" where
  "bindr (Ret x) f = f x"
| "bindr (Panic m) f = Panic m"
| "bindr Fault f = Fault"
| "bindr Hang f = Hang"

primrec is_ret :: "'a res \<Rightarrow> bool" where
  "is_ret (Ret x) = True"
| "is_ret (Panic m) = False"
| "is_ret Fault = False"
| "is_ret Hang = False"

text \<open>A loop is an option: \<open>None\<close> is the loop that never ends.\<close>

primrec of_loop :: "'a option \<Rightarrow> 'a res" where
  "of_loop None = Hang"
| "of_loop (Some x) = Ret x"

text \<open>Dereferencing a pointer that may be null.\<close>

primrec deref :: "'p option \<Rightarrow> 'p res" where
  "deref None = Fault"
| "deref (Some p) = Ret p"

definition guardr :: "bool \<Rightarrow> string \<Rightarrow> unit res" where
  "guardr b m = (if b then Ret () else Panic m)"

lemma bindr_eq_Ret [res_simps]:
  "bindr m f = Ret y \<longleftrightarrow> (\<exists>x. m = Ret x \<and> f x = Ret y)"
  by (cases m) auto

lemma bindr_assoc [res_simps]:
  "bindr (bindr m f) g = bindr m (\<lambda>x. bindr (f x) g)"
  by (cases m) auto

lemma bindr_Ret_right [simp]: "bindr m Ret = m"
  by (cases m) auto

lemma of_loop_eq_Ret [simp]: "of_loop m = Ret x \<longleftrightarrow> m = Some x"
  by (cases m) auto

lemma deref_eq_Ret [simp]: "deref m = Ret x \<longleftrightarrow> m = Some x"
  by (cases m) auto

lemma guardr_eq_Ret [simp]: "guardr b m = Ret u \<longleftrightarrow> b"
  by (simp add: guardr_def)

lemma guardr_True [simp]: "guardr True m = Ret ()"
  by (simp add: guardr_def)

lemma guardr_False [simp]: "guardr False m = Panic m"
  by (simp add: guardr_def)

lemma is_ret_iff: "is_ret m \<longleftrightarrow> (\<exists>x. m = Ret x)"
  by (cases m) auto

lemma is_ret_bindr: "is_ret (bindr m f) \<longleftrightarrow> (\<exists>x. m = Ret x \<and> is_ret (f x))"
  by (cases m) auto

lemma bindr_cong [fundef_cong]:
  "m = m' \<Longrightarrow> (\<And>x. m' = Ret x \<Longrightarrow> f x = f' x) \<Longrightarrow> bindr m f = bindr m' f'"
  by (cases m') auto

section \<open>Machine integers\<close>

type_synonym u8 = "8 word"
type_synonym u16 = "16 word"
type_synonym u32 = "32 word"

lemma unat_u32: "unat (n :: u32) < 2 ^ 32"
  using unsigned_less [where ?'b = 32, of n] by simp

lemma unat_Suc_word: "(x :: 'a::len word) + 1 \<noteq> 0 \<Longrightarrow> unat (x + 1) = Suc (unat x)"
  by (simp add: unatSuc add.commute)

lemma unat_dec_word: "(x :: 'a::len word) \<noteq> 0 \<Longrightarrow> unat (x - 1) = unat x - 1"
  by (simp add: unat_minus_one)

lemma unat_le_numeral_iff:
  "numeral n < (2 :: nat) ^ LENGTH('a) \<Longrightarrow>
   unat (x :: 'a::len word) \<le> numeral n \<longleftrightarrow> x \<le> numeral n"
  by (simp add: word_le_nat_alt unat_numeral take_bit_nat_eq_self)

section \<open>Pointer chains\<close>

text \<open>
  \<open>chain nx h xs\<close>: starting at the pointer \<open>h\<close> and following \<open>nx\<close>, one meets the nodes \<open>xs\<close>
  and then the null pointer. It is the abstraction of every intrusive list of the kernel.
\<close>

primrec chain :: "('p \<Rightarrow> 'p option) \<Rightarrow> 'p option \<Rightarrow> 'p list \<Rightarrow> bool" where
  "chain nx h [] \<longleftrightarrow> h = None"
| "chain nx h (x # xs) \<longleftrightarrow> h = Some x \<and> chain nx (nx x) xs"

lemma chain_None [simp]: "chain nx None xs \<longleftrightarrow> xs = []"
  by (cases xs) auto

lemma chain_Some [simp]: "chain nx (Some p) xs \<longleftrightarrow> (\<exists>ys. xs = p # ys \<and> chain nx (nx p) ys)"
  by (cases xs) auto

lemma chain_unique: "chain nx h xs \<Longrightarrow> chain nx h ys \<Longrightarrow> xs = ys"
  by (induction xs arbitrary: h ys) auto

lemma chain_append: "chain nx h (xs @ ys) \<Longrightarrow> \<exists>h'. chain nx h' ys"
  by (induction xs arbitrary: h) auto

lemma chain_suffix: "chain nx h (xs @ y # ys) \<Longrightarrow> chain nx (Some y) (y # ys)"
  by (induction xs arbitrary: h) auto

lemma chain_distinct: "chain nx h xs \<Longrightarrow> distinct xs"
proof (induction xs arbitrary: h)
  case Nil
  show ?case by simp
next
  case (Cons x xs)
  from Cons have "distinct xs" by auto
  moreover have "x \<notin> set xs"
  proof
    assume "x \<in> set xs"
    then obtain us vs where xs: "xs = us @ x # vs"
      by (auto dest: split_list)
    from Cons.prems have whole: "chain nx (Some x) (x # xs)" by simp
    from Cons.prems xs have "chain nx (nx x) (us @ x # vs)" by simp
    then have "chain nx (Some x) (x # vs)" by (rule chain_suffix)
    with whole have "x # xs = x # vs" by (rule chain_unique)
    with xs show False by simp
  qed
  ultimately show ?case by simp
qed

lemma chain_cong: "(\<And>x. x \<in> set xs \<Longrightarrow> nx x = nx' x) \<Longrightarrow> chain nx h xs = chain nx' h xs"
  by (induction xs arbitrary: h) auto

lemma chain_upd_other [chain_simps]: "p \<notin> set xs \<Longrightarrow> chain (nx(p := v)) h xs = chain nx h xs"
  by (rule chain_cong) auto

lemma chain_push: "chain nx h xs \<Longrightarrow> p \<notin> set xs \<Longrightarrow> chain (nx(p := h)) (Some p) (p # xs)"
  by (simp add: chain_upd_other)

text \<open>Linking a fresh node behind the last node.\<close>

lemma chain_snoc:
  "chain nx h (xs @ [l]) \<Longrightarrow> p \<notin> set xs \<Longrightarrow> p \<noteq> l \<Longrightarrow>
   chain (nx(l := Some p, p := None)) h (xs @ [l, p])"
proof (induction xs arbitrary: h)
  case Nil
  then show ?case by auto
next
  case (Cons x xs)
  have "x \<noteq> l"
    using chain_distinct [OF Cons.prems(1)] by auto
  with Cons show ?case by auto
qed

text \<open>Linking a whole chain behind the last node.\<close>

lemma chain_join:
  "chain nx h (xs @ [l]) \<Longrightarrow> chain nx h2 ys \<Longrightarrow> l \<notin> set ys \<Longrightarrow>
   chain (nx(l := h2)) h (xs @ l # ys)"
proof (induction xs arbitrary: h)
  case Nil
  then have "chain (nx(l := h2)) h2 ys"
    by (simp add: chain_upd_other del: fun_upd_apply)
  with Nil show ?case by (simp add: fun_upd_same del: fun_upd_apply)
next
  case (Cons x xs)
  have "x \<noteq> l"
    using chain_distinct [OF Cons.prems(1)] by auto
  with Cons show ?case by auto
qed

text \<open>Unlinking a node that has a predecessor.\<close>

lemma chain_unlink:
  "chain nx h (us @ u # p # vs) \<Longrightarrow>
   chain (nx(u := nx p, p := None)) h (us @ u # vs)"
proof (induction us arbitrary: h)
  case Nil
  have d: "distinct (u # p # vs)"
    using chain_distinct [OF Nil] by simp
  from Nil d have "chain (nx(u := nx p, p := None)) (nx p) vs"
    by (simp add: chain_upd_other del: fun_upd_apply)
  with Nil d show ?case by (simp add: fun_upd_same fun_upd_other del: fun_upd_apply)
next
  case (Cons x us)
  have d: "distinct (x # us @ u # p # vs)"
    using chain_distinct [OF Cons.prems] by simp
  with Cons show ?case by auto
qed

subsection \<open>Searching a chain\<close>

text \<open>\<open>while(p){ if(P(p)) return p; p = p->next; }\<close>\<close>

partial_function (option) find_from ::
  "('p \<Rightarrow> bool) \<Rightarrow> ('p \<Rightarrow> 'p option) \<Rightarrow> 'p option \<Rightarrow> 'p option option" where
  "find_from P nx cur =
     (case cur of
        None \<Rightarrow> Some None
      | Some p \<Rightarrow> if P p then Some (Some p) else find_from P nx (nx p))"

declare find_from.simps [code]

lemma find_from_None [simp]: "find_from P nx None = Some None"
  by (simp add: find_from.simps)

lemma find_from_Some:
  "find_from P nx (Some p) = (if P p then Some (Some p) else find_from P nx (nx p))"
  by (simp add: find_from.simps)

lemma find_from_chain [chain_simps]:
  "chain nx h xs \<Longrightarrow> find_from P nx h = Some (find P xs)"
  by (induction xs arbitrary: h) (auto simp: find_from_Some)

subsection \<open>Visiting a chain\<close>

text \<open>
  \<open>while(p){ body; p = p->next; }\<close>, where the body may change the state the next pointers are
  kept in.
\<close>

partial_function (option) each_from ::
  "('p \<Rightarrow> 's \<Rightarrow> 's) \<Rightarrow> ('s \<Rightarrow> 'p \<Rightarrow> 'p option) \<Rightarrow> 'p option \<Rightarrow> 's \<Rightarrow> 's option" where
  "each_from f nx cur s =
     (case cur of
        None \<Rightarrow> Some s
      | Some p \<Rightarrow> (let s' = f p s in each_from f nx (nx s' p) s'))"

declare each_from.simps [code]

lemma each_from_None [simp]: "each_from f nx None s = Some s"
  by (simp add: each_from.simps)

lemma each_from_Some: "each_from f nx (Some p) s = each_from f nx (nx (f p s) p) (f p s)"
  by (simp add: each_from.simps Let_def)

lemma each_from_chain:
  assumes "\<And>p s. nx (f p s) = nx s" and "chain (nx s) h xs"
  shows "each_from f nx h s = Some (fold f xs s)"
  using assms(2)
proof (induction xs arbitrary: h s)
  case Nil
  then show ?case by simp
next
  case (Cons x xs)
  then have h: "h = Some x" and c: "chain (nx s) (nx s x) xs" by auto
  then have "chain (nx (f x s)) (nx (f x s) x) xs" by (simp add: assms(1))
  then have "each_from f nx (nx (f x s) x) (f x s) = Some (fold f xs (f x s))"
    by (rule Cons.IH)
  with h show ?case by (simp add: each_from_Some)
qed

section \<open>Lists\<close>

lemma find_Some_in_set: "find P xs = Some x \<Longrightarrow> x \<in> set xs \<and> P x"
  by (induction xs) (auto split: if_splits)

lemma find_None_all: "find P xs = None \<longleftrightarrow> (\<forall>x\<in>set xs. \<not> P x)"
  by (induction xs) auto

lemma set_remove1_distinct: "distinct xs \<Longrightarrow> set (remove1 x xs) = set xs - {x}"
  by simp

section \<open>Constants of the kernel\<close>

text \<open>\<open>src/param.h\<close>\<close>

definition NPROC :: nat where "NPROC = 64"
definition KSTACKSIZE :: u32 where "KSTACKSIZE = 4096"
definition NCPU :: nat where "NCPU = 8"
definition NOFILE :: nat where "NOFILE = 16"
definition NFILE :: nat where "NFILE = 100"
definition NINODE :: nat where "NINODE = 50"
definition NDEV :: nat where "NDEV = 10"
definition MAXARG :: nat where "MAXARG = 32"
definition MAXOPBLOCKS :: nat where "MAXOPBLOCKS = 10"
definition LOGSIZE :: nat where "LOGSIZE = MAXOPBLOCKS * 3"
definition NBUF :: nat where "NBUF = MAXOPBLOCKS * 3"
definition FSSIZE :: nat where "FSSIZE = 2000"
definition DEFAULT_UID :: u32 where "DEFAULT_UID = 0"
definition DEFAULT_GID :: u32 where "DEFAULT_GID = 0"
definition DEFAULT_MODE :: u32 where "DEFAULT_MODE = 493"

end
