(* ===== verification/Spinlock.thy ===== *)
theory Spinlock
  imports Prelude
begin

text \<open>
  \<open>src/spinlock.h\<close> and \<open>src/spinlock.c\<close>: spin locks and the matched interrupt switches
  \<open>pushcli\<close>/\<open>popcli\<close>. The first half is the sequential code of one CPU. The second half lets
  several CPUs run \<open>acquire\<close> and \<open>release\<close> at once, one shared-memory access per step, and shows
  mutual exclusion. The recorded call stack (\<open>pcs\<close>) is debugging output and is left out.
\<close>

section \<open>State\<close>

record spinlock =
  locked :: u32
  lk_name :: string
  lk_cpu :: "nat option"

text \<open>
  The fields of \<open>struct cpu\<close> (\<open>src/proc.h\<close>) the locks and the scheduler use. \<open>if_flag\<close> is the
  bit \<open>FL_IF\<close> of the CPU's flags register: interrupts are on.
\<close>

record cpu =
  ncli :: int
  intena :: bool
  if_flag :: bool
  cpu_proc :: "nat option"

section \<open>The code of one CPU\<close>

definition initlock :: "spinlock \<Rightarrow> string \<Rightarrow> spinlock" where
  "initlock lk nm = lk\<lparr>lk_name := nm, locked := 0, lk_cpu := None\<rparr>"

definition holding :: "spinlock \<Rightarrow> nat \<Rightarrow> bool" where
  "holding lk c \<longleftrightarrow> locked lk \<noteq> 0 \<and> lk_cpu lk = Some c"

definition pushcli :: "cpu \<Rightarrow> cpu" where
  "pushcli cp =
     (let eflags = if_flag cp;
          cp1 = cp\<lparr>if_flag := False, ncli := ncli cp + 1\<rparr>
      in if ncli cp = 0 then cp1\<lparr>intena := eflags\<rparr> else cp1)"

definition popcli :: "cpu \<Rightarrow> cpu res" where
  "popcli cp =
     (if if_flag cp then Panic ''popcli - interruptible''
      else let cp1 = cp\<lparr>ncli := ncli cp - 1\<rparr>
           in if ncli cp1 < 0 then Panic ''popcli''
              else if ncli cp1 = 0 \<and> intena cp1 then Ret (cp1\<lparr>if_flag := True\<rparr>)
              else Ret cp1)"

text \<open>The atomic exchange of \<open>src/x86.h\<close>: the old value and the new contents.\<close>

definition xchg :: "u32 \<Rightarrow> u32 \<Rightarrow> u32 \<times> u32" where
  "xchg old new = (old, new)"

text \<open>\<open>while(xchg(&lk->locked, 1) != 0);\<close> as one CPU sees it when no other CPU runs.\<close>

partial_function (option) spin :: "spinlock \<Rightarrow> spinlock option" where
  "spin lk =
     (let (old, new) = xchg (locked lk) 1; lk' = lk\<lparr>locked := new\<rparr>
      in if old \<noteq> 0 then spin lk' else Some lk')"

definition acquire :: "nat \<Rightarrow> spinlock \<Rightarrow> cpu \<Rightarrow> (spinlock \<times> cpu) res" where
  "acquire c lk cp =
     (let cp1 = pushcli cp
      in if holding lk c then Panic ''acquire''
         else bindr (of_loop (spin lk)) (\<lambda>lk1. Ret (lk1\<lparr>lk_cpu := Some c\<rparr>, cp1)))"

definition release :: "nat \<Rightarrow> spinlock \<Rightarrow> cpu \<Rightarrow> (spinlock \<times> cpu) res" where
  "release c lk cp =
     (if \<not> holding lk c then Panic ''release''
      else let lk1 = lk\<lparr>lk_cpu := None\<rparr>;
               lk2 = lk1\<lparr>locked := snd (xchg (locked lk1) 0)\<rparr>
           in bindr (popcli cp) (\<lambda>cp1. Ret (lk2, cp1)))"

section \<open>Sequential facts\<close>

lemma spin_free [simp]: "locked lk = 0 \<Longrightarrow> spin lk = Some (lk\<lparr>locked := 1\<rparr>)"
  by (simp add: spin.simps xchg_def)

lemma spin_returns_free:
  assumes "spin lk = Some lk'"
  shows "locked lk = 0"
proof (rule spin.raw_induct [where P = "\<lambda>lk lk'. locked lk = 0", OF _ assms])
  fix f lk lk'
  assume IH: "\<And>lk lk'. f lk = Some lk' \<Longrightarrow> locked lk = 0"
    and eq: "(let (old, new) = xchg (locked lk) 1; lk' = lk\<lparr>locked := new\<rparr>
              in if old \<noteq> 0 then f lk' else Some lk') = Some lk'"
  show "locked lk = 0"
  proof (rule ccontr)
    assume nz: "locked lk \<noteq> 0"
    with eq have "f (lk\<lparr>locked := 1\<rparr>) = Some lk'" by (simp add: xchg_def)
    from IH [OF this] show False by simp
  qed
qed

lemma spin_held: "locked lk \<noteq> 0 \<Longrightarrow> spin lk = None"
  using spin_returns_free by (cases "spin lk") auto

lemma acquire_free:
  "locked lk = 0 \<Longrightarrow>
   acquire c lk cp = Ret (lk\<lparr>locked := 1, lk_cpu := Some c\<rparr>, pushcli cp)"
  by (simp add: acquire_def holding_def)

lemma acquire_held_by_other:
  "locked lk \<noteq> 0 \<Longrightarrow> lk_cpu lk \<noteq> Some c \<Longrightarrow> acquire c lk cp = Hang"
  by (simp add: acquire_def holding_def spin_held)

lemma acquire_held_by_self: "holding lk c \<Longrightarrow> acquire c lk cp = Panic ''acquire''"
  by (simp add: acquire_def)

lemma holding_after_acquire:
  "acquire c lk cp = Ret (lk', cp') \<Longrightarrow> holding lk' c"
  by (cases "locked lk = 0") (auto simp: acquire_def holding_def spin_held split: if_splits)

text \<open>
  A CPU's interrupt bookkeeping is consistent: inside \<open>pushcli\<close> brackets interrupts are off.
\<close>

definition cpu_ok :: "cpu \<Rightarrow> bool" where
  "cpu_ok cp \<longleftrightarrow> 0 \<le> ncli cp \<and> (0 < ncli cp \<longrightarrow> \<not> if_flag cp)"

lemma cpu_ok_pushcli [simp]: "cpu_ok cp \<Longrightarrow> cpu_ok (pushcli cp)"
  by (simp add: cpu_ok_def pushcli_def Let_def)

lemma ncli_pushcli [simp]: "ncli (pushcli cp) = ncli cp + 1"
  by (simp add: pushcli_def Let_def)

lemma cpu_proc_pushcli [simp]: "cpu_proc (pushcli cp) = cpu_proc cp"
  by (simp add: pushcli_def Let_def)

lemma if_flag_pushcli [simp]: "\<not> if_flag (pushcli cp)"
  by (simp add: pushcli_def Let_def)

lemma intena_pushcli: "intena (pushcli cp) = (if ncli cp = 0 then if_flag cp else intena cp)"
  by (simp add: pushcli_def Let_def)

lemma popcli_ok:
  "cpu_ok cp \<Longrightarrow> 0 < ncli cp \<Longrightarrow>
   popcli cp = Ret (cp\<lparr>ncli := ncli cp - 1, if_flag := (ncli cp = 1 \<and> intena cp)\<rparr>)"
  by (cases cp) (auto simp: popcli_def cpu_ok_def Let_def)

lemma cpu_ok_popcli: "cpu_ok cp \<Longrightarrow> popcli cp = Ret cp' \<Longrightarrow> cpu_ok cp'"
  by (auto simp: popcli_def cpu_ok_def Let_def split: if_splits)

text \<open>
  \<open>pushcli\<close> then \<open>popcli\<close> leaves the interrupt flag and the nesting depth as they were.
\<close>

lemma popcli_pushcli:
  assumes "cpu_ok cp"
  shows "\<exists>cp'. popcli (pushcli cp) = Ret cp' \<and> ncli cp' = ncli cp
            \<and> if_flag cp' = if_flag cp \<and> cpu_proc cp' = cpu_proc cp
            \<and> (0 < ncli cp \<longrightarrow> intena cp' = intena cp)"
  using assms
  by (auto simp: popcli_ok intena_pushcli cpu_ok_def)

fun pushcli_n :: "nat \<Rightarrow> cpu \<Rightarrow> cpu" where
  "pushcli_n 0 cp = cp"
| "pushcli_n (Suc n) cp = pushcli_n n (pushcli cp)"

fun popcli_n :: "nat \<Rightarrow> cpu \<Rightarrow> cpu res" where
  "popcli_n 0 cp = Ret cp"
| "popcli_n (Suc n) cp = bindr (popcli cp) (popcli_n n)"

lemma cpu_ok_pushcli_n: "cpu_ok cp \<Longrightarrow> cpu_ok (pushcli_n n cp)"
  by (induction n arbitrary: cp) simp_all

lemma ncli_pushcli_n: "ncli (pushcli_n n cp) = ncli cp + int n"
  by (induction n arbitrary: cp) simp_all

lemma pushcli_n_Suc: "pushcli_n (Suc n) cp = pushcli (pushcli_n n cp)"
  by (induction n arbitrary: cp) simp_all

lemma cpu_proc_pushcli_n: "cpu_proc (pushcli_n n cp) = cpu_proc cp"
  by (induction n arbitrary: cp) simp_all

lemma intena_pushcli_n:
  "0 \<le> ncli cp \<Longrightarrow>
   intena (pushcli_n n cp) = (if n \<noteq> 0 \<and> ncli cp = 0 then if_flag cp else intena cp)"
  by (induction n arbitrary: cp) (auto simp: intena_pushcli)

lemma popcli_n_ok:
  "cpu_ok cp \<Longrightarrow> int n \<le> ncli cp \<Longrightarrow>
   \<exists>cp'. popcli_n n cp = Ret cp' \<and> ncli cp' = ncli cp - int n \<and> cpu_proc cp' = cpu_proc cp
     \<and> if_flag cp' = (if n = 0 then if_flag cp else ncli cp = int n \<and> intena cp)"
proof (induction n arbitrary: cp)
  case 0
  then show ?case by simp
next
  case (Suc n)
  then have pos: "0 < ncli cp" by simp
  let ?q = "cp\<lparr>ncli := ncli cp - 1, if_flag := (ncli cp = 1 \<and> intena cp)\<rparr>"
  have p: "popcli cp = Ret ?q" using Suc.prems(1) pos by (rule popcli_ok)
  have "cpu_ok ?q" using Suc.prems(1) p by (rule cpu_ok_popcli)
  moreover have "int n \<le> ncli ?q" using Suc.prems(2) by simp
  ultimately obtain cp' where "popcli_n n ?q = Ret cp'" and "ncli cp' = ncli ?q - int n"
    and "cpu_proc cp' = cpu_proc ?q"
    and "if_flag cp' = (if n = 0 then if_flag ?q else ncli ?q = int n \<and> intena ?q)"
    using Suc.IH by blast
  with p show ?case by auto
qed

lemma popcli_n_pushcli_n:
  assumes "cpu_ok cp"
  shows "\<exists>cp'. popcli_n n (pushcli_n n cp) = Ret cp' \<and> ncli cp' = ncli cp
            \<and> if_flag cp' = if_flag cp \<and> cpu_proc cp' = cpu_proc cp"
proof -
  have "int n \<le> ncli (pushcli_n n cp)"
    using assms by (simp add: ncli_pushcli_n cpu_ok_def)
  from popcli_n_ok [OF cpu_ok_pushcli_n [OF assms] this] obtain cp' where
    "popcli_n n (pushcli_n n cp) = Ret cp'" "ncli cp' = ncli cp" "cpu_proc cp' = cpu_proc cp"
    and f: "if_flag cp' = (if n = 0 then if_flag (pushcli_n n cp)
              else ncli (pushcli_n n cp) = int n \<and> intena (pushcli_n n cp))"
    by (auto simp: ncli_pushcli_n cpu_proc_pushcli_n)
  moreover from f have "if_flag cp' = if_flag cp"
    using assms by (auto simp: ncli_pushcli_n intena_pushcli_n cpu_ok_def split: if_splits)
  ultimately show ?thesis by blast
qed

lemma release_after_acquire:
  assumes "cpu_ok cp" and "acquire c lk cp = Ret (lk1, cp1)"
  shows "\<exists>lk2 cp2. release c lk1 cp1 = Ret (lk2, cp2) \<and> locked lk2 = 0 \<and> lk_cpu lk2 = None
            \<and> ncli cp2 = ncli cp \<and> if_flag cp2 = if_flag cp \<and> cpu_proc cp2 = cpu_proc cp"
proof -
  have free: "locked lk = 0" and cp1: "cp1 = pushcli cp"
    using assms(2) by (auto simp: acquire_def res_simps dest: spin_returns_free split: if_splits)
  have h: "holding lk1 c" using assms(2) by (rule holding_after_acquire)
  obtain cp2 where "popcli (pushcli cp) = Ret cp2" "ncli cp2 = ncli cp"
    "if_flag cp2 = if_flag cp" "cpu_proc cp2 = cpu_proc cp"
    using popcli_pushcli [OF assms(1)] by blast
  with h cp1 show ?thesis by (simp add: release_def xchg_def)
qed

lemma acquire_Ret_iff:
  "acquire c lk cp = Ret (l, cp') \<longleftrightarrow> locked lk = 0 \<and> l = lk\<lparr>locked := 1, lk_cpu := Some c\<rparr> \<and> cp' = pushcli cp"
  by (cases "locked lk = 0") (auto simp: acquire_free acquire_def holding_def spin_held)

lemma release_unlocks: "release c lk cp = Ret (l, cp') \<Longrightarrow> locked l = 0 \<and> lk_cpu l = None"
  by (auto simp: release_def xchg_def res_simps split: if_splits)

text \<open>A critical section gives back a free lock, and the CPU as it was but for the saved flag.\<close>

definition after_cs :: "cpu \<Rightarrow> cpu" where
  "after_cs cp = cp\<lparr>intena := if ncli cp = 0 then if_flag cp else intena cp\<rparr>"

lemma release_held:
  assumes "cpu_ok cp" and "holding l c"
  shows "release c l (pushcli cp) = Ret (l\<lparr>lk_cpu := None, locked := 0\<rparr>, after_cs cp)"
  using assms by (cases cp) (auto simp: release_def popcli_def pushcli_def cpu_ok_def after_cs_def xchg_def Let_def)

lemma cpu_ok_after_cs [simp]: "cpu_ok (after_cs cp) = cpu_ok cp"
  by (simp add: cpu_ok_def after_cs_def)

lemma after_cs_fields [simp]: "ncli (after_cs cp) = ncli cp" "if_flag (after_cs cp) = if_flag cp" "cpu_proc (after_cs cp) = cpu_proc cp"
  by (simp_all add: after_cs_def)

section \<open>Several CPUs\<close>

text \<open>
  Where a CPU is in the code: outside, spinning in \<open>acquire\<close>, past the winning \<open>xchg\<close> but before
  \<open>lk->cpu = cpu\<close>, inside the critical section, or in \<open>release\<close> past \<open>lk->cpu = 0\<close> but before
  its \<open>xchg\<close>. Each step does one access to the shared lock.
\<close>

datatype lpc = Outside | Spinning | Won | Inside | Leaving

record lsys =
  lk :: spinlock
  pcs :: "nat \<Rightarrow> lpc"

inductive lstep :: "lsys \<Rightarrow> lsys \<Rightarrow> bool" where
  enter: "pcs s c = Outside \<Longrightarrow> \<not> holding (lk s) c \<Longrightarrow>
     lstep s (s\<lparr>pcs := (pcs s)(c := Spinning)\<rparr>)"
| try_xchg: "pcs s c = Spinning \<Longrightarrow> xchg (locked (lk s)) 1 = (old, new) \<Longrightarrow>
     lstep s (s\<lparr>lk := (lk s)\<lparr>locked := new\<rparr>,
                pcs := (pcs s)(c := if old \<noteq> 0 then Spinning else Won)\<rparr>)"
| record_cpu: "pcs s c = Won \<Longrightarrow>
     lstep s (s\<lparr>lk := (lk s)\<lparr>lk_cpu := Some c\<rparr>, pcs := (pcs s)(c := Inside)\<rparr>)"
| leave: "pcs s c = Inside \<Longrightarrow> holding (lk s) c \<Longrightarrow>
     lstep s (s\<lparr>lk := (lk s)\<lparr>lk_cpu := None\<rparr>, pcs := (pcs s)(c := Leaving)\<rparr>)"
| unlock: "pcs s c = Leaving \<Longrightarrow> xchg (locked (lk s)) 0 = (old, new) \<Longrightarrow>
     lstep s (s\<lparr>lk := (lk s)\<lparr>locked := new\<rparr>, pcs := (pcs s)(c := Outside)\<rparr>)"

definition linit :: "string \<Rightarrow> lsys" where
  "linit nm = \<lparr>lk = initlock \<lparr>locked = 0, lk_name = [], lk_cpu = None\<rparr> nm, pcs = (\<lambda>_. Outside)\<rparr>"

inductive lreach :: "string \<Rightarrow> lsys \<Rightarrow> bool" for nm where
  lreach_init: "lreach nm (linit nm)"
| lreach_step: "lreach nm s \<Longrightarrow> lstep s t \<Longrightarrow> lreach nm t"

definition owns :: "lpc \<Rightarrow> bool" where
  "owns p \<longleftrightarrow> p = Won \<or> p = Inside \<or> p = Leaving"

definition linv :: "lsys \<Rightarrow> bool" where
  "linv s \<longleftrightarrow>
     (locked (lk s) \<noteq> 0 \<longleftrightarrow> (\<exists>c. owns (pcs s c))) \<and>
     (\<forall>c d. owns (pcs s c) \<and> owns (pcs s d) \<longrightarrow> c = d) \<and>
     (\<forall>c. lk_cpu (lk s) = Some c \<longleftrightarrow> pcs s c = Inside)"

lemma linv_init: "linv (linit nm)"
  by (simp add: linv_def linit_def initlock_def owns_def)

lemma linv_step: "lstep s t \<Longrightarrow> linv s \<Longrightarrow> linv t"
proof (induction rule: lstep.induct)
  case (enter s c)
  then show ?case by (force simp: linv_def owns_def)
next
  case (try_xchg s c old new)
  show ?case
  proof (cases "locked (lk s) = 0")
    case True
    with try_xchg show ?thesis by (auto simp: linv_def owns_def xchg_def)
  next
    case False
    with try_xchg have "(pcs s)(c := if old \<noteq> 0 then Spinning else Won) = pcs s"
      by (auto simp: xchg_def)
    with try_xchg False show ?thesis by (auto simp: linv_def xchg_def)
  qed
next
  case (record_cpu s c)
  then show ?case by (auto simp: linv_def owns_def)
next
  case (leave s c)
  then show ?case by (auto simp: linv_def owns_def)
next
  case (unlock s c old new)
  then show ?case by (auto simp: linv_def owns_def xchg_def)
qed

lemma lreach_linv: "lreach nm s \<Longrightarrow> linv s"
  by (induction rule: lreach.induct) (auto intro: linv_init linv_step)


text \<open>Undisturbed, the steps of one CPU add up to the code of \<open>acquire\<close> and \<open>release\<close>.\<close>

lemma acquire_steps:
  assumes "acquire c (lk S) cp = Ret (l, cp')" and "pcs S c = Outside"
  shows "lstep\<^sup>*\<^sup>* S (S\<lparr>lk := l, pcs := (pcs S)(c := Inside)\<rparr>)"
proof -
  have free: "locked (lk S) = 0" and l: "l = (lk S)\<lparr>locked := 1, lk_cpu := Some c\<rparr>"
    using assms(1) by (simp_all add: acquire_Ret_iff)
  let ?A = "S\<lparr>pcs := (pcs S)(c := Spinning)\<rparr>"
  let ?B = "S\<lparr>lk := (lk S)\<lparr>locked := 1\<rparr>, pcs := (pcs S)(c := Won)\<rparr>"
  have "lstep S ?A" using assms(2) free by (intro enter) (simp_all add: holding_def)
  moreover have "lstep ?A ?B" using try_xchg [of ?A c 0 1] free by (simp add: xchg_def)
  moreover have "lstep ?B (S\<lparr>lk := l, pcs := (pcs S)(c := Inside)\<rparr>)" using record_cpu [of ?B c] by (simp add: l)
  ultimately show ?thesis by (meson converse_rtranclp_into_rtranclp rtranclp.rtrancl_refl)
qed

lemma release_steps:
  assumes "release c (lk S) cp = Ret (l, cp')" and "pcs S c = Inside"
  shows "lstep\<^sup>*\<^sup>* S (S\<lparr>lk := l, pcs := (pcs S)(c := Outside)\<rparr>)"
proof -
  have h: "holding (lk S) c" and l: "l = (lk S)\<lparr>lk_cpu := None, locked := 0\<rparr>"
    using assms(1) by (auto simp: release_def xchg_def res_simps split: if_splits)
  let ?A = "S\<lparr>lk := (lk S)\<lparr>lk_cpu := None\<rparr>, pcs := (pcs S)(c := Leaving)\<rparr>"
  have "lstep S ?A" using assms(2) h by (rule leave)
  moreover have "lstep ?A (S\<lparr>lk := l, pcs := (pcs S)(c := Outside)\<rparr>)"
    using unlock [of ?A c "locked (lk S)" 0] by (simp add: xchg_def l)
  ultimately show ?thesis by (meson converse_rtranclp_into_rtranclp rtranclp.rtrancl_refl)
qed

text \<open>
  C20: Mutual exclusion. However the CPUs interleave their accesses to the lock, from an initialised
  lock on, never more than one of them is between the winning \<open>xchg\<close> of \<open>acquire\<close> and the \<open>xchg\<close>
  of \<open>release\<close>, and a CPU inside its critical section is the one \<open>holding\<close> reports.
\<close>

theorem mutual_exclusion:
  assumes "lreach nm S" and "owns (pcs S c)"
  shows "\<forall>d. owns (pcs S d) \<longrightarrow> d = c \<and> (pcs S d = Inside \<longrightarrow> holding (lk S) d)"
  using lreach_linv [OF assms(1)] assms(2) by (auto simp: linv_def holding_def)

theorem mutual_exclusion_witness:
  "\<exists>S. lreach ''lock'' S \<and> owns (pcs S 0) \<and> \<not> owns (pcs S 1)"
proof -
  let ?A = "(linit ''lock'')\<lparr>pcs := (\<lambda>_. Outside)(0 := Spinning)\<rparr>"
  let ?B = "?A\<lparr>lk := (lk ?A)\<lparr>locked := 1\<rparr>, pcs := (\<lambda>_. Outside)(0 := Won)\<rparr>"
  have "lstep (linit ''lock'') ?A"
    using enter [of "linit ''lock''" 0] by (simp add: linit_def initlock_def holding_def)
  moreover have "lstep ?A ?B" using try_xchg [of ?A 0 0 1] by (simp add: xchg_def linit_def initlock_def)
  ultimately have r: "lreach ''lock'' ?B" by (meson lreach_init lreach_step)
  have o: "owns (pcs ?B 0)" by (simp add: owns_def)
  have "\<not> owns (pcs ?B 1)" using mutual_exclusion [OF r o] by (metis zero_neq_one)
  with r o show ?thesis by blast
qed

end
