(* ===== verification/Ptable.thy ===== *)
theory Ptable
  imports Spinlock
begin

text \<open>
  The process table of \<open>src/proc.c\<close> (the configuration \<open>CS333_P3P4\<close> the Makefile builds): the
  table, its intrusive state lists and the list routines, at the level of the \<open>next\<close> pointers.
  A process is its index in \<open>ptable.proc\<close>; a null pointer is \<open>None\<close>.
\<close>

section \<open>Data\<close>

datatype procstate = UNUSED | EMBRYO | SLEEPING | RUNNABLE | RUNNING | ZOMBIE

text \<open>The wait channels of the kernel: addresses that differ are constructors that differ.\<close>

datatype chan =
    ChProc nat       \<comment> \<open>a process, for \<open>wait\<close>\<close>
  | ChTicks          \<comment> \<open>\<open>&ticks\<close>\<close>
  | ChPipeR nat      \<comment> \<open>\<open>&p->nread\<close>\<close>
  | ChPipeW nat      \<comment> \<open>\<open>&p->nwrite\<close>\<close>
  | ChBuf nat
  | ChInode nat
  | ChLog
  | ChInput          \<comment> \<open>\<open>&input.r\<close>\<close>

datatype lockid = LkPtable | LkOther nat

text \<open>The registers of \<open>struct trapframe\<close> (\<open>src/x86.h\<close>) the kernel's C code reads or writes.\<close>

record trapframe =
  tf_eax :: u32
  tf_trapno :: u32
  tf_err :: u32
  tf_eip :: u32
  tf_cs :: u16
  tf_eflags :: u32
  tf_esp :: u32
  tf_ss :: u16
  tf_ds :: u16
  tf_es :: u16

text \<open>
  What \<open>p->context\<close> resumes when the scheduler switches to the process: \<open>forkret\<close>, or the rest of
  \<open>sched\<close> inside \<open>yield\<close> or \<open>sleep\<close> (the local \<open>intena\<close> lives on the kernel stack, as does the
  lock \<open>sleep\<close> has to reacquire). An exited process is never resumed.
\<close>

datatype resume = AtForkret | InYield bool | InSleep bool "lockid option" | InExit bool

record proc =
  sz :: u32
  pgdir :: "u32 option"
  kstack :: "u32 option"
  state :: procstate
  pid :: u32
  parent :: "nat option"
  tf :: trapframe
  ctxt :: resume
  chan :: "chan option"
  killed :: bool
  ofile :: "nat \<Rightarrow> nat option"
  cwd :: "nat option"
  name :: string
  start_ticks :: u32
  uid :: u32
  gid :: u32
  cpu_ticks_total :: u32
  cpu_ticks_in :: u32
  pnext :: "nat option"
  priority :: u32
  budget :: u32

text \<open>
  \<open>struct StateLists\<close>, \<open>ptable\<close>, and the globals beside them, with the locks and the CPUs.
  \<open>mem\<close> is the state of the memory and file components that \<open>src/proc.c\<close> calls.
\<close>

record 'm kst =
  procs :: "nat \<Rightarrow> proc"
  ready :: "nat \<Rightarrow> nat option"
  free_l :: "nat option"
  sleep_l :: "nat option"
  zombie_l :: "nat option"
  running_l :: "nat option"
  embryo_l :: "nat option"
  PromoteAtTime :: u32
  initproc :: "nat option"
  nextpid :: u32
  ticks :: u32
  locks :: "lockid \<Rightarrow> spinlock"
  cpus :: "nat \<Rightarrow> cpu"
  mem :: 'm

definition DEFAULT_PRIORITY :: u32 where "DEFAULT_PRIORITY = 0"
definition DEFAULT_BUDGET :: u32 where "DEFAULT_BUDGET = 300"
definition MAXPRIO :: nat where "MAXPRIO = 5"
definition TICKS_TO_PROMOTE :: u32 where "TICKS_TO_PROMOTE = 1100"

text \<open>The address of a list head, \<open>struct proc **sLists\<close>.\<close>

datatype lref = LFree | LEmbryo | LSleep | LZombie | LRunning | LReady nat

primrec getl :: "'m kst \<Rightarrow> lref \<Rightarrow> nat option" where
  "getl s LFree = free_l s"
| "getl s LEmbryo = embryo_l s"
| "getl s LSleep = sleep_l s"
| "getl s LZombie = zombie_l s"
| "getl s LRunning = running_l s"
| "getl s (LReady i) = ready s i"

primrec setl :: "lref \<Rightarrow> nat option \<Rightarrow> 'm kst \<Rightarrow> 'm kst" where
  "setl LFree h s = s\<lparr>free_l := h\<rparr>"
| "setl LEmbryo h s = s\<lparr>embryo_l := h\<rparr>"
| "setl LSleep h s = s\<lparr>sleep_l := h\<rparr>"
| "setl LZombie h s = s\<lparr>zombie_l := h\<rparr>"
| "setl LRunning h s = s\<lparr>running_l := h\<rparr>"
| "setl (LReady i) h s = s\<lparr>ready := (ready s)(i := h)\<rparr>"

text \<open>\<open>&ptable.pLists.ready[prio]\<close>: the array has \<open>MAX + 1\<close> entries.\<close>

definition readyref :: "u32 \<Rightarrow> lref res" where
  "readyref prio = (if unat prio \<le> MAXPRIO then Ret (LReady (unat prio)) else Fault)"

definition upd :: "nat \<Rightarrow> (proc \<Rightarrow> proc) \<Rightarrow> 'm kst \<Rightarrow> 'm kst" where
  "upd p f s = s\<lparr>procs := (procs s)(p := f (procs s p))\<rparr>"

definition nextof :: "'m kst \<Rightarrow> nat \<Rightarrow> nat option" where
  "nextof s p = pnext (procs s p)"

definition set_next :: "nat \<Rightarrow> nat option \<Rightarrow> 'm kst \<Rightarrow> 'm kst" where
  "set_next p n = upd p (pnext_update (\<lambda>_. n))"

section \<open>List routines\<close>

definition addtofrontoflist :: "lref \<Rightarrow> nat option \<Rightarrow> 'm kst \<Rightarrow> 'm kst" where
  "addtofrontoflist l po s =
     (case po of
        None \<Rightarrow> s
      | Some p \<Rightarrow> setl l (Some p) (set_next p (getl s l) s))"

definition assertstate :: "nat \<Rightarrow> procstate \<Rightarrow> 'm kst \<Rightarrow> unit res" where
  "assertstate p st s = guardr (state (procs s p) = st) ''ERROR: unexpected process state. ''"

text \<open>The parameter \<open>p\<close> of the source is overwritten before it is read.\<close>

definition removefromfront :: "lref \<Rightarrow> 'm kst \<Rightarrow> int \<times> 'm kst" where
  "removefromfront l s =
     (case getl s l of
        None \<Rightarrow> (-1, s)
      | Some p \<Rightarrow> (0, set_next p None (setl l (nextof s p) s)))"

partial_function (option) remove_loop ::
  "nat \<Rightarrow> 'm kst \<Rightarrow> nat \<Rightarrow> nat option \<Rightarrow> (int \<times> 'm kst) option" where
  "remove_loop p s previous current =
     (case current of
        None \<Rightarrow> Some (-1, s)
      | Some cur \<Rightarrow>
          if cur = p then Some (0, set_next p None (set_next previous (nextof s p) s))
          else remove_loop p s cur (nextof s cur))"

definition removefromlist :: "lref \<Rightarrow> nat option \<Rightarrow> 'm kst \<Rightarrow> (int \<times> 'm kst) res" where
  "removefromlist l po s =
     (case po of
        None \<Rightarrow> Ret (-1, s)
      | Some p \<Rightarrow>
          (case getl s l of
             None \<Rightarrow> Ret (-1, s)
           | Some current \<Rightarrow>
               if current = p then Ret (0, set_next p None (setl l (nextof s current) s))
               else of_loop (remove_loop p s current (nextof s current))))"

definition checkforchildren :: "lref \<Rightarrow> nat \<Rightarrow> 'm kst \<Rightarrow> int res" where
  "checkforchildren l par s =
     (case getl s l of
        None \<Rightarrow> Ret (-1)
      | Some h \<Rightarrow>
          bindr (of_loop (find_from (\<lambda>q. parent (procs s q) = Some par) (nextof s) (Some h)))
            (\<lambda>found. Ret (if found \<noteq> None then 0 else -1)))"

definition adopt_one :: "nat \<Rightarrow> nat \<Rightarrow> 'm kst \<Rightarrow> 'm kst" where
  "adopt_one par q s =
     (if parent (procs s q) = Some par then upd q (parent_update (\<lambda>_. initproc s)) s else s)"

definition adoptzombiechildren :: "lref \<Rightarrow> nat \<Rightarrow> 'm kst \<Rightarrow> 'm kst res" where
  "adoptzombiechildren l par s = of_loop (each_from (adopt_one par) nextof (getl s l) s)"

text \<open>\<open>while(current->next) current = current->next;\<close>\<close>

partial_function (option) last_from :: "('p \<Rightarrow> 'p option) \<Rightarrow> 'p \<Rightarrow> 'p option" where
  "last_from nx current =
     (case nx current of None \<Rightarrow> Some current | Some n \<Rightarrow> last_from nx n)"

definition addtoreadyprioritylist :: "lref \<Rightarrow> nat option \<Rightarrow> 'm kst \<Rightarrow> (int \<times> 'm kst) res" where
  "addtoreadyprioritylist l po s =
     (case po of
        None \<Rightarrow> Ret (-1, s)
      | Some p \<Rightarrow>
          (case getl s l of
             None \<Rightarrow> Ret (0, setl l (Some p) (set_next p None s))
           | Some h \<Rightarrow>
               bindr (of_loop (last_from (nextof s) h))
                 (\<lambda>current. Ret (0, set_next p None (set_next current (Some p) s)))))"

text \<open>
  Running processes and sleeping processes change priority in place (\<open>setprocpriority\<close>); a ready
  process also moves to the list of its new priority (\<open>setreadyprocpriority\<close>).
\<close>

definition setprio :: "u32 \<Rightarrow> proc \<Rightarrow> proc" where
  "setprio prio pr = pr\<lparr>priority := prio, budget := DEFAULT_BUDGET\<rparr>"

definition setprocpriority :: "lref \<Rightarrow> u32 \<Rightarrow> u32 \<Rightarrow> 'm kst \<Rightarrow> (int \<times> 'm kst) res" where
  "setprocpriority l pd prio s =
     bindr (of_loop (find_from (\<lambda>q. pid (procs s q) = pd) (nextof s) (getl s l)))
       (\<lambda>found. case found of
          None \<Rightarrow> Ret (0, s)
        | Some p \<Rightarrow>
            if priority (procs s p) = prio then Ret (-1, s)
            else Ret (1, upd p (setprio prio) s))"

fun setready_loop :: "u32 \<Rightarrow> u32 \<Rightarrow> nat list \<Rightarrow> 'm kst \<Rightarrow> (int \<times> 'm kst) res" where
  "setready_loop pd prio [] s = Ret (0, s)"
| "setready_loop pd prio (i # is) s =
     bindr (of_loop (find_from (\<lambda>q. pid (procs s q) = pd) (nextof s) (ready s i)))
       (\<lambda>found. case found of
          None \<Rightarrow> setready_loop pd prio is s
        | Some p \<Rightarrow>
            if priority (procs s p) = prio then Ret (-1, s)
            else
              bindr (removefromlist (LReady i) (Some p) (upd p (setprio prio) s)) (\<lambda>(rc, s1).
              bindr (guardr (\<not> rc < 0)
                ''Error: Removing from ready list in setreadyprocpriority routine.'') (\<lambda>_.
              bindr (readyref (priority (procs s1 p))) (\<lambda>l.
              bindr (addtoreadyprioritylist l (Some p) s1) (\<lambda>(rc, s2).
              bindr (guardr (\<not> rc < 0)
                ''Error: Adding to ready list in setreadyprocpriority routine.'') (\<lambda>_.
              Ret (1, s2)))))))"

definition setreadyprocpriority :: "u32 \<Rightarrow> u32 \<Rightarrow> 'm kst \<Rightarrow> (int \<times> 'm kst) res" where
  "setreadyprocpriority pd prio s = setready_loop pd prio [0..<MAXPRIO + 1] s"

text \<open>Promotion of the running and the sleeping list, and of two neighbouring ready lists.\<close>

definition promote_one :: "nat \<Rightarrow> 'm kst \<Rightarrow> 'm kst" where
  "promote_one q s =
     (if priority (procs s q) \<noteq> DEFAULT_PRIORITY
      then upd q (priority_update (\<lambda>v. v - 1)) s else s)"

definition promotiononotherlists :: "lref \<Rightarrow> 'm kst \<Rightarrow> 'm kst res" where
  "promotiononotherlists l s = of_loop (each_from promote_one nextof (getl s l) s)"

definition relabel :: "nat \<Rightarrow> nat option \<Rightarrow> 'm kst \<Rightarrow> 'm kst res" where
  "relabel i h s =
     of_loop (each_from (\<lambda>q. upd q (priority_update (\<lambda>_. of_nat i))) nextof h s)"

definition promotiononreadylists :: "nat \<Rightarrow> 'm kst \<Rightarrow> 'm kst res" where
  "promotiononreadylists i s =
     (let p2 = ready s (i + 1)
      in case ready s i of
           None \<Rightarrow>
             bindr (relabel i p2 (setl (LReady i) p2 s)) (\<lambda>s1.
             Ret (setl (LReady (i + 1)) None s1))
         | Some h \<Rightarrow>
             bindr (of_loop (last_from (nextof s) h)) (\<lambda>p1.
             bindr (relabel i p2 (set_next p1 p2 s)) (\<lambda>s1.
             Ret (setl (LReady (i + 1)) None s1))))"

section \<open>Locks of the kernel state\<close>

definition kacquire :: "nat \<Rightarrow> lockid \<Rightarrow> 'm kst \<Rightarrow> 'm kst res" where
  "kacquire c l s =
     bindr (acquire c (locks s l) (cpus s c))
       (\<lambda>(lk, cp). Ret (s\<lparr>locks := (locks s)(l := lk), cpus := (cpus s)(c := cp)\<rparr>))"

definition krelease :: "nat \<Rightarrow> lockid \<Rightarrow> 'm kst \<Rightarrow> 'm kst res" where
  "krelease c l s =
     bindr (release c (locks s l) (cpus s c))
       (\<lambda>(lk, cp). Ret (s\<lparr>locks := (locks s)(l := lk), cpus := (cpus s)(c := cp)\<rparr>))"

definition curproc :: "nat \<Rightarrow> 'm kst \<Rightarrow> nat res" where
  "curproc c s = deref (cpu_proc (cpus s c))"

definition set_curproc :: "nat \<Rightarrow> nat option \<Rightarrow> 'm kst \<Rightarrow> 'm kst" where
  "set_curproc c po s = s\<lparr>cpus := (cpus s)(c := (cpus s c)\<lparr>cpu_proc := po\<rparr>)\<rparr>"

end
