(* ===== verification/Plists.thy ===== *)
theory Plists
  imports Ptable
begin

text \<open>
  The abstraction of the process table's intrusive lists and the correctness of the list routines.
  \<open>plrep X s L\<close> says that the pointers of \<open>s\<close> form the lists \<open>L\<close>, and that every process is on
  exactly the list its state and priority call for, except the processes in \<open>X\<close>, which a routine
  has taken off their list for the moment. \<open>core s\<close> is everything of \<open>s\<close> but the list pointers.
\<close>

section \<open>The abstraction\<close>

definition home_of :: "proc \<Rightarrow> lref" where
  "home_of pr =
     (case state pr of
        UNUSED \<Rightarrow> LFree
      | EMBRYO \<Rightarrow> LEmbryo
      | SLEEPING \<Rightarrow> LSleep
      | RUNNABLE \<Rightarrow> LReady (unat (priority pr))
      | RUNNING \<Rightarrow> LRunning
      | ZOMBIE \<Rightarrow> LZombie)"

definition home :: "'m kst \<Rightarrow> nat \<Rightarrow> lref" where
  "home s p = home_of (procs s p)"

primrec valid_lref :: "lref \<Rightarrow> bool" where
  "valid_lref LFree = True"
| "valid_lref LEmbryo = True"
| "valid_lref LSleep = True"
| "valid_lref LZombie = True"
| "valid_lref LRunning = True"
| "valid_lref (LReady i) = (i \<le> MAXPRIO)"

definition prio_ok :: "'m kst \<Rightarrow> bool" where
  "prio_ok s \<longleftrightarrow> (\<forall>p<NPROC. unat (priority (procs s p)) \<le> MAXPRIO)"

definition plrep :: "nat set \<Rightarrow> 'm kst \<Rightarrow> (lref \<Rightarrow> nat list) \<Rightarrow> bool" where
  "plrep X s L \<longleftrightarrow>
     (\<forall>l. valid_lref l \<longrightarrow>
        chain (nextof s) (getl s l) (L l) \<and>
        set (L l) = {p. p < NPROC \<and> p \<notin> X \<and> home s p = l}) \<and>
     prio_ok s"

text \<open>The invariant of the process table: the lists are right and no process is detached.\<close>

definition plinv :: "'m kst \<Rightarrow> bool" where
  "plinv s \<longleftrightarrow> (\<exists>L. plrep {} s L)"

definition core :: "'m kst \<Rightarrow> 'm kst" where
  "core s = s\<lparr>procs := (\<lambda>p. (procs s p)\<lparr>pnext := None\<rparr>), ready := (\<lambda>_. None), free_l := None,
              sleep_l := None, zombie_l := None, running_l := None, embryo_l := None\<rparr>"

section \<open>Projections\<close>

lemma getl_setl [kst_simps]: "getl (setl l h s) l' = (if l' = l then h else getl s l')"
  by (cases l; cases l') auto

lemma procs_setl [kst_simps]: "procs (setl l h s) = procs s"
  by (cases l) auto

lemma core_setl [kst_simps]: "core (setl l h s) = core s"
  by (cases l) (auto simp: core_def)

lemma nextof_setl [kst_simps]: "nextof (setl l h s) = nextof s"
  by (auto simp: nextof_def procs_setl)

lemma home_of_pnext [simp]: "home_of (pnext_update f pr) = home_of pr"
  by (simp add: home_of_def split: procstate.split)

lemma home_setl [kst_simps]: "home (setl l h s) = home s"
  by (simp add: home_def procs_setl fun_eq_iff)

lemma prio_ok_setl [kst_simps]: "prio_ok (setl l h s) = prio_ok s"
  by (auto simp: prio_ok_def procs_setl)

lemma getl_upd [kst_simps]: "getl (upd p f s) l = getl s l"
  by (cases l) (auto simp: upd_def)

lemma procs_upd [kst_simps]: "procs (upd p f s) = (procs s)(p := f (procs s p))"
  by (simp add: upd_def)

lemma getl_set_next [kst_simps]: "getl (set_next p n s) l = getl s l"
  by (simp add: set_next_def getl_upd)

lemma nextof_set_next [kst_simps]: "nextof (set_next p n s) = (nextof s)(p := n)"
  by (auto simp: nextof_def set_next_def upd_def)

lemma home_set_next [kst_simps]: "home (set_next p n s) = home s"
  by (simp add: home_def set_next_def procs_upd fun_eq_iff)

lemma prio_ok_set_next [kst_simps]: "prio_ok (set_next p n s) = prio_ok s"
  by (auto simp: prio_ok_def set_next_def upd_def)

lemma core_set_next [kst_simps]: "core (set_next p n s) = core s"
  by (auto simp: core_def set_next_def upd_def fun_eq_iff)

lemma core_procs:
  assumes "core s' = core s"
  shows "(procs s' p)\<lparr>pnext := None\<rparr> = (procs s p)\<lparr>pnext := None\<rparr>"
proof -
  have "procs (core s') p = procs (core s) p" by (simp only: assms)
  then show ?thesis by (simp add: core_def)
qed

lemma core_state: "core s' = core s \<Longrightarrow> state (procs s' p) = state (procs s p)"
  and core_priority: "core s' = core s \<Longrightarrow> priority (procs s' p) = priority (procs s p)"
  and core_pid: "core s' = core s \<Longrightarrow> pid (procs s' p) = pid (procs s p)"
  and core_parent: "core s' = core s \<Longrightarrow> parent (procs s' p) = parent (procs s p)"
  and core_chan: "core s' = core s \<Longrightarrow> chan (procs s' p) = chan (procs s p)"
  and core_killed: "core s' = core s \<Longrightarrow> killed (procs s' p) = killed (procs s p)"
  and core_budget: "core s' = core s \<Longrightarrow> budget (procs s' p) = budget (procs s p)"
  and core_ctxt: "core s' = core s \<Longrightarrow> ctxt (procs s' p) = ctxt (procs s p)"
  and core_pgdir: "core s' = core s \<Longrightarrow> pgdir (procs s' p) = pgdir (procs s p)"
  and core_kstack: "core s' = core s \<Longrightarrow> kstack (procs s' p) = kstack (procs s p)"
  and core_ticks_in: "core s' = core s \<Longrightarrow> cpu_ticks_in (procs s' p) = cpu_ticks_in (procs s p)"
  using core_procs [of s' s p] by (metis (no_types) proc.select_convs proc.surjective proc.update_convs(19))+

lemma core_locks: "core s' = core s \<Longrightarrow> locks s' = locks s"
  and core_cpus: "core s' = core s \<Longrightarrow> cpus s' = cpus s"
  and core_ticks: "core s' = core s \<Longrightarrow> ticks s' = ticks s"
  and core_nextpid: "core s' = core s \<Longrightarrow> nextpid s' = nextpid s"
  and core_initproc: "core s' = core s \<Longrightarrow> initproc s' = initproc s"
  and core_promote: "core s' = core s \<Longrightarrow> PromoteAtTime s' = PromoteAtTime s"
  and core_mem: "core s' = core s \<Longrightarrow> mem s' = mem s"
proof -
  assume c: "core s' = core s"
  have "locks (core s') = locks (core s)" by (simp only: c)
  then show "locks s' = locks s" by (simp add: core_def)
  have "cpus (core s') = cpus (core s)" by (simp only: c)
  then show "cpus s' = cpus s" by (simp add: core_def)
  have "ticks (core s') = ticks (core s)" by (simp only: c)
  then show "ticks s' = ticks s" by (simp add: core_def)
  have "nextpid (core s') = nextpid (core s)" by (simp only: c)
  then show "nextpid s' = nextpid s" by (simp add: core_def)
  have "initproc (core s') = initproc (core s)" by (simp only: c)
  then show "initproc s' = initproc s" by (simp add: core_def)
  have "PromoteAtTime (core s') = PromoteAtTime (core s)" by (simp only: c)
  then show "PromoteAtTime s' = PromoteAtTime s" by (simp add: core_def)
  have "mem (core s') = mem (core s)" by (simp only: c)
  then show "mem s' = mem s" by (simp add: core_def)
qed

lemmas core_eqs = core_state core_priority core_pid core_parent core_chan core_killed core_budget
  core_ctxt core_pgdir core_kstack core_ticks_in core_locks core_cpus core_ticks core_nextpid
  core_initproc core_promote core_mem

section \<open>Consequences of the abstraction\<close>

lemma plrep_chain: "plrep X s L \<Longrightarrow> valid_lref l \<Longrightarrow> chain (nextof s) (getl s l) (L l)"
  by (simp add: plrep_def)

lemma plrep_in_iff:
  "plrep X s L \<Longrightarrow> valid_lref l \<Longrightarrow> p \<in> set (L l) \<longleftrightarrow> p < NPROC \<and> p \<notin> X \<and> home s p = l"
  by (simp add: plrep_def)

lemma plrep_distinct: "plrep X s L \<Longrightarrow> valid_lref l \<Longrightarrow> distinct (L l)"
  by (rule chain_distinct [OF plrep_chain])

lemma plrep_prio: "plrep X s L \<Longrightarrow> prio_ok s"
  by (simp add: plrep_def)

lemma prio_okD: "prio_ok s \<Longrightarrow> p < NPROC \<Longrightarrow> unat (priority (procs s p)) \<le> MAXPRIO"
  by (simp add: prio_ok_def)

lemma plrep_disjoint:
  "plrep X s L \<Longrightarrow> valid_lref l \<Longrightarrow> valid_lref l' \<Longrightarrow> l \<noteq> l' \<Longrightarrow> p \<in> set (L l) \<Longrightarrow> p \<notin> set (L l')"
  by (simp add: plrep_in_iff)

lemma valid_home: "prio_ok s \<Longrightarrow> p < NPROC \<Longrightarrow> valid_lref (home s p)"
  by (auto simp: home_def home_of_def prio_ok_def split: procstate.split)

lemma home_core: "home (core s) = home s"
  by (simp add: home_def core_def fun_eq_iff)

lemma core_home: "core s' = core s \<Longrightarrow> home s' = home s"
  by (metis home_core)

lemma readyref_ok:
  "prio_ok s \<Longrightarrow> p < NPROC \<Longrightarrow>
   readyref (priority (procs s p)) = Ret (LReady (unat (priority (procs s p))))"
  by (simp add: readyref_def prio_ok_def)

text \<open>The lists are determined by the state: the abstraction is a function.\<close>

lemma plrep_unique: "plrep X s L \<Longrightarrow> plrep Y s L' \<Longrightarrow> valid_lref l \<Longrightarrow> L l = L' l"
  by (meson chain_unique plrep_chain)

lemma plrep_cong:
  assumes "procs s' = procs s" and "ready s' = ready s" and "free_l s' = free_l s"
    and "sleep_l s' = sleep_l s" and "zombie_l s' = zombie_l s" and "running_l s' = running_l s"
    and "embryo_l s' = embryo_l s"
  shows "plrep X s' L = plrep X s L"
proof -
  have "getl s' l = getl s l" for l by (cases l) (simp_all add: assms)
  moreover have "nextof s' = nextof s" by (simp add: nextof_def assms fun_eq_iff)
  moreover have "home s' = home s" by (simp add: home_def assms fun_eq_iff)
  ultimately show ?thesis by (simp add: plrep_def prio_ok_def assms)
qed

section \<open>The list routines on represented lists\<close>

lemma plrep_detach:
  assumes "plrep X s L" and "valid_lref l" and "p \<in> set (L l)"
    and "chain nx' h' (remove1 p (L l))"
    and "\<And>q. q \<notin> set (L l) \<Longrightarrow> nx' q = nextof s q"
    and "\<And>l'. getl s' l' = (if l' = l then h' else getl s l')"
    and "nextof s' = nx'" and "core s' = core s"
  shows "plrep (insert p X) s' (L(l := remove1 p (L l)))"
proof -
  have "prio_ok s'" using plrep_prio [OF assms(1)]
    by (simp add: prio_ok_def core_priority [OF assms(8)])
  moreover have "chain nx' (getl s l') (L l')" if "valid_lref l'" "l' \<noteq> l" for l'
  proof -
    have "chain (nextof s) (getl s l') (L l')" using assms(1) that(1) by (rule plrep_chain)
    moreover have "\<forall>q\<in>set (L l'). nx' q = nextof s q"
      using that plrep_disjoint [OF assms(1) that(1) assms(2) that(2)] assms(5) by blast
    ultimately show ?thesis using chain_cong [of "L l'" nx' "nextof s"] by blast
  qed
  moreover have "set (remove1 p (L l)) = set (L l) - {p}"
    using plrep_distinct [OF assms(1,2)] by simp
  ultimately show ?thesis
    using assms core_home [OF assms(8)] by (auto simp: plrep_def)
qed

lemma plrep_attach:
  assumes "plrep X s L" and "valid_lref l" and "p \<in> X" and "p < NPROC" and "home s p = l"
    and "chain nx' h' xs" and "set xs = insert p (set (L l))"
    and "\<And>q. q \<notin> set xs \<Longrightarrow> nx' q = nextof s q"
    and "\<And>l'. getl s' l' = (if l' = l then h' else getl s l')"
    and "nextof s' = nx'" and "core s' = core s"
  shows "plrep (X - {p}) s' (L(l := xs))"
proof -
  have "prio_ok s'" using plrep_prio [OF assms(1)]
    by (simp add: prio_ok_def core_priority [OF assms(11)])
  moreover have "chain nx' (getl s l') (L l')" if "valid_lref l'" "l' \<noteq> l" for l'
  proof -
    have "chain (nextof s) (getl s l') (L l')" using assms(1) that(1) by (rule plrep_chain)
    moreover have "q \<notin> set xs" if q: "q \<in> set (L l')" for q
    proof -
      have "q \<notin> set (L l)"
        using plrep_disjoint [OF assms(1) \<open>valid_lref l'\<close> assms(2) \<open>l' \<noteq> l\<close> q] .
      moreover have "q \<noteq> p" using q assms(1,3) \<open>valid_lref l'\<close> by (auto simp: plrep_in_iff)
      ultimately show ?thesis using assms(7) by simp
    qed
    ultimately show ?thesis using assms(8) chain_cong [of "L l'" nx' "nextof s"] by blast
  qed
  ultimately show ?thesis
    using assms core_home [OF assms(11)] by (auto simp: plrep_def)
qed

lemma addtofront_rep:
  assumes "plrep X s L" and "valid_lref l" and "p \<in> X" and "p < NPROC" and "home s p = l"
  shows "plrep (X - {p}) (addtofrontoflist l (Some p) s) (L(l := p # L l))"
    and "core (addtofrontoflist l (Some p) s) = core s"
proof -
  have "p \<notin> set (L l)" using assms by (simp add: plrep_in_iff)
  with plrep_chain [OF assms(1,2)]
  have "chain ((nextof s)(p := getl s l)) (Some p) (p # L l)" by (rule chain_push)
  from plrep_attach [OF assms this]
  show "plrep (X - {p}) (addtofrontoflist l (Some p) s) (L(l := p # L l))"
    by (simp add: addtofrontoflist_def kst_simps)
  show "core (addtofrontoflist l (Some p) s) = core s"
    by (simp add: addtofrontoflist_def kst_simps)
qed

lemma removefromfront_rep:
  assumes "plrep X s L" and "valid_lref l" and "L l = p # ps"
  obtains s' where "removefromfront l s = (0, s')" and "plrep (insert p X) s' (L(l := ps))"
    and "core s' = core s"
proof -
  let ?s = "set_next p None (setl l (nextof s p) s)"
  have c: "chain (nextof s) (getl s l) (p # ps)" using plrep_chain [OF assms(1,2)] assms(3) by simp
  then have h: "getl s l = Some p" and c2: "chain (nextof s) (nextof s p) ps" by auto
  have "p \<notin> set ps" using chain_distinct [OF c] by simp
  with c2 have "chain ((nextof s)(p := None)) (nextof s p) (remove1 p (L l))"
    by (simp add: chain_upd_other assms(3) del: fun_upd_apply)
  then have "plrep (insert p X) ?s (L(l := remove1 p (L l)))"
    by (rule plrep_detach [OF assms(1,2), rotated]) (simp_all add: kst_simps assms(3))
  then have "plrep (insert p X) ?s (L(l := ps))" by (simp add: assms(3))
  then show thesis using that h by (simp add: removefromfront_def kst_simps)
qed

lemma remove_loop_found:
  "chain (nextof s) cur (us @ p # vs) \<Longrightarrow> p \<notin> set us \<Longrightarrow>
   remove_loop p s prev cur =
     Some (0, set_next p None (set_next (last (prev # us)) (nextof s p) s))"
proof (induction us arbitrary: prev cur)
  case Nil
  then show ?case by (simp add: remove_loop.simps)
next
  case (Cons u us)
  then have "cur = Some u" and "u \<noteq> p" and "chain (nextof s) (nextof s u) (us @ p # vs)" by auto
  with Cons.IH [of "nextof s u" u] Cons.prems(2) show ?case by (simp add: remove_loop.simps [of p s prev])
qed

lemma remove_loop_absent:
  "chain (nextof s) cur xs \<Longrightarrow> p \<notin> set xs \<Longrightarrow> remove_loop p s prev cur = Some (-1, s)"
proof (induction xs arbitrary: prev cur)
  case Nil
  then show ?case by (simp add: remove_loop.simps)
next
  case (Cons x xs)
  then show ?case by (auto simp: remove_loop.simps [of p s prev])
qed

lemma removefromlist_absent:
  assumes "plrep X s L" and "valid_lref l" and "p \<notin> set (L l)"
  shows "removefromlist l (Some p) s = Ret (-1, s)"
proof (cases "L l")
  case Nil
  with plrep_chain [OF assms(1,2)] show ?thesis by (simp add: removefromlist_def)
next
  case (Cons x xs)
  with plrep_chain [OF assms(1,2)] have "getl s l = Some x" "chain (nextof s) (nextof s x) xs" by auto
  with Cons assms(3) show ?thesis by (simp add: removefromlist_def remove_loop_absent)
qed

lemma removefromlist_rep:
  assumes "plrep X s L" and "valid_lref l" and "p \<in> set (L l)"
  obtains s' where "removefromlist l (Some p) s = Ret (0, s')"
    and "plrep (insert p X) s' (L(l := remove1 p (L l)))" and "core s' = core s"
proof (cases "L l")
  case Nil
  with assms(3) show thesis by simp
next
  case (Cons x xs)
  have c: "chain (nextof s) (getl s l) (x # xs)" using plrep_chain [OF assms(1,2)] Cons by simp
  show thesis
  proof (cases "x = p")
    case True
    obtain s' where s': "removefromfront l s = (0, s')" "plrep (insert p X) s' (L(l := xs))"
      "core s' = core s"
      using removefromfront_rep [OF assms(1,2)] Cons True by metis
    with c True Cons show thesis
      using that [of s'] by (auto simp: removefromlist_def removefromfront_def)
  next
    case False
    with assms(3) Cons obtain us vs where xs: "xs = us @ p # vs" and pus: "p \<notin> set us"
      by (auto dest: split_list_first)
    let ?pre = "last (x # us)"
    let ?s = "set_next p None (set_next ?pre (nextof s p) s)"
    have split: "x # us = butlast (x # us) @ [?pre]" by (metis append_butlast_last_id list.distinct(1))
    have "chain (nextof s) (getl s l) (butlast (x # us) @ ?pre # p # vs)"
      using c xs split by (metis append.assoc append_Cons append_Nil)
    then have "chain ((nextof s)(?pre := nextof s p, p := None)) (getl s l) (butlast (x # us) @ ?pre # vs)"
      by (rule chain_unlink)
    moreover have rem: "remove1 p (L l) = butlast (x # us) @ ?pre # vs"
      using Cons xs pus False split by (metis append.assoc append_Cons append_Nil remove1.simps(2) remove1_append)
    ultimately have "chain ((nextof s)(?pre := nextof s p, p := None)) (getl s l) (remove1 p (L l))"
      by simp
    moreover have "?pre \<in> set (L l)" using Cons xs by (auto simp: last_in_set)
    ultimately have "plrep (insert p X) ?s (L(l := remove1 p (L l)))"
      using assms(3) by (intro plrep_detach [OF assms]) (auto simp: kst_simps simp del: last.simps)
    moreover have "removefromlist l (Some p) s = Ret (0, ?s)"
      using c xs pus False remove_loop_found [of s "nextof s x" us p vs x]
      by (simp add: removefromlist_def)
    ultimately show thesis using that by (simp add: kst_simps)
  qed
qed

lemma last_from_chain: "chain nx (Some h) xs \<Longrightarrow> last_from nx h = Some (last xs)"
proof (induction xs arbitrary: h)
  case Nil
  then show ?case by simp
next
  case (Cons x xs)
  then show ?case by (cases xs) (auto simp: last_from.simps [of nx x])
qed

lemma addtoready_rep:
  assumes "plrep X s L" and "valid_lref l" and "p \<in> X" and "p < NPROC" and "home s p = l"
  obtains s' where "addtoreadyprioritylist l (Some p) s = Ret (0, s')"
    and "plrep (X - {p}) s' (L(l := L l @ [p]))" and "core s' = core s"
proof -
  have c: "chain (nextof s) (getl s l) (L l)" using assms(1,2) by (rule plrep_chain)
  have p: "p \<notin> set (L l)" using assms by (simp add: plrep_in_iff)
  show thesis
  proof (cases "L l" rule: rev_cases)
    case Nil
    let ?s = "setl l (Some p) (set_next p None s)"
    have "chain ((nextof s)(p := None)) (Some p) [p]" by simp
    from plrep_attach [OF assms this, of ?s]
    have "plrep (X - {p}) ?s (L(l := L l @ [p]))" by (simp add: kst_simps Nil)
    then show thesis using that c Nil by (simp add: addtoreadyprioritylist_def kst_simps)
  next
    case (snoc ys y)
    then obtain h where h: "getl s l = Some h" using c by (cases "getl s l") auto
    have last: "last_from (nextof s) h = Some y"
      using c h snoc last_from_chain [of "nextof s" h "L l"] by simp
    let ?s = "set_next p None (set_next y (Some p) s)"
    have "chain ((nextof s)(y := Some p, p := None)) (getl s l) (L l @ [p])"
      using chain_snoc [of "nextof s" "getl s l" ys y p] c p snoc by simp
    then have "plrep (X - {p}) ?s (L(l := L l @ [p]))"
      by (rule plrep_attach [OF assms]) (auto simp: kst_simps snoc)
    then show thesis using that h last by (simp add: addtoreadyprioritylist_def kst_simps)
  qed
qed

text \<open>Changing fields of a process.\<close>

lemma nextof_upd:
  "(\<And>pr. pnext (f pr) = pnext pr) \<Longrightarrow> nextof (upd p f s) = nextof s"
  by (auto simp: nextof_def procs_upd)

lemma plrep_upd_detached:
  assumes "plrep X s L" and "p \<in> X" and "\<And>pr. pnext (f pr) = pnext pr"
    and "unat (priority (f (procs s p))) \<le> MAXPRIO"
  shows "plrep X (upd p f s) L"
proof -
  have "prio_ok (upd p f s)"
    using plrep_prio [OF assms(1)] assms(4) by (simp add: prio_ok_def procs_upd)
  moreover have "(q < NPROC \<and> q \<notin> X \<and> home (upd p f s) q = l)
              = (q < NPROC \<and> q \<notin> X \<and> home s q = l)" for q l
    using assms(2) by (cases "q = p") (auto simp: home_def procs_upd)
  ultimately show ?thesis
    using assms(1) by (simp add: plrep_def getl_upd nextof_upd [OF assms(3)])
qed

lemma plrep_upd_same_home:
  assumes "plrep X s L" and "\<And>pr. pnext (f pr) = pnext pr"
    and "home_of (f (procs s p)) = home_of (procs s p)"
    and "unat (priority (f (procs s p))) \<le> MAXPRIO"
  shows "plrep X (upd p f s) L"
proof -
  have "prio_ok (upd p f s)"
    using plrep_prio [OF assms(1)] assms(4) by (simp add: prio_ok_def procs_upd)
  moreover have "home (upd p f s) = home s"
    using assms(3) by (auto simp: home_def procs_upd)
  ultimately show ?thesis
    using assms(1) by (simp add: plrep_def getl_upd nextof_upd [OF assms(2)])
qed

lemma core_upd:
  "(\<And>pr. pnext_update (\<lambda>_. None) (f pr) = f (pnext_update (\<lambda>_. None) pr)) \<Longrightarrow>
   core (upd p f s) = upd p f (core s)"
  by (simp add: core_def upd_def fun_eq_iff)

lemma core_upd_cong: "core s' = core s \<Longrightarrow>
  (\<And>pr. pnext_update (\<lambda>_. None) (f pr) = f (pnext_update (\<lambda>_. None) pr)) \<Longrightarrow>
  core (upd p f s') = core (upd p f s)"
  by (simp add: core_upd)

section \<open>Searches and walks on represented lists\<close>

lemma find_from_rep:
  "plrep X s L \<Longrightarrow> valid_lref l \<Longrightarrow> find_from P (nextof s) (getl s l) = Some (find P (L l))"
  by (rule find_from_chain [OF plrep_chain])

lemma checkforchildren_rep:
  assumes "plrep X s L" and "valid_lref l"
  shows "checkforchildren l par s =
           Ret (if \<exists>q\<in>set (L l). parent (procs s q) = Some par then 0 else -1)"
proof -
  have "find_from (\<lambda>q. parent (procs s q) = Some par) (nextof s) (getl s l)
      = Some (find (\<lambda>q. parent (procs s q) = Some par) (L l))"
    using assms by (rule find_from_rep)
  then show ?thesis
    using plrep_chain [OF assms]
    by (cases "getl s l") (auto simp: checkforchildren_def find_None_all
        simp del: find.simps chain_Some dest: find_Some_in_set)
qed

lemma each_from_upd:
  assumes "plrep X s L" and "valid_lref l" and "\<And>p s. nextof (f p s) = nextof s"
  shows "each_from f nextof (getl s l) s = Some (fold f (L l) s)"
  using plrep_chain [OF assms(1,2)] by (intro each_from_chain) (simp_all add: assms(3))

end
