(* ===== verification/Proc.thy ===== *)
theory Proc
  imports Plists
begin

text \<open>
  The operations of \<open>src/proc.c\<close> on the process table: allocation, \<open>fork\<close>, \<open>exit\<close>, \<open>wait\<close>, the
  scheduler, \<open>yield\<close>, \<open>sleep\<close>, \<open>wakeup\<close>, \<open>kill\<close> and \<open>setpriority\<close>. The first argument \<open>c\<close> is the CPU
  that runs the code; its current process is \<open>cpu_proc (cpus s c)\<close>.

  A call that gives up the CPU is cut at its \<open>swtch\<close>: the definition named after the call is the
  part before it, the one with \<open>_resume\<close> the part after it.
\<close>

section \<open>The components the process code calls\<close>

text \<open>
  Memory and file operations, as functions of the state they keep. \<open>fileclose\<close> and the final
  \<open>iput\<close> of \<open>exit\<close> may wake other processes, so they act on the whole state.
\<close>

record 'm os =
  os_kalloc :: "'m \<Rightarrow> u32 option \<times> 'm"
  os_kfree :: "u32 option \<Rightarrow> 'm \<Rightarrow> 'm res"
  os_setupkvm :: "'m \<Rightarrow> (u32 option \<times> 'm) res"
  os_inituvm :: "u32 option \<Rightarrow> 'm \<Rightarrow> 'm res"
  os_copyuvm :: "u32 option \<Rightarrow> u32 \<Rightarrow> 'm \<Rightarrow> (u32 option \<times> 'm) res"
  os_freevm :: "u32 option \<Rightarrow> 'm \<Rightarrow> 'm res"
  os_allocuvm :: "u32 option \<Rightarrow> u32 \<Rightarrow> u32 \<Rightarrow> 'm \<Rightarrow> (u32 \<times> 'm) res"
  os_deallocuvm :: "u32 option \<Rightarrow> u32 \<Rightarrow> u32 \<Rightarrow> 'm \<Rightarrow> (u32 \<times> 'm) res"
  os_filedup :: "nat \<Rightarrow> 'm \<Rightarrow> 'm res"
  os_idup :: "nat option \<Rightarrow> 'm \<Rightarrow> (nat option \<times> 'm) res"
  os_namei :: "string \<Rightarrow> 'm \<Rightarrow> (nat option \<times> 'm) res"
  os_fileclose :: "nat \<Rightarrow> nat \<Rightarrow> 'm kst \<Rightarrow> 'm kst res"
  os_iput_op :: "nat \<Rightarrow> nat option \<Rightarrow> 'm kst \<Rightarrow> 'm kst res"

section \<open>Allocation\<close>

text \<open>\<open>allocproc\<close> up to the release of the table lock.\<close>

definition allocproc_take :: "nat \<Rightarrow> 'm kst \<Rightarrow> (nat option \<times> 'm kst) res" where
  "allocproc_take c s0 =
     bindr (kacquire c LkPtable s0) (\<lambda>s.
     case free_l s of
       None \<Rightarrow> bindr (krelease c LkPtable s) (\<lambda>s. Ret (None, s))
     | Some p \<Rightarrow>
         (let (rc, s) = removefromfront LFree s
          in bindr (guardr (\<not> rc < 0) ''Failed to remove from embryo.'') (\<lambda>_.
             bindr (assertstate p UNUSED s) (\<lambda>_.
             (let s = upd p (state_update (\<lambda>_. EMBRYO)) s;
                  s = addtofrontoflist LEmbryo (Some p) s;
                  s = upd p (pid_update (\<lambda>_. nextpid s)) s;
                  s = s\<lparr>nextpid := nextpid s + 1\<rparr>
              in bindr (krelease c LkPtable s) (\<lambda>s. Ret (Some p, s)))))))"

text \<open>
  Giving an embryo back, as \<open>allocproc\<close> and \<open>fork\<close> do when memory runs out; they differ in the
  message of the panic.
\<close>

definition embryo_to_free :: "string \<Rightarrow> nat \<Rightarrow> nat \<Rightarrow> 'm kst \<Rightarrow> 'm kst res" where
  "embryo_to_free msg c p s0 =
     bindr (kacquire c LkPtable s0) (\<lambda>s.
     bindr (removefromlist LEmbryo (Some p) s) (\<lambda>(rc, s).
     bindr (guardr (\<not> rc < 0) msg) (\<lambda>_.
     bindr (assertstate p EMBRYO s) (\<lambda>_.
     krelease c LkPtable
       (addtofrontoflist LFree (Some p) (upd p (state_update (\<lambda>_. UNUSED)) s))))))"

definition proc_setup :: "u32 \<Rightarrow> proc \<Rightarrow> proc" where
  "proc_setup now pr =
     pr\<lparr>ctxt := AtForkret, start_ticks := now, cpu_ticks_total := 0, cpu_ticks_in := 0,
        budget := DEFAULT_BUDGET, priority := DEFAULT_PRIORITY\<rparr>"

definition allocproc :: "'m os \<Rightarrow> nat \<Rightarrow> 'm kst \<Rightarrow> (nat option \<times> 'm kst) res" where
  "allocproc os c s0 =
     bindr (allocproc_take c s0) (\<lambda>(po, s).
     case po of
       None \<Rightarrow> Ret (None, s)
     | Some p \<Rightarrow>
         (let (k, m) = os_kalloc os (mem s);
              s = upd p (kstack_update (\<lambda>_. k)) (s\<lparr>mem := m\<rparr>)
          in case k of
               None \<Rightarrow>
                 bindr (embryo_to_free ''Failure removing from embryo list in allocproc.'' c p s)
                   (\<lambda>s. Ret (None, s))
             | Some _ \<Rightarrow> Ret (Some p, upd p (proc_setup (ticks s)) s)))"

section \<open>The first process\<close>

fun free_all :: "nat list \<Rightarrow> 'm kst \<Rightarrow> 'm kst" where
  "free_all [] s = s"
| "free_all (p # ps) s = free_all ps (addtofrontoflist LFree (Some p) s)"

definition init_lists :: "'m kst \<Rightarrow> 'm kst" where
  "init_lists s =
     free_all [0..<NPROC]
       (s\<lparr>free_l := None, embryo_l := None, sleep_l := None, zombie_l := None,
          running_l := None,
          ready := (\<lambda>i. if i \<le> MAXPRIO then None else ready s i)\<rparr>)"

definition init_tf :: "trapframe \<Rightarrow> trapframe" where
  "init_tf t =
     \<lparr>tf_eax = 0, tf_trapno = 0, tf_err = 0, tf_eip = 0, tf_cs = 35, tf_eflags = 512,
      tf_esp = 4096, tf_ss = 43, tf_ds = 43, tf_es = 43\<rparr>"

definition userinit_ready :: "nat \<Rightarrow> nat \<Rightarrow> 'm kst \<Rightarrow> 'm kst res" where
  "userinit_ready c p s0 =
     bindr (kacquire c LkPtable s0) (\<lambda>s.
     (let s = s\<lparr>PromoteAtTime := TICKS_TO_PROMOTE\<rparr>
      in bindr (removefromlist LEmbryo (Some p) s) (\<lambda>(rc, s).
         bindr (guardr (\<not> rc < 0) ''Failure to remove from embryo list in userinit'') (\<lambda>_.
         bindr (assertstate p EMBRYO s) (\<lambda>_.
         krelease c LkPtable
           (setl (LReady 0) (Some p)
             (set_next p None (upd p (state_update (\<lambda>_. RUNNABLE)) s))))))))"

definition userinit :: "'m os \<Rightarrow> nat \<Rightarrow> 'm kst \<Rightarrow> 'm kst res" where
  "userinit os c s0 =
     bindr (kacquire c LkPtable s0) (\<lambda>s.
     bindr (krelease c LkPtable (init_lists s)) (\<lambda>s.
     bindr (allocproc os c s) (\<lambda>(po, s).
     (let s = s\<lparr>initproc := po\<rparr>
      in bindr (deref po) (\<lambda>p.
         bindr (os_setupkvm os (mem s)) (\<lambda>(pg, m).
         (let s = upd p (pgdir_update (\<lambda>_. pg)) (s\<lparr>mem := m\<rparr>)
          in bindr (guardr (pg \<noteq> None) ''userinit: out of memory?'') (\<lambda>_.
             bindr (os_inituvm os pg (mem s)) (\<lambda>m.
             (let s = upd p (\<lambda>pr. pr\<lparr>sz := 4096, tf := init_tf (tf pr), uid := DEFAULT_UID,
                                     gid := DEFAULT_GID, name := ''initcode''\<rparr>) (s\<lparr>mem := m\<rparr>)
              in bindr (os_namei os ''/'' (mem s)) (\<lambda>(ip, m).
                 userinit_ready c p (upd p (cwd_update (\<lambda>_. ip)) (s\<lparr>mem := m\<rparr>)))))))))))))"

section \<open>Context switches\<close>

text \<open>\<open>switchuvm\<close> (\<open>src/vm.c\<close>) as far as the process table sees it: it refuses a null page table.\<close>

definition switchuvm :: "nat \<Rightarrow> nat \<Rightarrow> 'm kst \<Rightarrow> 'm kst res" where
  "switchuvm c p s =
     (let s = s\<lparr>cpus := (cpus s)(c := pushcli (cpus s c))\<rparr>
      in bindr (guardr (pgdir (procs s p) \<noteq> None) ''switchuvm: no pgdir'') (\<lambda>_.
         bindr (popcli (cpus s c)) (\<lambda>cp. Ret (s\<lparr>cpus := (cpus s)(c := cp)\<rparr>))))"

text \<open>
  \<open>sched\<close> up to its \<open>swtch\<close>; \<open>k\<close> is the place the process resumes at, which gets the saved
  \<open>intena\<close>.
\<close>

definition sched :: "nat \<Rightarrow> (bool \<Rightarrow> resume) \<Rightarrow> 'm kst \<Rightarrow> 'm kst res" where
  "sched c k s0 =
     bindr (curproc c s0) (\<lambda>p.
     (let s = upd p (\<lambda>pr. pr\<lparr>cpu_ticks_total := cpu_ticks_total pr + (ticks s0 - cpu_ticks_in pr)\<rparr>) s0
      in bindr (guardr (holding (locks s LkPtable) c) ''sched ptable.lock'') (\<lambda>_.
         bindr (guardr (ncli (cpus s c) = 1) ''sched locks'') (\<lambda>_.
         bindr (guardr (state (procs s p) \<noteq> RUNNING) ''sched running'') (\<lambda>_.
         bindr (guardr (\<not> if_flag (cpus s c)) ''sched interruptible'') (\<lambda>_.
         Ret (upd p (ctxt_update (\<lambda>_. k (intena (cpus s c)))) s)))))))"

text \<open>The rest of \<open>sched\<close>: \<open>cpu->intena = intena\<close>, on the CPU the process runs on now.\<close>

definition sched_resume :: "nat \<Rightarrow> bool \<Rightarrow> 'm kst \<Rightarrow> 'm kst" where
  "sched_resume c ie s = s\<lparr>cpus := (cpus s)(c := (cpus s c)\<lparr>intena := ie\<rparr>)\<rparr>"

section \<open>Giving up the CPU\<close>

text \<open>
  The time budget, charged by \<open>yield\<close> and \<open>sleep\<close>. The budget is unsigned: \<open>budget <= 0\<close> holds
  exactly at \<open>0\<close>.
\<close>

definition charge :: "u32 \<Rightarrow> proc \<Rightarrow> proc" where
  "charge now pr0 =
     (let pr = pr0\<lparr>budget := budget pr0 - (now - cpu_ticks_in pr0)\<rparr>
      in if budget pr \<le> 0
         then if unat (priority pr) \<noteq> MAXPRIO
              then pr\<lparr>priority := priority pr + 1, budget := DEFAULT_BUDGET\<rparr>
              else pr\<lparr>budget := DEFAULT_BUDGET\<rparr>
         else pr)"

definition yield :: "nat \<Rightarrow> 'm kst \<Rightarrow> 'm kst res" where
  "yield c s0 =
     bindr (kacquire c LkPtable s0) (\<lambda>s.
     bindr (removefromlist LRunning (cpu_proc (cpus s c)) s) (\<lambda>(rc, s).
     bindr (curproc c s) (\<lambda>p.
     bindr (assertstate p RUNNING s) (\<lambda>_.
     (let s = upd p (state_update (\<lambda>_. RUNNABLE)) s;
          s = upd p (charge (ticks s)) s
      in bindr (readyref (priority (procs s p))) (\<lambda>l.
         bindr (addtoreadyprioritylist l (Some p) s) (\<lambda>(rc, s).
         bindr (guardr (\<not> rc < 0) ''Failure to add to ready list in yield'') (\<lambda>_.
         sched c InYield s))))))))"

definition yield_resume :: "nat \<Rightarrow> bool \<Rightarrow> 'm kst \<Rightarrow> 'm kst res" where
  "yield_resume c ie s = krelease c LkPtable (sched_resume c ie s)"

text \<open>\<open>sleep\<close> from the point where the table lock is held and the caller's lock released.\<close>

definition sleep_locked :: "nat \<Rightarrow> nat \<Rightarrow> chan option \<Rightarrow> lockid option \<Rightarrow> 'm kst \<Rightarrow> 'm kst res" where
  "sleep_locked c p ch lko s0 =
     (let s = upd p (chan_update (\<lambda>_. ch)) s0
      in bindr (removefromlist LRunning (Some p) s) (\<lambda>(rc, s).
         bindr (guardr (\<not> rc < 0) ''Failed to remove from running list in sleep '') (\<lambda>_.
         bindr (assertstate p RUNNING s) (\<lambda>_.
         (let s = upd p (charge (ticks s)) s;
              s = upd p (state_update (\<lambda>_. SLEEPING)) s;
              s = addtofrontoflist LSleep (Some p) s
          in sched c (\<lambda>ie. InSleep ie lko) s)))))"

text \<open>
  \<open>sleep\<close> acts on the locks one after the other, and other CPUs run in between: its parts, in the
  order of the code for the lock \<open>lk\<close> it is given. \<open>Block\<close> is the part from there to \<open>sched\<close>.
\<close>

datatype sleep_part = AcquireTable | ReleaseLock lockid | Block

definition sleep_parts :: "lockid option \<Rightarrow> sleep_part list" where
  "sleep_parts lko =
     (if lko \<noteq> Some LkPtable
      then AcquireTable # (case lko of None \<Rightarrow> [] | Some l \<Rightarrow> [ReleaseLock l])
      else []) @ [Block]"

fun run_part :: "nat \<Rightarrow> nat \<Rightarrow> chan option \<Rightarrow> lockid option \<Rightarrow> sleep_part \<Rightarrow> 'm kst \<Rightarrow> 'm kst res" where
  "run_part c p ch lko AcquireTable s = kacquire c LkPtable s"
| "run_part c p ch lko (ReleaseLock l) s = krelease c l s"
| "run_part c p ch lko Block s = sleep_locked c p ch lko s"

fun run_parts :: "nat \<Rightarrow> nat \<Rightarrow> chan option \<Rightarrow> lockid option \<Rightarrow> sleep_part list \<Rightarrow> 'm kst \<Rightarrow> 'm kst res" where
  "run_parts c p ch lko [] s = Ret s"
| "run_parts c p ch lko (x # xs) s = bindr (run_part c p ch lko x s) (run_parts c p ch lko xs)"

definition sleep :: "nat \<Rightarrow> chan option \<Rightarrow> lockid option \<Rightarrow> 'm kst \<Rightarrow> 'm kst res" where
  "sleep c ch lko s0 =
     bindr (guardr (cpu_proc (cpus s0 c) \<noteq> None) ''sleep'') (\<lambda>_.
     bindr (curproc c s0) (\<lambda>p.
     run_parts c p ch lko (sleep_parts lko) s0))"

text \<open>After \<open>sched\<close>: up to the release of the table lock, and with the caller's lock taken again.\<close>

definition sleep_wake :: "nat \<Rightarrow> bool \<Rightarrow> lockid option \<Rightarrow> 'm kst \<Rightarrow> 'm kst res" where
  "sleep_wake c ie lko s0 =
     (let s = sched_resume c ie s0
      in bindr (curproc c s) (\<lambda>p.
         (let s = upd p (chan_update (\<lambda>_. None)) s
          in if lko \<noteq> Some LkPtable then krelease c LkPtable s else Ret s)))"

definition sleep_resume :: "nat \<Rightarrow> bool \<Rightarrow> lockid option \<Rightarrow> 'm kst \<Rightarrow> 'm kst res" where
  "sleep_resume c ie lko s0 =
     bindr (sleep_wake c ie lko s0) (\<lambda>s.
     if lko \<noteq> Some LkPtable then (case lko of None \<Rightarrow> Ret s | Some l \<Rightarrow> kacquire c l s) else Ret s)"

section \<open>Waking up\<close>

definition wake_one :: "nat \<Rightarrow> 'm kst \<Rightarrow> 'm kst res" where
  "wake_one p s0 =
     bindr (removefromlist LSleep (Some p) s0) (\<lambda>(rc, s).
     if rc = 0
     then bindr (assertstate p SLEEPING s) (\<lambda>_.
          (let s = upd p (state_update (\<lambda>_. RUNNABLE)) s
           in bindr (readyref (priority (procs s p))) (\<lambda>l.
              bindr (addtoreadyprioritylist l (Some p) s) (\<lambda>(rc, s).
              bindr (guardr (\<not> rc < 0) ''Failed to add to ready list in wakeup1.'') (\<lambda>_.
              Ret s)))))
     else Ret s)"

partial_function (option) wakeup1_loop ::
  "chan option \<Rightarrow> nat option \<Rightarrow> 'm kst \<Rightarrow> 'm kst res option" where
  "wakeup1_loop ch cur s =
     (case cur of
        None \<Rightarrow> Some (Ret s)
      | Some p \<Rightarrow>
          (let temp = nextof s p
           in case (if chan (procs s p) = ch then wake_one p s else Ret s) of
                Ret s' \<Rightarrow> wakeup1_loop ch temp s'
              | Panic m \<Rightarrow> Some (Panic m)
              | Fault \<Rightarrow> Some Fault
              | Hang \<Rightarrow> Some Hang))"

definition wakeup1 :: "chan option \<Rightarrow> 'm kst \<Rightarrow> 'm kst res" where
  "wakeup1 ch s = bindr (of_loop (wakeup1_loop ch (sleep_l s) s)) (\<lambda>r. r)"

definition wakeup :: "nat \<Rightarrow> chan option \<Rightarrow> 'm kst \<Rightarrow> 'm kst res" where
  "wakeup c ch s0 =
     bindr (kacquire c LkPtable s0) (\<lambda>s.
     bindr (wakeup1 ch s) (\<lambda>s.
     krelease c LkPtable s))"

text \<open>The table scan the lists replaced (\<open>wakeup1\<close> without \<open>CS333_P3P4\<close>).\<close>

definition wakeup1_scan :: "chan option \<Rightarrow> 'm kst \<Rightarrow> 'm kst" where
  "wakeup1_scan ch s =
     fold (\<lambda>p s. if state (procs s p) = SLEEPING \<and> chan (procs s p) = ch
                 then upd p (state_update (\<lambda>_. RUNNABLE)) s else s) [0..<NPROC] s"

end
