(* ===== verification/Wakeup.thy ===== *)
theory Wakeup
  imports Proc
begin

text \<open>
  Correctness of \<open>wakeup1\<close> (\<open>src/proc.c\<close>): what it does to the lists and to the processes, and
  that it changes the same processes as the table scan it replaced. Also the lock wrappers
  \<open>kacquire\<close> and \<open>krelease\<close> on states.
\<close>

section \<open>Taking and releasing a lock of the kernel state\<close>

definition lk_taken :: "nat \<Rightarrow> lockid \<Rightarrow> 'm kst \<Rightarrow> 'm kst" where
  "lk_taken c l s =
     s\<lparr>locks := (locks s)(l := (locks s l)\<lparr>locked := 1, lk_cpu := Some c\<rparr>),
       cpus := (cpus s)(c := pushcli (cpus s c))\<rparr>"

lemma kacquire_free: "locked (locks s l) = 0 \<Longrightarrow> kacquire c l s = Ret (lk_taken c l s)"
  by (simp add: kacquire_def acquire_free lk_taken_def)

lemma plrep_locks [kst_simps]: "plrep X (s\<lparr>locks := f, cpus := g\<rparr>) L = plrep X s L"
  by (rule plrep_cong) simp_all

lemma plrep_cpus [kst_simps]: "plrep X (s\<lparr>cpus := g\<rparr>) L = plrep X s L"
  by (rule plrep_cong) simp_all

lemma plrep_mem [kst_simps]: "plrep X (s\<lparr>mem := m\<rparr>) L = plrep X s L"
  by (rule plrep_cong) simp_all

lemma plrep_nextpid [kst_simps]: "plrep X (s\<lparr>nextpid := m\<rparr>) L = plrep X s L"
  by (rule plrep_cong) simp_all

lemma plrep_promote [kst_simps]: "plrep X (s\<lparr>PromoteAtTime := m\<rparr>) L = plrep X s L"
  by (rule plrep_cong) simp_all

lemma plrep_initproc [kst_simps]: "plrep X (s\<lparr>initproc := m\<rparr>) L = plrep X s L"
  by (rule plrep_cong) simp_all

lemma plrep_ticks [kst_simps]: "plrep X (s\<lparr>ticks := m\<rparr>) L = plrep X s L"
  by (rule plrep_cong) simp_all

lemma plrep_lk_taken [kst_simps]: "plrep X (lk_taken c l s) L = plrep X s L"
  by (simp add: lk_taken_def plrep_locks)

lemma plrep_set_curproc [kst_simps]: "plrep X (set_curproc c po s) L = plrep X s L"
  by (simp add: set_curproc_def plrep_cpus)

text \<open>The state after the release by CPU \<open>c\<close>: only the lock and the CPU's nesting change.\<close>

definition lk_released :: "nat \<Rightarrow> lockid \<Rightarrow> 'm kst \<Rightarrow> 'm kst" where
  "lk_released c l s =
     s\<lparr>locks := (locks s)(l := (locks s l)\<lparr>lk_cpu := None, locked := 0\<rparr>),
       cpus := (cpus s)(c := (cpus s c)\<lparr>ncli := ncli (cpus s c) - 1,
                 if_flag := (ncli (cpus s c) = 1 \<and> intena (cpus s c))\<rparr>)\<rparr>"

lemma krelease_held:
  "holding (locks s l) c \<Longrightarrow> cpu_ok (cpus s c) \<Longrightarrow> 0 < ncli (cpus s c) \<Longrightarrow>
   krelease c l s = Ret (lk_released c l s)"
  by (simp add: krelease_def release_def popcli_ok xchg_def lk_released_def)

lemma plrep_lk_released [kst_simps]: "plrep X (lk_released c l s) L = plrep X s L"
  by (simp add: lk_released_def plrep_locks)

text \<open>
  CPU \<open>c\<close> holds the table lock and nothing else: the situation inside every critical section of
  \<open>src/proc.c\<close>.
\<close>

definition in_ptable :: "nat \<Rightarrow> 'm kst \<Rightarrow> bool" where
  "in_ptable c s \<longleftrightarrow>
     holding (locks s LkPtable) c \<and> ncli (cpus s c) = 1 \<and> \<not> if_flag (cpus s c)"

text \<open>CPU \<open>c\<close> may enter: it holds no lock, and the table lock is free.\<close>

definition may_enter :: "nat \<Rightarrow> 'm kst \<Rightarrow> bool" where
  "may_enter c s \<longleftrightarrow> locked (locks s LkPtable) = 0 \<and> ncli (cpus s c) = 0"

lemma in_ptable_taken: "may_enter c s \<Longrightarrow> in_ptable c (lk_taken c LkPtable s)"
  by (simp add: may_enter_def in_ptable_def lk_taken_def holding_def)

lemma kacquire_enter: "may_enter c s \<Longrightarrow> kacquire c LkPtable s = Ret (lk_taken c LkPtable s)"
  by (simp add: may_enter_def kacquire_free)

lemma krelease_in: "in_ptable c s \<Longrightarrow> krelease c LkPtable s = Ret (lk_released c LkPtable s)"
  by (rule krelease_held) (auto simp: in_ptable_def cpu_ok_def)

lemma may_enter_released: "in_ptable c s \<Longrightarrow> may_enter c (lk_released c LkPtable s)"
  by (simp add: in_ptable_def may_enter_def lk_released_def)

lemma in_ptable_cong:
  "locks s' = locks s \<Longrightarrow> cpus s' = cpus s \<Longrightarrow> in_ptable c s' = in_ptable c s"
  by (simp add: in_ptable_def)

lemma in_ptable_core: "core s' = core s \<Longrightarrow> in_ptable c s' = in_ptable c s"
  by (rule in_ptable_cong) (rule core_locks core_cpus, assumption)+

lemma in_ptable_upd [kst_simps]: "in_ptable c (upd p f s) = in_ptable c s"
  by (simp add: in_ptable_def upd_def)

lemma procs_lk_taken [kst_simps]: "procs (lk_taken c l s) = procs s"
  and procs_lk_released [kst_simps]: "procs (lk_released c l s) = procs s"
  and cpu_proc_lk_taken [kst_simps]: "cpu_proc (cpus (lk_taken c l s) d) = cpu_proc (cpus s d)"
  and cpu_proc_lk_released [kst_simps]: "cpu_proc (cpus (lk_released c l s) d) = cpu_proc (cpus s d)"
  and ticks_lk_taken [kst_simps]: "ticks (lk_taken c l s) = ticks s"
  and ticks_lk_released [kst_simps]: "ticks (lk_released c l s) = ticks s"
  by (simp_all add: lk_taken_def lk_released_def)

section \<open>Waking one process\<close>

definition wake_set :: "nat set \<Rightarrow> 'm kst \<Rightarrow> 'm kst" where
  "wake_set A s =
     s\<lparr>procs := (\<lambda>p. if p \<in> A then (procs s p)\<lparr>state := RUNNABLE\<rparr> else procs s p)\<rparr>"

lemma wake_set_empty [simp]: "wake_set {} s = s"
  by (simp add: wake_set_def)

lemma wake_set_insert: "wake_set (insert p A) s = wake_set A (wake_set {p} s)"
  by (auto simp: wake_set_def fun_eq_iff)

lemma upd_state_wake: "upd p (state_update (\<lambda>_. RUNNABLE)) s = wake_set {p} s"
  by (auto simp: wake_set_def upd_def fun_eq_iff)

lemma core_wake_set: "core (wake_set A s) = wake_set A (core s)"
  by (auto simp: core_def wake_set_def fun_eq_iff)

text \<open>The move from the sleep list to the tail of the ready list of the process's priority.\<close>

definition move_ready :: "nat \<Rightarrow> nat \<Rightarrow> (lref \<Rightarrow> nat list) \<Rightarrow> lref \<Rightarrow> nat list" where
  "move_ready i p L =
     (L(LSleep := remove1 p (L LSleep)))(LReady i := L (LReady i) @ [p])"

lemma wake_one_rep:
  assumes "plrep X s L" and "p \<in> set (L LSleep)"
  obtains s' where "wake_one p s = Ret s'"
    and "plrep X s' (move_ready (unat (priority (procs s p))) p L)"
    and "core s' = core (wake_set {p} s)"
proof -
  obtain s1 where rm: "removefromlist LSleep (Some p) s = Ret (0, s1)"
    and r1: "plrep (insert p X) s1 (L(LSleep := remove1 p (L LSleep)))" and c1: "core s1 = core s"
    using removefromlist_rep [OF assms(1) _ assms(2)] by auto
  from assms have pn: "p < NPROC" and px: "p \<notin> X" and st: "home s p = LSleep"
    by (auto simp: plrep_in_iff)
  then have sleeping: "state (procs s1 p) = SLEEPING"
    by (simp add: core_state [OF c1] home_def home_of_def split: procstate.splits)
  let ?s2 = "upd p (state_update (\<lambda>_. RUNNABLE)) s1"
  let ?i = "unat (priority (procs s p))"
  have pr: "priority (procs ?s2 p) = priority (procs s p)"
    by (simp add: procs_upd core_priority [OF c1])
  have le: "?i \<le> MAXPRIO" using prio_okD [OF plrep_prio [OF assms(1)] pn] .
  have r2: "plrep (insert p X) ?s2 (L(LSleep := remove1 p (L LSleep)))"
    using r1 by (rule plrep_upd_detached) (simp_all add: core_priority [OF c1] le)
  have h2: "home ?s2 p = LReady ?i"
    using pr by (simp add: home_def home_of_def procs_upd)
  obtain s3 where add: "addtoreadyprioritylist (LReady ?i) (Some p) ?s2 = Ret (0, s3)"
    and r3: "plrep (insert p X - {p}) s3
        ((L(LSleep := remove1 p (L LSleep)))(LReady ?i := (L(LSleep := remove1 p (L LSleep))) (LReady ?i) @ [p]))"
    and c3: "core s3 = core ?s2"
    using addtoready_rep [OF r2 _ _ pn h2] le by auto
  have "wake_one p s = Ret s3"
    using rm sleeping add pr le by (simp add: wake_one_def assertstate_def readyref_def)
  moreover have "plrep X s3 (move_ready ?i p L)"
    using r3 px by (simp add: move_ready_def)
  moreover have "core s3 = core (wake_set {p} s)"
    by (simp add: c3 upd_state_wake core_wake_set c1)
  ultimately show thesis by (rule that)
qed

section \<open>The loop\<close>

lemma chain_tail_ptr: "chain nx h (ys @ xs) \<Longrightarrow> chain nx' cur xs \<Longrightarrow> chain nx cur xs"
  by (cases xs) (auto dest: chain_suffix)

definition wakeL :: "'m kst \<Rightarrow> chan option \<Rightarrow> nat list \<Rightarrow> (lref \<Rightarrow> nat list) \<Rightarrow> lref \<Rightarrow> nat list" where
  "wakeL s ch xs L l =
     (case l of
        LSleep \<Rightarrow> filter (\<lambda>p. p \<notin> set xs \<or> chan (procs s p) \<noteq> ch) (L LSleep)
      | LReady i \<Rightarrow>
          L (LReady i) @ filter (\<lambda>p. chan (procs s p) = ch \<and> unat (priority (procs s p)) = i) xs
      | _ \<Rightarrow> L l)"

lemma wakeL_Nil [simp]: "wakeL s ch [] L = L"
  by (auto simp: wakeL_def fun_eq_iff split: lref.split)

lemma wakeL_skip:
  "chan (procs s p) \<noteq> ch \<Longrightarrow> wakeL s ch (p # xs) L = wakeL s ch xs L"
  by (auto simp: wakeL_def fun_eq_iff split: lref.split intro!: filter_cong)

lemma wakeL_move:
  assumes "chan (procs s p) = ch" and "distinct (L LSleep)"
    and "\<And>q. q \<in> set (p # xs) \<Longrightarrow> chan (procs s' q) = chan (procs s q)"
    and "\<And>q. q \<in> set (p # xs) \<Longrightarrow> priority (procs s' q) = priority (procs s q)"
    and "p \<notin> set xs"
  shows "wakeL s ch (p # xs) L = wakeL s' ch xs (move_ready (unat (priority (procs s p))) p L)"
proof
  fix l
  show "wakeL s ch (p # xs) L l = wakeL s' ch xs (move_ready (unat (priority (procs s p))) p L) l"
  proof (cases l)
    case LSleep
    have "filter (\<lambda>q. q \<notin> set (p # xs) \<or> chan (procs s q) \<noteq> ch) (L LSleep)
        = filter (\<lambda>q. q \<notin> set xs \<or> chan (procs s' q) \<noteq> ch) (filter (\<lambda>q. p \<noteq> q) (L LSleep))"
      using assms(1,3) by (auto simp: filter_filter intro!: filter_cong)
    then show ?thesis
      using LSleep assms(2) by (simp add: wakeL_def move_ready_def distinct_remove1_removeAll
          removeAll_filter_not_eq)
  next
    case (LReady i)
    have "filter (\<lambda>q. chan (procs s q) = ch \<and> unat (priority (procs s q)) = i) xs
        = filter (\<lambda>q. chan (procs s' q) = ch \<and> unat (priority (procs s' q)) = i) xs"
      using assms(3,4) by (auto intro!: filter_cong)
    with LReady assms(1) show ?thesis by (auto simp: wakeL_def move_ready_def)
  qed (simp_all add: wakeL_def move_ready_def)
qed

lemma wakeup1_loop_rep:
  assumes "plrep X s L" and "L LSleep = ys @ xs" and "chain (nextof s) cur xs"
  shows "\<exists>s'. wakeup1_loop ch cur s = Some (Ret s') \<and> plrep X s' (wakeL s ch xs L)
           \<and> core s' = core (wake_set {p \<in> set xs. chan (procs s p) = ch} s)"
  using assms
proof (induction xs arbitrary: s L ys cur)
  case Nil
  then show ?case by (simp add: wakeup1_loop.simps)
next
  case (Cons p xs)
  from Cons.prems(3) have cur: "cur = Some p" and rest: "chain (nextof s) (nextof s p) xs" by auto
  have d: "distinct (L LSleep)" using Cons.prems(1) by (rule plrep_distinct) simp
  then have pxs: "p \<notin> set xs" and pys: "p \<notin> set ys" using Cons.prems(2) by auto
  show ?case
  proof (cases "chan (procs s p) = ch")
    case False
    have "\<exists>s'. wakeup1_loop ch (nextof s p) s = Some (Ret s') \<and> plrep X s' (wakeL s ch xs L)
           \<and> core s' = core (wake_set {q \<in> set xs. chan (procs s q) = ch} s)"
      using Cons.IH [of s L "ys @ [p]" "nextof s p"] Cons.prems rest by simp
    moreover have "{q \<in> set (p # xs). chan (procs s q) = ch} = {q \<in> set xs. chan (procs s q) = ch}"
      using False by auto
    ultimately show ?thesis
      using False cur by (simp add: wakeup1_loop.simps [of ch "Some p"] wakeL_skip)
  next
    case True
    obtain s1 where w: "wake_one p s = Ret s1"
      and r1: "plrep X s1 (move_ready (unat (priority (procs s p))) p L)"
      and c1: "core s1 = core (wake_set {p} s)"
      using wake_one_rep [OF Cons.prems(1), of p] Cons.prems(2) by auto
    let ?L1 = "move_ready (unat (priority (procs s p))) p L"
    have same: "chan (procs s1 q) = chan (procs s q)" "priority (procs s1 q) = priority (procs s q)" for q
      using core_chan [OF c1, of q] core_priority [OF c1, of q] by (auto simp: wake_set_def)
    have sl: "?L1 LSleep = ys @ xs"
      using Cons.prems(2) pys by (simp add: move_ready_def remove1_append)
    have "chain (nextof s1) (getl s1 LSleep) (ys @ xs)"
      using plrep_chain [OF r1, of LSleep] sl by simp
    then have "chain (nextof s1) (nextof s p) xs" using rest by (rule chain_tail_ptr)
    then obtain s2 where l2: "wakeup1_loop ch (nextof s p) s1 = Some (Ret s2)"
      and r2: "plrep X s2 (wakeL s1 ch xs ?L1)"
      and c2: "core s2 = core (wake_set {q \<in> set xs. chan (procs s1 q) = ch} s1)"
      using Cons.IH [OF r1 sl] by blast
    have "wakeL s ch (p # xs) L = wakeL s1 ch xs ?L1"
      using True d pxs by (intro wakeL_move) (simp_all add: same)
    moreover have "{q \<in> set (p # xs). chan (procs s q) = ch} = insert p {q \<in> set xs. chan (procs s q) = ch}"
      using True by auto
    then have "core s2 = core (wake_set {q \<in> set (p # xs). chan (procs s q) = ch} s)"
      using c2 c1 by (simp add: same core_wake_set wake_set_insert [of p "{q \<in> set xs. chan (procs s q) = ch}"])
    ultimately show ?thesis
      using True cur w l2 r2 by (simp add: wakeup1_loop.simps [of ch "Some p"])
  qed
qed

text \<open>
  \<open>wakeup1\<close> returns, takes exactly the processes waiting on the channel from the sleep list and
  appends them, in the order of the sleep list, to the ready lists of their priorities.
\<close>

lemma wakeup1_rep:
  assumes "plrep X s L"
  obtains s' where "wakeup1 ch s = Ret s'" and "plrep X s' (wakeL s ch (L LSleep) L)"
    and "core s' = core (wake_set {p \<in> set (L LSleep). chan (procs s p) = ch} s)"
proof -
  have "chain (nextof s) (sleep_l s) (L LSleep)" using plrep_chain [OF assms, of LSleep] by simp
  with wakeup1_loop_rep [OF assms, of "[]" "L LSleep"] obtain s' where
    "wakeup1_loop ch (sleep_l s) s = Some (Ret s')" "plrep X s' (wakeL s ch (L LSleep) L)"
    "core s' = core (wake_set {p \<in> set (L LSleep). chan (procs s p) = ch} s)"
    by auto
  then show thesis using that by (simp add: wakeup1_def)
qed

end
