(* ===== verification/Proclife.thy ===== *)
theory Proclife
  imports Proc
begin

text \<open>
  The life cycle of a process (\<open>src/proc.c\<close>): \<open>growproc\<close>, \<open>fork\<close>, \<open>exit\<close>, \<open>wait\<close>, \<open>kill\<close>,
  \<open>forkret\<close>, the scheduler and \<open>setpriority\<close>.
\<close>

section \<open>growproc\<close>

definition growproc :: "'m os \<Rightarrow> nat \<Rightarrow> u32 \<Rightarrow> 'm kst \<Rightarrow> (int \<times> 'm kst) res" where
  "growproc os c n s =
     bindr (curproc c s) (\<lambda>p.
     (let sz0 = sz (procs s p); pg = pgdir (procs s p);
          finish = (\<lambda>v s. bindr (switchuvm c p (upd p (sz_update (\<lambda>_. v)) s)) (\<lambda>s. Ret (0, s)))
      in if 0 <s n
         then bindr (os_allocuvm os pg sz0 (sz0 + n) (mem s)) (\<lambda>(v, m).
              if v = 0 then Ret (-1, s\<lparr>mem := m\<rparr>) else finish v (s\<lparr>mem := m\<rparr>))
         else if n <s 0
         then bindr (os_deallocuvm os pg sz0 (sz0 + n) (mem s)) (\<lambda>(v, m).
              if v = 0 then Ret (-1, s\<lparr>mem := m\<rparr>) else finish v (s\<lparr>mem := m\<rparr>))
         else finish sz0 s))"

section \<open>fork\<close>

fun fork_files :: "'m os \<Rightarrow> nat \<Rightarrow> nat \<Rightarrow> nat list \<Rightarrow> 'm kst \<Rightarrow> 'm kst res" where
  "fork_files os p np [] s = Ret s"
| "fork_files os p np (i # is) s =
     (case ofile (procs s p) i of
        None \<Rightarrow> fork_files os p np is s
      | Some f \<Rightarrow>
          bindr (os_filedup os f (mem s)) (\<lambda>m.
          fork_files os p np is
            (upd np (ofile_update (\<lambda>g. g(i := Some f))) (s\<lparr>mem := m\<rparr>))))"

definition fork_copy :: "proc \<Rightarrow> nat \<Rightarrow> proc \<Rightarrow> proc" where
  "fork_copy pp p np =
     np\<lparr>sz := sz pp, parent := Some p, tf := (tf pp)\<lparr>tf_eax := 0\<rparr>, uid := uid pp, gid := gid pp\<rparr>"

definition fork_ready :: "nat \<Rightarrow> nat \<Rightarrow> 'm kst \<Rightarrow> 'm kst res" where
  "fork_ready c np s0 =
     bindr (kacquire c LkPtable s0) (\<lambda>s.
     bindr (removefromlist LEmbryo (Some np) s) (\<lambda>(rc, s).
     bindr (guardr (\<not> rc < 0) ''Failure to remove from embryo list in userinit'') (\<lambda>_.
     bindr (assertstate np EMBRYO s) (\<lambda>_.
     (let s = upd np (state_update (\<lambda>_. RUNNABLE)) s
      in bindr (readyref (priority (procs s np))) (\<lambda>l.
         bindr (addtoreadyprioritylist l (Some np) s) (\<lambda>(rc, s).
         bindr (guardr (\<not> rc < 0) ''Failure to add to ready list in fork'') (\<lambda>_.
         krelease c LkPtable s))))))))"

text \<open>\<open>safestrcpy(np->name, proc->name, sizeof(proc->name))\<close>: at most 15 characters and the null.\<close>

definition fork :: "'m os \<Rightarrow> nat \<Rightarrow> 'm kst \<Rightarrow> (int \<times> 'm kst) res" where
  "fork os c s0 =
     bindr (allocproc os c s0) (\<lambda>(npo, s).
     case npo of
       None \<Rightarrow> Ret (-1, s)
     | Some np \<Rightarrow>
         bindr (curproc c s) (\<lambda>p.
         bindr (os_copyuvm os (pgdir (procs s p)) (sz (procs s p)) (mem s)) (\<lambda>(pg, m).
         (let s = upd np (pgdir_update (\<lambda>_. pg)) (s\<lparr>mem := m\<rparr>)
          in case pg of
               None \<Rightarrow>
                 bindr (os_kfree os (kstack (procs s np)) (mem s)) (\<lambda>m.
                 (let s = upd np (kstack_update (\<lambda>_. None)) (s\<lparr>mem := m\<rparr>)
                  in bindr (embryo_to_free ''Failure to remove from embryo list in userinit'' c np s)
                       (\<lambda>s. Ret (-1, s))))
             | Some _ \<Rightarrow>
                 (let s = upd np (fork_copy (procs s p) p) s
                  in bindr (fork_files os p np [0..<NOFILE] s) (\<lambda>s.
                     bindr (os_idup os (cwd (procs s p)) (mem s)) (\<lambda>(ip, m).
                     (let s = upd np (\<lambda>pr. pr\<lparr>cwd := ip, name := take 15 (name (procs s p))\<rparr>)
                                (s\<lparr>mem := m\<rparr>);
                          pd = pid (procs s np)
                      in bindr (fork_ready c np s) (\<lambda>s. Ret (sint pd, s)))))))))) "

section \<open>exit\<close>

fun close_files :: "'m os \<Rightarrow> nat \<Rightarrow> nat \<Rightarrow> nat list \<Rightarrow> 'm kst \<Rightarrow> 'm kst res" where
  "close_files os c p [] s = Ret s"
| "close_files os c p (fd # fds) s =
     (case ofile (procs s p) fd of
        None \<Rightarrow> close_files os c p fds s
      | Some f \<Rightarrow>
          bindr (os_fileclose os c f s) (\<lambda>s.
          close_files os c p fds (upd p (ofile_update (\<lambda>g. g(fd := None))) s)))"

fun adopt_ready :: "nat \<Rightarrow> nat list \<Rightarrow> 'm kst \<Rightarrow> 'm kst res" where
  "adopt_ready p [] s = Ret s"
| "adopt_ready p (i # is) s =
     bindr (adoptzombiechildren (LReady i) p s) (\<lambda>s. adopt_ready p is s)"

text \<open>\<open>while(p){ if(p->parent == proc){ p->parent = initproc; wakeup1(initproc); } p = p->next; }\<close>\<close>

partial_function (option) adopt_zombies ::
  "nat \<Rightarrow> nat option \<Rightarrow> 'm kst \<Rightarrow> 'm kst res option" where
  "adopt_zombies par cur s =
     (case cur of
        None \<Rightarrow> Some (Ret s)
      | Some q \<Rightarrow>
          (case (if parent (procs s q) = Some par
                 then wakeup1 (map_option ChProc (initproc s))
                        (upd q (parent_update (\<lambda>_. initproc s)) s)
                 else Ret s) of
             Ret s' \<Rightarrow> adopt_zombies par (nextof s' q) s'
           | Panic m \<Rightarrow> Some (Panic m)
           | Fault \<Rightarrow> Some Fault
           | Hang \<Rightarrow> Some Hang))"

text \<open>\<open>exit\<close> from the acquisition of the table lock to the switch to the scheduler.\<close>

definition exit_locked :: "nat \<Rightarrow> nat \<Rightarrow> 'm kst \<Rightarrow> 'm kst res" where
  "exit_locked c p s0 =
     bindr (kacquire c LkPtable s0) (\<lambda>s.
     bindr (wakeup1 (map_option ChProc (parent (procs s p))) s) (\<lambda>s.
     bindr (adoptzombiechildren LEmbryo p s) (\<lambda>s.
     bindr (adopt_ready p [0..<MAXPRIO + 1] s) (\<lambda>s.
     bindr (adoptzombiechildren LSleep p s) (\<lambda>s.
     bindr (adoptzombiechildren LRunning p s) (\<lambda>s.
     bindr (bindr (of_loop (adopt_zombies p (zombie_l s) s)) (\<lambda>r. r)) (\<lambda>s.
     bindr (removefromlist LRunning (Some p) s) (\<lambda>(rc, s).
     bindr (guardr (\<not> rc < 0) ''Failure to remove from running list in exit'') (\<lambda>_.
     bindr (assertstate p RUNNING s) (\<lambda>_.
     (let s = upd p (state_update (\<lambda>_. ZOMBIE)) s;
          s = addtofrontoflist LZombie (Some p) s
      in sched c InExit s)))))))))))"

definition exit :: "'m os \<Rightarrow> nat \<Rightarrow> 'm kst \<Rightarrow> 'm kst res" where
  "exit os c s0 =
     bindr (curproc c s0) (\<lambda>p.
     bindr (guardr (Some p \<noteq> initproc s0) ''init exiting'') (\<lambda>_.
     bindr (close_files os c p [0..<NOFILE] s0) (\<lambda>s.
     bindr (os_iput_op os c (cwd (procs s p)) s) (\<lambda>s.
     exit_locked c p (upd p (cwd_update (\<lambda>_. None)) s)))))"

section \<open>wait\<close>

datatype wait_out = WReturn int | WSleep

fun ready_kids :: "nat \<Rightarrow> nat list \<Rightarrow> 'm kst \<Rightarrow> bool \<Rightarrow> bool res" where
  "ready_kids p [] s havekids = Ret havekids"
| "ready_kids p (i # is) s havekids =
     bindr (checkforchildren (LReady i) p s) (\<lambda>rc.
     ready_kids p is s (if rc = 0 then True else havekids))"

text \<open>\<open>||\<close> evaluates from the left and stops at the first list that has a child.\<close>

definition have_kids :: "nat \<Rightarrow> 'm kst \<Rightarrow> bool res" where
  "have_kids p s =
     bindr (checkforchildren LEmbryo p s) (\<lambda>e.
     bindr (if e = 0 then Ret True
            else bindr (checkforchildren LRunning p s) (\<lambda>r.
                 if r = 0 then Ret True
                 else bindr (checkforchildren LSleep p s) (\<lambda>sl. Ret (sl = 0)))) (\<lambda>hk.
     ready_kids p [0..<MAXPRIO + 1] s hk))"

definition reap_fields :: "proc \<Rightarrow> proc" where
  "reap_fields pr =
     pr\<lparr>kstack := None, state := UNUSED, pid := 0, parent := None, name := [], killed := False\<rparr>"

definition reap :: "'m os \<Rightarrow> nat \<Rightarrow> nat \<Rightarrow> 'm kst \<Rightarrow> (int \<times> 'm kst) res" where
  "reap os c q s0 =
     bindr (removefromlist LZombie (Some q) s0) (\<lambda>(rc, s).
     bindr (guardr (\<not> rc < 0) ''Failure to remove from zombie list in wait'') (\<lambda>_.
     bindr (assertstate q ZOMBIE s) (\<lambda>_.
     (let pd = pid (procs s q)
      in bindr (os_kfree os (kstack (procs s q)) (mem s)) (\<lambda>m.
         bindr (os_freevm os (pgdir (procs s q)) m) (\<lambda>m.
         (let s = upd q reap_fields (s\<lparr>mem := m\<rparr>);
              s = addtofrontoflist LFree (Some q) s
          in bindr (krelease c LkPtable s) (\<lambda>s. Ret (sint pd, s)))))))))"

text \<open>One turn of the loop of \<open>wait\<close>, with the table lock held at its start.\<close>

definition wait_turn :: "'m os \<Rightarrow> nat \<Rightarrow> 'm kst \<Rightarrow> (wait_out \<times> 'm kst) res" where
  "wait_turn os c s =
     bindr (curproc c s) (\<lambda>p.
     bindr (have_kids p s) (\<lambda>havekids.
     bindr (of_loop (find_from (\<lambda>q. parent (procs s q) = Some p) (nextof s) (zombie_l s))) (\<lambda>zo.
     case zo of
       Some q \<Rightarrow> bindr (reap os c q s) (\<lambda>(pd, s). Ret (WReturn pd, s))
     | None \<Rightarrow>
         if \<not> havekids \<or> killed (procs s p)
         then bindr (krelease c LkPtable s) (\<lambda>s. Ret (WReturn (-1), s))
         else bindr (sleep c (Some (ChProc p)) (Some LkPtable) s) (\<lambda>s. Ret (WSleep, s)))))"

definition wait :: "'m os \<Rightarrow> nat \<Rightarrow> 'm kst \<Rightarrow> (wait_out \<times> 'm kst) res" where
  "wait os c s = bindr (kacquire c LkPtable s) (wait_turn os c)"

section \<open>kill\<close>

fun kill_ready :: "u32 \<Rightarrow> nat list \<Rightarrow> 'm kst \<Rightarrow> nat option res" where
  "kill_ready pd [] s = Ret None"
| "kill_ready pd (i # is) s =
     bindr (of_loop (find_from (\<lambda>q. pid (procs s q) = pd) (nextof s) (ready s i))) (\<lambda>r.
     case r of Some q \<Rightarrow> Ret (Some q) | None \<Rightarrow> kill_ready pd is s)"

definition kill_mark :: "nat \<Rightarrow> nat \<Rightarrow> 'm kst \<Rightarrow> (int \<times> 'm kst) res" where
  "kill_mark c q s =
     bindr (krelease c LkPtable (upd q (killed_update (\<lambda>_. True)) s)) (\<lambda>s. Ret (0, s))"

definition kill_sleeper :: "nat \<Rightarrow> nat \<Rightarrow> 'm kst \<Rightarrow> (int \<times> 'm kst) res" where
  "kill_sleeper c q s0 =
     bindr (removefromlist LSleep (Some q) s0) (\<lambda>(rc, s).
     bindr (guardr (\<not> rc < 0) ''failure to remove from sleep list in kill. '') (\<lambda>_.
     bindr (assertstate q SLEEPING s) (\<lambda>_.
     (let s = upd q (\<lambda>pr. pr\<lparr>state := RUNNABLE, killed := True\<rparr>) s
      in bindr (readyref (priority (procs s q))) (\<lambda>l.
         bindr (addtoreadyprioritylist l (Some q) s) (\<lambda>(rc, s).
         bindr (guardr (\<not> rc < 0) ''Failure to add to ready list in yield'') (\<lambda>_.
         bindr (krelease c LkPtable s) (\<lambda>s. Ret (0, s)))))))))"

definition kill :: "nat \<Rightarrow> int \<Rightarrow> 'm kst \<Rightarrow> (int \<times> 'm kst) res" where
  "kill c pdi s0 =
     bindr (kacquire c LkPtable s0) (\<lambda>s.
     (let pd = word_of_int pdi;
          look = (\<lambda>h. of_loop (find_from (\<lambda>q. pid (procs s q) = pd) (nextof s) h))
      in bindr (look (sleep_l s)) (\<lambda>r.
         case r of
           Some q \<Rightarrow> kill_sleeper c q s
         | None \<Rightarrow>
             bindr (look (embryo_l s)) (\<lambda>r.
             case r of
               Some q \<Rightarrow> kill_mark c q s
             | None \<Rightarrow>
                 bindr (kill_ready pd [0..<MAXPRIO + 1] s) (\<lambda>r.
                 case r of
                   Some q \<Rightarrow> kill_mark c q s
                 | None \<Rightarrow>
                     bindr (look (running_l s)) (\<lambda>r.
                     case r of
                       Some q \<Rightarrow> kill_mark c q s
                     | None \<Rightarrow> bindr (krelease c LkPtable s) (\<lambda>s. Ret (-1, s))))))))"

section \<open>The scheduler\<close>

fun promote_ready :: "nat list \<Rightarrow> 'm kst \<Rightarrow> 'm kst res" where
  "promote_ready [] s = Ret s"
| "promote_ready (j # js) s = bindr (promotiononreadylists j s) (promote_ready js)"

definition promote :: "'m kst \<Rightarrow> 'm kst res" where
  "promote s0 =
     bindr (promotiononotherlists LSleep s0) (\<lambda>s.
     bindr (promotiononotherlists LRunning s) (\<lambda>s.
     bindr (promote_ready [0..<MAXPRIO] s) (\<lambda>s.
     Ret (s\<lparr>PromoteAtTime := ticks s + TICKS_TO_PROMOTE\<rparr>))))"

text \<open>
  One turn of the scheduler's inner loop, up to its \<open>swtch\<close>: the process it switches to, if any,
  and the value \<open>i\<close> has then (before the \<open>++i\<close> of the loop).
\<close>

definition sched_turn :: "nat \<Rightarrow> int \<Rightarrow> 'm kst \<Rightarrow> (nat option \<times> int \<times> 'm kst) res" where
  "sched_turn c i s0 =
     bindr (if PromoteAtTime s0 = ticks s0 then promote s0 else Ret s0) (\<lambda>s.
     case ready s (nat i) of
       None \<Rightarrow> Ret (None, i, s)
     | Some p \<Rightarrow>
         (let s = set_curproc c (Some p) s
          in bindr (switchuvm c p s) (\<lambda>s.
             bindr (readyref (priority (procs s p))) (\<lambda>l.
             (let (rc, s) = removefromfront l s
              in bindr (guardr (\<not> rc < 0) ''Failed to remove from ready list in scheduler.'') (\<lambda>_.
                 bindr (assertstate p RUNNABLE s) (\<lambda>_.
                 (let i = (if i \<noteq> int MAXPRIO then -1 else i);
                      s = upd p (state_update (\<lambda>_. RUNNING)) s;
                      s = addtofrontoflist LRunning (Some p) s;
                      s = upd p (cpu_ticks_in_update (\<lambda>_. ticks s)) s
                  in Ret (Some p, i, s)))))))))"

text \<open>The turns from index \<open>i\<close> on, until one switches to a process or the lists are through.\<close>

function sched_scan :: "nat \<Rightarrow> int \<Rightarrow> 'm kst \<Rightarrow> (nat option \<times> int \<times> 'm kst) res" where
  "sched_scan c i s =
     (if i < int MAXPRIO + 1
      then bindr (sched_turn c i s) (\<lambda>(po, j, s').
           case po of
             Some p \<Rightarrow> Ret (Some p, j, s')
           | None \<Rightarrow> sched_scan c (i + 1) s')
      else Ret (None, i, s))"
  by pat_completeness auto
termination
  by (relation "measure (\<lambda>(c, i, s). nat (int MAXPRIO + 1 - i))") auto

declare sched_scan.simps [simp del]

text \<open>
  A pass of the outer loop: from its start (\<open>sti\<close>, \<open>acquire\<close>, \<open>i = 0\<close>) to the first switch or to
  the end of the pass; and the part after a switch came back.
\<close>

definition sched_end :: "nat \<Rightarrow> (nat option \<times> int \<times> 'm kst) \<Rightarrow> (nat option \<times> int \<times> 'm kst) res" where
  "sched_end c r =
     (case r of (po, i, s) \<Rightarrow>
        case po of
          Some p \<Rightarrow> Ret (Some p, i, s)
        | None \<Rightarrow> bindr (krelease c LkPtable s) (\<lambda>s. Ret (None, i, s)))"

definition scheduler_start :: "nat \<Rightarrow> 'm kst \<Rightarrow> (nat option \<times> int \<times> 'm kst) res" where
  "scheduler_start c s0 =
     (let s = s0\<lparr>cpus := (cpus s0)(c := (cpus s0 c)\<lparr>if_flag := True\<rparr>)\<rparr>
      in bindr (kacquire c LkPtable s) (\<lambda>s.
         bindr (sched_scan c 0 s) (sched_end c)))"

definition scheduler_back :: "nat \<Rightarrow> int \<Rightarrow> 'm kst \<Rightarrow> (nat option \<times> int \<times> 'm kst) res" where
  "scheduler_back c i s =
     bindr (sched_scan c (i + 1) (set_curproc c None s)) (sched_end c)"

text \<open>
  \<open>forkret\<close>: a new process starts with the table lock held by the scheduler that picked it. The
  one-time file system start-up it triggers belongs to the file components.
\<close>

definition forkret :: "nat \<Rightarrow> 'm kst \<Rightarrow> 'm kst res" where
  "forkret c s = krelease c LkPtable s"

section \<open>setpriority\<close>

definition setpriority :: "nat \<Rightarrow> int \<Rightarrow> int \<Rightarrow> 'm kst \<Rightarrow> (int \<times> 'm kst) res" where
  "setpriority c pdi prio s0 =
     (let isholding = holding (locks s0 LkPtable) c;
          out = (\<lambda>rc s. if \<not> isholding then bindr (krelease c LkPtable s) (\<lambda>s. Ret (rc, s))
                        else Ret (rc, s))
      in bindr (if \<not> isholding then kacquire c LkPtable s0 else Ret s0) (\<lambda>s.
         if pdi < 0 \<or> pdi > 32767 then out (-2) s
         else if prio < 0 \<or> prio > int MAXPRIO then out (-3) s
         else
           bindr (setprocpriority LRunning (word_of_int pdi) (word_of_int prio) s) (\<lambda>(rc, s).
           if rc = -1 then out (-5) s else if rc = 1 then out 0 s
           else
             bindr (setprocpriority LSleep (word_of_int pdi) (word_of_int prio) s) (\<lambda>(rc, s).
             if rc = -1 then out (-5) s else if rc = 1 then out 0 s
             else
               bindr (setreadyprocpriority (word_of_int pdi) (word_of_int prio) s) (\<lambda>(rc, s).
               if rc = -1 then out (-5) s else if rc = 1 then out 0 s
               else out (-4) s)))))"

end
