(* ===== verification/Procops.thy ===== *)
theory Procops
  imports Wakeup Proclife
begin

text \<open>
  What each operation of \<open>src/proc.c\<close> does to a table whose lists are right: it returns (no panic,
  no bad access, no endless walk), the lists are right again, and the rest of the state changes as
  the effect function named in the lemma says.
\<close>

section \<open>Shared facts\<close>

lemma home_of_simps [simp]:
  "state pr = UNUSED \<Longrightarrow> home_of pr = LFree"
  "state pr = EMBRYO \<Longrightarrow> home_of pr = LEmbryo"
  "state pr = SLEEPING \<Longrightarrow> home_of pr = LSleep"
  "state pr = RUNNABLE \<Longrightarrow> home_of pr = LReady (unat (priority pr))"
  "state pr = RUNNING \<Longrightarrow> home_of pr = LRunning"
  "state pr = ZOMBIE \<Longrightarrow> home_of pr = LZombie"
  by (simp_all add: home_of_def)

lemma home_of_iff:
  "home_of pr = LFree \<longleftrightarrow> state pr = UNUSED"
  "home_of pr = LEmbryo \<longleftrightarrow> state pr = EMBRYO"
  "home_of pr = LSleep \<longleftrightarrow> state pr = SLEEPING"
  "home_of pr = LReady i \<longleftrightarrow> state pr = RUNNABLE \<and> unat (priority pr) = i"
  "home_of pr = LRunning \<longleftrightarrow> state pr = RUNNING"
  "home_of pr = LZombie \<longleftrightarrow> state pr = ZOMBIE"
  by (simp_all add: home_of_def split: procstate.split)

lemma home_of_cong: "state a = state b \<Longrightarrow> priority a = priority b \<Longrightarrow> home_of a = home_of b"
  by (simp add: home_of_def split: procstate.split)

lemma home_of_fields [simp]:
  "home_of (chan_update f1 pr) = home_of pr" "home_of (parent_update f2 pr) = home_of pr"
  "home_of (killed_update f3 pr) = home_of pr" "home_of (pid_update f4 pr) = home_of pr"
  "home_of (kstack_update f5 pr) = home_of pr" "home_of (pgdir_update f5 pr) = home_of pr"
  "home_of (ctxt_update f6 pr) = home_of pr" "home_of (cpu_ticks_in_update f4 pr) = home_of pr"
  by (simp_all add: home_of_def split: procstate.split)

lemma plrep_mem_iff:
  assumes "plrep X s L"
  shows "p \<in> set (L LFree) \<longleftrightarrow> p < NPROC \<and> p \<notin> X \<and> state (procs s p) = UNUSED"
    and "p \<in> set (L LEmbryo) \<longleftrightarrow> p < NPROC \<and> p \<notin> X \<and> state (procs s p) = EMBRYO"
    and "p \<in> set (L LSleep) \<longleftrightarrow> p < NPROC \<and> p \<notin> X \<and> state (procs s p) = SLEEPING"
    and "p \<in> set (L LRunning) \<longleftrightarrow> p < NPROC \<and> p \<notin> X \<and> state (procs s p) = RUNNING"
    and "p \<in> set (L LZombie) \<longleftrightarrow> p < NPROC \<and> p \<notin> X \<and> state (procs s p) = ZOMBIE"
    and "i \<le> MAXPRIO \<Longrightarrow> p \<in> set (L (LReady i)) \<longleftrightarrow>
           p < NPROC \<and> p \<notin> X \<and> state (procs s p) = RUNNABLE \<and> unat (priority (procs s p)) = i"
  using assms by (simp_all add: plrep_in_iff home_def home_of_iff)

lemma unat_0_le_MAXPRIO [simp]: "unat (0 :: u32) \<le> MAXPRIO"
  by (simp add: MAXPRIO_def)

text \<open>Updates of a process that leave its list pointer alone.\<close>

definition pn_free :: "(proc \<Rightarrow> proc) \<Rightarrow> bool" where
  "pn_free f \<longleftrightarrow> (\<forall>g pr. f (pnext_update g pr) = pnext_update g (f pr))"

lemma pn_free_pnext:
  assumes "pn_free f"
  shows "pnext (f pr) = pnext pr"
proof -
  have "f (pnext_update (\<lambda>_. pnext pr) pr) = pnext_update (\<lambda>_. pnext pr) (f pr)"
    using assms by (simp only: pn_free_def)
  from arg_cong [OF this, of pnext] show ?thesis by simp
qed

lemma pn_free_core: "pn_free f \<Longrightarrow> core s' = core s \<Longrightarrow> core (upd p f s') = core (upd p f s)"
  by (rule core_upd_cong) (simp_all add: pn_free_def)

lemma pn_free_at:
  assumes "pn_free f" and "core s' = core s"
  shows "(f (procs s' p))\<lparr>pnext := None\<rparr> = (f (procs s p))\<lparr>pnext := None\<rparr>"
  using core_procs [OF assms(2), of p] assms(1) unfolding pn_free_def by metis

lemma pn_free_state:
  "pn_free f \<Longrightarrow> core s' = core s \<Longrightarrow> state (f (procs s' p)) = state (f (procs s p))"
  using arg_cong [OF pn_free_at, of f s' s state] by simp

lemma pn_free_priority:
  "pn_free f \<Longrightarrow> core s' = core s \<Longrightarrow> priority (f (procs s' p)) = priority (f (procs s p))"
  using arg_cong [OF pn_free_at, of f s' s priority] by simp

lemma pn_free_fields [simp]:
  "pn_free (state_update f)" "pn_free (parent_update f1)" "pn_free (chan_update f2)"
  "pn_free (killed_update f3)" "pn_free (priority_update f4)" "pn_free (pid_update f5)"
  "pn_free (kstack_update f6)" "pn_free (pgdir_update f6)" "pn_free (cpu_ticks_in_update f7)"
  "pn_free (ctxt_update f8)" "pn_free (setprio v)" "pn_free reap_fields"
  by (simp_all add: pn_free_def setprio_def reap_fields_def)

lemma pn_free_comp: "pn_free f \<Longrightarrow> pn_free g \<Longrightarrow> pn_free (\<lambda>pr. f (g pr))"
  by (simp add: pn_free_def)

text \<open>A process changes lists: off the list it is on, updated, onto the list of its new state.\<close>

lemma remove_upd_rep:
  assumes "plrep X s L" and "valid_lref l" and "p \<in> set (L l)" and "pn_free f"
    and "unat (priority (f (procs s p))) \<le> MAXPRIO"
  obtains s1 where "removefromlist l (Some p) s = Ret (0, s1)" and "core s1 = core s"
    and "plrep (insert p X) (upd p f s1) (L(l := remove1 p (L l)))"
    and "home (upd p f s1) p = home_of (f (procs s p))"
proof -
  obtain s1 where rm: "removefromlist l (Some p) s = Ret (0, s1)"
    and r1: "plrep (insert p X) s1 (L(l := remove1 p (L l)))" and c1: "core s1 = core s"
    using removefromlist_rep [OF assms(1-3)] .
  have "plrep (insert p X) (upd p f s1) (L(l := remove1 p (L l)))"
    using r1 by (rule plrep_upd_detached)
      (simp_all add: pn_free_pnext [OF assms(4)] pn_free_priority [OF assms(4) c1] assms(5))
  moreover have "home (upd p f s1) p = home_of (f (procs s p))"
    using home_of_cong [OF pn_free_state [OF assms(4) c1] pn_free_priority [OF assms(4) c1]]
    by (simp add: home_def procs_upd)
  ultimately show thesis using that rm c1 by blast
qed

lemma move_front_rep:
  assumes "plrep X s L" and "valid_lref l" and "p \<in> set (L l)" and "pn_free f"
    and "unat (priority (f (procs s p))) \<le> MAXPRIO"
    and "home_of (f (procs s p)) = l'" and "l' \<noteq> l"
  obtains s1 where "removefromlist l (Some p) s = Ret (0, s1)" and "core s1 = core s"
    and "plrep X (addtofrontoflist l' (Some p) (upd p f s1)) (L(l := remove1 p (L l), l' := p # L l'))"
    and "core (addtofrontoflist l' (Some p) (upd p f s1)) = core (upd p f s)"
proof -
  obtain s1 where rm: "removefromlist l (Some p) s = Ret (0, s1)" and c1: "core s1 = core s"
    and r2: "plrep (insert p X) (upd p f s1) (L(l := remove1 p (L l)))"
    and h2: "home (upd p f s1) p = home_of (f (procs s p))"
    using remove_upd_rep [OF assms(1-5)] .
  have p: "p < NPROC" "p \<notin> X" using assms(1-3) by (simp_all add: plrep_in_iff)
  have v: "valid_lref l'"
    using valid_home [OF plrep_prio [OF r2] p(1)] h2 assms(6) by simp
  have h: "home (upd p f s1) p = l'" using h2 assms(6) by simp
  have i: "p \<in> insert p X" by simp
  note a = addtofront_rep [OF r2 v i p(1) h]
  have "plrep X (addtofrontoflist l' (Some p) (upd p f s1)) (L(l := remove1 p (L l), l' := p # L l'))"
    using a(1) p(2) assms(7) by simp
  moreover have "core (addtofrontoflist l' (Some p) (upd p f s1)) = core (upd p f s)"
    using a(2) pn_free_core [OF assms(4) c1] by simp
  ultimately show thesis using that rm c1 by blast
qed

lemma move_ready_rep:
  assumes "plrep X s L" and "valid_lref l" and "p \<in> set (L l)" and "pn_free f"
    and "i = unat (priority (f (procs s p)))" and "i \<le> MAXPRIO"
    and "state (f (procs s p)) = RUNNABLE"
  obtains s1 s2 where "removefromlist l (Some p) s = Ret (0, s1)" and "core s1 = core s"
    and "readyref (priority (f (procs s1 p))) = Ret (LReady i)"
    and "addtoreadyprioritylist (LReady i) (Some p) (upd p f s1) = Ret (0, s2)"
    and "plrep X s2 ((L(l := remove1 p (L l)))(LReady i := (L(l := remove1 p (L l))) (LReady i) @ [p]))"
    and "core s2 = core (upd p f s)"
proof -
  have le: "unat (priority (f (procs s p))) \<le> MAXPRIO" using assms(5,6) by simp
  obtain s1 where rm: "removefromlist l (Some p) s = Ret (0, s1)" and c1: "core s1 = core s"
    and r2: "plrep (insert p X) (upd p f s1) (L(l := remove1 p (L l)))"
    and h2: "home (upd p f s1) p = home_of (f (procs s p))"
    using remove_upd_rep [OF assms(1-4) le] .
  have p: "p < NPROC" "p \<notin> X" using assms(1-3) by (simp_all add: plrep_in_iff)
  have v: "valid_lref (LReady i)" using assms(6) by simp
  have h: "home (upd p f s1) p = LReady i" using h2 assms(5,7) by simp
  have i: "p \<in> insert p X" by simp
  obtain s2 where "addtoreadyprioritylist (LReady i) (Some p) (upd p f s1) = Ret (0, s2)"
    "plrep (insert p X - {p}) s2 ((L(l := remove1 p (L l)))(LReady i := (L(l := remove1 p (L l))) (LReady i) @ [p]))"
    "core s2 = core (upd p f s1)"
    using addtoready_rep [OF r2 v i p(1) h] .
  moreover have "readyref (priority (f (procs s1 p))) = Ret (LReady i)"
    using pn_free_priority [OF assms(4) c1, of p] assms(5,6) by (simp add: readyref_def)
  ultimately show thesis
    using that [OF rm c1] p(2) pn_free_core [OF assms(4) c1] by simp
qed

section \<open>sched\<close>

definition sched_eff :: "u32 \<Rightarrow> resume \<Rightarrow> proc \<Rightarrow> proc" where
  "sched_eff now r pr =
     pr\<lparr>cpu_ticks_total := cpu_ticks_total pr + (now - cpu_ticks_in pr), ctxt := r\<rparr>"

lemma sched_ok:
  assumes "in_ptable c s" and "cpu_proc (cpus s c) = Some p" and "state (procs s p) \<noteq> RUNNING"
  shows "sched c k s = Ret (upd p (sched_eff (ticks s) (k (intena (cpus s c)))) s)"
  using assms
  by (simp add: sched_def curproc_def in_ptable_def upd_def sched_eff_def)

lemma sched_eff_simps [simp]:
  "pnext (sched_eff t r pr) = pnext pr" "state (sched_eff t r pr) = state pr"
  "priority (sched_eff t r pr) = priority pr" "parent (sched_eff t r pr) = parent pr"
  "pgdir (sched_eff t r pr) = pgdir pr" "ctxt (sched_eff t r pr) = r"
  "pid (sched_eff t r pr) = pid pr" "chan (sched_eff t r pr) = chan pr"
  "killed (sched_eff t r pr) = killed pr"
  "home_of (sched_eff t r pr) = home_of pr"
  "pnext_update f (sched_eff t r pr) = sched_eff t r (pnext_update f pr)"
  by (simp_all add: sched_eff_def home_of_def split: procstate.split)

lemma plrep_sched:
  "plrep X s L \<Longrightarrow> p < NPROC \<Longrightarrow> plrep X (upd p (sched_eff t r) s) L"
  by (rule plrep_upd_same_home) (auto simp: plrep_def prio_ok_def)

text \<open>A process can be rescheduled on another CPU, so \<open>sched\<close> is refused in no legal state.\<close>

section \<open>charge\<close>

lemma charge_simps [simp]:
  "pnext (charge t pr) = pnext pr" "state (charge t pr) = state pr"
  "parent (charge t pr) = parent pr" "pgdir (charge t pr) = pgdir pr"
  "ctxt (charge t pr) = ctxt pr" "pid (charge t pr) = pid pr" "chan (charge t pr) = chan pr"
  "killed (charge t pr) = killed pr" "cpu_ticks_in (charge t pr) = cpu_ticks_in pr"
  "pnext_update f (charge t pr) = charge t (pnext_update f pr)"
  by (simp_all add: charge_def Let_def)

lemma charge_priority_le:
  assumes "unat (priority pr) \<le> MAXPRIO"
  shows "unat (priority (charge t pr)) \<le> MAXPRIO"
proof (cases "unat (priority pr) = MAXPRIO")
  case True
  then show ?thesis by (simp add: charge_def Let_def)
next
  case False
  with assms have "unat (priority pr) < 5" by (simp add: MAXPRIO_def)
  then have "unat (priority pr + 1) \<le> 5" by unat_arith
  with assms show ?thesis by (simp add: charge_def Let_def MAXPRIO_def)
qed

section \<open>yield\<close>

definition yield_eff :: "u32 \<Rightarrow> resume \<Rightarrow> proc \<Rightarrow> proc" where
  "yield_eff now r pr = sched_eff now r (charge now (pr\<lparr>state := RUNNABLE\<rparr>))"

lemma pn_free_eff [simp]: "pn_free (charge t)" "pn_free (sched_eff t r)" "pn_free (yield_eff t r)"
  by (simp_all add: pn_free_def charge_def sched_eff_def yield_eff_def Let_def)

lemma yield_rep:
  assumes "plrep {} s L" and "may_enter c s" and "cpu_proc (cpus s c) = Some p"
    and "p < NPROC" and "state (procs s p) = RUNNING"
    and "i = unat (priority (charge (ticks s) (procs s p)))"
  obtains s' where "yield c s = Ret s'" and "in_ptable c s'"
    and "plrep {} s' (L(LRunning := remove1 p (L LRunning), LReady i := L (LReady i) @ [p]))"
    and "core s' = core (upd p (yield_eff (ticks s) (InYield (if_flag (cpus s c)))) (lk_taken c LkPtable s))"
proof -
  let ?s0 = "lk_taken c LkPtable s"
  let ?f = "\<lambda>pr. charge (ticks s) (pr\<lparr>state := RUNNABLE\<rparr>)"
  have r0: "plrep {} ?s0 L" using assms(1) by (simp add: kst_simps)
  have pL: "p \<in> set (L LRunning)" using assms by (simp add: plrep_mem_iff [OF assms(1)])
  have i: "i = unat (priority (?f (procs ?s0 p)))"
    by (simp add: assms(6) charge_def Let_def kst_simps)
  have le: "i \<le> MAXPRIO"
    unfolding assms(6) by (rule charge_priority_le) (rule prio_okD [OF plrep_prio [OF assms(1)] assms(4)])
  obtain s1 s2 where rm: "removefromlist LRunning (Some p) ?s0 = Ret (0, s1)" and c1: "core s1 = core ?s0"
    and rd: "readyref (priority (?f (procs s1 p))) = Ret (LReady i)"
    and add: "addtoreadyprioritylist (LReady i) (Some p) (upd p ?f s1) = Ret (0, s2)"
    and r2: "plrep {} s2 ((L(LRunning := remove1 p (L LRunning)))
               (LReady i := (L(LRunning := remove1 p (L LRunning))) (LReady i) @ [p]))"
    and c2: "core s2 = core (upd p ?f ?s0)"
    using move_ready_rep [where f = ?f, OF r0 _ pL _ i le] by (auto simp: pn_free_comp)
  have cs: "cpus s1 = cpus ?s0" "ticks s1 = ticks s" "state (procs s1 p) = RUNNING"
    using core_cpus [OF c1] core_ticks [OF c1] core_state [OF c1, of p] assms(5)
    by (simp_all add: kst_simps)
  have c2s: "cpus s2 = cpus ?s0" "ticks s2 = ticks s" "state (procs s2 p) \<noteq> RUNNING"
    using core_cpus [OF c2] core_ticks [OF c2] core_state [OF c2, of p]
    by (simp_all add: upd_def kst_simps)
  have in2: "in_ptable c s2"
    using in_ptable_taken [OF assms(2)] by (simp add: in_ptable_core [OF c2] kst_simps)
  have ie: "intena (cpus ?s0 c) = if_flag (cpus s c)" and cp: "cpu_proc (cpus ?s0 c) = Some p"
    using assms(2,3) by (simp_all add: lk_taken_def pushcli_def may_enter_def)
  let ?s3 = "upd p (sched_eff (ticks s) (InYield (if_flag (cpus s c)))) s2"
  have "sched c InYield s2 = Ret ?s3"
    using sched_ok [OF in2, of p InYield] c2s cp ie by simp
  moreover have "upd p (charge (ticks s)) (upd p (state_update (\<lambda>_. RUNNABLE)) s1) = upd p ?f s1"
    by (simp add: upd_def)
  ultimately have "yield c s = Ret ?s3"
    using rm rd add cs cp
    by (simp add: yield_def kacquire_enter [OF assms(2)] curproc_def assertstate_def procs_upd)
       (simp add: upd_def)
  moreover have "in_ptable c ?s3" using in2 by (simp add: kst_simps)
  moreover have "plrep {} ?s3 (L(LRunning := remove1 p (L LRunning), LReady i := L (LReady i) @ [p]))"
    using plrep_sched [OF r2 assms(4)] by simp
  moreover have "core ?s3 = core (upd p (yield_eff (ticks s) (InYield (if_flag (cpus s c)))) ?s0)"
    using pn_free_core [OF _ c2, of "sched_eff (ticks s) (InYield (if_flag (cpus s c)))" p]
    by (simp add: upd_def yield_eff_def)
  ultimately show thesis by (rule that)
qed

section \<open>sleep\<close>

definition sleep_eff :: "u32 \<Rightarrow> chan option \<Rightarrow> resume \<Rightarrow> proc \<Rightarrow> proc" where
  "sleep_eff now ch r pr = sched_eff now r ((charge now (pr\<lparr>chan := ch\<rparr>))\<lparr>state := SLEEPING\<rparr>)"

lemma pn_free_sleep_eff [simp]: "pn_free (sleep_eff t ch r)"
  by (simp add: pn_free_def charge_def sched_eff_def sleep_eff_def Let_def)

lemma sleep_locked_rep:
  assumes "plrep {} s L" and "in_ptable c s" and "cpu_proc (cpus s c) = Some p"
    and "p < NPROC" and "state (procs s p) = RUNNING"
  obtains s' where "sleep_locked c p ch lko s = Ret s'" and "in_ptable c s'"
    and "plrep {} s' (L(LRunning := remove1 p (L LRunning), LSleep := p # L LSleep))"
    and "core s' = core (upd p (sleep_eff (ticks s) ch (InSleep (intena (cpus s c)) lko)) s)"
proof -
  let ?s0 = "upd p (chan_update (\<lambda>_. ch)) s"
  let ?f = "\<lambda>pr. (charge (ticks s) pr)\<lparr>state := SLEEPING\<rparr>"
  have prio: "unat (priority (procs s p)) \<le> MAXPRIO"
    by (rule prio_okD [OF plrep_prio [OF assms(1)] assms(4)])
  have r0: "plrep {} ?s0 L"
    using assms(1) by (rule plrep_upd_same_home) (simp_all add: prio)
  have pL: "p \<in> set (L LRunning)" using assms by (simp add: plrep_mem_iff [OF assms(1)])
  have pf: "pn_free ?f" by (simp add: pn_free_comp)
  have le: "unat (priority (?f (procs ?s0 p))) \<le> MAXPRIO"
    by (simp add: procs_upd) (rule charge_priority_le, simp add: prio)
  obtain s1 where rm: "removefromlist LRunning (Some p) ?s0 = Ret (0, s1)" and c1: "core s1 = core ?s0"
    and r2: "plrep {} (addtofrontoflist LSleep (Some p) (upd p ?f s1))
               (L(LRunning := remove1 p (L LRunning), LSleep := p # L LSleep))"
    and c2: "core (addtofrontoflist LSleep (Some p) (upd p ?f s1)) = core (upd p ?f ?s0)"
    using move_front_rep [where f = ?f and l' = LSleep, OF r0 _ pL pf le] by auto
  let ?s2 = "addtofrontoflist LSleep (Some p) (upd p ?f s1)"
  have cs: "ticks s1 = ticks s" "state (procs s1 p) = RUNNING"
    using core_ticks [OF c1] core_state [OF c1, of p] assms(5) by (simp_all add: upd_def)
  have c2s: "cpus ?s2 = cpus s" "ticks ?s2 = ticks s" "state (procs ?s2 p) \<noteq> RUNNING"
    using core_cpus [OF c2] core_ticks [OF c2] core_state [OF c2, of p] by (simp_all add: upd_def)
  have in2: "in_ptable c ?s2" using assms(2) by (simp add: in_ptable_core [OF c2] kst_simps)
  let ?r = "InSleep (intena (cpus s c)) lko"
  let ?s3 = "upd p (sched_eff (ticks s) ?r) ?s2"
  have "sched c (\<lambda>ie. InSleep ie lko) ?s2 = Ret ?s3"
    using sched_ok [OF in2, of p "\<lambda>ie. InSleep ie lko"] c2s assms(3) by simp
  moreover have "upd p (state_update (\<lambda>_. SLEEPING)) (upd p (charge (ticks s)) s1) = upd p ?f s1"
    by (simp add: upd_def)
  ultimately have "sleep_locked c p ch lko s = Ret ?s3"
    using rm cs by (simp add: sleep_locked_def assertstate_def)
  moreover have "in_ptable c ?s3" using in2 by (simp add: kst_simps)
  moreover have "plrep {} ?s3 (L(LRunning := remove1 p (L LRunning), LSleep := p # L LSleep))"
    using plrep_sched [OF r2 assms(4)] .
  moreover have "core ?s3 = core (upd p (sleep_eff (ticks s) ch ?r) s)"
    using pn_free_core [OF _ c2, of "sched_eff (ticks s) ?r" p] by (simp add: upd_def sleep_eff_def)
  ultimately show thesis by (rule that)
qed

lemma run_parts_Nil [simp]: "run_parts c p ch lko [] = Ret"
  by (rule ext) simp

lemma sleep_in: "cpu_proc (cpus s c) = Some p \<Longrightarrow>
    sleep c ch (Some LkPtable) s = sleep_locked c p ch (Some LkPtable) s"
  and sleep_enter: "cpu_proc (cpus s c) = Some p \<Longrightarrow> may_enter c s \<Longrightarrow>
    sleep c ch None s = sleep_locked c p ch None (lk_taken c LkPtable s)"
  by (simp_all add: sleep_def sleep_parts_def curproc_def kacquire_enter)

text \<open>
  With another lock: the CPU holds it when it calls \<open>sleep\<close>, and only the table lock when it
  switches away, so no other lock is held while a process sleeps.
\<close>

lemma sleep_swap:
  assumes "cpu_proc (cpus s c) = Some p" and "holding (locks s (LkOther n)) c"
    and "ncli (cpus s c) = 1" and "\<not> if_flag (cpus s c)" and "locked (locks s LkPtable) = 0"
  shows "sleep c ch (Some (LkOther n)) s
       = sleep_locked c p ch (Some (LkOther n)) (lk_released c (LkOther n) (lk_taken c LkPtable s))"
    and "in_ptable c (lk_released c (LkOther n) (lk_taken c LkPtable s))"
proof -
  have "krelease c (LkOther n) (lk_taken c LkPtable s) = Ret (lk_released c (LkOther n) (lk_taken c LkPtable s))"
    using assms by (intro krelease_held) (simp_all add: lk_taken_def cpu_ok_def pushcli_def)
  then show "sleep c ch (Some (LkOther n)) s
      = sleep_locked c p ch (Some (LkOther n)) (lk_released c (LkOther n) (lk_taken c LkPtable s))"
    using assms by (simp add: sleep_def sleep_parts_def curproc_def kacquire_free)
  show "in_ptable c (lk_released c (LkOther n) (lk_taken c LkPtable s))"
    using assms by (simp add: in_ptable_def lk_released_def lk_taken_def pushcli_def holding_def)
qed

section \<open>Allocation\<close>

lemma core_fields [simp]:
  "core (s\<lparr>nextpid := n\<rparr>) = (core s)\<lparr>nextpid := n\<rparr>"
  "core (s\<lparr>mem := m\<rparr>) = (core s)\<lparr>mem := m\<rparr>"
  "core (s\<lparr>PromoteAtTime := n\<rparr>) = (core s)\<lparr>PromoteAtTime := n\<rparr>"
  "core (s\<lparr>initproc := po\<rparr>) = (core s)\<lparr>initproc := po\<rparr>"
  "core (s\<lparr>cpus := cs\<rparr>) = (core s)\<lparr>cpus := cs\<rparr>"
  "core (s\<lparr>locks := ls\<rparr>) = (core s)\<lparr>locks := ls\<rparr>"
  by (simp_all add: core_def)

lemma core_lk_released: "core s' = core s \<Longrightarrow> core (lk_released c l s') = core (lk_released c l s)"
  using core_locks [of s' s] core_cpus [of s' s] by (simp add: lk_released_def)

lemma core_proj [simp]:
  "nextpid (core s) = nextpid s" "locks (core s) = locks s" "cpus (core s) = cpus s"
  "ticks (core s) = ticks s" "initproc (core s) = initproc s" "mem (core s) = mem s"
  "PromoteAtTime (core s) = PromoteAtTime s"
  by (simp_all add: core_def)

lemma in_ptable_fields [kst_simps]:
  "in_ptable c (s\<lparr>nextpid := n\<rparr>) = in_ptable c s"
  "in_ptable c (s\<lparr>mem := m\<rparr>) = in_ptable c s"
  "in_ptable c (s\<lparr>PromoteAtTime := n\<rparr>) = in_ptable c s"
  by (simp_all add: in_ptable_def)

definition alloc_eff :: "u32 \<Rightarrow> proc \<Rightarrow> proc" where
  "alloc_eff n pr = pr\<lparr>state := EMBRYO, pid := n\<rparr>"

lemma pn_free_alloc_eff [simp]: "pn_free (alloc_eff n)"
  by (simp add: pn_free_def alloc_eff_def)

lemma allocproc_take_none:
  assumes "plrep {} s L" and "may_enter c s" and "L LFree = []"
  shows "allocproc_take c s = Ret (None, lk_released c LkPtable (lk_taken c LkPtable s))"
proof -
  have "free_l (lk_taken c LkPtable s) = None"
    using plrep_chain [OF assms(1), of LFree] assms(3) by (simp add: lk_taken_def)
  then show ?thesis
    by (simp add: allocproc_take_def kacquire_enter [OF assms(2)] krelease_in in_ptable_taken [OF assms(2)])
qed

lemma allocproc_take_rep:
  assumes "plrep {} s L" and "may_enter c s" and "L LFree = p # ps"
  obtains s' where "allocproc_take c s = Ret (Some p, s')" and "may_enter c s'"
    and "plrep {} s' (L(LFree := ps, LEmbryo := p # L LEmbryo))"
    and "core s' = core (lk_released c LkPtable
           ((upd p (alloc_eff (nextpid s)) (lk_taken c LkPtable s))\<lparr>nextpid := nextpid s + 1\<rparr>))"
proof -
  let ?s0 = "lk_taken c LkPtable s"
  have r0: "plrep {} ?s0 L" using assms(1) by (simp add: kst_simps)
  have pF: "p \<in> set (L LFree)" using assms(3) by simp
  then have p: "p < NPROC" "state (procs s p) = UNUSED" by (simp_all add: plrep_mem_iff [OF assms(1)])
  have fr: "free_l ?s0 = Some p" using plrep_chain [OF r0, of LFree] assms(3) by simp
  obtain s1 where rm: "removefromfront LFree ?s0 = (0, s1)" and r1: "plrep {p} s1 (L(LFree := ps))"
    and c1: "core s1 = core ?s0"
    using removefromfront_rep [OF r0 _ assms(3)] by auto
  let ?s2 = "upd p (state_update (\<lambda>_. EMBRYO)) s1"
  have prio: "unat (priority (procs s1 p)) \<le> MAXPRIO"
    by (rule prio_okD [OF plrep_prio [OF r1] p(1)])
  have r2: "plrep {p} ?s2 (L(LFree := ps))"
    using r1 by (rule plrep_upd_detached) (simp_all add: prio)
  have h2: "home ?s2 p = LEmbryo" by (simp add: home_def procs_upd)
  let ?s3 = "addtofrontoflist LEmbryo (Some p) ?s2"
  have r3: "plrep {} ?s3 (L(LFree := ps, LEmbryo := p # L LEmbryo))"
    using addtofront_rep(1) [OF r2 _ _ p(1) h2] by simp
  have c3: "core ?s3 = core ?s2" using addtofront_rep(2) [OF r2 _ _ p(1) h2] by simp
  have prio3: "unat (priority (procs ?s3 p)) \<le> MAXPRIO"
    by (rule prio_okD [OF plrep_prio [OF r3] p(1)])
  let ?s4 = "upd p (pid_update (\<lambda>_. nextpid ?s3)) ?s3"
  let ?s5 = "?s4\<lparr>nextpid := nextpid ?s4 + 1\<rparr>"
  have np: "nextpid ?s3 = nextpid s"
    using core_nextpid [OF c3] core_nextpid [OF c1] by (simp add: upd_def lk_taken_def)
  have "plrep {} ?s4 (L(LFree := ps, LEmbryo := p # L LEmbryo))"
    using r3 by (rule plrep_upd_same_home) (simp_all add: prio3)
  then have r5: "plrep {} ?s5 (L(LFree := ps, LEmbryo := p # L LEmbryo))" by (simp add: kst_simps)
  have "core ?s4 = core (upd p (pid_update (\<lambda>_. nextpid s)) (upd p (state_update (\<lambda>_. EMBRYO)) ?s0))"
    unfolding np by (intro pn_free_core) (simp_all add: pn_free_core [OF _ c1] c3)
  then have c5: "core ?s5 = core ((upd p (alloc_eff (nextpid s)) ?s0)\<lparr>nextpid := nextpid s + 1\<rparr>)"
    using np by (simp add: core_upd alloc_eff_def) (simp add: upd_def alloc_eff_def)
  have in5: "in_ptable c ?s5"
    using in_ptable_taken [OF assms(2)] by (subst in_ptable_core [OF c5]) (simp add: kst_simps)
  have st: "state (procs s1 p) = UNUSED" using p(2) core_state [OF c1, of p] by (simp add: kst_simps)
  have "allocproc_take c s = Ret (Some p, lk_released c LkPtable ?s5)"
    using krelease_in [OF in5] fr rm st
    by (simp add: allocproc_take_def kacquire_enter [OF assms(2)] assertstate_def Let_def)
  moreover have "may_enter c (lk_released c LkPtable ?s5)" using in5 by (rule may_enter_released)
  moreover have "plrep {} (lk_released c LkPtable ?s5) (L(LFree := ps, LEmbryo := p # L LEmbryo))"
    using r5 by (simp add: kst_simps)
  ultimately show thesis using that core_lk_released [OF c5] by blast
qed

lemma in_ptable_coreI: "in_ptable c s \<Longrightarrow> core s' = core (upd p f s) \<Longrightarrow> in_ptable c s'"
  by (simp add: in_ptable_core [of s' "upd p f s"] kst_simps)

lemma embryo_to_free_rep:
  assumes "plrep {} s L" and "may_enter c s" and "p < NPROC" and "state (procs s p) = EMBRYO"
  obtains s' where "embryo_to_free msg c p s = Ret s'" and "may_enter c s'"
    and "plrep {} s' (L(LEmbryo := remove1 p (L LEmbryo), LFree := p # L LFree))"
    and "core s' = core (lk_released c LkPtable (upd p (state_update (\<lambda>_. UNUSED)) (lk_taken c LkPtable s)))"
proof -
  let ?s0 = "lk_taken c LkPtable s"
  let ?f = "state_update (\<lambda>_. UNUSED)"
  have r0: "plrep {} ?s0 L" using assms(1) by (simp add: kst_simps)
  have pL: "p \<in> set (L LEmbryo)" using assms by (simp add: plrep_mem_iff [OF assms(1)])
  have prio: "unat (priority (?f (procs ?s0 p))) \<le> MAXPRIO"
    using prio_okD [OF plrep_prio [OF assms(1)] assms(3)] by (simp add: kst_simps)
  obtain s1 where rm: "removefromlist LEmbryo (Some p) ?s0 = Ret (0, s1)" and c1: "core s1 = core ?s0"
    and r2: "plrep {} (addtofrontoflist LFree (Some p) (upd p ?f s1))
               (L(LEmbryo := remove1 p (L LEmbryo), LFree := p # L LFree))"
    and c2: "core (addtofrontoflist LFree (Some p) (upd p ?f s1)) = core (upd p ?f ?s0)"
    using move_front_rep [where f = ?f and l' = LFree, OF r0 _ pL _ prio] by auto
  let ?s2 = "addtofrontoflist LFree (Some p) (upd p ?f s1)"
  have st: "state (procs s1 p) = EMBRYO" using assms(4) core_state [OF c1, of p] by (simp add: kst_simps)
  have in2: "in_ptable c ?s2" by (rule in_ptable_coreI [OF in_ptable_taken [OF assms(2)] c2])
  have "embryo_to_free msg c p s = Ret (lk_released c LkPtable ?s2)"
    using rm st krelease_in [OF in2]
    by (simp add: embryo_to_free_def kacquire_enter [OF assms(2)] assertstate_def)
  moreover have "plrep {} (lk_released c LkPtable ?s2) (L(LEmbryo := remove1 p (L LEmbryo), LFree := p # L LFree))"
    using r2 by (simp add: kst_simps)
  ultimately show thesis using that core_lk_released [OF c2] may_enter_released [OF in2] by blast
qed

lemma fork_ready_rep:
  assumes "plrep {} s L" and "may_enter c s" and "p < NPROC" and "state (procs s p) = EMBRYO"
    and "i = unat (priority (procs s p))"
  obtains s' where "fork_ready c p s = Ret s'" and "may_enter c s'"
    and "plrep {} s' (L(LEmbryo := remove1 p (L LEmbryo), LReady i := L (LReady i) @ [p]))"
    and "core s' = core (lk_released c LkPtable (upd p (state_update (\<lambda>_. RUNNABLE)) (lk_taken c LkPtable s)))"
proof -
  let ?s0 = "lk_taken c LkPtable s"
  let ?f = "state_update (\<lambda>_. RUNNABLE)"
  have r0: "plrep {} ?s0 L" using assms(1) by (simp add: kst_simps)
  have pL: "p \<in> set (L LEmbryo)" using assms by (simp add: plrep_mem_iff [OF assms(1)])
  have i: "i = unat (priority (?f (procs ?s0 p)))" and le: "i \<le> MAXPRIO"
    using prio_okD [OF plrep_prio [OF assms(1)] assms(3)] assms(5) by (simp_all add: kst_simps)
  obtain s1 s2 where rm: "removefromlist LEmbryo (Some p) ?s0 = Ret (0, s1)" and c1: "core s1 = core ?s0"
    and rd: "readyref (priority (?f (procs s1 p))) = Ret (LReady i)"
    and add: "addtoreadyprioritylist (LReady i) (Some p) (upd p ?f s1) = Ret (0, s2)"
    and r2: "plrep {} s2 ((L(LEmbryo := remove1 p (L LEmbryo)))
               (LReady i := (L(LEmbryo := remove1 p (L LEmbryo))) (LReady i) @ [p]))"
    and c2: "core s2 = core (upd p ?f ?s0)"
    using move_ready_rep [where f = ?f, OF r0 _ pL _ i le] by auto
  have st: "state (procs s1 p) = EMBRYO" using assms(4) core_state [OF c1, of p] by (simp add: kst_simps)
  have in2: "in_ptable c s2" by (rule in_ptable_coreI [OF in_ptable_taken [OF assms(2)] c2])
  have "fork_ready c p s = Ret (lk_released c LkPtable s2)"
    using rm st rd add krelease_in [OF in2]
    by (simp add: fork_ready_def kacquire_enter [OF assms(2)] assertstate_def procs_upd)
  moreover have "plrep {} (lk_released c LkPtable s2) (L(LEmbryo := remove1 p (L LEmbryo), LReady i := L (LReady i) @ [p]))"
    using r2 by (simp add: kst_simps)
  ultimately show thesis using that core_lk_released [OF c2] may_enter_released [OF in2] by blast
qed

end
