(* ===== verification/Procexit.thy ===== *)
theory Procexit
  imports Procops
begin

text \<open>
  \<open>wakeup\<close>, \<open>exit\<close> and \<open>wait\<close> (\<open>src/proc.c\<close>) on a table whose lists are right: who is woken, how
  the children of an exiting process pass to \<open>initproc\<close>, and which zombie \<open>wait\<close> frees.
\<close>

section \<open>Updates of the whole table\<close>

lemma plrep_map_procs:
  assumes "plrep X s L"
    and "\<And>p. pnext (g p) = pnext (procs s p)" and "\<And>p. state (g p) = state (procs s p)"
    and "\<And>p. priority (g p) = priority (procs s p)"
  shows "plrep X (s\<lparr>procs := g\<rparr>) L"
proof -
  have "getl (s\<lparr>procs := g\<rparr>) l = getl s l" for l by (cases l) simp_all
  moreover have "nextof (s\<lparr>procs := g\<rparr>) = nextof s" by (simp add: nextof_def assms(2) fun_eq_iff)
  moreover have "home (s\<lparr>procs := g\<rparr>) = home s"
    by (simp add: home_def fun_eq_iff) (blast intro: home_of_cong assms(3,4))
  ultimately show ?thesis using assms(1) by (simp add: plrep_def prio_ok_def assms(4))
qed

definition wake_all :: "chan option \<Rightarrow> 'm kst \<Rightarrow> 'm kst" where
  "wake_all ch s = wake_set {p. p < NPROC \<and> state (procs s p) = SLEEPING \<and> chan (procs s p) = ch} s"

definition reparent_on :: "nat \<Rightarrow> nat set \<Rightarrow> 'm kst \<Rightarrow> 'm kst" where
  "reparent_on par A s =
     s\<lparr>procs := (\<lambda>q. if q \<in> A \<and> parent (procs s q) = Some par
                     then (procs s q)\<lparr>parent := initproc s\<rparr> else procs s q)\<rparr>"

lemma wake_all_core: "core (wake_all ch s) = wake_all ch (core s)"
  by (simp add: wake_all_def core_wake_set) (simp add: core_def)

lemma reparent_on_core: "core (reparent_on par A s) = reparent_on par A (core s)"
  by (auto simp: reparent_on_def core_def fun_eq_iff)

lemma plrep_reparent_on: "plrep X s L \<Longrightarrow> plrep X (reparent_on par A s) L"
  unfolding reparent_on_def by (rule plrep_map_procs) auto

section \<open>wakeup\<close>

text \<open>The list version changes the table as the scan of the whole table does.\<close>

lemma wakeup1_scan_upto:
  "n \<le> NPROC \<Longrightarrow>
   fold (\<lambda>p s. if state (procs s p) = SLEEPING \<and> chan (procs s p) = ch
               then upd p (state_update (\<lambda>_. RUNNABLE)) s else s) [0..<n] s
   = wake_set {p. p < n \<and> state (procs s p) = SLEEPING \<and> chan (procs s p) = ch} s"
proof (induction n)
  case 0
  then show ?case by simp
next
  case (Suc n)
  let ?A = "\<lambda>n. {p. p < n \<and> state (procs s p) = SLEEPING \<and> chan (procs s p) = ch}"
  let ?w = "wake_set (?A n) s"
  have same: "procs ?w n = procs s n" by (simp add: wake_set_def)
  show ?case
  proof (cases "state (procs s n) = SLEEPING \<and> chan (procs s n) = ch")
    case True
    then have "?A (Suc n) = ?A n \<union> {n}" by (auto simp: less_Suc_eq)
    moreover have "wake_set (?A n \<union> {n}) s = wake_set {n} ?w" by (auto simp: wake_set_def fun_eq_iff)
    ultimately show ?thesis using Suc True same by (simp add: upd_state_wake)
  next
    case False
    then have "?A (Suc n) = ?A n" by (auto simp: less_Suc_eq)
    then show ?thesis using Suc same by (auto simp: False)
  qed
qed

lemma wakeup1_scan_all: "wakeup1_scan ch s = wake_all ch s"
  using wakeup1_scan_upto [of NPROC ch s] by (simp add: wakeup1_scan_def wake_all_def)

lemma wakeup1_all:
  assumes "plrep {} s L"
  obtains s' where "wakeup1 ch s = Ret s'" and "plrep {} s' (wakeL s ch (L LSleep) L)"
    and "core s' = core (wake_all ch s)"
proof -
  obtain s' where w: "wakeup1 ch s = Ret s'" and r: "plrep {} s' (wakeL s ch (L LSleep) L)"
    and c: "core s' = core (wake_set {p \<in> set (L LSleep). chan (procs s p) = ch} s)"
    using wakeup1_rep [OF assms] .
  have "{p \<in> set (L LSleep). chan (procs s p) = ch}
      = {p. p < NPROC \<and> state (procs s p) = SLEEPING \<and> chan (procs s p) = ch}"
    by (auto simp: plrep_mem_iff [OF assms])
  with c have "core s' = core (wake_all ch s)" by (simp only: wake_all_def)
  with w r show thesis by (rule that)
qed

lemma in_ptable_wake_all [kst_simps]: "in_ptable c (wake_all ch s) = in_ptable c s"
  and in_ptable_reparent_on [kst_simps]: "in_ptable c (reparent_on par A s) = in_ptable c s"
  by (simp_all add: in_ptable_def wake_all_def wake_set_def reparent_on_def)

text \<open>\<open>wakeup\<close> may be called with other locks held.\<close>

lemma wakeup_any:
  assumes "plrep {} s L" and "locked (locks s LkPtable) = 0" and "cpu_ok (cpus s c)"
  obtains s' where "wakeup c ch s = Ret s'" and "plrep {} s' (wakeL s ch (L LSleep) L)"
    and "core s' = core (lk_released c LkPtable (wake_all ch (lk_taken c LkPtable s)))"
proof -
  let ?s0 = "lk_taken c LkPtable s"
  have r0: "plrep {} ?s0 L" using assms(1) by (simp add: kst_simps)
  obtain s1 where w: "wakeup1 ch ?s0 = Ret s1" and r1: "plrep {} s1 (wakeL ?s0 ch (L LSleep) L)"
    and c1: "core s1 = core (wake_all ch ?s0)"
    using wakeup1_all [OF r0] .
  have "locks s1 = locks ?s0" "cpus s1 = cpus ?s0" using core_locks [OF c1] core_cpus [OF c1] by (simp_all add: wake_all_def wake_set_def)
  then have rel: "krelease c LkPtable s1 = Ret (lk_released c LkPtable s1)"
    using assms(3) by (intro krelease_held) (simp_all add: lk_taken_def holding_def, simp add: cpu_ok_def)
  have "wakeL ?s0 ch (L LSleep) L = wakeL s ch (L LSleep) L"
    by (simp add: wakeL_def kst_simps fun_eq_iff split: lref.split)
  then show thesis
    using that [of "lk_released c LkPtable s1"] w r1 rel core_lk_released [OF c1]
    by (simp add: wakeup_def kacquire_free [OF assms(2)] kst_simps)
qed

lemma wakeup_rep:
  assumes "plrep {} s L" and "may_enter c s"
  obtains s' where "wakeup c ch s = Ret s'" and "may_enter c s'"
    and "plrep {} s' (wakeL s ch (L LSleep) L)"
    and "core s' = core (lk_released c LkPtable (wake_all ch (lk_taken c LkPtable s)))"
proof -
  have "locked (locks s LkPtable) = 0" "cpu_ok (cpus s c)" using assms(2) by (simp_all add: may_enter_def cpu_ok_def)
  then obtain s' where s': "wakeup c ch s = Ret s'" "plrep {} s' (wakeL s ch (L LSleep) L)"
    and c: "core s' = core (lk_released c LkPtable (wake_all ch (lk_taken c LkPtable s)))"
    using wakeup_any [OF assms(1)] by metis
  have "may_enter c s'"
    using assms(2) core_locks [OF c] core_cpus [OF c]
    by (simp add: may_enter_def lk_released_def) (simp add: wake_all_def wake_set_def lk_taken_def)
  with s' c show thesis by (intro that)
qed

section \<open>exit\<close>

lemma adopt_fold:
  "distinct qs \<Longrightarrow> fold (adopt_one par) qs s = reparent_on par (set qs) s"
proof (induction qs arbitrary: s)
  case Nil
  then show ?case by (simp add: reparent_on_def)
next
  case (Cons q qs)
  have "reparent_on par (set qs) (adopt_one par q s) = reparent_on par (set (q # qs)) s"
    using Cons.prems by (intro kst.equality) (auto simp: reparent_on_def adopt_one_def upd_def)
  with Cons show ?case by simp
qed

lemma adoptzombiechildren_rep:
  assumes "plrep X s L" and "valid_lref l"
  shows "adoptzombiechildren l par s = Ret (reparent_on par (set (L l)) s)"
proof -
  have "nextof (adopt_one par q s) = nextof s" for q and s :: "'a kst"
    by (auto simp: adopt_one_def nextof_def procs_upd)
  then show ?thesis
    using each_from_upd [OF assms, of "adopt_one par"] plrep_distinct [OF assms]
    by (simp add: adoptzombiechildren_def adopt_fold)
qed

lemma reparent_on_Un: "reparent_on par B (reparent_on par A s) = reparent_on par (A \<union> B) s"
  by (rule kst.equality) (auto simp: reparent_on_def)

lemma adopt_ready_rep:
  assumes "plrep X s L" and "\<forall>i\<in>set is. i \<le> MAXPRIO"
  shows "adopt_ready par is s = Ret (reparent_on par (\<Union>i\<in>set is. set (L (LReady i))) s)"
  using assms
proof (induction "is" arbitrary: s)
  case Nil
  then show ?case by (simp add: reparent_on_def)
next
  case (Cons i "is")
  then show ?case
    by (simp add: adoptzombiechildren_rep [OF Cons.prems(1)] plrep_reparent_on reparent_on_Un)
qed
definition init_chan :: "'m kst \<Rightarrow> chan option" where
  "init_chan s = map_option ChProc (initproc s)"

definition wake_if :: "bool \<Rightarrow> chan option \<Rightarrow> 'm kst \<Rightarrow> 'm kst" where
  "wake_if b ch s = (if b then wake_all ch s else s)"

lemma wake_all_idem: "wake_all ch (wake_all ch s) = wake_all ch s"
  by (rule kst.equality) (auto simp: wake_all_def wake_set_def fun_eq_iff)

lemma wake_reparent: "reparent_on par A (wake_all ch s) = wake_all ch (reparent_on par A s)"
  by (rule kst.equality) (auto simp: wake_all_def wake_set_def reparent_on_def fun_eq_iff)

lemma wake_if_core: "core s' = core s \<Longrightarrow> core (wake_if b ch s') = core (wake_if b ch s)"
  by (simp add: wake_if_def wake_all_core)

lemma procs_wake_all_parent [simp]: "parent (procs (wake_all ch s) q) = parent (procs s q)"
  by (simp add: wake_all_def wake_set_def)

lemma initproc_wake [simp]: "initproc (wake_all ch s) = initproc s"
  and initproc_reparent [simp]: "initproc (reparent_on par A s) = initproc s"
  by (simp_all add: wake_all_def wake_set_def reparent_on_def)

lemma adopt_zombies_rep:
  assumes "plrep {} s L" and "L LZombie = ys @ xs" and "chain (nextof s) cur xs"
  shows "\<exists>s' L'. adopt_zombies par cur s = Some (Ret s') \<and> plrep {} s' L'
           \<and> L' LZombie = L LZombie \<and> L' LRunning = L LRunning
           \<and> core s' = core (wake_if (\<exists>q\<in>set xs. parent (procs s q) = Some par) (init_chan s)
                              (reparent_on par (set xs) s))"
  using assms
proof (induction xs arbitrary: s L ys cur)
  case Nil
  then show ?case by (auto simp: adopt_zombies.simps wake_if_def reparent_on_def)
next
  case (Cons q xs)
  have cur: "cur = Some q" and rest: "chain (nextof s) (nextof s q) xs" using Cons.prems(3) by auto
  have "distinct (L LZombie)" using Cons.prems(1) by (rule plrep_distinct) simp
  then have qxs: "q \<notin> set xs" using Cons.prems(2) by simp
  show ?case
  proof (cases "parent (procs s q) = Some par")
    case False
    have "reparent_on par (set (q # xs)) s = reparent_on par (set xs) s"
      using False by (intro kst.equality) (auto simp: reparent_on_def)
    with Cons.IH [of s L "ys @ [q]" "nextof s q"] Cons.prems(1,2) rest False cur show ?thesis
      by (simp add: adopt_zombies.simps [of par "Some q"])
  next
    case True
    let ?s0 = "reparent_on par {q} s"
    have s0: "upd q (parent_update (\<lambda>_. initproc s)) s = ?s0"
      using True by (intro kst.equality) (auto simp: reparent_on_def upd_def)
    have r0: "plrep {} ?s0 L" using Cons.prems(1) by (rule plrep_reparent_on)
    obtain s1 where w: "wakeup1 (init_chan s) ?s0 = Ret s1"
      and r1: "plrep {} s1 (wakeL ?s0 (init_chan s) (L LSleep) L)"
      and c1: "core s1 = core (wake_all (init_chan s) ?s0)"
      using wakeup1_all [OF r0] .
    let ?L1 = "wakeL ?s0 (init_chan s) (L LSleep) L"
    have L1: "?L1 LZombie = L LZombie" "?L1 LRunning = L LRunning" by (simp_all add: wakeL_def)
    have z: "?L1 LZombie = (ys @ [q]) @ xs" using L1 Cons.prems(2) by simp
    have "chain (nextof s1) (getl s1 LZombie) (ys @ q # xs)"
      using plrep_chain [OF r1, of LZombie] z by simp
    then have "chain (nextof s1) (nextof s1 q) xs" by (auto dest: chain_suffix)
    from Cons.IH [OF r1 z this] obtain s2 L2 where
      l2: "adopt_zombies par (nextof s1 q) s1 = Some (Ret s2)" and r2: "plrep {} s2 L2"
      and L2: "L2 LZombie = L LZombie" "L2 LRunning = L LRunning"
      and c2: "core s2 = core (wake_if (\<exists>q\<in>set xs. parent (procs s1 q) = Some par) (init_chan s1)
                               (reparent_on par (set xs) s1))"
      using L1 by auto
    have ic: "init_chan s1 = init_chan s" using core_initproc [OF c1] by (simp add: init_chan_def)
    have "core (reparent_on par (set xs) s1) = core (wake_all (init_chan s) (reparent_on par (set (q # xs)) s))"
      using c1 by (simp add: reparent_on_core wake_all_core wake_reparent reparent_on_Un)
    then have "core s2 = core (wake_all (init_chan s) (reparent_on par (set (q # xs)) s))"
      using c2 by (simp add: ic wake_if_def wake_all_core wake_all_idem split: if_splits)
    then show ?thesis
      using True cur w l2 r2 L2 s0
      by (auto simp: adopt_zombies.simps [of par "Some q"] wake_if_def init_chan_def)
  qed
qed

text \<open>What \<open>exit\<close> does to the other processes, before the exiting one becomes a zombie.\<close>

definition exit_family :: "nat \<Rightarrow> 'm kst \<Rightarrow> 'm kst" where
  "exit_family p s =
     wake_if (\<exists>q<NPROC. state (procs s q) = ZOMBIE \<and> parent (procs s q) = Some p) (init_chan s)
       (reparent_on p {q. q < NPROC \<and> state (procs s q) \<noteq> UNUSED}
         (wake_all (map_option ChProc (parent (procs s p))) s))"

lemma state_wake_all:
  "state (procs (wake_all ch s) q) =
     (if q < NPROC \<and> state (procs s q) = SLEEPING \<and> chan (procs s q) = ch then RUNNABLE
      else state (procs s q))"
  by (simp add: wake_all_def wake_set_def)

lemma state_reparent_on [simp]: "state (procs (reparent_on par A s) q) = state (procs s q)"
  by (simp add: reparent_on_def)

lemma in_ptable_exit_family [kst_simps]: "in_ptable c (exit_family p s) = in_ptable c s"
  by (simp add: exit_family_def wake_if_def kst_simps)

lemma exit_family_running:
  "state (procs s p) = RUNNING \<Longrightarrow> state (procs (exit_family q s) p) = RUNNING"
  by (simp add: exit_family_def wake_if_def state_wake_all)

lemma exit_family_fields [simp]:
  "cpus (exit_family p s) = cpus s" "ticks (exit_family p s) = ticks s"
  by (simp_all add: exit_family_def wake_if_def wake_all_def wake_set_def reparent_on_def)

lemma live_lists:
  assumes "plrep {} s L"
  shows "set (L LEmbryo) \<union> (\<Union>i\<in>{0..<MAXPRIO + 1}. set (L (LReady i))) \<union> set (L LSleep)
           \<union> set (L LRunning) \<union> set (L LZombie) = {q. q < NPROC \<and> state (procs s q) \<noteq> UNUSED}"
    (is "?A = ?B")
proof
  show "?A \<subseteq> ?B" using assms by (auto simp: plrep_mem_iff)
  show "?B \<subseteq> ?A"
  proof
    fix q assume "q \<in> ?B"
    moreover from this have "unat (priority (procs s q)) \<le> MAXPRIO"
      by (simp add: prio_okD [OF plrep_prio [OF assms]])
    ultimately show "q \<in> ?A"
      using assms by (cases "state (procs s q)") (auto simp: plrep_mem_iff)
  qed
qed

lemma exit_others:
  assumes "plrep {} s L"
  obtains s1 s2 s3 s4 s5 s6 L' where "wakeup1 (map_option ChProc (parent (procs s p))) s = Ret s1"
    and "adoptzombiechildren LEmbryo p s1 = Ret s2" and "adopt_ready p [0..<MAXPRIO + 1] s2 = Ret s3"
    and "adoptzombiechildren LSleep p s3 = Ret s4" and "adoptzombiechildren LRunning p s4 = Ret s5"
    and "adopt_zombies p (zombie_l s5) s5 = Some (Ret s6)"
    and "plrep {} s6 L'" and "L' LZombie = L LZombie" and "L' LRunning = L LRunning"
    and "core s6 = core (exit_family p s)"
proof -
  let ?ch = "map_option ChProc (parent (procs s p))"
  obtain s1 where w: "wakeup1 ?ch s = Ret s1" and r1: "plrep {} s1 (wakeL s ?ch (L LSleep) L)"
    and c1: "core s1 = core (wake_all ?ch s)"
    using wakeup1_all [OF assms] .
  define L1 where "L1 = wakeL s ?ch (L LSleep) L"
  have L1: "L1 LZombie = L LZombie" "L1 LRunning = L LRunning" by (simp_all add: L1_def wakeL_def)
  define A where "A = set (L1 LEmbryo) \<union> (\<Union>i\<in>{0..<MAXPRIO + 1}. set (L1 (LReady i)))"
  define B where "B = A \<union> set (L1 LSleep) \<union> set (L1 LRunning)"
  have r1: "plrep {} s1 L1" using r1 by (simp add: L1_def)
  have r5: "plrep {} (reparent_on p B s1) L1" using r1 by (rule plrep_reparent_on)
  have st1: "state (procs s1 q) = state (procs (wake_all ?ch s) q)"
    "parent (procs s1 q) = parent (procs s q)" for q
    using core_state [OF c1, of q] core_parent [OF c1, of q] by simp_all
  have ch: "chain (nextof (reparent_on p B s1)) (zombie_l (reparent_on p B s1)) (L1 LZombie)"
    using plrep_chain [OF r5, of LZombie] by simp
  obtain s6 L' where z: "adopt_zombies p (zombie_l (reparent_on p B s1)) (reparent_on p B s1) = Some (Ret s6)"
    and r6: "plrep {} s6 L'" and L': "L' LZombie = L LZombie" "L' LRunning = L LRunning"
    and c6: "core s6 = core (wake_if (\<exists>q\<in>set (L1 LZombie). parent (procs (reparent_on p B s1) q) = Some p)
                (init_chan (reparent_on p B s1)) (reparent_on p (set (L1 LZombie)) (reparent_on p B s1)))"
    using adopt_zombies_rep [OF r5 append_Nil [symmetric] ch, of p] L1 by auto
  have un: "state (procs s1 q) = UNUSED \<longleftrightarrow> state (procs s q) = UNUSED"
    "state (procs s1 q) = ZOMBIE \<longleftrightarrow> state (procs s q) = ZOMBIE" for q
    by (simp_all add: st1 state_wake_all)
  have U: "B \<union> set (L1 LZombie) = {q. q < NPROC \<and> state (procs s q) \<noteq> UNUSED}"
    using live_lists [OF r1] by (simp add: A_def B_def un)
  have nz: "q \<notin> B" if "q \<in> set (L1 LZombie)" for q
    using that by (auto simp: A_def B_def plrep_mem_iff [OF r1])
  have "(\<exists>q\<in>set (L1 LZombie). parent (procs (reparent_on p B s1) q) = Some p)
      \<longleftrightarrow> (\<exists>q\<in>set (L1 LZombie). parent (procs s q) = Some p)"
    by (rule bex_cong) (simp_all add: reparent_on_def nz st1)
  also have "\<dots> \<longleftrightarrow> (\<exists>q<NPROC. state (procs s q) = ZOMBIE \<and> parent (procs s q) = Some p)"
    by (auto simp: plrep_mem_iff [OF r1] un)
  finally have zk: "(\<exists>q\<in>set (L1 LZombie). parent (procs (reparent_on p B s1) q) = Some p)
      \<longleftrightarrow> (\<exists>q<NPROC. state (procs s q) = ZOMBIE \<and> parent (procs s q) = Some p)" .
  have ic: "init_chan (reparent_on p B s1) = init_chan s"
    using core_initproc [OF c1] by (simp add: init_chan_def)
  have "core (reparent_on p (B \<union> set (L1 LZombie)) s1)
      = core (reparent_on p (B \<union> set (L1 LZombie)) (wake_all ?ch s))"
    using c1 by (simp add: reparent_on_core)
  from wake_if_core [OF this] have c: "core s6 = core (exit_family p s)"
    unfolding c6 zk ic reparent_on_Un exit_family_def U .
  have a2: "adoptzombiechildren LEmbryo p s1 = Ret (reparent_on p (set (L1 LEmbryo)) s1)"
    using r1 by (simp add: adoptzombiechildren_rep)
  have a3: "adopt_ready p [0..<MAXPRIO + 1] (reparent_on p (set (L1 LEmbryo)) s1) = Ret (reparent_on p A s1)"
    using adopt_ready_rep [OF plrep_reparent_on [OF r1], of "[0..<MAXPRIO + 1]" p p "set (L1 LEmbryo)"]
    by (simp add: reparent_on_Un A_def atLeastLessThanSuc)
  have a4: "adoptzombiechildren LSleep p (reparent_on p A s1) = Ret (reparent_on p (A \<union> set (L1 LSleep)) s1)"
    using adoptzombiechildren_rep [OF plrep_reparent_on [OF r1]] by (simp add: reparent_on_Un)
  have a5: "adoptzombiechildren LRunning p (reparent_on p (A \<union> set (L1 LSleep)) s1) = Ret (reparent_on p B s1)"
    using adoptzombiechildren_rep [OF plrep_reparent_on [OF r1]] by (simp add: reparent_on_Un B_def)
  show thesis by (rule that [OF w a2 a3 a4 a5 z r6 L' c])
qed

definition exit_eff :: "u32 \<Rightarrow> resume \<Rightarrow> proc \<Rightarrow> proc" where
  "exit_eff now r pr = sched_eff now r (pr\<lparr>state := ZOMBIE\<rparr>)"

lemma exit_locked_rep:
  assumes "plrep {} s L" and "may_enter c s" and "cpu_proc (cpus s c) = Some p"
    and "p < NPROC" and "state (procs s p) = RUNNING"
  obtains s' L' where "exit_locked c p s = Ret s'" and "in_ptable c s'" and "plrep {} s' L'"
    and "L' LZombie = p # L LZombie" and "L' LRunning = remove1 p (L LRunning)"
    and "core s' = core (upd p (exit_eff (ticks s) (InExit (if_flag (cpus s c))))
                          (exit_family p (lk_taken c LkPtable s)))"
proof -
  let ?s0 = "lk_taken c LkPtable s"
  let ?f = "state_update (\<lambda>_. ZOMBIE)"
  have r0: "plrep {} ?s0 L" using assms(1) by (simp add: kst_simps)
  have ie: "intena (cpus ?s0 c) = if_flag (cpus s c)" and cp: "cpu_proc (cpus ?s0 c) = Some p"
    using assms(2,3) by (simp_all add: lk_taken_def pushcli_def may_enter_def)
  obtain s1 s2 s3 s4 s5 s6 L6 where w: "wakeup1 (map_option ChProc (parent (procs ?s0 p))) ?s0 = Ret s1"
    and a: "adoptzombiechildren LEmbryo p s1 = Ret s2" "adopt_ready p [0..<MAXPRIO + 1] s2 = Ret s3"
      "adoptzombiechildren LSleep p s3 = Ret s4" "adoptzombiechildren LRunning p s4 = Ret s5"
      "adopt_zombies p (zombie_l s5) s5 = Some (Ret s6)"
    and r6: "plrep {} s6 L6" and L6: "L6 LZombie = L LZombie" "L6 LRunning = L LRunning"
    and c6: "core s6 = core (exit_family p ?s0)"
    using exit_others [OF r0] .
  have pL: "p \<in> set (L6 LRunning)" using assms L6 by (simp add: plrep_mem_iff [OF assms(1)])
  have st6: "state (procs s6 p) = RUNNING"
    using core_state [OF c6, of p] assms(5) by (simp add: exit_family_running kst_simps)
  have prio: "unat (priority (?f (procs s6 p))) \<le> MAXPRIO"
    using prio_okD [OF plrep_prio [OF r6] assms(4)] by simp
  obtain s7 where rm: "removefromlist LRunning (Some p) s6 = Ret (0, s7)" and c7: "core s7 = core s6"
    and r8: "plrep {} (addtofrontoflist LZombie (Some p) (upd p ?f s7))
               (L6(LRunning := remove1 p (L6 LRunning), LZombie := p # L6 LZombie))"
    and c8: "core (addtofrontoflist LZombie (Some p) (upd p ?f s7)) = core (upd p ?f s6)"
    using move_front_rep [where f = ?f and l' = LZombie, OF r6 _ pL _ prio] by auto
  let ?s8 = "addtofrontoflist LZombie (Some p) (upd p ?f s7)"
  have c8: "core ?s8 = core (upd p ?f (exit_family p ?s0))"
    using c8 pn_free_core [OF _ c6, of ?f p] by simp
  have st7: "state (procs s7 p) = RUNNING" using core_state [OF c7, of p] st6 by simp
  have s8: "cpus ?s8 = cpus ?s0" "ticks ?s8 = ticks s" "state (procs ?s8 p) \<noteq> RUNNING"
    using core_cpus [OF c8] core_ticks [OF c8] core_state [OF c8, of p] by (simp_all add: upd_def kst_simps)
  have in8: "in_ptable c ?s8"
    using in_ptable_taken [OF assms(2)] by (simp add: in_ptable_core [OF c8] kst_simps)
  let ?r = "InExit (if_flag (cpus s c))"
  let ?s9 = "upd p (sched_eff (ticks s) ?r) ?s8"
  have "sched c InExit ?s8 = Ret ?s9" using sched_ok [OF in8, of p InExit] s8 cp ie by simp
  then have e: "exit_locked c p s = Ret ?s9"
    using w a rm st7 by (simp add: exit_locked_def kacquire_enter [OF assms(2)] assertstate_def)
  have i: "in_ptable c ?s9" using in8 by (simp add: kst_simps)
  have c: "core ?s9 = core (upd p (exit_eff (ticks s) ?r) (exit_family p ?s0))"
    using pn_free_core [OF _ c8, of "sched_eff (ticks s) ?r" p] by (simp add: upd_def exit_eff_def)
  show thesis by (rule that [OF e i plrep_sched [OF r8 assms(4)] _ _ c]) (simp_all add: L6)
qed

section \<open>wait\<close>

lemma ready_kids_rep:
  assumes "plrep X s L" and "\<forall>i\<in>set is. i \<le> MAXPRIO"
  shows "ready_kids p is s hk =
    Ret (hk \<or> (\<exists>i\<in>set is. \<exists>q\<in>set (L (LReady i)). parent (procs s q) = Some p))"
  using assms
  by (induction "is" arbitrary: hk) (auto simp: checkforchildren_rep)

text \<open>\<open>havekids\<close> is set for a child in any state but \<open>ZOMBIE\<close>; zombies are looked for afterwards.\<close>

lemma have_kids_rep:
  assumes "plrep {} s L"
  shows "have_kids p s = Ret (\<exists>q<NPROC. state (procs s q) \<notin> {UNUSED, ZOMBIE} \<and> parent (procs s q) = Some p)"
proof -
  let ?A = "set (L LEmbryo) \<union> set (L LRunning) \<union> set (L LSleep) \<union> (\<Union>i\<in>{0..<MAXPRIO + 1}. set (L (LReady i)))"
  have "have_kids p s = Ret (\<exists>q\<in>?A. parent (procs s q) = Some p)"
    by (simp add: have_kids_def checkforchildren_rep [OF assms] ready_kids_rep [OF assms] bex_Un
          atLeastLessThanSuc)
  moreover have "?A = {q. q < NPROC \<and> state (procs s q) \<notin> {UNUSED, ZOMBIE}}"
  proof -
    have "?A \<inter> set (L LZombie) = {}" by (auto simp: plrep_mem_iff [OF assms])
    then have "?A = (?A \<union> set (L LZombie)) - set (L LZombie)" by auto
    also have "?A \<union> set (L LZombie) = {q. q < NPROC \<and> state (procs s q) \<noteq> UNUSED}"
      using live_lists [OF assms] by (simp add: Un_ac)
    finally have "?A = {q. q < NPROC \<and> state (procs s q) \<noteq> UNUSED} - set (L LZombie)" .
    then show ?thesis unfolding set_eq_iff Diff_iff plrep_mem_iff [OF assms] by blast
  qed
  ultimately show ?thesis by auto
qed

lemma upd_mem: "upd q f (s\<lparr>mem := m\<rparr>) = (upd q f s)\<lparr>mem := m\<rparr>"
  by (simp add: upd_def)

lemma addtofront_mem: "addtofrontoflist l po (s\<lparr>mem := m\<rparr>) = (addtofrontoflist l po s)\<lparr>mem := m\<rparr>"
  by (cases l) (simp_all add: addtofrontoflist_def set_next_def upd_def split: option.split)

lemma reap_rep:
  assumes "plrep {} s L" and "in_ptable c s" and "q < NPROC" and "state (procs s q) = ZOMBIE"
    and "os_kfree os (kstack (procs s q)) (mem s) = Ret m1"
    and "os_freevm os (pgdir (procs s q)) m1 = Ret m2"
  obtains s' where "reap os c q s = Ret (sint (pid (procs s q)), s')" and "may_enter c s'"
    and "plrep {} s' (L(LZombie := remove1 q (L LZombie), LFree := q # L LFree))"
    and "core s' = core (lk_released c LkPtable (upd q reap_fields (s\<lparr>mem := m2\<rparr>)))"
proof -
  have qL: "q \<in> set (L LZombie)" using assms by (simp add: plrep_mem_iff)
  have prio: "unat (priority (reap_fields (procs s q))) \<le> MAXPRIO"
    using prio_okD [OF plrep_prio [OF assms(1)] assms(3)] by (simp add: reap_fields_def)
  have h: "home_of (reap_fields (procs s q)) = LFree" by (simp add: reap_fields_def)
  have ne: "LFree \<noteq> LZombie" by simp
  obtain s1 where rm: "removefromlist LZombie (Some q) s = Ret (0, s1)" and c1: "core s1 = core s"
    and r2: "plrep {} (addtofrontoflist LFree (Some q) (upd q reap_fields s1))
               (L(LZombie := remove1 q (L LZombie), LFree := q # L LFree))"
    and c2: "core (addtofrontoflist LFree (Some q) (upd q reap_fields s1)) = core (upd q reap_fields s)"
    using move_front_rep [where f = reap_fields, OF assms(1) _ qL _ prio h ne] by auto
  let ?s2 = "(addtofrontoflist LFree (Some q) (upd q reap_fields s1))\<lparr>mem := m2\<rparr>"
  have c3: "core ?s2 = core (upd q reap_fields (s\<lparr>mem := m2\<rparr>))" using c2 by (simp add: upd_mem)
  have in2: "in_ptable c ?s2" using assms(2) by (subst in_ptable_core [OF c3]) (simp add: kst_simps)
  have "reap os c q s = Ret (sint (pid (procs s q)), lk_released c LkPtable ?s2)"
    using rm assms(4-6) krelease_in [OF in2]
    by (simp add: reap_def assertstate_def core_state [OF c1] core_kstack [OF c1] core_pgdir [OF c1]
        core_pid [OF c1] core_mem [OF c1] upd_mem addtofront_mem)
  moreover have "plrep {} (lk_released c LkPtable ?s2) (L(LZombie := remove1 q (L LZombie), LFree := q # L LFree))"
    using r2 by (simp add: kst_simps)
  ultimately show thesis using that core_lk_released [OF c3] may_enter_released [OF in2] by blast
qed

lemma wait_find:
  assumes "plrep {} s L"
  shows "of_loop (find_from (\<lambda>q. parent (procs s q) = Some p) (nextof s) (zombie_l s))
       = Ret (find (\<lambda>q. parent (procs s q) = Some p) (L LZombie))"
  using find_from_rep [OF assms, of LZombie "\<lambda>q. parent (procs s q) = Some p"] by simp

text \<open>The first zombie child on the list is freed and its pid returned.\<close>

lemma wait_turn_reap:
  assumes "plrep {} s L" and "cpu_proc (cpus s c) = Some p"
    and "find (\<lambda>q. parent (procs s q) = Some p) (L LZombie) = Some q"
  shows "wait_turn os c s = bindr (reap os c q s) (\<lambda>(pd, s). Ret (WReturn pd, s))"
  using assms by (simp add: wait_turn_def curproc_def have_kids_rep [OF assms(1)] wait_find [OF assms(1)])

lemma wait_turn_none:
  assumes "plrep {} s L" and "cpu_proc (cpus s c) = Some p" and "in_ptable c s"
    and "find (\<lambda>q. parent (procs s q) = Some p) (L LZombie) = None"
    and "(\<nexists>q. q < NPROC \<and> state (procs s q) \<noteq> UNUSED \<and> parent (procs s q) = Some p) \<or> killed (procs s p)"
  shows "wait_turn os c s = Ret (WReturn (-1), lk_released c LkPtable s)"
  using assms krelease_in [OF assms(3)]
  by (auto simp: wait_turn_def curproc_def have_kids_rep [OF assms(1)] wait_find [OF assms(1)])

lemma wait_turn_sleep:
  assumes "plrep {} s L" and "cpu_proc (cpus s c) = Some p"
    and "find (\<lambda>q. parent (procs s q) = Some p) (L LZombie) = None"
    and "\<exists>q<NPROC. state (procs s q) \<noteq> UNUSED \<and> parent (procs s q) = Some p"
    and "\<not> killed (procs s p)"
  shows "wait_turn os c s = bindr (sleep_locked c p (Some (ChProc p)) (Some LkPtable) s) (\<lambda>s. Ret (WSleep, s))"
proof -
  have "\<forall>q\<in>set (L LZombie). parent (procs s q) \<noteq> Some p" using assms(3) by (simp add: find_None_iff)
  with assms(4) have "\<exists>q<NPROC. state (procs s q) \<notin> {UNUSED, ZOMBIE} \<and> parent (procs s q) = Some p"
    by (auto simp: plrep_mem_iff [OF assms(1)])
  with assms show ?thesis
    by (simp add: wait_turn_def curproc_def have_kids_rep [OF assms(1)] wait_find [OF assms(1)] sleep_in)
qed

end
