(* ===== verification/Prockill.thy ===== *)
theory Prockill
  imports Procexit
begin

text \<open>
  \<open>kill\<close> and \<open>setpriority\<close> (\<open>src/proc.c\<close>): the search through the lists, and what happens to the
  process found.
\<close>

section \<open>kill\<close>

definition kill_eff :: "proc \<Rightarrow> proc" where
  "kill_eff pr = pr\<lparr>state := (if state pr = SLEEPING then RUNNABLE else state pr), killed := True\<rparr>"

lemma pn_free_kill_eff [simp]: "pn_free kill_eff"
  by (simp add: pn_free_def kill_eff_def)

lemma kill_eff_sleeping: "state pr = SLEEPING \<Longrightarrow> kill_eff pr = pr\<lparr>state := RUNNABLE, killed := True\<rparr>"
  and kill_eff_other: "state pr \<noteq> SLEEPING \<Longrightarrow> kill_eff pr = pr\<lparr>killed := True\<rparr>"
  by (simp_all add: kill_eff_def)

lemma kill_mark_rep:
  assumes "plrep {} s L" and "in_ptable c s" and "q < NPROC" and "state (procs s q) \<noteq> SLEEPING"
  obtains s' where "kill_mark c q s = Ret (0, s')" and "may_enter c s'" and "plrep {} s' L"
    and "core s' = core (lk_released c LkPtable (upd q kill_eff s))"
proof -
  let ?s1 = "upd q (killed_update (\<lambda>_. True)) s"
  have in1: "in_ptable c ?s1" using assms(2) by (simp add: kst_simps)
  have "plrep {} ?s1 L"
    using assms(1) by (rule plrep_upd_same_home)
      (simp_all add: prio_okD [OF plrep_prio [OF assms(1)] assms(3)])
  then have "plrep {} (lk_released c LkPtable ?s1) L" by (simp add: kst_simps)
  moreover have "?s1 = upd q kill_eff s" using assms(4) by (simp add: upd_def kill_eff_other)
  ultimately show thesis
    using that [OF _ may_enter_released [OF in1]] krelease_in [OF in1] by (simp add: kill_mark_def)
qed

lemma kill_sleeper_rep:
  assumes "plrep {} s L" and "in_ptable c s" and "q < NPROC" and "state (procs s q) = SLEEPING"
  obtains s' where "kill_sleeper c q s = Ret (0, s')" and "may_enter c s'"
    and "plrep {} s' (move_ready (unat (priority (procs s q))) q L)"
    and "core s' = core (lk_released c LkPtable (upd q kill_eff s))"
proof -
  let ?f = "\<lambda>pr. pr\<lparr>state := RUNNABLE, killed := True\<rparr>"
  let ?i = "unat (priority (procs s q))"
  have qL: "q \<in> set (L LSleep)" using assms by (simp add: plrep_mem_iff)
  have i: "?i = unat (priority (?f (procs s q)))" by simp
  have le: "?i \<le> MAXPRIO" by (rule prio_okD [OF plrep_prio [OF assms(1)] assms(3)])
  have pf: "pn_free ?f" by (simp add: pn_free_def)
  obtain s1 s2 where rm: "removefromlist LSleep (Some q) s = Ret (0, s1)" and c1: "core s1 = core s"
    and rd: "readyref (priority (?f (procs s1 q))) = Ret (LReady ?i)"
    and add: "addtoreadyprioritylist (LReady ?i) (Some q) (upd q ?f s1) = Ret (0, s2)"
    and r2: "plrep {} s2 ((L(LSleep := remove1 q (L LSleep)))
               (LReady ?i := (L(LSleep := remove1 q (L LSleep))) (LReady ?i) @ [q]))"
    and c2: "core s2 = core (upd q ?f s)"
    using move_ready_rep [where f = ?f, OF assms(1) _ qL pf i le] by auto
  have st: "state (procs s1 q) = SLEEPING" using assms(4) core_state [OF c1, of q] by simp
  have in2: "in_ptable c s2" by (rule in_ptable_coreI [OF assms(2) c2])
  have "kill_sleeper c q s = Ret (0, lk_released c LkPtable s2)"
    using rm st rd add krelease_in [OF in2] by (simp add: kill_sleeper_def assertstate_def procs_upd)
  moreover have "plrep {} (lk_released c LkPtable s2) (move_ready ?i q L)"
    using r2 by (simp add: kst_simps move_ready_def)
  moreover have "upd q kill_eff s = upd q ?f s"
    using assms(4) by (simp add: upd_def kill_eff_sleeping)
  ultimately show thesis using that core_lk_released [OF c2] may_enter_released [OF in2] by simp
qed

lemma kill_ready_rep:
  assumes "plrep {} s L" and "\<forall>i\<in>set is. i \<le> MAXPRIO"
  shows "kill_ready pd is s =
    Ret (find (\<lambda>q. pid (procs s q) = pd) (concat (map (\<lambda>i. L (LReady i)) is)))"
  using assms(2)
proof (induction "is")
  case Nil
  then show ?case by simp
next
  case (Cons i "is")
  have "find_from (\<lambda>q. pid (procs s q) = pd) (nextof s) (ready s i)
      = Some (find (\<lambda>q. pid (procs s q) = pd) (L (LReady i)))"
    using find_from_rep [OF assms(1), of "LReady i"] Cons.prems by simp
  moreover have "find P (xs @ ys) = (case find P xs of None \<Rightarrow> find P ys | Some v \<Rightarrow> Some v)"
    for P and xs ys :: "nat list"
    by (induction xs) auto
  ultimately show ?case using Cons by (simp split: option.split)
qed

text \<open>A pid belongs to a live process if the process is neither free nor a zombie.\<close>

definition live_pid :: "u32 \<Rightarrow> 'm kst \<Rightarrow> nat \<Rightarrow> bool" where
  "live_pid pd s q \<longleftrightarrow> q < NPROC \<and> state (procs s q) \<notin> {UNUSED, ZOMBIE} \<and> pid (procs s q) = pd"

lemma find_pid_None:
  "find (\<lambda>q. pid (procs s q) = pd) xs = None \<Longrightarrow> q \<in> set xs \<Longrightarrow> pid (procs s q) \<noteq> pd"
  by (auto simp: find_None_iff)

lemma live_in_list:
  assumes "plrep {} s L" and "live_pid pd s q"
  shows "q \<in> set (L LSleep) \<union> set (L LEmbryo) \<union> set (concat (map (\<lambda>i. L (LReady i)) [0..<MAXPRIO + 1]))
           \<union> set (L LRunning)"
  using assms prio_okD [OF plrep_prio [OF assms(1)], of q]
  by (cases "state (procs s q)") (auto simp: live_pid_def plrep_mem_iff less_Suc_eq_le)

lemma kill_rep:
  assumes "plrep {} s L" and "may_enter c s"
  obtains (killed) q s' L' where "kill c pdi s = Ret (0, s')" and "live_pid (word_of_int pdi) s q"
      and "may_enter c s'" and "plrep {} s' L'"
      and "core s' = core (lk_released c LkPtable (upd q kill_eff (lk_taken c LkPtable s)))"
    | (absent) "kill c pdi s = Ret (-1, lk_released c LkPtable (lk_taken c LkPtable s))"
      and "\<nexists>q. live_pid (word_of_int pdi) s q"
proof -
  let ?s = "lk_taken c LkPtable s"
  let ?P = "\<lambda>q. pid (procs ?s q) = word_of_int pdi"
  have r: "plrep {} ?s L" and i: "in_ptable c ?s"
    using assms(1) in_ptable_taken [OF assms(2)] by (simp_all add: kst_simps)
  have fs: "find_from ?P (nextof ?s) (sleep_l ?s) = Some (find ?P (L LSleep))"
    and fe: "find_from ?P (nextof ?s) (embryo_l ?s) = Some (find ?P (L LEmbryo))"
    and fr: "find_from ?P (nextof ?s) (running_l ?s) = Some (find ?P (L LRunning))"
    using find_from_rep [OF r, of LSleep ?P] find_from_rep [OF r, of LEmbryo ?P]
      find_from_rep [OF r, of LRunning ?P] by simp_all
  let ?R = "concat (map (\<lambda>i. L (LReady i)) [0..<MAXPRIO + 1])"
  have fy: "kill_ready (word_of_int pdi) [0..<MAXPRIO + 1] ?s = Ret (find ?P ?R)"
    by (rule kill_ready_rep [OF r]) auto
  have keq: "kill c pdi s =
     (case find ?P (L LSleep) of Some q \<Rightarrow> kill_sleeper c q ?s | None \<Rightarrow>
      case find ?P (L LEmbryo) of Some q \<Rightarrow> kill_mark c q ?s | None \<Rightarrow>
      case find ?P ?R of Some q \<Rightarrow> kill_mark c q ?s | None \<Rightarrow>
      case find ?P (L LRunning) of Some q \<Rightarrow> kill_mark c q ?s
      | None \<Rightarrow> Ret (-1, lk_released c LkPtable ?s))"
    unfolding kill_def kacquire_enter [OF assms(2)] bindr.simps Let_def fs fe fr fy of_loop.simps
    by (simp add: krelease_in [OF i] split: option.split)
  have mark: thesis if "kill c pdi s = kill_mark c q ?s" "live_pid (word_of_int pdi) ?s q"
      "state (procs ?s q) \<noteq> SLEEPING" for q
    using kill_mark_rep [OF r i, of q] that killed
    by (auto simp: live_pid_def kst_simps)
  have S: "x \<in> set xs" "?P x" if "find ?P xs = Some x" for x xs
    using find_Some_in_set [OF that] by simp_all
  show thesis
  proof (cases "find ?P (L LSleep)")
    case (Some q)
    with S have q: "q \<in> set (L LSleep)" "?P q" by blast+
    then have st: "q < NPROC" "state (procs ?s q) = SLEEPING" by (simp_all add: plrep_mem_iff [OF r])
    then obtain s' where k: "kill_sleeper c q ?s = Ret (0, s')" and e: "may_enter c s'"
      and r': "plrep {} s' (move_ready (unat (priority (procs ?s q))) q L)"
      and c': "core s' = core (lk_released c LkPtable (upd q kill_eff ?s))"
      using kill_sleeper_rep [OF r i] by blast
    have "kill c pdi s = Ret (0, s')" using keq Some k by simp
    then show thesis
      using q st by (intro killed [OF _ _ e r' c']) (simp_all add: live_pid_def kst_simps)
  next
    case n1: None
    show thesis
    proof (cases "find ?P (L LEmbryo)")
      case (Some q)
      with S [OF Some] show thesis
        by (intro mark [of q]) (simp_all add: keq n1 live_pid_def plrep_mem_iff [OF r])
    next
      case n2: None
      show thesis
      proof (cases "find ?P ?R")
        case (Some q)
        with S [OF Some] show thesis
          by (intro mark [of q])
            (auto simp: keq n1 n2 live_pid_def plrep_mem_iff [OF r])
      next
        case n3: None
        show thesis
        proof (cases "find ?P (L LRunning)")
          case (Some q)
          with S [OF Some] show thesis
            by (intro mark [of q]) (simp_all add: keq n1 n2 n3 [simplified] live_pid_def plrep_mem_iff [OF r])
        next
          case n4: None
          have "\<not> live_pid (word_of_int pdi) ?s q" for q
            using live_in_list [OF r, of "word_of_int pdi" q] find_pid_None [OF n1, of q]
              find_pid_None [OF n2, of q] find_pid_None [OF n3, of q] find_pid_None [OF n4, of q]
            by (auto simp: live_pid_def)
          then have "\<nexists>q. live_pid (word_of_int pdi) s q" by (simp add: live_pid_def kst_simps)
          moreover have "kill c pdi s = Ret (-1, lk_released c LkPtable ?s)"
            by (simp only: keq n1 n2 n3 n4 option.case)
          ultimately show thesis by (intro absent)
        qed
      qed
    qed
  qed
qed

section \<open>setpriority\<close>

lemma set_next_upd: "pn_free f \<Longrightarrow> set_next r n (upd q f s) = upd q f (set_next r n s)"
  by (auto simp: set_next_def upd_def pn_free_def intro!: kst.equality)

lemma remove_loop_upd:
  "pn_free f \<Longrightarrow> chain (nextof s) cur xs \<Longrightarrow>
   remove_loop p (upd q f s) prev cur = map_option (\<lambda>(rc, t). (rc, upd q f t)) (remove_loop p s prev cur)"
proof (induction xs arbitrary: prev cur)
  case Nil
  then show ?case by (simp add: remove_loop.simps)
next
  case (Cons x xs)
  then have "cur = Some x" and "chain (nextof s) (nextof s x) xs" by auto
  moreover have "nextof (upd q f s) = nextof s"
    by (rule nextof_upd) (simp add: pn_free_pnext [OF Cons.prems(1)])
  ultimately show ?case
    using Cons by (simp add: remove_loop.simps [of p _ prev] set_next_upd)
qed

lemma setl_upd: "setl l h (upd q f s) = upd q f (setl l h s)"
  by (cases l) (simp_all add: upd_def)

lemma removefromlist_upd:
  assumes "pn_free f" and "plrep X s L" and "valid_lref l" and "removefromlist l (Some p) s = Ret (rc, s1)"
  shows "removefromlist l (Some p) (upd q f s) = Ret (rc, upd q f s1)"
proof -
  have n: "nextof (upd q f s) = nextof s"
    by (rule nextof_upd) (simp add: pn_free_pnext [OF assms(1)])
  show ?thesis
  proof (cases "getl s l")
    case None
    with assms(4) show ?thesis by (simp add: removefromlist_def getl_upd)
  next
    case (Some h)
    then obtain xs where "chain (nextof s) (nextof s h) xs"
      using plrep_chain [OF assms(2,3)] by (cases "L l") auto
    from remove_loop_upd [OF assms(1) this, of p q h] Some assms(1,4) n show ?thesis
      by (auto simp: removefromlist_def getl_upd setl_upd set_next_upd split: if_splits option.splits)
  qed
qed

definition movable :: "u32 \<Rightarrow> 'm kst \<Rightarrow> nat \<Rightarrow> bool" where
  "movable pd s q \<longleftrightarrow> q < NPROC \<and> state (procs s q) \<in> {RUNNING, SLEEPING, RUNNABLE} \<and> pid (procs s q) = pd"

lemma setprio_simps [simp]: "priority (setprio v pr) = v" "state (setprio v pr) = state pr"
  "pid (setprio v pr) = pid pr" "pnext (setprio v pr) = pnext pr"
  by (simp_all add: setprio_def)

lemma setprocpriority_rep:
  assumes "plrep {} s L" and "l = LRunning \<or> l = LSleep"
  obtains (none) "setprocpriority l pd prio s = Ret (0, s)" and "\<forall>q\<in>set (L l). pid (procs s q) \<noteq> pd"
    | (same) q where "setprocpriority l pd prio s = Ret (-1, s)" and "movable pd s q" and "priority (procs s q) = prio"
    | (set) q where "setprocpriority l pd prio s = Ret (1, upd q (setprio prio) s)" and "movable pd s q"
        and "state (procs s q) \<noteq> RUNNABLE" and "priority (procs s q) \<noteq> prio"
proof -
  have v: "valid_lref l" using assms(2) by auto
  have f: "find_from (\<lambda>q. pid (procs s q) = pd) (nextof s) (getl s l) = Some (find (\<lambda>q. pid (procs s q) = pd) (L l))"
    by (rule find_from_rep [OF assms(1) v])
  show thesis
  proof (cases "find (\<lambda>q. pid (procs s q) = pd) (L l)")
    case None
    with f show thesis by (intro none) (simp_all add: setprocpriority_def find_None_all)
  next
    case (Some q)
    then have "q \<in> set (L l)" "pid (procs s q) = pd" by (auto dest: find_Some_in_set)
    with assms(2) have "movable pd s q" "state (procs s q) \<noteq> RUNNABLE"
      by (auto simp: movable_def plrep_mem_iff [OF assms(1)])
    with f Some same [of q] set [of q] show thesis
      by (cases "priority (procs s q) = prio") (simp_all add: setprocpriority_def)
  qed
qed

lemma setready_loop_rep:
  assumes "plrep {} s L" and "\<forall>i\<in>set is. i \<le> MAXPRIO" and "unat prio \<le> MAXPRIO"
  obtains (none) "setready_loop pd prio is s = Ret (0, s)"
      and "\<forall>i\<in>set is. \<forall>q\<in>set (L (LReady i)). pid (procs s q) \<noteq> pd"
    | (same) q where "setready_loop pd prio is s = Ret (-1, s)" and "movable pd s q" and "priority (procs s q) = prio"
    | (set) q s' L' where "setready_loop pd prio is s = Ret (1, s')" and "movable pd s q"
        and "plrep {} s' L'" and "core s' = core (upd q (setprio prio) s)" and "priority (procs s q) \<noteq> prio"
  using assms(2)
proof (induction "is" arbitrary: thesis)
  case Nil
  then show ?case by simp
next
  case (Cons i "is")
  have f: "find_from (\<lambda>q. pid (procs s q) = pd) (nextof s) (ready s i)
      = Some (find (\<lambda>q. pid (procs s q) = pd) (L (LReady i)))"
    using find_from_rep [OF assms(1), of "LReady i"] Cons.prems(4) by simp
  show ?case
  proof (cases "find (\<lambda>q. pid (procs s q) = pd) (L (LReady i))")
    case None
    then have eq: "setready_loop pd prio (i # is) s = setready_loop pd prio is s" using f by simp
    have n: "\<forall>q\<in>set (L (LReady i)). pid (procs s q) \<noteq> pd" using None by (simp add: find_None_all)
    show thesis
    proof (rule Cons.IH)
      show thesis if "setready_loop pd prio is s = Ret (0, s)"
        "\<forall>i\<in>set is. \<forall>q\<in>set (L (LReady i)). pid (procs s q) \<noteq> pd"
        using that n by (intro Cons.prems(1)) (simp_all only: eq, simp)
      show thesis if "setready_loop pd prio is s = Ret (-1, s)" "movable pd s q" "priority (procs s q) = prio" for q
        using Cons.prems(2) [of q] that by (simp only: eq)
      show thesis if "setready_loop pd prio is s = Ret (1, s')" "movable pd s q" "plrep {} s' L'"
        "core s' = core (upd q (setprio prio) s)" "priority (procs s q) \<noteq> prio" for s' q L'
        using that by (intro Cons.prems(3) [of s' q L']) (simp_all only: eq simp_thms)
      show "\<forall>i\<in>set is. i \<le> MAXPRIO" using Cons.prems(4) by simp
    qed
  next
    case (Some q)
    then have q: "q \<in> set (L (LReady i))" "pid (procs s q) = pd" by (auto dest: find_Some_in_set)
    have i: "i \<le> MAXPRIO" using Cons.prems(4) by simp
    then have m: "movable pd s q" "state (procs s q) = RUNNABLE" "priority (procs s q) = of_nat i"
      using q by (auto simp: movable_def plrep_mem_iff [OF assms(1)])
    show thesis
    proof (cases "priority (procs s q) = prio")
      case True
      with f Some m show thesis by (intro Cons.prems(2) [of q]) simp_all
    next
      case False
      have ip: "unat prio = unat (priority (setprio prio (procs s q)))" by simp
      obtain s1 s2 where rm: "removefromlist (LReady i) (Some q) s = Ret (0, s1)" and c1: "core s1 = core s"
        and rd: "readyref (priority (setprio prio (procs s1 q))) = Ret (LReady (unat prio))"
        and add: "addtoreadyprioritylist (LReady (unat prio)) (Some q) (upd q (setprio prio) s1) = Ret (0, s2)"
        and r2: "plrep {} s2 ((L(LReady i := remove1 q (L (LReady i))))(LReady (unat prio) :=
               (L(LReady i := remove1 q (L (LReady i)))) (LReady (unat prio)) @ [q]))"
        and c2: "core s2 = core (upd q (setprio prio) s)"
        using move_ready_rep [where f = "setprio prio", OF assms(1) _ q(1) _ ip assms(3)] m i by auto
      have "removefromlist (LReady i) (Some q) (upd q (setprio prio) s) = Ret (0, upd q (setprio prio) s1)"
        using rm i by (intro removefromlist_upd [OF _ assms(1)]) simp_all
      with f Some False rd add have "setready_loop pd prio (i # is) s = Ret (1, s2)"
        by (simp add: procs_upd)
      from Cons.prems(3) [OF this m(1) r2 c2 False] show thesis .
    qed
  qed
qed

lemma upd_setprio_rep:
  assumes "plrep {} s L" and "unat prio \<le> MAXPRIO" and "state (procs s q) \<noteq> RUNNABLE"
  shows "plrep {} (upd q (setprio prio) s) L"
proof -
  have "home_of (setprio prio (procs s q)) = home_of (procs s q)"
    using assms(3) by (simp add: home_of_def setprio_def split: procstate.split)
  then show ?thesis using assms by (intro plrep_upd_same_home) simp_all
qed

lemma setpriority_rep:
  assumes "plrep {} s L" and "may_enter c s" and "0 \<le> pdi" and "pdi \<le> 32767"
    and "0 \<le> prio" and "prio \<le> int MAXPRIO"
  defines "t \<equiv> lk_taken c LkPtable s"
  obtains (absent) "setpriority c pdi prio s = Ret (-4, lk_released c LkPtable t)"
      and "\<nexists>q. movable (word_of_int pdi) s q"
    | (same) q where "setpriority c pdi prio s = Ret (-5, lk_released c LkPtable t)"
      and "movable (word_of_int pdi) s q" and "priority (procs s q) = word_of_int prio"
    | (set) q s' L' where "setpriority c pdi prio s = Ret (0, s')"
      and "movable (word_of_int pdi) s q" and "may_enter c s'" and "plrep {} s' L'"
      and "core s' = core (lk_released c LkPtable (upd q (setprio (word_of_int prio)) t))"
      and "priority (procs s q) \<noteq> word_of_int prio"
proof -
  let ?pd = "word_of_int pdi" and ?v = "word_of_int prio :: u32"
  have r: "plrep {} t L" and i: "in_ptable c t"
    using assms(1) in_ptable_taken [OF assms(2)] by (simp_all add: t_def kst_simps)
  have nh: "\<not> holding (locks s LkPtable) c" using assms(2) by (simp add: may_enter_def holding_def)
  have v: "unat ?v \<le> MAXPRIO" using assms(5,6) by (simp add: MAXPRIO_def unat_eq_nat_uint uint_word_of_int)
  have mv: "movable ?pd t q = movable ?pd s q" "priority (procs t q) = priority (procs s q)" for q
    by (simp_all add: t_def movable_def kst_simps)
  note unf = setpriority_def kacquire_enter [OF assms(2), folded t_def] nh Let_def
  note rg = assms(3-6)
  have done_set: thesis if "setpriority c pdi prio s = bindr (krelease c LkPtable s1) (\<lambda>s. Ret (0, s))"
    "movable ?pd t q" "plrep {} s1 L1" "core s1 = core (upd q (setprio ?v) t)"
    "priority (procs t q) \<noteq> ?v" for q s1 L1
  proof -
    have i1: "in_ptable c s1" by (rule in_ptable_coreI [OF i that(4)])
    have e: "setpriority c pdi prio s = Ret (0, lk_released c LkPtable s1)"
      using that(1) krelease_in [OF i1] by simp
    have r1: "plrep {} (lk_released c LkPtable s1) L1" using that(3) by (simp add: kst_simps)
    show thesis
      by (rule set [OF e _ may_enter_released [OF i1] r1 core_lk_released [OF that(4)]])
        (use that(2,5) mv in simp_all)
  qed
  have out: "krelease c LkPtable t = Ret (lk_released c LkPtable t)" by (rule krelease_in [OF i])
  show thesis
  proof (rule setprocpriority_rep [OF r, of LRunning ?pd ?v])
    show "LRunning = LRunning \<or> LRunning = LSleep" by simp
    fix q assume *: "setprocpriority LRunning ?pd ?v t = Ret (-1, t)" "movable ?pd t q" "priority (procs t q) = ?v"
    then show thesis using rg out by (intro same [of q]) (simp_all add: unf mv)
  next
    fix q assume *: "setprocpriority LRunning ?pd ?v t = Ret (1, upd q (setprio ?v) t)" "movable ?pd t q"
      "state (procs t q) \<noteq> RUNNABLE" "priority (procs t q) \<noteq> ?v"
    then show thesis using rg
      by (intro done_set [OF _ _ upd_setprio_rep [OF r v *(3)] refl]) (simp_all add: unf)
  next
    assume a1: "setprocpriority LRunning ?pd ?v t = Ret (0, t)" and n1: "\<forall>q\<in>set (L LRunning). pid (procs t q) \<noteq> ?pd"
    show thesis
    proof (rule setprocpriority_rep [OF r, of LSleep ?pd ?v])
      show "LSleep = LRunning \<or> LSleep = LSleep" by simp
      fix q assume *: "setprocpriority LSleep ?pd ?v t = Ret (-1, t)" "movable ?pd t q" "priority (procs t q) = ?v"
      then show thesis using rg out a1 by (intro same [of q]) (simp_all add: unf mv)
    next
      fix q assume *: "setprocpriority LSleep ?pd ?v t = Ret (1, upd q (setprio ?v) t)" "movable ?pd t q"
        "state (procs t q) \<noteq> RUNNABLE" "priority (procs t q) \<noteq> ?v"
      then show thesis using rg a1
        by (intro done_set [OF _ _ upd_setprio_rep [OF r v *(3)] refl]) (simp_all add: unf)
    next
      assume a2: "setprocpriority LSleep ?pd ?v t = Ret (0, t)" and n2: "\<forall>q\<in>set (L LSleep). pid (procs t q) \<noteq> ?pd"
      note a = a1 a2
      show thesis
      proof (rule setready_loop_rep [OF r _ v, of "[0..<MAXPRIO + 1]" ?pd])
        show "\<forall>i\<in>set [0..<MAXPRIO + 1]. i \<le> MAXPRIO" by auto
        fix q assume "setready_loop ?pd ?v [0..<MAXPRIO + 1] t = Ret (-1, t)" "movable ?pd t q" "priority (procs t q) = ?v"
        then show thesis using rg out a
          by (intro same [of q]) (simp_all only: mv, simp add: unf setreadyprocpriority_def)
      next
        fix q s1 L1 assume *: "setready_loop ?pd ?v [0..<MAXPRIO + 1] t = Ret (1, s1)" "movable ?pd t q"
          "plrep {} s1 L1" "core s1 = core (upd q (setprio ?v) t)" "priority (procs t q) \<noteq> ?v"
        then show thesis using rg a
          by (intro done_set [OF _ *(2,3,4,5)]) (simp add: unf setreadyprocpriority_def)
      next
        assume *: "setready_loop ?pd ?v [0..<MAXPRIO + 1] t = Ret (0, t)"
          and n3: "\<forall>i\<in>set [0..<MAXPRIO + 1]. \<forall>q\<in>set (L (LReady i)). pid (procs t q) \<noteq> ?pd"
        have n3: "pid (procs t q) \<noteq> ?pd" if "q \<in> set (L (LReady i))" "i \<le> MAXPRIO" for i q
          using bspec [OF n3, of i] that by (simp del: upt_Suc)
        have "\<not> movable ?pd t q" for q
          using n1 n2 n3 [of q "unat (priority (procs t q))"] prio_okD [OF plrep_prio [OF r], of q]
          by (auto simp: movable_def plrep_mem_iff [OF r])
        then show thesis using rg out a *
          by (intro absent) (simp_all add: mv, simp add: unf setreadyprocpriority_def)
      qed
    qed
  qed
qed

end
