(* ===== verification/Procsched.thy ===== *)
theory Procsched
  imports Prockill
begin

text \<open>
  Promotion and the scheduler (\<open>src/proc.c\<close>): what a promotion does to the priorities and to the
  ready lists, and which process a pass of the scheduler picks.
\<close>

section \<open>Promotion\<close>

definition demote1 :: "proc \<Rightarrow> proc" where
  "demote1 pr = (if priority pr \<noteq> DEFAULT_PRIORITY then pr\<lparr>priority := priority pr - 1\<rparr> else pr)"

definition promote_on :: "nat set \<Rightarrow> 'm kst \<Rightarrow> 'm kst" where
  "promote_on A s = s\<lparr>procs := (\<lambda>q. if q \<in> A then demote1 (procs s q) else procs s q)\<rparr>"

definition prio_on :: "u32 \<Rightarrow> nat set \<Rightarrow> 'm kst \<Rightarrow> 'm kst" where
  "prio_on v A s = s\<lparr>procs := (\<lambda>q. if q \<in> A then (procs s q)\<lparr>priority := v\<rparr> else procs s q)\<rparr>"

lemma demote1_simps [simp]:
  "pnext (demote1 pr) = pnext pr" "state (demote1 pr) = state pr" "pid (demote1 pr) = pid pr"
  "parent (demote1 pr) = parent pr" "chan (demote1 pr) = chan pr" "pgdir (demote1 pr) = pgdir pr"
  "ctxt (demote1 pr) = ctxt pr" "killed (demote1 pr) = killed pr" "budget (demote1 pr) = budget pr"
  "demote1 (pnext_update g pr) = pnext_update g (demote1 pr)"
  by (simp_all add: demote1_def)

lemma demote1_priority: "unat (priority (demote1 pr)) = unat (priority pr) - 1"
  by (simp add: demote1_def DEFAULT_PRIORITY_def unat_dec_word)

lemma promote_fold: "distinct qs \<Longrightarrow> fold promote_one qs s = promote_on (set qs) s"
proof (induction qs arbitrary: s)
  case Nil
  then show ?case by (simp add: promote_on_def)
next
  case (Cons q qs)
  have "promote_on (set qs) (promote_one q s) = promote_on (set (q # qs)) s"
    using Cons.prems
    by (intro kst.equality) (auto simp: promote_on_def promote_one_def upd_def demote1_def fun_eq_iff)
  with Cons show ?case by simp
qed

lemma prio_fold:
  "fold (\<lambda>q. upd q (priority_update (\<lambda>_. v))) qs s = prio_on v (set qs) s"
proof (induction qs arbitrary: s)
  case Nil
  then show ?case by (simp add: prio_on_def)
next
  case (Cons q qs)
  have "prio_on v (set qs) (upd q (priority_update (\<lambda>_. v)) s) = prio_on v (set (q # qs)) s"
    by (intro kst.equality) (auto simp: prio_on_def upd_def fun_eq_iff)
  with Cons show ?case by simp
qed

lemma promote_on_core: "core (promote_on A s) = promote_on A (core s)"
  by (auto simp: promote_on_def core_def fun_eq_iff)

lemma prio_on_core: "core (prio_on v A s) = prio_on v A (core s)"
  by (auto simp: prio_on_def core_def fun_eq_iff)

lemma promotiononotherlists_rep:
  assumes "plrep {} s L" and "l = LSleep \<or> l = LRunning"
  shows "promotiononotherlists l s = Ret (promote_on (set (L l)) s)"
    and "plrep {} (promote_on (set (L l)) s) L"
proof -
  have v: "valid_lref l" using assms(2) by auto
  have n: "nextof (promote_one q t) = nextof t" for q and t :: "'a kst"
    by (auto simp: promote_one_def nextof_def procs_upd)
  show "promotiononotherlists l s = Ret (promote_on (set (L l)) s)"
    using each_from_upd [OF assms(1) v, of promote_one] n plrep_distinct [OF assms(1) v]
    by (simp add: promotiononotherlists_def promote_fold)
  let ?t = "promote_on (set (L l)) s"
  have "getl ?t l' = getl s l'" for l' by (cases l') (simp_all add: promote_on_def)
  moreover have "nextof ?t = nextof s" by (auto simp: nextof_def promote_on_def)
  moreover have "home ?t q = home s q" for q
  proof (cases "q \<in> set (L l)")
    case True
    then have "state (procs s q) \<noteq> RUNNABLE" using assms(2) by (auto simp: plrep_mem_iff [OF assms(1)])
    then show ?thesis by (simp add: home_def promote_on_def home_of_def split: procstate.split)
  qed (simp add: home_def promote_on_def)
  moreover have "unat (priority (procs ?t q)) \<le> unat (priority (procs s q))" for q
    by (simp add: promote_on_def demote1_priority)
  then have "prio_ok ?t" using plrep_prio [OF assms(1)] order_trans unfolding prio_ok_def by blast
  ultimately show "plrep {} ?t L" using assms(1) by (simp add: plrep_def)
qed

text \<open>One ready list is appended to the one above it, and its processes relabelled.\<close>

definition joinL :: "nat \<Rightarrow> (lref \<Rightarrow> nat list) \<Rightarrow> lref \<Rightarrow> nat list" where
  "joinL i L = L(LReady i := L (LReady i) @ L (LReady (i + 1)), LReady (i + 1) := [])"

lemma join_rep:
  assumes "plrep {} s L" and "i < MAXPRIO"
    and "\<And>l. getl s1 l = (if l = LReady i then h else getl s l)"
    and "chain (nextof s1) h (L (LReady i) @ L (LReady (i + 1)))"
    and "\<And>q. q \<notin> set (L (LReady i)) \<Longrightarrow> nextof s1 q = nextof s q" and "core s1 = core s"
  shows "plrep {} (setl (LReady (i + 1)) None (prio_on (of_nat i) (set (L (LReady (i + 1)))) s1)) (joinL i L)"
    (is "plrep {} ?t _")
proof -
  let ?A = "set (L (LReady (i + 1)))"
  have v: "unat (of_nat i :: u32) = i"
    using assms(2) by (simp add: MAXPRIO_def unat_of_nat)
  have A: "q < NPROC \<and> state (procs s q) = RUNNABLE \<and> unat (priority (procs s q)) = i + 1" if "q \<in> ?A" for q
    using that assms(2) plrep_mem_iff(6) [OF assms(1), of "i + 1" q] by auto
  have getl: "getl ?t l = (if l = LReady (i + 1) then None else if l = LReady i then h else getl s l)" for l
  proof -
    have "getl (prio_on (of_nat i) ?A s1) l = getl s1 l" by (cases l) (simp_all add: prio_on_def)
    then show ?thesis by (simp add: getl_setl assms(3) del: setl.simps)
  qed
  have nx: "nextof ?t = nextof s1" by (auto simp: nextof_def prio_on_def procs_setl)
  have home: "home ?t q = (if q \<in> ?A then LReady i else home s q)" for q
    using A [of q] v core_home [OF assms(6)] core_state [OF assms(6), of q]
    by (auto simp: home_setl) (auto simp: home_def prio_on_def fun_eq_iff)
  have "prio_ok ?t"
    using plrep_prio [OF assms(1)] assms(2) v
    by (auto simp: prio_ok_def procs_setl prio_on_def core_priority [OF assms(6)])
  moreover have "chain (nextof ?t) (getl ?t l) (joinL i L l)" if "valid_lref l" for l
  proof -
    have "chain (nextof s1) (getl s l) (L l)" if "l \<noteq> LReady i"
    proof -
      have "chain (nextof s) (getl s l) (L l)" using plrep_chain [OF assms(1)] \<open>valid_lref l\<close> .
      moreover have "nextof s1 q = nextof s q" if "q \<in> set (L l)" for q
        using plrep_disjoint [OF assms(1) \<open>valid_lref l\<close> _ \<open>l \<noteq> LReady i\<close> that] assms(2,5) by simp
      ultimately show ?thesis using chain_cong [of "L l" "nextof s1" "nextof s"] by simp
    qed
    with assms(4) show ?thesis unfolding getl nx by (auto simp: joinL_def)
  qed
  moreover have "set (joinL i L l) = {q. q < NPROC \<and> q \<notin> {} \<and> home ?t q = l}" if "valid_lref l" for l
    using that assms(2) A unfolding joinL_def home
    by (auto simp: plrep_in_iff [OF assms(1)] split: if_splits)
  ultimately show ?thesis by (simp add: plrep_def)
qed

lemma promotiononreadylists_rep:
  assumes "plrep {} s L" and "i < MAXPRIO"
  obtains s' where "promotiononreadylists i s = Ret s'" and "plrep {} s' (joinL i L)"
    and "core s' = core (prio_on (of_nat i) (set (L (LReady (i + 1)))) s)"
proof -
  let ?A = "L (LReady (i + 1))" and ?B = "L (LReady i)"
  have cA: "chain (nextof s) (ready s (i + 1)) ?A" and cB: "chain (nextof s) (ready s i) ?B"
    using plrep_chain [OF assms(1), of "LReady (i + 1)"] plrep_chain [OF assms(1), of "LReady i"] assms(2)
    by simp_all
  have disj: "set ?B \<inter> set ?A = {}"
    using plrep_disjoint [OF assms(1), of "LReady i" "LReady (i + 1)"] assms(2) by auto
  have relabel: "relabel i (ready s (i + 1)) t = Ret (prio_on (of_nat i) (set ?A) t)"
    if "chain (nextof t) (ready s (i + 1)) ?A" for t :: "'a kst"
    unfolding relabel_def using that
    by (subst each_from_chain) (auto simp: nextof_upd prio_fold)
  define s1 where "s1 = (case ready s i of None \<Rightarrow> setl (LReady i) (ready s (i + 1)) s
                          | Some _ \<Rightarrow> set_next (last ?B) (ready s (i + 1)) s)"
  define h where "h = (case ready s i of None \<Rightarrow> ready s (i + 1) | Some b \<Rightarrow> Some b)"
  have c1: "core s1 = core s" by (simp add: s1_def kst_simps del: setl.simps split: option.split)
  have g1: "getl s1 l = (if l = LReady i then h else getl s l)" for l
    by (auto simp: s1_def h_def kst_simps simp del: getl.simps setl.simps split: option.split) simp
  have n1: "nextof s1 q = nextof s q" if "q \<notin> set ?B" for q
    using cB that by (auto simp: s1_def kst_simps simp del: setl.simps split: option.split)
  have ch1: "chain (nextof s1) h (?B @ ?A)"
  proof (cases "ready s i")
    case None
    with cA cB show ?thesis by (simp add: s1_def h_def kst_simps del: setl.simps)
  next
    case (Some b)
    then obtain ys y where B: "?B = ys @ [y]" using cB by (cases ?B rule: rev_cases) auto
    with chain_join [of "nextof s" "ready s i" ys y "ready s (i + 1)" ?A] cA cB disj Some
    show ?thesis by (simp add: s1_def h_def kst_simps del: fun_upd_apply chain_Some)
  qed
  have chA: "chain (nextof s1) (ready s (i + 1)) ?A"
    using cA disj chain_cong [of ?A "nextof s1" "nextof s"] n1 by blast
  have "promotiononreadylists i s = Ret (setl (LReady (i + 1)) None (prio_on (of_nat i) (set ?A) s1))"
  proof (cases "ready s i")
    case None
    with relabel [OF chA] show ?thesis by (simp add: promotiononreadylists_def s1_def Let_def)
  next
    case (Some b)
    with cB have "last_from (nextof s) b = Some (last ?B)" by (intro last_from_chain) simp
    with Some relabel [OF chA] show ?thesis by (simp add: promotiononreadylists_def s1_def Let_def)
  qed
  moreover note join_rep [OF assms g1 ch1 n1 c1]
  moreover have "core (setl (LReady (i + 1)) None (prio_on (of_nat i) (set ?A) s1))
      = core (prio_on (of_nat i) (set ?A) s)"
    using c1 by (simp add: core_setl prio_on_core del: setl.simps)
  ultimately show thesis by (rule that)
qed

definition promL :: "nat \<Rightarrow> (lref \<Rightarrow> nat list) \<Rightarrow> lref \<Rightarrow> nat list" where
  "promL k L l =
     (case l of
        LReady i \<Rightarrow>
          if i < k \<or> MAXPRIO < i then L l
          else (if i = k then L l else []) @ (if i < MAXPRIO then L (LReady (i + 1)) else [])
      | _ \<Rightarrow> L l)"

lemma promL_step: "k < MAXPRIO \<Longrightarrow> promL (Suc k) (joinL k L) = promL k L"
  by (auto simp: promL_def joinL_def fun_eq_iff less_Suc_eq split: lref.split)

lemma promL_end: "promL MAXPRIO L = L"
  by (auto simp: promL_def fun_eq_iff split: lref.split)

lemma promote_on_Un: "A \<inter> B = {} \<Longrightarrow> promote_on B (promote_on A s) = promote_on (A \<union> B) s"
  by (rule kst.equality) (auto simp: promote_on_def fun_eq_iff)

lemma prio_on_promote:
  assumes "plrep {} s L" and "i < MAXPRIO"
  shows "prio_on (of_nat i) (set (L (LReady (i + 1)))) s = promote_on (set (L (LReady (i + 1)))) s"
proof -
  have "demote1 (procs s q) = (procs s q)\<lparr>priority := of_nat i\<rparr>" if "q \<in> set (L (LReady (i + 1)))" for q
  proof -
    have u: "unat (priority (procs s q)) = i + 1"
      using that assms(2) plrep_mem_iff(6) [OF assms(1), of "i + 1" q] by simp
    then have "priority (procs s q) = of_nat (i + 1)"
      using assms(2) by (simp add: word_unat_eq_iff unat_of_nat MAXPRIO_def del: of_nat_Suc of_nat_add)
    moreover from u have "priority (procs s q) \<noteq> 0" by auto
    ultimately show ?thesis by (simp add: demote1_def DEFAULT_PRIORITY_def)
  qed
  then show ?thesis by (intro kst.equality) (auto simp: prio_on_def promote_on_def fun_eq_iff)
qed

lemma promote_ready_rep:
  assumes "plrep {} s L" and "k \<le> MAXPRIO"
  shows "\<exists>s'. promote_ready [k..<MAXPRIO] s = Ret s' \<and> plrep {} s' (promL k L)
           \<and> core s' = core (promote_on (\<Union>i\<in>{k<..MAXPRIO}. set (L (LReady i))) s)"
  using assms(2,1)
proof (induction k arbitrary: s L rule: inc_induct)
  case base
  then show ?case by (simp add: promL_end promote_on_def)
next
  case (step k)
  let ?B = "set (L (LReady (k + 1)))" and ?U = "\<Union>i\<in>{Suc k<..MAXPRIO}. set (L (LReady i))"
  obtain s1 where p1: "promotiononreadylists k s = Ret s1" and r1: "plrep {} s1 (joinL k L)"
    and c1: "core s1 = core (prio_on (of_nat k) ?B s)"
    using promotiononreadylists_rep [OF step.prems step.hyps(2)] .
  have U: "(\<Union>i\<in>{Suc k<..MAXPRIO}. set (joinL k L (LReady i))) = ?U"
    by (auto simp: joinL_def)
  obtain s2 where p2: "promote_ready [Suc k..<MAXPRIO] s1 = Ret s2" and r2: "plrep {} s2 (promL (Suc k) (joinL k L))"
    and c2: "core s2 = core (promote_on ?U s1)"
    using step.IH [OF r1] U by auto
  have "?B \<inter> ?U = {}"
    using step.hyps(2) by (auto simp: plrep_mem_iff [OF step.prems])
  then have "core s2 = core (promote_on (?B \<union> ?U) s)"
    using c2 c1 by (simp add: promote_on_core prio_on_promote [OF step.prems step.hyps(2), simplified]
        promote_on_Un)
  moreover have "{k<..MAXPRIO} = insert (k + 1) {Suc k<..MAXPRIO}" using step.hyps(2) by auto
  then have "(\<Union>i\<in>{k<..MAXPRIO}. set (L (LReady i))) = ?B \<union> ?U" by simp
  moreover have "promote_ready [k..<MAXPRIO] s = Ret s2"
    using step.hyps(2) p1 p2 by (simp add: upt_rec [of k])
  ultimately show ?case using r2 step.hyps(2) by (auto simp: promL_step)
qed

definition promote_all :: "'m kst \<Rightarrow> 'm kst" where
  "promote_all s =
     (promote_on {q. q < NPROC \<and> state (procs s q) \<in> {SLEEPING, RUNNING, RUNNABLE}} s)
       \<lparr>PromoteAtTime := ticks s + TICKS_TO_PROMOTE\<rparr>"

lemma promote_rep:
  assumes "plrep {} s L"
  obtains s' where "promote s = Ret s'" and "plrep {} s' (promL 0 L)" and "core s' = core (promote_all s)"
proof -
  let ?S = "set (L LSleep)" and ?R = "set (L LRunning)" and ?U = "\<Union>i\<in>{0<..MAXPRIO}. set (L (LReady i))"
  have p1: "promotiononotherlists LSleep s = Ret (promote_on ?S s)" and r1: "plrep {} (promote_on ?S s) L"
    using promotiononotherlists_rep [OF assms, of LSleep] by simp_all
  have p2: "promotiononotherlists LRunning (promote_on ?S s) = Ret (promote_on (?S \<union> ?R) s)"
    and r2: "plrep {} (promote_on (?S \<union> ?R) s) L"
  proof -
    have "?S \<inter> ?R = {}" by (auto simp: plrep_mem_iff [OF assms])
    then show "promotiononotherlists LRunning (promote_on ?S s) = Ret (promote_on (?S \<union> ?R) s)"
      "plrep {} (promote_on (?S \<union> ?R) s) L"
      using promotiononotherlists_rep [OF r1, of LRunning] by (simp_all add: promote_on_Un)
  qed
  obtain s3 where p3: "promote_ready [0..<MAXPRIO] (promote_on (?S \<union> ?R) s) = Ret s3"
    and r3: "plrep {} s3 (promL 0 L)" and c3: "core s3 = core (promote_on ?U (promote_on (?S \<union> ?R) s))"
    using promote_ready_rep [OF r2, of 0] by auto
  have "(?S \<union> ?R) \<inter> ?U = {}" by (auto simp: plrep_mem_iff [OF assms])
  then have c3: "core s3 = core (promote_on (?S \<union> ?R \<union> ?U) s)" using c3 by (simp add: promote_on_Un)
  have "promote_on (?S \<union> ?R \<union> ?U) s = promote_on {q. q < NPROC \<and> state (procs s q) \<in> {SLEEPING, RUNNING, RUNNABLE}} s"
  proof -
    have "demote1 (procs s q) = procs s q" if "q < NPROC" "state (procs s q) = RUNNABLE" "q \<notin> ?U" for q
    proof -
      have "unat (priority (procs s q)) = 0"
        using that prio_okD [OF plrep_prio [OF assms], of q] by (auto simp: plrep_mem_iff [OF assms])
      then show ?thesis by (simp add: demote1_def DEFAULT_PRIORITY_def unat_eq_0)
    qed
    then show ?thesis
      by (intro kst.equality) (auto simp: promote_on_def fun_eq_iff plrep_mem_iff [OF assms])
  qed
  then have "core (s3\<lparr>PromoteAtTime := ticks s3 + TICKS_TO_PROMOTE\<rparr>) = core (promote_all s)"
    using c3 core_ticks [OF c3] by (simp add: promote_all_def) (simp add: promote_on_def)
  moreover have "promote s = Ret (s3\<lparr>PromoteAtTime := ticks s3 + TICKS_TO_PROMOTE\<rparr>)"
    using p1 p2 p3 by (simp add: promote_def)
  ultimately show thesis using that r3 by (simp add: kst_simps)
qed

section \<open>The scheduler\<close>

definition promo :: "'m kst \<Rightarrow> 'm kst" where
  "promo s = (if PromoteAtTime s = ticks s then promote_all s else s)"

definition promoL :: "'m kst \<Rightarrow> (lref \<Rightarrow> nat list) \<Rightarrow> lref \<Rightarrow> nat list" where
  "promoL s L = (if PromoteAtTime s = ticks s then promL 0 L else L)"

lemma promo_rep:
  assumes "plrep {} s L"
  obtains s1 where "(if PromoteAtTime s = ticks s then promote s else Ret s) = Ret s1"
    and "plrep {} s1 (promoL s L)" and "core s1 = core (promo s)"
proof (cases "PromoteAtTime s = ticks s")
  case True
  with promote_rep [OF assms] that show thesis by (auto simp: promo_def promoL_def)
next
  case False
  with assms that show thesis by (auto simp: promo_def promoL_def)
qed

lemma promo_fields [simp]:
  "cpus (promo s) = cpus s" "locks (promo s) = locks s" "ticks (promo s) = ticks s"
  "state (procs (promo s) p) = state (procs s p)" "pgdir (procs (promo s) p) = pgdir (procs s p)"
  "PromoteAtTime (promo s) \<noteq> ticks s"
  by (auto simp: promo_def promote_all_def promote_on_def TICKS_TO_PROMOTE_def)

lemma in_ptable_promo [kst_simps]: "in_ptable c (promo s) = in_ptable c s"
  by (simp add: in_ptable_def)

text \<open>After a promotion the next one is not due before \<open>ticks\<close> moves on.\<close>

lemma promo_once:
  "core s1 = core (promo s) \<Longrightarrow> core (promo s1) = core (promo s) \<and> promoL s1 L1 = L1"
proof -
  assume c: "core s1 = core (promo s)"
  have "PromoteAtTime s1 \<noteq> ticks s1" using core_promote [OF c] core_ticks [OF c] by simp
  then have "promo s1 = s1" "promoL s1 L1 = L1" by (simp_all add: promo_def promoL_def)
  with c show ?thesis by simp
qed

definition pick_eff :: "u32 \<Rightarrow> proc \<Rightarrow> proc" where
  "pick_eff now pr = pr\<lparr>state := RUNNING, cpu_ticks_in := now\<rparr>"

lemma pn_free_pick_eff [simp]: "pn_free (pick_eff t)"
  by (simp add: pn_free_def pick_eff_def)

lemma switchuvm_ok:
  assumes "in_ptable c s" and "pgdir (procs s p) \<noteq> None"
  shows "switchuvm c p s = Ret s"
proof -
  have "(cpus s c)\<lparr>if_flag := False, ncli := 1\<rparr> = cpus s c"
    using assms(1) by (intro cpu.equality) (simp_all add: in_ptable_def)
  then show ?thesis
    using assms by (auto simp: switchuvm_def in_ptable_def pushcli_def popcli_def intro!: kst.equality)
qed

lemma core_set_curproc: "core (set_curproc c po s) = set_curproc c po (core s)"
  by (simp add: set_curproc_def)

lemma sched_turn_idle:
  assumes "plrep {} s L" and "i \<le> MAXPRIO" and "promoL s L (LReady i) = []"
  obtains s1 where "sched_turn c (int i) s = Ret (None, int i, s1)" and "plrep {} s1 (promoL s L)"
    and "core s1 = core (promo s)"
proof -
  obtain s1 where p: "(if PromoteAtTime s = ticks s then promote s else Ret s) = Ret s1"
    and r1: "plrep {} s1 (promoL s L)" and c1: "core s1 = core (promo s)"
    using promo_rep [OF assms(1)] .
  have "ready s1 i = None" using plrep_chain [OF r1, of "LReady i"] assms(2,3) by simp
  then have "sched_turn c (int i) s = Ret (None, int i, s1)" by (simp add: sched_turn_def p)
  with r1 c1 show thesis using that by blast
qed

lemma sched_turn_pick:
  assumes "plrep {} s L" and "in_ptable c s" and "i \<le> MAXPRIO" and "promoL s L (LReady i) = p # ps"
    and "pgdir (procs s p) \<noteq> None"
  obtains s' where "sched_turn c (int i) s = Ret (Some p, if i \<noteq> MAXPRIO then -1 else int i, s')"
    and "in_ptable c s'" and "plrep {} s' ((promoL s L)(LReady i := ps, LRunning := p # promoL s L LRunning))"
    and "core s' = core (upd p (pick_eff (ticks s)) (set_curproc c (Some p) (promo s)))"
proof -
  obtain s1 where pm: "(if PromoteAtTime s = ticks s then promote s else Ret s) = Ret s1"
    and r1: "plrep {} s1 (promoL s L)" and c1: "core s1 = core (promo s)"
    using promo_rep [OF assms(1)] .
  have rd: "ready s1 i = Some p" using plrep_chain [OF r1, of "LReady i"] assms(3,4) by simp
  have "p \<in> set (promoL s L (LReady i))" using assms(4) by simp
  then have p: "p < NPROC" "state (procs s1 p) = RUNNABLE" "unat (priority (procs s1 p)) = i"
    using assms(3) by (simp_all add: plrep_mem_iff [OF r1])
  let ?s2 = "set_curproc c (Some p) s1"
  have r2: "plrep {} ?s2 (promoL s L)" using r1 by (simp add: kst_simps)
  have in2: "in_ptable c ?s2"
    using assms(2) in_ptable_core [OF c1, of c] by (simp add: kst_simps) (simp add: in_ptable_def set_curproc_def)
  have procs2: "procs ?s2 = procs s1" by (simp add: set_curproc_def)
  have sw: "switchuvm c p ?s2 = Ret ?s2"
    using switchuvm_ok [OF in2] assms(5) core_pgdir [OF c1, of p] procs2 by simp
  have v: "valid_lref (LReady i)" using assms(3) by simp
  obtain s3 where rm: "removefromfront (LReady i) ?s2 = (0, s3)"
    and r3: "plrep {p} s3 ((promoL s L)(LReady i := ps))" and c3: "core s3 = core ?s2"
    using removefromfront_rep [OF r2 v assms(4)] by auto
  let ?s4 = "upd p (state_update (\<lambda>_. RUNNING)) s3"
  have r4: "plrep {p} ?s4 ((promoL s L)(LReady i := ps))"
    using r3 by (rule plrep_upd_detached) (simp_all add: prio_okD [OF plrep_prio [OF r3] p(1)])
  have h4: "home ?s4 p = LRunning" by (simp add: home_def procs_upd)
  let ?s5 = "addtofrontoflist LRunning (Some p) ?s4"
  have r5: "plrep {} ?s5 ((promoL s L)(LReady i := ps, LRunning := p # promoL s L LRunning))"
    using addtofront_rep(1) [OF r4 _ _ p(1) h4] by simp
  have c5: "core ?s5 = core ?s4" using addtofront_rep(2) [OF r4 _ _ p(1) h4] by simp
  have t5: "ticks ?s5 = ticks s"
    using core_ticks [OF c5] core_ticks [OF c3] core_ticks [OF c1] by (simp add: upd_def set_curproc_def)
  let ?s6 = "upd p (cpu_ticks_in_update (\<lambda>_. ticks s)) ?s5"
  have "plrep {} ?s6 ((promoL s L)(LReady i := ps, LRunning := p # promoL s L LRunning))"
    using r5 by (rule plrep_upd_same_home) (simp_all add: prio_okD [OF plrep_prio [OF r5] p(1)])
  moreover have c6: "core ?s6 = core (upd p (pick_eff (ticks s)) (set_curproc c (Some p) (promo s)))"
  proof -
    have "core ?s2 = core (set_curproc c (Some p) (promo s))"
      using c1 core_cpus [OF c1] by (simp add: set_curproc_def)
    then have c: "core s3 = core (set_curproc c (Some p) (promo s))" using c3 by simp
    have "core ?s6 = core (upd p (cpu_ticks_in_update (\<lambda>_. ticks s))
        (upd p (state_update (\<lambda>_. RUNNING)) (set_curproc c (Some p) (promo s))))"
      using c5 pn_free_core [OF _ c, of "state_update (\<lambda>_. RUNNING)"] by (intro pn_free_core) simp_all
    then show ?thesis by (simp add: upd_def pick_eff_def)
  qed
  moreover have "in_ptable c ?s6"
    using in2 by (simp add: in_ptable_core [OF c5] in_ptable_core [OF c3] in_ptable_upd)
  moreover have "sched_turn c (int i) s = Ret (Some p, if i \<noteq> MAXPRIO then -1 else int i, ?s6)"
    using p rm t5 core_state [OF c3, of p] assms(3)
    by (simp add: sched_turn_def pm rd sw readyref_def procs2 assertstate_def)
  ultimately show thesis using that by blast
qed

text \<open>
  The outcome of a scan that starts at list \<open>i\<close>, on the state \<open>t\<close> and the lists \<open>M\<close> it finds (after
  a promotion, if one is due): the head of the first list that is not empty, or nothing.
\<close>

definition scan_out :: "nat \<Rightarrow> nat \<Rightarrow> 'm kst \<Rightarrow> (lref \<Rightarrow> nat list) \<Rightarrow> (nat option \<times> int \<times> 'm kst) res \<Rightarrow> bool" where
  "scan_out c i t M r \<longleftrightarrow>
     (\<exists>j p ps s'. i \<le> j \<and> j \<le> MAXPRIO \<and> (\<forall>k. i \<le> k \<and> k < j \<longrightarrow> M (LReady k) = [])
        \<and> M (LReady j) = p # ps \<and> r = Ret (Some p, if j \<noteq> MAXPRIO then -1 else int j, s')
        \<and> in_ptable c s' \<and> plrep {} s' (M(LReady j := ps, LRunning := p # M LRunning))
        \<and> core s' = core (upd p (pick_eff (ticks t)) (set_curproc c (Some p) t)))
   \<or> (\<exists>s'. (\<forall>k. i \<le> k \<and> k \<le> MAXPRIO \<longrightarrow> M (LReady k) = []) \<and> r = Ret (None, int MAXPRIO + 1, s')
        \<and> in_ptable c s' \<and> plrep {} s' M \<and> core s' = core t)"

lemma scan_out_pick:
  "i \<le> j \<Longrightarrow> j \<le> MAXPRIO \<Longrightarrow> (\<And>k. i \<le> k \<Longrightarrow> k < j \<Longrightarrow> M (LReady k) = []) \<Longrightarrow> M (LReady j) = p # ps \<Longrightarrow>
   r = Ret (Some p, if j \<noteq> MAXPRIO then -1 else int j, s') \<Longrightarrow> in_ptable c s' \<Longrightarrow>
   plrep {} s' (M(LReady j := ps, LRunning := p # M LRunning)) \<Longrightarrow>
   core s' = core (upd p (pick_eff (ticks t)) (set_curproc c (Some p) t)) \<Longrightarrow> scan_out c i t M r"
  unfolding scan_out_def by blast

lemma set_curproc_cong: "core s' = core s \<Longrightarrow> core (set_curproc c po s') = core (set_curproc c po s)"
  using core_cpus [of s' s] by (simp add: set_curproc_def)

lemma scan_out_step:
  assumes "M (LReady i) = []" and "core s1 = core t" and "scan_out c (Suc i) s1 M r"
  shows "scan_out c i t M r"
  using assms(3) unfolding scan_out_def
proof (elim disjE exE conjE, goal_cases)
  case (1 j p ps s')
  have "core (upd p (pick_eff (ticks s1)) (set_curproc c (Some p) s1))
      = core (upd p (pick_eff (ticks t)) (set_curproc c (Some p) t))"
    using core_ticks [OF assms(2)] pn_free_core [OF _ set_curproc_cong [OF assms(2)]] by simp
  moreover have "\<forall>k. i \<le> k \<and> k < j \<longrightarrow> M (LReady k) = []"
    using 1(3) assms(1) by (metis le_antisym not_less_eq_eq)
  ultimately show ?case
    using 1 by (intro disjI1 exI [of _ j] exI [of _ p] exI [of _ ps] exI [of _ s'] conjI) simp_all
next
  case (2 s')
  have "\<forall>k. i \<le> k \<and> k \<le> MAXPRIO \<longrightarrow> M (LReady k) = []"
    using 2(1) assms(1) by (metis le_antisym not_less_eq_eq)
  with 2 assms(2) show ?case by auto
qed

lemma scan_turn:
  assumes "plrep {} s L" and "in_ptable c s" and "i \<le> MAXPRIO"
    and "\<And>p. p < NPROC \<Longrightarrow> state (procs s p) = RUNNABLE \<Longrightarrow> pgdir (procs s p) \<noteq> None"
    and rest: "\<And>s1. plrep {} s1 (promoL s L) \<Longrightarrow> core s1 = core (promo s) \<Longrightarrow>
      scan_out c (Suc i) s1 (promoL s L) (sched_scan c (int (Suc i)) s1)"
  shows "scan_out c i (promo s) (promoL s L) (sched_scan c (int i) s)"
proof (cases "promoL s L (LReady i)")
  case Nil
  obtain s1 where t: "sched_turn c (int i) s = Ret (None, int i, s1)" and r1: "plrep {} s1 (promoL s L)"
    and c1: "core s1 = core (promo s)"
    using sched_turn_idle [OF assms(1,3) Nil] .
  have "sched_scan c (int i) s = sched_scan c (int (Suc i)) s1"
    using t assms(3) by (subst sched_scan.simps) (simp add: add.commute)
  with scan_out_step [OF Nil c1 rest [OF r1 c1]] show ?thesis by simp
next
  case (Cons p ps)
  obtain s0 where r0: "plrep {} s0 (promoL s L)" and c0: "core s0 = core (promo s)"
    using promo_rep [OF assms(1)] .
  have "p \<in> set (promoL s L (LReady i))" using Cons by simp
  then have "p < NPROC" "state (procs s p) = RUNNABLE"
    using assms(3) core_state [OF c0, of p] by (simp_all add: plrep_mem_iff [OF r0])
  then obtain s' where t: "sched_turn c (int i) s = Ret (Some p, if i \<noteq> MAXPRIO then -1 else int i, s')"
    and i: "in_ptable c s'"
    and r: "plrep {} s' ((promoL s L)(LReady i := ps, LRunning := p # promoL s L LRunning))"
    and c: "core s' = core (upd p (pick_eff (ticks s)) (set_curproc c (Some p) (promo s)))"
    using sched_turn_pick [OF assms(1-3) Cons] assms(4) by blast
  have "sched_scan c (int i) s = Ret (Some p, if i \<noteq> MAXPRIO then -1 else int i, s')"
    using t assms(3) by (subst sched_scan.simps) simp
  from scan_out_pick [OF _ assms(3) _ Cons this i r] c show ?thesis by simp
qed

lemma sched_scan_again:
  assumes "i \<le> Suc MAXPRIO" and "plrep {} s L" and "in_ptable c s" and "PromoteAtTime s \<noteq> ticks s"
    and "\<And>p. p < NPROC \<Longrightarrow> state (procs s p) = RUNNABLE \<Longrightarrow> pgdir (procs s p) \<noteq> None"
  shows "scan_out c i s L (sched_scan c (int i) s)"
  using assms
proof (induction i arbitrary: s rule: inc_induct)
  case base
  have "sched_scan c (int (Suc MAXPRIO)) s = Ret (None, int MAXPRIO + 1, s)"
    by (subst sched_scan.simps) simp
  with base show ?case unfolding scan_out_def by (intro disjI2 exI [of _ s]) auto
next
  case (step i)
  have eq: "promo s = s" "promoL s L = L" using step.prems(3) by (simp_all add: promo_def promoL_def)
  have rest: "scan_out c (Suc i) s1 L (sched_scan c (int (Suc i)) s1)" if "plrep {} s1 L" "core s1 = core s" for s1
  proof (rule step.IH)
    show "plrep {} s1 L" by fact
    show "in_ptable c s1" using step.prems(2) in_ptable_core [OF that(2)] by simp
    show "PromoteAtTime s1 \<noteq> ticks s1"
      using step.prems(3) core_promote [OF that(2)] core_ticks [OF that(2)] by simp
    show "pgdir (procs s1 p) \<noteq> None" if "p < NPROC" "state (procs s1 p) = RUNNABLE" for p
      using step.prems(4) that core_state [OF \<open>core s1 = core s\<close>] core_pgdir [OF \<open>core s1 = core s\<close>] by simp
  qed
  have "i \<le> MAXPRIO" using step.hyps(2) by simp
  from scan_turn [OF step.prems(1,2) this step.prems(4), unfolded eq, OF _ _ rest] show ?case by blast
qed

lemma sched_scan_rep:
  assumes "plrep {} s L" and "in_ptable c s" and "i \<le> MAXPRIO"
    and "\<And>p. p < NPROC \<Longrightarrow> state (procs s p) = RUNNABLE \<Longrightarrow> pgdir (procs s p) \<noteq> None"
  shows "scan_out c i (promo s) (promoL s L) (sched_scan c (int i) s)"
proof (rule scan_turn [OF assms(1-4)])
  fix s1 :: "'a kst" assume r: "plrep {} s1 (promoL s L)" and c: "core s1 = core (promo s)"
  show "scan_out c (Suc i) s1 (promoL s L) (sched_scan c (int (Suc i)) s1)"
    using assms(2-4) r
    by (intro sched_scan_again)
      (auto simp: in_ptable_core [OF c] in_ptable_promo core_promote [OF c] core_ticks [OF c]
        core_state [OF c] core_pgdir [OF c])
qed

end
