(* ===== verification/Procsys.thy ===== *)
theory Procsys
  imports Procsched
begin

text \<open>
  The process code as a transition system: any number of CPUs run the scheduler and the operations
  of \<open>src/proc.c\<close> in any order, holding locks of other components where the kernel does; a step is
  one critical section of the table lock, a part of one where the CPU switches stacks inside it, or
  one part of \<open>sleep\<close>. The invariant of the reachable states is the lists, the family relation, the
  locks, and which CPU runs which process.
\<close>

section \<open>Steps\<close>

text \<open>
  Where a CPU is: between two passes of the scheduler; back in the scheduler after a process gave
  the CPU up (table lock held); just switched to a process (table lock held); running a process; at
  the head of the loop of \<open>wait\<close> (table lock held); in \<open>sleep\<close>, with the parts still to do; about to
  take the caller's lock again at the end of \<open>sleep\<close>.
\<close>

datatype cmode = Idle | Sched | Switched | User | Waiting
  | Falling "chan option" "lockid option" "sleep_part list" | Relock nat

text \<open>
  \<open>hold\<close> are the locks other than the table lock each CPU holds, \<open>kid\<close> the new process a process in
  \<open>fork\<close> is filling, between the two critical sections of \<open>fork\<close>; a process can be preempted there.
\<close>

record 'm sys =
  ks :: "'m kst"
  cmd :: "nat \<Rightarrow> cmode"
  sidx :: "nat \<Rightarrow> int"
  hold :: "nat \<Rightarrow> nat list"
  kid :: "nat \<Rightarrow> nat option"

abbreviation goto :: "nat \<Rightarrow> cmode \<Rightarrow> 'm kst \<Rightarrow> 'm sys \<Rightarrow> 'm sys" where
  "goto c m s S \<equiv> S\<lparr>ks := s, cmd := (cmd S)(c := m)\<rparr>"

text \<open>
  The fields of a new process that \<open>allocproc\<close> and \<open>fork\<close> fill between their two critical
  sections, with the stack \<open>k\<close> and the page table \<open>pg\<close> they got.
\<close>

definition fork_fill :: "nat \<Rightarrow> u32 \<Rightarrow> u32 \<Rightarrow> 'm kst \<Rightarrow> proc \<Rightarrow> proc" where
  "fork_fill p k pg s np =
     fork_copy (procs s p) p ((proc_setup (ticks s) (np\<lparr>kstack := Some k\<rparr>))\<lparr>pgdir := Some pg\<rparr>)"

text \<open>
  \<open>lock\<close> and \<open>unlock\<close> are \<open>acquire\<close> and \<open>release\<close> of any other lock, by a process or by an interrupt
  handler on an idle CPU. Interrupts are off while a lock is held, so \<open>yield\<close> (the timer) and a pass
  of the scheduler start with none; the other operations are called with none. \<open>sleep\<close> is called
  with the one lock it is given, \<open>wakeup\<close> with any locks.
\<close>

inductive step :: "'m os \<Rightarrow> 'm sys \<Rightarrow> 'm sys \<Rightarrow> bool" for os where
  pass_pick: "cmd S c = Idle \<Longrightarrow> hold S c = [] \<Longrightarrow> scheduler_start c (ks S) = Ret (Some p, i, s) \<Longrightarrow>
     step os S ((goto c Switched s S)\<lparr>sidx := (sidx S)(c := i)\<rparr>)"
| pass_none: "cmd S c = Idle \<Longrightarrow> hold S c = [] \<Longrightarrow> scheduler_start c (ks S) = Ret (None, i, s) \<Longrightarrow>
     step os S (goto c Idle s S)"
| back_pick: "cmd S c = Sched \<Longrightarrow> scheduler_back c (sidx S c) (ks S) = Ret (Some p, i, s) \<Longrightarrow>
     step os S ((goto c Switched s S)\<lparr>sidx := (sidx S)(c := i)\<rparr>)"
| back_none: "cmd S c = Sched \<Longrightarrow> scheduler_back c (sidx S c) (ks S) = Ret (None, i, s) \<Longrightarrow>
     step os S (goto c Idle s S)"
| resume_forkret: "cmd S c = Switched \<Longrightarrow> cpu_proc (cpus (ks S) c) = Some p \<Longrightarrow>
     ctxt (procs (ks S) p) = AtForkret \<Longrightarrow> forkret c (ks S) = Ret s \<Longrightarrow> step os S (goto c User s S)"
| resume_yield: "cmd S c = Switched \<Longrightarrow> cpu_proc (cpus (ks S) c) = Some p \<Longrightarrow>
     ctxt (procs (ks S) p) = InYield ie \<Longrightarrow> yield_resume c ie (ks S) = Ret s \<Longrightarrow> step os S (goto c User s S)"
| resume_sleep: "cmd S c = Switched \<Longrightarrow> cpu_proc (cpus (ks S) c) = Some p \<Longrightarrow>
     ctxt (procs (ks S) p) = InSleep ie lko \<Longrightarrow> sleep_wake c ie lko (ks S) = Ret s \<Longrightarrow>
     step os S (goto c (case lko of None \<Rightarrow> User | Some LkPtable \<Rightarrow> Waiting | Some (LkOther n) \<Rightarrow> Relock n) s S)"
| relock: "cmd S c = Relock n \<Longrightarrow> kacquire c (LkOther n) (ks S) = Ret s \<Longrightarrow>
     step os S ((goto c User s S)\<lparr>hold := (hold S)(c := n # hold S c)\<rparr>)"
| lock: "cmd S c = User \<or> cmd S c = Idle \<Longrightarrow> kacquire c (LkOther n) (ks S) = Ret s \<Longrightarrow>
     step os S ((goto c (cmd S c) s S)\<lparr>hold := (hold S)(c := n # hold S c)\<rparr>)"
| unlock: "cmd S c = User \<or> cmd S c = Idle \<Longrightarrow> n \<in> set (hold S c) \<Longrightarrow> krelease c (LkOther n) (ks S) = Ret s \<Longrightarrow>
     step os S ((goto c (cmd S c) s S)\<lparr>hold := (hold S)(c := remove1 n (hold S c))\<rparr>)"
| do_yield: "cmd S c = User \<Longrightarrow> hold S c = [] \<Longrightarrow> yield c (ks S) = Ret s \<Longrightarrow> step os S (goto c Sched s S)"
| do_sleep: "cmd S c = User \<Longrightarrow> cpu_proc (cpus (ks S) c) = Some p \<Longrightarrow> kid S p = None \<Longrightarrow>
     lko = None \<and> hold S c = [] \<or> (\<exists>n. lko = Some (LkOther n) \<and> hold S c = [n]) \<Longrightarrow>
     step os S (goto c (Falling ch lko (sleep_parts lko)) (ks S) S)"
| fall: "cmd S c = Falling ch lko (x # xs) \<Longrightarrow> cpu_proc (cpus (ks S) c) = Some p \<Longrightarrow>
     run_part c p ch lko x (ks S) = Ret s \<Longrightarrow>
     step os S ((goto c (if xs = [] then Sched else Falling ch lko xs) s S)
       \<lparr>hold := (case x of ReleaseLock (LkOther n) \<Rightarrow> (hold S)(c := remove1 n (hold S c)) | _ \<Rightarrow> hold S)\<rparr>)"
| do_wait: "cmd S c = User \<Longrightarrow> hold S c = [] \<Longrightarrow> cpu_proc (cpus (ks S) c) = Some p \<Longrightarrow> kid S p = None \<Longrightarrow>
     wait os c (ks S) = Ret (out, s) \<Longrightarrow> step os S (goto c (if out = WSleep then Sched else User) s S)"
| wait_more: "cmd S c = Waiting \<Longrightarrow> wait_turn os c (ks S) = Ret (out, s) \<Longrightarrow>
     step os S (goto c (if out = WSleep then Sched else User) s S)"
| do_exit: "cmd S c = User \<Longrightarrow> hold S c = [] \<Longrightarrow> cpu_proc (cpus (ks S) c) = Some p \<Longrightarrow> kid S p = None \<Longrightarrow>
     Some p \<noteq> initproc (ks S) \<Longrightarrow> exit_locked c p (ks S) = Ret s \<Longrightarrow> step os S (goto c Sched s S)"
| do_wakeup: "cmd S c = User \<or> cmd S c = Idle \<Longrightarrow> wakeup c ch (ks S) = Ret s \<Longrightarrow>
     step os S (goto c (cmd S c) s S)"
| do_kill: "cmd S c = User \<Longrightarrow> hold S c = [] \<Longrightarrow> kill c pd (ks S) = Ret (rc, s) \<Longrightarrow> step os S (goto c User s S)"
| do_setpriority: "cmd S c = User \<Longrightarrow> hold S c = [] \<Longrightarrow> setpriority c pd prio (ks S) = Ret (rc, s) \<Longrightarrow>
     step os S (goto c User s S)"
| fork_take: "cmd S c = User \<Longrightarrow> hold S c = [] \<Longrightarrow> cpu_proc (cpus (ks S) c) = Some p \<Longrightarrow> kid S p = None \<Longrightarrow>
     allocproc_take c (ks S) = Ret (Some np, s) \<Longrightarrow>
     step os S ((goto c User s S)\<lparr>kid := (kid S)(p := Some np)\<rparr>)"
| fork_full: "cmd S c = User \<Longrightarrow> hold S c = [] \<Longrightarrow> allocproc_take c (ks S) = Ret (None, s) \<Longrightarrow>
     step os S (goto c User s S)"
| fork_fail: "cmd S c = User \<Longrightarrow> hold S c = [] \<Longrightarrow> cpu_proc (cpus (ks S) c) = Some p \<Longrightarrow> kid S p = Some np \<Longrightarrow>
     embryo_to_free msg c np (ks S) = Ret s \<Longrightarrow> step os S ((goto c User s S)\<lparr>kid := (kid S)(p := None)\<rparr>)"
| fork_done: "cmd S c = User \<Longrightarrow> hold S c = [] \<Longrightarrow> cpu_proc (cpus (ks S) c) = Some p \<Longrightarrow> kid S p = Some np \<Longrightarrow>
     fork_ready c np (upd np (fork_fill p k pg (ks S)) (ks S)) = Ret s \<Longrightarrow>
     step os S ((goto c User s S)\<lparr>kid := (kid S)(p := None)\<rparr>)"
| tick: "step os S (S\<lparr>ks := (ks S)\<lparr>ticks := ticks (ks S) + 1\<rparr>\<rparr>)"

section \<open>The invariant\<close>

text \<open>The modes in which the CPU holds the table lock, and those in which it runs a process.\<close>

definition lmode :: "cmode \<Rightarrow> bool" where
  "lmode m \<longleftrightarrow> (case m of Sched \<Rightarrow> True | Switched \<Rightarrow> True | Waiting \<Rightarrow> True
      | Falling ch lko xs \<Rightarrow> AcquireTable \<notin> set xs | _ \<Rightarrow> False)"

definition rmode :: "cmode \<Rightarrow> bool" where
  "rmode m \<longleftrightarrow> (case m of Idle \<Rightarrow> False | Sched \<Rightarrow> False | _ \<Rightarrow> True)"

definition alive :: "procstate \<Rightarrow> bool" where
  "alive st \<longleftrightarrow> st \<in> {SLEEPING, RUNNABLE, RUNNING}"

text \<open>
  The family: every process but \<open>initproc\<close> has a parent that can still wait for it, and
  \<open>initproc\<close> itself never exits.
\<close>

definition fam :: "'m kst \<Rightarrow> bool" where
  "fam s \<longleftrightarrow>
     (\<exists>ip<NPROC. initproc s = Some ip \<and> alive (state (procs s ip)) \<and>
        (\<forall>p<NPROC. state (procs s p) \<notin> {UNUSED, EMBRYO} \<longrightarrow> p \<noteq> ip \<longrightarrow>
           (\<exists>q<NPROC. parent (procs s p) = Some q \<and> alive (state (procs s q)))) \<and>
        (\<forall>p<NPROC. state (procs s p) \<in> {UNUSED, EMBRYO} \<or> p = ip \<longrightarrow> parent (procs s p) = None))"

definition ctxt_ok :: "resume \<Rightarrow> bool" where
  "ctxt_ok r \<longleftrightarrow> (\<forall>ie. r \<noteq> InExit ie)"

definition memok :: "'m kst \<Rightarrow> bool" where
  "memok s \<longleftrightarrow>
     (\<forall>p<NPROC. alive (state (procs s p)) \<longrightarrow> pgdir (procs s p) \<noteq> None) \<and>
     (\<forall>p<NPROC. state (procs s p) \<in> {SLEEPING, RUNNABLE} \<longrightarrow> ctxt_ok (ctxt (procs s p)))"

text \<open>
  Which other locks a CPU holds in a mode, and how far a process in \<open>sleep\<close> is: the caller's lock is
  held until the table lock is.
\<close>

definition mode_hold :: "cmode \<Rightarrow> nat list \<Rightarrow> bool" where
  "mode_hold m hs \<longleftrightarrow> (case m of Idle \<Rightarrow> True | User \<Rightarrow> True
      | Falling ch lko xs \<Rightarrow>
          lko = None \<and> hs = [] \<and> (xs = [AcquireTable, Block] \<or> xs = [Block])
          \<or> (\<exists>n. lko = Some (LkOther n) \<and>
              (hs = [n] \<and> (xs = [AcquireTable, ReleaseLock (LkOther n), Block] \<or> xs = [ReleaseLock (LkOther n), Block])
               \<or> hs = [] \<and> xs = [Block]))
      | _ \<Rightarrow> hs = [])"

definition lockok :: "'m sys \<Rightarrow> bool" where
  "lockok S \<longleftrightarrow>
     (\<forall>c. ncli (cpus (ks S) c) = int (length (hold S c)) + (if lmode (cmd S c) then 1 else 0)) \<and>
     (\<forall>c. cpu_ok (cpus (ks S) c)) \<and>
     (\<forall>c. distinct (hold S c) \<and> (\<forall>n\<in>set (hold S c). holding (locks (ks S) (LkOther n)) c)) \<and>
     (\<forall>c. lmode (cmd S c) \<longrightarrow> holding (locks (ks S) LkPtable) c) \<and>
     (\<forall>c. mode_hold (cmd S c) (hold S c)) \<and>
     ((\<forall>c. \<not> lmode (cmd S c)) \<longrightarrow> locked (locks (ks S) LkPtable) = 0)"

definition cpuok :: "'m sys \<Rightarrow> bool" where
  "cpuok S \<longleftrightarrow>
     (\<forall>c. rmode (cmd S c) \<longrightarrow>
        (\<exists>p<NPROC. cpu_proc (cpus (ks S) c) = Some p \<and> state (procs (ks S) p) = RUNNING)) \<and>
     (\<forall>c d. rmode (cmd S c) \<and> rmode (cmd S d) \<and> cpu_proc (cpus (ks S) c) = cpu_proc (cpus (ks S) d) \<longrightarrow> c = d) \<and>
     (\<forall>p<NPROC. state (procs (ks S) p) = RUNNING \<longrightarrow>
        (\<exists>c. rmode (cmd S c) \<and> cpu_proc (cpus (ks S) c) = Some p)) \<and>
     (\<forall>c p. cmd S c = Switched \<and> cpu_proc (cpus (ks S) c) = Some p \<longrightarrow> ctxt_ok (ctxt (procs (ks S) p))) \<and>
     (\<forall>c. cmd S c = Sched \<longrightarrow> sidx S c = -1 \<or> sidx S c = int MAXPRIO) \<and>
     (\<forall>c. rmode (cmd S c) \<longrightarrow> sidx S c = -1 \<or> sidx S c = int MAXPRIO)"

definition forkok :: "'m sys \<Rightarrow> bool" where
  "forkok S \<longleftrightarrow>
     (\<forall>p np. kid S p = Some np \<longrightarrow> np < NPROC \<and> state (procs (ks S) np) = EMBRYO) \<and>
     (\<forall>p q np. kid S p = Some np \<and> kid S q = Some np \<longrightarrow> p = q)"

definition sinv :: "'m sys \<Rightarrow> bool" where
  "sinv S \<longleftrightarrow> plinv (ks S) \<and> fam (ks S) \<and> memok (ks S) \<and> lockok S \<and> cpuok S \<and> forkok S"

lemma lmode_simps [simp]: "lmode Sched" "lmode Switched" "lmode Waiting"
  "\<not> lmode Idle" "\<not> lmode User" "\<not> lmode (Relock n)"
  "lmode (Falling ch lko xs) = (AcquireTable \<notin> set xs)"
  by (simp_all add: lmode_def)

lemma rmode_simps [simp]: "rmode Switched" "rmode Waiting" "rmode User" "rmode (Relock n)"
  "rmode (Falling ch lko xs)" "\<not> rmode Idle" "\<not> rmode Sched"
  by (simp_all add: rmode_def)

lemma mode_hold_simps [simp]: "mode_hold Idle hs" "mode_hold User hs" "mode_hold Sched hs = (hs = [])"
  "mode_hold Switched hs = (hs = [])" "mode_hold Waiting hs = (hs = [])" "mode_hold (Relock n) hs = (hs = [])"
  by (simp_all add: mode_hold_def)

section \<open>What the parts of the invariant depend on\<close>

lemma fam_map:
  assumes "fam s" and "initproc s' = initproc s"
    and "\<And>p. p < NPROC \<Longrightarrow> parent (procs s' p) = parent (procs s p)"
    and "\<And>p. p < NPROC \<Longrightarrow> alive (state (procs s' p)) = alive (state (procs s p))"
    and "\<And>p. p < NPROC \<Longrightarrow>
           (state (procs s' p) \<in> {UNUSED, EMBRYO}) = (state (procs s p) \<in> {UNUSED, EMBRYO})"
  shows "fam s'"
proof -
  obtain ip where "ip < NPROC" "initproc s = Some ip" "alive (state (procs s ip))"
    "\<forall>p<NPROC. state (procs s p) \<notin> {UNUSED, EMBRYO} \<longrightarrow> p \<noteq> ip \<longrightarrow>
       (\<exists>q<NPROC. parent (procs s p) = Some q \<and> alive (state (procs s q)))"
    "\<forall>p<NPROC. state (procs s p) \<in> {UNUSED, EMBRYO} \<or> p = ip \<longrightarrow> parent (procs s p) = None"
    using assms(1) unfolding fam_def by blast
  with assms(2-5) show ?thesis
    unfolding fam_def by (intro exI [of _ ip]) (metis (no_types, lifting))
qed

lemma memok_map:
  assumes "memok s"
    and "\<And>p. p < NPROC \<Longrightarrow> alive (state (procs s' p)) \<Longrightarrow>
           alive (state (procs s p)) \<and> pgdir (procs s' p) = pgdir (procs s p) \<or> pgdir (procs s' p) \<noteq> None"
    and "\<And>p. p < NPROC \<Longrightarrow> state (procs s' p) \<in> {SLEEPING, RUNNABLE} \<Longrightarrow>
           state (procs s p) \<in> {SLEEPING, RUNNABLE} \<and> ctxt (procs s' p) = ctxt (procs s p)
           \<or> ctxt_ok (ctxt (procs s' p))"
  shows "memok s'"
  using assms unfolding memok_def by metis

lemma fam_core: "core s' = core s \<Longrightarrow> fam s' = fam s"
  by (simp add: fam_def core_initproc [of s' s] core_state [of s' s] core_parent [of s' s])

lemma memok_core: "core s' = core s \<Longrightarrow> memok s' = memok s"
  by (simp add: memok_def core_pgdir [of s' s] core_state [of s' s] core_ctxt [of s' s])

lemma lockok_other:
  assumes "lockok S" and "locked (locks (ks S) LkPtable) = 0 \<or> lmode (cmd S c)" and "d \<noteq> c"
  shows "\<not> lmode (cmd S d)"
proof
  assume d: "lmode (cmd S d)"
  then have "holding (locks (ks S) LkPtable) d" using assms(1) by (simp add: lockok_def)
  moreover have "holding (locks (ks S) LkPtable) c" if "lmode (cmd S c)"
    using that assms(1) by (simp add: lockok_def)
  ultimately show False using assms(2,3) by (auto simp: holding_def)
qed

text \<open>
  A step of CPU \<open>c\<close> on locks: it may take or give back locks of its own, and the table lock if no
  other CPU has it.
\<close>

lemma lockok_step:
  assumes "lockok S" and "\<And>d. d \<noteq> c \<Longrightarrow> cpus s' d = cpus (ks S) d"
    and "\<And>n. n \<notin> set (hold S c) \<Longrightarrow> n \<notin> set hs \<Longrightarrow> locks s' (LkOther n) = locks (ks S) (LkOther n)"
    and "\<And>n. n \<in> set hs \<Longrightarrow> n \<notin> set (hold S c) \<Longrightarrow> locked (locks (ks S) (LkOther n)) = 0"
    and "\<And>n. n \<in> set hs \<Longrightarrow> holding (locks s' (LkOther n)) c" and "distinct hs" and "mode_hold m hs"
    and "ncli (cpus s' c) = int (length hs) + (if lmode m then 1 else 0)" and "cpu_ok (cpus s' c)"
    and "(locked (locks (ks S) LkPtable) = 0 \<or> lmode (cmd S c)) \<and>
           (if lmode m then holding (locks s' LkPtable) c else locked (locks s' LkPtable) = 0)
         \<or> locks s' LkPtable = locks (ks S) LkPtable \<and> lmode m = lmode (cmd S c)"
  shows "lockok ((goto c m s' S)\<lparr>hold := (hold S)(c := hs)\<rparr>)"
proof -
  have other: "holding (locks s' (LkOther n)) d" if d: "d \<noteq> c" "n \<in> set (hold S d)" for d n
  proof -
    have h: "holding (locks (ks S) (LkOther n)) d" using assms(1) d(2) by (simp add: lockok_def)
    have "n \<notin> set (hold S c)"
    proof
      assume "n \<in> set (hold S c)"
      then have "holding (locks (ks S) (LkOther n)) c" using assms(1) by (simp add: lockok_def)
      with h d(1) show False by (simp add: holding_def)
    qed
    moreover from this have "n \<notin> set hs" using assms(4) [of n] h by (auto simp: holding_def)
    ultimately show ?thesis using assms(3) h by simp
  qed
  have table: "(lmode m \<longrightarrow> holding (locks s' LkPtable) c)
      \<and> (\<forall>d. d \<noteq> c \<longrightarrow> lmode (cmd S d) \<longrightarrow> holding (locks s' LkPtable) d)
      \<and> (\<not> lmode m \<longrightarrow> (\<forall>d. d \<noteq> c \<longrightarrow> \<not> lmode (cmd S d)) \<longrightarrow> locked (locks s' LkPtable) = 0)"
    using assms(10)
  proof
    assume h: "(locked (locks (ks S) LkPtable) = 0 \<or> lmode (cmd S c)) \<and>
           (if lmode m then holding (locks s' LkPtable) c else locked (locks s' LkPtable) = 0)"
    then have "\<not> lmode (cmd S d)" if "d \<noteq> c" for d using lockok_other [OF assms(1) _ that] by blast
    with h show ?thesis by auto
  next
    assume h: "locks s' LkPtable = locks (ks S) LkPtable \<and> lmode m = lmode (cmd S c)"
    have "\<not> lmode m \<Longrightarrow> \<forall>d. d \<noteq> c \<longrightarrow> \<not> lmode (cmd S d) \<Longrightarrow> locked (locks (ks S) LkPtable) = 0"
      using assms(1) h unfolding lockok_def by metis
    with h assms(1) show ?thesis by (simp add: lockok_def)
  qed
  let ?S = "(goto c m s' S)\<lparr>hold := (hold S)(c := hs)\<rparr>"
  have "ncli (cpus s' d) = int (length (hold ?S d)) + (if lmode (cmd ?S d) then 1 else 0)" for d
    using assms(1,2,8) by (cases "d = c") (simp_all add: lockok_def)
  moreover have "cpu_ok (cpus s' d)" for d
    using assms(1,2,9) by (cases "d = c") (simp_all add: lockok_def)
  moreover have "distinct (hold ?S d) \<and> (\<forall>n\<in>set (hold ?S d). holding (locks s' (LkOther n)) d)" for d
    using assms(1,5,6) other by (cases "d = c") (simp_all add: lockok_def)
  moreover have "lmode (cmd ?S d) \<longrightarrow> holding (locks s' LkPtable) d" for d
    using table by (cases "d = c") simp_all
  moreover have "mode_hold (cmd ?S d) (hold ?S d)" for d
    using assms(1,7) by (cases "d = c") (simp_all add: lockok_def)
  moreover have "locked (locks s' LkPtable) = 0" if "\<forall>d. \<not> lmode (cmd ?S d)"
  proof -
    have "\<not> lmode m" using that [rule_format, of c] by simp
    moreover have "\<not> lmode (cmd S d)" if "d \<noteq> c" for d using \<open>\<forall>d. \<not> lmode (cmd ?S d)\<close> [rule_format, of d] that by simp
    ultimately show ?thesis using table by blast
  qed
  ultimately show ?thesis unfolding lockok_def by simp
qed

lemma lockok_goto:
  assumes "lockok S" and "locked (locks (ks S) LkPtable) = 0 \<or> lmode (cmd S c)"
    and "\<And>d. d \<noteq> c \<Longrightarrow> cpus s' d = cpus (ks S) d"
    and "if lmode m then in_ptable c s' else may_enter c s'"
    and "hold S c = []" and "mode_hold m []" and "\<And>n. locks s' (LkOther n) = locks (ks S) (LkOther n)"
  shows "lockok (goto c m s' S)"
proof -
  have "lockok ((goto c m s' S)\<lparr>hold := (hold S)(c := [])\<rparr>)"
    using assms(2-6) by (intro lockok_step [OF assms(1)]) (auto simp: assms(7) in_ptable_def may_enter_def cpu_ok_def split: if_splits)
  moreover have "(goto c m s' S)\<lparr>hold := (hold S)(c := [])\<rparr> = goto c m s' S"
    using assms(5) by (cases S) (simp add: fun_upd_idem)
  ultimately show ?thesis by simp
qed

lemma sys_parts [simp]:
  "lockok (S\<lparr>sidx := f\<rparr>) = lockok S" "forkok (S\<lparr>sidx := f\<rparr>) = forkok S"
  "lockok (S\<lparr>kid := K\<rparr>) = lockok S" "cpuok (S\<lparr>kid := K\<rparr>) = cpuok S"
  "cpuok (S\<lparr>hold := h\<rparr>) = cpuok S" "forkok (S\<lparr>hold := h\<rparr>) = forkok S"
  by (simp_all add: lockok_def forkok_def cpuok_def)

lemma cpuok_stay:
  assumes "cpuok S" and "rmode m = rmode (cmd S c)" and "m \<noteq> Switched" and "m \<noteq> Sched"
    and "\<And>d. d \<noteq> c \<Longrightarrow> cpus s' d = cpus (ks S) d"
    and "rmode m \<Longrightarrow> cpu_proc (cpus s' c) = cpu_proc (cpus (ks S) c)"
    and "\<And>p. p < NPROC \<Longrightarrow> (state (procs s' p) = RUNNING) = (state (procs (ks S) p) = RUNNING)"
    and "\<And>p. p < NPROC \<Longrightarrow> state (procs (ks S) p) = RUNNING \<Longrightarrow> ctxt (procs s' p) = ctxt (procs (ks S) p)"
  shows "cpuok (goto c m s' S)"
proof -
  let ?T = "goto c m s' S"
  have ks: "ks ?T = s'" "sidx ?T = sidx S" by simp_all
  have cp: "cpu_proc (cpus s' d) = cpu_proc (cpus (ks S) d)" if "rmode (cmd ?T d)" for d
    using that assms(5,6) by (cases "d = c") auto
  have rm: "rmode (cmd ?T d) = rmode (cmd S d)" for d using assms(2) by simp
  have sw: "cmd ?T d = Switched \<longleftrightarrow> cmd S d = Switched \<and> d \<noteq> c" for d using assms(3) by auto
  have sc: "cmd ?T d = Sched \<longrightarrow> cmd S d = Sched" for d using assms(4) by auto
  have rsw: "rmode Switched" by simp
  show ?thesis
    unfolding cpuok_def ks
  proof (intro conjI allI impI, goal_cases)
    case (1 d)
    then have "rmode (cmd S d)" using rm by simp
    then obtain p where "p < NPROC" "cpu_proc (cpus (ks S) d) = Some p" "state (procs (ks S) p) = RUNNING"
      using assms(1) unfolding cpuok_def by blast
    with cp [OF 1] assms(7) show ?case by auto
  next
    case (2 d e)
    with cp [of d] cp [of e] rm have "rmode (cmd S d)" "rmode (cmd S e)"
      "cpu_proc (cpus (ks S) d) = cpu_proc (cpus (ks S) e)" by simp_all
    with assms(1) show ?case unfolding cpuok_def by blast
  next
    case (3 p)
    with assms(1,7) obtain d where "rmode (cmd S d)" "cpu_proc (cpus (ks S) d) = Some p"
      unfolding cpuok_def by blast
    with cp [of d] rm show ?case by auto
  next
    case (4 d p)
    then have d: "cmd S d = Switched" "d \<noteq> c" using sw by blast+
    then have "cpu_proc (cpus (ks S) d) = Some p" using 4 assms(5) by simp
    with d assms(1) have "p < NPROC" "state (procs (ks S) p) = RUNNING" "ctxt_ok (ctxt (procs (ks S) p))"
      unfolding cpuok_def using rsw by (metis option.inject)+
    with assms(8) show ?case by simp
  next
    case (5 d)
    with sc assms(1) show ?case unfolding cpuok_def by blast
  next
    case (6 d)
    with rm assms(1) show ?case unfolding cpuok_def by blast
  qed
qed

lemma cpuok_leave:
  assumes "cpuok S" and "rmode (cmd S c)" and "cpu_proc (cpus (ks S) c) = Some p"
    and "\<And>d. d \<noteq> c \<Longrightarrow> cpus s' d = cpus (ks S) d"
    and "\<And>q. q < NPROC \<Longrightarrow> (state (procs s' q) = RUNNING) = (state (procs (ks S) q) = RUNNING \<and> q \<noteq> p)"
    and "\<And>q. q < NPROC \<Longrightarrow> q \<noteq> p \<Longrightarrow> state (procs (ks S) q) = RUNNING \<Longrightarrow> ctxt (procs s' q) = ctxt (procs (ks S) q)"
  shows "cpuok (goto c Sched s' S)"
proof -
  let ?T = "goto c Sched s' S"
  have ks: "ks ?T = s'" "sidx ?T = sidx S" by simp_all
  have rm: "rmode (cmd ?T d) \<longleftrightarrow> rmode (cmd S d) \<and> d \<noteq> c" for d by (simp add: rmode_def)
  have sw: "cmd ?T d = Switched \<longleftrightarrow> cmd S d = Switched \<and> d \<noteq> c" for d by simp
  have ne: "cpu_proc (cpus (ks S) d) \<noteq> Some p" if "rmode (cmd S d)" "d \<noteq> c" for d
    using that assms(1-3) unfolding cpuok_def by metis
  have rsw: "rmode Switched" by simp
  show ?thesis
    unfolding cpuok_def ks
  proof (intro conjI allI impI, goal_cases)
    case (1 d)
    with rm have d: "rmode (cmd S d)" "d \<noteq> c" by simp_all
    then obtain q where "q < NPROC" "cpu_proc (cpus (ks S) d) = Some q" "state (procs (ks S) q) = RUNNING"
      using assms(1) unfolding cpuok_def by blast
    with ne [OF d] assms(4) [OF d(2)] assms(5) show ?case by auto
  next
    case (2 d e)
    with rm have de: "rmode (cmd S d)" "rmode (cmd S e)" "d \<noteq> c" "e \<noteq> c" by blast+
    with 2 assms(4) have "cpu_proc (cpus (ks S) d) = cpu_proc (cpus (ks S) e)" by simp
    with de assms(1) show ?case unfolding cpuok_def by blast
  next
    case (3 q)
    with assms(1,5) obtain d where d: "rmode (cmd S d)" "cpu_proc (cpus (ks S) d) = Some q" "q \<noteq> p"
      unfolding cpuok_def by blast
    then have "d \<noteq> c" using assms(3) by auto
    with d rm assms(4) show ?case by (intro exI [of _ d]) simp
  next
    case (4 d q)
    then have d: "cmd S d = Switched" "d \<noteq> c" using sw by blast+
    then have q: "cpu_proc (cpus (ks S) d) = Some q" using 4 assms(4) by simp
    with d assms(1) have "q < NPROC" "state (procs (ks S) q) = RUNNING" "ctxt_ok (ctxt (procs (ks S) q))"
      unfolding cpuok_def using rsw by (metis option.inject)+
    with assms(6) q ne [of d] d rsw show ?case by auto
  next
    case (5 d)
    with assms(1,2) show ?case unfolding cpuok_def by (cases "d = c") auto
  next
    case (6 d)
    with rm assms(1) show ?case unfolding cpuok_def by blast
  qed
qed

lemma cpuok_pick:
  assumes "cpuok S" and "\<not> rmode (cmd S c)" and "cpu_proc (cpus s' c) = Some p" and "p < NPROC"
    and "state (procs (ks S) p) \<noteq> RUNNING" and "ctxt_ok (ctxt (procs s' p))"
    and "\<And>d. d \<noteq> c \<Longrightarrow> cpus s' d = cpus (ks S) d"
    and "\<And>q. q < NPROC \<Longrightarrow> (state (procs s' q) = RUNNING) = (state (procs (ks S) q) = RUNNING \<or> q = p)"
    and "\<And>q. q < NPROC \<Longrightarrow> q \<noteq> p \<Longrightarrow> ctxt (procs s' q) = ctxt (procs (ks S) q)"
    and "i = -1 \<or> i = int MAXPRIO"
  shows "cpuok ((goto c Switched s' S)\<lparr>sidx := (sidx S)(c := i)\<rparr>)"
proof -
  let ?T = "(goto c Switched s' S)\<lparr>sidx := (sidx S)(c := i)\<rparr>"
  have ks: "ks ?T = s'" "sidx ?T = (sidx S)(c := i)" by simp_all
  have rsw: "rmode Switched" by simp
  then have rm: "rmode (cmd ?T d) \<longleftrightarrow> rmode (cmd S d) \<or> d = c" for d by simp
  have ne: "cpu_proc (cpus s' d) \<noteq> Some p" if "rmode (cmd S d)" for d
  proof -
    have "d \<noteq> c" using that assms(2) by auto
    moreover have "cpu_proc (cpus (ks S) d) \<noteq> Some p"
      using that assms(1,4,5) unfolding cpuok_def by (metis option.inject)
    ultimately show ?thesis using assms(7) by simp
  qed
  show ?thesis
    unfolding cpuok_def ks
  proof (intro conjI allI impI, goal_cases)
    case (1 d)
    show ?case
    proof (cases "d = c")
      case True
      with assms(3,4,8) show ?thesis by auto
    next
      case False
      with 1 have "rmode (cmd S d)" by simp
      then obtain q where "q < NPROC" "cpu_proc (cpus (ks S) d) = Some q" "state (procs (ks S) q) = RUNNING"
        using assms(1) unfolding cpuok_def by blast
      with assms(7) [OF False] assms(8) show ?thesis by auto
    qed
  next
    case (2 d e)
    then have *: "rmode (cmd S d) \<or> d = c" "rmode (cmd S e) \<or> e = c" using rm by blast+
    show ?case
    proof (cases "d = c \<or> e = c")
      case True
      with * 2 ne [of d] ne [of e] assms(3) show ?thesis by auto
    next
      case False
      with 2 * assms(7) have "cpu_proc (cpus (ks S) d) = cpu_proc (cpus (ks S) e)" by simp
      with * False assms(1) show ?thesis unfolding cpuok_def by blast
    qed
  next
    case (3 q)
    show ?case
    proof (cases "q = p")
      case True
      with assms(3) rsw show ?thesis by (intro exI [of _ c]) simp
    next
      case False
      with 3 assms(1,8) obtain d where d: "rmode (cmd S d)" "cpu_proc (cpus (ks S) d) = Some q"
        unfolding cpuok_def by blast
      then have "d \<noteq> c" using assms(2) by auto
      with d rm assms(7) show ?thesis by (intro exI [of _ d]) simp
    qed
  next
    case (4 d q)
    show ?case
    proof (cases "d = c")
      case True
      with 4 assms(3,6) show ?thesis by simp
    next
      case False
      with 4 have d: "cmd S d = Switched" by simp
      have q: "cpu_proc (cpus (ks S) d) = Some q" using 4 assms(7) [OF False] by simp
      with d assms(1) have "q < NPROC" "ctxt_ok (ctxt (procs (ks S) q))"
        unfolding cpuok_def using rsw by (metis option.inject)+
      moreover have "q \<noteq> p" using ne [of d] d rsw 4 by auto
      ultimately show ?thesis using assms(9) by simp
    qed
  next
    case (5 d)
    with assms(1) show ?case unfolding cpuok_def by (cases "d = c") auto
  next
    case (6 d)
    with assms(1,10) show ?case unfolding cpuok_def by (cases "d = c") auto
  qed
qed

lemma forkok_goto:
  assumes "forkok S" and "\<And>q. q < NPROC \<Longrightarrow> state (procs (ks S) q) = EMBRYO \<Longrightarrow> state (procs s' q) = EMBRYO"
  shows "forkok (goto c m s' S)"
  using assms by (auto simp: forkok_def)

section \<open>Assembling the invariant\<close>

lemma kst_frame [kst_simps]:
  "cpus (upd p f s) = cpus s" "locks (upd p f s) = locks s" "initproc (upd p f s) = initproc s"
  "ticks (upd p f s) = ticks s"
  "initproc (lk_taken c l s) = initproc s" "initproc (lk_released c l s) = initproc s"
  "d \<noteq> c \<Longrightarrow> cpus (lk_taken c l s) d = cpus s d" "d \<noteq> c \<Longrightarrow> cpus (lk_released c l s) d = cpus s d"
  "procs (set_curproc c po s) = procs s" "initproc (set_curproc c po s) = initproc s"
  "d \<noteq> c \<Longrightarrow> cpus (set_curproc c po s) d = cpus s d"
  "cpu_proc (cpus (set_curproc c po s) c) = po"
  "cpus (wake_all ch s) = cpus s" "cpus (promo s) = cpus s" "initproc (promo s) = initproc s"
  "initproc (wake_all ch s) = initproc s" "nextpid (upd p f s) = nextpid s"
  "nextpid (lk_taken c l s) = nextpid s"
  "l \<noteq> l' \<Longrightarrow> locks (lk_taken c l s) l' = locks s l'" "l \<noteq> l' \<Longrightarrow> locks (lk_released c l s) l' = locks s l'"
  "locks (set_curproc c po s) = locks s" "locks (wake_all ch s) = locks s" "locks (promo s) = locks s"
  by (simp_all add: upd_def lk_taken_def lk_released_def set_curproc_def wake_all_def wake_set_def
      promo_def promote_all_def promote_on_def)

lemma acquire_Ret: "kacquire c l s = Ret s' \<Longrightarrow> locked (locks s l) = 0"
  using acquire_held_by_other [of "locks s l" c "cpus s c"] acquire_held_by_self [of "locks s l" c "cpus s c"]
  by (cases "locked (locks s l) = 0"; cases "holding (locks s l) c")
    (auto simp: kacquire_def holding_def)

lemma bindr_acquire_Ret: "bindr (kacquire c l s) f = Ret r \<Longrightarrow> locked (locks s l) = 0"
  using acquire_Ret by (cases "kacquire c l s") auto

lemma sinv_enter:
  "sinv S \<Longrightarrow> \<not> lmode (cmd S c) \<Longrightarrow> hold S c = [] \<Longrightarrow> locked (locks (ks S) LkPtable) = 0 \<Longrightarrow> may_enter c (ks S)"
  by (simp add: sinv_def lockok_def may_enter_def)

lemma sinv_rep: "sinv S \<Longrightarrow> \<exists>L. plrep {} (ks S) L"
  by (simp add: sinv_def plinv_def)

lemma sinv_hold: "sinv S \<Longrightarrow> mode_hold (cmd S c) (hold S c)"
  by (simp add: sinv_def lockok_def)

lemma sinv_cpu: "sinv S \<Longrightarrow> cpu_ok (cpus (ks S) c)"
  by (simp add: sinv_def lockok_def)

lemma sinv_in:
  assumes "sinv S" and "lmode (cmd S c)" and "hold S c = []"
  shows "in_ptable c (ks S)"
proof -
  have "ncli (cpus (ks S) c) = 1" "cpu_ok (cpus (ks S) c)" "holding (locks (ks S) LkPtable) c"
    using assms by (simp_all add: sinv_def lockok_def)
  then show ?thesis by (simp add: in_ptable_def cpu_ok_def)
qed

text \<open>In the modes of the scheduler and of \<open>wait\<close> the CPU holds the table lock only.\<close>

lemma sinv_strict:
  assumes "sinv S" and "cmd S c \<in> {Sched, Switched, Waiting}"
  shows "in_ptable c (ks S)" and "hold S c = []"
proof -
  show h: "hold S c = []" using sinv_hold [OF assms(1), of c] assms(2) by auto
  show "in_ptable c (ks S)" by (rule sinv_in [OF assms(1) _ h]) (use assms(2) in auto)
qed

lemma sinv_run:
  "sinv S \<Longrightarrow> rmode (cmd S c) \<Longrightarrow>
   \<exists>p<NPROC. cpu_proc (cpus (ks S) c) = Some p \<and> state (procs (ks S) p) = RUNNING"
  by (simp add: sinv_def cpuok_def)

lemma sinv_stay_gen:
  assumes "sinv S" and "locked (locks (ks S) LkPtable) = 0 \<or> lmode (cmd S c)"
    and "plrep {} s' L'" and c: "core s' = core t"
    and "if lmode m then in_ptable c s' else may_enter c s'"
    and "rmode m = rmode (cmd S c)" and "m \<noteq> Switched" and "m \<noteq> Sched"
    and "\<And>d. d \<noteq> c \<Longrightarrow> cpus t d = cpus (ks S) d"
    and "rmode m \<Longrightarrow> cpu_proc (cpus t c) = cpu_proc (cpus (ks S) c)"
    and "fam t" and "memok t"
    and "\<And>p. p < NPROC \<Longrightarrow> (state (procs t p) = RUNNING) = (state (procs (ks S) p) = RUNNING)"
    and "\<And>p. p < NPROC \<Longrightarrow> state (procs (ks S) p) = RUNNING \<Longrightarrow> ctxt (procs t p) = ctxt (procs (ks S) p)"
    and "hold S c = []" and "mode_hold m []" and "\<And>n. locks t (LkOther n) = locks (ks S) (LkOther n)"
    and "forkok ((goto c m s' S)\<lparr>kid := K\<rparr>)"
  shows "sinv ((goto c m s' S)\<lparr>kid := K\<rparr>)"
proof -
  note S = assms(1) [unfolded sinv_def]
  have "plinv s'" using assms(3) by (auto simp: plinv_def)
  moreover have "lockok (goto c m s' S)"
    using S assms(2,5,9,15-17) by (intro lockok_goto) (simp_all add: core_cpus [OF c] core_locks [OF c])
  moreover have "cpuok (goto c m s' S)"
    using S assms by (intro cpuok_stay) (simp_all add: core_cpus [OF c] core_state [OF c] core_ctxt [OF c])
  ultimately show ?thesis using assms(11,12,18) by (simp add: sinv_def fam_core [OF c] memok_core [OF c])
qed

lemma sinv_stay:
  assumes "sinv S" and "locked (locks (ks S) LkPtable) = 0 \<or> lmode (cmd S c)"
    and "plrep {} s' L'" and c: "core s' = core t"
    and "if lmode m then in_ptable c s' else may_enter c s'"
    and "rmode m = rmode (cmd S c)" and "m \<noteq> Switched" and "m \<noteq> Sched"
    and "\<And>d. d \<noteq> c \<Longrightarrow> cpus t d = cpus (ks S) d"
    and "rmode m \<Longrightarrow> cpu_proc (cpus t c) = cpu_proc (cpus (ks S) c)"
    and "fam t" and "memok t"
    and "\<And>p. p < NPROC \<Longrightarrow> (state (procs t p) = RUNNING) = (state (procs (ks S) p) = RUNNING)"
    and "\<And>p. p < NPROC \<Longrightarrow> state (procs (ks S) p) = RUNNING \<Longrightarrow> ctxt (procs t p) = ctxt (procs (ks S) p)"
    and "hold S c = []" and "mode_hold m []" and "\<And>n. locks t (LkOther n) = locks (ks S) (LkOther n)"
    and "\<And>q. q < NPROC \<Longrightarrow> state (procs (ks S) q) = EMBRYO \<Longrightarrow> state (procs t q) = EMBRYO"
  shows "sinv (goto c m s' S)"
proof -
  have K: "(goto c m s' S)\<lparr>kid := kid S\<rparr> = goto c m s' S" by (cases S) simp
  have "forkok (goto c m s' S)"
    using assms(1,18) by (intro forkok_goto) (simp_all add: sinv_def core_state [OF c])
  then have "forkok ((goto c m s' S)\<lparr>kid := kid S\<rparr>)" unfolding K .
  from sinv_stay_gen [OF assms(1-17) this] show ?thesis unfolding K .
qed

lemma sinv_pick:
  assumes "sinv S" and "locked (locks (ks S) LkPtable) = 0 \<or> lmode (cmd S c)"
    and "plrep {} s' L'" and c: "core s' = core t" and "in_ptable c s'"
    and "\<not> rmode (cmd S c)" and "cpu_proc (cpus t c) = Some p" and "p < NPROC"
    and "state (procs (ks S) p) \<noteq> RUNNING" and "ctxt_ok (ctxt (procs t p))"
    and "i = -1 \<or> i = int MAXPRIO"
    and "\<And>d. d \<noteq> c \<Longrightarrow> cpus t d = cpus (ks S) d" and "fam t" and "memok t"
    and "\<And>q. q < NPROC \<Longrightarrow> (state (procs t q) = RUNNING) = (state (procs (ks S) q) = RUNNING \<or> q = p)"
    and "\<And>q. q < NPROC \<Longrightarrow> q \<noteq> p \<Longrightarrow> ctxt (procs t q) = ctxt (procs (ks S) q)"
    and "\<And>q. q < NPROC \<Longrightarrow> state (procs (ks S) q) = EMBRYO \<Longrightarrow> state (procs t q) = EMBRYO"
    and "hold S c = []" and "\<And>n. locks t (LkOther n) = locks (ks S) (LkOther n)"
  shows "sinv ((goto c Switched s' S)\<lparr>sidx := (sidx S)(c := i)\<rparr>)"
proof -
  note S = assms(1) [unfolded sinv_def]
  have "plinv s'" using assms(3) by (auto simp: plinv_def)
  moreover have "lockok (goto c Switched s' S)"
    using S assms(2,5,12,18,19) by (intro lockok_goto) (simp_all add: core_cpus [OF c] core_locks [OF c])
  moreover have "cpuok ((goto c Switched s' S)\<lparr>sidx := (sidx S)(c := i)\<rparr>)"
    using S assms
    by (intro cpuok_pick [of S c s' p]) (simp_all add: core_cpus [OF c] core_state [OF c] core_ctxt [OF c])
  moreover have "forkok (goto c Switched s' S)"
    using S assms by (intro forkok_goto) (simp_all add: core_state [OF c])
  ultimately show ?thesis
    using assms(13,14) by (simp add: sinv_def fam_core [OF c] memok_core [OF c])
qed

lemma sinv_leave:
  assumes "sinv S" and "locked (locks (ks S) LkPtable) = 0 \<or> lmode (cmd S c)"
    and "plrep {} s' L'" and c: "core s' = core t" and "in_ptable c s'"
    and "rmode (cmd S c)" and "cpu_proc (cpus (ks S) c) = Some p"
    and "\<And>d. d \<noteq> c \<Longrightarrow> cpus t d = cpus (ks S) d" and "fam t" and "memok t"
    and "\<And>q. q < NPROC \<Longrightarrow> (state (procs t q) = RUNNING) = (state (procs (ks S) q) = RUNNING \<and> q \<noteq> p)"
    and "\<And>q. q < NPROC \<Longrightarrow> q \<noteq> p \<Longrightarrow> state (procs (ks S) q) = RUNNING \<Longrightarrow> ctxt (procs t q) = ctxt (procs (ks S) q)"
    and "\<And>q. q < NPROC \<Longrightarrow> state (procs (ks S) q) = EMBRYO \<Longrightarrow> state (procs t q) = EMBRYO"
    and "hold S c = []" and "\<And>n. locks t (LkOther n) = locks (ks S) (LkOther n)"
  shows "sinv (goto c Sched s' S)"
proof -
  note S = assms(1) [unfolded sinv_def]
  have "plinv s'" using assms(3) by (auto simp: plinv_def)
  moreover have "lockok (goto c Sched s' S)"
    using S assms(2,5,8,14,15) by (intro lockok_goto) (simp_all add: core_cpus [OF c] core_locks [OF c])
  moreover have "cpuok (goto c Sched s' S)"
    using S assms
    by (intro cpuok_leave [of S c p]) (simp_all add: core_cpus [OF c] core_state [OF c] core_ctxt [OF c])
  moreover have "forkok (goto c Sched s' S)"
    using S assms by (intro forkok_goto) (simp_all add: core_state [OF c])
  ultimately show ?thesis using assms(9,10) by (simp add: sinv_def fam_core [OF c] memok_core [OF c])
qed

text \<open>Steps that only take or give back locks.\<close>

lemma sinv_locks:
  assumes "sinv S" and "procs s' = procs (ks S)" and "initproc s' = initproc (ks S)" and "\<And>L. plrep {} s' L = plrep {} (ks S) L"
    and "\<And>d. d \<noteq> c \<Longrightarrow> cpus s' d = cpus (ks S) d" and "cpu_proc (cpus s' c) = cpu_proc (cpus (ks S) c)"
    and "rmode m = rmode (cmd S c)" and "m \<noteq> Switched" and "m \<noteq> Sched" and "lockok ((goto c m s' S)\<lparr>hold := h\<rparr>)"
  shows "sinv ((goto c m s' S)\<lparr>hold := h\<rparr>)"
proof -
  have "plinv s'" "fam s'" "memok s'" "forkok (goto c m s' S)"
    using assms(1-4) by (simp_all add: sinv_def plinv_def fam_def memok_def forkok_def)
  moreover have "cpuok (goto c m s' S)"
    using assms by (intro cpuok_stay) (simp_all add: sinv_def)
  ultimately show ?thesis using assms(10) by (simp add: sinv_def)
qed

end
