(* ===== verification/Procinv.thy ===== *)
theory Procinv
  imports Procsys
begin

text \<open>
  Every step of the process system keeps its invariant, and an operation that gets the table lock
  returns: no assertion of \<open>src/proc.c\<close> fails in a reachable state.
\<close>

lemma yield_eff_simps [simp]:
  "state (yield_eff t r pr) = RUNNABLE" "parent (yield_eff t r pr) = parent pr"
  "pgdir (yield_eff t r pr) = pgdir pr" "ctxt (yield_eff t r pr) = r"
  by (simp_all add: yield_eff_def)

lemma sleep_eff_simps [simp]:
  "state (sleep_eff t ch r pr) = SLEEPING" "parent (sleep_eff t ch r pr) = parent pr"
  "pgdir (sleep_eff t ch r pr) = pgdir pr" "ctxt (sleep_eff t ch r pr) = r"
  by (simp_all add: sleep_eff_def)

lemma alive_simps [simp]: "alive SLEEPING" "alive RUNNABLE" "alive RUNNING"
  "\<not> alive UNUSED" "\<not> alive EMBRYO" "\<not> alive ZOMBIE"
  by (simp_all add: alive_def)

lemma sinv_fam: "sinv S \<Longrightarrow> fam (ks S)" and sinv_memok: "sinv S \<Longrightarrow> memok (ks S)"
  by (simp_all add: sinv_def)

section \<open>Giving up the CPU\<close>

lemma inv_yield:
  assumes "sinv S" and "cmd S c = User \<and> hold S c = []" and "yield c (ks S) = Ret s'"
  shows "sinv (goto c Sched s' S)"
proof -
  have lk: "locked (locks (ks S) LkPtable) = 0" using assms(3) by (auto simp: yield_def dest: bindr_acquire_Ret)
  have me: "may_enter c (ks S)" using assms(1,2) lk by (intro sinv_enter) simp_all
  obtain L where r: "plrep {} (ks S) L" using sinv_rep [OF assms(1)] by blast
  obtain p where p: "p < NPROC" "cpu_proc (cpus (ks S) c) = Some p" "state (procs (ks S) p) = RUNNING"
    using sinv_run [OF assms(1), of c] assms(2) by auto
  let ?t = "upd p (yield_eff (ticks (ks S)) (InYield (if_flag (cpus (ks S) c)))) (lk_taken c LkPtable (ks S))"
  obtain L' where i: "in_ptable c s'" and r': "plrep {} s' L'" and c: "core s' = core ?t"
    using yield_rep [OF r me p(2,1,3) refl] assms(3) by auto
  have "fam ?t"
    using sinv_fam [OF assms(1)] by (rule fam_map) (auto simp: kst_simps p(3))
  moreover have "memok ?t"
    using sinv_memok [OF assms(1)] by (rule memok_map) (auto simp: kst_simps ctxt_ok_def p(3) split: if_splits)
  ultimately show ?thesis
    using lk p by (intro sinv_leave [OF assms(1) _ r' c i, of p]) (auto simp: assms(2) kst_simps)
qed
text \<open>The state in which a CPU works on the table: it has just taken the lock, or still has it.\<close>

definition entered :: "nat \<Rightarrow> 'm sys \<Rightarrow> 'm kst \<Rightarrow> bool" where
  "entered c S s \<longleftrightarrow>
     lmode (cmd S c) \<and> hold S c = [] \<and> s = ks S
     \<or> may_enter c (ks S) \<and> hold S c = [] \<and> s = lk_taken c LkPtable (ks S)"

lemma entered_facts:
  assumes "sinv S" and "entered c S s"
  shows "in_ptable c s" and "procs s = procs (ks S)" and "initproc s = initproc (ks S)"
    and "d \<noteq> c \<Longrightarrow> cpus s d = cpus (ks S) d" and "cpu_proc (cpus s e) = cpu_proc (cpus (ks S) e)"
    and "plrep {} s L = plrep {} (ks S) L" and "nextpid s = nextpid (ks S)"
    and "locked (locks (ks S) LkPtable) = 0 \<or> lmode (cmd S c)"
    and "hold S c = []" and "locks s (LkOther n) = locks (ks S) (LkOther n)"
  using assms sinv_in [OF assms(1), of c] in_ptable_taken [of c "ks S"]
  by (auto simp: entered_def kst_simps may_enter_def)

lemma inv_sleep_locked:
  assumes "sinv S" and "rmode (cmd S c)" and "entered c S s"
    and "cpu_proc (cpus (ks S) c) = Some p" and "sleep_locked c p ch lko s = Ret s'"
  shows "sinv (goto c Sched s' S)"
proof -
  note e = entered_facts [OF assms(1,3)]
  obtain L where "plrep {} (ks S) L" using sinv_rep [OF assms(1)] by blast
  then have r: "plrep {} s L" by (simp add: e)
  obtain p' where p': "p' < NPROC" "cpu_proc (cpus (ks S) c) = Some p'" "state (procs (ks S) p') = RUNNING"
    using sinv_run [OF assms(1,2)] by auto
  with assms(4) have p: "p < NPROC" "cpu_proc (cpus s c) = Some p" "state (procs s p) = RUNNING"
    by (simp_all add: e)
  let ?t = "upd p (sleep_eff (ticks s) ch (InSleep (intena (cpus s c)) lko)) s"
  obtain L' where i: "in_ptable c s'" and r': "plrep {} s' L'" and c: "core s' = core ?t"
    using sleep_locked_rep [OF r e(1) p(2,1,3)] assms(5) by (metis res.inject)
  have "fam ?t"
    using sinv_fam [OF assms(1)] by (rule fam_map) (auto simp: kst_simps e p(3) [unfolded e])
  moreover have "memok ?t"
    by (rule memok_map [OF sinv_memok [OF assms(1)]]) (auto simp: kst_simps e ctxt_ok_def p(3) [unfolded e] split: if_splits)
  ultimately show ?thesis
    using p assms(2,4) e(8)
    by (intro sinv_leave [OF assms(1) _ r' c i, of p]) (auto simp: kst_simps e)
qed

section \<open>wait\<close>

lemma fam_reap:
  assumes "fam s" and "q < NPROC" and "state (procs s q) = ZOMBIE"
  shows "fam (upd q reap_fields s)"
proof -
  obtain ip where ip: "ip < NPROC" "initproc s = Some ip" "alive (state (procs s ip))"
    and par: "\<And>p. p < NPROC \<Longrightarrow> state (procs s p) \<notin> {UNUSED, EMBRYO} \<Longrightarrow> p \<noteq> ip \<Longrightarrow>
       (\<exists>r<NPROC. parent (procs s p) = Some r \<and> alive (state (procs s r)))"
    and none: "\<And>p. p < NPROC \<Longrightarrow> state (procs s p) \<in> {UNUSED, EMBRYO} \<or> p = ip \<Longrightarrow> parent (procs s p) = None"
    using assms(1) unfolding fam_def by blast
  have al: "alive (state (procs s r)) \<Longrightarrow> r \<noteq> q" for r using assms(3) by auto
  show ?thesis
    unfolding fam_def
  proof (rule exI [of _ ip], intro conjI allI impI, goal_cases)
    case (4 p)
    then have "p \<noteq> q" by (auto simp: procs_upd reap_fields_def)
    with 4 par [of p] al show ?case by (auto simp: procs_upd)
  next
    case (5 p)
    with none [of p] show ?case by (auto simp: procs_upd reap_fields_def)
  qed (use ip al in \<open>auto simp: procs_upd kst_simps\<close>)
qed

lemma fam_mem [simp]: "fam (s\<lparr>mem := m\<rparr>) = fam s" and memok_mem [simp]: "memok (s\<lparr>mem := m\<rparr>) = memok s"
  by (simp_all add: fam_def memok_def)

lemma fam_lk [simp]: "fam (lk_released c l s) = fam s" "fam (lk_taken c l s) = fam s"
  and memok_lk [simp]: "memok (lk_released c l s) = memok s" "memok (lk_taken c l s) = memok s"
  by (simp_all add: fam_def memok_def kst_simps)

lemma entered_fam: "entered c S s \<Longrightarrow> fam s = fam (ks S)" "entered c S s \<Longrightarrow> memok s = memok (ks S)"
  by (auto simp: entered_def)

lemma reap_fields_simps [simp]: "state (reap_fields pr) = UNUSED" "parent (reap_fields pr) = None"
  by (simp_all add: reap_fields_def)

lemma inv_wait_turn:
  assumes "sinv S" and "cmd S c = User \<or> cmd S c = Waiting" and "entered c S s"
    and "wait_turn os c s = Ret (out, s')"
  shows "sinv (goto c (if out = WSleep then Sched else User) s' S)"
proof -
  note e = entered_facts [OF assms(1,3)]
  obtain L where "plrep {} (ks S) L" using sinv_rep [OF assms(1)] by blast
  then have r: "plrep {} s L" by (simp add: e)
  have rm: "rmode (cmd S c)" using assms(2) by auto
  obtain p where p: "p < NPROC" "cpu_proc (cpus s c) = Some p" using sinv_run [OF assms(1) rm] by (auto simp: e)
  show ?thesis
  proof (cases "find (\<lambda>q. parent (procs s q) = Some p) (L LZombie)")
    case (Some q)
    then have "q \<in> set (L LZombie)" by (auto dest: find_Some_in_set)
    then have q: "q < NPROC" "state (procs s q) = ZOMBIE" by (simp_all add: plrep_mem_iff [OF r])
    from assms(4) obtain m1 m2 pd where m: "os_kfree os (kstack (procs s q)) (mem s) = Ret m1"
        "os_freevm os (pgdir (procs s q)) m1 = Ret m2"
      and rp: "reap os c q s = Ret (pd, s')" and out: "out = WReturn pd"
    proof -
      obtain pd where rp: "reap os c q s = Ret (pd, s')" and out: "out = WReturn pd"
        using assms(4) wait_turn_reap [OF r p(2) Some, of os] by (auto simp: res_simps)
      obtain s1 where rm: "removefromlist LZombie (Some q) s = Ret (0, s1)" "core s1 = core s"
        using removefromlist_rep [OF r _ \<open>q \<in> set (L LZombie)\<close>] by auto
      then obtain m1 m2 where "os_kfree os (kstack (procs s q)) (mem s) = Ret m1"
        "os_freevm os (pgdir (procs s q)) m1 = Ret m2"
        using rp by (auto simp: reap_def res_simps core_kstack [OF rm(2)] core_pgdir [OF rm(2)] core_mem [OF rm(2)])
      with that rp out show thesis by blast
    qed
    let ?t = "lk_released c LkPtable (upd q reap_fields (s\<lparr>mem := m2\<rparr>))"
    obtain L' where me: "may_enter c s'" and r': "plrep {} s' L'" and c: "core s' = core ?t"
      using reap_rep [OF r e(1) q m] rp by (metis res.inject prod.inject)
    have "fam ?t" using fam_reap [of "s\<lparr>mem := m2\<rparr>" q] q sinv_fam [OF assms(1)] entered_fam [OF assms(3)] by simp
    moreover have "memok ?t"
      by (rule memok_map [OF sinv_memok [OF assms(1)]]) (auto simp: kst_simps e split: if_splits)
    ultimately have "sinv (goto c User s' S)"
      using q rm me e(8)
      by (intro sinv_stay [OF assms(1) _ r' c]) (auto simp: kst_simps e reap_fields_def)
    with out show ?thesis by simp
  next
    case None
    show ?thesis
    proof (cases "(\<nexists>q. q < NPROC \<and> state (procs s q) \<noteq> UNUSED \<and> parent (procs s q) = Some p) \<or> killed (procs s p)")
      case True
      with wait_turn_none [OF r p(2) e(1) None] assms(4)
      have out: "out = WReturn (-1)" and s': "s' = lk_released c LkPtable s" by auto
      have r': "plrep {} s' L" using r s' by (simp add: kst_simps)
      have "sinv (goto c User s' S)"
        using rm may_enter_released [OF e(1)] e(8) s' assms(1) entered_fam [OF assms(3)]
        by (intro sinv_stay [OF assms(1) _ r' refl]) (auto simp: kst_simps e sinv_fam sinv_memok)
      with out show ?thesis by simp
    next
      case False
      then have "wait_turn os c s = bindr (sleep_locked c p (Some (ChProc p)) (Some LkPtable) s) (\<lambda>s. Ret (WSleep, s))"
        by (intro wait_turn_sleep [OF r p(2) None]) auto
      with assms(4) have out: "out = WSleep"
        and sl: "sleep_locked c p (Some (ChProc p)) (Some LkPtable) s = Ret s'"
        by (auto simp: res_simps)
      have "sinv (goto c Sched s' S)"
        using inv_sleep_locked [OF assms(1) rm assms(3) _ sl] p(2) e(5) by simp
      with out show ?thesis by simp
    qed
  qed
qed

lemma inv_wait:
  assumes "sinv S" and "cmd S c = User \<and> hold S c = []" and "wait os c (ks S) = Ret (out, s')"
  shows "sinv (goto c (if out = WSleep then Sched else User) s' S)"
proof -
  have lk: "locked (locks (ks S) LkPtable) = 0" using assms(3) by (auto simp: wait_def dest: bindr_acquire_Ret)
  have me: "may_enter c (ks S)" using assms(1,2) lk by (intro sinv_enter) simp_all
  then have "wait_turn os c (lk_taken c LkPtable (ks S)) = Ret (out, s')"
    using assms(3) by (simp add: wait_def kacquire_enter)
  with assms(1,2) me show ?thesis by (intro inv_wait_turn) (auto simp: entered_def)
qed

section \<open>exit\<close>

lemma wake_all_alive [simp]: "alive (state (procs (wake_all ch s) q)) = alive (state (procs s q))"
  and wake_all_state_iff [simp]:
    "(state (procs (wake_all ch s) q) = RUNNING) = (state (procs s q) = RUNNING)"
    "(state (procs (wake_all ch s) q) = EMBRYO) = (state (procs s q) = EMBRYO)"
    "(state (procs (wake_all ch s) q) = UNUSED) = (state (procs s q) = UNUSED)"
    "(state (procs (wake_all ch s) q) = ZOMBIE) = (state (procs s q) = ZOMBIE)"
    "(state (procs (wake_all ch s) q) \<in> {SLEEPING, RUNNABLE}) = (state (procs s q) \<in> {SLEEPING, RUNNABLE})"
  and wake_all_fields [simp]: "ctxt (procs (wake_all ch s) q) = ctxt (procs s q)"
    "pgdir (procs (wake_all ch s) q) = pgdir (procs s q)"
  by (auto simp: state_wake_all) (auto simp: wake_all_def wake_set_def)

lemma reparent_on_fields [simp]: "ctxt (procs (reparent_on par A s) q) = ctxt (procs s q)"
    "pgdir (procs (reparent_on par A s) q) = pgdir (procs s q)" "locks (reparent_on par A s) = locks s"
  by (simp_all add: reparent_on_def)

lemma exit_family_procs [simp]:
  "alive (state (procs (exit_family p s) q)) = alive (state (procs s q))"
  "(state (procs (exit_family p s) q) = RUNNING) = (state (procs s q) = RUNNING)"
  "(state (procs (exit_family p s) q) = EMBRYO) = (state (procs s q) = EMBRYO)"
  "(state (procs (exit_family p s) q) = UNUSED) = (state (procs s q) = UNUSED)"
  "(state (procs (exit_family p s) q) \<in> {SLEEPING, RUNNABLE}) = (state (procs s q) \<in> {SLEEPING, RUNNABLE})"
  "ctxt (procs (exit_family p s) q) = ctxt (procs s q)"
  "pgdir (procs (exit_family p s) q) = pgdir (procs s q)"
  "initproc (exit_family p s) = initproc s" "locks (exit_family p s) = locks s"
  unfolding exit_family_def wake_if_def by (simp_all add: kst_simps del: insert_iff)

lemma exit_family_parent:
  "parent (procs (exit_family p s) q) =
     (if q < NPROC \<and> state (procs s q) \<noteq> UNUSED \<and> parent (procs s q) = Some p then initproc s
      else parent (procs s q))"
proof -
  have "parent (procs (reparent_on p A (wake_all ch s)) q) =
      (if q \<in> A \<and> parent (procs s q) = Some p then initproc s else parent (procs s q))" for A ch
    by (simp add: reparent_on_def)
  then show ?thesis by (simp add: exit_family_def wake_if_def)
qed

lemma exit_eff_simps [simp]: "state (exit_eff t r pr) = ZOMBIE" "parent (exit_eff t r pr) = parent pr"
  "pgdir (exit_eff t r pr) = pgdir pr"
  by (simp_all add: exit_eff_def)

text \<open>The children of an exiting process get \<open>initproc\<close> as parent, so nobody is orphaned.\<close>

lemma fam_exit:
  assumes "fam s" and "Some p \<noteq> initproc s" and "p < NPROC" and "state (procs s p) = RUNNING"
  shows "fam (upd p (exit_eff t r) (exit_family p s))"
proof -
  obtain ip where ip: "ip < NPROC" "initproc s = Some ip" "alive (state (procs s ip))"
    and par: "\<And>p. p < NPROC \<Longrightarrow> state (procs s p) \<notin> {UNUSED, EMBRYO} \<Longrightarrow> p \<noteq> ip \<Longrightarrow>
       (\<exists>r<NPROC. parent (procs s p) = Some r \<and> alive (state (procs s r)))"
    and none: "\<And>p. p < NPROC \<Longrightarrow> state (procs s p) \<in> {UNUSED, EMBRYO} \<or> p = ip \<Longrightarrow> parent (procs s p) = None"
    using assms(1) unfolding fam_def by blast
  have pip: "p \<noteq> ip" using assms(2) ip(2) by simp
  let ?t = "upd p (exit_eff t r) (exit_family p s)"
  have st: "alive (state (procs ?t q)) \<longleftrightarrow> alive (state (procs s q)) \<and> q \<noteq> p" for q
    by (simp add: procs_upd)
  have ue: "(state (procs ?t q) \<in> {UNUSED, EMBRYO}) = (state (procs s q) \<in> {UNUSED, EMBRYO})" for q
    using assms(4) by (simp add: procs_upd)
  have pa: "parent (procs ?t q) = parent (procs (exit_family p s) q)" for q by (simp add: procs_upd)
  show ?thesis
    unfolding fam_def st ue pa
  proof (rule exI [of _ ip], intro conjI allI impI, goal_cases)
    case (5 q)
    show ?case
    proof (cases "parent (procs s q) = Some p")
      case True
      with 5 ip pip show ?thesis by (intro exI [of _ ip]) (auto simp: exit_family_parent)
    next
      case False
      with 5 par [of q] show ?thesis by (auto simp: exit_family_parent)
    qed
  next
    case (6 q)
    with none [of q] show ?case by (auto simp: exit_family_parent)
  qed (use ip pip in \<open>simp_all add: kst_simps\<close>)
qed

lemma inv_exit:
  assumes "sinv S" and "cmd S c = User \<and> hold S c = []" and "cpu_proc (cpus (ks S) c) = Some p"
    and "Some p \<noteq> initproc (ks S)" and "exit_locked c p (ks S) = Ret s'"
  shows "sinv (goto c Sched s' S)"
proof -
  have lk: "locked (locks (ks S) LkPtable) = 0" using assms(5) by (auto simp: exit_locked_def dest: bindr_acquire_Ret)
  have me: "may_enter c (ks S)" using assms(1,2) lk by (intro sinv_enter) simp_all
  obtain L where r: "plrep {} (ks S) L" using sinv_rep [OF assms(1)] by blast
  have p: "p < NPROC" "state (procs (ks S) p) = RUNNING"
    using sinv_run [OF assms(1), of c] assms(2,3) by auto
  let ?t = "upd p (exit_eff (ticks (ks S)) (InExit (if_flag (cpus (ks S) c)))) (exit_family p (lk_taken c LkPtable (ks S)))"
  obtain L' where i: "in_ptable c s'" and r': "plrep {} s' L'" and c: "core s' = core ?t"
    using exit_locked_rep [OF r me assms(3) p] assms(5) by (metis res.inject)
  have "fam ?t"
    using sinv_fam [OF assms(1)] assms(4) p by (intro fam_exit) (simp_all add: kst_simps)
  moreover have "memok ?t"
    by (rule memok_map [OF sinv_memok [OF assms(1)]])
      (auto simp: kst_simps simp del: insert_iff split: if_splits)
  ultimately show ?thesis
    using lk p assms(2,3) by (intro sinv_leave [OF assms(1) _ r' c i, of p]) (auto simp: kst_simps)
qed

section \<open>Operations that only change other processes\<close>

lemma inv_wakeup:
  assumes "sinv S" and "cmd S c = User \<or> cmd S c = Idle" and "wakeup c ch (ks S) = Ret s'"
  shows "sinv (goto c (cmd S c) s' S)"
proof -
  note S = assms(1) [unfolded sinv_def]
  have nl: "\<not> lmode (cmd S c)" using assms(2) by auto
  have lk: "locked (locks (ks S) LkPtable) = 0" using assms(3) by (auto simp: wakeup_def dest: bindr_acquire_Ret)
  obtain L where r: "plrep {} (ks S) L" using sinv_rep [OF assms(1)] by blast
  let ?t = "lk_released c LkPtable (wake_all ch (lk_taken c LkPtable (ks S)))"
  obtain L' where r': "plrep {} s' L'" and c: "core s' = core ?t"
    using wakeup_any [OF r lk sinv_cpu [OF assms(1)]] assms(3) by (metis res.inject)
  note eq = core_cpus [OF c] core_locks [OF c] core_state [OF c] core_ctxt [OF c]
  have "fam ?t"
    by (rule fam_map [OF sinv_fam [OF assms(1)]]) (auto simp: kst_simps)
  then have "fam s'" by (simp add: fam_core [OF c])
  moreover have "memok ?t"
    by (rule memok_map [OF sinv_memok [OF assms(1)]]) (auto simp: kst_simps simp del: insert_iff)
  then have "memok s'" by (simp add: memok_core [OF c])
  moreover have "cpuok (goto c (cmd S c) s' S)"
    using S assms(2) by (intro cpuok_stay) (auto simp: eq kst_simps)
  moreover have "forkok (goto c (cmd S c) s' S)"
    using S by (intro forkok_goto) (simp_all add: eq kst_simps)
  moreover have "lockok ((goto c (cmd S c) s' S)\<lparr>hold := (hold S)(c := hold S c)\<rparr>)"
  proof (rule lockok_step)
    have n: "ncli (cpus (ks S) c) = int (length (hold S c))" using S nl by (simp add: lockok_def)
    show "ncli (cpus s' c) = int (length (hold S c)) + (if lmode (cmd S c) then 1 else 0)"
      using n nl unfolding eq by (simp add: lk_released_def) (simp add: wake_all_def wake_set_def lk_taken_def)
    show "cpu_ok (cpus s' c)"
      using n unfolding eq cpu_ok_def by (simp add: lk_released_def) (simp add: wake_all_def wake_set_def lk_taken_def)
    show "(locked (locks (ks S) LkPtable) = 0 \<or> lmode (cmd S c)) \<and>
           (if lmode (cmd S c) then holding (locks s' LkPtable) c else locked (locks s' LkPtable) = 0)
         \<or> locks s' LkPtable = locks (ks S) LkPtable \<and> lmode (cmd S c) = lmode (cmd S c)"
      using lk nl unfolding eq by (simp add: lk_released_def)
  qed (use S in \<open>auto simp: lockok_def eq kst_simps\<close>)
  ultimately show ?thesis using r' by (simp add: sinv_def plinv_def) blast
qed

section \<open>Other locks\<close>

lemma inv_lock:
  assumes "sinv S" and "cmd S c = User \<or> cmd S c = Idle \<or> (\<exists>n. cmd S c = Relock n)"
    and "kacquire c (LkOther n) (ks S) = Ret s'" and "m = (if cmd S c = Idle then Idle else User)"
  shows "sinv ((goto c m s' S)\<lparr>hold := (hold S)(c := n # hold S c)\<rparr>)"
proof -
  have lk: "locked (locks (ks S) (LkOther n)) = 0" by (rule acquire_Ret [OF assms(3)])
  have s': "s' = lk_taken c (LkOther n) (ks S)" using assms(3) by (simp add: kacquire_free [OF lk])
  have nl: "\<not> lmode (cmd S c)" using assms(2) by auto
  have L: "lockok S" using assms(1) by (simp add: sinv_def)
  then have nh: "n \<notin> set (hold S c)" using lk unfolding lockok_def holding_def by fastforce
  have "lockok ((goto c m s' S)\<lparr>hold := (hold S)(c := n # hold S c)\<rparr>)"
  proof (rule lockok_step [OF L])
    show "cpu_ok (cpus s' c)" using sinv_cpu [OF assms(1), of c] by (simp add: s' lk_taken_def)
    show "ncli (cpus s' c) = int (length (n # hold S c)) + (if lmode m then 1 else 0)"
      using L nl assms(4) by (auto simp: lockok_def s' lk_taken_def)
    show "holding (locks s' (LkOther n')) c" if "n' \<in> set (n # hold S c)" for n'
      using that L by (auto simp: lockok_def s' lk_taken_def holding_def)
  qed (use L nh nl lk assms(4) in \<open>auto simp: lockok_def s' kst_simps\<close>)
  then show ?thesis
    using assms(1,2,4) by (intro sinv_locks) (auto simp: s' kst_simps)
qed

lemma inv_unlock:
  assumes "sinv S" and "n \<in> set (hold S c)" and "krelease c (LkOther n) (ks S) = Ret s'"
    and "mode_hold m (remove1 n (hold S c))" and "lmode m = lmode (cmd S c)" and "rmode m = rmode (cmd S c)"
    and "m \<noteq> Switched" and "m \<noteq> Sched"
  shows "sinv ((goto c m s' S)\<lparr>hold := (hold S)(c := remove1 n (hold S c))\<rparr>)"
proof -
  have L: "lockok S" using assms(1) by (simp add: sinv_def)
  have nc: "ncli (cpus (ks S) c) = int (length (hold S c)) + (if lmode (cmd S c) then 1 else 0)"
    and d: "distinct (hold S c)" using L by (simp_all add: lockok_def)
  have len: "length (hold S c) = Suc (length (remove1 n (hold S c)))"
    using assms(2) length_pos_if_in_set [OF assms(2)] by (simp add: length_remove1)
  have s': "s' = lk_released c (LkOther n) (ks S)"
    using assms(3) krelease_held [of "ks S" "LkOther n" c] L assms(2) nc len by (simp add: lockok_def)
  have "lockok ((goto c m s' S)\<lparr>hold := (hold S)(c := remove1 n (hold S c))\<rparr>)"
  proof (rule lockok_step [OF L])
    show "cpu_ok (cpus s' c)" using nc len by (auto simp: s' lk_released_def cpu_ok_def)
    show "ncli (cpus s' c) = int (length (remove1 n (hold S c))) + (if lmode m then 1 else 0)"
      using nc len assms(5) by (simp add: s' lk_released_def)
    show "holding (locks s' (LkOther k)) c" if "k \<in> set (remove1 n (hold S c))" for k
    proof -
      have "k \<noteq> n" "k \<in> set (hold S c)" using that d by auto
      with L show ?thesis by (auto simp: lockok_def s' kst_simps)
    qed
    show "locks s' (LkOther k) = locks (ks S) (LkOther k)" if "k \<notin> set (hold S c)" for k
      using that assms(2) by (cases "k = n") (simp_all add: s' kst_simps)
  qed (use d assms(2,4,5) in \<open>auto simp: s' kst_simps\<close>)
  then show ?thesis
    using assms(1,6-8) by (intro sinv_locks) (auto simp: s' kst_simps)
qed

section \<open>Falling asleep\<close>

lemma inv_begin_sleep:
  assumes "sinv S" and "cmd S c = User"
    and "lko = None \<and> hold S c = [] \<or> (\<exists>n. lko = Some (LkOther n) \<and> hold S c = [n])"
  shows "sinv (goto c (Falling ch lko (sleep_parts lko)) (ks S) S)"
proof -
  let ?m = "Falling ch lko (sleep_parts lko)"
  have L: "lockok S" using assms(1) by (simp add: sinv_def)
  have m: "mode_hold ?m (hold S c)" "\<not> lmode ?m" using assms(3) by (auto simp: mode_hold_def sleep_parts_def)
  have "lockok ((goto c ?m (ks S) S)\<lparr>hold := (hold S)(c := hold S c)\<rparr>)"
    using L m assms(2) by (intro lockok_step [OF L]) (simp_all add: lockok_def)
  from sinv_locks [OF assms(1) _ _ _ _ _ _ _ _ this] assms(2) show ?thesis by simp
qed

lemma inv_fall:
  assumes "sinv S" and "cmd S c = Falling ch lko (x # xs)" and "cpu_proc (cpus (ks S) c) = Some p"
    and "run_part c p ch lko x (ks S) = Ret s'"
  shows "sinv ((goto c (if xs = [] then Sched else Falling ch lko xs) s' S)
       \<lparr>hold := (case x of ReleaseLock (LkOther n) \<Rightarrow> (hold S)(c := remove1 n (hold S c)) | _ \<Rightarrow> hold S)\<rparr>)"
proof -
  have L: "lockok S" using assms(1) by (simp add: sinv_def)
  have mh: "mode_hold (Falling ch lko (x # xs)) (hold S c)" using sinv_hold [OF assms(1), of c] assms(2) by simp
  show ?thesis
  proof (cases x)
    case AcquireTable
    let ?m = "Falling ch lko xs"
    have xs: "xs \<noteq> []" "AcquireTable \<notin> set xs" "mode_hold ?m (hold S c)"
      using mh by (auto simp: mode_hold_def AcquireTable)
    have aq: "kacquire c LkPtable (ks S) = Ret s'" using assms(4) by (simp add: AcquireTable)
    have lk: "locked (locks (ks S) LkPtable) = 0" by (rule acquire_Ret [OF aq])
    have s': "s' = lk_taken c LkPtable (ks S)" using aq by (simp add: kacquire_free [OF lk])
    have "lockok ((goto c ?m s' S)\<lparr>hold := (hold S)(c := hold S c)\<rparr>)"
    proof (rule lockok_step [OF L])
      show "cpu_ok (cpus s' c)" using sinv_cpu [OF assms(1), of c] by (simp add: s' lk_taken_def)
      show "ncli (cpus s' c) = int (length (hold S c)) + (if lmode ?m then 1 else 0)"
        using L assms(2) xs(2) by (auto simp: lockok_def s' lk_taken_def AcquireTable)
      show "(locked (locks (ks S) LkPtable) = 0 \<or> lmode (cmd S c)) \<and>
           (if lmode ?m then holding (locks s' LkPtable) c else locked (locks s' LkPtable) = 0)
         \<or> locks s' LkPtable = locks (ks S) LkPtable \<and> lmode ?m = lmode (cmd S c)"
        using lk xs(2) by (simp add: s' lk_taken_def holding_def)
    qed (use L xs in \<open>auto simp: lockok_def s' kst_simps\<close>)
    from sinv_locks [OF assms(1) _ _ _ _ _ _ _ _ this] assms(2) xs(1) show ?thesis
      by (simp add: s' kst_simps AcquireTable)
  next
    case (ReleaseLock l)
    then obtain n where n: "l = LkOther n" "hold S c = [n]" "xs = [Block]" "lko = Some (LkOther n)"
      using mh by (auto simp: mode_hold_def)
    with inv_unlock [OF assms(1), of n c s' "Falling ch lko xs"] assms(2,4) ReleaseLock show ?thesis
      by (simp add: mode_hold_def)
  next
    case Block
    then have h: "hold S c = []" "xs = []" using mh by (auto simp: mode_hold_def)
    have e: "entered c S (ks S)" using assms(2) h Block by (simp add: entered_def)
    have "sinv (goto c Sched s' S)"
      using inv_sleep_locked [OF assms(1) _ e assms(3)] assms(2,4) Block by simp
    moreover have "(goto c Sched s' S)\<lparr>hold := hold S\<rparr> = goto c Sched s' S" by (cases S) simp
    ultimately show ?thesis using h Block by simp
  qed
qed

section \<open>kill and setpriority\<close>

lemma kill_eff_simps [simp]:
  "alive (state (kill_eff pr)) = alive (state pr)" "(state (kill_eff pr) = RUNNING) = (state pr = RUNNING)"
  "(state (kill_eff pr) = EMBRYO) = (state pr = EMBRYO)" "(state (kill_eff pr) = UNUSED) = (state pr = UNUSED)"
  "(state (kill_eff pr) \<in> {SLEEPING, RUNNABLE}) = (state pr \<in> {SLEEPING, RUNNABLE})"
  "parent (kill_eff pr) = parent pr" "pgdir (kill_eff pr) = pgdir pr" "ctxt (kill_eff pr) = ctxt pr"
  by (auto simp: kill_eff_def)

lemma inv_kill:
  assumes "sinv S" and "cmd S c = User \<and> hold S c = []" and "kill c pdi (ks S) = Ret (rc, s')"
  shows "sinv (goto c User s' S)"
proof -
  have lk: "locked (locks (ks S) LkPtable) = 0" using assms(3) by (auto simp: kill_def dest: bindr_acquire_Ret)
  have me: "may_enter c (ks S)" using assms(1,2) lk by (intro sinv_enter) simp_all
  obtain L where r: "plrep {} (ks S) L" using sinv_rep [OF assms(1)] by blast
  show ?thesis
  proof (rule kill_rep [OF r me, of pdi])
    fix q s1 L1 assume k: "kill c pdi (ks S) = Ret (0, s1)" "live_pid (word_of_int pdi) (ks S) q"
      "may_enter c s1" "plrep {} s1 L1"
      "core s1 = core (lk_released c LkPtable (upd q kill_eff (lk_taken c LkPtable (ks S))))" (is "_ = core ?t")
    then have s': "s' = s1" using assms(3) by simp
    have "fam ?t" by (rule fam_map [OF sinv_fam [OF assms(1)]]) (auto simp: kst_simps)
    moreover have "memok ?t"
      by (rule memok_map [OF sinv_memok [OF assms(1)]]) (auto simp: kst_simps kill_eff_def split: if_splits)
    ultimately show ?thesis
      unfolding s' using lk k(3) assms(2) by (intro sinv_stay [OF assms(1) _ k(4,5)]) (auto simp: kst_simps)
  next
    let ?t = "lk_released c LkPtable (lk_taken c LkPtable (ks S))"
    assume "kill c pdi (ks S) = Ret (-1, ?t)"
    then have s': "s' = ?t" using assms(3) by simp
    have "plrep {} ?t L" using r by (simp add: kst_simps)
    then show ?thesis
      unfolding s' using lk may_enter_released [OF in_ptable_taken [OF me]] assms(1,2)
      by (intro sinv_stay [OF assms(1) _ _ refl]) (auto simp: kst_simps sinv_fam sinv_memok)
  qed
qed

lemma setprio_fields [simp]: "parent (setprio v pr) = parent pr" "pgdir (setprio v pr) = pgdir pr"
  "ctxt (setprio v pr) = ctxt pr"
  by (simp_all add: setprio_def)

lemma setpriority_range:
  assumes "may_enter c s" and "pdi < 0 \<or> 32767 < pdi \<or> prio < 0 \<or> int MAXPRIO < prio"
  shows "\<exists>rc. setpriority c pdi prio s = Ret (rc, lk_released c LkPtable (lk_taken c LkPtable s))"
proof -
  have "\<not> holding (locks s LkPtable) c" using assms(1) by (simp add: may_enter_def holding_def)
  then show ?thesis
    using assms(2) kacquire_enter [OF assms(1)] krelease_in [OF in_ptable_taken [OF assms(1)]]
    by (auto simp: setpriority_def)
qed

lemma inv_touched:
  assumes "sinv S" and "cmd S c = User \<and> hold S c = []" and "may_enter c (ks S)"
  shows "sinv (goto c User (lk_released c LkPtable (lk_taken c LkPtable (ks S))) S)"
proof -
  let ?t = "lk_released c LkPtable (lk_taken c LkPtable (ks S))"
  obtain L where r: "plrep {} (ks S) L" using sinv_rep [OF assms(1)] by blast
  then have r': "plrep {} ?t L" by (simp add: kst_simps)
  show ?thesis
    using may_enter_released [OF in_ptable_taken [OF assms(3)]] assms
    by (intro sinv_stay [OF assms(1) _ r' refl]) (auto simp: kst_simps sinv_fam sinv_memok may_enter_def)
qed

lemma inv_setpriority:
  assumes "sinv S" and "cmd S c = User \<and> hold S c = []" and "setpriority c pdi prio (ks S) = Ret (rc, s')"
  shows "sinv (goto c User s' S)"
proof -
  have nh: "\<not> holding (locks (ks S) LkPtable) c"
  proof
    assume h: "holding (locks (ks S) LkPtable) c"
    then have "\<not> (\<forall>d. \<not> lmode (cmd S d))" using assms(1) by (auto simp: sinv_def lockok_def holding_def)
    then obtain d where d: "lmode (cmd S d)" by blast
    then have "holding (locks (ks S) LkPtable) d" using assms(1) by (simp add: sinv_def lockok_def)
    with h have "d = c" by (simp add: holding_def)
    with d assms(2) show False by simp
  qed
  then have lk: "locked (locks (ks S) LkPtable) = 0"
    using assms(3) by (auto simp: setpriority_def dest: bindr_acquire_Ret)
  have me: "may_enter c (ks S)" using assms(1,2) lk by (intro sinv_enter) simp_all
  obtain L where r: "plrep {} (ks S) L" using sinv_rep [OF assms(1)] by blast
  show ?thesis
  proof (cases "pdi < 0 \<or> 32767 < pdi \<or> prio < 0 \<or> int MAXPRIO < prio")
    case True
    then have "s' = lk_released c LkPtable (lk_taken c LkPtable (ks S))"
      using setpriority_range [OF me True] assms(3) by auto
    with inv_touched [OF assms(1,2) me] show ?thesis by simp
  next
    case False
    then have rg: "0 \<le> pdi" "pdi \<le> 32767" "0 \<le> prio" "prio \<le> int MAXPRIO" by auto
    show ?thesis
    proof (rule setpriority_rep [OF r me rg])
      fix q s1 L1 assume k: "setpriority c pdi prio (ks S) = Ret (0, s1)"
        "may_enter c s1" "plrep {} s1 L1"
        "core s1 = core (lk_released c LkPtable (upd q (setprio (word_of_int prio)) (lk_taken c LkPtable (ks S))))"
        (is "_ = core ?t")
      then have s': "s' = s1" using assms(3) by simp
      have "fam ?t" by (rule fam_map [OF sinv_fam [OF assms(1)]]) (auto simp: kst_simps)
      moreover have "memok ?t"
        by (rule memok_map [OF sinv_memok [OF assms(1)]]) (auto simp: kst_simps)
      ultimately show ?thesis
        unfolding s' using lk k(2) assms(2) by (intro sinv_stay [OF assms(1) _ k(3,4)]) (auto simp: kst_simps)
    qed (use assms(3) inv_touched [OF assms(1,2) me] in auto)
  qed
qed

section \<open>fork\<close>

lemma inv_take_none:
  assumes "sinv S" and "cmd S c = User \<and> hold S c = []" and "allocproc_take c (ks S) = Ret (None, s')"
  shows "sinv (goto c User s' S)"
proof -
  have lk: "locked (locks (ks S) LkPtable) = 0" using assms(3) by (auto simp: allocproc_take_def dest: bindr_acquire_Ret)
  have me: "may_enter c (ks S)" using assms(1,2) lk by (intro sinv_enter) simp_all
  obtain L where r: "plrep {} (ks S) L" using sinv_rep [OF assms(1)] by blast
  have "L LFree = []"
  proof (rule ccontr)
    assume "L LFree \<noteq> []"
    then obtain q qs where L: "L LFree = q # qs" by (cases "L LFree") auto
    obtain s1 where "allocproc_take c (ks S) = Ret (Some q, s1)"
      using allocproc_take_rep [OF r me L] by blast
    with assms(3) show False by simp
  qed
  with allocproc_take_none [OF r me] assms(3) inv_touched [OF assms(1,2) me] show ?thesis by simp
qed

lemma alloc_eff_simps [simp]: "state (alloc_eff n pr) = EMBRYO" "parent (alloc_eff n pr) = parent pr"
  by (simp_all add: alloc_eff_def)

lemma inv_take:
  assumes "sinv S" and "cmd S c = User \<and> hold S c = []" and "allocproc_take c (ks S) = Ret (Some np, s')"
    and "kid S p = None"
  shows "sinv ((goto c User s' S)\<lparr>kid := (kid S)(p := Some np)\<rparr>)"
proof -
  have lk: "locked (locks (ks S) LkPtable) = 0" using assms(3) by (auto simp: allocproc_take_def dest: bindr_acquire_Ret)
  have me: "may_enter c (ks S)" using assms(1,2) lk by (intro sinv_enter) simp_all
  obtain L where r: "plrep {} (ks S) L" using sinv_rep [OF assms(1)] by blast
  obtain q qs where L: "L LFree = q # qs"
    using allocproc_take_none [OF r me] assms(3) by (cases "L LFree") auto
  let ?t = "\<lambda>p. lk_released c LkPtable
           ((upd p (alloc_eff (nextpid (ks S))) (lk_taken c LkPtable (ks S)))\<lparr>nextpid := nextpid (ks S) + 1\<rparr>)"
  obtain s1 L1 where "allocproc_take c (ks S) = Ret (Some q, s1)" "may_enter c s1" "plrep {} s1 L1" "core s1 = core (?t q)"
    using allocproc_take_rep [OF r me L] by blast
  then have me1: "may_enter c s'" and r1: "plrep {} s' L1" and c1: "core s' = core (?t np)" and q: "q = np"
    using assms(3) by auto
  have "np \<in> set (L LFree)" using L q by simp
  then have np: "np < NPROC" "state (procs (ks S) np) = UNUSED" by (simp_all add: plrep_mem_iff [OF r])
  have st: "state (procs s' p) = (if p = np then EMBRYO else state (procs (ks S) p))" for p
    using core_state [OF c1, of p] by (simp add: kst_simps)
  have F: "forkok S" using assms(1) by (simp add: sinv_def)
  then have "kid S d \<noteq> Some np" for d using np(2) by (force simp: forkok_def)
  with F np st have "forkok ((goto c User s' S)\<lparr>kid := (kid S)(p := Some np)\<rparr>)"
    by (auto simp: forkok_def split: if_splits)
  moreover have "fam (?t np)"
    by (rule fam_map [OF sinv_fam [OF assms(1)]]) (auto simp: kst_simps np)
  moreover have "memok (?t np)"
    by (rule memok_map [OF sinv_memok [OF assms(1)]]) (auto simp: kst_simps split: if_splits)
  ultimately show ?thesis
    using lk me1 assms(2) np by (intro sinv_stay_gen [OF assms(1) _ r1 c1]) (auto simp: kst_simps)
qed

lemma forkok_free:
  assumes "forkok S" and "kid S p = Some np"
    and "\<And>q. q \<noteq> np \<Longrightarrow> state (procs s' q) = state (procs (ks S) q)"
  shows "forkok ((goto c m s' S)\<lparr>kid := (kid S)(p := None)\<rparr>)"
proof -
  have "q \<noteq> np" if "d \<noteq> p" "kid S d = Some q" for d q using assms(1,2) that unfolding forkok_def by blast
  then show ?thesis using assms(1,3) by (auto simp: forkok_def)
qed

lemma inv_fail:
  assumes "sinv S" and "cmd S c = User \<and> hold S c = []" and "embryo_to_free msg c np (ks S) = Ret s'"
    and "kid S p = Some np"
  shows "sinv ((goto c User s' S)\<lparr>kid := (kid S)(p := None)\<rparr>)"
proof -
  have lk: "locked (locks (ks S) LkPtable) = 0" using assms(3) by (auto simp: embryo_to_free_def dest: bindr_acquire_Ret)
  have me: "may_enter c (ks S)" using assms(1,2) lk by (intro sinv_enter) simp_all
  obtain L where r: "plrep {} (ks S) L" using sinv_rep [OF assms(1)] by blast
  have np: "np < NPROC" "state (procs (ks S) np) = EMBRYO"
    using assms(1,4) unfolding sinv_def forkok_def by blast+
  let ?t = "lk_released c LkPtable (upd np (state_update (\<lambda>_. UNUSED)) (lk_taken c LkPtable (ks S)))"
  obtain L' where i: "may_enter c s'" and r': "plrep {} s' L'" and c: "core s' = core ?t"
    using embryo_to_free_rep [OF r me np] assms(3) by (metis res.inject)
  have "fam ?t" by (rule fam_map [OF sinv_fam [OF assms(1)]]) (auto simp: kst_simps np)
  moreover have "memok ?t"
    by (rule memok_map [OF sinv_memok [OF assms(1)]]) (auto simp: kst_simps split: if_splits)
  moreover have "forkok ((goto c User s' S)\<lparr>kid := (kid S)(p := None)\<rparr>)"
    using assms(1,4) by (intro forkok_free [where np = np]) (simp_all add: sinv_def core_state [OF c] kst_simps)
  ultimately show ?thesis
    using lk i assms(2) np by (intro sinv_stay_gen [OF assms(1) _ r' c]) (auto simp: kst_simps)
qed

lemma fork_fill_simps [simp]:
  "state (fork_fill p k pg s pr) = state pr" "priority (fork_fill p k pg s pr) = DEFAULT_PRIORITY"
  "parent (fork_fill p k pg s pr) = Some p" "pgdir (fork_fill p k pg s pr) = Some pg"
  "ctxt (fork_fill p k pg s pr) = AtForkret" "pnext (fork_fill p k pg s pr) = pnext pr"
  by (simp_all add: fork_fill_def fork_copy_def proc_setup_def)

lemma fam_fork:
  assumes "fam s" and "np < NPROC" and "state (procs s np) = EMBRYO" and "p < NPROC" and "alive (state (procs s p))"
    and "state (f (procs s np)) = RUNNABLE" and "parent (f (procs s np)) = Some p"
  shows "fam (upd np f s)"
proof -
  obtain ip where ip: "ip < NPROC" "initproc s = Some ip" "alive (state (procs s ip))"
    and par: "\<And>p. p < NPROC \<Longrightarrow> state (procs s p) \<notin> {UNUSED, EMBRYO} \<Longrightarrow> p \<noteq> ip \<Longrightarrow>
       (\<exists>r<NPROC. parent (procs s p) = Some r \<and> alive (state (procs s r)))"
    and none: "\<And>p. p < NPROC \<Longrightarrow> state (procs s p) \<in> {UNUSED, EMBRYO} \<or> p = ip \<Longrightarrow> parent (procs s p) = None"
    using assms(1) unfolding fam_def by blast
  have al: "alive (state (procs (upd np f s) r))" if "alive (state (procs s r))" for r
    using that assms(6) by (simp add: procs_upd)
  have ne: "ip \<noteq> np" using ip(3) assms(3) by auto
  show ?thesis
    unfolding fam_def
  proof (rule exI [of _ ip], intro conjI allI impI, goal_cases)
    case (4 q)
    show ?case
    proof (cases "q = np")
      case True
      with al [OF assms(5)] assms(4,7) show ?thesis by (auto simp: procs_upd)
    next
      case False
      with 4 obtain r where "r < NPROC" "parent (procs s q) = Some r" "alive (state (procs s r))"
        using par [of q] by (auto simp: procs_upd)
      with False al [of r] show ?thesis by (auto simp: procs_upd)
    qed
  next
    case (5 q)
    with none [of q] assms(6) ne show ?case by (auto simp: procs_upd split: if_splits)
  qed (use ip ne in \<open>simp_all add: kst_simps\<close>)
qed

lemma inv_fork_done:
  assumes "sinv S" and "cmd S c = User \<and> hold S c = []" and "cpu_proc (cpus (ks S) c) = Some p"
    and "fork_ready c np (upd np (fork_fill p k pg (ks S)) (ks S)) = Ret s'" and "kid S p = Some np"
  shows "sinv ((goto c User s' S)\<lparr>kid := (kid S)(p := None)\<rparr>)"
proof -
  let ?f = "fork_fill p k pg (ks S)"
  let ?s = "upd np ?f (ks S)"
  have lk: "locked (locks (ks S) LkPtable) = 0"
    using assms(4) by (auto simp: fork_ready_def kst_simps dest: bindr_acquire_Ret)
  have "may_enter c (ks S)" using assms(1,2) lk by (intro sinv_enter) simp_all
  then have me: "may_enter c ?s" by (simp add: may_enter_def kst_simps)
  obtain L where r: "plrep {} (ks S) L" using sinv_rep [OF assms(1)] by blast
  have np: "np < NPROC" "state (procs (ks S) np) = EMBRYO"
    using assms(1,5) unfolding sinv_def forkok_def by blast+
  have p: "p < NPROC" "state (procs (ks S) p) = RUNNING" using sinv_run [OF assms(1), of c] assms(2,3) by auto
  have r1: "plrep {} ?s L"
    using r by (rule plrep_upd_same_home) (simp_all add: np DEFAULT_PRIORITY_def)
  have np1: "state (procs ?s np) = EMBRYO" using np by (simp add: procs_upd)
  let ?t = "lk_released c LkPtable (upd np (state_update (\<lambda>_. RUNNABLE)) (lk_taken c LkPtable ?s))"
  obtain L' where i: "may_enter c s'" and r': "plrep {} s' L'" and c: "core s' = core ?t"
    using fork_ready_rep [OF r1 me np(1) np1 refl] assms(4) by (metis res.inject)
  have "fam (upd np (\<lambda>pr. (?f pr)\<lparr>state := RUNNABLE\<rparr>) (ks S))"
    using sinv_fam [OF assms(1)] np p by (intro fam_fork) simp_all
  then have "fam ?t" by (rule fam_map) (auto simp: kst_simps)
  moreover have "memok ?t"
    by (rule memok_map [OF sinv_memok [OF assms(1)]]) (auto simp: kst_simps ctxt_ok_def split: if_splits)
  moreover have "forkok ((goto c User s' S)\<lparr>kid := (kid S)(p := None)\<rparr>)"
    using assms(1,5) by (intro forkok_free [where np = np]) (simp_all add: sinv_def core_state [OF c] kst_simps)
  ultimately show ?thesis
    using lk i assms(2) np by (intro sinv_stay_gen [OF assms(1) _ r' c]) (auto simp: kst_simps)
qed

section \<open>Resuming\<close>

lemma inv_release:
  assumes "sinv S" and "cmd S c = Switched" and "in_ptable c s" and "plrep {} s L"
    and "\<And>p. state (procs s p) = state (procs (ks S) p) \<and> parent (procs s p) = parent (procs (ks S) p)
           \<and> pgdir (procs s p) = pgdir (procs (ks S) p) \<and> ctxt (procs s p) = ctxt (procs (ks S) p)"
    and "initproc s = initproc (ks S)"
    and "\<And>d. d \<noteq> c \<Longrightarrow> cpus s d = cpus (ks S) d" and "cpu_proc (cpus s c) = cpu_proc (cpus (ks S) c)"
    and "\<And>n. locks s (LkOther n) = locks (ks S) (LkOther n)"
  shows "krelease c LkPtable s = Ret (lk_released c LkPtable s)"
    and "sinv (goto c User (lk_released c LkPtable s) S)" and "sinv (goto c (Relock n) (lk_released c LkPtable s) S)" and "sinv (goto c Waiting s S)"
proof -
  have f: "state (procs s p) = state (procs (ks S) p)" "parent (procs s p) = parent (procs (ks S) p)"
    "pgdir (procs s p) = pgdir (procs (ks S) p)" "ctxt (procs s p) = ctxt (procs (ks S) p)" for p
    using assms(5) by auto
  show "krelease c LkPtable s = Ret (lk_released c LkPtable s)" by (rule krelease_in [OF assms(3)])
  have fam: "fam s" by (rule fam_map [OF sinv_fam [OF assms(1)]]) (simp_all add: f assms(6))
  have memok: "memok s" by (rule memok_map [OF sinv_memok [OF assms(1)]]) (simp_all add: f)
  have r': "plrep {} (lk_released c LkPtable s) L" using assms(4) by (simp add: kst_simps)
  have h: "hold S c = []" by (rule sinv_strict(2) [OF assms(1)]) (simp add: assms(2))
  show "sinv (goto c User (lk_released c LkPtable s) S)" "sinv (goto c (Relock n) (lk_released c LkPtable s) S)"
    using assms(2,7-9) h may_enter_released [OF assms(3)] fam memok
    by (intro sinv_stay [OF assms(1) _ r' refl]; auto simp: kst_simps f)+
  show "sinv (goto c Waiting s S)"
    using assms(2,3,7-9) h fam memok by (intro sinv_stay [OF assms(1) _ assms(4) refl]) (auto simp: kst_simps f)
qed

lemma sched_resume_simps [simp]:
  "procs (sched_resume c ie s) = procs s" "initproc (sched_resume c ie s) = initproc s"
  "d \<noteq> c \<Longrightarrow> cpus (sched_resume c ie s) d = cpus s d"
  "cpu_proc (cpus (sched_resume c ie s) e) = cpu_proc (cpus s e)"
  "locks (sched_resume c ie s) = locks s" "in_ptable e (sched_resume c ie s) = in_ptable e s" "plrep X (sched_resume c ie s) L = plrep X s L"
  by (simp_all add: sched_resume_def in_ptable_def kst_simps)

lemma inv_forkret:
  assumes "sinv S" and "cmd S c = Switched" and "forkret c (ks S) = Ret s'"
  shows "sinv (goto c User s' S)"
proof -
  obtain L where r: "plrep {} (ks S) L" using sinv_rep [OF assms(1)] by blast
  have i: "in_ptable c (ks S)" using sinv_strict(1) [OF assms(1), of c] assms(2) by simp
  from inv_release [OF assms(1,2) i r] assms(3) show ?thesis by (simp add: forkret_def)
qed

lemma inv_yield_resume:
  assumes "sinv S" and "cmd S c = Switched" and "yield_resume c ie (ks S) = Ret s'"
  shows "sinv (goto c User s' S)"
proof -
  obtain L where r: "plrep {} (ks S) L" using sinv_rep [OF assms(1)] by blast
  have i: "in_ptable c (ks S)" using sinv_strict(1) [OF assms(1), of c] assms(2) by simp
  from inv_release [OF assms(1,2), of "sched_resume c ie (ks S)" L] i r assms(3) show ?thesis
    by (simp add: yield_resume_def)
qed

lemma inv_sleep_wake:
  assumes "sinv S" and "cmd S c = Switched" and "cpu_proc (cpus (ks S) c) = Some p"
    and "sleep_wake c ie lko (ks S) = Ret s'"
  shows "sinv (goto c (case lko of None \<Rightarrow> User | Some LkPtable \<Rightarrow> Waiting | Some (LkOther n) \<Rightarrow> Relock n) s' S)"
proof -
  obtain L where r: "plrep {} (ks S) L" using sinv_rep [OF assms(1)] by blast
  have i: "in_ptable c (ks S)" using sinv_strict(1) [OF assms(1), of c] assms(2) by simp
  have "p < NPROC" using sinv_run [OF assms(1), of c] assms(2,3) by auto
  let ?s = "upd p (chan_update (\<lambda>_. None)) (sched_resume c ie (ks S))"
  have "plrep {} ?s L"
    using r \<open>p < NPROC\<close>
    by (intro plrep_upd_same_home) (simp_all add: prio_okD [OF plrep_prio [OF r]])
  then have rel: "krelease c LkPtable ?s = Ret (lk_released c LkPtable ?s)"
      "sinv (goto c User (lk_released c LkPtable ?s) S)" "sinv (goto c Waiting ?s S)"
      "\<And>n. sinv (goto c (Relock n) (lk_released c LkPtable ?s) S)"
    using i by (auto intro!: inv_release [OF assms(1,2)] simp: kst_simps)
  show ?thesis
    using rel assms(3,4) i by (auto simp: sleep_wake_def curproc_def kst_simps split: option.split lockid.split)
qed

section \<open>The scheduler\<close>

lemma promo_procs [simp]:
  "parent (procs (promo s) q) = parent (procs s q)" "ctxt (procs (promo s) q) = ctxt (procs s q)"
  by (simp_all add: promo_def promote_all_def promote_on_def)

lemma pick_eff_simps [simp]:
  "state (pick_eff t pr) = RUNNING" "parent (pick_eff t pr) = parent pr"
  "pgdir (pick_eff t pr) = pgdir pr" "ctxt (pick_eff t pr) = ctxt pr"
  by (simp_all add: pick_eff_def)

lemma fam_promo [simp]: "fam (promo s) = fam s" and memok_promo [simp]: "memok (promo s) = memok s"
  by (simp_all add: fam_def memok_def kst_simps)

text \<open>A scan ends with the head of the first ready list that is not empty, or with the lock given back.\<close>

lemma inv_scan:
  assumes "sinv S" and "\<not> rmode (cmd S c)" and "locked (locks (ks S) LkPtable) = 0 \<or> lmode (cmd S c)"
    and "scan_out c i (promo s) (promoL s L) r" and "plrep {} s L"
    and "procs s = procs (ks S)" and "initproc s = initproc (ks S)"
    and "\<And>d. d \<noteq> c \<Longrightarrow> cpus s d = cpus (ks S) d"
    and "hold S c = []" and "\<And>n. locks s (LkOther n) = locks (ks S) (LkOther n)"
  shows "bindr r (sched_end c) = Ret (Some p, j, s') \<Longrightarrow>
           sinv ((goto c Switched s' S)\<lparr>sidx := (sidx S)(c := j)\<rparr>)"
    and "bindr r (sched_end c) = Ret (None, j, s') \<Longrightarrow> sinv (goto c Idle s' S)"
    and "\<exists>po j s'. bindr r (sched_end c) = Ret (po, j, s')"
proof -
  have fm: "fam s" "memok s" using sinv_fam [OF assms(1)] sinv_memok [OF assms(1)]
    by (simp_all add: fam_def memok_def assms(6,7))
  have "(bindr r (sched_end c) = Ret (Some p, j, s') \<longrightarrow>
           sinv ((goto c Switched s' S)\<lparr>sidx := (sidx S)(c := j)\<rparr>))
      \<and> (bindr r (sched_end c) = Ret (None, j, s') \<longrightarrow> sinv (goto c Idle s' S))
      \<and> (\<exists>po j s'. bindr r (sched_end c) = Ret (po, j, s'))"
    using assms(4) unfolding scan_out_def
  proof (elim disjE exE conjE, goal_cases)
    case (1 k q qs s1)
    let ?t = "upd q (pick_eff (ticks (promo s))) (set_curproc c (Some q) (promo s))"
    obtain s0 where r0: "plrep {} s0 (promoL s L)" and c0: "core s0 = core (promo s)"
      using promo_rep [OF assms(5)] .
    have "q \<in> set (promoL s L (LReady k))" using 1(4) by simp
    then have q: "q < NPROC" "state (procs (ks S) q) = RUNNABLE"
      using 1(2) core_state [OF c0, of q] by (simp_all add: plrep_mem_iff [OF r0] assms(6))
    have fam: "fam ?t" by (rule fam_map [OF fm(1)]) (auto simp: kst_simps assms(6) q)
    have mem: "memok ?t" by (rule memok_map [OF fm(2)]) (auto simp: kst_simps assms(6) q)
    have ck: "ctxt_ok (ctxt (procs (ks S) q))" using sinv_memok [OF assms(1)] q by (auto simp: memok_def)
    have "sinv ((goto c Switched s1 S)\<lparr>sidx := (sidx S)(c := (if k \<noteq> MAXPRIO then -1 else int k))\<rparr>)"
      using q fam mem assms(8-10) ck
      by (intro sinv_pick [OF assms(1,3) 1(7,8,6) assms(2)]) (auto simp: kst_simps assms(6))
    with 1(5) show ?case by (auto simp: sched_end_def)
  next
    case (2 s1)
    have s1: "sched_end c (None, int MAXPRIO + 1, s1) = Ret (None, int MAXPRIO + 1, lk_released c LkPtable s1)"
      using krelease_in [OF 2(3)] by (simp add: sched_end_def)
    have r1: "plrep {} (lk_released c LkPtable s1) (promoL s L)" using 2(4) by (simp add: kst_simps)
    have c1: "core (lk_released c LkPtable s1) = core (lk_released c LkPtable (promo s))"
      by (rule core_lk_released [OF 2(5)])
    have "sinv (goto c Idle (lk_released c LkPtable s1) S)"
      using fm assms(2,8-10) may_enter_released [OF 2(3)]
      by (intro sinv_stay [OF assms(1,3) r1 c1]) (auto simp: kst_simps assms(6))
    with 2(2) s1 show ?case by auto
  qed
  then show "bindr r (sched_end c) = Ret (Some p, j, s') \<Longrightarrow>
           sinv ((goto c Switched s' S)\<lparr>sidx := (sidx S)(c := j)\<rparr>)"
    and "bindr r (sched_end c) = Ret (None, j, s') \<Longrightarrow> sinv (goto c Idle s' S)"
    and "\<exists>po j s'. bindr r (sched_end c) = Ret (po, j, s')"
    by blast+
qed

text \<open>The state in which a pass scans the lists.\<close>

definition pass_state :: "nat \<Rightarrow> 'm kst \<Rightarrow> 'm kst" where
  "pass_state c s = lk_taken c LkPtable (s\<lparr>cpus := (cpus s)(c := (cpus s c)\<lparr>if_flag := True\<rparr>)\<rparr>)"

lemma pass_state_simps [simp]:
  "procs (pass_state c s) = procs s" "initproc (pass_state c s) = initproc s"
  "d \<noteq> c \<Longrightarrow> cpus (pass_state c s) d = cpus s d" "plrep X (pass_state c s) L = plrep X s L"
  "may_enter c s \<Longrightarrow> in_ptable c (pass_state c s)" "ticks (pass_state c s) = ticks s"
  "PromoteAtTime (pass_state c s) = PromoteAtTime s" "locks (pass_state c s) (LkOther n) = locks s (LkOther n)"
  by (simp_all add: pass_state_def kst_simps) (simp_all add: lk_taken_def in_ptable_def may_enter_def holding_def)

lemma scheduler_start_eq:
  "may_enter c s \<Longrightarrow> scheduler_start c s = bindr (sched_scan c 0 (pass_state c s)) (sched_end c)"
  by (simp add: scheduler_start_def pass_state_def may_enter_def kacquire_free)

lemma memok_pgdir: "memok s \<Longrightarrow> p < NPROC \<Longrightarrow> state (procs s p) = RUNNABLE \<Longrightarrow> pgdir (procs s p) \<noteq> None"
  by (simp add: memok_def)

lemma pass_scan:
  assumes "sinv S" and "may_enter c (ks S)" and "plrep {} (ks S) L"
  shows "scan_out c 0 (promo (pass_state c (ks S))) (promoL (pass_state c (ks S)) L)
           (sched_scan c 0 (pass_state c (ks S)))"
  using sched_scan_rep [of "pass_state c (ks S)" L c 0] assms memok_pgdir [OF sinv_memok [OF assms(1)]] by simp

lemma inv_pass:
  assumes "sinv S" and "cmd S c = Idle \<and> hold S c = []" and "scheduler_start c (ks S) = Ret (po, i, s')"
  shows "case po of Some p \<Rightarrow> sinv ((goto c Switched s' S)\<lparr>sidx := (sidx S)(c := i)\<rparr>)
         | None \<Rightarrow> sinv (goto c Idle s' S)"
proof -
  have lk: "locked (locks (ks S) LkPtable) = 0"
    using assms(3) by (auto simp: scheduler_start_def dest: bindr_acquire_Ret)
  have me: "may_enter c (ks S)" using assms(1,2) lk by (intro sinv_enter) simp_all
  obtain L where r: "plrep {} (ks S) L" using sinv_rep [OF assms(1)] by blast
  have nr: "\<not> rmode (cmd S c)" using assms(2) by simp
  from inv_scan [OF assms(1) nr _ pass_scan [OF assms(1) me r]] lk r assms(2,3) scheduler_start_eq [OF me]
  show ?thesis by (cases po) auto
qed

lemma back_scan:
  assumes "sinv S" and "cmd S c = Sched" and "plrep {} (ks S) L"
  shows "sidx S c = -1 \<Longrightarrow>
      scan_out c 0 (promo (set_curproc c None (ks S))) (promoL (set_curproc c None (ks S)) L)
        (sched_scan c (sidx S c + 1) (set_curproc c None (ks S)))"
    and "sidx S c \<noteq> -1 \<Longrightarrow> sched_scan c (sidx S c + 1) (set_curproc c None (ks S))
        = Ret (None, int MAXPRIO + 1, set_curproc c None (ks S))"
proof -
  let ?s = "set_curproc c None (ks S)"
  have i: "in_ptable c ?s" using sinv_strict(1) [OF assms(1), of c] assms(2) by (simp add: in_ptable_def set_curproc_def)
  show "scan_out c 0 (promo ?s) (promoL ?s L) (sched_scan c (sidx S c + 1) ?s)" if "sidx S c = -1"
    using sched_scan_rep [of ?s L c 0] i assms(3) memok_pgdir [OF sinv_memok [OF assms(1)]] that
    by (simp add: kst_simps)
  show "sched_scan c (sidx S c + 1) ?s = Ret (None, int MAXPRIO + 1, ?s)" if "sidx S c \<noteq> -1"
  proof -
    have "sidx S c = int MAXPRIO" using assms(1,2) that unfolding sinv_def cpuok_def by blast
    then show ?thesis by (subst sched_scan.simps) simp
  qed
qed

lemma inv_back:
  assumes "sinv S" and "cmd S c = Sched" and "scheduler_back c (sidx S c) (ks S) = Ret (po, i, s')"
  shows "case po of Some p \<Rightarrow> sinv ((goto c Switched s' S)\<lparr>sidx := (sidx S)(c := i)\<rparr>)
         | None \<Rightarrow> sinv (goto c Idle s' S)"
proof -
  let ?s = "set_curproc c None (ks S)"
  obtain L where r: "plrep {} (ks S) L" using sinv_rep [OF assms(1)] by blast
  have nr: "\<not> rmode (cmd S c)" using assms(2) by simp
  have h: "hold S c = []" by (rule sinv_strict(2) [OF assms(1)]) (simp add: assms(2))
  show ?thesis
  proof (cases "sidx S c = -1")
    case True
    from inv_scan [OF assms(1) nr _ back_scan(1) [OF assms(1,2) r True]] r h assms(2,3)
    show ?thesis by (cases po) (auto simp: scheduler_back_def kst_simps)
  next
    case False
    have i: "in_ptable c ?s" using sinv_strict(1) [OF assms(1), of c] assms(2) by (simp add: in_ptable_def set_curproc_def)
    have po: "po = None" and s': "s' = lk_released c LkPtable ?s"
      using assms(3) back_scan(2) [OF assms(1,2) r False] krelease_in [OF i]
      by (simp_all add: scheduler_back_def sched_end_def)
    have r': "plrep {} s' L" using r s' by (simp add: kst_simps)
    have "sinv (goto c Idle s' S)"
      unfolding s' using r' s' sinv_fam [OF assms(1)] sinv_memok [OF assms(1)] may_enter_released [OF i] assms(2) h
      by (intro sinv_stay [OF assms(1) _ _ refl]) (auto simp: kst_simps fam_def memok_def)
    with po show ?thesis by simp
  qed
qed

end
