(* ===== verification/Procrun.thy ===== *)
theory Procrun
  imports Procinv
begin

text \<open>
  Start-up and runs of the process system: \<open>userinit\<close> establishes the invariant, every reachable
  state satisfies it, and in a reachable state the operations return.
\<close>

section \<open>Runs\<close>

inductive run :: "'m os \<Rightarrow> 'm sys \<Rightarrow> 'm sys \<Rightarrow> bool" for os where
  run_refl: "run os S S"
| run_step: "run os S T \<Longrightarrow> step os T U \<Longrightarrow> run os S U"

lemma step_sinv:
  assumes "step os S T" and "sinv S"
  shows "sinv T"
  using assms(1)
proof cases
  case (pass_pick c p i s)
  with inv_pass [OF assms(2), of c "Some p" i s] show ?thesis by simp
next
  case (pass_none c i s)
  with inv_pass [OF assms(2), of c None i s] show ?thesis by simp
next
  case (back_pick c p i s)
  with inv_back [OF assms(2), of c "Some p" i s] show ?thesis by simp
next
  case (back_none c i s)
  with inv_back [OF assms(2), of c None i s] show ?thesis by simp
next
  case (resume_forkret c p s)
  then show ?thesis using inv_forkret [OF assms(2)] by blast
next
  case (resume_yield c p ie s)
  then show ?thesis using inv_yield_resume [OF assms(2)] by blast
next
  case (resume_sleep c p ie lko s)
  then show ?thesis using inv_sleep_wake [OF assms(2)] by blast
next
  case (relock c n s)
  then show ?thesis using inv_lock [OF assms(2), of c n s User] by simp
next
  case (lock c n s)
  then show ?thesis using inv_lock [OF assms(2), of c n s "cmd S c"] by auto
next
  case (unlock c n s)
  then show ?thesis using inv_unlock [OF assms(2), of n c s "cmd S c"] by auto
next
  case (do_yield c s)
  then show ?thesis using inv_yield [OF assms(2)] by blast
next
  case (do_sleep c p lko ch)
  then show ?thesis using inv_begin_sleep [OF assms(2)] by blast
next
  case (fall c ch lko x xs p s)
  then show ?thesis using inv_fall [OF assms(2)] by blast
next
  case (do_wait c p out s)
  then show ?thesis using inv_wait [OF assms(2)] by blast
next
  case (wait_more c out s)
  with inv_wait_turn [OF assms(2), of c "ks S" os out s] sinv_strict(2) [OF assms(2), of c] show ?thesis
    by (simp add: entered_def)
next
  case (do_exit c p s)
  then show ?thesis using inv_exit [OF assms(2)] by blast
next
  case (do_wakeup c ch s)
  then show ?thesis using inv_wakeup [OF assms(2)] by blast
next
  case (do_kill c pd rc s)
  then show ?thesis using inv_kill [OF assms(2)] by blast
next
  case (do_setpriority c pd prio rc s)
  then show ?thesis using inv_setpriority [OF assms(2)] by blast
next
  case (fork_take c p np s)
  then show ?thesis using inv_take [OF assms(2)] by blast
next
  case (fork_full c s)
  then show ?thesis using inv_take_none [OF assms(2)] by blast
next
  case (fork_fail c p np msg s)
  then show ?thesis using inv_fail [OF assms(2)] by blast
next
  case (fork_done c p np k pg s)
  then show ?thesis using inv_fork_done [OF assms(2)] by blast
next
  case tick
  then show ?thesis
    using assms(2) unfolding sinv_def
    by (auto simp: plinv_def kst_simps fam_def memok_def lockok_def in_ptable_def cpuok_def forkok_def)
qed

section \<open>Start-up\<close>

text \<open>
  The state \<open>userinit\<close> starts from: the zeroed table (\<open>UNUSED\<close> is \<open>0\<close>), no lock held, no
  interrupt disabled.
\<close>

definition boot :: "'m kst \<Rightarrow> bool" where
  "boot s \<longleftrightarrow>
     (\<forall>p<NPROC. state (procs s p) = UNUSED \<and> parent (procs s p) = None \<and> priority (procs s p) = 0) \<and>
     locked (locks s LkPtable) = 0 \<and> (\<forall>c. ncli (cpus s c) = 0)"

text \<open>Where runs start: every CPU idle, no other lock held, no process in \<open>fork\<close>.\<close>

definition idle_start :: "'m sys \<Rightarrow> bool" where
  "idle_start S \<longleftrightarrow> (\<forall>c. cmd S c = Idle \<and> hold S c = []) \<and> (\<forall>p. kid S p = None)"

lemma free_all_rep:
  assumes "plrep X s L" and "distinct ps" and "set ps \<subseteq> X" and "\<forall>p\<in>set ps. p < NPROC \<and> state (procs s p) = UNUSED"
  shows "plrep (X - set ps) (free_all ps s) (L(LFree := rev ps @ L LFree)) \<and> core (free_all ps s) = core s"
  using assms
proof (induction ps arbitrary: X s L)
  case Nil
  then show ?case by simp
next
  case (Cons p ps)
  let ?s = "addtofrontoflist LFree (Some p) s"
  have h: "home s p = LFree" using Cons.prems(4) by (simp add: home_def)
  have r: "plrep (X - {p}) ?s (L(LFree := p # L LFree))" and c: "core ?s = core s"
    using addtofront_rep [OF Cons.prems(1) _ _ _ h] Cons.prems(3,4) by simp_all
  have "plrep (X - {p} - set ps) (free_all ps ?s) ((L(LFree := p # L LFree))(LFree := rev ps @ p # L LFree))
      \<and> core (free_all ps ?s) = core ?s"
  proof -
    have "set ps \<subseteq> X - {p}" using Cons.prems(2,3) by auto
    with Cons.IH [OF r] Cons.prems(2,4) core_state [OF c] show ?thesis by (simp add: fun_upd_same del: fun_upd_apply)
  qed
  with c show ?case by (simp add: Diff_insert2 [symmetric] del: fun_upd_apply)
qed

lemma init_lists_rep:
  assumes "\<And>p. p < NPROC \<Longrightarrow> state (procs s p) = UNUSED \<and> priority (procs s p) = 0"
  shows "plrep {} (init_lists s) ((\<lambda>_. [])(LFree := rev [0..<NPROC]))" and "core (init_lists s) = core s"
proof -
  let ?s = "s\<lparr>free_l := None, embryo_l := None, sleep_l := None, zombie_l := None, running_l := None,
              ready := (\<lambda>i. if i \<le> MAXPRIO then None else ready s i)\<rparr>"
  have "getl ?s l = None" if "valid_lref l" for l using that by (cases l) simp_all
  then have "plrep {0..<NPROC} ?s (\<lambda>_. [])" using assms by (auto simp: plrep_def prio_ok_def)
  from free_all_rep [OF this, of "[0..<NPROC]"] assms
  have *: "plrep {} (init_lists s) ((\<lambda>_. [])(LFree := rev [0..<NPROC])) \<and> core (init_lists s) = core ?s"
    by (simp add: init_lists_def)
  have "core ?s = core s" by (simp add: core_def)
  with * show "plrep {} (init_lists s) ((\<lambda>_. [])(LFree := rev [0..<NPROC]))" "core (init_lists s) = core s"
    by simp_all
qed

text \<open>The last part of \<open>userinit\<close>: the first process becomes the only ready one.\<close>

lemma userinit_ready_rep:
  assumes "plrep {} s L" and "may_enter c s" and "p < NPROC" and "state (procs s p) = EMBRYO"
    and "priority (procs s p) = 0" and "L (LReady 0) = []"
  obtains s' where "userinit_ready c p s = Ret s'" and "may_enter c s'"
    and "plrep {} s' (L(LEmbryo := remove1 p (L LEmbryo), LReady 0 := [p]))"
    and "core s' = core (lk_released c LkPtable (upd p (state_update (\<lambda>_. RUNNABLE))
           ((lk_taken c LkPtable s)\<lparr>PromoteAtTime := TICKS_TO_PROMOTE\<rparr>)))"
proof -
  let ?s0 = "(lk_taken c LkPtable s)\<lparr>PromoteAtTime := TICKS_TO_PROMOTE\<rparr>"
  let ?f = "state_update (\<lambda>_. RUNNABLE)"
  have r0: "plrep {} ?s0 L" using assms(1) by (simp add: kst_simps)
  have i0: "in_ptable c ?s0" using in_ptable_taken [OF assms(2)] by (simp add: kst_simps)
  have pL: "p \<in> set (L LEmbryo)" using assms by (simp add: plrep_mem_iff [OF assms(1)])
  have i: "0 = unat (priority (?f (procs ?s0 p)))" using assms(5) by (simp add: kst_simps)
  obtain s1 s2 where rm: "removefromlist LEmbryo (Some p) ?s0 = Ret (0, s1)" and c1: "core s1 = core ?s0"
    and "readyref (priority (?f (procs s1 p))) = Ret (LReady 0)"
    and add: "addtoreadyprioritylist (LReady 0) (Some p) (upd p ?f s1) = Ret (0, s2)"
    and r2: "plrep {} s2 ((L(LEmbryo := remove1 p (L LEmbryo)))
               (LReady 0 := (L(LEmbryo := remove1 p (L LEmbryo))) (LReady 0) @ [p]))"
    and c2: "core s2 = core (upd p ?f ?s0)"
    using move_ready_rep [where f = ?f, OF r0 _ pL _ i] by auto
  obtain s1' where r1: "plrep {p} s1' (L(LEmbryo := remove1 p (L LEmbryo)))"
      and "removefromlist LEmbryo (Some p) ?s0 = Ret (0, s1')"
    using removefromlist_rep [OF r0 _ pL] by auto
  with rm have r1: "plrep {p} s1 (L(LEmbryo := remove1 p (L LEmbryo)))" by simp
  have "ready s1 0 = None" using plrep_chain [OF r1, of "LReady 0"] assms(6) by simp
  then have s2: "s2 = setl (LReady 0) (Some p) (set_next p None (upd p ?f s1))"
    using add by (simp add: addtoreadyprioritylist_def upd_def)
  have st: "state (procs s1 p) = EMBRYO" using assms(4) core_state [OF c1, of p] by (simp add: kst_simps)
  have in2: "in_ptable c s2" by (rule in_ptable_coreI [OF i0 c2])
  have "userinit_ready c p s = Ret (lk_released c LkPtable s2)"
    using rm st krelease_in [OF in2] s2
    by (simp add: userinit_ready_def kacquire_enter [OF assms(2)] assertstate_def)
  moreover have "plrep {} (lk_released c LkPtable s2) (L(LEmbryo := remove1 p (L LEmbryo), LReady 0 := [p]))"
    using r2 assms(6) by (simp add: kst_simps)
  ultimately show thesis using that core_lk_released [OF c2] may_enter_released [OF in2] by blast
qed

definition first_fill :: "u32 option \<Rightarrow> u32 \<Rightarrow> u32 \<Rightarrow> nat option \<Rightarrow> proc \<Rightarrow> proc" where
  "first_fill k pg now ip pr =
     (proc_setup now (pr\<lparr>kstack := k\<rparr>))\<lparr>pgdir := Some pg, sz := 4096, tf := init_tf (tf pr),
        uid := DEFAULT_UID, gid := DEFAULT_GID, name := ''initcode'', cwd := ip\<rparr>"

lemma first_fill_simps [simp]:
  "state (first_fill k pg now ip pr) = state pr" "parent (first_fill k pg now ip pr) = parent pr"
  "priority (first_fill k pg now ip pr) = 0" "pgdir (first_fill k pg now ip pr) = Some pg"
  "ctxt (first_fill k pg now ip pr) = AtForkret" "pnext (first_fill k pg now ip pr) = pnext pr"
  by (simp_all add: first_fill_def proc_setup_def DEFAULT_PRIORITY_def)

text \<open>If \<open>userinit\<close> returns, memory was found and the first process was filled in.\<close>

lemma userinit_parts:
  assumes "kacquire c LkPtable s0 = Ret s1" and "krelease c LkPtable (init_lists s1) = Ret s2"
    and "allocproc_take c s2 = Ret (Some p, s3)" and "userinit os c s0 = Ret s"
  obtains k pg ip m where "userinit_ready c p
     (upd p (first_fill k pg (ticks s3) ip) (s3\<lparr>initproc := Some p, mem := m\<rparr>)) = Ret s"
proof -
  obtain k m1 where ka: "os_kalloc os (mem s3) = (k, m1)" by fastforce
  let ?s = "upd p (kstack_update (\<lambda>_. k)) (s3\<lparr>mem := m1\<rparr>)"
  obtain k' where k: "k = Some k'"
    using assms ka by (cases k) (auto simp: userinit_def allocproc_def res_simps)
  have al: "allocproc os c s2 = Ret (Some p, upd p (proc_setup (ticks s3)) ?s)"
    using assms(3) ka k by (simp add: allocproc_def upd_def)
  obtain pgo m2 where sv: "os_setupkvm os m1 = Ret (pgo, m2)"
    using assms al by (auto simp: userinit_def res_simps upd_def)
  obtain pg where pg: "pgo = Some pg"
    using assms al sv by (cases pgo) (auto simp: userinit_def res_simps upd_def)
  obtain m3 where iv: "os_inituvm os (Some pg) m2 = Ret m3"
    using assms al sv pg by (auto simp: userinit_def res_simps upd_def)
  obtain ip m4 where nm: "os_namei os ''/'' m3 = Ret (ip, m4)"
    using assms al sv pg iv by (auto simp: userinit_def res_simps upd_def)
  have "upd p (first_fill (Some k') pg (ticks s3) ip) (s3\<lparr>initproc := Some p, mem := m4\<rparr>) =
      upd p (cwd_update (\<lambda>_. ip)) ((upd p (\<lambda>pr. pr\<lparr>sz := 4096, tf := init_tf (tf pr), uid := DEFAULT_UID,
         gid := DEFAULT_GID, name := ''initcode''\<rparr>) ((upd p (pgdir_update (\<lambda>_. Some pg))
        ((upd p (proc_setup (ticks s3)) ?s)\<lparr>initproc := Some p, mem := m2\<rparr>))\<lparr>mem := m3\<rparr>))\<lparr>mem := m4\<rparr>)"
    by (intro kst.equality) (simp_all add: upd_def first_fill_def proc_setup_def init_tf_def k)
  then show thesis
    using assms al sv pg iv nm by (intro that [of "Some k'" pg ip m4]) (auto simp: userinit_def res_simps upd_def)
qed

text \<open>The table is set up and its last entry taken as an embryo.\<close>

lemma userinit_start:
  assumes "boot s0"
  obtains s1 s2 p s3 L where "kacquire c LkPtable s0 = Ret s1" and "krelease c LkPtable (init_lists s1) = Ret s2"
    and "allocproc_take c s2 = Ret (Some p, s3)" and "may_enter c s3" and "plrep {} s3 L" and "p < NPROC"
    and "L (LReady 0) = []"
    and "\<forall>q<NPROC. state (procs s3 q) = (if q = p then EMBRYO else UNUSED) \<and> parent (procs s3 q) = None"
    and "\<forall>d. ncli (cpus s3 d) = 0" and "\<forall>n. locks s3 (LkOther n) = locks s0 (LkOther n)"
proof -
  have me0: "may_enter c s0" using assms by (simp add: boot_def may_enter_def)
  let ?s1 = "init_lists (lk_taken c LkPtable s0)" and ?L = "(\<lambda>_. [])(LFree := rev [0..<NPROC])"
  have z: "state (procs (lk_taken c LkPtable s0) p) = UNUSED \<and> priority (procs (lk_taken c LkPtable s0) p) = 0"
    if "p < NPROC" for p using assms that by (simp add: boot_def kst_simps)
  have r1: "plrep {} ?s1 ?L" and c1: "core ?s1 = core (lk_taken c LkPtable s0)"
    using init_lists_rep [of "lk_taken c LkPtable s0"] z by blast+
  have i1: "in_ptable c ?s1" using in_ptable_taken [OF me0] in_ptable_core [OF c1] by simp
  let ?s2 = "lk_released c LkPtable ?s1"
  have r2: "plrep {} ?s2 ?L" using r1 by (simp add: kst_simps)
  have me2: "may_enter c ?s2" by (rule may_enter_released [OF i1])
  define p where "p = NPROC - 1"
  have pn: "p < NPROC" by (simp add: p_def NPROC_def)
  have L2: "?L LFree = p # rev [0..<p]"
    using upt_Suc_append [of 0 p] by (simp add: p_def NPROC_def)
  obtain s3 where a3: "allocproc_take c ?s2 = Ret (Some p, s3)" and me3: "may_enter c s3"
    and r3: "plrep {} s3 (?L(LFree := rev [0..<p], LEmbryo := p # ?L LEmbryo))"
    and c3: "core s3 = core (lk_released c LkPtable
           ((upd p (alloc_eff (nextpid ?s2)) (lk_taken c LkPtable ?s2))\<lparr>nextpid := nextpid ?s2 + 1\<rparr>))"
    using allocproc_take_rep [OF r2 me2 L2] .
  have st3: "state (procs s3 q) = (if q = p then EMBRYO else UNUSED) \<and> parent (procs s3 q) = None" if "q < NPROC" for q
    using core_state [OF c3, of q] core_parent [OF c3, of q] core_state [OF c1, of q] core_parent [OF c1, of q] assms that
    by (auto simp: kst_simps boot_def)
  have cp: "ncli (cpus s3 d) = 0" for d
  proof (cases "d = c")
    case True
    with me3 show ?thesis by (simp add: may_enter_def)
  next
    case False
    then show ?thesis using core_cpus [OF c3] core_cpus [OF c1] assms by (simp add: kst_simps boot_def)
  qed
  have "locks s3 (LkOther n) = locks s0 (LkOther n)" for n
    using core_locks [OF c3] core_locks [OF c1] by (simp add: kst_simps)
  with st3 cp show thesis
    by (intro that [OF kacquire_enter [OF me0] krelease_in [OF i1] a3 me3 r3 pn]) auto
qed

lemma userinit_last:
  assumes "plrep {} s3 L" and "may_enter c s3" and "p < NPROC" and "L (LReady 0) = []" and "state (procs s3 p) = EMBRYO"
  defines "s4 k pg ip m \<equiv> upd p (first_fill k pg (ticks s3) ip) (s3\<lparr>initproc := Some p, mem := m\<rparr>)"
  obtains s L' where "userinit_ready c p (s4 k pg ip m) = Ret s" and "may_enter c s" and "plrep {} s L'"
    and "core s = core (lk_released c LkPtable (upd p (state_update (\<lambda>_. RUNNABLE))
           ((lk_taken c LkPtable (s4 k pg ip m))\<lparr>PromoteAtTime := TICKS_TO_PROMOTE\<rparr>)))"
proof -
  have "plrep {} (s3\<lparr>initproc := Some p, mem := m\<rparr>) L" using assms(1) by (simp add: kst_simps)
  then have r4: "plrep {} (s4 k pg ip m) L"
    unfolding s4_def by (rule plrep_upd_same_home) (simp_all add: assms(5))
  have me4: "may_enter c (s4 k pg ip m)" using assms(2) by (simp add: s4_def may_enter_def kst_simps)
  show thesis
    using userinit_ready_rep [OF r4 me4 assms(3) _ _ assms(4)] assms(5) that
    by (auto simp: s4_def procs_upd)
qed

lemma userinit_final:
  assumes "boot s0" and "userinit os c s0 = Ret s"
  obtains p L where "p < NPROC" and "may_enter c s" and "plrep {} s L" and "initproc s = Some p"
    and "\<forall>q<NPROC. state (procs s q) = (if q = p then RUNNABLE else UNUSED) \<and> parent (procs s q) = None"
    and "pgdir (procs s p) \<noteq> None" and "ctxt (procs s p) = AtForkret" and "\<forall>d. ncli (cpus s d) = 0"
    and "\<forall>n. locks s (LkOther n) = locks s0 (LkOther n)"
proof -
  obtain s1 s2 p s3 L where st: "kacquire c LkPtable s0 = Ret s1" "krelease c LkPtable (init_lists s1) = Ret s2"
    "allocproc_take c s2 = Ret (Some p, s3)" and me3: "may_enter c s3" and r3: "plrep {} s3 L" and pn: "p < NPROC"
    and L0: "L (LReady 0) = []"
    and st3: "\<forall>q<NPROC. state (procs s3 q) = (if q = p then EMBRYO else UNUSED) \<and> parent (procs s3 q) = None"
    and cp: "\<forall>d. ncli (cpus s3 d) = 0" and lo: "\<forall>n. locks s3 (LkOther n) = locks s0 (LkOther n)"
    using userinit_start [OF assms(1), of c] .
  obtain k pg ip m where ur: "userinit_ready c p
     (upd p (first_fill k pg (ticks s3) ip) (s3\<lparr>initproc := Some p, mem := m\<rparr>)) = Ret s"
    using userinit_parts [OF st assms(2)] .
  let ?s4 = "upd p (first_fill k pg (ticks s3) ip) (s3\<lparr>initproc := Some p, mem := m\<rparr>)"
  let ?t = "lk_released c LkPtable (upd p (state_update (\<lambda>_. RUNNABLE))
           ((lk_taken c LkPtable ?s4)\<lparr>PromoteAtTime := TICKS_TO_PROMOTE\<rparr>))"
  obtain L' where me5: "may_enter c s" and r5: "plrep {} s L'" and c5: "core s = core ?t"
    using userinit_last [OF r3 me3 pn L0, of k pg ip m] st3 pn ur by auto
  have "ncli (cpus s d) = 0" for d
  proof (cases "d = c")
    case True
    with me5 show ?thesis by (simp add: may_enter_def)
  next
    case False
    then show ?thesis using core_cpus [OF c5] cp by (simp add: kst_simps)
  qed
  moreover have "locks s (LkOther n) = locks s0 (LkOther n)" for n
    using core_locks [OF c5] lo by (simp add: kst_simps)
  ultimately show thesis
    using st3 pn me5 r5 by (intro that) (auto simp: core_state [OF c5] core_parent [OF c5] core_pgdir [OF c5] core_ctxt [OF c5]
        core_initproc [OF c5] kst_simps)
qed

lemma userinit_sinv:
  assumes "boot s0" and "userinit os c s0 = Ret s" and "ks S = s" and "idle_start S"
  shows "sinv S"
proof -
  obtain p L where "p < NPROC" "may_enter c s" "plrep {} s L" "initproc s = Some p"
    and st: "\<forall>q<NPROC. state (procs s q) = (if q = p then RUNNABLE else UNUSED) \<and> parent (procs s q) = None"
    and "pgdir (procs s p) \<noteq> None" "ctxt (procs s p) = AtForkret" "\<forall>d. ncli (cpus s d) = 0"
    using userinit_final [OF assms(1,2)] by metis
  then show ?thesis
    using assms(3,4)
    by (auto simp: sinv_def plinv_def fam_def memok_def ctxt_ok_def lockok_def cpuok_def forkok_def
        idle_start_def cpu_ok_def may_enter_def split: if_splits)
qed

text \<open>\<open>userinit\<close> returns when the memory components give it what it asks for.\<close>

lemma userinit_returns:
  assumes "boot s0" and "\<And>m. \<exists>k m'. os_kalloc os m = (Some k, m')"
    and "\<And>m. \<exists>pg m'. os_setupkvm os m = Ret (Some pg, m')" and "\<And>pg m. \<exists>m'. os_inituvm os pg m = Ret m'"
    and "\<And>n m. \<exists>ip m'. os_namei os n m = Ret (ip, m')"
  shows "\<exists>s. userinit os c s0 = Ret s"
proof -
  obtain s1 s2 p s3 L where st: "kacquire c LkPtable s0 = Ret s1" "krelease c LkPtable (init_lists s1) = Ret s2"
    "allocproc_take c s2 = Ret (Some p, s3)" and me3: "may_enter c s3" and r3: "plrep {} s3 L" and pn: "p < NPROC"
    and L0: "L (LReady 0) = []"
    and st3: "\<forall>q<NPROC. state (procs s3 q) = (if q = p then EMBRYO else UNUSED) \<and> parent (procs s3 q) = None"
    using userinit_start [OF assms(1), of c] by metis
  obtain k m1 where ka: "os_kalloc os (mem s3) = (Some k, m1)" using assms(2) by blast
  obtain pg m2 where sv: "os_setupkvm os m1 = Ret (Some pg, m2)" using assms(3) by blast
  obtain m3 where iv: "os_inituvm os (Some pg) m2 = Ret m3" using assms(4) by blast
  obtain ip m4 where nm: "os_namei os ''/'' m3 = Ret (ip, m4)" using assms(5) by blast
  obtain s where "userinit_ready c p
     (upd p (first_fill (Some k) pg (ticks s3) ip) (s3\<lparr>initproc := Some p, mem := m4\<rparr>)) = Ret s"
    using userinit_last [OF r3 me3 pn L0, of "Some k" pg ip m4] st3 pn by auto
  then have "userinit os c s0 = Ret s"
    using st ka sv iv nm
    by (simp add: userinit_def allocproc_def Let_def upd_def first_fill_def proc_setup_def init_tf_def)
  then show ?thesis by blast
qed

section \<open>Reachable states\<close>

lemma run_sinv: "run os S T \<Longrightarrow> sinv S \<Longrightarrow> sinv T"
  by (induction rule: run.induct) (auto intro: step_sinv)

lemma reach_sinv:
  "boot s0 \<Longrightarrow> userinit os c s0 = Ret (ks S0) \<Longrightarrow> idle_start S0 \<Longrightarrow> run os S0 S \<Longrightarrow> sinv S"
  by (rule run_sinv [OF _ userinit_sinv]) simp_all

text \<open>Nothing panics: with the table lock free, every operation of a running process returns.\<close>

lemma user_ops_return:
  assumes "sinv S" and "cmd S c = User \<and> hold S c = []" and "locked (locks (ks S) LkPtable) = 0"
    and "cpu_proc (cpus (ks S) c) = Some p"
  shows "\<exists>s. yield c (ks S) = Ret s" and "\<exists>s. sleep c ch None (ks S) = Ret s"
    and "\<exists>s. exit_locked c p (ks S) = Ret s"
    and "\<exists>rc s. kill c pd (ks S) = Ret (rc, s)" and "\<exists>rc s. setpriority c pd prio (ks S) = Ret (rc, s)"
    and "\<exists>po s. allocproc_take c (ks S) = Ret (po, s)"
proof -
  have me: "may_enter c (ks S)" using assms(1-3) by (intro sinv_enter) simp_all
  obtain L where r: "plrep {} (ks S) L" using sinv_rep [OF assms(1)] by blast
  have p: "p < NPROC" "state (procs (ks S) p) = RUNNING" using sinv_run [OF assms(1), of c] assms(2,4) by auto
  show "\<exists>s. yield c (ks S) = Ret s" using yield_rep [OF r me assms(4) p refl] by metis
  show "\<exists>s. exit_locked c p (ks S) = Ret s" using exit_locked_rep [OF r me assms(4) p] by metis
  show "\<exists>rc s. kill c pd (ks S) = Ret (rc, s)" using kill_rep [OF r me] by metis
  show "\<exists>po s. allocproc_take c (ks S) = Ret (po, s)"
    using allocproc_take_none [OF r me] allocproc_take_rep [OF r me] by (cases "L LFree") metis+
  show "\<exists>s. sleep c ch None (ks S) = Ret s"
    using sleep_locked_rep [OF _ in_ptable_taken [OF me], of L p ch None] r assms(4) p sleep_enter [OF assms(4) me]
    by (simp add: kst_simps) metis
  show "\<exists>rc s. setpriority c pd prio (ks S) = Ret (rc, s)"
  proof (cases "pd < 0 \<or> 32767 < pd \<or> prio < 0 \<or> int MAXPRIO < prio")
    case True
    with setpriority_range [OF me] show ?thesis by blast
  next
    case False
    then have "0 \<le> pd" "pd \<le> 32767" "0 \<le> prio" "prio \<le> int MAXPRIO" by auto
    from setpriority_rep [OF r me this] show ?thesis by metis
  qed
qed

lemma wakeup_returns:
  assumes "sinv S" and "locked (locks (ks S) LkPtable) = 0"
  shows "\<exists>s. wakeup c ch (ks S) = Ret s"
proof -
  obtain L where "plrep {} (ks S) L" using sinv_rep [OF assms(1)] by blast
  from wakeup_any [OF this assms(2) sinv_cpu [OF assms(1)]] show ?thesis by metis
qed

lemma sleep_other_returns:
  assumes "sinv S" and "cmd S c = User" and "hold S c = [n]" and "locked (locks (ks S) LkPtable) = 0"
  shows "\<exists>s. sleep c ch (Some (LkOther n)) (ks S) = Ret s"
proof -
  obtain L where r: "plrep {} (ks S) L" using sinv_rep [OF assms(1)] by blast
  obtain p where p: "p < NPROC" "cpu_proc (cpus (ks S) c) = Some p" "state (procs (ks S) p) = RUNNING"
    using sinv_run [OF assms(1), of c] assms(2) by auto
  have h: "holding (locks (ks S) (LkOther n)) c" "ncli (cpus (ks S) c) = 1" "\<not> if_flag (cpus (ks S) c)"
    using assms(1-3) sinv_cpu [OF assms(1), of c] by (auto simp: sinv_def lockok_def cpu_ok_def)
  note sw = sleep_swap [OF p(2) h assms(4)]
  let ?s = "lk_released c (LkOther n) (lk_taken c LkPtable (ks S))"
  have "plrep {} ?s L" "cpu_proc (cpus ?s c) = Some p" "state (procs ?s p) = RUNNING" using r p by (simp_all add: kst_simps)
  from sleep_locked_rep [OF this(1) sw(2) this(2) p(1) this(3)] sw(1) show ?thesis by metis
qed

text \<open>The second critical section of \<open>fork\<close>, whether it fails or succeeds.\<close>

lemma fork_parts_return:
  assumes "sinv S" and "cmd S c = User \<and> hold S c = []" and "locked (locks (ks S) LkPtable) = 0"
    and "kid S p = Some np"
  shows "\<exists>s. embryo_to_free msg c np (ks S) = Ret s"
    and "\<exists>s. fork_ready c np (upd np (fork_fill p k pg (ks S)) (ks S)) = Ret s"
proof -
  let ?s = "upd np (fork_fill p k pg (ks S)) (ks S)"
  have me: "may_enter c (ks S)" using assms(1-3) by (intro sinv_enter) simp_all
  obtain L where r: "plrep {} (ks S) L" using sinv_rep [OF assms(1)] by blast
  have np: "np < NPROC" "state (procs (ks S) np) = EMBRYO"
    using assms(1,4) unfolding sinv_def forkok_def by blast+
  show "\<exists>s. embryo_to_free msg c np (ks S) = Ret s" using embryo_to_free_rep [OF r me np] by metis
  have r1: "plrep {} ?s L" using r by (rule plrep_upd_same_home) (simp_all add: np DEFAULT_PRIORITY_def)
  have "may_enter c ?s" using me by (simp add: may_enter_def kst_simps)
  moreover have "state (procs ?s np) = EMBRYO" using np by (simp add: procs_upd)
  ultimately show "\<exists>s. fork_ready c np ?s = Ret s" using fork_ready_rep [OF r1 _ np(1) _ refl] by metis
qed

text \<open>\<open>wait\<close> frees memory of a zombie child; it returns if the memory component does that.\<close>

definition reap_ok :: "'m os \<Rightarrow> nat \<Rightarrow> 'm kst \<Rightarrow> bool" where
  "reap_ok os p s \<longleftrightarrow> (\<forall>q<NPROC. state (procs s q) = ZOMBIE \<and> parent (procs s q) = Some p \<longrightarrow>
     (\<exists>m. bindr (os_kfree os (kstack (procs s q)) (mem s)) (os_freevm os (pgdir (procs s q))) = Ret m))"

lemma wait_turn_returns:
  assumes "sinv S" and "cmd S c = User \<or> cmd S c = Waiting" and "entered c S s"
    and "cpu_proc (cpus (ks S) c) = Some p" and "reap_ok os p s"
  shows "\<exists>out s'. wait_turn os c s = Ret (out, s')"
proof -
  note e = entered_facts [OF assms(1,3)]
  obtain L where "plrep {} (ks S) L" using sinv_rep [OF assms(1)] by blast
  then have r: "plrep {} s L" by (simp add: e)
  have rm: "rmode (cmd S c)" using assms(2) by auto
  have p: "p < NPROC" "cpu_proc (cpus s c) = Some p" "state (procs s p) = RUNNING"
    using sinv_run [OF assms(1) rm] assms(4) by (auto simp: e)
  show ?thesis
  proof (cases "find (\<lambda>q. parent (procs s q) = Some p) (L LZombie)")
    case (Some q)
    then have "q \<in> set (L LZombie)" "parent (procs s q) = Some p" by (auto simp: find_Some_iff)
    then have q: "q < NPROC" "state (procs s q) = ZOMBIE" by (simp_all add: plrep_mem_iff [OF r])
    then obtain m where m: "bindr (os_kfree os (kstack (procs s q)) (mem s)) (os_freevm os (pgdir (procs s q))) = Ret m"
      using assms(5) \<open>parent (procs s q) = Some p\<close> unfolding reap_ok_def by blast
    then obtain m1 where m1: "os_kfree os (kstack (procs s q)) (mem s) = Ret m1" "os_freevm os (pgdir (procs s q)) m1 = Ret m"
      by (auto simp: res_simps)
    obtain s' where "reap os c q s = Ret (sint (pid (procs s q)), s')" using reap_rep [OF r e(1) q m1] .
    with wait_turn_reap [OF r p(2) Some] show ?thesis by simp
  next
    case None
    obtain s' where "sleep_locked c p (Some (ChProc p)) (Some LkPtable) s = Ret s'"
      using sleep_locked_rep [OF r e(1) p(2,1,3)] .
    with wait_turn_none [OF r p(2) e(1) None, of os] wait_turn_sleep [OF r p(2) None, of os]
    show ?thesis by (cases "(\<nexists>q. q < NPROC \<and> state (procs s q) \<noteq> UNUSED \<and> parent (procs s q) = Some p) \<or> killed (procs s p)") auto
  qed
qed

lemma wait_returns:
  assumes "sinv S" and "cmd S c = User \<and> hold S c = []" and "locked (locks (ks S) LkPtable) = 0"
    and "cpu_proc (cpus (ks S) c) = Some p" and "reap_ok os p (ks S)"
  shows "\<exists>out s. wait os c (ks S) = Ret (out, s)"
proof -
  have me: "may_enter c (ks S)" using assms(1-3) by (intro sinv_enter) simp_all
  have "reap_ok os p (lk_taken c LkPtable (ks S))" using assms(5) by (simp add: reap_ok_def kst_simps) (simp add: lk_taken_def)
  with wait_turn_returns [OF assms(1) _ _ assms(4), of "lk_taken c LkPtable (ks S)" os] assms(2) me show ?thesis
    by (simp add: wait_def kacquire_enter entered_def)
qed

text \<open>The scheduler never panics, and a process it switched to always gets on.\<close>

lemma sched_ops_return:
  assumes "sinv S"
  shows "cmd S c = Idle \<Longrightarrow> hold S c = [] \<Longrightarrow> locked (locks (ks S) LkPtable) = 0 \<Longrightarrow>
           \<exists>po i s. scheduler_start c (ks S) = Ret (po, i, s)"
    and "cmd S c = Sched \<Longrightarrow> \<exists>po i s. scheduler_back c (sidx S c) (ks S) = Ret (po, i, s)"
proof -
  obtain L where r: "plrep {} (ks S) L" using sinv_rep [OF assms(1)] by blast
  show "\<exists>po i s. scheduler_start c (ks S) = Ret (po, i, s)"
    if "cmd S c = Idle" "hold S c = []" "locked (locks (ks S) LkPtable) = 0"
  proof -
    have me: "may_enter c (ks S)" using assms that by (intro sinv_enter) simp_all
    from inv_scan(3) [OF assms _ _ pass_scan [OF assms me r]] r that scheduler_start_eq [OF me] show ?thesis
      by simp
  qed
  show "\<exists>po i s. scheduler_back c (sidx S c) (ks S) = Ret (po, i, s)" if "cmd S c = Sched"
  proof (cases "sidx S c = -1")
    case True
    from inv_scan(3) [OF assms _ _ back_scan(1) [OF assms that r True]] r that sinv_strict(2) [OF assms, of c] show ?thesis
      by (simp add: scheduler_back_def kst_simps)
  next
    case False
    have "in_ptable c (set_curproc c None (ks S))"
      using sinv_strict(1) [OF assms, of c] that by (simp add: in_ptable_def set_curproc_def)
    with back_scan(2) [OF assms that r False] show ?thesis
      by (simp add: scheduler_back_def sched_end_def krelease_in)
  qed
qed

text \<open>
  A process switched to goes on in \<open>forkret\<close>, \<open>yield\<close> or \<open>sleep\<close>; \<open>sleep\<close> gives the table lock back
  and returns, once the caller's lock, if there is one, is free.
\<close>

lemma switched_returns:
  assumes "sinv S" and "cmd S c = Switched"
  shows "\<exists>p s. cpu_proc (cpus (ks S) c) = Some p \<and>
           (ctxt (procs (ks S) p) = AtForkret \<and> forkret c (ks S) = Ret s
            \<or> (\<exists>ie. ctxt (procs (ks S) p) = InYield ie \<and> yield_resume c ie (ks S) = Ret s)
            \<or> (\<exists>ie lko. ctxt (procs (ks S) p) = InSleep ie lko \<and> sleep_wake c ie lko (ks S) = Ret s
                \<and> ((\<forall>n. lko = Some (LkOther n) \<longrightarrow> locked (locks (ks S) (LkOther n)) = 0) \<longrightarrow>
                    (\<exists>s'. sleep_resume c ie lko (ks S) = Ret s'))))"
proof -
  have i: "in_ptable c (ks S)" using sinv_strict(1) [OF assms(1), of c] assms(2) by simp
  obtain p where p: "cpu_proc (cpus (ks S) c) = Some p" using sinv_run [OF assms(1), of c] assms(2) by auto
  have ok: "ctxt_ok (ctxt (procs (ks S) p))" using assms p unfolding sinv_def cpuok_def by blast
  have w: "\<exists>s. sleep_wake c ie lko (ks S) = Ret s \<and> (\<forall>n. locks s (LkOther n) = locks (ks S) (LkOther n))" for ie lko
  proof -
    let ?s = "upd p (chan_update (\<lambda>_. None)) (sched_resume c ie (ks S))"
    have "in_ptable c ?s" using i by (simp add: kst_simps)
    from krelease_in [OF this] p show ?thesis by (simp add: sleep_wake_def curproc_def Let_def kst_simps)
  qed
  have "\<exists>s'. sleep_resume c ie lko (ks S) = Ret s'"
    if "\<forall>n. lko = Some (LkOther n) \<longrightarrow> locked (locks (ks S) (LkOther n)) = 0" for ie lko
    using w [of ie lko] that
    by (auto simp: sleep_resume_def kacquire_free split: option.split) (metis kacquire_free lockid.exhaust)
  with w p ok krelease_in [OF i] show ?thesis
    by (cases "ctxt (procs (ks S) p)")
      (auto simp: ctxt_ok_def forkret_def yield_resume_def krelease_in i kst_simps, metis+)
qed

text \<open>A process in \<open>sleep\<close> does its next part, once the table lock is free if that is what it needs.\<close>

lemma fall_returns:
  assumes "sinv S" and "cmd S c = Falling ch lko parts"
    and "AcquireTable \<in> set parts \<Longrightarrow> locked (locks (ks S) LkPtable) = 0"
  shows "\<exists>p x xs s. cpu_proc (cpus (ks S) c) = Some p \<and> parts = x # xs \<and> run_part c p ch lko x (ks S) = Ret s"
proof -
  obtain L where r: "plrep {} (ks S) L" using sinv_rep [OF assms(1)] by blast
  obtain p where p: "p < NPROC" "cpu_proc (cpus (ks S) c) = Some p" "state (procs (ks S) p) = RUNNING"
    using sinv_run [OF assms(1), of c] assms(2) by auto
  have mh: "mode_hold (Falling ch lko parts) (hold S c)" using sinv_hold [OF assms(1), of c] assms(2) by simp
  then obtain x xs where parts: "parts = x # xs" by (auto simp: mode_hold_def)
  have "\<exists>s. run_part c p ch lko x (ks S) = Ret s"
  proof (cases x)
    case AcquireTable
    with assms(3) parts show ?thesis by (simp add: kacquire_free)
  next
    case (ReleaseLock l)
    then obtain n where n: "l = LkOther n" "hold S c = [n]" using mh parts by (auto simp: mode_hold_def)
    then have "holding (locks (ks S) l) c" "0 < ncli (cpus (ks S) c)" using assms(1) by (auto simp: sinv_def lockok_def)
    with krelease_held [of "ks S" l c] sinv_cpu [OF assms(1), of c] ReleaseLock show ?thesis by simp
  next
    case Block
    then have h: "hold S c = []" "xs = []" using mh parts by (auto simp: mode_hold_def)
    have "in_ptable c (ks S)" using assms(1,2) h parts Block by (intro sinv_in) simp_all
    from sleep_locked_rep [OF r this p(2,1,3), of ch lko] Block show ?thesis by (metis run_part.simps(3))
  qed
  with p parts show ?thesis by blast
qed

section \<open>Sleepers and wakers\<close>

text \<open>
  A process is in \<open>sleep(ch, lk)\<close>, with \<open>lk\<close> the lock \<open>n\<close>: on a CPU, anywhere between the call and the
  switch to the scheduler, or off the CPU and not woken yet.
\<close>

definition in_sleep :: "'m sys \<Rightarrow> nat \<Rightarrow> chan \<Rightarrow> nat \<Rightarrow> bool" where
  "in_sleep S p ch n \<longleftrightarrow>
     (\<exists>c parts. cmd S c = Falling (Some ch) (Some (LkOther n)) parts \<and> cpu_proc (cpus (ks S) c) = Some p)
     \<or> state (procs (ks S) p) = SLEEPING \<and> chan (procs (ks S) p) = Some ch
       \<and> (\<exists>ie. ctxt (procs (ks S) p) = InSleep ie (Some (LkOther n)))"

lemma falling_covered:
  assumes "sinv S" and "cmd S c = Falling ch (Some (LkOther n)) parts"
  shows "n \<in> set (hold S c) \<or> lmode (cmd S c)"
  using sinv_hold [OF assms(1), of c] assms(2) by (auto simp: mode_hold_def)

lemma wakeup_busy:
  assumes "locked (locks s LkPtable) \<noteq> 0" and "\<not> holding (locks s LkPtable) d"
  shows "wakeup d ch s = Hang"
  using assms by (simp add: wakeup_def kacquire_def acquire_held_by_other holding_def)

lemma wakeup_wakes:
  assumes "sinv S" and "wakeup d (Some ch) (ks S) = Ret s'" and "p < NPROC"
    and "state (procs (ks S) p) = SLEEPING" and "chan (procs (ks S) p) = Some ch"
  shows "state (procs s' p) = RUNNABLE"
proof -
  have lk: "locked (locks (ks S) LkPtable) = 0" using assms(2) by (auto simp: wakeup_def dest: bindr_acquire_Ret)
  obtain L where r: "plrep {} (ks S) L" using sinv_rep [OF assms(1)] by blast
  have c: "core s' = core (lk_released d LkPtable (wake_all (Some ch) (lk_taken d LkPtable (ks S))))"
    using wakeup_any [OF r lk sinv_cpu [OF assms(1)]] assms(2) by (metis res.inject)
  show ?thesis using core_state [OF c, of p] assms(3-5) by (simp add: kst_simps state_wake_all)
qed

lemma holder_wakes:
  assumes "sinv S" and "p < NPROC" and "in_sleep S p ch n" and "n \<in> set (hold S d)" and "cmd S d = User \<or> cmd S d = Idle"
  shows "if locked (locks (ks S) LkPtable) = 0
         then \<exists>s'. wakeup d (Some ch) (ks S) = Ret s' \<and> state (procs s' p) = RUNNABLE
         else wakeup d (Some ch) (ks S) = Hang"
proof -
  have nl: "\<not> lmode (cmd S d)" using assms(5) by auto
  have L: "lockok S" using assms(1) by (simp add: sinv_def)
  show ?thesis
  proof (cases "locked (locks (ks S) LkPtable) = 0")
    case True
    have nolm: "\<not> lmode (cmd S c)" for c using L True by (auto simp: lockok_def holding_def)
    have "state (procs (ks S) p) = SLEEPING \<and> chan (procs (ks S) p) = Some ch"
    proof (rule ccontr)
      assume "\<not> ?thesis"
      then obtain c parts where c: "cmd S c = Falling (Some ch) (Some (LkOther n)) parts"
        using assms(3) by (auto simp: in_sleep_def)
      then have "n \<in> set (hold S c)" using falling_covered [OF assms(1)] nolm by blast
      then have "holding (locks (ks S) (LkOther n)) c" "holding (locks (ks S) (LkOther n)) d"
        using L assms(4) by (simp_all add: lockok_def)
      then have "c = d" by (simp add: holding_def)
      with c assms(5) show False by auto
    qed
    with wakeup_returns [OF assms(1) True, of d "Some ch"] wakeup_wakes [OF assms(1) _ assms(2)] True show ?thesis by auto
  next
    case False
    then obtain e where e: "lmode (cmd S e)" using L by (auto simp: lockok_def)
    then have "holding (locks (ks S) LkPtable) e" using L by (simp add: lockok_def)
    moreover have "e \<noteq> d" using e nl by auto
    ultimately have "\<not> holding (locks (ks S) LkPtable) d" by (simp add: holding_def)
    with False wakeup_busy show ?thesis by simp
  qed
qed

end
