(* ===== verification/Procdemo.thy ===== *)
theory Procdemo
  imports Procrun
begin

text \<open>
  A concrete machine: the state at power-on, memory components that always succeed, and the states
  the process code reaches from there. The witnesses of the properties evaluate on them.
\<close>

definition proc0 :: proc where
  "proc0 = \<lparr>sz = 0, pgdir = None, kstack = None, state = UNUSED, pid = 0, parent = None,
     tf = \<lparr>tf_eax = 0, tf_trapno = 0, tf_err = 0, tf_eip = 0, tf_cs = 0, tf_eflags = 0, tf_esp = 0,
           tf_ss = 0, tf_ds = 0, tf_es = 0\<rparr>,
     ctxt = AtForkret, chan = None, killed = False, ofile = (\<lambda>_. None), cwd = None, name = [],
     start_ticks = 0, uid = 0, gid = 0, cpu_ticks_total = 0, cpu_ticks_in = 0, pnext = None,
     priority = 0, budget = 0\<rparr>"

definition kst0 :: "unit kst" where
  "kst0 = \<lparr>procs = (\<lambda>_. proc0), ready = (\<lambda>_. None), free_l = None, sleep_l = None, zombie_l = None,
     running_l = None, embryo_l = None, PromoteAtTime = 0, initproc = None, nextpid = 1, ticks = 0,
     locks = (\<lambda>_. \<lparr>locked = 0, lk_name = '''', lk_cpu = None\<rparr>),
     cpus = (\<lambda>_. \<lparr>ncli = 0, intena = False, if_flag = False, cpu_proc = None\<rparr>), mem = ()\<rparr>"

definition os0 :: "unit os" where
  "os0 = \<lparr>os_kalloc = (\<lambda>m. (Some 4096, m)), os_kfree = (\<lambda>_ m. Ret m),
     os_setupkvm = (\<lambda>m. Ret (Some 8192, m)), os_inituvm = (\<lambda>_ m. Ret m),
     os_copyuvm = (\<lambda>_ _ m. Ret (Some 8192, m)), os_freevm = (\<lambda>_ m. Ret m),
     os_allocuvm = (\<lambda>_ _ n m. Ret (n, m)), os_deallocuvm = (\<lambda>_ _ n m. Ret (n, m)),
     os_filedup = (\<lambda>_ m. Ret m), os_idup = (\<lambda>i m. Ret (i, m)), os_namei = (\<lambda>_ m. Ret (Some 1, m)),
     os_fileclose = (\<lambda>_ _ s. Ret s), os_iput_op = (\<lambda>_ _ s. Ret s)\<rparr>"

lemma boot_kst0: "boot kst0"
  by (simp add: boot_def kst0_def proc0_def)

text \<open>The machine boots, so the hypotheses about start-up can be met.\<close>

lemma booted: "\<exists>s. userinit os0 0 kst0 = Ret s"
  by (rule userinit_returns [OF boot_kst0]) (simp_all add: os0_def)

section \<open>A table in use\<close>

text \<open>
  \<open>init\<close> (process 0) waits for its child; process 1 runs on CPU 0; its child 2 is ready, its child
  3 is a zombie; 4 is an embryo; all others are free.
\<close>

definition dproc :: "nat \<Rightarrow> proc" where
  "dproc p =
     (if p = 0 then proc0\<lparr>state := SLEEPING, pid := 1, chan := Some (ChProc 0), pgdir := Some 8192,
                          ctxt := InSleep True (Some LkPtable), budget := 300\<rparr>
      else if p = 1 then proc0\<lparr>state := RUNNING, pid := 2, parent := Some 0, pgdir := Some 8192, budget := 300\<rparr>
      else if p = 2 then proc0\<lparr>state := RUNNABLE, pid := 3, parent := Some 1, pgdir := Some 8192, budget := 300\<rparr>
      else if p = 3 then proc0\<lparr>state := ZOMBIE, pid := 4, parent := Some 1, kstack := Some 4096,
                               pgdir := Some 8192\<rparr>
      else if p = 4 then proc0\<lparr>state := EMBRYO, pid := 5\<rparr>
      else proc0\<lparr>pnext := (if Suc p < NPROC then Some (Suc p) else None)\<rparr>)"

definition demo :: "unit kst" where
  "demo = kst0\<lparr>procs := dproc, ready := (\<lambda>i. if i = 0 then Some 2 else None), free_l := Some 5,
     sleep_l := Some 0, zombie_l := Some 3, running_l := Some 1, embryo_l := Some 4,
     PromoteAtTime := 1100, initproc := Some 0, nextpid := 6, ticks := 7,
     cpus := (\<lambda>c. \<lparr>ncli = 0, intena = False, if_flag = True, cpu_proc = (if c = 0 then Some 1 else None)\<rparr>)\<rparr>"

definition demoL :: "lref \<Rightarrow> nat list" where
  "demoL l = (case l of LFree \<Rightarrow> [5..<NPROC] | LEmbryo \<Rightarrow> [4] | LSleep \<Rightarrow> [0] | LZombie \<Rightarrow> [3]
     | LRunning \<Rightarrow> [1] | LReady i \<Rightarrow> if i = 0 then [2] else [])"

lemma dproc_simps:
  "state (dproc p) = (if p = 0 then SLEEPING else if p = 1 then RUNNING else if p = 2 then RUNNABLE
     else if p = 3 then ZOMBIE else if p = 4 then EMBRYO else UNUSED)"
  "parent (dproc p) = (if p = 1 then Some 0 else if p = 2 \<or> p = 3 then Some 1 else None)"
  "priority (dproc p) = 0"
  "pnext (dproc p) = (if 5 \<le> p \<and> Suc p < NPROC then Some (Suc p) else None)"
  "pgdir (dproc p) = (if p \<le> 3 then Some 8192 else None)"
  "chan (dproc p) = (if p = 0 then Some (ChProc 0) else None)"
  "pid (dproc p) = (if p = 0 then 1 else if p = 1 then 2 else if p = 2 then 3 else if p = 3 then 4
     else if p = 4 then 5 else 0)"
  "killed (dproc p) = False"
  "cpu_ticks_in (dproc p) = 0" "budget (dproc p) = (if p \<le> 2 then 300 else 0)"
  by (auto simp: dproc_def proc0_def)

lemma procs_demo [simp]: "procs demo = dproc"
  by (simp add: demo_def)

lemma chain_up: "k \<le> NPROC \<Longrightarrow> 5 \<le> k \<Longrightarrow>
    chain (nextof demo) (if k < NPROC then Some k else None) [k..<NPROC]"
proof (induction k rule: inc_induct)
  case base
  then show ?case by simp
next
  case (step k)
  then show ?case by (cases "Suc k < NPROC") (auto simp: nextof_def dproc_simps upt_conv_Cons)
qed

lemma demo_rep: "plrep {} demo demoL"
proof -
  have N: "5 < NPROC" by (simp add: NPROC_def)
  have "chain (nextof demo) (getl demo l) (demoL l)" if "valid_lref l" for l
    using that chain_up [of 5] N
    by (cases l) (auto simp: demoL_def demo_def nextof_def dproc_simps)
  moreover have "set (demoL l) = {p. p < NPROC \<and> p \<notin> {} \<and> home demo p = l}" if "valid_lref l" for l
    using N by (cases l) (auto simp: demoL_def home_def home_of_iff dproc_simps)
  moreover have "prio_ok demo" by (simp add: prio_ok_def dproc_simps)
  ultimately show ?thesis by (simp add: plrep_def)
qed

lemma demo_enter: "may_enter 0 demo"
  by (simp add: may_enter_def demo_def kst0_def)

lemma demo_cpu: "cpu_proc (cpus demo 0) = Some 1"
  by (simp add: demo_def)

section \<open>A run\<close>

text \<open>The first pass of CPU 0 after start-up picks a process, which then is \<open>RUNNING\<close>.\<close>

lemma first_pick:
  assumes "sinv S" and "cmd S 0 = Idle" and "hold S 0 = []" and "locked (locks (ks S) LkPtable) = 0"
    and "p < NPROC" and "state (procs (ks S) p) = RUNNABLE"
  obtains q s i where "step os S ((goto 0 Switched s S)\<lparr>sidx := (sidx S)(0 := i)\<rparr>)"
    and "cpu_proc (cpus s 0) = Some q" and "q < NPROC" and "state (procs (ks S) q) = RUNNABLE"
    and "\<And>r. state (procs s r) = (if r = q then RUNNING else state (procs (ks S) r))"
    and "ctxt (procs s q) = ctxt (procs (ks S) q)" and "\<And>n. locks s (LkOther n) = locks (ks S) (LkOther n)"
proof -
  obtain po i s where e: "scheduler_start 0 (ks S) = Ret (po, i, s)"
    using sched_ops_return(1) [OF assms(1-4)] by blast
  have me: "may_enter 0 (ks S)" using assms(1-4) by (intro sinv_enter) simp_all
  obtain L where r: "plrep {} (ks S) L" using sinv_rep [OF assms(1)] by blast
  let ?s = "pass_state 0 (ks S)"
  have r1: "plrep {} ?s L" using r by simp
  obtain s0 where r0: "plrep {} s0 (promoL ?s L)" and c0: "core s0 = core (promo ?s)" using promo_rep [OF r1] .
  have le: "unat (priority (procs s0 p)) \<le> MAXPRIO" by (rule prio_okD [OF plrep_prio [OF r0] assms(5)])
  have "p \<in> set (promoL ?s L (LReady (unat (priority (procs s0 p)))))"
    using assms(5,6) le core_state [OF c0, of p] by (simp add: plrep_mem_iff [OF r0])
  then have ne: "promoL ?s L (LReady (unat (priority (procs s0 p)))) \<noteq> []" by auto
  from pass_scan [OF assms(1) me r] ne le obtain j q qs t where j: "j \<le> MAXPRIO"
    and q: "promoL ?s L (LReady j) = q # qs"
    and sc: "sched_scan 0 0 ?s = Ret (Some q, if j \<noteq> MAXPRIO then -1 else int j, t)"
    and c: "core t = core (upd q (pick_eff (ticks (promo ?s))) (set_curproc 0 (Some q) (promo ?s)))"
    unfolding scan_out_def by blast
  have *: "po = Some q" "s = t" using e sc scheduler_start_eq [OF me] by (simp_all add: sched_end_def)
  show thesis
  proof (rule that)
    show "step os S ((goto 0 Switched s S)\<lparr>sidx := (sidx S)(0 := i)\<rparr>)"
      using e * assms(2,3) by (auto intro: step.pass_pick)
    show "q < NPROC" "state (procs (ks S) q) = RUNNABLE"
      using plrep_mem_iff(6) [OF r0 j, of q] q core_state [OF c0, of q] by simp_all
    show "cpu_proc (cpus s 0) = Some q" using core_cpus [OF c] * by (simp add: kst_simps)
    show "state (procs s r) = (if r = q then RUNNING else state (procs (ks S) r))" for r
      using core_state [OF c, of r] * by (simp add: kst_simps)
    show "ctxt (procs s q) = ctxt (procs (ks S) q)" using core_ctxt [OF c, of q] * by (simp add: kst_simps)
    show "locks s (LkOther n) = locks (ks S) (LkOther n)" for n using core_locks [OF c] * by (simp add: kst_simps)
  qed
qed

text \<open>
  The first process \<open>p\<close> is picked by CPU 0, and starts running with the table lock released and no
  other lock held; all other processes are unused and the other CPUs idle.
\<close>

definition alone :: "nat \<Rightarrow> unit sys \<Rightarrow> bool" where
  "alone p U \<longleftrightarrow> p < NPROC \<and> sinv U \<and> (\<forall>c. hold U c = []) \<and> (\<forall>q. kid U q = None) \<and> (\<forall>c. c \<noteq> 0 \<longrightarrow> cmd U c = Idle)
     \<and> cpu_proc (cpus (ks U) 0) = Some p \<and> (\<forall>n. locked (locks (ks U) (LkOther n)) = 0)
     \<and> (\<forall>q<NPROC. q \<noteq> p \<longrightarrow> state (procs (ks U) q) = UNUSED)"

lemma booted_run:
  obtains S T U p where "userinit os0 0 kst0 = Ret (ks S)" and "idle_start S"
    and "run os0 S T" and "cmd T 0 = Switched" and "state (procs (ks T) p) = RUNNING"
    and "run os0 S U" and "cmd U 0 = User" and "locked (locks (ks U) LkPtable) = 0" and "alone p U"
proof -
  obtain s where s: "userinit os0 0 kst0 = Ret s" using booted by blast
  let ?S = "\<lparr>ks = s, cmd = (\<lambda>_. Idle), sidx = (\<lambda>_. 0), hold = (\<lambda>_. []), kid = (\<lambda>_. None)\<rparr>"
  obtain p L where p: "p < NPROC" "may_enter 0 s" "plrep {} s L" "initproc s = Some p"
      "\<forall>q<NPROC. state (procs s q) = (if q = p then RUNNABLE else UNUSED) \<and> parent (procs s q) = None"
      "pgdir (procs s p) \<noteq> None" "ctxt (procs s p) = AtForkret" "\<forall>d. ncli (cpus s d) = 0"
      "\<forall>n. locks s (LkOther n) = locks kst0 (LkOther n)"
    using userinit_final [OF boot_kst0 s] .
  have st: "idle_start ?S" by (simp add: idle_start_def)
  have S: "sinv ?S" by (rule userinit_sinv [OF boot_kst0 s _ st]) simp
  have lk: "cmd ?S 0 = Idle" "hold ?S 0 = []" "locked (locks (ks ?S) LkPtable) = 0" "state (procs (ks ?S) p) = RUNNABLE"
    using p by (simp_all add: may_enter_def)
  obtain q t i where t: "step os0 ?S ((goto 0 Switched t ?S)\<lparr>sidx := (sidx ?S)(0 := i)\<rparr>)"
    "cpu_proc (cpus t 0) = Some q" "q < NPROC" "state (procs (ks ?S) q) = RUNNABLE"
    "\<And>r. state (procs t r) = (if r = q then RUNNING else state (procs (ks ?S) r))"
    "ctxt (procs t q) = ctxt (procs (ks ?S) q)" "\<And>n. locks t (LkOther n) = locks (ks ?S) (LkOther n)"
    using first_pick [OF S lk(1-3) p(1) lk(4), of os0] by metis
  let ?T = "(goto 0 Switched t ?S)\<lparr>sidx := (sidx ?S)(0 := i)\<rparr>"
  have qp: "q = p" using t(3,4) p(5) by (auto split: if_splits)
  then have cx: "ctxt (procs t p) = AtForkret" using t(6) p(7) by simp
  have T: "sinv ?T" by (rule step_sinv [OF t(1) S])
  have i: "in_ptable 0 t" using sinv_strict(1) [OF T, of 0] by simp
  let ?U = "goto 0 User (lk_released 0 LkPtable t) ?T"
  have u: "step os0 ?T ?U" using t(2) cx i qp by (intro step.resume_forkret) (simp_all add: forkret_def krelease_in)
  have rT: "run os0 ?S ?T" by (rule run_step [OF run_refl t(1)])
  have "alone p ?U"
    using p step_sinv [OF u T] t qp by (simp add: alone_def kst_simps kst0_def)
  moreover have "locked (locks (ks ?U) LkPtable) = 0" by (simp add: lk_released_def)
  ultimately show thesis
    using s st rT run_step [OF rT u] t(5) qp by (intro that [of ?S ?T p ?U]) simp_all
qed

text \<open>If nothing is ready, a CPU back in the scheduler ends its pass.\<close>

lemma back_idle:
  assumes "sinv S" and "cmd S c = Sched" and "\<And>q. q < NPROC \<Longrightarrow> state (procs (ks S) q) \<noteq> RUNNABLE"
  obtains s where "step os S (goto c Idle s S)" and "locked (locks s LkPtable) = 0"
    and "locks s (LkOther n) = locks (ks S) (LkOther n)"
    and "\<And>q. state (procs s q) = state (procs (ks S) q) \<and> chan (procs s q) = chan (procs (ks S) q)
           \<and> ctxt (procs s q) = ctxt (procs (ks S) q)"
proof -
  obtain L where r: "plrep {} (ks S) L" using sinv_rep [OF assms(1)] by blast
  let ?s = "set_curproc c None (ks S)"
  have r1: "plrep {} ?s L" using r by (simp add: kst_simps)
  obtain s0 where r0: "plrep {} s0 (promoL ?s L)" and c0: "core s0 = core (promo ?s)" using promo_rep [OF r1] .
  have none: "promoL ?s L (LReady k) = []" if k: "k \<le> MAXPRIO" for k
  proof (rule ccontr)
    assume "promoL ?s L (LReady k) \<noteq> []"
    then obtain q where "q \<in> set (promoL ?s L (LReady k))" by (cases "promoL ?s L (LReady k)") auto
    then have "q < NPROC" "state (procs (ks S) q) = RUNNABLE"
      using plrep_mem_iff(6) [OF r0 k, of q] core_state [OF c0, of q] by (simp_all add: kst_simps)
    with assms(3) show False by blast
  qed
  obtain s1 where sc: "sched_scan c (sidx S c + 1) ?s = Ret (None, int MAXPRIO + 1, s1)" and i: "in_ptable c s1"
    and c1: "core s1 = core (promo ?s) \<or> s1 = ?s"
  proof (cases "sidx S c = -1")
    case True
    from back_scan(1) [OF assms(1,2) r True] none that show ?thesis unfolding scan_out_def by (metis list.distinct(1))
  next
    case False
    have "in_ptable c ?s" using sinv_strict(1) [OF assms(1), of c] assms(2) by (simp add: in_ptable_def set_curproc_def)
    with back_scan(2) [OF assms(1,2) r False] that show ?thesis by blast
  qed
  have f: "state (procs s1 q) = state (procs (ks S) q)" "chan (procs s1 q) = chan (procs (ks S) q)"
      "ctxt (procs s1 q) = ctxt (procs (ks S) q)" "locks s1 = locks (ks S)" for q
    using c1 core_state [of s1 "promo ?s" q] core_chan [of s1 "promo ?s" q] core_ctxt [of s1 "promo ?s" q] core_locks [of s1 "promo ?s"]
    by (auto simp: kst_simps promo_def promote_all_def promote_on_def)
  have "scheduler_back c (sidx S c) (ks S) = Ret (None, int MAXPRIO + 1, lk_released c LkPtable s1)"
    using sc krelease_in [OF i] by (simp add: scheduler_back_def sched_end_def)
  then have "step os S (goto c Idle (lk_released c LkPtable s1) S)" using assms(2) by (intro step.back_none)
  then show thesis by (rule that) (simp_all add: kst_simps f, simp add: lk_released_def)
qed

text \<open>The process takes lock 3 and sleeps on channel \<open>ch\<close>.\<close>

lemma falls_asleep:
  assumes "run os0 S U" and "cmd U 0 = User" and "locked (locks (ks U) LkPtable) = 0" and "alone p U"
  obtains V where "run os0 S V" and "sinv V" and "cmd V 0 = Sched" and "cmd V 1 = Idle" and "hold V 1 = []"
    and "locked (locks (ks V) (LkOther 3)) = 0" and "in_sleep V p ch 3"
    and "\<forall>q<NPROC. state (procs (ks V) q) = (if q = p then SLEEPING else UNUSED)"
proof -
  note al = assms(4) [unfolded alone_def]
  let ?u1 = "lk_taken 0 (LkOther 3) (ks U)"
  let ?V1 = "(goto 0 User ?u1 U)\<lparr>hold := (hold U)(0 := [3])\<rparr>"
  have s1: "step os0 U ?V1" using step.lock [of U 0 3 ?u1 os0] al assms(2) by (simp add: kacquire_free)
  let ?lko = "Some (LkOther 3)"
  let ?V2 = "goto 0 (Falling (Some ch) ?lko (sleep_parts ?lko)) ?u1 ?V1"
  have s2: "step os0 ?V1 ?V2"
    using step.do_sleep [of ?V1 0 p ?lko os0 "Some ch"] al by (simp add: kst_simps)
  let ?u3 = "lk_taken 0 LkPtable ?u1"
  let ?V3 = "(goto 0 (Falling (Some ch) ?lko [ReleaseLock (LkOther 3), Block]) ?u3 ?V2)\<lparr>hold := hold ?V2\<rparr>"
  have s3: "step os0 ?V2 ?V3"
    using step.fall [of ?V2 0 "Some ch" ?lko AcquireTable "[ReleaseLock (LkOther 3), Block]" p ?u3 os0] al assms(3)
    by (simp add: sleep_parts_def kst_simps kacquire_free)
  have "sinv U" using al by blast
  then have V3: "sinv ?V3" by (rule step_sinv [OF s3 step_sinv [OF s2 step_sinv [OF s1]]])
  obtain u4 where u4: "krelease 0 (LkOther 3) ?u3 = Ret u4" "u4 = lk_released 0 (LkOther 3) ?u3"
    using krelease_held [of ?u3 "LkOther 3" 0] sinv_cpu [OF V3, of 0] V3 by (simp add: sinv_def lockok_def)
  let ?V4 = "(goto 0 (Falling (Some ch) ?lko [Block]) u4 ?V3)\<lparr>hold := (hold ?V3)(0 := [])\<rparr>"
  have s4: "step os0 ?V3 ?V4"
    using step.fall [of ?V3 0 "Some ch" ?lko "ReleaseLock (LkOther 3)" "[Block]" p u4 os0] al u4 by (simp add: kst_simps)
  have V4: "sinv ?V4" by (rule step_sinv [OF s4 V3])
  obtain L where r4: "plrep {} u4 L" using sinv_rep [OF V4] by auto
  have i4: "in_ptable 0 u4" using sinv_in [OF V4, of 0] by simp
  have p4: "cpu_proc (cpus u4 0) = Some p" "state (procs u4 p) = RUNNING"
    using al sinv_run [OF V4, of 0] u4 by (auto simp: kst_simps)
  obtain u5 where u5: "sleep_locked 0 p (Some ch) ?lko u4 = Ret u5"
    and c5: "core u5 = core (upd p (sleep_eff (ticks u4) (Some ch) (InSleep (intena (cpus u4 0)) ?lko)) u4)"
    using sleep_locked_rep [OF r4 i4 p4(1) _ p4(2)] al by metis
  let ?V5 = "(goto 0 Sched u5 ?V4)\<lparr>hold := hold ?V4\<rparr>"
  have s5: "step os0 ?V4 ?V5" using step.fall [of ?V4 0 "Some ch" ?lko Block "[]" p u5 os0] u5 p4 by simp
  have V5: "sinv ?V5" by (rule step_sinv [OF s5 V4])
  have p5: "state (procs u5 p) = SLEEPING" "chan (procs u5 p) = Some ch" "\<exists>ie. ctxt (procs u5 p) = InSleep ie ?lko"
    using core_state [OF c5, of p] core_chan [OF c5, of p] core_ctxt [OF c5, of p]
    by (simp_all add: kst_simps sleep_eff_def sched_eff_def charge_def Let_def)
  have l5: "locked (locks u5 (LkOther 3)) = 0" using core_locks [OF c5] u4 by (simp add: kst_simps lk_released_def)
  have nr: "state (procs (ks ?V5) q) = (if q = p then SLEEPING else UNUSED)" if "q < NPROC" for q
    using core_state [OF c5, of q] al that u4 by (auto simp: kst_simps)
  have "run os0 S ?V5"
    by (rule run_step [OF run_step [OF run_step [OF run_step [OF run_step [OF assms(1) s1] s2] s3] s4] s5])
  then show thesis
    using V5 p5 l5 al nr by (intro that) (auto simp: in_sleep_def)
qed

text \<open>CPU 0 then has nothing to run, and an interrupt handler on CPU 1 takes the lock.\<close>

lemma asleep_run:
  assumes "run os0 S U" and "cmd U 0 = User" and "locked (locks (ks U) LkPtable) = 0" and "alone p U"
  obtains V where "run os0 S V" and "in_sleep V p ch 3" and "3 \<in> set (hold V 1)" and "cmd V 1 = Idle"
    and "locked (locks (ks V) LkPtable) = 0" and "p < NPROC"
proof -
  have pn: "p < NPROC" using assms(4) by (simp add: alone_def)
  obtain V where V: "run os0 S V" "sinv V" "cmd V 0 = Sched" "cmd V 1 = Idle" "hold V 1 = []"
    "locked (locks (ks V) (LkOther 3)) = 0" "in_sleep V p ch 3"
    and st: "\<forall>q<NPROC. state (procs (ks V) q) = (if q = p then SLEEPING else UNUSED)"
    using falls_asleep [OF assms, of ch] .
  have nr: "state (procs (ks V) q) \<noteq> RUNNABLE" if "q < NPROC" for q using st that by simp
  have p: "state (procs (ks V) p) = SLEEPING" using st pn by simp
  then have "\<not> (rmode (cmd V c) \<and> cpu_proc (cpus (ks V) c) = Some p)" for c using sinv_run [OF V(2), of c] by auto
  then have "\<nexists>c parts. cmd V c = Falling (Some ch) (Some (LkOther 3)) parts \<and> cpu_proc (cpus (ks V) c) = Some p"
    by (metis rmode_simps(5))
  with V(7) have ch: "chan (procs (ks V) p) = Some ch \<and> (\<exists>ie. ctxt (procs (ks V) p) = InSleep ie (Some (LkOther 3)))"
    unfolding in_sleep_def by blast
  obtain u where s6: "step os0 V (goto 0 Idle u V)" and l6: "locked (locks u LkPtable) = 0"
    "locks u (LkOther 3) = locks (ks V) (LkOther 3)"
    and p6: "\<And>q. state (procs u q) = state (procs (ks V) q) \<and> chan (procs u q) = chan (procs (ks V) q)
           \<and> ctxt (procs u q) = ctxt (procs (ks V) q)"
    using back_idle [OF V(2,3) nr, of os0 3] by auto
  let ?V6 = "goto 0 Idle u V"
  let ?V7 = "(goto 1 Idle (lk_taken 1 (LkOther 3) u) ?V6)\<lparr>hold := (hold ?V6)(1 := [3])\<rparr>"
  have s7: "step os0 ?V6 ?V7"
    using step.lock [of ?V6 1 3 "lk_taken 1 (LkOther 3) u" os0] l6 V by (simp add: kacquire_free)
  show thesis
    using p ch p6 [of p] l6(1) pn run_step [OF run_step [OF V(1) s6] s7]
    by (intro that [of ?V7]) (auto simp: in_sleep_def kst_simps)
qed

end
