(* ===== verification/Procspec.thy ===== *)
theory Procspec
  imports Procdemo
begin

text \<open>
  The properties of the process code (\<open>src/proc.c\<close>): the invariant of all runs, and the
  behaviour of each operation on a table whose lists are right.
\<close>

section \<open>Runs\<close>

text \<open>
  C1: From start-up on, whatever the CPUs do and in whatever order, every process of the table is
  on exactly one of the state lists, the one of its state (for a ready process, the one of its
  priority), and every list is a proper, finite pointer chain.
\<close>

theorem lists_always_right:
  assumes "boot s0" and "userinit os c0 s0 = Ret (ks S0)" and "idle_start S0" and "run os S0 S"
  shows "plinv (ks S)"
  using reach_sinv [OF assms] by (simp add: sinv_def)

theorem lists_always_right_witness:
  "\<exists>S0 S. boot kst0 \<and> userinit os0 0 kst0 = Ret (ks S0) \<and> idle_start S0 \<and> run os0 S0 S \<and> cmd S 0 = User \<and> plinv (ks S)"
proof -
  obtain S U where h: "userinit os0 0 kst0 = Ret (ks S)" "idle_start S" "run os0 S U" "cmd U 0 = User"
    using booted_run by metis
  from lists_always_right [OF boot_kst0 h(1-3)] h boot_kst0 show ?thesis by blast
qed

text \<open>
  C5: No process is ever orphaned: in every reachable state \<open>initproc\<close> is alive, and every other
  process in use has a parent that is alive and can wait for it.
\<close>

theorem no_orphans:
  assumes "boot s0" and "userinit os c0 s0 = Ret (ks S0)" and "idle_start S0" and "run os S0 S"
  shows "fam (ks S)"
  using reach_sinv [OF assms] by (simp add: sinv_def)

theorem no_orphans_witness:
  "\<exists>S0 S. boot kst0 \<and> userinit os0 0 kst0 = Ret (ks S0) \<and> idle_start S0 \<and> run os0 S0 S \<and> cmd S 0 = User \<and> fam (ks S)"
proof -
  obtain S U where h: "userinit os0 0 kst0 = Ret (ks S)" "idle_start S" "run os0 S U" "cmd U 0 = User"
    using booted_run by metis
  from no_orphans [OF boot_kst0 h(1-3)] h boot_kst0 show ?thesis by blast
qed

text \<open>
  C6: A process is never run by two CPUs: in every reachable state a \<open>RUNNING\<close> process is the
  current process of exactly one CPU that is running a process.
\<close>

theorem one_cpu_per_process:
  assumes "boot s0" and "userinit os c0 s0 = Ret (ks S0)" and "idle_start S0" and "run os S0 S"
    and "p < NPROC" and "state (procs (ks S) p) = RUNNING"
  shows "\<exists>!c. rmode (cmd S c) \<and> cpu_proc (cpus (ks S) c) = Some p"
proof -
  have "cpuok S" using reach_sinv [OF assms(1-4)] by (simp add: sinv_def)
  with assms(5,6) show ?thesis unfolding cpuok_def by metis
qed

theorem one_cpu_per_process_witness:
  "\<exists>S0 S p. boot kst0 \<and> userinit os0 0 kst0 = Ret (ks S0) \<and> idle_start S0 \<and> run os0 S0 S
     \<and> p < NPROC \<and> state (procs (ks S) p) = RUNNING
     \<and> (\<exists>!c. rmode (cmd S c) \<and> cpu_proc (cpus (ks S) c) = Some p)"
proof -
  obtain S T U p where h: "userinit os0 0 kst0 = Ret (ks S)" "idle_start S" "run os0 S T"
    "state (procs (ks T) p) = RUNNING" "alone p U"
    using booted_run by metis
  then have p: "p < NPROC" by (simp add: alone_def)
  from one_cpu_per_process [OF boot_kst0 h(1-3) p h(4)] h p boot_kst0 show ?thesis by blast
qed

text \<open>
  C3: The kernel does not panic, fault or loop: in every reachable state in which a CPU is running a
  process \<open>p\<close> and the table lock is free, every critical section of the process code that \<open>p\<close> can
  start there returns, so no assertion on process states, lists or locks in it fails. With any locks
  held, \<open>wakeup\<close>; with one lock held, \<open>sleep\<close> on that lock; with none, \<open>yield\<close>, \<open>sleep\<close> without a
  lock, \<open>exit\<close>, \<open>kill\<close>, \<open>setpriority\<close> and the taking of an unused process; in \<open>fork\<close>, both ends of it,
  for the process taken; and \<open>wait\<close>, if the memory of \<open>p\<close>'s zombie children can be freed.
\<close>

theorem operations_never_panic:
  assumes "boot s0" and "userinit os c0 s0 = Ret (ks S0)" and "idle_start S0" and "run os S0 S"
    and "cmd S c = User" and "locked (locks (ks S) LkPtable) = 0"
  shows "\<exists>p. cpu_proc (cpus (ks S) c) = Some p
    \<and> (\<exists>s. wakeup c ch (ks S) = Ret s)
    \<and> (\<forall>n. hold S c = [n] \<longrightarrow> (\<exists>s. sleep c ch (Some (LkOther n)) (ks S) = Ret s))
    \<and> (hold S c = [] \<longrightarrow>
        (\<exists>s. yield c (ks S) = Ret s) \<and> (\<exists>s. sleep c ch None (ks S) = Ret s) \<and> (\<exists>s. exit_locked c p (ks S) = Ret s)
        \<and> (\<exists>rc s. kill c pd (ks S) = Ret (rc, s)) \<and> (\<exists>rc s. setpriority c pd prio (ks S) = Ret (rc, s))
        \<and> (\<exists>po s. allocproc_take c (ks S) = Ret (po, s))
        \<and> (\<forall>np. kid S p = Some np \<longrightarrow> (\<exists>s. embryo_to_free msg c np (ks S) = Ret s)
             \<and> (\<exists>s. fork_ready c np (upd np (fork_fill p k pg (ks S)) (ks S)) = Ret s))
        \<and> (reap_ok os p (ks S) \<longrightarrow> (\<exists>out s. wait os c (ks S) = Ret (out, s))))"
proof -
  have S: "sinv S" by (rule reach_sinv [OF assms(1-4)])
  obtain p where p: "cpu_proc (cpus (ks S) c) = Some p" using sinv_run [OF S, of c] assms(5) by auto
  note returns = wakeup_returns [OF S assms(6)] sleep_other_returns [OF S assms(5) _ assms(6)]
    user_ops_return [OF S _ assms(6) p] fork_parts_return [OF S _ assms(6)] wait_returns [OF S _ assms(6) p]
  show ?thesis by (rule exI [of _ p]) (simp add: returns p assms(5))
qed

theorem operations_never_panic_witness:
  "\<exists>S0 S. boot kst0 \<and> userinit os0 0 kst0 = Ret (ks S0) \<and> idle_start S0 \<and> run os0 S0 S
     \<and> cmd S 0 = User \<and> hold S 0 = [] \<and> locked (locks (ks S) LkPtable) = 0
     \<and> (\<exists>s. yield 0 (ks S) = Ret s) \<and> (\<exists>s. wakeup 0 (Some ChTicks) (ks S) = Ret s)
     \<and> (\<exists>out s. wait os0 0 (ks S) = Ret (out, s))"
proof -
  obtain S U p where h: "userinit os0 0 kst0 = Ret (ks S)" "idle_start S" "run os0 S U"
    "cmd U 0 = User" "locked (locks (ks U) LkPtable) = 0" "alone p U"
    using booted_run by metis
  have "reap_ok os0 q (ks U)" for q by (simp add: reap_ok_def os0_def)
  moreover have "hold U 0 = []" using h(6) by (simp add: alone_def)
  ultimately show ?thesis
    using operations_never_panic [OF boot_kst0 h(1-5), of "Some ChTicks"] h boot_kst0 by blast
qed

text \<open>
  C7: The scheduler makes progress: in every reachable state a CPU that is idle (with the table
  lock free) or has come back to the scheduler finishes its pass, and a CPU that switched to a
  process resumes it where it gave up the CPU, in \<open>forkret\<close>, \<open>yield\<close> or \<open>sleep\<close>; an exited
  process is never resumed. A process that resumes in \<open>sleep\<close> gives the table lock back, and gets
  its caller's lock once that is free; a process in \<open>wait\<close> goes on there; and one that is falling
  asleep does the next part of \<open>sleep\<close>.
\<close>

theorem scheduler_never_stuck:
  assumes "boot s0" and "userinit os c0 s0 = Ret (ks S0)" and "idle_start S0" and "run os S0 S"
  shows "case cmd S c of
      Idle \<Rightarrow> hold S c = [] \<longrightarrow> locked (locks (ks S) LkPtable) = 0 \<longrightarrow>
        (\<exists>po i s. scheduler_start c (ks S) = Ret (po, i, s))
    | Sched \<Rightarrow> \<exists>po i s. scheduler_back c (sidx S c) (ks S) = Ret (po, i, s)
    | Switched \<Rightarrow> \<exists>p s. cpu_proc (cpus (ks S) c) = Some p \<and>
           (ctxt (procs (ks S) p) = AtForkret \<and> forkret c (ks S) = Ret s
            \<or> (\<exists>ie. ctxt (procs (ks S) p) = InYield ie \<and> yield_resume c ie (ks S) = Ret s)
            \<or> (\<exists>ie lko. ctxt (procs (ks S) p) = InSleep ie lko \<and> sleep_wake c ie lko (ks S) = Ret s
                \<and> ((\<forall>n. lko = Some (LkOther n) \<longrightarrow> locked (locks (ks S) (LkOther n)) = 0) \<longrightarrow>
                    (\<exists>s'. sleep_resume c ie lko (ks S) = Ret s'))))
    | Relock n \<Rightarrow> locked (locks (ks S) (LkOther n)) = 0 \<longrightarrow> (\<exists>s. kacquire c (LkOther n) (ks S) = Ret s)
    | Waiting \<Rightarrow> \<exists>p. cpu_proc (cpus (ks S) c) = Some p \<and>
           (reap_ok os p (ks S) \<longrightarrow> (\<exists>out s. wait_turn os c (ks S) = Ret (out, s)))
    | Falling ch lko parts \<Rightarrow> (AcquireTable \<in> set parts \<longrightarrow> locked (locks (ks S) LkPtable) = 0) \<longrightarrow>
           (\<exists>p x xs s. cpu_proc (cpus (ks S) c) = Some p \<and> parts = x # xs \<and> run_part c p ch lko x (ks S) = Ret s)
    | User \<Rightarrow> True"
proof (cases "cmd S c")
  case Waiting
  have S: "sinv S" by (rule reach_sinv [OF assms])
  obtain p where p: "cpu_proc (cpus (ks S) c) = Some p" using sinv_run [OF S, of c] Waiting by auto
  have "entered c S (ks S)" using sinv_strict(2) [OF S, of c] Waiting by (simp add: entered_def)
  with wait_turn_returns [OF S _ _ p] Waiting p show ?thesis by simp
next
  case (Falling ch lko parts)
  with fall_returns [OF reach_sinv [OF assms] Falling] show ?thesis by simp
qed (use sched_ops_return [OF reach_sinv [OF assms], of c] switched_returns [OF reach_sinv [OF assms], of c]
     in \<open>simp_all add: kacquire_free\<close>)

theorem scheduler_never_stuck_witness:
  "\<exists>S0 S. boot kst0 \<and> userinit os0 0 kst0 = Ret (ks S0) \<and> idle_start S0 \<and> run os0 S0 S
     \<and> cmd S 0 = Switched \<and> (\<exists>p. cpu_proc (cpus (ks S) 0) = Some p)"
proof -
  obtain S T where h: "userinit os0 0 kst0 = Ret (ks S)" "idle_start S" "run os0 S T" "cmd T 0 = Switched"
    using booted_run by metis
  from scheduler_never_stuck [OF boot_kst0 h(1-3), of 0] h boot_kst0 show ?thesis by auto
qed

text \<open>
  C19: No wakeup is lost: in every reachable state, if a process \<open>p\<close> is anywhere in \<open>sleep(ch, lk)\<close>,
  from the call until it is woken, then a CPU that holds \<open>lk\<close> and calls \<open>wakeup(ch)\<close> makes \<open>p\<close>
  \<open>RUNNABLE\<close>, or waits for the table lock first. So \<open>p\<close> cannot miss a change that is made under \<open>lk\<close>
  after \<open>p\<close> looked, however the parts of \<open>sleep\<close> and the waker interleave: while \<open>p\<close> is on its way to
  sleep its CPU holds \<open>lk\<close> or the table lock.
\<close>

theorem no_lost_wakeup:
  assumes "boot s0" and "userinit os c0 s0 = Ret (ks S0)" and "idle_start S0" and "run os S0 S"
    and "p < NPROC" and "in_sleep S p ch n"
  shows "(n \<in> set (hold S d) \<and> (cmd S d = User \<or> cmd S d = Idle) \<longrightarrow>
           (if locked (locks (ks S) LkPtable) = 0
            then \<exists>s'. wakeup d (Some ch) (ks S) = Ret s' \<and> state (procs s' p) = RUNNABLE
            else wakeup d (Some ch) (ks S) = Hang))
       \<and> (\<forall>c parts. cmd S c = Falling (Some ch) (Some (LkOther n)) parts \<longrightarrow>
           holding (locks (ks S) (LkOther n)) c \<or> holding (locks (ks S) LkPtable) c)"
proof -
  have S: "sinv S" by (rule reach_sinv [OF assms(1-4)])
  then have "n \<in> set (hold S c) \<Longrightarrow> holding (locks (ks S) (LkOther n)) c"
    "lmode (cmd S c) \<Longrightarrow> holding (locks (ks S) LkPtable) c" for c
    by (simp_all add: sinv_def lockok_def)
  with holder_wakes [OF S assms(5,6)] falling_covered [OF S] show ?thesis by blast
qed

theorem no_lost_wakeup_witness:
  "\<exists>S0 S p s'. boot kst0 \<and> userinit os0 0 kst0 = Ret (ks S0) \<and> idle_start S0 \<and> run os0 S0 S \<and> p < NPROC
     \<and> in_sleep S p (ChPipeR 7) 3 \<and> 3 \<in> set (hold S 1) \<and> locked (locks (ks S) LkPtable) = 0
     \<and> wakeup 1 (Some (ChPipeR 7)) (ks S) = Ret s' \<and> state (procs s' p) = RUNNABLE"
proof -
  obtain S U p where h: "userinit os0 0 kst0 = Ret (ks S)" "idle_start S" "run os0 S U"
    "cmd U 0 = User" "locked (locks (ks U) LkPtable) = 0" "alone p U"
    using booted_run by metis
  obtain V where v: "run os0 S V" "in_sleep V p (ChPipeR 7) 3" "3 \<in> set (hold V 1)" "cmd V 1 = Idle"
    "locked (locks (ks V) LkPtable) = 0" "p < NPROC"
    using asleep_run [OF h(3-6)] .
  from no_lost_wakeup [OF boot_kst0 h(1,2) v(1,6,2), of 1] v obtain s' where
    "wakeup 1 (Some (ChPipeR 7)) (ks V) = Ret s'" "state (procs s' p) = RUNNABLE" by auto
  with h v boot_kst0 show ?thesis by blast
qed

end
