(* ===== verification/Procapi.thy ===== *)
theory Procapi
  imports Procdemo
begin

text \<open>
  What each operation of \<open>src/proc.c\<close> does, on a table whose lists are right and a free table
  lock: scheduling, \<open>yield\<close>, \<open>sleep\<close> and \<open>wakeup\<close>, \<open>exit\<close> and \<open>wait\<close>, \<open>kill\<close>, \<open>setpriority\<close>,
  promotion. Every witness runs the operation on the table \<open>demo\<close>.
\<close>

section \<open>Scheduling\<close>

lemma promo_state [simp]: "state (procs (promo s) q) = state (procs s q)"
  by (simp add: promo_def promote_all_def promote_on_def)

lemma promo_pass [simp]: "procs (promo (pass_state c s)) = procs (promo s)"
  by (auto simp: promo_def promote_all_def promote_on_def fun_eq_iff)

lemma promoL_pass [simp]: "promoL (pass_state c s) L = promoL s L"
  by (simp add: promoL_def)

lemma promo_ready_list:
  assumes "plrep {} s L" and "q < NPROC" and "state (procs s q) = RUNNABLE"
  shows "q \<in> set (promoL s L (LReady (unat (priority (procs (promo s) q)))))"
    and "unat (priority (procs (promo s) q)) \<le> MAXPRIO"
proof -
  obtain s1 where r: "plrep {} s1 (promoL s L)" and c: "core s1 = core (promo s)"
    using promo_rep [OF assms(1)] .
  show le: "unat (priority (procs (promo s) q)) \<le> MAXPRIO"
    using prio_okD [OF plrep_prio [OF r] assms(2)] core_priority [OF c, of q] by simp
  then show "q \<in> set (promoL s L (LReady (unat (priority (procs (promo s) q)))))"
    using assms(2,3) core_state [OF c, of q] core_priority [OF c, of q] by (simp add: plrep_mem_iff [OF r])
qed

lemma promo_ready_mem:
  assumes "plrep {} s L" and "i \<le> MAXPRIO" and "q \<in> set (promoL s L (LReady i))"
  shows "q < NPROC" and "state (procs s q) = RUNNABLE" and "unat (priority (procs (promo s) q)) = i"
proof -
  obtain s1 where r: "plrep {} s1 (promoL s L)" and c: "core s1 = core (promo s)"
    using promo_rep [OF assms(1)] .
  from assms(3) show "q < NPROC" "state (procs s q) = RUNNABLE" "unat (priority (procs (promo s) q)) = i"
    using core_state [OF c, of q] core_priority [OF c, of q] by (simp_all add: plrep_mem_iff(6) [OF r assms(2)])
qed

text \<open>
  C22: A pass of the scheduler runs the right process: after the promotion that may be due, it
  takes the first process of the ready list of the best (lowest) priority that has any, makes it
  \<open>RUNNING\<close> and the CPU's process; it finds nothing only if no process is \<open>RUNNABLE\<close>.
\<close>

theorem scheduler_picks_best:
  assumes "plrep {} s L" and "may_enter c s"
    and "\<forall>p<NPROC. state (procs s p) = RUNNABLE \<longrightarrow> pgdir (procs s p) \<noteq> None"
  shows "\<exists>po i s'. scheduler_start c s = Ret (po, i, s') \<and>
    (case po of
       None \<Rightarrow> \<forall>q<NPROC. state (procs s q) \<noteq> RUNNABLE
     | Some p \<Rightarrow> p < NPROC \<and> state (procs s p) = RUNNABLE \<and> state (procs s' p) = RUNNING
         \<and> cpu_proc (cpus s' c) = Some p
         \<and> (\<exists>ps. promoL s L (LReady (unat (priority (procs s' p)))) = p # ps)
         \<and> (\<forall>q<NPROC. state (procs s q) = RUNNABLE \<longrightarrow> priority (procs s' p) \<le> priority (procs (promo s) q)))"
proof -
  let ?s = "pass_state c s"
  have "scan_out c 0 (promo ?s) (promoL ?s L) (sched_scan c (int 0) ?s)"
    using assms by (intro sched_scan_rep) simp_all
  then consider (pick) j p ps s' where "j \<le> MAXPRIO" "\<forall>k<j. promoL s L (LReady k) = []"
        "promoL s L (LReady j) = p # ps" "sched_scan c 0 ?s = Ret (Some p, if j \<noteq> MAXPRIO then -1 else int j, s')"
        "core s' = core (upd p (pick_eff (ticks (promo ?s))) (set_curproc c (Some p) (promo ?s)))"
    | (idle) s' where "\<forall>k\<le>MAXPRIO. promoL s L (LReady k) = []" "sched_scan c 0 ?s = Ret (None, int MAXPRIO + 1, s')"
        "in_ptable c s'"
    unfolding scan_out_def by fastforce
  then show ?thesis
  proof cases
    case pick
    have st: "state (procs s' p) = RUNNING" "priority (procs s' p) = priority (procs (promo s) p)"
      using core_state [OF pick(5), of p] core_priority [OF pick(5), of p] by (simp_all add: kst_simps pick_eff_def)
    have m: "p < NPROC" "state (procs s p) = RUNNABLE" "unat (priority (procs (promo s) p)) = j"
      using promo_ready_mem [OF assms(1) pick(1), of p] pick(3) by simp_all
    have best: "priority (procs s' p) \<le> priority (procs (promo s) q)" if "q < NPROC" "state (procs s q) = RUNNABLE" for q
      using promo_ready_list [OF assms(1) that] pick(2) m(3) st(2) by (auto simp: word_le_nat_alt not_less [symmetric])
    have "cpu_proc (cpus s' c) = Some p" using core_cpus [OF pick(5)] by (simp add: kst_simps)
    then show ?thesis
      using pick(3,4) m st best by (simp add: scheduler_start_eq [OF assms(2)] sched_end_def)
  next
    case idle
    have "state (procs s q) \<noteq> RUNNABLE" if "q < NPROC" for q
      using promo_ready_list [OF assms(1) that] idle(1) by fastforce
    then show ?thesis
      using idle(2) krelease_in [OF idle(3)] by (simp add: scheduler_start_eq [OF assms(2)] sched_end_def)
  qed
qed

theorem scheduler_picks_best_witness:
  "\<exists>i s'. scheduler_start 0 demo = Ret (Some 2, i, s') \<and> state (procs s' 2) = RUNNING"
proof -
  have "\<forall>p<NPROC. state (procs demo p) = RUNNABLE \<longrightarrow> pgdir (procs demo p) \<noteq> None" by (simp add: dproc_simps)
  from scheduler_picks_best [OF demo_rep demo_enter this] obtain po i s' where
    e: "scheduler_start 0 demo = Ret (po, i, s')" and
    c: "case po of None \<Rightarrow> \<forall>q<NPROC. state (procs demo q) \<noteq> RUNNABLE
        | Some p \<Rightarrow> p < NPROC \<and> state (procs demo p) = RUNNABLE \<and> state (procs s' p) = RUNNING" by (auto split: option.splits)
  have "\<not> (\<forall>q<NPROC. state (procs demo q) \<noteq> RUNNABLE)" by (auto intro!: exI [of _ 2] simp: dproc_simps NPROC_def)
  with c obtain p where p: "po = Some p" "state (procs demo p) = RUNNABLE" "state (procs s' p) = RUNNING"
    by (cases po) auto
  from p(2) have "p = 2" by (simp add: dproc_simps split: if_splits)
  with e p show ?thesis by blast
qed

section \<open>Giving up the CPU\<close>

text \<open>Every process but those in \<open>A\<close> is as it was, list pointers aside.\<close>

definition same_but :: "nat set \<Rightarrow> 'm kst \<Rightarrow> 'm kst \<Rightarrow> bool" where
  "same_but A s s' \<longleftrightarrow> (\<forall>q. q \<notin> A \<longrightarrow> (procs s' q)\<lparr>pnext := None\<rparr> = (procs s q)\<lparr>pnext := None\<rparr>)"

lemma same_but_core: "core s' = core t \<Longrightarrow> (\<And>q. q \<notin> A \<Longrightarrow> procs t q = procs s q) \<Longrightarrow> same_but A s s'"
  by (simp add: same_but_def core_procs [of s' t])

text \<open>
  C28: \<open>yield\<close> puts the running process at the tail of the ready list of its (new) priority and
  charges the time it ran: if that used up the budget exactly, the process moves one priority
  down, unless it is at the lowest, and gets a fresh budget; otherwise the budget shrinks. No
  other process changes.
\<close>

theorem yield_requeues:
  assumes "plrep {} s L" and "may_enter c s" and "cpu_proc (cpus s c) = Some p"
    and "p < NPROC" and "state (procs s p) = RUNNING"
  defines "used \<equiv> ticks s - cpu_ticks_in (procs s p)"
  shows "\<exists>s' L'. yield c s = Ret s' \<and> plrep {} s' L' \<and> state (procs s' p) = RUNNABLE \<and> same_but {p} s s'
    \<and> L' (LReady (unat (priority (procs s' p)))) = L (LReady (unat (priority (procs s' p)))) @ [p]
    \<and> (if budget (procs s p) = used
       then budget (procs s' p) = DEFAULT_BUDGET
          \<and> unat (priority (procs s' p)) = min (unat (priority (procs s p)) + 1) MAXPRIO
       else budget (procs s' p) = budget (procs s p) - used \<and> priority (procs s' p) = priority (procs s p))"
proof -
  let ?i = "unat (priority (charge (ticks s) (procs s p)))"
  obtain s' where e: "yield c s = Ret s'"
    and r: "plrep {} s' (L(LRunning := remove1 p (L LRunning), LReady ?i := L (LReady ?i) @ [p]))"
    and c: "core s' = core (upd p (yield_eff (ticks s) (InYield (if_flag (cpus s c)))) (lk_taken c LkPtable s))"
    using yield_rep [OF assms(1-5) refl] .
  have le: "unat (priority (procs s p)) \<le> MAXPRIO" by (rule prio_okD [OF plrep_prio [OF assms(1)] assms(4)])
  have up: "unat (priority (procs s p) + 1) = unat (priority (procs s p)) + 1"
    using le by (simp add: unat_word_ariths MAXPRIO_def)
  have p: "priority (procs s' p) = priority (charge (ticks s) (procs s p))"
      "budget (procs s' p) = budget (charge (ticks s) (procs s p))" "state (procs s' p) = RUNNABLE"
    using core_priority [OF c, of p] core_budget [OF c, of p] core_state [OF c, of p]
    by (simp_all add: kst_simps yield_eff_def sched_eff_def charge_def Let_def)
  have "same_but {p} s s'" by (rule same_but_core [OF c]) (simp add: kst_simps)
  then show ?thesis using e r p le up
    by (intro exI conjI) (assumption | simp add: charge_def Let_def used_def)+
qed

lemma demo_run: "(1::nat) < NPROC" "state (procs demo 1) = RUNNING" "ticks demo = 7"
  by (simp_all add: NPROC_def dproc_simps) (simp add: demo_def)

theorem yield_requeues_witness:
  "\<exists>s' L'. yield 0 demo = Ret s' \<and> plrep {} s' L' \<and> L' (LReady 0) = [2, 1]
     \<and> budget (procs s' 1) = 293 \<and> priority (procs s' 1) = 0"
  using yield_requeues [OF demo_rep demo_enter demo_cpu demo_run(1,2)]
  by (auto simp: demo_run(3) dproc_simps demoL_def)

lemma sub_wraps:
  assumes "unat (b :: u32) < unat r"
  shows "unat (b - r) = 2 ^ 32 - (unat r - unat b)" and "b \<noteq> r"
  using assms unsigned_less [of r] by (auto simp: unat_sub_if_size word_size)

text \<open>
  C39: The budget is an unsigned number, and only a budget of exactly \<open>0\<close> counts as used up: a
  process that ran longer than its budget is not demoted, and its budget becomes larger than the
  time any process is given, by wrapping around.
\<close>

theorem charge_overrun:
  assumes "unat (budget pr) < unat (now - cpu_ticks_in pr)"
  shows "priority (charge now pr) = priority pr
    \<and> unat (budget (charge now pr)) = 2 ^ 32 - (unat (now - cpu_ticks_in pr) - unat (budget pr))"
  using sub_wraps [OF assms] by (simp add: charge_def Let_def)

theorem charge_overrun_witness:
  "unat (budget (dproc 1)) < unat (301 - cpu_ticks_in (dproc 1))
   \<and> priority (charge 301 (dproc 1)) = 0 \<and> unat (budget (charge 301 (dproc 1))) = 4294967295"
proof -
  have h: "unat (budget (dproc 1)) < unat (301 - cpu_ticks_in (dproc 1))" by (simp add: dproc_simps)
  from charge_overrun [OF h] have "priority (charge 301 (dproc 1)) = 0"
    "unat (budget (charge 301 (dproc 1))) = 4294967295" by (simp_all add: dproc_simps)
  with h show ?thesis by blast
qed

section \<open>Sleep and wakeup\<close>

text \<open>
  C23: The list version of \<open>wakeup1\<close> is the original scan of the whole table: it returns, keeps
  the lists right, and leaves every process exactly as the scan does.
\<close>

theorem wakeup1_is_scan:
  assumes "plinv s"
  shows "\<exists>s'. wakeup1 ch s = Ret s' \<and> plinv s' \<and> core s' = core (wakeup1_scan ch s)"
proof -
  obtain L where "plrep {} s L" using assms by (auto simp: plinv_def)
  then show ?thesis using wakeup1_all [of s L ch] by (metis plinv_def wakeup1_scan_all)
qed

theorem wakeup1_is_scan_witness:
  "plinv demo \<and> (\<exists>s'. wakeup1 (Some (ChProc 0)) demo = Ret s' \<and> state (procs s' 0) = RUNNABLE)"
proof -
  have i: "plinv demo" using demo_rep by (auto simp: plinv_def)
  from wakeup1_is_scan [OF i] obtain s' where e: "wakeup1 (Some (ChProc 0)) demo = Ret s'"
    and c: "core s' = core (wakeup1_scan (Some (ChProc 0)) demo)" by blast
  have "state (procs s' 0) = RUNNABLE"
    using core_state [OF c, of 0] by (simp add: wakeup1_scan_all state_wake_all dproc_simps NPROC_def)
  with i e show ?thesis by blast
qed

section \<open>Exit and wait\<close>

text \<open>
  C24: \<open>exit\<close> leaves a zombie and a family: the caller becomes a \<open>ZOMBIE\<close> at the head of the
  zombie list, every child of it gets \<open>initproc\<close> as its parent and no other process changes
  parents, a parent that sleeps in \<open>wait\<close> is woken, and so is \<open>initproc\<close> if it inherits a zombie.
\<close>

theorem exit_hands_over:
  assumes "plrep {} s L" and "may_enter c s" and "cpu_proc (cpus s c) = Some p"
    and "p < NPROC" and "state (procs s p) = RUNNING"
  shows "\<exists>s' L'. exit_locked c p s = Ret s' \<and> plrep {} s' L'
    \<and> state (procs s' p) = ZOMBIE \<and> L' LZombie = p # L LZombie
    \<and> (\<forall>q<NPROC. state (procs s q) \<noteq> UNUSED \<longrightarrow>
         parent (procs s' q) = (if parent (procs s q) = Some p then initproc s else parent (procs s q)))
    \<and> (\<forall>q<NPROC. state (procs s q) = SLEEPING \<longrightarrow> state (procs s' q) =
         (if chan (procs s q) = map_option ChProc (parent (procs s p))
             \<or> (\<exists>z<NPROC. state (procs s z) = ZOMBIE \<and> parent (procs s z) = Some p) \<and> chan (procs s q) = init_chan s
          then RUNNABLE else SLEEPING))"
proof -
  obtain s' L' where e: "exit_locked c p s = Ret s'" and r: "plrep {} s' L'" and z: "L' LZombie = p # L LZombie"
    and c: "core s' = core (upd p (exit_eff (ticks s) (InExit (if_flag (cpus s c)))) (exit_family p (lk_taken c LkPtable s)))"
    using exit_locked_rep [OF assms(1-5)] by metis
  let ?t = "exit_family p (lk_taken c LkPtable s)"
  have st: "state (procs s' q) = (if q = p then ZOMBIE else state (procs ?t q))" for q
    using core_state [OF c, of q] by (simp add: kst_simps exit_eff_def sched_eff_def)
  have pa: "parent (procs s' q) = parent (procs ?t q)" for q
    using core_parent [OF c, of q] by (simp add: kst_simps exit_eff_def sched_eff_def)
  show ?thesis
    using e r z st pa assms(5)
    by (intro exI conjI allI impI)
      (assumption | auto simp: exit_family_def wake_if_def wake_all_def wake_set_def reparent_on_def
        init_chan_def kst_simps)+
qed

theorem exit_hands_over_witness:
  "\<exists>s'. exit_locked 0 1 demo = Ret s' \<and> state (procs s' 1) = ZOMBIE \<and> parent (procs s' 2) = Some 0
     \<and> parent (procs s' 3) = Some 0 \<and> state (procs s' 0) = RUNNABLE"
proof -
  obtain s' where e: "exit_locked 0 1 demo = Ret s'" "state (procs s' 1) = ZOMBIE"
    and pa: "\<forall>q<NPROC. state (procs demo q) \<noteq> UNUSED \<longrightarrow>
        parent (procs s' q) = (if parent (procs demo q) = Some 1 then initproc demo else parent (procs demo q))"
    and w: "\<forall>q<NPROC. state (procs demo q) = SLEEPING \<longrightarrow> state (procs s' q) =
        (if chan (procs demo q) = map_option ChProc (parent (procs demo 1))
           \<or> (\<exists>z<NPROC. state (procs demo z) = ZOMBIE \<and> parent (procs demo z) = Some 1) \<and> chan (procs demo q) = init_chan demo
         then RUNNABLE else SLEEPING)"
    using exit_hands_over [OF demo_rep demo_enter demo_cpu demo_run(1,2)] by blast
  have "parent (procs s' 2) = Some 0" "parent (procs s' 3) = Some 0"
    using pa [rule_format, of 2] pa [rule_format, of 3] by (simp_all add: NPROC_def dproc_simps) (simp_all add: demo_def)
  moreover have "state (procs s' 0) = RUNNABLE"
    using w [rule_format, of 0] by (simp add: NPROC_def dproc_simps)
  ultimately show ?thesis using e by blast
qed

text \<open>Freeing a zombie, by the outcome of the two calls that free its memory.\<close>

lemma reap_cases:
  fixes s :: "'m kst" and c q os
  defines "t \<equiv> lk_taken c LkPtable s"
  assumes "plrep {} t L" and "in_ptable c t" and "q \<in> set (L LZombie)"
  shows "case bindr (os_kfree os (kstack (procs s q)) (mem s)) (os_freevm os (pgdir (procs s q))) of
      Ret m \<Rightarrow> \<exists>s'. reap os c q t = Ret (sint (pid (procs s q)), s') \<and> may_enter c s'
        \<and> plrep {} s' (L(LZombie := remove1 q (L LZombie), LFree := q # L LFree)) \<and> same_but {q} s s' \<and> mem s' = m
        \<and> state (procs s' q) = UNUSED \<and> parent (procs s' q) = None \<and> pid (procs s' q) = 0
    | Panic e \<Rightarrow> reap os c q t = Panic e
    | Fault \<Rightarrow> reap os c q t = Fault
    | Hang \<Rightarrow> reap os c q t = Hang"
proof -
  have q: "q < NPROC" "state (procs t q) = ZOMBIE" using plrep_mem_iff [OF assms(2), of q] assms(4) by simp_all
  have eq: "procs s = procs t" "mem s = mem t" by (simp_all add: t_def kst_simps) (simp add: lk_taken_def)
  obtain s1 where rm: "removefromlist LZombie (Some q) t = Ret (0, s1)" and c1: "core s1 = core t"
    using removefromlist_rep [OF assms(2) _ assms(4)] by auto
  have split: "reap os c q t = bindr (bindr (os_kfree os (kstack (procs s q)) (mem s)) (os_freevm os (pgdir (procs s q))))
      (\<lambda>m. bindr (krelease c LkPtable (addtofrontoflist LFree (Some q) (upd q reap_fields (s1\<lparr>mem := m\<rparr>))))
        (\<lambda>s. Ret (sint (pid (procs s1 q)), s)))"
    using rm q(2) core_kstack [OF c1] core_pgdir [OF c1] core_mem [OF c1] core_state [OF c1]
    by (cases "os_kfree os (kstack (procs t q)) (mem t)") (simp_all add: reap_def assertstate_def Let_def eq)
  show ?thesis
  proof (cases "bindr (os_kfree os (kstack (procs s q)) (mem s)) (os_freevm os (pgdir (procs s q)))")
    case (Ret m)
    then obtain m1 where m: "os_kfree os (kstack (procs t q)) (mem t) = Ret m1" "os_freevm os (pgdir (procs t q)) m1 = Ret m"
      by (auto simp: res_simps eq)
    obtain s' where e: "reap os c q t = Ret (sint (pid (procs t q)), s')" "may_enter c s'"
        "plrep {} s' (L(LZombie := remove1 q (L LZombie), LFree := q # L LFree))"
      and c: "core s' = core (lk_released c LkPtable (upd q reap_fields (t\<lparr>mem := m\<rparr>)))"
      using reap_rep [OF assms(2,3) q m] .
    have "same_but {q} s s'" by (rule same_but_core [OF c]) (simp add: kst_simps eq)
    moreover have "state (procs s' q) = UNUSED" "parent (procs s' q) = None" "pid (procs s' q) = 0" "mem s' = m"
      using core_state [OF c, of q] core_parent [OF c, of q] core_pid [OF c, of q] core_mem [OF c]
      by (simp_all add: kst_simps reap_fields_def lk_released_def upd_def)
    ultimately show ?thesis using Ret e by (simp add: eq)
  qed (simp_all add: split)
qed

text \<open>
  C25: \<open>wait\<close> reaps, refuses or sleeps. With a zombie child it frees the kernel stack and then the
  page table of the first one on the zombie list; if \<open>kfree\<close> and \<open>freevm\<close> return for these two, it
  returns the child's pid, with the memory as they leave it and the child's slot free, and if they
  panic, so does \<open>wait\<close>. With no child at all, or when the caller was killed, it returns \<open>-1\<close> with
  nothing but the lock touched; otherwise the caller sleeps on itself.
\<close>

theorem wait_outcomes:
  assumes "plrep {} s L" and "may_enter c s" and "cpu_proc (cpus s c) = Some p"
    and "p < NPROC" and "state (procs s p) = RUNNING"
  shows "case find (\<lambda>q. parent (procs s q) = Some p) (L LZombie) of
      Some q \<Rightarrow> (case bindr (os_kfree os (kstack (procs s q)) (mem s)) (os_freevm os (pgdir (procs s q))) of
          Ret m \<Rightarrow> \<exists>s'. wait os c s = Ret (WReturn (sint (pid (procs s q))), s') \<and> may_enter c s'
            \<and> plrep {} s' (L(LZombie := remove1 q (L LZombie), LFree := q # L LFree)) \<and> same_but {q} s s' \<and> mem s' = m
            \<and> state (procs s' q) = UNUSED \<and> parent (procs s' q) = None \<and> pid (procs s' q) = 0
        | Panic e \<Rightarrow> wait os c s = Panic e
        | Fault \<Rightarrow> wait os c s = Fault
        | Hang \<Rightarrow> wait os c s = Hang)
    | None \<Rightarrow>
        if (\<nexists>q. q < NPROC \<and> state (procs s q) \<noteq> UNUSED \<and> parent (procs s q) = Some p) \<or> killed (procs s p)
        then wait os c s = Ret (WReturn (-1), lk_released c LkPtable (lk_taken c LkPtable s))
        else \<exists>s'. wait os c s = Ret (WSleep, s') \<and> in_ptable c s' \<and> same_but {p} s s'
          \<and> plrep {} s' (L(LRunning := remove1 p (L LRunning), LSleep := p # L LSleep))
          \<and> state (procs s' p) = SLEEPING \<and> chan (procs s' p) = Some (ChProc p)"
proof -
  let ?t = "lk_taken c LkPtable s"
  have t: "plrep {} ?t L" "in_ptable c ?t" "cpu_proc (cpus ?t c) = Some p" "state (procs ?t p) = RUNNING"
    using assms in_ptable_taken [OF assms(2)] by (simp_all add: kst_simps)
  have w: "wait os c s = wait_turn os c ?t" using assms(2) by (simp add: wait_def kacquire_enter)
  let ?f = "find (\<lambda>q. parent (procs s q) = Some p) (L LZombie)"
  consider (reap) q where "?f = Some q" | (quit) "?f = None"
        "(\<nexists>q. q < NPROC \<and> state (procs s q) \<noteq> UNUSED \<and> parent (procs s q) = Some p) \<or> killed (procs s p)"
    | (slp) "?f = None" "\<exists>q<NPROC. state (procs s q) \<noteq> UNUSED \<and> parent (procs s q) = Some p" "\<not> killed (procs s p)"
    by (cases ?f) auto
  then show ?thesis
  proof cases
    case reap
    then have "wait os c s = bindr (reap os c q ?t) (\<lambda>(pd, s). Ret (WReturn pd, s))"
      using w wait_turn_reap [OF t(1,3), of q os] by (simp add: kst_simps)
    moreover have "q \<in> set (L LZombie)" using reap by (auto simp: find_Some_iff)
    ultimately show ?thesis using reap reap_cases [OF t(1,2), of q os] by (auto split: res.split)
  next
    case quit
    then show ?thesis using w wait_turn_none [OF t(1,3,2), of os] by (simp add: kst_simps)
  next
    case slp
    obtain s' where e: "sleep_locked c p (Some (ChProc p)) (Some LkPtable) ?t = Ret s'" "in_ptable c s'"
        "plrep {} s' (L(LRunning := remove1 p (L LRunning), LSleep := p # L LSleep))"
      and c: "core s' = core (upd p (sleep_eff (ticks ?t) (Some (ChProc p)) (InSleep (intena (cpus ?t c)) (Some LkPtable))) ?t)"
      using sleep_locked_rep [OF t(1-3) assms(4) t(4)] .
    have "same_but {p} s s'" by (rule same_but_core [OF c]) (simp add: kst_simps)
    moreover have "state (procs s' p) = SLEEPING" "chan (procs s' p) = Some (ChProc p)"
      using core_state [OF c, of p] core_chan [OF c, of p]
      by (simp_all add: kst_simps sleep_eff_def sched_eff_def charge_def Let_def)
    ultimately show ?thesis using slp w e wait_turn_sleep [OF t(1,3), of os] by (auto simp: kst_simps)
  qed
qed

theorem wait_outcomes_witness:
  "\<exists>s'. wait os0 0 demo = Ret (WReturn 4, s') \<and> state (procs s' 3) = UNUSED \<and> plinv s'"
proof -
  have f: "find (\<lambda>q. parent (procs demo q) = Some 1) (demoL LZombie) = Some 3" by (simp add: demoL_def dproc_simps)
  from wait_outcomes [OF demo_rep demo_enter demo_cpu demo_run(1,2), of os0, unfolded f] show ?thesis
    by (auto simp: os0_def dproc_simps plinv_def)
qed

section \<open>Kill and priorities\<close>

text \<open>
  C26: \<open>kill\<close> marks a process with the given pid that is neither free nor a zombie, wakes it if it
  sleeps, changes no other process and returns \<open>0\<close>; if there is none it returns \<open>-1\<close> and changes
  no process. The lists stay right.
\<close>

theorem kill_outcomes:
  assumes "plinv s" and "may_enter c s"
  shows "if \<exists>q. live_pid (word_of_int n) s q
    then \<exists>q s'. live_pid (word_of_int n) s q \<and> kill c n s = Ret (0, s') \<and> plinv s' \<and> may_enter c s'
       \<and> killed (procs s' q) \<and> same_but {q} s s'
       \<and> state (procs s' q) = (if state (procs s q) = SLEEPING then RUNNABLE else state (procs s q))
    else kill c n s = Ret (-1, lk_released c LkPtable (lk_taken c LkPtable s))"
proof -
  obtain L where r: "plrep {} s L" using assms(1) by (auto simp: plinv_def)
  show ?thesis
  proof (rule kill_rep [OF r assms(2), of n])
    fix q s' L' assume k: "kill c n s = Ret (0, s')" "live_pid (word_of_int n) s q" "may_enter c s'" "plrep {} s' L'"
      and c: "core s' = core (lk_released c LkPtable (upd q kill_eff (lk_taken c LkPtable s)))"
    have "same_but {q} s s'" by (rule same_but_core [OF c]) (simp add: kst_simps)
    moreover have "killed (procs s' q)" "state (procs s' q) = (if state (procs s q) = SLEEPING then RUNNABLE else state (procs s q))"
      using core_killed [OF c, of q] core_state [OF c, of q] by (simp_all add: kst_simps kill_eff_def)
    ultimately show ?thesis using k by (auto simp: plinv_def)
  next
    assume "kill c n s = Ret (- 1, lk_released c LkPtable (lk_taken c LkPtable s))" "\<nexists>q. live_pid (word_of_int n) s q"
    then show ?thesis by simp
  qed
qed

theorem kill_outcomes_witness:
  "(\<exists>s'. kill 0 1 demo = Ret (0, s') \<and> killed (procs s' 0) \<and> state (procs s' 0) = RUNNABLE)
   \<and> (\<exists>s'. kill 0 4 demo = Ret (-1, s'))"
proof -
  have i: "plinv demo" using demo_rep by (auto simp: plinv_def)
  have 1: "live_pid 1 demo q \<longleftrightarrow> q = 0" for q by (auto simp: live_pid_def dproc_simps NPROC_def)
  have 4: "\<not> live_pid 4 demo q" for q by (auto simp: live_pid_def dproc_simps)
  from kill_outcomes [OF i demo_enter, of 1] kill_outcomes [OF i demo_enter, of 4] show ?thesis
    by (auto simp: 1 4 dproc_simps)
qed

lemma setpriority_bad:
  assumes "may_enter c s"
  shows "n < 0 \<or> n > 32767 \<Longrightarrow> setpriority c n prio s = Ret (-2, lk_released c LkPtable (lk_taken c LkPtable s))"
    and "\<not> (n < 0 \<or> n > 32767) \<Longrightarrow> prio < 0 \<or> prio > int MAXPRIO \<Longrightarrow>
         setpriority c n prio s = Ret (-3, lk_released c LkPtable (lk_taken c LkPtable s))"
proof -
  have "\<not> holding (locks s LkPtable) c" using assms by (simp add: may_enter_def holding_def)
  then show "n < 0 \<or> n > 32767 \<Longrightarrow> setpriority c n prio s = Ret (-2, lk_released c LkPtable (lk_taken c LkPtable s))"
    and "\<not> (n < 0 \<or> n > 32767) \<Longrightarrow> prio < 0 \<or> prio > int MAXPRIO \<Longrightarrow>
         setpriority c n prio s = Ret (-3, lk_released c LkPtable (lk_taken c LkPtable s))"
    using kacquire_enter [OF assms] krelease_in [OF in_ptable_taken [OF assms]] by (auto simp: setpriority_def)
qed

text \<open>
  C30: \<open>setpriority\<close> checks its arguments in the code's order and answers with the code's error
  numbers: \<open>-2\<close> for a pid out of range, \<open>-3\<close> for a priority out of range, \<open>-4\<close> if no running,
  sleeping or ready process has the pid, \<open>-5\<close> if the process has the priority already. Otherwise
  the process had another priority, and it, and no other, gets the priority and a fresh budget. The
  lists stay right.
\<close>

theorem setpriority_outcomes:
  assumes "plinv s" and "may_enter c s"
  shows "\<exists>rc s'. setpriority c n prio s = Ret (rc, s') \<and> plinv s' \<and> may_enter c s' \<and>
    (if n < 0 \<or> n > 32767 then rc = -2 \<and> same_but {} s s'
     else if prio < 0 \<or> prio > int MAXPRIO then rc = -3 \<and> same_but {} s s'
     else if \<nexists>q. movable (word_of_int n) s q then rc = -4 \<and> same_but {} s s'
     else \<exists>q. movable (word_of_int n) s q \<and>
       (rc = -5 \<and> same_but {} s s' \<and> priority (procs s q) = word_of_int prio
        \<or> rc = 0 \<and> same_but {q} s s' \<and> priority (procs s q) \<noteq> word_of_int prio \<and> priority (procs s' q) = word_of_int prio \<and> budget (procs s' q) = DEFAULT_BUDGET))"
proof -
  obtain L where r: "plrep {} s L" using assms(1) by (auto simp: plinv_def)
  let ?u = "lk_released c LkPtable (lk_taken c LkPtable s)"
  have u: "plinv ?u" "same_but {} s ?u" "may_enter c ?u"
    using r may_enter_released [OF in_ptable_taken [OF assms(2)]] by (auto simp: plinv_def kst_simps same_but_def)
  show ?thesis
  proof (cases "n < 0 \<or> n > 32767 \<or> prio < 0 \<or> prio > int MAXPRIO")
    case True
    then show ?thesis
      using u setpriority_bad [OF assms(2), of n prio] by (cases "n < 0 \<or> n > 32767") auto
  next
    case False
    then have b: "0 \<le> n" "n \<le> 32767" "0 \<le> prio" "prio \<le> int MAXPRIO" by auto
    show ?thesis
    proof (cases rule: setpriority_rep [OF r assms(2) b, case_names absent same set])
      case absent
      then show ?thesis using False u by auto
    next
      case (same q)
      then show ?thesis using False u by auto
    next
      case (set q s' L')
      have "same_but {q} s s'" by (rule same_but_core [OF set(5)]) (simp add: kst_simps)
      moreover have "priority (procs s' q) = word_of_int prio" "budget (procs s' q) = DEFAULT_BUDGET"
        using core_priority [OF set(5), of q] core_budget [OF set(5), of q] by (simp_all add: kst_simps setprio_def)
      ultimately show ?thesis using False set by (auto simp: plinv_def)
    qed
  qed
qed

theorem setpriority_outcomes_witness:
  "(\<exists>s'. setpriority 0 3 4 demo = Ret (0, s') \<and> priority (procs s' 2) = 4 \<and> budget (procs s' 2) = DEFAULT_BUDGET)
    \<and> (\<exists>s'. setpriority 0 3 0 demo = Ret (-5, s'))"
proof -
  have i: "plinv demo" using demo_rep by (auto simp: plinv_def)
  have 3: "movable 3 demo q \<longleftrightarrow> q = 2" for q by (auto simp: movable_def dproc_simps NPROC_def)
  from setpriority_outcomes [OF i demo_enter, of 3 4] setpriority_outcomes [OF i demo_enter, of 3 0] show ?thesis
    by (auto simp: 3 dproc_simps MAXPRIO_def)
qed

text \<open>
  C29: A promotion moves every running, sleeping and ready process one priority up (those at the
  best priority stay), in order: the ready list of each priority is appended to or takes the place
  of the next better one. No other process changes, and the next promotion is set.
\<close>

theorem promote_moves_up:
  assumes "plrep {} s L"
  shows "\<exists>s' L'. promote s = Ret s' \<and> plrep {} s' L' \<and> PromoteAtTime s' = ticks s + TICKS_TO_PROMOTE
    \<and> L' (LReady 0) = L (LReady 0) @ L (LReady 1)
    \<and> (\<forall>i. 0 < i \<and> i < MAXPRIO \<longrightarrow> L' (LReady i) = L (LReady (i + 1))) \<and> L' (LReady MAXPRIO) = []
    \<and> (\<forall>q<NPROC. unat (priority (procs s' q)) =
         (if state (procs s q) \<in> {SLEEPING, RUNNING, RUNNABLE} then unat (priority (procs s q)) - 1
          else unat (priority (procs s q))))"
proof -
  obtain s' where e: "promote s = Ret s'" and r: "plrep {} s' (promL 0 L)" and c: "core s' = core (promote_all s)"
    using promote_rep [OF assms] .
  have u: "unat (priority (demote1 pr)) = unat (priority pr) - 1" for pr
    by (cases "priority pr = 0") (simp_all add: demote1_def DEFAULT_PRIORITY_def unat_minus_one)
  have "unat (priority (procs s' q)) =
         (if state (procs s q) \<in> {SLEEPING, RUNNING, RUNNABLE} then unat (priority (procs s q)) - 1
          else unat (priority (procs s q)))" if "q < NPROC" for q
    using core_priority [OF c, of q] that u by (simp add: promote_all_def promote_on_def)
  moreover have "PromoteAtTime s' = ticks s + TICKS_TO_PROMOTE" using core_promote [OF c] by (simp add: promote_all_def)
  ultimately show ?thesis using e r by (intro exI conjI) (assumption | simp add: promL_def MAXPRIO_def)+
qed

theorem promote_moves_up_witness:
  "\<exists>s' L'. promote demo = Ret s' \<and> plrep {} s' L' \<and> L' (LReady 0) = [2] \<and> PromoteAtTime s' = 1107"
  using promote_moves_up [OF demo_rep] by (auto simp: demo_run(3) demoL_def TICKS_TO_PROMOTE_def)

end
