(* ===== verification/Procfork.thy ===== *)
theory Procfork
  imports Procapi
begin

text \<open>
  What \<open>fork\<close> and \<open>allocproc\<close> of \<open>src/proc.c\<close> do from start to end when no other CPU interferes.
  The memory and file components are arguments; each outcome of their calls is an outcome of \<open>fork\<close>.
\<close>

section \<open>Specification\<close>

text \<open>
  The calls \<open>fork\<close> makes to other components, in their order: a kernel stack, a copy of the address
  space (or the stack given back if there is none), a reference to each open file, and one to the
  directory. The result is the stack, the page table and the directory, or nothing.
\<close>

fun dup_all :: "'m os \<Rightarrow> nat option list \<Rightarrow> 'm \<Rightarrow> 'm res" where
  "dup_all os [] m = Ret m"
| "dup_all os (None # fs) m = dup_all os fs m"
| "dup_all os (Some f # fs) m = bindr (os_filedup os f m) (dup_all os fs)"

definition fork_copies :: "'m os \<Rightarrow> proc \<Rightarrow> u32 \<Rightarrow> 'm \<Rightarrow> ((u32 \<times> u32 \<times> nat option) option \<times> 'm) res" where
  "fork_copies os pp k m0 =
     bindr (os_copyuvm os (pgdir pp) (sz pp) m0) (\<lambda>(pgo, m).
     case pgo of
       None \<Rightarrow> bindr (os_kfree os (Some k) m) (\<lambda>m. Ret (None, m))
     | Some pg \<Rightarrow>
         bindr (dup_all os (map (ofile pp) [0..<NOFILE]) m) (\<lambda>m.
         bindr (os_idup os (cwd pp) m) (\<lambda>(ip, m). Ret (Some (k, pg, ip), m))))"

definition fork_calls :: "'m os \<Rightarrow> proc \<Rightarrow> 'm \<Rightarrow> ((u32 \<times> u32 \<times> nat option) option \<times> 'm) res" where
  "fork_calls os pp m0 =
     (case os_kalloc os m0 of (None, m) \<Rightarrow> Ret (None, m) | (Some k, m) \<Rightarrow> fork_copies os pp k m)"

text \<open>The child, made of the free entry \<open>old\<close> and the caller \<open>pp\<close>.\<close>

definition forked :: "'m kst \<Rightarrow> nat \<Rightarrow> proc \<Rightarrow> u32 \<Rightarrow> u32 \<Rightarrow> nat option \<Rightarrow> proc \<Rightarrow> proc" where
  "forked s p pp k pg ip old =
     old\<lparr>state := RUNNABLE, pid := nextpid s, parent := Some p, kstack := Some k, pgdir := Some pg, sz := sz pp,
        tf := (tf pp)\<lparr>tf_eax := 0\<rparr>, ctxt := AtForkret, uid := uid pp, gid := gid pp,
        ofile := (\<lambda>i. if i < NOFILE \<and> ofile pp i \<noteq> None then ofile pp i else ofile old i),
        cwd := ip, name := take 15 (name pp), start_ticks := ticks s, cpu_ticks_total := 0, cpu_ticks_in := 0,
        budget := DEFAULT_BUDGET, priority := DEFAULT_PRIORITY\<rparr>"

text \<open>A process without the fields \<open>allocproc\<close> and a failed \<open>fork\<close> write.\<close>

definition sans_alloc :: "proc \<Rightarrow> proc" where
  "sans_alloc pr = pr\<lparr>pid := 0, kstack := None, pgdir := None, ctxt := AtForkret, start_ticks := 0,
     cpu_ticks_total := 0, cpu_ticks_in := 0, budget := 0, priority := 0, pnext := None\<rparr>"

section \<open>Lemmas\<close>

lemma plrep_embryo:
  assumes "plrep {} s L" and "state (procs s p) = EMBRYO" and "\<And>pr. pnext (f pr) = pnext pr"
    and "state (f (procs s p)) = EMBRYO" and "priority (f (procs s p)) \<le> priority (procs s p)" and "p < NPROC"
  shows "plrep {} (upd p f s) L"
proof (rule plrep_upd_same_home [OF assms(1,3)])
  show "home_of (f (procs s p)) = home_of (procs s p)" using assms(2,4) by (simp add: home_of_def)
  show "unat (priority (f (procs s p))) \<le> MAXPRIO"
    using assms(5) prio_okD [OF plrep_prio [OF assms(1)] assms(6)] by (simp add: word_le_nat_alt)
qed

lemma may_enter_upd [kst_simps]: "may_enter c (upd p f s) = may_enter c s" "may_enter c (s\<lparr>mem := m\<rparr>) = may_enter c s"
  by (simp_all add: may_enter_def upd_def)

lemma core_proc_ex: "core s' = core s \<Longrightarrow> \<exists>n. procs s' p = (procs s p)\<lparr>pnext := n\<rparr>"
  by (metis core_procs proc.surjective proc.update_convs(19))

lemma same_but_ex: "same_but A s s' \<Longrightarrow> q \<notin> A \<Longrightarrow> \<exists>n. procs s' q = (procs s q)\<lparr>pnext := n\<rparr>"
  unfolding same_but_def by (metis proc.surjective proc.update_convs(19))

lemma same_but_trans: "same_but A s s' \<Longrightarrow> same_but A s' s'' \<Longrightarrow> same_but A s s''"
  by (simp add: same_but_def)

lemma fork_copies_pnext [simp]: "fork_copies os (pp\<lparr>pnext := n\<rparr>) k m = fork_copies os pp k m"
  by (simp add: fork_copies_def cong: option.case_cong)

lemma fork_calls_pnext [simp]: "fork_calls os (pp\<lparr>pnext := n\<rparr>) m = fork_calls os pp m"
  by (simp add: fork_calls_def cong: option.case_cong)

text \<open>The open files of the parent, shared with the child.\<close>

definition share_files :: "nat list \<Rightarrow> proc \<Rightarrow> proc \<Rightarrow> proc" where
  "share_files is pp = ofile_update (\<lambda>g i. if i \<in> set is \<and> ofile pp i \<noteq> None then ofile pp i else g i)"

lemma fork_files_eq:
  assumes "np \<noteq> p"
  shows "fork_files os p np is s =
    bindr (dup_all os (map (ofile (procs s p)) is) (mem s))
      (\<lambda>m. Ret (upd np (share_files is (procs s p)) (s\<lparr>mem := m\<rparr>)))"
proof (induction "is" arbitrary: s)
  case Nil
  show ?case by (auto simp: share_files_def upd_def fun_eq_iff intro!: kst.equality proc.equality)
next
  case (Cons i "is")
  show ?case
  proof (cases "ofile (procs s p) i")
    case None
    then have "share_files (i # is) (procs s p) = share_files is (procs s p)"
      by (intro ext) (auto simp: share_files_def fun_eq_iff intro!: proc.equality)
    then show ?thesis using Cons None by simp
  next
    case (Some f)
    let ?t = "\<lambda>m. upd np (ofile_update (\<lambda>g. g(i := Some f))) (s\<lparr>mem := m\<rparr>)"
    have "upd np (share_files is (procs (?t m) p)) ((?t m)\<lparr>mem := m'\<rparr>) = upd np (share_files (i # is) (procs s p)) (s\<lparr>mem := m'\<rparr>)" for m m'
      using assms Some by (auto simp: upd_def share_files_def fun_eq_iff intro!: kst.equality proc.equality)
    moreover have "procs (?t m) p = procs s p" "mem (?t m) = m" for m using assms by (simp_all add: upd_def)
    ultimately show ?thesis using Cons [of "?t m" for m] Some by (simp add: res_simps)
  qed
qed

text \<open>What is done to the taken entry before it is given back, and before it is made ready.\<close>

definition scratched :: "(proc \<Rightarrow> proc) \<Rightarrow> bool" where
  "scratched f \<longleftrightarrow> (\<forall>pr. sans_alloc (f pr) = sans_alloc pr \<and> kstack (f pr) = None \<and> pnext (f pr) = pnext pr
     \<and> priority (f pr) \<le> priority pr)"

definition child :: "proc \<Rightarrow> nat \<Rightarrow> u32 \<Rightarrow> nat option \<Rightarrow> proc \<Rightarrow> proc" where
  "child pp p pg ip np =
     (share_files [0..<NOFILE] pp (fork_copy pp p (np\<lparr>pgdir := Some pg\<rparr>)))\<lparr>cwd := ip, name := take 15 (name pp)\<rparr>"

lemma child_simps [simp]:
  "pnext (child pp p pg ip np) = pnext np" "state (child pp p pg ip np) = state np"
  "priority (child pp p pg ip np) = priority np" "pid (child pp p pg ip np) = pid np"
  by (simp_all add: child_def share_files_def fork_copy_def)

lemma fork_after_alloc:
  assumes "allocproc os c s = Ret (Some np, s1)" and "cpu_proc (cpus s1 c) = Some p" and "np \<noteq> p"
    and "kstack (procs s1 np) = Some k"
  shows "case fork_copies os (procs s1 p) k (mem s1) of
      Ret (None, m) \<Rightarrow>
        fork os c s = bindr (embryo_to_free ''Failure to remove from embryo list in userinit'' c np
          (upd np (\<lambda>pr. pr\<lparr>pgdir := None, kstack := None\<rparr>) (s1\<lparr>mem := m\<rparr>))) (\<lambda>s. Ret (-1, s))
    | Ret (Some (k', pg, ip), m) \<Rightarrow> k' = k \<and>
        fork os c s = bindr (fork_ready c np (upd np (child (procs s1 p) p pg ip) (s1\<lparr>mem := m\<rparr>)))
          (\<lambda>s. Ret (sint (pid (procs s1 np)), s))
    | Panic e \<Rightarrow> fork os c s = Panic e | Fault \<Rightarrow> fork os c s = Fault | Hang \<Rightarrow> fork os c s = Hang"
proof (cases "os_copyuvm os (pgdir (procs s1 p)) (sz (procs s1 p)) (mem s1)")
  case (Ret r)
  then obtain pgo m where r: "r = (pgo, m)" by force
  show ?thesis
  proof (cases pgo)
    case None
    have "fork os c s = bindr (os_kfree os (Some k) m) (\<lambda>m. bindr (embryo_to_free
        ''Failure to remove from embryo list in userinit'' c np
        (upd np (\<lambda>pr. pr\<lparr>pgdir := None, kstack := None\<rparr>) (s1\<lparr>mem := m\<rparr>))) (\<lambda>s. Ret (-1, s)))"
      using assms Ret r None by (simp add: fork_def curproc_def upd_def)
    then show ?thesis using Ret r None by (cases "os_kfree os (Some k) m") (simp_all add: fork_copies_def)
  next
    case (Some pg)
    let ?s2 = "upd np (fork_copy (procs s1 p) p) (upd np (pgdir_update (\<lambda>_. Some pg)) (s1\<lparr>mem := m\<rparr>))"
    have p2: "procs ?s2 p = procs s1 p" "mem ?s2 = m" using assms(3) by (simp_all add: upd_def)
    note ff = fork_files_eq [OF assms(3), of os "[0..<NOFILE]" ?s2, unfolded p2]
    have ch: "upd np (\<lambda>pr. pr\<lparr>cwd := ip, name := take 15 (name (procs s1 p))\<rparr>)
          ((upd np (share_files [0..<NOFILE] (procs s1 p)) (?s2\<lparr>mem := m'\<rparr>))\<lparr>mem := m''\<rparr>)
        = upd np (child (procs s1 p) p pg ip) (s1\<lparr>mem := m''\<rparr>)" for ip m' m''
      by (simp add: upd_def child_def)
    have pd: "pid (procs (upd np (child (procs s1 p) p pg ip) t) np) = pid (procs t np)" for ip and t :: "'a kst" by (simp add: procs_upd)
    have "fork os c s = bindr (fork_files os p np [0..<NOFILE] ?s2) (\<lambda>s.
        bindr (os_idup os (cwd (procs s p)) (mem s)) (\<lambda>(ip, m).
        let s = upd np (\<lambda>pr. pr\<lparr>cwd := ip, name := take 15 (name (procs s p))\<rparr>) (s\<lparr>mem := m\<rparr>); pd = pid (procs s np)
        in bindr (fork_ready c np s) (\<lambda>s. Ret (sint pd, s))))"
      using assms(1-3) Ret r Some by (simp add: fork_def curproc_def upd_def)
    also have "\<dots> = bindr (dup_all os (map (ofile (procs s1 p)) [0..<NOFILE]) m) (\<lambda>m.
        bindr (os_idup os (cwd (procs s1 p)) m) (\<lambda>(ip, m).
        bindr (fork_ready c np (upd np (child (procs s1 p) p pg ip) (s1\<lparr>mem := m\<rparr>))) (\<lambda>s. Ret (sint (pid (procs s1 np)), s))))"
    proof (cases "dup_all os (map (ofile (procs s1 p)) [0..<NOFILE]) m")
      case (Ret m3)
      let ?s3 = "upd np (share_files [0..<NOFILE] (procs s1 p)) (?s2\<lparr>mem := m3\<rparr>)"
      have p3: "procs ?s3 p = procs s1 p" "mem ?s3 = m3" using assms(3) by (simp_all add: upd_def)
      have "fork_files os p np [0..<NOFILE] ?s2 = Ret ?s3" unfolding ff Ret by simp
      then show ?thesis
        by (cases "os_idup os (cwd (procs s1 p)) m3") (auto simp: Ret p3 ch pd Let_def simp del: upt_Suc)
    qed (simp_all add: ff del: upt_Suc)
    finally have eq: "fork os c s = \<dots>" .
    show ?thesis
    proof (cases "dup_all os (map (ofile (procs s1 p)) [0..<NOFILE]) m")
      case (Ret m3)
      then show ?thesis using eq \<open>_ = Ret r\<close> r Some
        by (cases "os_idup os (cwd (procs s1 p)) m3") (auto simp: fork_copies_def)
    qed (use eq Ret r Some in \<open>simp_all add: fork_copies_def\<close>)
  qed
qed (use assms in \<open>simp_all add: fork_def curproc_def fork_copies_def\<close>)

text \<open>The entry taken from the free list, and what else the taking changes.\<close>

lemma take_first:
  assumes "plrep {} s L" and "may_enter c s" and "L LFree = np # rest"
  obtains s1 n where "allocproc_take c s = Ret (Some np, s1)" and "may_enter c s1"
    and "plrep {} s1 (L(LFree := rest, LEmbryo := np # L LEmbryo))" and "same_but {np} s s1"
    and "procs s1 np = (alloc_eff (nextpid s) (procs s np))\<lparr>pnext := n\<rparr>"
    and "nextpid s1 = nextpid s + 1" and "mem s1 = mem s" and "ticks s1 = ticks s"
    and "cpu_proc (cpus s1 c) = cpu_proc (cpus s c)"
proof -
  obtain s1 where e: "allocproc_take c s = Ret (Some np, s1)" and m: "may_enter c s1"
    and r: "plrep {} s1 (L(LFree := rest, LEmbryo := np # L LEmbryo))"
    and c1: "core s1 = core (lk_released c LkPtable
           ((upd np (alloc_eff (nextpid s)) (lk_taken c LkPtable s))\<lparr>nextpid := nextpid s + 1\<rparr>))"
    using allocproc_take_rep [OF assms] .
  obtain n where n: "procs s1 np = (alloc_eff (nextpid s) (procs s np))\<lparr>pnext := n\<rparr>"
    using core_proc_ex [OF c1, of np] by (auto simp: kst_simps)
  have "same_but {np} s s1" by (rule same_but_core [OF c1]) (simp add: kst_simps)
  moreover have "nextpid s1 = nextpid s + 1" "mem s1 = mem s" "ticks s1 = ticks s"
    using core_nextpid [OF c1] core_mem [OF c1] core_ticks [OF c1] by (simp_all add: lk_released_def upd_def lk_taken_def)
  moreover have "cpu_proc (cpus s1 c) = cpu_proc (cpus s c)"
    using core_cpus [OF c1] by (simp add: lk_released_def upd_def lk_taken_def)
  ultimately show thesis using that e m r n by blast
qed

lemma give_back:
  assumes "plrep {} s1 (L(LFree := rest, LEmbryo := np # L LEmbryo))" and "L LFree = np # rest" and "may_enter c s1"
    and "np < NPROC" and "state (procs s1 np) = EMBRYO" and "scratched f"
  obtains s' where "embryo_to_free msg c np (upd np f (s1\<lparr>mem := m\<rparr>)) = Ret s'" and "may_enter c s'"
    and "plrep {} s' L" and "mem s' = m" and "same_but {np} s1 s'" and "nextpid s' = nextpid s1"
    and "sans_alloc (procs s' np) = (sans_alloc (procs s1 np))\<lparr>state := UNUSED\<rparr>" and "kstack (procs s' np) = None"
proof -
  let ?t = "upd np f (s1\<lparr>mem := m\<rparr>)" and ?L = "L(LFree := rest, LEmbryo := np # L LEmbryo)"
  have f: "sans_alloc (f pr) = sans_alloc pr" "kstack (f pr) = None" "pnext (f pr) = pnext pr" "priority (f pr) \<le> priority pr" for pr
    using assms(6) by (simp_all add: scratched_def)
  have fs: "state (f pr) = state pr" for pr using arg_cong [OF f(1), of state] by (simp add: sans_alloc_def)
  have r: "plrep {} ?t ?L" using assms(1,4,5) f(3,4) fs by (intro plrep_embryo) (simp_all add: kst_simps)
  have t: "may_enter c ?t" "state (procs ?t np) = EMBRYO" using assms(3,5) fs by (simp_all add: kst_simps)
  obtain s' where e: "embryo_to_free msg c np ?t = Ret s'" "may_enter c s'"
    and r': "plrep {} s' (?L(LEmbryo := remove1 np (?L LEmbryo), LFree := np # ?L LFree))"
    and c: "core s' = core (lk_released c LkPtable (upd np (state_update (\<lambda>_. UNUSED)) (lk_taken c LkPtable ?t)))"
    using embryo_to_free_rep [OF r t(1) assms(4) t(2)] .
  have L: "?L(LEmbryo := remove1 np (?L LEmbryo), LFree := np # ?L LFree) = L" using assms(2) by (auto simp: fun_eq_iff)
  obtain n where n: "procs s' np = (f (procs s1 np))\<lparr>state := UNUSED, pnext := n\<rparr>"
    using core_proc_ex [OF c, of np] by (auto simp: kst_simps)
  have "sans_alloc ((f (procs s1 np))\<lparr>state := UNUSED, pnext := n\<rparr>) = (sans_alloc (f (procs s1 np)))\<lparr>state := UNUSED\<rparr>"
    by (simp add: sans_alloc_def)
  then have "sans_alloc (procs s' np) = (sans_alloc (procs s1 np))\<lparr>state := UNUSED\<rparr>" "kstack (procs s' np) = None"
    using n f(1,2) by simp_all
  moreover have "same_but {np} s1 s'" by (rule same_but_core [OF c]) (simp add: kst_simps)
  moreover have "mem s' = m" "nextpid s' = nextpid s1"
    using core_mem [OF c] core_nextpid [OF c] by (simp_all add: lk_released_def upd_def lk_taken_def)
  ultimately show thesis using that e r' unfolding L by blast
qed

lemma make_ready:
  fixes k :: u32 and ip :: "nat option" and m :: 'm
  defines "f \<equiv> \<lambda>pp p pg now np. child pp p pg ip (proc_setup now (np\<lparr>kstack := Some k\<rparr>))"
  assumes "plrep {} s1 (L(LFree := rest, LEmbryo := np # L LEmbryo))" and "may_enter c s1"
    and "np < NPROC" and "state (procs s1 np) = EMBRYO"
  obtains s' n where "fork_ready c np (upd np (f pp p pg now) (s1\<lparr>mem := m\<rparr>)) = Ret s'" and "may_enter c s'"
    and "plrep {} s' (L(LFree := rest, LReady 0 := L (LReady 0) @ [np]))" and "mem s' = m" and "same_but {np} s1 s'"
    and "nextpid s' = nextpid s1" and "procs s' np = (f pp p pg now (procs s1 np))\<lparr>state := RUNNABLE, pnext := n\<rparr>"
proof -
  let ?t = "upd np (f pp p pg now) (s1\<lparr>mem := m\<rparr>)" and ?L = "L(LFree := rest, LEmbryo := np # L LEmbryo)"
  have f: "pnext (f pp p pg now pr) = pnext pr" "state (f pp p pg now pr) = state pr" "priority (f pp p pg now pr) = 0" for pr
    by (simp_all add: f_def proc_setup_def DEFAULT_PRIORITY_def)
  have rt: "plrep {} ?t ?L" using assms f by (intro plrep_embryo) (simp_all add: kst_simps)
  have t: "may_enter c ?t" "state (procs ?t np) = EMBRYO" "0 = unat (priority (procs ?t np))"
    using assms f by (simp_all add: kst_simps)
  obtain s' where s': "fork_ready c np ?t = Ret s'" "may_enter c s'"
    and r': "plrep {} s' (?L(LEmbryo := remove1 np (?L LEmbryo), LReady 0 := ?L (LReady 0) @ [np]))"
    and c: "core s' = core (lk_released c LkPtable (upd np (state_update (\<lambda>_. RUNNABLE)) (lk_taken c LkPtable ?t)))"
    using fork_ready_rep [OF rt t(1) assms(4) t(2,3)] .
  have L: "?L(LEmbryo := remove1 np (?L LEmbryo), LReady 0 := ?L (LReady 0) @ [np]) = L(LFree := rest, LReady 0 := L (LReady 0) @ [np])"
    by (auto simp: fun_eq_iff)
  obtain n where "procs s' np = (f pp p pg now (procs s1 np))\<lparr>state := RUNNABLE, pnext := n\<rparr>"
    using core_proc_ex [OF c, of np] by (auto simp: kst_simps)
  moreover have "same_but {np} s1 s'" by (rule same_but_core [OF c]) (simp add: kst_simps)
  moreover have "mem s' = m" "nextpid s' = nextpid s1"
    using core_mem [OF c] core_nextpid [OF c] by (simp_all add: lk_released_def upd_def lk_taken_def)
  ultimately show thesis using that s' r' unfolding L by blast
qed

lemma forked_child:
  "(child (pp\<lparr>pnext := n'\<rparr>) p pg ip (proc_setup (ticks s) (((alloc_eff (nextpid s) old)\<lparr>pnext := n\<rparr>)\<lparr>kstack := Some k\<rparr>)))
     \<lparr>state := RUNNABLE, pnext := n2\<rparr> = (forked s p pp k pg ip old)\<lparr>pnext := n2\<rparr>"
  by (rule proc.equality)
    (auto simp: child_def share_files_def fork_copy_def proc_setup_def alloc_eff_def forked_def fun_eq_iff)

text \<open>After the allocation, by the outcome of the calls.\<close>

lemma fork_after_take:
  assumes "allocproc_take c s = Ret (Some np, s1)" and "cpu_proc (cpus s1 c) = Some p" and "np \<noteq> p"
  shows "case fork_calls os (procs s1 p) (mem s1) of
      Ret (None, m) \<Rightarrow> \<exists>msg f. scratched f \<and>
        fork os c s = bindr (embryo_to_free msg c np (upd np f (s1\<lparr>mem := m\<rparr>))) (\<lambda>s. Ret (-1, s))
    | Ret (Some (k, pg, ip), m) \<Rightarrow>
        fork os c s = bindr (fork_ready c np (upd np
            (\<lambda>np. child (procs s1 p) p pg ip (proc_setup (ticks s1) (np\<lparr>kstack := Some k\<rparr>))) (s1\<lparr>mem := m\<rparr>)))
          (\<lambda>s. Ret (sint (pid (procs s1 np)), s))
    | Panic e \<Rightarrow> fork os c s = Panic e | Fault \<Rightarrow> fork os c s = Fault | Hang \<Rightarrow> fork os c s = Hang"
proof -
  obtain ko m where ka: "os_kalloc os (mem s1) = (ko, m)" by force
  show ?thesis
  proof (cases ko)
    case None
    let ?f = "kstack_update (\<lambda>_. None)"
    have "scratched ?f" by (simp add: scratched_def sans_alloc_def)
    moreover have "fork os c s = bindr (embryo_to_free ''Failure removing from embryo list in allocproc.'' c np
        (upd np ?f (s1\<lparr>mem := m\<rparr>))) (\<lambda>s. Ret (-1, s))"
      using assms ka None by (simp add: fork_def allocproc_def res_simps)
    ultimately show ?thesis using ka None by (auto simp: fork_calls_def)
  next
    case (Some k)
    let ?g = "\<lambda>pr. proc_setup (ticks s1) (pr\<lparr>kstack := Some k\<rparr>)"
    let ?s2 = "upd np ?g (s1\<lparr>mem := m\<rparr>)"
    have al: "allocproc os c s = Ret (Some np, ?s2)" using assms(1) ka Some by (simp add: allocproc_def upd_def)
    have s2: "cpu_proc (cpus ?s2 c) = Some p" "kstack (procs ?s2 np) = Some k" "procs ?s2 p = procs s1 p" "mem ?s2 = m"
        "pid (procs ?s2 np) = pid (procs s1 np)"
      using assms(2,3) by (simp_all add: upd_def proc_setup_def)
    have up: "upd np f (?s2\<lparr>mem := m'\<rparr>) = upd np (\<lambda>pr. f (?g pr)) (s1\<lparr>mem := m'\<rparr>)" for f m' by (simp add: upd_def)
    have sc: "scratched (\<lambda>pr. (?g pr)\<lparr>pgdir := None, kstack := None\<rparr>)"
      by (simp add: scratched_def sans_alloc_def proc_setup_def DEFAULT_PRIORITY_def)
    have fc: "fork_calls os (procs s1 p) (mem s1) = fork_copies os (procs s1 p) k m" using ka Some by (simp add: fork_calls_def)
    show ?thesis
      using fork_after_alloc [OF al s2(1) assms(3) s2(2), unfolded s2(3-5) up] sc unfolding fc
      by (cases "fork_copies os (procs s1 p) k m") (auto split: option.splits)
  qed
qed

section \<open>fork\<close>

text \<open>
  C21: \<open>fork\<close> is all or nothing. With no free entry it returns \<open>-1\<close> and changes nothing but the lock.
  Otherwise its outcome is that of the calls to the memory and file components. If no stack or no
  copy of the address space can be had, it returns \<open>-1\<close>, the lists are as before and so is every
  process but the first free entry, which is free again with nothing but its allocation fields
  written. If all is had, that entry becomes a ready process with the next pid, at the end of the
  best ready list: a child of the caller with the new stack and page table, the caller's size,
  owner, group, open files and name, and the caller's registers but for a return value of \<open>0\<close>; no
  other process changes, and the caller is given the pid. If a call panics, so does \<open>fork\<close>.
\<close>

theorem fork_all_or_nothing:
  assumes "plrep {} s L" and "may_enter c s" and "cpu_proc (cpus s c) = Some p" and "state (procs s p) = RUNNING"
  shows "case L LFree of
      [] \<Rightarrow> fork os c s = Ret (-1, lk_released c LkPtable (lk_taken c LkPtable s))
    | np # rest \<Rightarrow> (case fork_calls os (procs s p) (mem s) of
        Ret (None, m) \<Rightarrow> \<exists>s'. fork os c s = Ret (-1, s') \<and> may_enter c s' \<and> plrep {} s' L \<and> mem s' = m
          \<and> same_but {np} s s' \<and> sans_alloc (procs s' np) = sans_alloc (procs s np) \<and> kstack (procs s' np) = None
      | Ret (Some (k, pg, ip), m) \<Rightarrow> \<exists>s' n. fork os c s = Ret (sint (nextpid s), s') \<and> may_enter c s'
          \<and> plrep {} s' (L(LFree := rest, LReady 0 := L (LReady 0) @ [np])) \<and> mem s' = m
          \<and> same_but {np} s s' \<and> nextpid s' = nextpid s + 1
          \<and> procs s' np = (forked s p (procs s p) k pg ip (procs s np))\<lparr>pnext := n\<rparr>
      | Panic e \<Rightarrow> fork os c s = Panic e | Fault \<Rightarrow> fork os c s = Fault | Hang \<Rightarrow> fork os c s = Hang)"
proof (cases "L LFree")
  case Nil
  then show ?thesis using allocproc_take_none [OF assms(1,2)] by (simp add: fork_def allocproc_def)
next
  case (Cons np rest)
  let ?L = "L(LFree := rest, LEmbryo := np # L LEmbryo)"
  obtain s1 n where tk: "allocproc_take c s = Ret (Some np, s1)" "may_enter c s1" "plrep {} s1 ?L" "same_but {np} s s1"
    "procs s1 np = (alloc_eff (nextpid s) (procs s np))\<lparr>pnext := n\<rparr>" "nextpid s1 = nextpid s + 1"
    "mem s1 = mem s" "ticks s1 = ticks s" "cpu_proc (cpus s1 c) = cpu_proc (cpus s c)"
    using take_first [OF assms(1,2) Cons] .
  have np: "np < NPROC" "state (procs s np) = UNUSED" using plrep_mem_iff [OF assms(1), of np] Cons by simp_all
  then have ne: "np \<noteq> p" using assms(4) by auto
  obtain n' where pp: "procs s1 p = (procs s p)\<lparr>pnext := n'\<rparr>" using same_but_ex [OF tk(4), of p] ne by auto
  have em: "state (procs s1 np) = EMBRYO" using tk(5) by simp
  have out: "fork_calls os (procs s1 p) (mem s1) = fork_calls os (procs s p) (mem s)" using pp tk(7) by simp
  note F = fork_after_take [OF tk(1) _ ne, of os, unfolded tk(9), OF assms(3), unfolded out]
  show ?thesis
  proof (cases "fork_calls os (procs s p) (mem s)")
    case (Ret r)
    obtain ro m where r: "r = (ro, m)" by force
    show ?thesis
    proof (cases ro)
      case None
      with F Ret r obtain msg f where sc: "scratched f"
        and fk: "fork os c s = bindr (embryo_to_free msg c np (upd np f (s1\<lparr>mem := m\<rparr>))) (\<lambda>s. Ret (-1, s))" by auto
      obtain s' where s': "embryo_to_free msg c np (upd np f (s1\<lparr>mem := m\<rparr>)) = Ret s'" "may_enter c s'" "plrep {} s' L"
        "mem s' = m" "same_but {np} s1 s'" "sans_alloc (procs s' np) = (sans_alloc (procs s1 np))\<lparr>state := UNUSED\<rparr>"
        "kstack (procs s' np) = None"
        using give_back [OF tk(3) Cons tk(2) np(1) em sc] by metis
      have "sans_alloc (procs s' np) = sans_alloc (procs s np)"
        using s'(6) tk(5) np(2) by (simp add: sans_alloc_def alloc_eff_def)
      with s' fk Cons Ret r None same_but_trans [OF tk(4) s'(5)] show ?thesis by auto
    next
      case (Some x)
      then obtain k pg ip where x: "ro = Some (k, pg, ip)" by (cases x) auto
      let ?t = "upd np (\<lambda>np. child (procs s1 p) p pg ip (proc_setup (ticks s1) (np\<lparr>kstack := Some k\<rparr>))) (s1\<lparr>mem := m\<rparr>)"
      obtain s' n2 where s': "fork_ready c np ?t = Ret s'" "may_enter c s'"
        "plrep {} s' (L(LFree := rest, LReady 0 := L (LReady 0) @ [np]))" "mem s' = m" "same_but {np} s1 s'"
        "nextpid s' = nextpid s1" "procs s' np = (child (procs s1 p) p pg ip (proc_setup (ticks s1) ((procs s1 np)\<lparr>kstack := Some k\<rparr>)))
           \<lparr>state := RUNNABLE, pnext := n2\<rparr>"
        using make_ready [OF tk(3,2) np(1) em, where ip = ip and k = k and pp = "procs s1 p" and p = p and pg = pg and now = "ticks s1" and m = m] .
      then have "fork os c s = Ret (sint (pid (procs s1 np)), s')" using F Ret r x by simp
      moreover have "procs s' np = (forked s p (procs s p) k pg ip (procs s np))\<lparr>pnext := n2\<rparr>"
        using s'(7) unfolding pp tk(5,8) forked_child .
      moreover have "pid (procs s1 np) = nextpid s" using tk(5) by (simp add: alloc_eff_def)
      ultimately show ?thesis using s' Cons Ret r x tk(6) same_but_trans [OF tk(4) s'(5)] by auto
    qed
  qed (use F Cons in simp_all)
qed

theorem fork_all_or_nothing_witness:
  "\<exists>s' n. fork os0 0 demo = Ret (6, s') \<and> procs s' 5 = (forked demo 1 (dproc 1) 4096 8192 None (dproc 5))\<lparr>pnext := n\<rparr>
     \<and> plrep {} s' (demoL(LFree := [6..<NPROC], LReady 0 := [2, 5]))"
proof -
  have L: "demoL LFree = 5 # [6..<NPROC]" using upt_conv_Cons [of 5 NPROC] by (simp add: demoL_def NPROC_def)
  have os: "os_kalloc os0 m = (Some 4096, m)" "os_copyuvm os0 pg n m = Ret (Some 8192, m)" "os_idup os0 i m = Ret (i, m)"
      "os_filedup os0 i' m = Ret m" for m pg n i i' by (simp_all add: os0_def)
  have d: "dup_all os0 fs m = Ret m" for fs m by (induction os0 fs m rule: dup_all.induct) (simp_all add: os0_def)
  have "fork_calls os0 (procs demo 1) (mem demo) = Ret (Some (4096, 8192, None), mem demo)"
    by (simp add: fork_calls_def fork_copies_def d os) (simp add: dproc_def proc0_def)
  with fork_all_or_nothing [OF demo_rep demo_enter demo_cpu demo_run(2), of os0] L show ?thesis
    by (auto simp: demoL_def demo_def)
qed

end
