(* ===== verification/Cstring.thy ===== *)
theory Cstring
  imports Prelude
begin

text \<open>
  The byte and string routines of the kernel (\<open>src/string.c\<close>) and of user programs
  (\<open>src/ulib.c\<close>), on a memory of bytes with 32-bit addresses that wrap around. A scan for the
  terminating null is a \<open>partial_function\<close>: \<open>None\<close> means that it never ends.
\<close>

type_synonym mem8 = "u32 \<Rightarrow> u8"

section \<open>Kernel routines\<close>

text \<open>\<open>rep stosb\<close> and \<open>rep stosl\<close> (\<open>src/x86.h\<close>).\<close>

fun stosb :: "u32 \<Rightarrow> u8 \<Rightarrow> nat \<Rightarrow> mem8 \<Rightarrow> mem8" where
  "stosb a c 0 m = m"
| "stosb a c (Suc n) m = stosb (a + 1) c n (m(a := c))"

definition store4 :: "u32 \<Rightarrow> u32 \<Rightarrow> mem8 \<Rightarrow> mem8" where
  "store4 a w m = m(a := ucast w, a + 1 := ucast (drop_bit 8 w), a + 2 := ucast (drop_bit 16 w),
                    a + 3 := ucast (drop_bit 24 w))"

fun stosl :: "u32 \<Rightarrow> u32 \<Rightarrow> nat \<Rightarrow> mem8 \<Rightarrow> mem8" where
  "stosl a w 0 m = m"
| "stosl a w (Suc n) m = stosl (a + 4) w n (store4 a w m)"

definition memset :: "u32 \<Rightarrow> u32 \<Rightarrow> u32 \<Rightarrow> mem8 \<Rightarrow> mem8" where
  "memset dst c n m =
     (if sint dst mod 4 = 0 \<and> n mod 4 = 0
      then (let c = c AND 0xFF
            in stosl dst (push_bit 24 c OR push_bit 16 c OR push_bit 8 c OR c) (unat (n div 4)) m)
      else stosb dst (ucast c) (unat n) m)"

fun memcmp :: "mem8 \<Rightarrow> u32 \<Rightarrow> u32 \<Rightarrow> nat \<Rightarrow> int" where
  "memcmp m s1 s2 0 = 0"
| "memcmp m s1 s2 (Suc n) =
     (if m s1 \<noteq> m s2 then uint (m s1) - uint (m s2) else memcmp m (s1 + 1) (s2 + 1) n)"

fun copy_down :: "nat \<Rightarrow> u32 \<Rightarrow> u32 \<Rightarrow> mem8 \<Rightarrow> mem8" where
  "copy_down 0 d s m = m"
| "copy_down (Suc n) d s m = copy_down n (d - 1) (s - 1) (m(d - 1 := m (s - 1)))"

fun copy_up :: "nat \<Rightarrow> u32 \<Rightarrow> u32 \<Rightarrow> mem8 \<Rightarrow> mem8" where
  "copy_up 0 d s m = m"
| "copy_up (Suc n) d s m = copy_up n (d + 1) (s + 1) (m(d := m s))"

definition memmove :: "u32 \<Rightarrow> u32 \<Rightarrow> u32 \<Rightarrow> mem8 \<Rightarrow> mem8" where
  "memmove dst src n m =
     (if src < dst \<and> src + n > dst
      then copy_down (unat n) (dst + n) (src + n) m
      else copy_up (unat n) dst src m)"

text \<open>The user library has its own \<open>memmove\<close>, with a signed count and upward copies only.\<close>

definition umemmove :: "u32 \<Rightarrow> u32 \<Rightarrow> int \<Rightarrow> mem8 \<Rightarrow> mem8" where
  "umemmove vdst vsrc n m = copy_up (nat n) vdst vsrc m"

definition memcpy :: "u32 \<Rightarrow> u32 \<Rightarrow> u32 \<Rightarrow> mem8 \<Rightarrow> mem8" where
  "memcpy = memmove"

fun strncmp :: "mem8 \<Rightarrow> u32 \<Rightarrow> u32 \<Rightarrow> nat \<Rightarrow> int" where
  "strncmp m p q 0 = 0"
| "strncmp m p q (Suc n) =
     (if m p \<noteq> 0 \<and> m p = m q then strncmp m (p + 1) (q + 1) n else uint (m p) - uint (m q))"

fun strncpy :: "u32 \<Rightarrow> u32 \<Rightarrow> nat \<Rightarrow> mem8 \<Rightarrow> mem8" where
  "strncpy s t 0 m = m"
| "strncpy s t (Suc n) m =
     (let m' = m(s := m t)
      in if m t \<noteq> 0 then strncpy (s + 1) (t + 1) n m' else stosb (s + 1) 0 n m')"

text \<open>The loop of \<open>safestrcpy\<close>, entered with \<open>n\<close> already decremented, and the final null.\<close>

fun safestr_loop :: "u32 \<Rightarrow> u32 \<Rightarrow> nat \<Rightarrow> mem8 \<Rightarrow> mem8" where
  "safestr_loop s t 0 m = m(s := 0)"
| "safestr_loop s t (Suc n) m =
     (let m' = m(s := m t)
      in if m t \<noteq> 0 then safestr_loop (s + 1) (t + 1) n m' else m'(s + 1 := 0))"

definition safestrcpy :: "u32 \<Rightarrow> u32 \<Rightarrow> int \<Rightarrow> mem8 \<Rightarrow> mem8" where
  "safestrcpy s t n m = (if n \<le> 0 then m else safestr_loop s t (nat (n - 1)) m)"

partial_function (option) strlen_from :: "mem8 \<Rightarrow> u32 \<Rightarrow> nat \<Rightarrow> nat option" where
  "strlen_from m s n = (if m (s + of_nat n) \<noteq> 0 then strlen_from m s (n + 1) else Some n)"

definition strlen :: "mem8 \<Rightarrow> u32 \<Rightarrow> nat option" where
  "strlen m s = strlen_from m s 0"

section \<open>User routines\<close>

partial_function (option) strcpy :: "u32 \<Rightarrow> u32 \<Rightarrow> mem8 \<Rightarrow> mem8 option" where
  "strcpy s t m = (let m' = m(s := m t) in if m t \<noteq> 0 then strcpy (s + 1) (t + 1) m' else Some m')"

partial_function (option) strcmp :: "mem8 \<Rightarrow> u32 \<Rightarrow> u32 \<Rightarrow> int option" where
  "strcmp m p q = (if m p \<noteq> 0 \<and> m p = m q then strcmp m (p + 1) (q + 1) else Some (uint (m p) - uint (m q)))"

partial_function (option) strchr :: "mem8 \<Rightarrow> u32 \<Rightarrow> u8 \<Rightarrow> u32 option option" where
  "strchr m s c = (if m s = 0 then Some None else if m s = c then Some (Some s) else strchr m (s + 1) c)"

text \<open>\<open>gets\<close> reads from the list of characters that standard input delivers.\<close>

fun gets_loop :: "u32 \<Rightarrow> nat \<Rightarrow> u8 list \<Rightarrow> mem8 \<Rightarrow> u32 \<times> u8 list \<times> mem8" where
  "gets_loop a 0 inp m = (a, inp, m)"
| "gets_loop a (Suc n) [] m = (a, [], m)"
| "gets_loop a (Suc n) (c # inp) m =
     (if c = 10 \<or> c = 13 then (a + 1, inp, m(a := c)) else gets_loop (a + 1) n inp (m(a := c)))"

definition gets :: "u32 \<Rightarrow> int \<Rightarrow> u8 list \<Rightarrow> mem8 \<Rightarrow> u8 list \<times> mem8" where
  "gets buf mx inp m = (let (a, inp, m) = gets_loop buf (nat (mx - 1)) inp m in (inp, m(a := 0)))"

partial_function (option) skip_spaces :: "mem8 \<Rightarrow> u32 \<Rightarrow> u32 option" where
  "skip_spaces m s = (if m s = 32 then skip_spaces m (s + 1) else Some s)"

text \<open>The digit loops of \<open>atoi\<close> (base 10) and \<open>atoo\<close> (base 8); the numbers wrap at 32 bits.\<close>

partial_function (option) digits :: "u32 \<Rightarrow> u8 \<Rightarrow> mem8 \<Rightarrow> u32 \<Rightarrow> u32 \<Rightarrow> u32 option" where
  "digits b hi m s n =
     (if 48 \<le> m s \<and> m s \<le> hi then digits b hi m (s + 1) (n * b + ucast (m s) - 48) else Some n)"

definition atoi :: "mem8 \<Rightarrow> u32 \<Rightarrow> u32 option" where
  "atoi m s0 =
     Option.bind (skip_spaces m s0) (\<lambda>s.
     map_option (\<lambda>n. (if m s = 45 then -1 else 1) * n)
       (digits 10 57 m (if m s = 43 \<or> m s = 45 then s + 1 else s) 0))"

definition atoo :: "mem8 \<Rightarrow> u32 \<Rightarrow> u32 option" where
  "atoo m s0 =
     Option.bind (skip_spaces m s0) (\<lambda>s.
     map_option (\<lambda>n. (if m s = 45 then -1 else 1) * n)
       (digits 8 55 m (if m s = 43 \<or> m s = 45 then s + 1 else s) 0))"

section \<open>Offsets\<close>

lemma off_eq_iff:
  assumes "i < 2 ^ 32" and "j < 2 ^ 32"
  shows "(p :: u32) + of_nat i = p + of_nat j \<longleftrightarrow> i = j"
proof -
  have "unat (of_nat i :: u32) = i" "unat (of_nat j :: u32) = j"
    using assms by (simp_all add: unat_of_nat)
  then show ?thesis by (metis add_left_cancel)
qed

lemma off_zero_iff: "i < 2 ^ 32 \<Longrightarrow> (p :: u32) + of_nat i = p \<longleftrightarrow> i = 0"
  using off_eq_iff [of i 0 p] by simp

text \<open>\<open>filled m a xs\<close> is \<open>m\<close> with the bytes \<open>xs\<close> written at \<open>a\<close>: what the loops are compared with.\<close>

fun filled :: "mem8 \<Rightarrow> u32 \<Rightarrow> u8 list \<Rightarrow> mem8" where
  "filled m a [] = m"
| "filled m a (x # xs) = (filled m (a + 1) xs)(a := x)"

lemma filled_out: "\<forall>i<length xs. b \<noteq> a + of_nat i \<Longrightarrow> filled m a xs b = m b"
proof (induction xs arbitrary: a)
  case (Cons x xs)
  then have "b \<noteq> a" by force
  moreover have "\<forall>i<length xs. b \<noteq> (a + 1) + of_nat i"
    using Cons.prems by (metis (no_types, lifting) Suc_less_eq add.assoc add.commute length_Cons of_nat_Suc)
  ultimately show ?case using Cons.IH by simp
qed simp

lemma filled_at: "length xs \<le> 2 ^ 32 \<Longrightarrow> i < length xs \<Longrightarrow> filled m a xs (a + of_nat i) = xs ! i"
proof (induction xs arbitrary: a i)
  case (Cons x xs)
  show ?case
  proof (cases i)
    case 0
    then show ?thesis by simp
  next
    case (Suc j)
    then have "a + of_nat i \<noteq> a" using Cons.prems off_zero_iff [of i a] by simp
    moreover have "filled m (a + 1) xs ((a + 1) + of_nat j) = xs ! j" using Cons Suc by simp
    ultimately show ?thesis using Suc by (simp add: add.assoc)
  qed
qed simp

lemma filled_append: "filled m a (xs @ ys) = filled (filled m (a + of_nat (length xs)) ys) a xs"
  by (induction xs arbitrary: a) (simp_all add: add.assoc add.commute)

lemma filled_upd: "\<forall>i<length xs. b \<noteq> a + of_nat i \<Longrightarrow> filled (m(b := x)) a xs = (filled m a xs)(b := x)"
proof (induction xs arbitrary: a)
  case (Cons y xs)
  then have "b \<noteq> a" by force
  moreover have "\<forall>i<length xs. b \<noteq> (a + 1) + of_nat i"
    using Cons.prems by (metis (no_types, lifting) Suc_less_eq add.assoc add.commute length_Cons of_nat_Suc)
  ultimately show ?case using Cons.IH by (auto simp: fun_eq_iff)
qed simp

section \<open>memset\<close>

lemma next_off: "i < n \<Longrightarrow> n < 2 ^ 32 \<Longrightarrow> (a :: u32) \<noteq> (a + 1) + of_nat i"
  using off_zero_iff [of "Suc i" a] by (auto simp: add.assoc)

lemma stosb_filled: "n \<le> 2 ^ 32 \<Longrightarrow> stosb a c n m = filled m a (replicate n c)"
  by (induction n arbitrary: a m) (simp_all add: filled_upd next_off)

lemma store4_filled: "ucast w = c \<Longrightarrow> ucast (drop_bit 8 w) = c \<Longrightarrow> ucast (drop_bit 16 w) = c \<Longrightarrow>
    ucast (drop_bit 24 w) = c \<Longrightarrow> store4 a w m = filled m a (replicate 4 c)"
  by (auto simp: store4_def numeral_eq_Suc fun_eq_iff add.assoc)

lemma spread_bytes:
  fixes c :: u32
  defines "w \<equiv> push_bit 24 (c AND 0xFF) OR push_bit 16 (c AND 0xFF) OR push_bit 8 (c AND 0xFF) OR (c AND 0xFF)"
  shows "(ucast w :: u8) = ucast c" and "(ucast (drop_bit 8 w) :: u8) = ucast c"
    and "(ucast (drop_bit 16 w) :: u8) = ucast c" and "(ucast (drop_bit 24 w) :: u8) = ucast c"
proof -
  have t: "c AND 0xFF = take_bit 8 c" by (simp add: take_bit_eq_mask mask_eq_exp_minus_1)
  show "(ucast w :: u8) = ucast c" "(ucast (drop_bit 8 w) :: u8) = ucast c"
    "(ucast (drop_bit 16 w) :: u8) = ucast c" "(ucast (drop_bit 24 w) :: u8) = ucast c"
    unfolding w_def t by (rule bit_word_eqI; auto simp: bit_simps)+
qed

lemma stosl_filled:
  assumes "\<And>a m. store4 a w m = filled m a (replicate 4 c)" and "4 * n \<le> 2 ^ 32"
  shows "stosl a w n m = filled m a (replicate (4 * n) c)"
  using assms(2)
proof (induction n arbitrary: a m)
  case (Suc n)
  have ne: "a + of_nat i \<noteq> (a + 4) + of_nat j" if "i < 4" "j < 4 * n" for i j
    using off_eq_iff [of i "4 + j" a] that Suc.prems by (auto simp: add.assoc)
  have "filled (filled m a (replicate 4 c)) (a + 4) (replicate (4 * n) c)
      = filled (filled m (a + 4) (replicate (4 * n) c)) a (replicate 4 c)"
    using ne [of 0] ne [of 1] ne [of 2] ne [of 3] by (simp add: numeral_eq_Suc filled_upd add.assoc)
  then show ?case
    using Suc filled_append [of m a "replicate 4 c" "replicate (4 * n) c"]
    by (simp add: assms(1) replicate_add [symmetric])
qed simp

text \<open>The word-wise version of \<open>memset\<close> and the byte-wise one fill the same bytes.\<close>

lemma memset_filled: "memset dst c n m = filled m dst (replicate (unat n) (ucast c))"
proof (cases "sint dst mod 4 = 0 \<and> n mod 4 = 0")
  case True
  have "unat (n mod 4) = unat n mod 4" by (simp add: unat_mod_distrib)
  then have "unat n mod 4 = 0" using True by simp
  then have d: "4 * unat (n div 4) = unat n" by (simp add: unat_div_distrib mult_div_mod_eq [of 4, symmetric] flip: mod_eq_0_iff_dvd)
  have "4 * unat (n div 4) \<le> 2 ^ 32" using d unat_u32 [of n] by simp
  from stosl_filled [OF store4_filled [OF spread_bytes [of c]] this] show ?thesis
    using True d by (simp add: memset_def)
next
  case False
  have "unat n \<le> 2 ^ 32" using unat_u32 [of n] by simp
  from stosb_filled [OF this] show ?thesis using False by (auto simp: memset_def)
qed

section \<open>memmove\<close>

definition bytes :: "mem8 \<Rightarrow> u32 \<Rightarrow> nat \<Rightarrow> u8 list" where
  "bytes m a n = map (\<lambda>i. m (a + of_nat i)) [0..<n]"

lemma length_bytes [simp]: "length (bytes m a n) = n"
  by (simp add: bytes_def)

lemma bytes_nth: "i < n \<Longrightarrow> bytes m a n ! i = m (a + of_nat i)"
  by (simp add: bytes_def)

lemma bytes_Suc: "bytes m a (Suc n) = m a # bytes m (a + 1) n"
  by (rule nth_equalityI) (auto simp: bytes_nth nth_Cons add.assoc split: nat.split)

lemma bytes_snoc: "bytes m a (Suc n) = bytes m a n @ [m (a + of_nat n)]"
  by (simp add: bytes_def)

lemma bytes_upd: "\<forall>i<n. b \<noteq> a + of_nat i \<Longrightarrow> bytes (m(b := x)) a n = bytes m a n"
  by (auto simp: bytes_def)

lemma off_diff: "n < 2 ^ 32 \<Longrightarrow> (d :: u32) = s + of_nat n \<Longrightarrow> unat (d - s) = n"
  by (simp add: unat_of_nat)

lemma copy_up_filled:
  "n \<le> 2 ^ 32 \<Longrightarrow> d = s \<or> n \<le> unat (d - s) \<Longrightarrow> copy_up n d s m = filled m d (bytes m s n)"
proof (induction n arbitrary: d s m)
  case (Suc n)
  have s: "d \<noteq> (s + 1) + of_nat i" if "i < n" for i
  proof
    assume "d = (s + 1) + of_nat i"
    then have "d = s + of_nat (Suc i)" by (simp add: add.assoc)
    then show False using off_diff [of "Suc i" d s] off_zero_iff [of "Suc i" s] that Suc.prems by auto
  qed
  have d: "d \<noteq> (d + 1) + of_nat i" if "i < n" for i using next_off [of i n d] that Suc.prems by simp
  have "copy_up n (d + 1) (s + 1) (m(d := m s)) = filled (m(d := m s)) (d + 1) (bytes (m(d := m s)) (s + 1) n)"
    using Suc.prems by (intro Suc.IH) auto
  then show ?case using s d by (simp add: bytes_Suc bytes_upd filled_upd)
qed (simp add: bytes_def)

text \<open>
  The \<open>memmove\<close> of the user library copies right downwards and between areas that do not overlap,
  but repeats the first bytes if the target starts inside the source.
\<close>

lemma umemmove_filled:
  "nat n \<le> 2 ^ 32 \<Longrightarrow> d = s \<or> nat n \<le> unat (d - s) \<Longrightarrow> umemmove d s n m = filled m d (bytes m s (nat n))"
  by (simp add: umemmove_def copy_up_filled)

lemma umemmove_smears: "umemmove (s + 1) s 2 m (s + 2) = m s"
  by (simp add: umemmove_def numeral_2_eq_2 add.assoc)

lemma copy_down_filled:
  "n \<le> 2 ^ 32 \<Longrightarrow> d = s \<or> n \<le> unat (s - d) \<Longrightarrow>
   copy_down n (d + of_nat n) (s + of_nat n) m = filled m d (bytes m s n)"
proof (induction n arbitrary: m)
  case (Suc n)
  let ?v = "m (s + of_nat n)" and ?a = "d + of_nat n :: u32"
  have ne: "?a \<noteq> s + of_nat i" if "i < n" for i
  proof
    assume a: "?a = s + of_nat i"
    then have "s = d + of_nat (n - i)" using that by (simp add: algebra_simps of_nat_diff)
    then have "unat (s - d) = n - i" using Suc.prems(1) by (intro off_diff) auto
    then show False using Suc.prems that a off_eq_iff [of n i s] by auto
  qed
  have "copy_down n ?a (s + of_nat n) (m(?a := ?v)) = filled (m(?a := ?v)) d (bytes (m(?a := ?v)) s n)"
    using Suc.prems by (intro Suc.IH) auto
  also have "\<dots> = filled m d (bytes m s n @ [?v])" using ne by (simp add: filled_append bytes_upd)
  finally show ?case by (simp add: bytes_snoc)
qed (simp add: bytes_def)

text \<open>
  C34: \<open>memmove\<close> is right for overlapping areas: the \<open>n\<close> bytes at \<open>dst\<close> become what the \<open>n\<close> bytes
  at \<open>src\<close> were and nothing else changes. The source must end below the top of memory; a source
  that ends exactly there makes \<open>s + n\<close> wrap to 0.
\<close>

theorem memmove_overlap:
  assumes "unat src + unat n < 2 ^ 32" and "unat dst + unat n \<le> 2 ^ 32"
  shows "(\<forall>i<unat n. memmove dst src n m (dst + of_nat i) = m (src + of_nat i))
    \<and> (\<forall>a. (\<forall>i<unat n. a \<noteq> dst + of_nat i) \<longrightarrow> memmove dst src n m a = m a)"
proof -
  have n: "unat n \<le> 2 ^ 32" using unat_u32 [of n] by simp
  have sn: "unat (src + n) = unat src + unat n" using assms(1) by (simp add: unat_word_ariths)
  have "memmove dst src n m = filled m dst (bytes m src (unat n))"
  proof (cases "src < dst \<and> dst < src + n")
    case True
    have "unat n \<le> unat (src - dst)"
      using True assms(2) sn by (simp add: word_less_nat_alt unat_sub_if_size word_size)
    then show ?thesis using True copy_down_filled [OF n, of dst src m] by (simp add: memmove_def)
  next
    case False
    have "dst = src \<or> unat n \<le> unat (dst - src)"
      using False assms sn by (auto simp: word_less_nat_alt unat_sub_if_size word_size not_less word_unat_eq_iff)
    then show ?thesis using False copy_up_filled [OF n, of dst src m] by (auto simp: memmove_def)
  qed
  then show ?thesis using n filled_at [of "bytes m src (unat n)" _ m dst] filled_out [of "bytes m src (unat n)" _ dst m]
    by (simp add: bytes_nth)
qed

theorem memmove_overlap_witness:
  "memmove 102 100 4 (\<lambda>a. ucast a) 105 = (103 :: u8) \<and> memmove 102 100 4 (\<lambda>a. ucast a) 106 = (106 :: u8)"
proof -
  let ?m = "(\<lambda>a. ucast a) :: mem8"
  have h: "unat (100 :: u32) + unat (4 :: u32) < 2 ^ 32" "unat (102 :: u32) + unat (4 :: u32) \<le> 2 ^ 32" by simp_all
  have "memmove 102 100 4 ?m (102 + of_nat 3) = ?m (100 + of_nat 3)"
    by (rule memmove_overlap [OF h, THEN conjunct1, rule_format]) simp
  moreover have "memmove 102 100 4 ?m 106 = ?m 106"
    by (rule memmove_overlap [OF h, THEN conjunct2, rule_format]) (use off_eq_iff [of 4 _ 102] in auto)
  ultimately show ?thesis by simp
qed

section \<open>Null-terminated strings\<close>

fun cstr :: "mem8 \<Rightarrow> u32 \<Rightarrow> u8 list \<Rightarrow> bool" where
  "cstr m p [] \<longleftrightarrow> m p = 0"
| "cstr m p (c # cs) \<longleftrightarrow> c \<noteq> 0 \<and> m p = c \<and> cstr m (p + 1) cs"

lemma cstr_nz: "cstr m p cs \<Longrightarrow> 0 \<notin> set cs"
  by (induction cs arbitrary: p) auto

lemma cstr_at: "cstr m p cs \<Longrightarrow> i \<le> length cs \<Longrightarrow> m (p + of_nat i) = (if i < length cs then cs ! i else 0)"
proof (induction cs arbitrary: p i)
  case (Cons c cs)
  show ?case
  proof (cases i)
    case (Suc j)
    then show ?thesis using Cons.IH [of "p + 1" j] Cons.prems by (simp add: add.assoc)
  qed (use Cons.prems in simp)
qed simp

lemma cstr_unique: "cstr m p xs \<Longrightarrow> cstr m p ys \<Longrightarrow> xs = ys"
  by (induction xs arbitrary: p ys; case_tac ys) auto

lemma cstr_cong: "\<forall>i\<le>length cs. m' (p + of_nat i) = m (p + of_nat i) \<Longrightarrow> cstr m' p cs = cstr m p cs"
proof (induction cs arbitrary: p)
  case (Cons c cs)
  have "m' ((p + 1) + of_nat i) = m ((p + 1) + of_nat i)" if "i \<le> length cs" for i
    using Cons.prems [rule_format, of "Suc i"] that by (simp add: add.assoc)
  then show ?case using Cons.IH [of "p + 1"] Cons.prems [rule_format, of 0] by simp
qed simp

lemma cstr_filled: "0 \<notin> set xs \<Longrightarrow> length xs < 2 ^ 32 \<Longrightarrow> cstr (filled m p (xs @ 0 # zs)) p xs"
proof (induction xs arbitrary: p)
  case (Cons x xs)
  let ?f = "filled m (p + 1) (xs @ 0 # zs)"
  have "cstr (?f(p := x)) (p + 1) xs = cstr ?f (p + 1) xs"
    using Cons.prems(2) next_off [of _ "length (x # xs)" p] by (intro cstr_cong) force
  then show ?case using Cons by (auto simp: fun_upd_def)
qed simp

lemma strlen_from_cstr: "cstr m (s + of_nat n) cs \<Longrightarrow> strlen_from m s n = Some (n + length cs)"
proof (induction cs arbitrary: n)
  case Nil
  then show ?case by (subst strlen_from.simps) simp
next
  case (Cons c cs)
  then have "cstr m (s + of_nat (n + 1)) cs" by (simp add: ac_simps)
  from Cons.IH [OF this] show ?case using Cons.prems by (subst strlen_from.simps) simp
qed

lemma strlen_cstr: "cstr m s cs \<Longrightarrow> strlen m s = Some (length cs)"
  using strlen_from_cstr [of m s 0 cs] by (simp add: strlen_def)

text \<open>The comparison \<open>strcmp\<close> and \<open>strncmp\<close> compute.\<close>

fun cmpv :: "u8 list \<Rightarrow> u8 list \<Rightarrow> int" where
  "cmpv [] [] = 0"
| "cmpv [] (y # ys) = - uint y"
| "cmpv (x # xs) [] = uint x"
| "cmpv (x # xs) (y # ys) = (if x = y then cmpv xs ys else uint x - uint y)"

lemma strcmp_cmpv: "cstr m p xs \<Longrightarrow> cstr m q ys \<Longrightarrow> strcmp m p q = Some (cmpv xs ys)"
proof (induction xs ys arbitrary: p q rule: cmpv.induct)
  case (4 x xs y ys)
  then show ?case by (subst strcmp.simps) auto
qed (subst strcmp.simps, auto)+

lemma strncmp_cmpv: "cstr m p xs \<Longrightarrow> cstr m q ys \<Longrightarrow> strncmp m p q n = cmpv (take n xs) (take n ys)"
proof (induction n arbitrary: p q xs ys)
  case (Suc n)
  then show ?case by (cases xs; cases ys) auto
qed simp

lemma cmpv_order:
  assumes "0 \<notin> set xs" and "0 \<notin> set ys"
  shows "cmpv xs ys = 0 \<longleftrightarrow> xs = ys" and "cmpv xs ys < 0 \<longleftrightarrow> (xs, ys) \<in> lexord {(a, b). a < b}"
proof -
  have nz: "x \<noteq> 0 \<Longrightarrow> 0 < uint x" for x :: u8 by (metis le_less uint_0_iff uint_ge_0)
  have lt: "uint x < uint y \<longleftrightarrow> x < y" for x y :: u8 by (simp add: word_less_def)
  have eq: "uint x = uint y \<longleftrightarrow> x = y" for x y :: u8 by (simp add: word_uint_eq_iff)
  show "cmpv xs ys = 0 \<longleftrightarrow> xs = ys"
    using assms by (induction xs ys rule: cmpv.induct) (simp_all add: eq, auto dest: nz)
  show "cmpv xs ys < 0 \<longleftrightarrow> (xs, ys) \<in> lexord {(a, b). a < b}"
    using assms by (induction xs ys rule: cmpv.induct) (simp_all add: nz lt)
qed

text \<open>
  C35: \<open>strcmp\<close> ends on null-terminated strings and orders them: its result is \<open>0\<close> exactly for
  equal strings and negative exactly if the first one comes first lexicographically, byte values
  taken as unsigned; \<open>strncmp\<close> does the same with the first \<open>n\<close> bytes.
\<close>

theorem strcmp_orders:
  assumes "cstr m p xs" and "cstr m q ys"
  shows "\<exists>r. strcmp m p q = Some r \<and> (r = 0 \<longleftrightarrow> xs = ys) \<and> (r < 0 \<longleftrightarrow> (xs, ys) \<in> lexord {(a, b). a < b})
    \<and> (strncmp m p q n = 0 \<longleftrightarrow> take n xs = take n ys)
    \<and> (strncmp m p q n < 0 \<longleftrightarrow> (take n xs, take n ys) \<in> lexord {(a, b). a < b})"
proof -
  have "0 \<notin> set xs" "0 \<notin> set ys" "0 \<notin> set (take n xs)" "0 \<notin> set (take n ys)"
    using cstr_nz [OF assms(1)] cstr_nz [OF assms(2)] by (auto dest: in_set_takeD)
  then show ?thesis by (simp add: strcmp_cmpv [OF assms] strncmp_cmpv [OF assms] cmpv_order)
qed

theorem strcmp_orders_witness:
  "\<exists>r. strcmp (filled (\<lambda>_. 0) 16 [97, 98, 0, 97, 99, 0]) 16 19 = Some r \<and> r < 0"
proof -
  let ?m = "filled (\<lambda>_. 0) 16 [97, 98, 0, 97, 99, 0]"
  have "cstr ?m 16 [97, 98]" "cstr ?m 19 [97, 99]" by simp_all
  from strcmp_orders [OF this, of 0] show ?thesis by auto
qed

section \<open>Bounded copies\<close>

text \<open>The \<open>k\<close> bytes at \<open>s\<close> are apart from the string of length \<open>l\<close> at \<open>t\<close> and its null.\<close>

definition apart :: "u32 \<Rightarrow> nat \<Rightarrow> u32 \<Rightarrow> nat \<Rightarrow> bool" where
  "apart s k t l \<longleftrightarrow> (\<forall>i<k. \<forall>j\<le>l. s + of_nat i \<noteq> t + of_nat j)"

lemma unat_off: "unat p + i < 2 ^ 32 \<Longrightarrow> unat (p + of_nat i :: u32) = unat p + i"
  by (simp add: unat_word_ariths unat_of_nat)

lemma apart_above:
  assumes "unat t + l < unat s" and "unat s + k \<le> 2 ^ 32"
  shows "apart s k t l"
  unfolding apart_def
proof (intro allI impI)
  fix i j assume "i < k" "j \<le> l"
  then have "unat (s + of_nat i) = unat s + i" "unat (t + of_nat j) = unat t + j"
    using assms unat_u32 [of s] by (simp_all add: unat_off)
  then show "s + of_nat i \<noteq> t + of_nat j" using assms(1) \<open>j \<le> l\<close> by (metis add_leD1 le_add1 not_less le_trans add_le_cancel_left)
qed

lemma apart_Suc: "apart s (Suc k) t (Suc l) \<Longrightarrow> apart (s + 1) k (t + 1) l"
  unfolding apart_def
proof (intro allI impI)
  fix i j assume a: "\<forall>i<Suc k. \<forall>j\<le>Suc l. s + of_nat i \<noteq> t + of_nat j" and "i < k" "j \<le> l"
  then have "s + of_nat (Suc i) \<noteq> t + of_nat (Suc j)" by blast
  then show "s + 1 + of_nat i \<noteq> t + 1 + of_nat j" by (simp add: add.assoc)
qed

lemma cstr_apart: "apart s (Suc k) t (length cs) \<Longrightarrow> cstr (m(s := x)) t cs = cstr m t cs"
  by (rule cstr_cong) (force simp: apart_def dest: spec [of _ 0])

lemma safestr_filled:
  "cstr m t cs \<Longrightarrow> apart s (Suc k) t (length cs) \<Longrightarrow> k < 2 ^ 32 \<Longrightarrow>
   safestr_loop s t k m = filled m s (take k cs @ (if length cs < k then [0, 0] else [0]))"
proof (induction k arbitrary: s t cs m)
  case (Suc k)
  have c: "cstr (m(s := m t)) t cs" using Suc.prems(1) cstr_apart [OF Suc.prems(2)] by simp
  show ?case
  proof (cases cs)
    case Nil
    then show ?thesis using Suc.prems next_off [of 0 1 s] by (auto simp: fun_eq_iff)
  next
    case (Cons c' cs')
    let ?r = "take k cs' @ (if length cs' < k then [0, 0] else [0])"
    have "safestr_loop (s + 1) (t + 1) k (m(s := m t)) = filled (m(s := m t)) (s + 1) ?r"
      using Suc.prems c Cons by (intro Suc.IH) (auto simp: fun_upd_def dest: apart_Suc)
    also have "\<dots> = (filled m (s + 1) ?r)(s := m t)"
      using Suc.prems(3) next_off [of _ "Suc k" s] by (intro filled_upd) (auto simp: min_def split: if_splits)
    finally show ?thesis using Suc.prems(1) Cons by (auto simp: Let_def)
  qed
qed simp

lemma strncpy_filled:
  "cstr m t cs \<Longrightarrow> apart s n t (length cs) \<Longrightarrow> n \<le> 2 ^ 32 \<Longrightarrow>
   strncpy s t n m = filled m s (take n cs @ replicate (n - length cs) 0)"
proof (induction n arbitrary: s t cs m)
  case (Suc n)
  have c: "cstr (m(s := m t)) t cs" using Suc.prems(1) cstr_apart [OF Suc.prems(2)] by simp
  show ?case
  proof (cases cs)
    case Nil
    then show ?thesis using Suc.prems next_off [of _ n s] by (simp add: stosb_filled filled_upd)
  next
    case (Cons c' cs')
    let ?r = "take n cs' @ replicate (n - length cs') 0"
    have "strncpy (s + 1) (t + 1) n (m(s := m t)) = filled (m(s := m t)) (s + 1) ?r"
      using Suc.prems c Cons by (intro Suc.IH) (auto simp: fun_upd_def dest: apart_Suc)
    also have "\<dots> = (filled m (s + 1) ?r)(s := m t)"
      using Suc.prems(3) next_off [of _ n s] by (intro filled_upd) (auto simp: min_def split: if_splits)
    finally show ?thesis using Suc.prems(1) Cons by (auto simp: Let_def)
  qed
qed simp

text \<open>
  C36: \<open>safestrcpy\<close> always leaves a proper string: for \<open>0 < n\<close>, and areas that do not overlap, the
  result is the source cut to \<open>n - 1\<close> characters, null-terminated, and no byte outside the \<open>n\<close>
  given ones is written.
\<close>

theorem safestrcpy_terminates:
  assumes "cstr m t cs" and "0 < n" and "n < 2 ^ 32" and "apart s (nat n) t (length cs)"
  shows "cstr (safestrcpy s t n m) s (take (nat n - 1) cs)
    \<and> (\<forall>a. (\<forall>i<nat n. a \<noteq> s + of_nat i) \<longrightarrow> safestrcpy s t n m a = m a)"
proof -
  obtain k where k: "nat n = Suc k" using assms(2) by (metis gr0_implies_Suc zero_less_nat_eq)
  have k32: "k < 2 ^ 32" using k assms(3) by simp
  let ?w = "take k cs @ (if length cs < k then [0, 0] else [0])"
  have "nat (n - 1) = k" using k by simp
  then have e: "safestrcpy s t n m = filled m s ?w"
    using assms(1,2,4) k k32 safestr_filled [of m t cs s k] by (simp add: safestrcpy_def)
  have "\<exists>zs. ?w = take k cs @ 0 # zs" by auto
  moreover have "0 \<notin> set (take k cs)" using cstr_nz [OF assms(1)] by (auto dest: in_set_takeD)
  moreover have "length (take k cs) < 2 ^ 32" using k32 by simp
  ultimately have "cstr (filled m s ?w) s (take k cs)" using cstr_filled by metis
  moreover have "length ?w \<le> nat n" using k by auto
  then have "filled m s ?w a = m a" if "\<forall>i<nat n. a \<noteq> s + of_nat i" for a
    using that by (intro filled_out) auto
  ultimately show ?thesis using e k by simp
qed

theorem safestrcpy_terminates_witness:
  "cstr (safestrcpy 64 16 3 (filled (\<lambda>_. 1) 16 [97, 98, 99, 0])) 64 [97, 98]"
proof -
  let ?m = "filled (\<lambda>_. 1) 16 [97, 98, 99, 0]"
  have c: "cstr ?m 16 [97, 98, 99]" by simp
  have "apart 64 (nat 3) 16 (length [97, 98, 99 :: u8])"
    by (rule apart_above) simp_all
  from safestrcpy_terminates [OF c _ _ this] show ?thesis by simp
qed

end
