(* ===== verification/Printf.thy ===== *)
theory Printf
  imports Cstring
begin

text \<open>
  Formatted output of user programs (\<open>src/printf.c\<close>) and of the kernel console (\<open>printint\<close> and
  \<open>cprintf\<close> of \<open>src/console.c\<close>), as the text they write. The variable arguments are the words on
  the stack; reading more of them than there are is a \<open>Fault\<close>.
\<close>

text \<open>Bytes and characters.\<close>

definition chr8 :: "u8 \<Rightarrow> char" where
  "chr8 b = char_of (unat b)"

definition ord8 :: "char \<Rightarrow> u8" where
  "ord8 c = word_of_nat (of_char c)"

section \<open>Numbers\<close>

text \<open>
  The loop that fills \<open>buf\<close>, least significant digit first. It never ends in base 1; in base 0 the
  division traps, which the model leaves to the callers: they use 10 and 16.
\<close>

partial_function (option) int_loop :: "string \<Rightarrow> u32 \<Rightarrow> u32 \<Rightarrow> string \<Rightarrow> string option" where
  "int_loop tab b x buf =
     (let buf = buf @ [tab ! unat (x mod b)]; x = x div b
      in if x \<noteq> 0 then int_loop tab b x buf else Some buf)"

definition udigits :: string where "udigits = ''0123456789ABCDEF''"
definition kdigits :: string where "kdigits = ''0123456789abcdef''"

text \<open>\<open>char buf[16]\<close>: a seventeenth character would be written past the end.\<close>

definition printint :: "u32 \<Rightarrow> u32 \<Rightarrow> bool \<Rightarrow> string res" where
  "printint xx b sg =
     (let neg = sg \<and> sint xx < 0; x = (if neg then - xx else xx)
      in bindr (of_loop (int_loop udigits b x [])) (\<lambda>buf.
         (let buf = (if neg then buf @ ''-'' else buf)
          in if length buf > 16 then Fault else Ret (rev buf))))"

definition kprintint :: "u32 \<Rightarrow> u32 \<Rightarrow> bool \<Rightarrow> string res" where
  "kprintint xx b sign =
     (let sign = sign \<and> sint xx < 0; x = (if sign then - xx else xx)
      in bindr (of_loop (int_loop kdigits b x [])) (\<lambda>buf.
         (let buf = (if sign then buf @ ''-'' else buf)
          in if length buf > 16 then Fault else Ret (rev buf))))"

section \<open>Formats\<close>

text \<open>
  An argument is a word, or a string the caller passes by address (the model keeps the string
  instead of where it is, so its address cannot be printed).
\<close>

datatype parg = PWord u32 | PStr string

fun next_word :: "parg list \<Rightarrow> (u32 \<times> parg list) res" where
  "next_word (PWord a # ap) = Ret (a, ap)"
| "next_word ap = Fault"

text \<open>The characters \<open>%s\<close> prints.\<close>

fun next_str :: "mem8 \<Rightarrow> parg list \<Rightarrow> (string \<times> parg list) res" where
  "next_str m [] = Fault"
| "next_str m (PStr s # ap) = Ret (s, ap)"
| "next_str m (PWord a # ap) =
     (if a = 0 then Ret (''(null)'', ap)
      else bindr (of_loop (strlen m a)) (\<lambda>n. Ret (map chr8 (bytes m a n), ap)))"

definition before :: "string \<Rightarrow> string res \<Rightarrow> string res" where
  "before out r = bindr r (\<lambda>rest. Ret (out @ rest))"

fun printf_loop :: "mem8 \<Rightarrow> string \<Rightarrow> bool \<Rightarrow> parg list \<Rightarrow> string res" where
  "printf_loop m [] st ap = Ret []"
| "printf_loop m (c # fmt) False ap =
     (if c = CHR ''%'' then printf_loop m fmt True ap else before [c] (printf_loop m fmt False ap))"
| "printf_loop m (c # fmt) True ap =
     (if c = CHR ''d'' then
        bindr (next_word ap) (\<lambda>(a, ap). bindr (printint a 10 True) (\<lambda>s. before s (printf_loop m fmt False ap)))
      else if c = CHR ''x'' \<or> c = CHR ''p'' then
        bindr (next_word ap) (\<lambda>(a, ap). bindr (printint a 16 False) (\<lambda>s. before s (printf_loop m fmt False ap)))
      else if c = CHR ''s'' then
        bindr (next_str m ap) (\<lambda>(s, ap). before s (printf_loop m fmt False ap))
      else if c = CHR ''c'' then
        bindr (next_word ap) (\<lambda>(a, ap). before [chr8 (ucast a)] (printf_loop m fmt False ap))
      else if c = CHR ''%'' then before [c] (printf_loop m fmt False ap)
      else before [CHR ''%'', c] (printf_loop m fmt False ap))"

definition printf :: "mem8 \<Rightarrow> string \<Rightarrow> parg list \<Rightarrow> string res" where
  "printf m fmt ap = printf_loop m fmt False ap"

fun cprintf :: "mem8 \<Rightarrow> string \<Rightarrow> parg list \<Rightarrow> string res" where
  "cprintf m [] ap = Ret []"
| "cprintf m [c] ap = Ret (if c = CHR ''%'' then [] else [c])"
| "cprintf m (c # d # fmt) ap =
     (if c \<noteq> CHR ''%'' then before [c] (cprintf m (d # fmt) ap)
      else if d = CHR ''d'' then
        bindr (next_word ap) (\<lambda>(a, ap). bindr (kprintint a 10 True) (\<lambda>s. before s (cprintf m fmt ap)))
      else if d = CHR ''x'' \<or> d = CHR ''p'' then
        bindr (next_word ap) (\<lambda>(a, ap). bindr (kprintint a 16 False) (\<lambda>s. before s (cprintf m fmt ap)))
      else if d = CHR ''s'' then
        bindr (next_str m ap) (\<lambda>(s, ap). before s (cprintf m fmt ap))
      else if d = CHR ''%'' then before ''%'' (cprintf m fmt ap)
      else before [CHR ''%'', d] (cprintf m fmt ap))"

section \<open>Digits of a number\<close>

fun numstr :: "nat \<Rightarrow> nat \<Rightarrow> nat list" where
  "numstr b n = (if b < 2 \<or> n < b then [n] else numstr b (n div b) @ [n mod b])"

declare numstr.simps [simp del]

definition valstr :: "nat \<Rightarrow> nat list \<Rightarrow> nat" where
  "valstr b ds = foldl (\<lambda>n d. n * b + d) 0 ds"

lemma valstr_numstr: "2 \<le> b \<Longrightarrow> valstr b (numstr b n) = n"
proof (induction b n rule: numstr.induct)
  case (1 b n)
  then show ?case by (subst numstr.simps) (auto simp: valstr_def)
qed

lemma numstr_digits: "2 \<le> b \<Longrightarrow> d \<in> set (numstr b n) \<Longrightarrow> d < b"
proof (induction b n rule: numstr.induct)
  case (1 b n)
  then show ?case by (subst (asm) (2) numstr.simps) (auto split: if_splits)
qed

lemma numstr_length: "2 \<le> b \<Longrightarrow> n < b ^ Suc k \<Longrightarrow> length (numstr b n) \<le> Suc k"
proof (induction k arbitrary: n)
  case 0
  then show ?case by (simp add: numstr.simps)
next
  case (Suc k)
  then have "n div b < b ^ Suc k" by (simp add: less_mult_imp_div_less mult.commute)
  from Suc.IH [OF Suc.prems(1) this] show ?case by (subst numstr.simps) simp
qed

lemma int_loop_digits:
  assumes "2 \<le> unat b"
  shows "int_loop tab b x buf = Some (buf @ rev (map ((!) tab) (numstr (unat b) (unat x))))"
proof (induction "unat b" "unat x" arbitrary: x buf rule: numstr.induct)
  case 1
  have d: "unat (x div b) = unat x div unat b" "unat (x mod b) = unat x mod unat b"
    by (simp_all add: unat_div_distrib unat_mod_distrib)
  show ?case
  proof (cases "unat x < unat b")
    case True
    then have "x div b = 0" by (metis d(1) div_less unat_eq_zero)
    then show ?thesis using True d(2) assms by (subst int_loop.simps) (simp add: numstr.simps Let_def)
  next
    case False
    then have "x div b \<noteq> 0" using d(1) assms by (metis div_eq_0_iff not_one_le_zero numeral_le_iff unat_0 le_zero_eq not_numeral_le_zero)
    then show ?thesis using 1 [of "x div b"] False d assms
      by (subst int_loop.simps, subst numstr.simps) (auto simp: Let_def)
  qed
qed

section \<open>Printing and parsing\<close>

lemma printint_digits:
  fixes x :: u32 and sg :: bool
  assumes "10 \<le> unat b"
  defines "x' \<equiv> (if sg \<and> sint x < 0 then - x else x)"
  shows "printint x b sg = Ret ((if sg \<and> sint x < 0 then ''-'' else '''') @ map ((!) udigits) (numstr (unat b) (unat x')))"
    and "length (numstr (unat b) (unat x')) \<le> 10"
proof -
  have "unat x' < 10 ^ Suc 9" using unat_u32 [of x'] by simp
  also have "\<dots> \<le> unat b ^ Suc 9" by (rule power_mono [OF assms(1)]) simp
  finally show l: "length (numstr (unat b) (unat x')) \<le> 10" using numstr_length [of "unat b" "unat x'" 9] assms(1) by simp
  show "printint x b sg = Ret ((if sg \<and> sint x < 0 then ''-'' else '''') @ map ((!) udigits) (numstr (unat b) (unat x')))"
    using l assms(1) by (auto simp: printint_def int_loop_digits x'_def Let_def)
qed

lemma udigits_ord: "d < 10 \<Longrightarrow> ord8 (udigits ! d) = 48 + of_nat d"
  by (auto simp: udigits_def ord8_def less_Suc_eq numeral_eq_Suc)

lemma digit_range:
  assumes "d < (10 :: nat)"
  shows "48 \<le> (48 + of_nat d :: u8)" "(48 + of_nat d :: u8) \<le> 57"
    "ucast (48 + of_nat d :: u8) - 48 = (of_nat d :: u32)" "(48 + of_nat d :: u8) \<notin> {0, 32, 43, 45}"
proof -
  have "d = 0 \<or> d = 1 \<or> d = 2 \<or> d = 3 \<or> d = 4 \<or> d = 5 \<or> d = 6 \<or> d = 7 \<or> d = 8 \<or> d = 9"
    using assms by presburger
  then show "48 \<le> (48 + of_nat d :: u8)" "(48 + of_nat d :: u8) \<le> 57"
    "ucast (48 + of_nat d :: u8) - 48 = (of_nat d :: u32)" "(48 + of_nat d :: u8) \<notin> {0, 32, 43, 45}"
    by auto
qed

lemma digits_cstr:
  "cstr m s (map (\<lambda>d. 48 + of_nat d) ds) \<Longrightarrow> \<forall>d\<in>set ds. d < 10 \<Longrightarrow>
   digits 10 57 m s n = Some (foldl (\<lambda>n d. n * 10 + of_nat d) n ds)"
proof (induction ds arbitrary: s n)
  case Nil
  then show ?case by (subst digits.simps) simp
next
  case (Cons d ds)
  then show ?case using digit_range [of d] by (subst digits.simps) (simp add: algebra_simps)
qed

lemma foldl_of_nat: "foldl (\<lambda>n d. n * 10 + of_nat d) (of_nat k :: u32) ds = of_nat (foldl (\<lambda>n d. n * 10 + d) k ds)"
proof (induction ds arbitrary: k)
  case (Cons d ds)
  have "of_nat k * 10 + of_nat d = (of_nat (k * 10 + d) :: u32)" by simp
  then show ?case using Cons.IH [of "k * 10 + d"] by simp
qed simp

lemma skip_none: "m s \<noteq> 32 \<Longrightarrow> skip_spaces m s = Some s"
  by (subst skip_spaces.simps) simp

lemma numstr_ne: "numstr b n \<noteq> []"
  by (subst numstr.simps) simp

lemma atoi_digits:
  assumes "cstr m p (map (\<lambda>d. 48 + of_nat d) ds)" and "ds \<noteq> []" and "\<forall>d\<in>set ds. d < 10"
  shows "atoi m p = Some (of_nat (valstr 10 ds))"
proof -
  obtain d ds' where "ds = d # ds'" using assms(2) by (cases ds) auto
  then have "m p \<notin> {0, 32, 43, 45}" using assms digit_range(4) [of d] by auto
  then show ?thesis
    using digits_cstr [OF assms(1,3), of 0] foldl_of_nat [of 0 ds] by (simp add: atoi_def skip_none valstr_def)
qed

lemma atoi_minus:
  assumes "cstr m p (45 # map (\<lambda>d. 48 + of_nat d) ds)" and "\<forall>d\<in>set ds. d < 10"
  shows "atoi m p = Some (- of_nat (valstr 10 ds))"
  using assms digits_cstr [of m "p + 1" ds 0] foldl_of_nat [of 0 ds] by (simp add: atoi_def skip_none valstr_def)

text \<open>
  C37: Printing a number and reading it back gives the number: for every 32-bit value, \<open>%d\<close>
  prints at most 11 characters (so \<open>buf\<close> never overflows), and \<open>atoi\<close> on that text, wherever it is
  stored, returns the value.
\<close>

theorem atoi_of_printint:
  "\<exists>s. printint x 10 True = Ret s \<and> length s \<le> 11 \<and>
    (\<forall>m p. cstr m p (map ord8 s) \<longrightarrow> atoi m p = Some x)"
proof -
  let ?x = "if sint x < 0 then - x else x"
  let ?ds = "numstr 10 (unat ?x)"
  have r: "\<forall>d\<in>set ?ds. d < 10" using numstr_digits [of 10] by auto
  then have m: "map (ord8 \<circ> (!) udigits) ?ds = map (\<lambda>d. 48 + of_nat d) ?ds" by (simp add: udigits_ord)
  have v: "of_nat (valstr 10 ?ds) = ?x" by (simp add: valstr_numstr)
  have e: "printint x 10 True = Ret ((if sint x < 0 then ''-'' else '''') @ map ((!) udigits) ?ds)" "length ?ds \<le> 10"
    using printint_digits [where b = 10 and sg = True and x = x] by simp_all
  have "atoi m p = Some x" if "cstr m p (map ord8 ((if sint x < 0 then ''-'' else '''') @ map ((!) udigits) ?ds))" for m p
    using that m r v atoi_digits [of m p ?ds] atoi_minus [of m p ?ds] numstr_ne [of 10 "unat ?x"]
    by (auto simp: ord8_def split: if_splits)
  then show ?thesis using e by (intro exI conjI allI impI) auto
qed

theorem atoi_of_printint_witness:
  "\<exists>s. printint 4294967254 10 True = Ret s \<and> atoi (filled (\<lambda>_. 0) 16 (map ord8 s @ [0])) 16 = Some 4294967254"
proof -
  obtain s where s: "printint 4294967254 10 True = Ret s" "length s \<le> 11"
    "\<And>m p. cstr m p (map ord8 s) \<Longrightarrow> atoi m p = Some 4294967254"
    using atoi_of_printint [of 4294967254] by blast
  have "sint (4294967254 :: u32) < 0" by simp
  then have "s = ''-'' @ map ((!) udigits) (numstr 10 42)"
    using s(1) printint_digits(1) [where b = 10 and sg = True and x = 4294967254] by simp
  then have "0 \<notin> set (map ord8 s)" by (simp add: numstr.simps ord8_def udigits_def)
  then show ?thesis using s cstr_filled [of "map ord8 s" "\<lambda>_. 0" 16 "[]"] by auto
qed

end
