(* ===== verification/Procinfo.thy ===== *)
theory Procinfo
  imports Procapi Printf "HOL-Library.Signed_Division"
begin

text \<open>
  The parts of \<open>src/proc.c\<close> that only look at the process table: the listings behind the console's
  control keys, \<open>copyactiveprocs\<close> (the \<open>getprocs\<close> system call), and the consistency check of the
  \<open>DEBUG\<close> build.
\<close>

section \<open>Listings\<close>

definition kout :: "string \<Rightarrow> parg list \<Rightarrow> string res" where
  "kout fmt ap = cprintf (\<lambda>_. 0) fmt ap"

definition states_tab :: "procstate \<Rightarrow> string" where
  "states_tab st =
     (case st of UNUSED \<Rightarrow> ''unused'' | EMBRYO \<Rightarrow> ''embryo'' | SLEEPING \<Rightarrow> ''sleep ''
      | RUNNABLE \<Rightarrow> ''runble'' | RUNNING \<Rightarrow> ''run   '' | ZOMBIE \<Rightarrow> ''zombie'')"

definition ppid_of :: "'m kst \<Rightarrow> nat \<Rightarrow> u32" where
  "ppid_of s p = (case parent (procs s p) of Some q \<Rightarrow> pid (procs s q) | None \<Rightarrow> pid (procs s p))"

definition two_digits :: "u32 \<Rightarrow> string res" where
  "two_digits n =
     bindr (if sint n < 10 then kout ''0'' [] else Ret []) (\<lambda>z. before z (kout ''%d'' [PWord n]))"

text \<open>
  One line of \<open>procdump\<close>. \<open>end_tick\<close> is signed and divided as such; \<open>cpu_ticks_total\<close> is unsigned.
  The call stack printed for a sleeping process is an argument: it is read from kernel stacks.
\<close>

definition procdump_line :: "(nat \<Rightarrow> u32 list) \<Rightarrow> 'm kst \<Rightarrow> nat \<Rightarrow> string res" where
  "procdump_line stk s p =
     (let pr = procs s p; et = ticks s - start_ticks pr
      in bindr (kout (''%d '' @ [CHR 0x09] @ ''%s '' @ [CHR 0x09] @ ''%d '' @ [CHR 0x09] @ ''%d '' @ [CHR 0x09]
                  @ ''%d '' @ [CHR 0x09] @ ''%d '' @ [CHR 0x09] @ ''%d.'')
               [PWord (pid pr), PStr (name pr), PWord (uid pr), PWord (gid pr), PWord (ppid_of s p),
                PWord (priority pr), PWord (word_of_int (sint et sdiv 100))]) (\<lambda>a.
         bindr (two_digits (word_of_int (sint et smod 100))) (\<lambda>b.
         bindr (kout ([CHR 0x09] @ ''%d.'') [PWord (cpu_ticks_total pr div 100)]) (\<lambda>c.
         bindr (two_digits (cpu_ticks_total pr mod 100)) (\<lambda>d.
         bindr (kout ([CHR 0x09] @ ''%s '' @ [CHR 0x09] @ ''%d'') [PStr (states_tab (state pr)), PWord (sz pr)]) (\<lambda>e.
         bindr (if state pr = SLEEPING
                then foldr (\<lambda>pc r. bindr (kout '' %p'' [PWord pc]) (\<lambda>x. before x r))
                       (takeWhile (\<lambda>pc. pc \<noteq> 0) (take 10 (stk p))) (Ret [])
                else Ret []) (\<lambda>f.
         Ret (a @ b @ c @ d @ e @ f @ [CHR 0x0A]))))))))"

definition procdump :: "(nat \<Rightarrow> u32 list) \<Rightarrow> 'm kst \<Rightarrow> string res" where
  "procdump stk s =
     bindr (kout ([CHR 0x0A] @ ''PID '' @ [CHR 0x09] @ ''NAME '' @ [CHR 0x09] @ ''UID '' @ [CHR 0x09] @ ''GID ''
        @ [CHR 0x09] @ ''PPID '' @ [CHR 0x09] @ ''PRIO '' @ [CHR 0x09] @ ''ELAPSED CPU '' @ [CHR 0x09] @ ''STATE ''
        @ [CHR 0x09] @ ''SIZE '' @ [CHR 0x09] @ ''PCs'' @ [CHR 0x0A]) []) (\<lambda>h.
     before h (foldr (\<lambda>p r. if state (procs s p) = UNUSED then r
                             else bindr (procdump_line stk s p) (\<lambda>l. before l r))
       [0..<NPROC] (kout [CHR 0x0A] [])))"

partial_function (option) count_from :: "('p \<Rightarrow> 'p option) \<Rightarrow> 'p option \<Rightarrow> u32 \<Rightarrow> u32 option" where
  "count_from nx cur n = (case cur of None \<Rightarrow> Some n | Some p \<Rightarrow> count_from nx (nx p) (n + 1))"

definition cfreelist :: "nat \<Rightarrow> 'm kst \<Rightarrow> (string \<times> 'm kst) res" where
  "cfreelist c s0 =
     bindr (kacquire c LkPtable s0) (\<lambda>s.
     bindr (of_loop (count_from (nextof s) (free_l s) 0)) (\<lambda>n.
     bindr (kout (''FREE LIST SIZE: %d processes.'' @ [CHR 0x0A]) [PWord n]) (\<lambda>out.
     bindr (krelease c LkPtable s) (\<lambda>s. Ret (out, s)))))"

text \<open>
  The loop of \<open>displayreadylists\<close>, entered at a node with a successor: \<open>mid\<close> prints a node that has
  one, \<open>fin\<close> the last node.
\<close>

partial_function (option) show_from ::
    "('p \<Rightarrow> 'p option) \<Rightarrow> ('p \<Rightarrow> string res) \<Rightarrow> ('p \<Rightarrow> string res) \<Rightarrow> 'p \<Rightarrow> string res option" where
  "show_from nx mid fin cur =
     (case nx cur of
        None \<Rightarrow> Some (Ret [])
      | Some q \<Rightarrow>
          (case nx q of
             None \<Rightarrow> Some (bindr (mid cur) (\<lambda>a. before a (fin q)))
           | Some _ \<Rightarrow> Option.bind (show_from nx mid fin q) (\<lambda>r. Some (bindr (mid cur) (\<lambda>a. before a r)))))"

definition show_list ::
    "('p \<Rightarrow> 'p option) \<Rightarrow> ('p \<Rightarrow> string res) \<Rightarrow> ('p \<Rightarrow> string res) \<Rightarrow> ('p \<Rightarrow> string res) \<Rightarrow> 'p \<Rightarrow> string res" where
  "show_list nx one mid fin p =
     (if nx p = None then one p else bindr (of_loop (show_from nx mid fin p)) (\<lambda>r. r))"

definition displayreadylists :: "'m kst \<Rightarrow> nat \<Rightarrow> string res" where
  "displayreadylists s i =
     bindr (kout ''%d: '' [PWord (of_nat i)]) (\<lambda>h.
     before h (case ready s i of
        None \<Rightarrow> kout (''READY LIST EMPTY'' @ [CHR 0x0A]) []
      | Some p \<Rightarrow>
          (let node = (\<lambda>tl q. kout (''<%d, %d>'' @ tl) [PWord (pid (procs s q)), PWord (budget (procs s q))])
           in show_list (nextof s) (node [CHR 0x0A]) (node '' -> '') (node ('' '' @ [CHR 0x0A])) p)))"

definition creadylist :: "nat \<Rightarrow> 'm kst \<Rightarrow> (string \<times> 'm kst) res" where
  "creadylist c s0 =
     bindr (kacquire c LkPtable s0) (\<lambda>s.
     bindr (kout (''READY LIST PROCESSES: '' @ [CHR 0x0A]) []) (\<lambda>h.
     bindr (foldr (\<lambda>i r. bindr (displayreadylists s i) (\<lambda>l. before l r)) [0..<MAXPRIO + 1] (Ret [])) (\<lambda>out.
     bindr (krelease c LkPtable s) (\<lambda>s. Ret (h @ out, s)))))"

text \<open>
  \<open>while(current -> next)\<close> of \<open>csleeplist\<close>, with the text printed so far. The lock is released where
  the code does it: at the last node, and after the loop.
\<close>

partial_function (option) csleep_loop :: "nat \<Rightarrow> nat \<Rightarrow> string \<Rightarrow> 'm kst \<Rightarrow> (string \<times> 'm kst) res option" where
  "csleep_loop c cur out s =
     (case nextof s cur of
        None \<Rightarrow> Some (bindr (krelease c LkPtable s) (\<lambda>s. Ret (out, s)))
      | Some q \<Rightarrow>
          (case kout ''%d -> '' [PWord (pid (procs s cur))] of
             Ret a \<Rightarrow>
               (case nextof s q of
                  None \<Rightarrow>
                    Some (bindr (kout (''%d '' @ [CHR 0x0A]) [PWord (pid (procs s q))]) (\<lambda>b.
                          bindr (krelease c LkPtable s) (\<lambda>s. Ret (out @ a @ b, s))))
                | Some _ \<Rightarrow> csleep_loop c q (out @ a) s)
           | Panic e \<Rightarrow> Some (Panic e)
           | Fault \<Rightarrow> Some Fault
           | Hang \<Rightarrow> Some Hang))"

definition csleeplist :: "nat \<Rightarrow> 'm kst \<Rightarrow> (string \<times> 'm kst) res" where
  "csleeplist c s0 =
     bindr (kacquire c LkPtable s0) (\<lambda>s.
     case sleep_l s of
       None \<Rightarrow>
         bindr (kout (''SLEEP LIST EMPTY'' @ [CHR 0x0A]) []) (\<lambda>out.
         bindr (krelease c LkPtable s) (\<lambda>s. Ret (out, s)))
     | Some cur \<Rightarrow>
         bindr (kout ''SLEEP LIST PROCESSES: '' []) (\<lambda>out.
         if nextof s cur = None
         then bindr (kout (''%d,'' @ [CHR 0x0A]) [PWord (pid (procs s cur))]) (\<lambda>b.
              bindr (krelease c LkPtable s) (\<lambda>s. Ret (out @ b, s)))
         else bindr (of_loop (csleep_loop c cur out s)) (\<lambda>r. r)))"

text \<open>A zombie's line; \<open>current->parent->pid\<close> faults for a zombie without parent.\<close>

definition zombie_out :: "string \<Rightarrow> 'm kst \<Rightarrow> nat \<Rightarrow> string res" where
  "zombie_out e s q =
     bindr (deref (parent (procs s q))) (\<lambda>r.
     kout (''%d, PPID: %d'' @ e) [PWord (pid (procs s q)), PWord (pid (procs s r))])"

partial_function (option) czombie_loop :: "nat \<Rightarrow> nat \<Rightarrow> string \<Rightarrow> 'm kst \<Rightarrow> (string \<times> 'm kst) res option" where
  "czombie_loop c cur out s =
     (case nextof s cur of
        None \<Rightarrow> Some (bindr (krelease c LkPtable s) (\<lambda>s. Ret (out, s)))
      | Some q \<Rightarrow>
          (case zombie_out ''  -> '' s cur of
             Ret a \<Rightarrow>
               (case nextof s q of
                  None \<Rightarrow>
                    Some (bindr (zombie_out [CHR 0x0A] s q) (\<lambda>b.
                          bindr (krelease c LkPtable s) (\<lambda>s. Ret (out @ a @ b, s))))
                | Some _ \<Rightarrow> czombie_loop c q (out @ a) s)
           | Panic e \<Rightarrow> Some (Panic e)
           | Fault \<Rightarrow> Some Fault
           | Hang \<Rightarrow> Some Hang))"

definition czombielist :: "nat \<Rightarrow> 'm kst \<Rightarrow> (string \<times> 'm kst) res" where
  "czombielist c s0 =
     bindr (kacquire c LkPtable s0) (\<lambda>s.
     case zombie_l s of
       None \<Rightarrow>
         bindr (kout (''ZOMBIE LIST EMPTY'' @ [CHR 0x0A]) []) (\<lambda>out.
         bindr (krelease c LkPtable s) (\<lambda>s. Ret (out, s)))
     | Some cur \<Rightarrow>
         bindr (kout ''ZOMBIE LIST PROCESSES: '' []) (\<lambda>out.
         if nextof s cur = None
         then bindr (zombie_out [CHR 0x0A] s cur) (\<lambda>b.
              bindr (krelease c LkPtable s) (\<lambda>s. Ret (out @ b, s)))
         else bindr (of_loop (czombie_loop c cur out s)) (\<lambda>r. r)))"

section \<open>getprocs\<close>

text \<open>\<open>struct uproc\<close> (\<open>src/uproc.h\<close>); the two strings are arrays of \<open>STRMAX\<close> characters.\<close>

record uproc =
  u_pid :: u32
  u_uid :: u32
  u_gid :: u32
  u_ppid :: u32
  u_elapsed :: u32
  u_total :: u32
  u_state :: string
  u_size :: u32
  u_name :: string
  u_priority :: u32

text \<open>\<open>strncpy\<close> into an array: at most \<open>n\<close> characters, padded with nulls up to \<open>n\<close>.\<close>

definition strncpy_arr :: "string \<Rightarrow> string \<Rightarrow> nat \<Rightarrow> string" where
  "strncpy_arr dst src n = take n src @ replicate (n - length src) (CHR 0x00) @ drop n dst"

definition uproc_of :: "'m kst \<Rightarrow> nat \<Rightarrow> uproc \<Rightarrow> uproc" where
  "uproc_of s p u =
     (let pr = procs s p
      in u\<lparr>u_pid := pid pr, u_uid := uid pr, u_gid := gid pr, u_ppid := ppid_of s p,
           u_priority := priority pr, u_size := sz pr, u_elapsed := ticks s - start_ticks pr,
           u_total := cpu_ticks_total pr, u_name := strncpy_arr (u_name u) (name pr) 17,
           u_state := strncpy_arr (u_state u) (states_tab (state pr)) 5\<rparr>)"

fun copy_procs :: "'m kst \<Rightarrow> u32 \<Rightarrow> nat list \<Rightarrow> nat \<Rightarrow> uproc list \<Rightarrow> (nat \<times> uproc list) res" where
  "copy_procs s mx [] n ut = Ret (n, ut)"
| "copy_procs s mx (p # ps) n ut =
     (if \<not> of_nat n < mx then Ret (n, ut)
      else if state (procs s p) = UNUSED \<or> state (procs s p) = EMBRYO then copy_procs s mx ps n ut
      else if n \<ge> length ut then Fault
      else copy_procs s mx ps (n + 1) (ut[n := uproc_of s p (ut ! n)]))"

definition copyactiveprocs :: "nat \<Rightarrow> u32 \<Rightarrow> uproc list \<Rightarrow> 'm kst \<Rightarrow> (nat \<times> uproc list \<times> 'm kst) res" where
  "copyactiveprocs c mx ut s0 =
     bindr (kacquire c LkPtable s0) (\<lambda>s.
     bindr (copy_procs s mx [0..<NPROC] 0 ut) (\<lambda>(n, ut).
     bindr (krelease c LkPtable s) (\<lambda>s. Ret (n, ut, s))))"

section \<open>The DEBUG check\<close>

definition on_list :: "'m kst \<Rightarrow> lref \<Rightarrow> nat \<Rightarrow> bool res" where
  "on_list s l p = bindr (of_loop (find_from (\<lambda>q. q = p) (nextof s) (getl s l))) (\<lambda>r. Ret (r \<noteq> None))"

definition findProc :: "nat \<Rightarrow> 'm kst \<Rightarrow> bool res" where
  "findProc p s =
     foldr (\<lambda>l r. bindr (on_list s l p) (\<lambda>b. if b then Ret True else r))
       [LFree, LEmbryo, LRunning, LSleep, LZombie, LReady 0] (Ret False)"

fun checkProcs_loop :: "nat list \<Rightarrow> 'm kst \<Rightarrow> unit res" where
  "checkProcs_loop [] s = Ret ()"
| "checkProcs_loop (p # ps) s =
     bindr (findProc p s) (\<lambda>found.
     if found then checkProcs_loop ps s
     else Panic (''Process array and lists inconsistent'' @ [CHR 0x0A]))"

definition checkProcs :: "nat \<Rightarrow> 'm kst \<Rightarrow> 'm kst res" where
  "checkProcs c s0 =
     (let h = holding (locks s0 LkPtable) c
      in bindr (if h then Ret s0 else kacquire c LkPtable s0) (\<lambda>s.
         bindr (checkProcs_loop [0..<NPROC] s) (\<lambda>_.
         if h then Ret s else krelease c LkPtable s)))"

section \<open>getprocs is right\<close>

definition active :: "'m kst \<Rightarrow> nat \<Rightarrow> bool" where
  "active s p \<longleftrightarrow> state (procs s p) \<noteq> UNUSED \<and> state (procs s p) \<noteq> EMBRYO"

lemma active_taken [kst_simps]: "active (lk_taken c l s) = active s"
  by (simp add: active_def fun_eq_iff kst_simps)

lemma copy_procs_spec:
  assumes "length ut \<ge> unat mx" and "n \<le> unat mx"
  shows "\<exists>ut'. copy_procs s mx ps n ut = Ret (n + length (take (unat mx - n) (filter (active s) ps)), ut')
    \<and> length ut' = length ut
    \<and> (\<forall>i<length ut. ut' ! i = (if n \<le> i \<and> i < n + length (take (unat mx - n) (filter (active s) ps))
         then uproc_of s (filter (active s) ps ! (i - n)) (ut ! i) else ut ! i))"
  using assms
proof (induction ps arbitrary: n ut)
  case Nil
  then show ?case by auto
next
  case (Cons p ps)
  have n: "of_nat n < mx \<longleftrightarrow> n < unat mx"
    using Cons.prems(2) unat_u32 [of mx] by (simp add: word_less_nat_alt unat_of_nat)
  consider "n = unat mx" | "n < unat mx" "\<not> active s p" | "n < unat mx" "active s p" using Cons.prems(2) by linarith
  then show ?case
  proof cases
    case 3
    let ?ut = "ut[n := uproc_of s p (ut ! n)]"
    have l: "n < length ut" using 3(1) Cons.prems(1) by simp
    obtain ut' where e: "copy_procs s mx ps (n + 1) ?ut = Ret (n + 1 + length (take (unat mx - (n + 1)) (filter (active s) ps)), ut')"
      and l': "length ut' = length ut" and
      at: "\<forall>i<length ut. ut' ! i = (if n + 1 \<le> i \<and> i < n + 1 + length (take (unat mx - (n + 1)) (filter (active s) ps))
         then uproc_of s (filter (active s) ps ! (i - (n + 1))) (?ut ! i) else ?ut ! i)"
      using Cons.IH [of ?ut "n + 1"] Cons.prems 3(1) by auto
    have len: "n + length (take (unat mx - n) (filter (active s) (p # ps))) = n + 1 + length (take (unat mx - (n + 1)) (filter (active s) ps))"
      using 3 by (cases "unat mx - n") auto
    have "copy_procs s mx (p # ps) n ut = copy_procs s mx ps (n + 1) ?ut"
      using 3 n l by (simp add: active_def)
    moreover have "ut' ! i = (if n \<le> i \<and> i < n + length (take (unat mx - n) (filter (active s) (p # ps)))
         then uproc_of s (filter (active s) (p # ps) ! (i - n)) (ut ! i) else ut ! i)" if "i < length ut" for i
    proof (cases "i = n")
      case True
      then show ?thesis using at l 3 by (simp add: len del: length_take)
    next
      case False
      then have "n \<le> i \<Longrightarrow> i - n = Suc (i - (n + 1))" by simp
      then show ?thesis using at [rule_format, OF that] False 3 that unfolding len by auto
    qed
    ultimately show ?thesis using e l' len by (metis length_list_update)
  next
    case 1
    then show ?thesis using n by (intro exI [of _ ut]) auto
  next
    case 2
    then have "copy_procs s mx (p # ps) n ut = copy_procs s mx ps n ut" "filter (active s) (p # ps) = filter (active s) ps"
      using n by (auto simp: active_def)
    then show ?thesis using Cons.IH [OF Cons.prems] by (simp only:)
  qed
qed

text \<open>
  C38: \<open>copyactiveprocs\<close> reports the active processes: it writes one entry, in table order, for each
  process that is neither free nor an embryo, up to the \<open>max\<close> given, returns their number, and
  leaves the other entries and the processes alone. The table given must have room for \<open>max\<close>
  entries.
\<close>

theorem copyactiveprocs_reports:
  assumes "may_enter c s" and "unat mx \<le> length ut"
  shows "\<exists>ut' s'. copyactiveprocs c mx ut s =
      Ret (length (take (unat mx) (filter (active s) [0..<NPROC])), ut', s')
    \<and> procs s' = procs s \<and> length ut' = length ut
    \<and> (\<forall>i<length ut. ut' ! i =
        (if i < length (take (unat mx) (filter (active s) [0..<NPROC]))
         then uproc_of (lk_taken c LkPtable s) (filter (active s) [0..<NPROC] ! i) (ut ! i)
         else ut ! i))"
proof -
  let ?t = "lk_taken c LkPtable s"
  obtain ut' where "copy_procs ?t mx [0..<NPROC] 0 ut =
      Ret (length (take (unat mx) (filter (active s) [0..<NPROC])), ut')"
    "length ut' = length ut"
    "\<forall>i<length ut. ut' ! i =
        (if i < length (take (unat mx) (filter (active s) [0..<NPROC]))
         then uproc_of ?t (filter (active s) [0..<NPROC] ! i) (ut ! i) else ut ! i)"
    using copy_procs_spec [of mx ut 0 ?t "[0..<NPROC]"] assms(2) by (auto simp: kst_simps simp del: length_take)
  then show ?thesis using assms(1) krelease_in [OF in_ptable_taken [OF assms(1)]]
    by (intro exI [of _ ut'] exI [of _ "lk_released c LkPtable ?t"])
      (simp add: copyactiveprocs_def kacquire_enter kst_simps del: length_take)
qed

definition uproc0 :: uproc where
  "uproc0 = \<lparr>u_pid = 0, u_uid = 0, u_gid = 0, u_ppid = 0, u_elapsed = 0, u_total = 0,
     u_state = replicate 32 (CHR 0x00), u_size = 0, u_name = replicate 32 (CHR 0x00), u_priority = 0\<rparr>"

theorem copyactiveprocs_reports_witness:
  "\<exists>ut' s'. copyactiveprocs 0 2 [uproc0, uproc0, uproc0] demo = Ret (2, ut', s')
     \<and> u_pid (ut' ! 0) = 1 \<and> u_pid (ut' ! 1) = 2 \<and> ut' ! 2 = uproc0"
proof -
  have f: "filter (active demo) [0..<NPROC] = [0, 1, 2, 3]"
  proof -
    have "[0..<NPROC] = [0, 1, 2, 3] @ [4..<NPROC]" by (simp add: NPROC_def upt_conv_Cons)
    moreover have "filter (active demo) [4..<NPROC] = []" by (auto simp: filter_empty_conv active_def dproc_simps)
    ultimately show ?thesis by (simp add: active_def dproc_simps)
  qed
  from copyactiveprocs_reports [OF demo_enter, of 2 "[uproc0, uproc0, uproc0]"] show ?thesis
    by (auto simp: f uproc_of_def kst_simps dproc_simps less_Suc_eq all_conj_distrib Let_def) (auto simp: numeral_2_eq_2)
qed

section \<open>What the listings print\<close>

text \<open>A number in decimal, as \<open>%d\<close> prints it.\<close>

definition dec :: "u32 \<Rightarrow> string" where
  "dec x = (if sint x < 0 then ''-'' else []) @ map ((!) kdigits) (numstr 10 (nat \<bar>sint x\<bar>))"

lemma abs_sint: "unat (if sint x < 0 then - x else x) = nat \<bar>sint x\<bar>" for x :: u32
proof (cases "sint x < 0")
  case True
  have "uint (- x) = uint (word_of_int (- sint x) :: u32)" by simp
  also have "\<dots> = - sint x mod 2 ^ 32" by (simp only: uint_word_of_int) simp
  finally have "uint (- x) = - sint x mod 2 ^ 32" .
  moreover have "- sint x \<le> 2 ^ 31" using sint_ge [of x] by simp
  ultimately have "uint (- x) = - sint x" using True by simp
  then show ?thesis using True by (simp add: unat_eq_nat_uint)
next
  case False
  have "uint x = uint (word_of_int (sint x) :: u32)" by simp
  also have "\<dots> = sint x mod 2 ^ 32" by (simp only: uint_word_of_int) simp
  finally have "uint x = sint x" using False sint_lt [of x] by simp
  then show ?thesis using False by (simp add: unat_eq_nat_uint)
qed

lemma kprintint_dec: "kprintint x 10 True = Ret (dec x)"
proof -
  let ?y = "if sint x < 0 then - x else x"
  have "length (numstr 10 (unat ?y)) \<le> 10" using numstr_length [of 10 "unat ?y" 9] unat_u32 [of ?y] by simp
  then show ?thesis by (auto simp: kprintint_def int_loop_digits Let_def dec_def simp flip: abs_sint)
qed

lemma before_ret [simp]: "before a (Ret b) = Ret (a @ b)"
  by (simp add: before_def)

text \<open>The nodes of a list of at least two, in order.\<close>

definition joined :: "('p \<Rightarrow> string) \<Rightarrow> ('p \<Rightarrow> string) \<Rightarrow> 'p list \<Rightarrow> string" where
  "joined mid fin ps = concat (map mid (butlast ps)) @ fin (last ps)"

definition list_text :: "string \<Rightarrow> ('p \<Rightarrow> string) \<Rightarrow> ('p \<Rightarrow> string) \<Rightarrow> ('p \<Rightarrow> string) \<Rightarrow> 'p list \<Rightarrow> string" where
  "list_text emp one mid fin ps =
     (case ps of [] \<Rightarrow> emp | [p] \<Rightarrow> one p | _ \<Rightarrow> joined mid fin ps)"

lemma joined_Cons: "joined mid fin (p # q # ps) = mid p @ joined mid fin (q # ps)"
  by (simp add: joined_def)

lemma joined_two: "joined mid fin [p, q] = mid p @ fin q"
  by (simp add: joined_def)

definition ready_node :: "'m kst \<Rightarrow> nat \<Rightarrow> string" where
  "ready_node s p = ''<'' @ dec (pid (procs s p)) @ '', '' @ dec (budget (procs s p)) @ ''>''"

definition ready_text :: "'m kst \<Rightarrow> nat \<Rightarrow> nat list \<Rightarrow> string" where
  "ready_text s i ps =
     dec (of_nat i) @ '': '' @
     list_text (''READY LIST EMPTY'' @ [CHR 0x0A]) (\<lambda>p. ready_node s p @ [CHR 0x0A]) (\<lambda>p. ready_node s p @ '' -> '')
       (\<lambda>p. ready_node s p @ '' '' @ [CHR 0x0A]) ps"

definition sleep_text :: "'m kst \<Rightarrow> nat list \<Rightarrow> string" where
  "sleep_text s ps =
     (if ps = [] then ''SLEEP LIST EMPTY'' @ [CHR 0x0A]
      else ''SLEEP LIST PROCESSES: '' @
        list_text [] (\<lambda>p. dec (pid (procs s p)) @ '','' @ [CHR 0x0A]) (\<lambda>p. dec (pid (procs s p)) @ '' -> '')
          (\<lambda>p. dec (pid (procs s p)) @ '' '' @ [CHR 0x0A]) ps)"

definition zombie_node :: "'m kst \<Rightarrow> nat \<Rightarrow> string" where
  "zombie_node s p = dec (pid (procs s p)) @ '', PPID: '' @ dec (pid (procs s (the (parent (procs s p)))))"

definition zombie_text :: "'m kst \<Rightarrow> nat list \<Rightarrow> string" where
  "zombie_text s ps =
     (if ps = [] then ''ZOMBIE LIST EMPTY'' @ [CHR 0x0A]
      else ''ZOMBIE LIST PROCESSES: '' @
        list_text [] (\<lambda>p. zombie_node s p @ [CHR 0x0A]) (\<lambda>p. zombie_node s p @ ''  -> '') (\<lambda>p. zombie_node s p @ [CHR 0x0A]) ps)"

text \<open>The formats.\<close>

lemma kout_formats:
  "kout ''%d -> '' [PWord x] = Ret (dec x @ '' -> '')" "kout (''%d '' @ [CHR 0x0A]) [PWord x] = Ret (dec x @ '' '' @ [CHR 0x0A])"
  "kout (''%d,'' @ [CHR 0x0A]) [PWord x] = Ret (dec x @ '','' @ [CHR 0x0A])" "kout ''%d: '' [PWord x] = Ret (dec x @ '': '')"
  "kout (''%d, PPID: %d'' @ [CHR 0x0A]) [PWord x, PWord y] = Ret (dec x @ '', PPID: '' @ dec y @ [CHR 0x0A])"
  "kout (''%d, PPID: %d'' @ ''  -> '') [PWord x, PWord y] = Ret (dec x @ '', PPID: '' @ dec y @ ''  -> '')"
  "kout (''<%d, %d>'' @ [CHR 0x0A]) [PWord x, PWord y] = Ret (''<'' @ dec x @ '', '' @ dec y @ ''>'' @ [CHR 0x0A])"
  "kout (''<%d, %d>'' @ '' -> '') [PWord x, PWord y] = Ret (''<'' @ dec x @ '', '' @ dec y @ ''>'' @ '' -> '')"
  "kout (''<%d, %d>'' @ ('' '' @ [CHR 0x0A])) [PWord x, PWord y] = Ret (''<'' @ dec x @ '', '' @ dec y @ ''>'' @ '' '' @ [CHR 0x0A])"
  by (simp_all add: kout_def kprintint_dec)

lemma kout_texts:
  "kout (''READY LIST EMPTY'' @ [CHR 0x0A]) [] = Ret (''READY LIST EMPTY'' @ [CHR 0x0A])"
  "kout (''READY LIST PROCESSES: '' @ [CHR 0x0A]) [] = Ret (''READY LIST PROCESSES: '' @ [CHR 0x0A])"
  "kout (''SLEEP LIST EMPTY'' @ [CHR 0x0A]) [] = Ret (''SLEEP LIST EMPTY'' @ [CHR 0x0A])"
  "kout ''SLEEP LIST PROCESSES: '' [] = Ret ''SLEEP LIST PROCESSES: ''"
  "kout (''ZOMBIE LIST EMPTY'' @ [CHR 0x0A]) [] = Ret (''ZOMBIE LIST EMPTY'' @ [CHR 0x0A])"
  "kout ''ZOMBIE LIST PROCESSES: '' [] = Ret ''ZOMBIE LIST PROCESSES: ''"
  "kout (''FREE LIST SIZE: %d processes.'' @ [CHR 0x0A]) [PWord x] = Ret (''FREE LIST SIZE: '' @ dec x @ '' processes.'' @ [CHR 0x0A])"
  by (simp_all add: kout_def kprintint_dec)

text \<open>The loops print the nodes in order and release the lock once.\<close>

lemma show_from_chain:
  assumes "chain nx (Some p) (p # q # xs)" and "\<And>r. mid r = Ret (m r)" and "\<And>r. fin r = Ret (f r)"
  shows "show_from nx mid fin p = Some (Ret (joined m f (p # q # xs)))"
  using assms(1)
proof (induction xs arbitrary: p q)
  case Nil
  then have "nx p = Some q" "nx q = None" by auto
  then show ?case by (subst show_from.simps) (simp add: assms joined_two)
next
  case (Cons r xs)
  then have n: "nx p = Some q" "nx q = Some r" by auto
  have "show_from nx mid fin q = Some (Ret (joined m f (q # r # xs)))" using Cons.IH [of q r] Cons.prems by auto
  then show ?case using n by (subst show_from.simps) (simp add: assms joined_Cons)
qed

lemma csleep_loop_chain:
  assumes "chain (nextof s) (Some p) (p # q # xs)" and "in_ptable c s"
  shows "csleep_loop c p out s = Some (Ret (out @ joined (\<lambda>r. dec (pid (procs s r)) @ '' -> '')
           (\<lambda>r. dec (pid (procs s r)) @ '' '' @ [CHR 0x0A]) (p # q # xs), lk_released c LkPtable s))"
  using assms(1)
proof (induction xs arbitrary: p q out)
  case Nil
  then have "nextof s p = Some q" "nextof s q = None" by auto
  then show ?case
    by (subst csleep_loop.simps) (simp only: kout_formats krelease_in [OF assms(2)] joined_two option.case res.case bindr.simps append_assoc)
next
  case (Cons r xs)
  then have n: "nextof s p = Some q" "nextof s q = Some r" by auto
  have ch: "chain (nextof s) (Some q) (q # r # xs)" using Cons.prems n by auto
  show ?case
    by (subst csleep_loop.simps) (simp only: n kout_formats option.case res.case Cons.IH [OF ch] joined_Cons append_assoc)
qed

lemma zombie_out_ret:
  assumes "parent (procs s q) \<noteq> None"
  shows "zombie_out ''  -> '' s q = Ret (zombie_node s q @ ''  -> '')" "zombie_out [CHR 0x0A] s q = Ret (zombie_node s q @ [CHR 0x0A])"
  using assms by (auto simp: zombie_out_def zombie_node_def kout_formats simp del: append.simps)

lemma czombie_loop_chain:
  assumes "chain (nextof s) (Some p) (p # q # xs)" and "in_ptable c s" and "\<forall>r\<in>set (p # q # xs). parent (procs s r) \<noteq> None"
  shows "czombie_loop c p out s = Some (Ret (out @ joined (\<lambda>r. zombie_node s r @ ''  -> '')
           (\<lambda>r. zombie_node s r @ [CHR 0x0A]) (p # q # xs), lk_released c LkPtable s))"
  using assms(1,3)
proof (induction xs arbitrary: p q out)
  case Nil
  then have "nextof s p = Some q" "nextof s q = None" "parent (procs s p) \<noteq> None" "parent (procs s q) \<noteq> None" by auto
  then show ?case
    by (subst czombie_loop.simps) (simp only: zombie_out_ret krelease_in [OF assms(2)] joined_two option.case res.case bindr.simps append_assoc simp_thms)
next
  case (Cons r xs)
  then have n: "nextof s p = Some q" "nextof s q = Some r" "parent (procs s p) \<noteq> None" by auto
  have ch: "chain (nextof s) (Some q) (q # r # xs)" "\<forall>x\<in>set (q # r # xs). parent (procs s x) \<noteq> None"
    using Cons.prems n by auto
  show ?case
    by (subst czombie_loop.simps) (simp only: n zombie_out_ret option.case res.case Cons.IH [OF ch] joined_Cons append_assoc simp_thms)
qed

lemma count_chain: "chain nx h xs \<Longrightarrow> count_from nx h n = Some (n + of_nat (length xs))"
proof (induction xs arbitrary: h n)
  case Nil
  then show ?case by (subst count_from.simps) simp
next
  case (Cons x xs)
  then show ?case by (subst count_from.simps) (simp add: add.assoc)
qed

lemma chain_cases:
  assumes "chain nx h xs"
  obtains "h = None" "xs = []" | p where "h = Some p" "xs = [p]" "nx p = None"
    | p q ys where "h = Some p" "xs = p # q # ys" "nx p = Some q"
  using assms by (cases xs rule: remdups_adj.cases) auto

lemma display_text:
  assumes "plrep {} s L" and "i \<le> MAXPRIO"
  shows "displayreadylists s i = Ret (ready_text s i (L (LReady i)))"
proof -
  have ch: "chain (nextof s) (ready s i) (L (LReady i))" using plrep_chain [OF assms(1), of "LReady i"] assms(2) by simp
  let ?mid = "\<lambda>q. kout (''<%d, %d>'' @ '' -> '') [PWord (pid (procs s q)), PWord (budget (procs s q))]"
  let ?fin = "\<lambda>q. kout (''<%d, %d>'' @ ('' '' @ [CHR 0x0A])) [PWord (pid (procs s q)), PWord (budget (procs s q))]"
  have m: "?mid r = Ret (ready_node s r @ '' -> '')" "?fin r = Ret (ready_node s r @ '' '' @ [CHR 0x0A])" for r
    unfolding kout_formats ready_node_def append_assoc by (rule refl)+
  show ?thesis
  proof (rule chain_cases [OF ch])
    assume "ready s i = None" "L (LReady i) = []"
    then show ?thesis by (simp only: displayreadylists_def kout_formats kout_texts ready_text_def list_text_def bindr.simps before_ret option.case list.case append_assoc)
  next
    fix p assume "ready s i = Some p" "L (LReady i) = [p]" "nextof s p = None"
    then show ?thesis
      by (simp only: displayreadylists_def show_list_def kout_formats ready_node_def ready_text_def list_text_def Let_def if_True simp_thms bindr.simps before_ret option.case list.case append_assoc)
  next
    fix p q ys assume p: "ready s i = Some p" "L (LReady i) = p # q # ys" "nextof s p = Some q"
    have "show_from (nextof s) ?mid ?fin p = Some (Ret (joined (\<lambda>r. ready_node s r @ '' -> '') (\<lambda>r. ready_node s r @ '' '' @ [CHR 0x0A]) (p # q # ys)))"
      using show_from_chain [of "nextof s" p q ys ?mid "\<lambda>r. ready_node s r @ '' -> ''" ?fin "\<lambda>r. ready_node s r @ '' '' @ [CHR 0x0A]"] ch p m by simp
    then show ?thesis using p
      by (simp only: displayreadylists_def show_list_def kout_formats(4) ready_text_def list_text_def Let_def of_loop.simps bindr.simps before_ret option.case list.case append_assoc option.distinct if_False)
  qed
qed

lemma foldr_before: "(\<And>i. i \<in> set is \<Longrightarrow> f i = Ret (g i)) \<Longrightarrow> foldr (\<lambda>i r. bindr (f i) (\<lambda>l. before l r)) is (Ret []) = Ret (concat (map g is))"
  by (induction "is") auto

lemma text_taken [simp]:
  "ready_text (lk_taken c l s) = ready_text s" "sleep_text (lk_taken c l s) = sleep_text s" "zombie_text (lk_taken c l s) = zombie_text s"
  by (simp_all add: fun_eq_iff ready_text_def ready_node_def sleep_text_def zombie_text_def zombie_node_def kst_simps)

lemma csleeplist_text:
  assumes "plrep {} s L" and "may_enter c s"
  shows "csleeplist c s = Ret (sleep_text s (L LSleep), lk_released c LkPtable (lk_taken c LkPtable s))"
proof -
  let ?t = "lk_taken c LkPtable s"
  note rel = kacquire_enter [OF assms(2)] krelease_in [OF in_ptable_taken [OF assms(2)]]
  have ch: "chain (nextof ?t) (sleep_l ?t) (L LSleep)" using plrep_chain [of "{}" ?t L LSleep] assms(1) by (simp add: kst_simps)
  have "csleeplist c s = Ret (sleep_text ?t (L LSleep), lk_released c LkPtable ?t)"
  proof (rule chain_cases [OF ch])
    assume "sleep_l ?t = None" "L LSleep = []"
    then show ?thesis by (simp only: csleeplist_def rel kout_texts sleep_text_def bindr.simps option.case if_True simp_thms)
  next
    fix p assume "sleep_l ?t = Some p" "L LSleep = [p]" "nextof ?t p = None"
    then show ?thesis
      by (simp only: csleeplist_def rel kout_texts kout_formats sleep_text_def list_text_def bindr.simps option.case list.case list.distinct if_True if_False simp_thms append_assoc)
  next
    fix p q ys assume p: "sleep_l ?t = Some p" "L LSleep = p # q # ys" "nextof ?t p = Some q"
    have "chain (nextof ?t) (Some p) (p # q # ys)" using ch p by simp
    from csleep_loop_chain [OF this in_ptable_taken [OF assms(2)]] p show ?thesis
      by (simp only: csleeplist_def rel kout_texts sleep_text_def list_text_def of_loop.simps bindr.simps option.case option.distinct list.case list.distinct if_False)
  qed
  then show ?thesis by simp
qed

lemma czombielist_text:
  assumes "plrep {} s L" and "may_enter c s" and "\<forall>p<NPROC. state (procs s p) = ZOMBIE \<longrightarrow> parent (procs s p) \<noteq> None"
  shows "czombielist c s = Ret (zombie_text s (L LZombie), lk_released c LkPtable (lk_taken c LkPtable s))"
proof -
  let ?t = "lk_taken c LkPtable s"
  note rel = kacquire_enter [OF assms(2)] krelease_in [OF in_ptable_taken [OF assms(2)]]
  have ch: "chain (nextof ?t) (zombie_l ?t) (L LZombie)" using plrep_chain [of "{}" ?t L LZombie] assms(1) by (simp add: kst_simps)
  have pa: "parent (procs ?t q) \<noteq> None" if "q \<in> set (L LZombie)" for q
    using that assms(3) plrep_mem_iff(1-5) [OF assms(1), of q] by (auto simp: kst_simps)
  have "czombielist c s = Ret (zombie_text ?t (L LZombie), lk_released c LkPtable ?t)"
  proof (rule chain_cases [OF ch])
    assume "zombie_l ?t = None" "L LZombie = []"
    then show ?thesis by (simp only: czombielist_def rel kout_texts zombie_text_def bindr.simps option.case if_True simp_thms)
  next
    fix p assume p: "zombie_l ?t = Some p" "L LZombie = [p]" "nextof ?t p = None"
    then have "parent (procs ?t p) \<noteq> None" using pa by simp
    then show ?thesis using p
      by (simp only: czombielist_def rel kout_texts zombie_out_ret zombie_text_def list_text_def bindr.simps option.case list.case list.distinct if_True if_False simp_thms append_assoc)
  next
    fix p q ys assume p: "zombie_l ?t = Some p" "L LZombie = p # q # ys" "nextof ?t p = Some q"
    have "chain (nextof ?t) (Some p) (p # q # ys)" "\<forall>r\<in>set (p # q # ys). parent (procs ?t r) \<noteq> None"
      using ch p pa by simp_all
    from czombie_loop_chain [OF this(1) in_ptable_taken [OF assms(2)] this(2)] p show ?thesis
      by (simp only: czombielist_def rel kout_texts zombie_text_def list_text_def of_loop.simps bindr.simps option.case option.distinct list.case list.distinct if_False)
  qed
  then show ?thesis by simp
qed

text \<open>
  C40: The console listings print the lists. Whenever the lists are right and every zombie has a
  parent (as is always the case, by the invariant of all runs), each listing returns with exactly
  its text, the processes of its list in order with the numbers shown, and on every path it has
  released the table lock it took and changed nothing else.
\<close>

theorem listings_exact:
  assumes "plrep {} s L" and "may_enter c s" and "\<forall>p<NPROC. state (procs s p) = ZOMBIE \<longrightarrow> parent (procs s p) \<noteq> None"
  shows "\<exists>s'. cfreelist c s = Ret (''FREE LIST SIZE: '' @ dec (of_nat (length (L LFree))) @ '' processes.'' @ [CHR 0x0A], s')
    \<and> creadylist c s = Ret (''READY LIST PROCESSES: '' @ [CHR 0x0A] @ concat (map (\<lambda>i. ready_text s i (L (LReady i))) [0..<MAXPRIO + 1]), s')
    \<and> csleeplist c s = Ret (sleep_text s (L LSleep), s')
    \<and> czombielist c s = Ret (zombie_text s (L LZombie), s')
    \<and> may_enter c s' \<and> s' = s\<lparr>locks := locks s', cpus := cpus s'\<rparr>"
proof -
  let ?t = "lk_taken c LkPtable s"
  note rel = kacquire_enter [OF assms(2)] krelease_in [OF in_ptable_taken [OF assms(2)]]
  have r: "plrep {} ?t L" using assms(1) by (simp add: kst_simps)
  have "count_from (nextof ?t) (free_l ?t) 0 = Some (of_nat (length (L LFree)))"
    using count_chain [of "nextof ?t" "free_l ?t" "L LFree" 0] plrep_chain [OF r, of LFree] by simp
  then have "cfreelist c s = Ret (''FREE LIST SIZE: '' @ dec (of_nat (length (L LFree))) @ '' processes.'' @ [CHR 0x0A], lk_released c LkPtable ?t)"
    by (simp only: cfreelist_def rel of_loop.simps bindr.simps kout_texts)
  moreover have "foldr (\<lambda>i r. bindr (displayreadylists ?t i) (\<lambda>l. before l r)) [0..<MAXPRIO + 1] (Ret [])
      = Ret (concat (map (\<lambda>i. ready_text s i (L (LReady i))) [0..<MAXPRIO + 1]))"
    by (rule foldr_before) (use display_text [OF r] in auto)
  then have "creadylist c s = Ret (''READY LIST PROCESSES: '' @ [CHR 0x0A] @ concat (map (\<lambda>i. ready_text s i (L (LReady i))) [0..<MAXPRIO + 1]), lk_released c LkPtable ?t)"
    by (simp only: creadylist_def rel kout_texts bindr.simps append_assoc)
  moreover have "lk_released c LkPtable ?t = s\<lparr>locks := locks (lk_released c LkPtable ?t), cpus := cpus (lk_released c LkPtable ?t)\<rparr>"
    by (simp add: lk_released_def lk_taken_def)
  ultimately show ?thesis
    using csleeplist_text [OF assms(1,2)] czombielist_text [OF assms] may_enter_released [OF in_ptable_taken [OF assms(2)]] by blast
qed

theorem listings_exact_witness:
  "(\<exists>s'. czombielist 0 demo = Ret (''ZOMBIE LIST PROCESSES: 4, PPID: 2'' @ [CHR 0x0A], s') \<and> locked (locks s' LkPtable) = 0)
   \<and> (\<exists>s'. csleeplist 0 demo = Ret (''SLEEP LIST PROCESSES: 1,'' @ [CHR 0x0A], s'))"
proof -
  have "\<forall>p<NPROC. state (procs demo p) = ZOMBIE \<longrightarrow> parent (procs demo p) \<noteq> None" by (simp add: dproc_simps)
  from listings_exact [OF demo_rep demo_enter this] obtain s' where
    z: "czombielist 0 demo = Ret (zombie_text demo (demoL LZombie), s')" and sl: "csleeplist 0 demo = Ret (sleep_text demo (demoL LSleep), s')"
    and m: "may_enter 0 s'" by blast
  have "zombie_text demo (demoL LZombie) = ''ZOMBIE LIST PROCESSES: 4, PPID: 2'' @ [CHR 0x0A]"
    by (simp add: demoL_def zombie_text_def list_text_def zombie_node_def dproc_simps dec_def numstr.simps kdigits_def)
  moreover have "sleep_text demo (demoL LSleep) = ''SLEEP LIST PROCESSES: 1,'' @ [CHR 0x0A]"
    by (simp add: demoL_def sleep_text_def list_text_def dproc_simps dec_def numstr.simps kdigits_def)
  ultimately show ?thesis using z sl m by (simp add: may_enter_def)
qed

section \<open>The DEBUG check raises false alarms\<close>

lemma on_list_rep: "plrep {} s L \<Longrightarrow> valid_lref l \<Longrightarrow> on_list s l p = Ret (p \<in> set (L l))"
  using find_None_iff [of "\<lambda>q. q = p" "L l"] by (auto simp: on_list_def find_from_rep simp del: not_None_eq)

text \<open>
  \<open>findProc\<close> looks at the ready list of priority 0 only: with right lists, a ready process of any
  other priority makes \<open>checkProcs\<close> panic.
\<close>

lemma findProc_rep:
  assumes "plrep {} s L" and "p < NPROC"
  shows "findProc p s = Ret (state (procs s p) \<noteq> RUNNABLE \<or> priority (procs s p) = 0)"
proof -
  have "p \<in> set (L l) \<longleftrightarrow> home s p = l" if "valid_lref l" for l using assms that by (simp add: plrep_in_iff)
  then show ?thesis
    by (cases "state (procs s p)") (auto simp: findProc_def on_list_rep [OF assms(1)] home_def home_of_def unat_eq_zero)
qed

theorem checkProcs_false_alarm:
  assumes "plinv s" and "may_enter c s" and "p < NPROC" and "state (procs s p) = RUNNABLE" and "priority (procs s p) \<noteq> 0"
  shows "checkProcs c s = Panic (''Process array and lists inconsistent'' @ [CHR 0x0A])"
proof -
  let ?t = "lk_taken c LkPtable s"
  obtain L where r: "plrep {} ?t L" using assms(1) by (auto simp: plinv_def kst_simps)
  have "checkProcs_loop ps ?t = Panic (''Process array and lists inconsistent'' @ [CHR 0x0A])"
    if "p \<in> set ps" "\<forall>q\<in>set ps. q < NPROC" for ps
    using that assms(4,5)
  proof (induction ps)
    case (Cons q ps)
    then show ?case by (cases "q = p") (auto simp: findProc_rep [OF r] kst_simps)
  qed simp
  then have "checkProcs_loop [0..<NPROC] ?t = Panic (''Process array and lists inconsistent'' @ [CHR 0x0A])"
    using assms(3) by simp
  moreover have "\<not> holding (locks s LkPtable) c" using assms(2) by (simp add: may_enter_def holding_def)
  ultimately show ?thesis using kacquire_enter [OF assms(2)] by (simp add: checkProcs_def)
qed

end
