(* ===== verification/Physmem.thy ===== *)
theory Physmem
  imports Cstring
begin

text \<open>
  Pages and words of memory: the constants and macros of \<open>src/mmu.h\<close> and \<open>src/memlayout.h\<close>, 32-bit
  words in byte memory (little-endian), and the page an address lies in.
\<close>

section \<open>Layout\<close>

definition EXTMEM :: u32 where "EXTMEM = 0x100000"
definition PHYSTOP :: u32 where "PHYSTOP = 0xE000000"
definition DEVSPACE :: u32 where "DEVSPACE = 0xFE000000"
definition KERNBASE :: u32 where "KERNBASE = 0x80000000"
definition KERNLINK :: u32 where "KERNLINK = KERNBASE + EXTMEM"
definition PGSIZE :: u32 where "PGSIZE = 4096"
definition NPDENTRIES :: nat where "NPDENTRIES = 1024"
definition NPTENTRIES :: u32 where "NPTENTRIES = 1024"

definition v2p :: "u32 \<Rightarrow> u32" where "v2p a = a - KERNBASE"
definition p2v :: "u32 \<Rightarrow> u32" where "p2v a = a + KERNBASE"

definition PGROUNDUP :: "u32 \<Rightarrow> u32" where "PGROUNDUP n = (n + PGSIZE - 1) AND NOT (PGSIZE - 1)"
definition PGROUNDDOWN :: "u32 \<Rightarrow> u32" where "PGROUNDDOWN a = a AND NOT (PGSIZE - 1)"

definition PDX :: "u32 \<Rightarrow> u32" where "PDX va = drop_bit 22 va AND 0x3FF"
definition PTX :: "u32 \<Rightarrow> u32" where "PTX va = drop_bit 12 va AND 0x3FF"

definition PTE_P :: u32 where "PTE_P = 1"
definition PTE_W :: u32 where "PTE_W = 2"
definition PTE_U :: u32 where "PTE_U = 4"
definition PTE_ADDR :: "u32 \<Rightarrow> u32" where "PTE_ADDR pte = pte AND NOT 0xFFF"
definition PTE_FLAGS :: "u32 \<Rightarrow> u32" where "PTE_FLAGS pte = pte AND 0xFFF"

lemma v2p_p2v [simp]: "v2p (p2v a) = a" "p2v (v2p a) = a"
  by (simp_all add: v2p_def p2v_def)

section \<open>Words\<close>

definition read4 :: "mem8 \<Rightarrow> u32 \<Rightarrow> u32" where
  "read4 m a = ucast (m a) OR push_bit 8 (ucast (m (a + 1))) OR push_bit 16 (ucast (m (a + 2)))
     OR push_bit 24 (ucast (m (a + 3)))"

lemma word_of_bytes:
  fixes w :: u32
  shows "ucast (ucast w :: u8) OR push_bit 8 (ucast (ucast (drop_bit 8 w) :: u8))
     OR push_bit 16 (ucast (ucast (drop_bit 16 w) :: u8)) OR push_bit 24 (ucast (ucast (drop_bit 24 w) :: u8)) = w"
    (is "?x = w")
proof (rule bit_word_eqI)
  fix n assume "n < LENGTH(32)"
  then consider "n < 8" | "8 \<le> n" "n < 16" | "16 \<le> n" "n < 24" | "24 \<le> n" "n < 32" by fastforce
  then show "bit ?x n = bit w n" by cases (auto simp: bit_simps)
qed

lemma read4_store4 [simp]: "read4 (store4 a w m) a = w"
  using word_of_bytes [of w] by (simp add: read4_def store4_def)

lemma read4_cong: "(\<And>i. i < 4 \<Longrightarrow> m' (a + of_nat i) = m (a + of_nat i)) \<Longrightarrow> read4 m' a = read4 m a"
proof -
  assume h: "\<And>i. i < 4 \<Longrightarrow> m' (a + of_nat i) = m (a + of_nat i)"
  have "m' a = m a" "m' (a + 1) = m (a + 1)" "m' (a + 2) = m (a + 2)" "m' (a + 3) = m (a + 3)"
    using h [of 0] h [of 1] h [of 2] h [of 3] by simp_all
  then show ?thesis by (simp add: read4_def)
qed

lemma store4_at: "store4 a w m b \<noteq> m b \<Longrightarrow> \<exists>i<4. b = a + of_nat i"
proof -
  assume "store4 a w m b \<noteq> m b"
  then have "b = a \<or> b = a + 1 \<or> b = a + 2 \<or> b = a + 3" by (auto simp: store4_def split: if_splits)
  then have "b = a + of_nat 0 \<or> b = a + of_nat 1 \<or> b = a + of_nat 2 \<or> b = a + of_nat 3" by simp
  then show ?thesis by (metis numeral_eq_Suc less_Suc_eq_0_disj lessI One_nat_def zero_less_numeral one_less_numeral_iff numeral_less_iff semiring_norm(75,76,78,81))
qed

section \<open>Pages\<close>

definition pg :: "u32 \<Rightarrow> u32" where "pg a = a AND NOT 0xFFF"

lemma pg_eqs: "PGROUNDDOWN a = pg a" "PTE_ADDR a = pg a"
  by (simp_all add: PGROUNDDOWN_def PTE_ADDR_def pg_def PGSIZE_def)

lemma low_bits: "a AND 0xFFF = a mod (4096 :: u32)"
  using take_bit_eq_mod [of 12 a] take_bit_eq_mask [of 12 a] by (simp add: mask_eq_exp_minus_1)

lemma pg_diff: "pg a = a - a mod 4096"
proof -
  have "a - (a AND 0xFFF) = a AND NOT (a AND 0xFFF)" by (rule disjunctive_diff) (simp add: bit_and_iff)
  also have "\<dots> = a AND NOT 0xFFF" by (rule bit_word_eqI) (auto simp: bit_simps)
  finally show ?thesis by (simp add: pg_def low_bits)
qed

lemma unat_pg: "unat (pg a) = unat a - unat a mod 4096"
proof -
  have "unat (a mod 4096) = unat a mod 4096" by (simp add: unat_mod_distrib)
  moreover have "a mod 4096 \<le> a" by (simp add: word_le_nat_alt unat_mod_distrib)
  ultimately show ?thesis by (simp add: pg_diff unat_sub)
qed

lemma pg_idem [simp]: "pg (pg a) = pg a"
  by (simp add: pg_def ac_simps)

lemma pg_mod: "pg v = v \<longleftrightarrow> unat v mod 4096 = 0"
proof -
  have "unat v mod 4096 \<le> unat v" by simp
  then show ?thesis by (metis unat_pg diff_diff_cancel diff_zero word_unat_eq_iff mod_le_divisor cancel_comm_monoid_add_class.diff_cancel)
qed

lemma pg_top: "pg v = v \<Longrightarrow> unat v + 4096 \<le> 2 ^ 32"
proof -
  assume "pg v = v"
  then obtain k where k: "unat v = 4096 * k" using pg_mod [of v] by auto
  then have "k < 1048576" using unat_u32 [of v] by simp
  then show ?thesis using k by simp
qed

lemma pg_off:
  assumes "pg v = v" and "i < 4096"
  shows "pg (v + of_nat i) = v" and "unat (v + of_nat i) = unat v + i"
proof -
  have m: "unat v mod 4096 = 0" using assms(1) by (simp add: pg_mod)
  show u: "unat (v + of_nat i) = unat v + i" using assms(2) pg_top [OF assms(1)] by (intro unat_off) simp
  have "(unat v + i) mod 4096 = i" using m assms(2) by (metis add_0 mod_add_left_eq mod_less)
  then have "unat (pg (v + of_nat i)) = unat v" by (simp add: unat_pg u)
  then show "pg (v + of_nat i) = v" by (simp add: word_unat_eq_iff)
qed

lemma pg_cases:
  obtains i where "i < 4096" and "a = pg a + of_nat i"
proof -
  have "a = pg a + of_nat (unat (a mod 4096))" by (simp add: pg_diff)
  moreover have "unat (a mod 4096) < 4096" by (simp add: unat_mod_distrib)
  ultimately show thesis using that by blast
qed

section \<open>Aligned words\<close>

abbreviation al4 :: "u32 \<Rightarrow> bool" where "al4 a \<equiv> unat a mod 4 = 0"

lemma al4_off: "al4 a \<Longrightarrow> i < 4 \<Longrightarrow> unat (a + of_nat i) = unat a + i"
proof -
  assume "al4 a" "i < 4"
  then obtain k where k: "unat a = 4 * k" by auto
  then have "k < 1073741824" using unat_u32 [of a] by simp
  then show ?thesis using k \<open>i < 4\<close> by (intro unat_off) simp
qed

lemma al4_apart: "al4 a \<Longrightarrow> al4 b \<Longrightarrow> i < 4 \<Longrightarrow> j < 4 \<Longrightarrow> a + of_nat i = b + of_nat j \<Longrightarrow> a = b"
proof -
  assume h: "al4 a" "al4 b" "i < 4" "j < 4" "a + of_nat i = b + of_nat j"
  then have e: "unat a + i = unat b + j" using al4_off [of a i] al4_off [of b j] by simp
  then have "i = j" using h by (metis mod_add_left_eq add_0 mod_less)
  then show "a = b" using e by (simp add: word_unat_eq_iff)
qed

lemma read4_store4_other:
  assumes "al4 a" and "al4 b" and "a \<noteq> b"
  shows "read4 (store4 a w m) b = read4 m b"
proof (rule read4_cong, rule ccontr)
  fix i :: nat assume i: "i < 4" and "store4 a w m (b + of_nat i) \<noteq> m (b + of_nat i)"
  from store4_at [OF this(2)] obtain j where "j < 4" "b + of_nat i = a + of_nat j" by blast
  from al4_apart [OF assms(2,1) i this] show False using assms(3) by simp
qed

lemma pg_al4: "al4 a \<Longrightarrow> i < 4 \<Longrightarrow> pg (a + of_nat i) = pg a"
proof -
  assume h: "al4 a" "i < 4"
  have u: "unat (a + of_nat i) = unat a + i" by (rule al4_off [OF h])
  have "unat a mod 4096 mod 4 = 0" using h(1) mod_mod_cancel [of 4 4096 "unat a"] by simp
  then obtain k where k: "unat a mod 4096 = 4 * k" by auto
  then have "k < 1024" using mod_less_divisor [of 4096 "unat a"] by simp
  then have "unat a mod 4096 + i < 4096" using h(2) k by simp
  then have "(unat a + i) mod 4096 = unat a mod 4096 + i" by (metis mod_add_left_eq mod_less)
  then have "unat (pg (a + of_nat i)) = unat (pg a)" by (simp add: unat_pg u)
  then show ?thesis by (simp add: word_unat_eq_iff)
qed

text \<open>\<open>m'\<close> differs from \<open>m\<close> in the page \<open>v\<close> at most.\<close>

definition only_page :: "u32 \<Rightarrow> mem8 \<Rightarrow> mem8 \<Rightarrow> bool" where
  "only_page v m m' \<longleftrightarrow> (\<forall>a. pg a \<noteq> v \<longrightarrow> m' a = m a)"

lemma only_page_refl [simp]: "only_page v m m"
  by (simp add: only_page_def)

lemma only_page_trans: "only_page v m m' \<Longrightarrow> only_page v m' m'' \<Longrightarrow> only_page v m m''"
  by (simp add: only_page_def)

lemma only_page_store4: "al4 a \<Longrightarrow> only_page (pg a) m (store4 a w m)"
  unfolding only_page_def by (metis pg_al4 store4_at)

lemma only_page_memset: "pg v = v \<Longrightarrow> only_page v m (memset v c PGSIZE m)"
  unfolding only_page_def memset_filled
  by (auto intro!: filled_out simp: PGSIZE_def dest: pg_off(1))

lemma only_page_at: "only_page v m m' \<Longrightarrow> pg a \<noteq> v \<Longrightarrow> m' a = m a"
  by (simp add: only_page_def)

lemma read4_only: "only_page v m m' \<Longrightarrow> al4 a \<Longrightarrow> pg a \<noteq> v \<Longrightarrow> read4 m' a = read4 m a"
  by (rule read4_cong) (simp add: only_page_at pg_al4)

lemma memset_at: "pg v = v \<Longrightarrow> pg a = v \<Longrightarrow> memset v c PGSIZE m a = ucast c"
proof -
  assume v: "pg v = v" "pg a = v"
  obtain i where i: "i < 4096" "a = v + of_nat i" using pg_cases [of a] v(2) by auto
  have "filled m v (replicate 4096 (ucast c)) (v + of_nat i) = replicate 4096 (ucast c) ! i"
    using i(1) by (intro filled_at) simp_all
  then show ?thesis using i by (simp add: memset_filled PGSIZE_def)
qed

lemma read4_memset0: "pg v = v \<Longrightarrow> al4 a \<Longrightarrow> pg a = v \<Longrightarrow> read4 (memset v 0 PGSIZE m) a = 0"
proof -
  assume h: "pg v = v" "al4 a" "pg a = v"
  have "read4 (memset v 0 PGSIZE m) a = read4 (\<lambda>_. 0) a"
    by (rule read4_cong) (simp add: memset_at h pg_al4)
  then show ?thesis by (simp add: read4_def)
qed

lemma pg_is_al4: "pg v = v \<Longrightarrow> al4 v"
  using pg_mod [of v] mod_mod_cancel [of 4 4096 "unat v"] by simp

end
