(* ===== verification/Kalloc.thy ===== *)
theory Kalloc
  imports Spinlock Physmem
begin

text \<open>
  The physical page allocator (\<open>src/kalloc.c\<close>): free pages are linked through their first word. The
  address \<open>kend\<close> of the end of the kernel image comes from the linker and is an argument.
\<close>

section \<open>State and operations\<close>

record kmem =
  kbytes :: mem8
  freelist :: u32
  use_lock :: bool
  klock :: spinlock
  kcpu :: cpu

definition kmem_acquire :: "nat \<Rightarrow> kmem \<Rightarrow> kmem res" where
  "kmem_acquire c st =
     (if use_lock st
      then bindr (acquire c (klock st) (kcpu st)) (\<lambda>(lk, cp). Ret (st\<lparr>klock := lk, kcpu := cp\<rparr>))
      else Ret st)"

definition kmem_release :: "nat \<Rightarrow> kmem \<Rightarrow> kmem res" where
  "kmem_release c st =
     (if use_lock st
      then bindr (release c (klock st) (kcpu st)) (\<lambda>(lk, cp). Ret (st\<lparr>klock := lk, kcpu := cp\<rparr>))
      else Ret st)"

definition kfree :: "u32 \<Rightarrow> nat \<Rightarrow> u32 \<Rightarrow> kmem \<Rightarrow> kmem res" where
  "kfree kend c v st0 =
     (if v mod PGSIZE \<noteq> 0 \<or> v < kend \<or> v2p v \<ge> PHYSTOP then Panic ''kfree''
      else (let st = st0\<lparr>kbytes := memset v 1 PGSIZE (kbytes st0)\<rparr>
            in bindr (kmem_acquire c st) (\<lambda>st.
               kmem_release c (st\<lparr>kbytes := store4 v (freelist st) (kbytes st), freelist := v\<rparr>))))"

definition kalloc :: "nat \<Rightarrow> kmem \<Rightarrow> (u32 \<times> kmem) res" where
  "kalloc c st0 =
     bindr (kmem_acquire c st0) (\<lambda>st.
     (let r = freelist st;
          st = (if r \<noteq> 0 then st\<lparr>freelist := read4 (kbytes st) r\<rparr> else st)
      in bindr (kmem_release c st) (\<lambda>st. Ret (r, st))))"

partial_function (option) freerange_loop :: "u32 \<Rightarrow> nat \<Rightarrow> u32 \<Rightarrow> u32 \<Rightarrow> kmem \<Rightarrow> kmem res option" where
  "freerange_loop kend c p vend st =
     (if p + PGSIZE \<le> vend
      then (case kfree kend c p st of
              Ret st \<Rightarrow> freerange_loop kend c (p + PGSIZE) vend st
            | r \<Rightarrow> Some r)
      else Some (Ret st))"

definition freerange :: "u32 \<Rightarrow> nat \<Rightarrow> u32 \<Rightarrow> u32 \<Rightarrow> kmem \<Rightarrow> kmem res" where
  "freerange kend c vstart vend st =
     bindr (of_loop (freerange_loop kend c (PGROUNDUP vstart) vend st)) (\<lambda>r. r)"

definition kinit1 :: "u32 \<Rightarrow> nat \<Rightarrow> u32 \<Rightarrow> u32 \<Rightarrow> kmem \<Rightarrow> kmem res" where
  "kinit1 kend c vstart vend st =
     freerange kend c vstart vend (st\<lparr>klock := initlock (klock st) ''kmem'', use_lock := False\<rparr>)"

definition kinit2 :: "u32 \<Rightarrow> nat \<Rightarrow> u32 \<Rightarrow> u32 \<Rightarrow> kmem \<Rightarrow> kmem res" where
  "kinit2 kend c vstart vend st =
     bindr (freerange kend c vstart vend st) (\<lambda>st. Ret (st\<lparr>use_lock := True\<rparr>))"

section \<open>The free list\<close>

definition kpage :: "u32 \<Rightarrow> u32 \<Rightarrow> bool" where
  "kpage kend v \<longleftrightarrow> pg v = v \<and> kend \<le> v \<and> v2p v < PHYSTOP"

definition knext :: "mem8 \<Rightarrow> u32 \<Rightarrow> u32 option" where
  "knext m p = (if read4 m p = 0 then None else Some (read4 m p))"

definition kinv :: "u32 \<Rightarrow> kmem \<Rightarrow> u32 list \<Rightarrow> bool" where
  "kinv kend st F \<longleftrightarrow>
     chain (knext (kbytes st)) (if freelist st = 0 then None else Some (freelist st)) F
   \<and> (\<forall>p\<in>set F. kpage kend p) \<and> locked (klock st) = 0 \<and> cpu_ok (kcpu st)"

lemma kpage_nonzero: "kpage kend v \<Longrightarrow> v \<noteq> 0"
  by (auto simp: kpage_def v2p_def KERNBASE_def PHYSTOP_def)

lemma kpage_aligned: "kpage kend v \<Longrightarrow> v mod PGSIZE = 0"
  by (simp add: kpage_def pg_diff PGSIZE_def)

lemma kinv_distinct: "kinv kend st F \<Longrightarrow> distinct F"
  by (auto simp: kinv_def intro: chain_distinct)

lemma kinv_page: "kinv kend st F \<Longrightarrow> p \<in> set F \<Longrightarrow> kpage kend p"
  by (simp add: kinv_def)

text \<open>Taking and giving back a free lock restores it, up to the interrupt flag saved on the way.\<close>

lemma kmem_acquire_free:
  assumes "locked (klock st) = 0" and "cpu_ok (kcpu st)"
  obtains st1 where "kmem_acquire c st = Ret st1" and "kbytes st1 = kbytes st" and "freelist st1 = freelist st"
    and "\<And>f g. \<exists>st2. kmem_release c (st1\<lparr>kbytes := f, freelist := g\<rparr>) = Ret st2 \<and> kbytes st2 = f \<and> freelist st2 = g
           \<and> locked (klock st2) = 0 \<and> cpu_ok (kcpu st2) \<and> use_lock st2 = use_lock st"
proof (cases "use_lock st")
  case True
  let ?st1 = "st\<lparr>klock := (klock st)\<lparr>locked := 1, lk_cpu := Some c\<rparr>, kcpu := pushcli (kcpu st)\<rparr>"
  obtain cp where "popcli (pushcli (kcpu st)) = Ret cp" "cpu_ok cp"
    using popcli_pushcli [OF assms(2)] cpu_ok_popcli [OF cpu_ok_pushcli [OF assms(2)]] by metis
  then have "\<exists>st2. kmem_release c (?st1\<lparr>kbytes := f, freelist := g\<rparr>) = Ret st2 \<and> kbytes st2 = f \<and> freelist st2 = g
           \<and> locked (klock st2) = 0 \<and> cpu_ok (kcpu st2) \<and> use_lock st2 = use_lock st" for f g
    using True by (simp add: kmem_release_def release_def holding_def xchg_def)
  then show thesis using that [of ?st1] True assms(1) by (simp add: kmem_acquire_def acquire_free)
next
  case False
  then show thesis using that [of st] assms by (simp add: kmem_acquire_def kmem_release_def)
qed

lemma kalloc_cons:
  assumes "kinv kend st (p # F)"
  shows "\<exists>st'. kalloc c st = Ret (p, st') \<and> kinv kend st' F \<and> kbytes st' = kbytes st"
proof -
  have f: "freelist st = p" "chain (knext (kbytes st)) (knext (kbytes st) p) F" "p \<noteq> 0"
    using assms by (auto simp: kinv_def kpage_nonzero split: if_splits)
  obtain st1 where a: "kmem_acquire c st = Ret st1" "kbytes st1 = kbytes st" "freelist st1 = freelist st"
    and r: "\<And>f g. \<exists>st2. kmem_release c (st1\<lparr>kbytes := f, freelist := g\<rparr>) = Ret st2 \<and> kbytes st2 = f \<and> freelist st2 = g
           \<and> locked (klock st2) = 0 \<and> cpu_ok (kcpu st2) \<and> use_lock st2 = use_lock st"
    using kmem_acquire_free [of st c] assms by (auto simp: kinv_def)
  have s: "st1\<lparr>kbytes := kbytes st, freelist := g\<rparr> = st1\<lparr>freelist := g\<rparr>" for g using a(2) by simp
  obtain st2 where st2: "kmem_release c (st1\<lparr>freelist := read4 (kbytes st) p\<rparr>) = Ret st2" "kbytes st2 = kbytes st"
    "freelist st2 = read4 (kbytes st) p" "locked (klock st2) = 0" "cpu_ok (kcpu st2)"
    using r [where f = "kbytes st" and g = "read4 (kbytes st) p"] s by auto
  have "kalloc c st = Ret (p, st2)" using a f st2(1) by (simp add: kalloc_def)
  moreover have "knext (kbytes st) p = (if freelist st2 = 0 then None else Some (freelist st2))"
    using st2(3) by (simp add: knext_def)
  then have "kinv kend st2 F" using assms f(2) st2(2,4,5) by (simp add: kinv_def)
  ultimately show ?thesis using st2(2) by blast
qed

lemma kalloc_nil:
  assumes "kinv kend st []"
  shows "\<exists>st'. kalloc c st = Ret (0, st') \<and> kinv kend st' [] \<and> kbytes st' = kbytes st"
proof -
  have f: "freelist st = 0" using assms by (auto simp: kinv_def split: if_splits)
  obtain st1 where a: "kmem_acquire c st = Ret st1" "kbytes st1 = kbytes st" "freelist st1 = freelist st"
    and r: "\<And>f g. \<exists>st2. kmem_release c (st1\<lparr>kbytes := f, freelist := g\<rparr>) = Ret st2 \<and> kbytes st2 = f \<and> freelist st2 = g
           \<and> locked (klock st2) = 0 \<and> cpu_ok (kcpu st2) \<and> use_lock st2 = use_lock st"
    using kmem_acquire_free [of st c] assms by (auto simp: kinv_def)
  have "st1 = st1\<lparr>kbytes := kbytes st, freelist := 0\<rparr>" using a(2,3) f by simp
  then obtain st2 where "kmem_release c st1 = Ret st2" "kbytes st2 = kbytes st" "freelist st2 = 0"
    "locked (klock st2) = 0" "cpu_ok (kcpu st2)"
    using r [where f = "kbytes st" and g = 0] by metis
  then show ?thesis using a f by (auto simp: kalloc_def kinv_def)
qed

lemma knext_only: "only_page v m m' \<Longrightarrow> pg p = p \<Longrightarrow> p \<noteq> v \<Longrightarrow> knext m' p = knext m p"
  by (simp add: knext_def read4_only pg_is_al4)

lemma kfree_ok:
  assumes "kinv kend st F" and "kpage kend v" and "v \<notin> set F"
  shows "\<exists>st'. kfree kend c v st = Ret st' \<and> kinv kend st' (v # F) \<and> only_page v (kbytes st) (kbytes st')"
proof -
  let ?m = "memset v 1 PGSIZE (kbytes st)"
  let ?m' = "store4 v (freelist st) ?m"
  have v: "pg v = v" "al4 v" using assms(2) pg_is_al4 by (auto simp: kpage_def)
  have o: "only_page v (kbytes st) ?m'"
    by (rule only_page_trans [OF only_page_memset [OF v(1)] only_page_store4 [OF v(2), unfolded v(1)]])
  have "chain (knext ?m') (if freelist st = 0 then None else Some (freelist st)) F"
  proof -
    have "knext ?m' p = knext (kbytes st) p" if "p \<in> set F" for p
      using that assms(3) kinv_page [OF assms(1) that] by (intro knext_only [OF o]) (auto simp: kpage_def)
    then show ?thesis using assms(1) chain_cong [of F "knext ?m'" "knext (kbytes st)"] by (simp add: kinv_def)
  qed
  moreover have "knext ?m' v = (if freelist st = 0 then None else Some (freelist st))" by (simp add: knext_def)
  ultimately have ch: "chain (knext ?m') (Some v) (v # F)" by simp
  have "\<not> (v mod PGSIZE \<noteq> 0 \<or> v < kend \<or> v2p v \<ge> PHYSTOP)"
    using assms(2) kpage_aligned [OF assms(2)] by (auto simp: kpage_def)
  then have k: "kfree kend c v st = bindr (kmem_acquire c (st\<lparr>kbytes := ?m\<rparr>)) (\<lambda>st.
      kmem_release c (st\<lparr>kbytes := store4 v (freelist st) (kbytes st), freelist := v\<rparr>))"
    by (simp add: kfree_def)
  obtain st1 where a: "kmem_acquire c (st\<lparr>kbytes := ?m\<rparr>) = Ret st1" "kbytes st1 = ?m" "freelist st1 = freelist st"
    and r: "\<And>f g. \<exists>st2. kmem_release c (st1\<lparr>kbytes := f, freelist := g\<rparr>) = Ret st2 \<and> kbytes st2 = f \<and> freelist st2 = g
           \<and> locked (klock st2) = 0 \<and> cpu_ok (kcpu st2) \<and> use_lock st2 = use_lock st"
    using kmem_acquire_free [of "st\<lparr>kbytes := ?m\<rparr>" c] assms(1) by (auto simp: kinv_def)
  obtain st2 where st2: "kmem_release c (st1\<lparr>kbytes := ?m', freelist := v\<rparr>) = Ret st2" "kbytes st2 = ?m'" "freelist st2 = v"
    "locked (klock st2) = 0" "cpu_ok (kcpu st2)"
    using r [where f = ?m' and g = v] by blast
  have "kfree kend c v st = Ret st2" using k a st2(1) by simp
  moreover have "kinv kend st2 (v # F)" using ch st2 assms(1,2) kpage_nonzero [OF assms(2)] by (simp add: kinv_def)
  ultimately show ?thesis using o st2(2) by auto
qed

lemma kfree_bad: "\<not> kpage kend v \<Longrightarrow> kfree kend c v st = Panic ''kfree''"
proof -
  assume "\<not> kpage kend v"
  moreover have "pg v = v \<longleftrightarrow> v mod PGSIZE = 0" by (simp add: pg_diff PGSIZE_def)
  ultimately have "v mod PGSIZE \<noteq> 0 \<or> v < kend \<or> PHYSTOP \<le> v2p v" unfolding kpage_def by (metis not_le)
  then show ?thesis unfolding kfree_def by (simp only: if_True)
qed

section \<open>Page allocators\<close>

text \<open>
  What the rest of the kernel relies on: allocation hands out the first free page or \<open>0\<close>, freeing
  puts a page back, and every free page is a real one.
\<close>

locale page_allocator =
  fixes alloc :: "'s \<Rightarrow> (u32 \<times> 's) res" and free :: "u32 \<Rightarrow> 's \<Rightarrow> 's res"
    and inv :: "'s \<Rightarrow> u32 list \<Rightarrow> bool" and ok :: "u32 \<Rightarrow> bool"
  assumes alloc_cons: "inv s (p # F) \<Longrightarrow> \<exists>s'. alloc s = Ret (p, s') \<and> inv s' F"
    and alloc_nil: "inv s [] \<Longrightarrow> \<exists>s'. alloc s = Ret (0, s') \<and> inv s' []"
    and free_ok: "inv s F \<Longrightarrow> ok v \<Longrightarrow> v \<notin> set F \<Longrightarrow> \<exists>s'. free v s = Ret s' \<and> inv s' (v # F)"
    and inv_ok: "inv s F \<Longrightarrow> p \<in> set F \<Longrightarrow> ok p"
    and ok_nonzero: "ok p \<Longrightarrow> p \<noteq> 0"

text \<open>A client: it allocates, and frees pages it was given (the \<open>i\<close>-th one it holds).\<close>

datatype page_op = Alloc | Free nat

fun page_run :: "('s \<Rightarrow> (u32 \<times> 's) res) \<Rightarrow> (u32 \<Rightarrow> 's \<Rightarrow> 's res) \<Rightarrow> page_op list \<Rightarrow> 's \<Rightarrow> u32 list \<Rightarrow> ('s \<times> u32 list) res" where
  "page_run al fr [] s A = Ret (s, A)"
| "page_run al fr (Alloc # ops) s A =
     bindr (al s) (\<lambda>(p, s). page_run al fr ops s (if p = 0 then A else p # A))"
| "page_run al fr (Free i # ops) s A =
     (if i < length A then bindr (fr (A ! i) s) (\<lambda>s. page_run al fr ops s (remove1 (A ! i) A))
      else page_run al fr ops s A)"

context page_allocator
begin

lemma run_conserves:
  "inv s F \<Longrightarrow> distinct (A @ F) \<Longrightarrow> \<forall>p\<in>set A. ok p \<Longrightarrow>
   \<exists>s' A' F'. page_run alloc free ops s A = Ret (s', A') \<and> inv s' F' \<and> distinct (A' @ F')
     \<and> set (A' @ F') = set (A @ F)"
proof (induction ops arbitrary: s F A)
  case Nil
  then show ?case by auto
next
  case (Cons op ops)
  show ?case
  proof (cases op)
    case Alloc
    show ?thesis
    proof (cases F)
      case Nil
      then show ?thesis using Alloc alloc_nil [of s] Cons.IH [of _ "[]" A] Cons.prems by auto
    next
      case (Cons p F')
      then obtain s' where s': "alloc s = Ret (p, s')" "inv s' F'" using alloc_cons \<open>inv s F\<close> by blast
      have "ok p" using inv_ok [OF \<open>inv s F\<close>] Cons by simp
      then show ?thesis
        using Alloc s' Cons.IH [OF s'(2), of "p # A"] Cons.prems Cons ok_nonzero by (auto simp: insert_commute)
    qed
  next
    case (Free i)
    show ?thesis
    proof (cases "i < length A")
      case True
      then have m: "A ! i \<in> set A" by simp
      then have "A ! i \<notin> set F" "ok (A ! i)" using Cons.prems by auto
      then obtain s' where s': "free (A ! i) s = Ret s'" "inv s' (A ! i # F)" using free_ok [OF Cons.prems(1)] by blast
      have d: "set (remove1 (A ! i) A) = set A - {A ! i}" using Cons.prems(2) by (intro set_remove1_eq) simp
      have p: "distinct (remove1 (A ! i) A @ A ! i # F)" "\<forall>p\<in>set (remove1 (A ! i) A). ok p"
        using Cons.prems m d by auto
      have e: "insert (A ! i) (set A - {A ! i} \<union> set F) = set A \<union> set F" using m by blast
      from Cons.IH [OF s'(2) p] show ?thesis using Free True s'(1) d e by simp
    next
      case False
      then show ?thesis using Free Cons by simp
    qed
  qed
qed

end

interpretation kp: page_allocator "kalloc c" "kfree kend c" "kinv kend" "kpage kend"
proof unfold_locales
  show "kinv kend s (p # F) \<Longrightarrow> \<exists>s'. kalloc c s = Ret (p, s') \<and> kinv kend s' F" for s p F using kalloc_cons by blast
  show "kinv kend s [] \<Longrightarrow> \<exists>s'. kalloc c s = Ret (0, s') \<and> kinv kend s' []" for s using kalloc_nil by blast
  show "kinv kend s F \<Longrightarrow> kpage kend v \<Longrightarrow> v \<notin> set F \<Longrightarrow> \<exists>s'. kfree kend c v s = Ret s' \<and> kinv kend s' (v # F)" for s F v
    using kfree_ok by blast
  show "kinv kend s F \<Longrightarrow> p \<in> set F \<Longrightarrow> kpage kend p" for s F p by (rule kinv_page)
  show "kpage kend p \<Longrightarrow> p \<noteq> 0" for p by (rule kpage_nonzero)
qed

section \<open>Properties\<close>

text \<open>
  C16: No page is handed out twice or lost. Starting with a right free list and a client that holds
  other pages, every sequence of \<open>kalloc\<close> and \<open>kfree\<close> calls of a client that frees only pages it
  holds returns (no panic, no deadlock), the pages held and the free pages stay distinct, and
  together they are always the same pages.
\<close>

theorem kalloc_conserves:
  assumes "kinv kend st F" and "distinct (A @ F)" and "\<forall>p\<in>set A. kpage kend p"
  shows "\<exists>st' A' F'. page_run (kalloc c) (kfree kend c) ops st A = Ret (st', A') \<and> kinv kend st' F'
    \<and> distinct (A' @ F') \<and> set (A' @ F') = set (A @ F)"
  by (rule kp.run_conserves [OF assms])

definition kmem0 :: kmem where
  "kmem0 = \<lparr>kbytes = (\<lambda>_. 0), freelist = 0, use_lock = True, klock = \<lparr>locked = 0, lk_name = ''kmem'', lk_cpu = None\<rparr>,
     kcpu = \<lparr>ncli = 0, intena = False, if_flag = True, cpu_proc = None\<rparr>\<rparr>"

lemma kinv_kmem0: "kinv kend kmem0 []"
  by (simp add: kinv_def kmem0_def cpu_ok_def)

lemma kpage_at: "unat v mod 4096 = 0 \<Longrightarrow> kend \<le> v \<Longrightarrow> v2p v < PHYSTOP \<Longrightarrow> kpage kend v"
  by (simp add: kpage_def pg_mod)

theorem kalloc_conserves_witness:
  "\<exists>st' A' F'. page_run (kalloc 0) (kfree 0x80200000 0) [Free 1, Alloc, Free 0] kmem0 [0x80400000, 0x80401000] = Ret (st', A')
     \<and> kinv 0x80200000 st' F' \<and> set (A' @ F') = {0x80400000, 0x80401000}"
proof -
  have p: "\<forall>p\<in>set [0x80400000, 0x80401000]. kpage 0x80200000 p"
    by (auto intro!: kpage_at simp: v2p_def KERNBASE_def PHYSTOP_def)
  have d: "distinct ([0x80400000, 0x80401000 :: u32] @ [])" by simp
  from kalloc_conserves [OF kinv_kmem0 d p, of 0 "[Free 1, Alloc, Free 0]"] show ?thesis by auto
qed

text \<open>The pages \<open>freerange\<close> frees, in order.\<close>

fun pages_from :: "nat \<Rightarrow> u32 \<Rightarrow> u32 list" where
  "pages_from 0 p = []"
| "pages_from (Suc n) p = p # pages_from n (p + PGSIZE)"

lemma pages_from_mem:
  assumes "q \<in> set (pages_from n p)" and "unat p + 4096 * n \<le> 2 ^ 32"
  shows "\<exists>i<n. unat q = unat p + 4096 * i"
  using assms
proof (induction n arbitrary: p)
  case (Suc n)
  show ?case
  proof (cases "q = p")
    case False
    then have q: "q \<in> set (pages_from n (p + PGSIZE))" "n \<noteq> 0" using Suc.prems by (cases n; simp)+
    have u: "unat (p + PGSIZE) = unat p + 4096"
      using Suc.prems(2) q(2) by (auto simp: PGSIZE_def unat_word_ariths)
    obtain i where "i < n" "unat q = unat (p + PGSIZE) + 4096 * i" using Suc.IH [OF q(1)] Suc.prems(2) u by auto
    then show ?thesis using u by (intro exI [of _ "Suc i"]) simp
  qed auto
qed simp

lemma freerange_loop_ok:
  assumes "unat p + 4096 * n \<le> unat vend" and "unat vend < unat p + 4096 * n + 4096"
    and "unat vend + 4096 < 2 ^ 32"
    and "kinv kend st F" and "\<forall>q\<in>set (pages_from n p). kpage kend q" and "set (pages_from n p) \<inter> set F = {}"
  shows "\<exists>st'. freerange_loop kend c p vend st = Some (Ret st') \<and> kinv kend st' (rev (pages_from n p) @ F)"
  using assms
proof (induction n arbitrary: p st F)
  case 0
  then have "unat (p + PGSIZE) = unat p + 4096" by (simp add: PGSIZE_def unat_word_ariths)
  then have "\<not> p + PGSIZE \<le> vend" using 0 by (simp add: word_le_nat_alt)
  then show ?case using 0 by (subst freerange_loop.simps) simp
next
  case (Suc n)
  have u: "unat (p + PGSIZE) = unat p + 4096" using Suc.prems by (simp add: PGSIZE_def unat_word_ariths)
  then have le: "p + PGSIZE \<le> vend" using Suc.prems by (simp add: word_le_nat_alt)
  obtain st1 where s1: "kfree kend c p st = Ret st1" "kinv kend st1 (p # F)"
    using kfree_ok [OF Suc.prems(4), of p c] Suc.prems by auto
  have "p \<notin> set (pages_from n (p + PGSIZE))"
  proof
    assume "p \<in> set (pages_from n (p + PGSIZE))"
    then obtain i where "unat p = unat (p + PGSIZE) + 4096 * i" using pages_from_mem u Suc.prems by fastforce
    then show False using u by simp
  qed
  then obtain st' where "freerange_loop kend c (p + PGSIZE) vend st1 = Some (Ret st')"
      "kinv kend st' (rev (pages_from n (p + PGSIZE)) @ p # F)"
    using Suc.IH [of "p + PGSIZE" st1 "p # F"] Suc.prems s1 u by auto
  then show ?case using s1 le by (subst freerange_loop.simps) simp
qed

end
