(* ===== verification/Vm.thy ===== *)
theory Vm
  imports Kalloc
begin

text \<open>
  Page tables (\<open>src/vm.c\<close>), in the byte memory of the page allocator. A pointer to a page table
  entry is the address of the entry; a null pointer that is dereferenced is a \<open>Fault\<close>. The loops
  leave through \<open>break\<close>, \<open>return\<close> or an error of a call; \<open>None\<close> is a loop without end.
\<close>

section \<open>Walking\<close>

definition walkpgdir :: "nat \<Rightarrow> u32 \<Rightarrow> u32 \<Rightarrow> bool \<Rightarrow> kmem \<Rightarrow> (u32 option \<times> kmem) res" where
  "walkpgdir c pgdir va alloc st =
     (let pde = pgdir + 4 * PDX va
      in if read4 (kbytes st) pde AND PTE_P \<noteq> 0
         then Ret (Some (p2v (PTE_ADDR (read4 (kbytes st) pde)) + 4 * PTX va), st)
         else if \<not> alloc then Ret (None, st)
         else bindr (kalloc c st) (\<lambda>(pgtab, st).
              if pgtab = 0 then Ret (None, st)
              else (let st = st\<lparr>kbytes := memset pgtab 0 PGSIZE (kbytes st)\<rparr>;
                        st = st\<lparr>kbytes := store4 pde (v2p pgtab OR PTE_P OR PTE_W OR PTE_U) (kbytes st)\<rparr>
                    in Ret (Some (pgtab + 4 * PTX va), st))))"

partial_function (option) mappages_loop ::
    "nat \<Rightarrow> u32 \<Rightarrow> u32 \<Rightarrow> u32 \<Rightarrow> u32 \<Rightarrow> u32 \<Rightarrow> kmem \<Rightarrow> (int \<times> kmem) res option" where
  "mappages_loop c pgdir a lst pa perm st =
     (case walkpgdir c pgdir a True st of
        Ret (ptep, st) \<Rightarrow>
          (case ptep of
             None \<Rightarrow> Some (Ret (-1, st))
           | Some pte \<Rightarrow>
               if read4 (kbytes st) pte AND PTE_P \<noteq> 0 then Some (Panic ''remap'')
               else (let st = st\<lparr>kbytes := store4 pte (pa OR perm OR PTE_P) (kbytes st)\<rparr>
                     in if a = lst then Some (Ret (0, st))
                        else mappages_loop c pgdir (a + PGSIZE) lst (pa + PGSIZE) perm st))
      | Panic e \<Rightarrow> Some (Panic e) | Fault \<Rightarrow> Some Fault | Hang \<Rightarrow> Some Hang)"

definition mappages :: "nat \<Rightarrow> u32 \<Rightarrow> u32 \<Rightarrow> u32 \<Rightarrow> u32 \<Rightarrow> u32 \<Rightarrow> kmem \<Rightarrow> (int \<times> kmem) res" where
  "mappages c pgdir va n pa perm st =
     bindr (of_loop (mappages_loop c pgdir (PGROUNDDOWN va) (PGROUNDDOWN (va + n - 1)) pa perm st)) (\<lambda>r. r)"

section \<open>Kernel mappings\<close>

text \<open>\<open>kmap\<close>: virtual start, physical start and end, permissions. \<open>kdata\<close> comes from the linker.\<close>

definition kmap :: "u32 \<Rightarrow> (u32 \<times> u32 \<times> u32 \<times> u32) list" where
  "kmap kdata =
     [(KERNBASE, 0, EXTMEM, PTE_W), (KERNLINK, v2p KERNLINK, v2p kdata, 0),
      (kdata, v2p kdata, PHYSTOP, PTE_W), (DEVSPACE, DEVSPACE, 0, PTE_W)]"

fun setupkvm_loop :: "nat \<Rightarrow> u32 \<Rightarrow> (u32 \<times> u32 \<times> u32 \<times> u32) list \<Rightarrow> kmem \<Rightarrow> (u32 \<times> kmem) res" where
  "setupkvm_loop c pgdir [] st = Ret (pgdir, st)"
| "setupkvm_loop c pgdir ((virt, ps, pe, perm) # ks) st =
     bindr (mappages c pgdir virt (pe - ps) ps perm st) (\<lambda>(rc, st).
     if rc < 0 then Ret (0, st) else setupkvm_loop c pgdir ks st)"

definition setupkvm :: "u32 \<Rightarrow> nat \<Rightarrow> kmem \<Rightarrow> (u32 \<times> kmem) res" where
  "setupkvm kdata c st =
     bindr (kalloc c st) (\<lambda>(pgdir, st).
     if pgdir = 0 then Ret (0, st)
     else (let st = st\<lparr>kbytes := memset pgdir 0 PGSIZE (kbytes st)\<rparr>
           in if p2v PHYSTOP > DEVSPACE then Panic ''PHYSTOP too high''
              else setupkvm_loop c pgdir (kmap kdata) st))"

section \<open>User memory\<close>

text \<open>\<open>init\<close> is the address of the first program, linked into the kernel.\<close>

definition inituvm :: "nat \<Rightarrow> u32 \<Rightarrow> u32 \<Rightarrow> u32 \<Rightarrow> kmem \<Rightarrow> kmem res" where
  "inituvm c pgdir init n st =
     (if n \<ge> PGSIZE then Panic ''inituvm: more than a page''
      else bindr (kalloc c st) (\<lambda>(mm, st).
           bindr (mappages c pgdir 0 PGSIZE (v2p mm) (PTE_W OR PTE_U)
                   (st\<lparr>kbytes := memset mm 0 PGSIZE (kbytes st)\<rparr>)) (\<lambda>(_, st).
           Ret (st\<lparr>kbytes := memmove mm init n (kbytes st)\<rparr>))))"

text \<open>\<open>readi ip dst off n\<close> (\<open>src/fs.c\<close>) reads file bytes into memory; here it is an argument.\<close>

type_synonym reader = "u32 \<Rightarrow> u32 \<Rightarrow> u32 \<Rightarrow> kmem \<Rightarrow> (u32 \<times> kmem) res"

partial_function (option) loaduvm_loop ::
    "reader \<Rightarrow> nat \<Rightarrow> u32 \<Rightarrow> u32 \<Rightarrow> u32 \<Rightarrow> u32 \<Rightarrow> u32 \<Rightarrow> kmem \<Rightarrow> (int \<times> kmem) res option" where
  "loaduvm_loop readi c pgdir addr offset n i st =
     (if i < n
      then (case walkpgdir c pgdir (addr + i) False st of
              Ret (ptep, st) \<Rightarrow>
                (case ptep of
                   None \<Rightarrow> Some (Panic ''loaduvm: address should exist'')
                 | Some pte \<Rightarrow>
                     (let pa = PTE_ADDR (read4 (kbytes st) pte);
                          k = (if n - i < PGSIZE then n - i else PGSIZE)
                      in case readi (p2v pa) (offset + i) k st of
                           Ret (r, st) \<Rightarrow>
                             if r \<noteq> k then Some (Ret (-1, st))
                             else loaduvm_loop readi c pgdir addr offset n (i + PGSIZE) st
                         | Panic e \<Rightarrow> Some (Panic e) | Fault \<Rightarrow> Some Fault | Hang \<Rightarrow> Some Hang))
            | Panic e \<Rightarrow> Some (Panic e) | Fault \<Rightarrow> Some Fault | Hang \<Rightarrow> Some Hang)
      else Some (Ret (0, st)))"

definition loaduvm :: "reader \<Rightarrow> nat \<Rightarrow> u32 \<Rightarrow> u32 \<Rightarrow> u32 \<Rightarrow> u32 \<Rightarrow> kmem \<Rightarrow> (int \<times> kmem) res" where
  "loaduvm readi c pgdir addr offset n st =
     (if addr mod PGSIZE \<noteq> 0 then Panic ''loaduvm: addr must be page aligned''
      else bindr (of_loop (loaduvm_loop readi c pgdir addr offset n 0 st)) (\<lambda>r. r))"

partial_function (option) deallocuvm_loop :: "u32 \<Rightarrow> nat \<Rightarrow> u32 \<Rightarrow> u32 \<Rightarrow> u32 \<Rightarrow> kmem \<Rightarrow> kmem res option" where
  "deallocuvm_loop kend c pgdir oldsz a st =
     (if a < oldsz
      then (case walkpgdir c pgdir a False st of
              Ret (ptep, st) \<Rightarrow>
                (case ptep of
                   None \<Rightarrow> deallocuvm_loop kend c pgdir oldsz (a + (NPTENTRIES - 1) * PGSIZE + PGSIZE) st
                 | Some pte \<Rightarrow>
                     if read4 (kbytes st) pte AND PTE_P \<noteq> 0
                     then (let pa = PTE_ADDR (read4 (kbytes st) pte)
                           in if pa = 0 then Some (Panic ''kfree'')
                              else (case kfree kend c (p2v pa) st of
                                      Ret st \<Rightarrow> deallocuvm_loop kend c pgdir oldsz (a + PGSIZE)
                                                  (st\<lparr>kbytes := store4 pte 0 (kbytes st)\<rparr>)
                                    | Panic e \<Rightarrow> Some (Panic e) | Fault \<Rightarrow> Some Fault | Hang \<Rightarrow> Some Hang))
                     else deallocuvm_loop kend c pgdir oldsz (a + PGSIZE) st)
            | Panic e \<Rightarrow> Some (Panic e) | Fault \<Rightarrow> Some Fault | Hang \<Rightarrow> Some Hang)
      else Some (Ret st))"

definition deallocuvm :: "u32 \<Rightarrow> nat \<Rightarrow> u32 \<Rightarrow> u32 \<Rightarrow> u32 \<Rightarrow> kmem \<Rightarrow> (u32 \<times> kmem) res" where
  "deallocuvm kend c pgdir oldsz newsz st =
     (if newsz \<ge> oldsz then Ret (oldsz, st)
      else bindr (of_loop (deallocuvm_loop kend c pgdir oldsz (PGROUNDUP newsz) st)) (\<lambda>r.
           bindr r (\<lambda>st. Ret (newsz, st))))"

partial_function (option) allocuvm_loop ::
    "u32 \<Rightarrow> nat \<Rightarrow> u32 \<Rightarrow> u32 \<Rightarrow> u32 \<Rightarrow> u32 \<Rightarrow> kmem \<Rightarrow> (u32 \<times> kmem) res option" where
  "allocuvm_loop kend c pgdir oldsz newsz a st =
     (if a < newsz
      then (case kalloc c st of
              Ret (mm, st) \<Rightarrow>
                if mm = 0
                then Some (bindr (deallocuvm kend c pgdir newsz oldsz st) (\<lambda>(_, st). Ret (0, st)))
                else (case mappages c pgdir a PGSIZE (v2p mm) (PTE_W OR PTE_U)
                             (st\<lparr>kbytes := memset mm 0 PGSIZE (kbytes st)\<rparr>) of
                        Ret (_, st) \<Rightarrow> allocuvm_loop kend c pgdir oldsz newsz (a + PGSIZE) st
                      | Panic e \<Rightarrow> Some (Panic e) | Fault \<Rightarrow> Some Fault | Hang \<Rightarrow> Some Hang)
            | Panic e \<Rightarrow> Some (Panic e) | Fault \<Rightarrow> Some Fault | Hang \<Rightarrow> Some Hang)
      else Some (Ret (newsz, st)))"

definition allocuvm :: "u32 \<Rightarrow> nat \<Rightarrow> u32 \<Rightarrow> u32 \<Rightarrow> u32 \<Rightarrow> kmem \<Rightarrow> (u32 \<times> kmem) res" where
  "allocuvm kend c pgdir oldsz newsz st =
     (if newsz \<ge> KERNBASE then Ret (0, st)
      else if newsz < oldsz then Ret (oldsz, st)
      else bindr (of_loop (allocuvm_loop kend c pgdir oldsz newsz (PGROUNDUP oldsz) st)) (\<lambda>r. r))"

fun freevm_tables :: "u32 \<Rightarrow> nat \<Rightarrow> u32 \<Rightarrow> nat list \<Rightarrow> kmem \<Rightarrow> kmem res" where
  "freevm_tables kend c pgdir [] st = Ret st"
| "freevm_tables kend c pgdir (i # is) st =
     (let pde = read4 (kbytes st) (pgdir + 4 * of_nat i)
      in bindr (if pde AND PTE_P \<noteq> 0 then kfree kend c (p2v (PTE_ADDR pde)) st else Ret st)
           (freevm_tables kend c pgdir is))"

definition freevm :: "u32 \<Rightarrow> nat \<Rightarrow> u32 \<Rightarrow> kmem \<Rightarrow> kmem res" where
  "freevm kend c pgdir st =
     (if pgdir = 0 then Panic ''freevm: no pgdir''
      else bindr (deallocuvm kend c pgdir KERNBASE 0 st) (\<lambda>(_, st).
           bindr (freevm_tables kend c pgdir [0..<NPDENTRIES] st) (kfree kend c pgdir)))"

definition clearpteu :: "nat \<Rightarrow> u32 \<Rightarrow> u32 \<Rightarrow> kmem \<Rightarrow> kmem res" where
  "clearpteu c pgdir uva st =
     bindr (walkpgdir c pgdir uva False st) (\<lambda>(ptep, st).
     case ptep of
       None \<Rightarrow> Panic ''clearpteu''
     | Some pte \<Rightarrow> Ret (st\<lparr>kbytes := store4 pte (read4 (kbytes st) pte AND NOT PTE_U) (kbytes st)\<rparr>))"

partial_function (option) copyuvm_loop ::
    "u32 \<Rightarrow> nat \<Rightarrow> u32 \<Rightarrow> u32 \<Rightarrow> u32 \<Rightarrow> u32 \<Rightarrow> kmem \<Rightarrow> (u32 \<times> kmem) res option" where
  "copyuvm_loop kend c pgdir d n i st =
     (if i < n
      then (case walkpgdir c pgdir i False st of
              Ret (ptep, st) \<Rightarrow>
                (case ptep of
                   None \<Rightarrow> Some (Panic ''copyuvm: pte should exist'')
                 | Some pte \<Rightarrow>
                     (let e = read4 (kbytes st) pte
                      in if e AND PTE_P = 0 then Some (Panic ''copyuvm: page not present'')
                         else (case kalloc c st of
                                 Ret (mm, st) \<Rightarrow>
                                   if mm = 0
                                   then Some (bindr (freevm kend c d st) (\<lambda>st. Ret (0, st)))
                                   else (case mappages c d i PGSIZE (v2p mm) (PTE_FLAGS e)
                                                (st\<lparr>kbytes := memmove mm (p2v (PTE_ADDR e)) PGSIZE (kbytes st)\<rparr>) of
                                           Ret (rc, st) \<Rightarrow>
                                             if rc < 0
                                             then Some (bindr (freevm kend c d st) (\<lambda>st. Ret (0, st)))
                                             else copyuvm_loop kend c pgdir d n (i + PGSIZE) st
                                         | Panic e \<Rightarrow> Some (Panic e) | Fault \<Rightarrow> Some Fault | Hang \<Rightarrow> Some Hang)
                               | Panic e \<Rightarrow> Some (Panic e) | Fault \<Rightarrow> Some Fault | Hang \<Rightarrow> Some Hang)))
            | Panic e \<Rightarrow> Some (Panic e) | Fault \<Rightarrow> Some Fault | Hang \<Rightarrow> Some Hang)
      else Some (Ret (d, st)))"

definition copyuvm :: "u32 \<Rightarrow> u32 \<Rightarrow> nat \<Rightarrow> u32 \<Rightarrow> u32 \<Rightarrow> kmem \<Rightarrow> (u32 \<times> kmem) res" where
  "copyuvm kdata kend c pgdir n st =
     bindr (setupkvm kdata c st) (\<lambda>(d, st).
     if d = 0 then Ret (0, st)
     else bindr (of_loop (copyuvm_loop kend c pgdir d n 0 st)) (\<lambda>r. r))"

definition uva2ka :: "nat \<Rightarrow> u32 \<Rightarrow> u32 \<Rightarrow> kmem \<Rightarrow> u32 res" where
  "uva2ka c pgdir uva st =
     bindr (walkpgdir c pgdir uva False st) (\<lambda>(ptep, st).
     bindr (deref ptep) (\<lambda>pte.
     (let e = read4 (kbytes st) pte
      in if e AND PTE_P = 0 then Ret 0
         else if e AND PTE_U = 0 then Ret 0
         else Ret (p2v (PTE_ADDR e)))))"

partial_function (option) copyout_loop :: "nat \<Rightarrow> u32 \<Rightarrow> u32 \<Rightarrow> u32 \<Rightarrow> u32 \<Rightarrow> kmem \<Rightarrow> (int \<times> kmem) res option" where
  "copyout_loop c pgdir va buf len st =
     (if len > 0
      then (let va0 = PGROUNDDOWN va
            in case uva2ka c pgdir va0 st of
                 Ret pa0 \<Rightarrow>
                   if pa0 = 0 then Some (Ret (-1, st))
                   else (let n = (if PGSIZE - (va - va0) > len then len else PGSIZE - (va - va0))
                         in copyout_loop c pgdir (va0 + PGSIZE) (buf + n) (len - n)
                              (st\<lparr>kbytes := memmove (pa0 + (va - va0)) buf n (kbytes st)\<rparr>))
               | Panic e \<Rightarrow> Some (Panic e) | Fault \<Rightarrow> Some Fault | Hang \<Rightarrow> Some Hang)
      else Some (Ret (0, st)))"

definition copyout :: "nat \<Rightarrow> u32 \<Rightarrow> u32 \<Rightarrow> u32 \<Rightarrow> u32 \<Rightarrow> kmem \<Rightarrow> (int \<times> kmem) res" where
  "copyout c pgdir va p len st = bindr (of_loop (copyout_loop c pgdir va p len st)) (\<lambda>r. r)"

end
