(* ===== verification/Vmspec.thy ===== *)
theory Vmspec
  imports Vm
begin

text \<open>
  What page tables mean: \<open>translate\<close> reads the entry of an address, \<open>ptinv\<close> says that the directory
  and its tables are distinct pages outside the free list, and \<open>mappages\<close> changes exactly the
  translations it is asked to.
\<close>

section \<open>Indices\<close>

lemma PDX_less: "unat (PDX va) < 1024" and PTX_less: "unat (PTX va) < 1024"
proof -
  have "a AND 0x3FF = a mod 1024" for a :: u32
    using take_bit_eq_mod [of 10 a] take_bit_eq_mask [of 10 a] by (simp add: mask_eq_exp_minus_1)
  then show "unat (PDX va) < 1024" "unat (PTX va) < 1024" by (simp_all add: PDX_def PTX_def unat_mod_distrib)
qed

lemma idx_bits: "PDX va = take_bit 10 (drop_bit 22 va)" "PTX va = take_bit 10 (drop_bit 12 va)"
    "pg va = va AND NOT (mask 12)"
  by (simp_all add: PDX_def PTX_def pg_def take_bit_eq_mask mask_eq_exp_minus_1)

lemma pg_idx: "pg va = push_bit 22 (PDX va) OR push_bit 12 (PTX va)"
proof (rule bit_word_eqI)
  fix n assume n: "n < LENGTH(32)"
  then consider "n < 12" | "12 \<le> n" "n < 22" | "22 \<le> n" "n < 32" by fastforce
  then show "bit (pg va) n = bit (push_bit 22 (PDX va) OR push_bit 12 (PTX va)) n"
    by cases (auto simp: idx_bits bit_simps)
qed

lemma idx_pg: "PDX (pg va) = PDX va" "PTX (pg va) = PTX va"
  unfolding idx_bits by (rule bit_word_eqI; auto simp: bit_simps)+

lemma idx_iff: "PDX va = PDX va' \<and> PTX va = PTX va' \<longleftrightarrow> pg va = pg va'"
  by (metis pg_idx idx_pg)

section \<open>Slots of a table\<close>

lemma slot_eq: "unat x < 1024 \<Longrightarrow> t + 4 * x = t + of_nat (4 * unat x)" for x t :: u32
  by simp

lemma slot_pg: "pg t = t \<Longrightarrow> unat x < 1024 \<Longrightarrow> pg (t + 4 * x) = t"
  using pg_off(1) [of t "4 * unat x"] by simp

lemma slot_al4: "pg t = t \<Longrightarrow> unat x < 1024 \<Longrightarrow> al4 (t + 4 * x)"
proof -
  assume h: "pg t = t" "unat x < 1024"
  then have "unat (t + 4 * x) = unat t + 4 * unat x" using pg_off(2) [of t "4 * unat x"] by simp
  moreover have "al4 t" using h(1) by (rule pg_is_al4)
  ultimately show "al4 (t + 4 * x)" by simp
qed

lemma slot_inj: "unat x < 1024 \<Longrightarrow> unat y < 1024 \<Longrightarrow> t + 4 * x = t + 4 * y \<longleftrightarrow> x = y" for x y t :: u32
  using off_eq_iff [of "4 * unat x" "4 * unat y" t] by (auto simp: word_unat_eq_iff)

lemma pg_v2p: "pg p = p \<Longrightarrow> pg (v2p p) = v2p p" and pg_p2v: "pg p = p \<Longrightarrow> pg (p2v p) = p2v p"
proof -
  have m: "(x + 0x80000000) mod 4096 = x mod 4096" for x :: u32
  proof -
    have "unat ((x + 0x80000000) mod 4096) = unat (x mod 4096)"
      by (simp add: unat_mod_distrib unat_word_ariths mod_mod_cancel) 
        (simp add: mod_add_eq [symmetric])
    then show ?thesis by (simp add: word_unat_eq_iff)
  qed
  show "pg p = p \<Longrightarrow> pg (v2p p) = v2p p" using m [of p] m [of "p - 0x80000000"] by (simp add: pg_diff v2p_def KERNBASE_def)
  show "pg p = p \<Longrightarrow> pg (p2v p) = p2v p" using m [of p] by (simp add: pg_diff p2v_def KERNBASE_def)
qed

section \<open>Meaning and invariant\<close>

definition pde :: "mem8 \<Rightarrow> u32 \<Rightarrow> u32 \<Rightarrow> u32" where
  "pde m d x = read4 m (d + 4 * x)"

definition tab :: "mem8 \<Rightarrow> u32 \<Rightarrow> u32 \<Rightarrow> u32" where
  "tab m d x = p2v (PTE_ADDR (pde m d x))"

definition present :: "mem8 \<Rightarrow> u32 \<Rightarrow> u32 \<Rightarrow> bool" where
  "present m d x \<longleftrightarrow> unat x < 1024 \<and> pde m d x AND PTE_P \<noteq> 0"

text \<open>The page table entry of an address, \<open>0\<close> if there is none.\<close>

definition translate :: "mem8 \<Rightarrow> u32 \<Rightarrow> u32 \<Rightarrow> u32" where
  "translate m d va = (if present m d (PDX va) then read4 m (tab m d (PDX va) + 4 * PTX va) else 0)"

definition ptinv :: "u32 \<Rightarrow> mem8 \<Rightarrow> u32 \<Rightarrow> u32 list \<Rightarrow> bool" where
  "ptinv kend m d F \<longleftrightarrow>
     kpage kend d \<and> d \<notin> set F
   \<and> (\<forall>x. present m d x \<longrightarrow> kpage kend (tab m d x) \<and> tab m d x \<notin> set F \<and> tab m d x \<noteq> d)
   \<and> (\<forall>x y. present m d x \<and> present m d y \<and> tab m d x = tab m d y \<longrightarrow> x = y)"

lemma kpage_pg: "kpage kend p \<Longrightarrow> pg p = p"
  by (simp add: kpage_def)

lemma pde_only:
  assumes "only_page v m m'" and "pg d = d" and "v \<noteq> d" and "unat x < 1024"
  shows "pde m' d x = pde m d x"
  using assms by (simp add: pde_def read4_only slot_al4 slot_pg)

lemma present_only: "only_page v m m' \<Longrightarrow> pg d = d \<Longrightarrow> v \<noteq> d \<Longrightarrow> present m' d x = present m d x"
  by (auto simp: present_def pde_only)

lemma tab_only: "only_page v m m' \<Longrightarrow> pg d = d \<Longrightarrow> v \<noteq> d \<Longrightarrow> unat x < 1024 \<Longrightarrow> tab m' d x = tab m d x"
  by (simp add: tab_def pde_only)

lemma ptinv_dir: "ptinv kend m d F \<Longrightarrow> kpage kend d" "ptinv kend m d F \<Longrightarrow> pg d = d" "ptinv kend m d F \<Longrightarrow> d \<notin> set F"
  by (auto simp: ptinv_def kpage_def)

lemma ptinv_tab:
  assumes "ptinv kend m d F" and "present m d x"
  shows "kpage kend (tab m d x)" "pg (tab m d x) = tab m d x" "tab m d x \<notin> set F" "tab m d x \<noteq> d"
  using assms by (auto simp: ptinv_def kpage_def)

lemma ptinv_only:
  assumes "ptinv kend m d F" and "only_page v m m'" and "v \<noteq> d"
  shows "ptinv kend m' d F"
proof -
  have d: "pg d = d" by (rule ptinv_dir [OF assms(1)])
  have "present m' d x = present m d x" for x by (rule present_only [OF assms(2) d assms(3)])
  moreover have "present m d x \<Longrightarrow> tab m' d x = tab m d x" for x
    using tab_only [OF assms(2) d assms(3)] by (simp add: present_def)
  ultimately show ?thesis using assms(1) unfolding ptinv_def by metis
qed

lemma kinv_only:
  assumes "kinv kend st F" and "only_page v (kbytes st) m'" and "v \<notin> set F"
  shows "kinv kend (st\<lparr>kbytes := m'\<rparr>) F"
proof -
  have "knext m' p = knext (kbytes st) p" if "p \<in> set F" for p
    using that assms(3) kinv_page [OF assms(1) that] by (intro knext_only [OF assms(2)]) (auto simp: kpage_def)
  then show ?thesis using assms(1) chain_cong [of F "knext m'" "knext (kbytes st)"] by (auto simp: kinv_def)
qed

text \<open>Writing one entry.\<close>

lemma set_pte:
  fixes w :: u32
  assumes "ptinv kend m d F" and "present m d (PDX va)"
  defines "m' \<equiv> store4 (tab m d (PDX va) + 4 * PTX va) w m"
  shows "only_page (tab m d (PDX va)) m m'" and "ptinv kend m' d F"
    and "translate m' d va' = (if pg va' = pg va then w else translate m d va')"
    and "present m' d x = present m d x"
proof -
  let ?t = "tab m d (PDX va)"
  have t: "kpage kend ?t" "?t \<noteq> d" "pg ?t = ?t" and d: "pg d = d"
    using ptinv_tab [OF assms(1,2)] ptinv_dir [OF assms(1)] by simp_all
  show o: "only_page ?t m m'"
    using only_page_store4 [OF slot_al4 [OF t(3) PTX_less]] slot_pg [OF t(3) PTX_less] by (simp add: m'_def)
  show "ptinv kend m' d F" by (rule ptinv_only [OF assms(1) o t(2)])
  show "present m' d x = present m d x" by (rule present_only [OF o d t(2)])
  have p: "present m' d (PDX va') = present m d (PDX va')" by (rule present_only [OF o d t(2)])
  have tb: "tab m' d (PDX va') = tab m d (PDX va')" by (rule tab_only [OF o d t(2) PDX_less])
  show "translate m' d va' = (if pg va' = pg va then w else translate m d va')"
  proof (cases "present m d (PDX va')")
    case True
    let ?t' = "tab m d (PDX va')"
    have t': "pg ?t' = ?t'" by (rule ptinv_tab [OF assms(1) True])
    have "read4 m' (?t' + 4 * PTX va') = (if pg va' = pg va then w else read4 m (?t' + 4 * PTX va'))"
    proof (cases "PDX va' = PDX va")
      case True
      then show ?thesis
        using slot_inj [OF PTX_less PTX_less, of ?t va va'] idx_iff [of va va'] slot_al4 [OF t(3) PTX_less]
        by (auto simp: m'_def read4_store4_other)
    next
      case False
      then have "?t' \<noteq> ?t" using assms(1,2) True unfolding ptinv_def by metis
      then show ?thesis using False idx_iff [of va va'] read4_only [OF o slot_al4 [OF t' PTX_less]] slot_pg [OF t' PTX_less] by metis
    qed
    then show ?thesis using True p tb by (simp add: translate_def)
  next
    case False
    moreover from this assms(2) have "pg va' \<noteq> pg va" using idx_iff [of va va'] by metis
    ultimately show ?thesis using p by (simp add: translate_def)
  qed
qed

section \<open>walkpgdir\<close>

lemma walk_old:
  "present (kbytes st) d (PDX va) \<Longrightarrow>
   walkpgdir c d va al st = Ret (Some (tab (kbytes st) d (PDX va) + 4 * PTX va), st)"
  by (simp add: walkpgdir_def present_def pde_def tab_def)

lemma walk_absent: "\<not> present (kbytes st) d (PDX va) \<Longrightarrow> walkpgdir c d va False st = Ret (None, st)"
  by (simp add: walkpgdir_def present_def pde_def PDX_less)

lemma new_pde:
  assumes "pg p = p"
  shows "(v2p p OR PTE_P OR PTE_W OR PTE_U) AND PTE_P \<noteq> 0"
    and "p2v (PTE_ADDR (v2p p OR PTE_P OR PTE_W OR PTE_U)) = p"
proof -
  have "bit (v2p p OR PTE_P OR PTE_W OR PTE_U) 0" by (simp add: bit_or_iff PTE_P_def)
  then show "(v2p p OR PTE_P OR PTE_W OR PTE_U) AND PTE_P \<noteq> 0" by (simp add: PTE_P_def and_one_eq odd_iff_mod_2_eq_one bit_0)
  have "pg (v2p p OR PTE_P OR PTE_W OR PTE_U) = pg (v2p p) OR pg (PTE_P OR PTE_W OR PTE_U)"
    by (simp add: pg_def bit.conj_disj_distrib2)
  also have "pg (PTE_P OR PTE_W OR PTE_U) = 0" by (simp add: pg_def PTE_P_def PTE_W_def PTE_U_def)
  finally show "p2v (PTE_ADDR (v2p p OR PTE_P OR PTE_W OR PTE_U)) = p"
    using pg_v2p [OF assms] by (simp add: pg_eqs)
qed

lemma new_table:
  fixes va :: u32
  assumes "ptinv kend m d (p # F)" and "kpage kend p" and "p \<notin> set F" and "\<not> present m d (PDX va)"
  defines "m' \<equiv> store4 (d + 4 * PDX va) (v2p p OR PTE_P OR PTE_W OR PTE_U) (memset p 0 PGSIZE m)"
  shows "present m' d x \<longleftrightarrow> present m d x \<or> x = PDX va"
    and "tab m' d (PDX va) = p"
    and "present m d x \<Longrightarrow> tab m' d x = tab m d x"
    and "pg a \<noteq> p \<Longrightarrow> pg a \<noteq> d \<Longrightarrow> m' a = m a"
    and "unat y < 1024 \<Longrightarrow> read4 m' (p + 4 * y) = 0"
proof -
  let ?m1 = "memset p 0 PGSIZE m" and ?w = "v2p p OR PTE_P OR PTE_W OR PTE_U"
  have d: "pg d = d" "p \<noteq> d" and p: "pg p = p" using ptinv_dir [OF assms(1)] assms(2) by (auto simp: kpage_def)
  have o1: "only_page p m ?m1" by (rule only_page_memset [OF p])
  have o2: "only_page d ?m1 m'"
    using only_page_store4 [OF slot_al4 [OF d(1) PDX_less]] slot_pg [OF d(1) PDX_less] by (simp add: m'_def)
  have e: "pde m' d x = (if x = PDX va then ?w else pde m d x)" if "unat x < 1024" for x
    using that pde_only [OF o1 d(1,2), of x] slot_inj [OF PDX_less that, of d va] slot_al4 [OF d(1)] PDX_less
    by (auto simp: pde_def m'_def read4_store4_other)
  show "present m' d x \<longleftrightarrow> present m d x \<or> x = PDX va"
    using e [of x] new_pde(1) [OF p] PDX_less by (auto simp: present_def split: if_splits)
  show "tab m' d (PDX va) = p" using e [of "PDX va"] new_pde(2) [OF p] PDX_less by (simp add: tab_def)
  show "present m d x \<Longrightarrow> tab m' d x = tab m d x" using e [of x] assms(4) by (auto simp: tab_def present_def)
  show "pg a \<noteq> p \<Longrightarrow> pg a \<noteq> d \<Longrightarrow> m' a = m a" using only_page_at [OF o1] only_page_at [OF o2] by metis
  show "unat y < 1024 \<Longrightarrow> read4 m' (p + 4 * y) = 0"
    using read4_only [OF o2 slot_al4 [OF p]] slot_pg [OF p] d(2) read4_memset0 [OF p slot_al4 [OF p] slot_pg [OF p]] by metis
qed

lemma walk_alloc:
  assumes "kinv kend st F" and "ptinv kend (kbytes st) d F"
  obtains (old) "present (kbytes st) d (PDX va)"
      and "walkpgdir c d va True st = Ret (Some (tab (kbytes st) d (PDX va) + 4 * PTX va), st)"
    | (out) st' where "F = []" and "walkpgdir c d va True st = Ret (None, st')" and "kinv kend st' []" and "kbytes st' = kbytes st"
      and "\<not> present (kbytes st) d (PDX va)"
    | (new) st' p F' where "F = p # F'" and "walkpgdir c d va True st = Ret (Some (tab (kbytes st') d (PDX va) + 4 * PTX va), st')"
      and "kinv kend st' F'" and "ptinv kend (kbytes st') d F'" and "\<not> present (kbytes st) d (PDX va)"
      and "\<And>x. present (kbytes st') d x \<longleftrightarrow> present (kbytes st) d x \<or> x = PDX va"
      and "\<And>va'. translate (kbytes st') d va' = translate (kbytes st) d va'"
proof (cases "present (kbytes st) d (PDX va)")
  case True
  then show thesis using old walk_old by blast
next
  case False
  then have w: "walkpgdir c d va True st = bindr (kalloc c st) (\<lambda>(pgtab, st).
              if pgtab = 0 then Ret (None, st)
              else (let st = st\<lparr>kbytes := memset pgtab 0 PGSIZE (kbytes st)\<rparr>;
                        st = st\<lparr>kbytes := store4 (d + 4 * PDX va) (v2p pgtab OR PTE_P OR PTE_W OR PTE_U) (kbytes st)\<rparr>
                    in Ret (Some (pgtab + 4 * PTX va), st)))"
    by (simp add: walkpgdir_def present_def pde_def PDX_less)
  show thesis
  proof (cases F)
    case Nil
    then show thesis using out kalloc_nil [of kend st c] assms(1) w False by auto
  next
    case (Cons p F')
    obtain st1 where s1: "kalloc c st = Ret (p, st1)" "kinv kend st1 F'" "kbytes st1 = kbytes st"
      using kalloc_cons assms(1) Cons by blast
    have p: "kpage kend p" "p \<notin> set F'" "p \<noteq> 0" using kinv_page [OF assms(1)] kinv_distinct [OF assms(1)] Cons kpage_nonzero by auto
    let ?m = "kbytes st"
    let ?m' = "store4 (d + 4 * PDX va) (v2p p OR PTE_P OR PTE_W OR PTE_U) (memset p 0 PGSIZE ?m)"
    note nt = new_table [OF assms(2) [unfolded Cons] p(1,2) False]
    have dF: "d \<notin> set F'" "d \<noteq> p" using ptinv_dir(3) [OF assms(2)] Cons by auto
    have tp: "tab ?m d x \<noteq> p" if "present ?m d x" for x using ptinv_tab(3) [OF assms(2) that] Cons by auto
    have pt: "ptinv kend ?m' d F'"
      using assms(2) nt(1-3) p dF tp False unfolding ptinv_def Cons by (metis list.set_intros(2))
    have tr: "translate ?m' d va' = translate ?m d va'" for va'
    proof (cases "present ?m d (PDX va')")
      case True
      have t: "pg (tab ?m d (PDX va')) = tab ?m d (PDX va')" "tab ?m d (PDX va') \<noteq> d" "tab ?m d (PDX va') \<noteq> p"
        using ptinv_tab [OF assms(2) True] tp [OF True] by simp_all
      have "read4 ?m' (tab ?m d (PDX va') + 4 * PTX va') = read4 ?m (tab ?m d (PDX va') + 4 * PTX va')"
        by (rule read4_cong, rule nt(4)) (simp_all add: pg_al4 slot_al4 slot_pg t PTX_less)
      then show ?thesis using True nt(1) [of "PDX va'"] nt(3) [OF True] by (simp add: translate_def)
    next
      case False
      then show ?thesis using nt(1) [of "PDX va'"] nt(2) nt(5) [OF PTX_less] by (auto simp: translate_def)
    qed
    let ?st2 = "st1\<lparr>kbytes := ?m'\<rparr>"
    have k2: "kinv kend ?st2 F'"
    proof -
      have a: "al4 (d + 4 * PDX va)" "pg (d + 4 * PDX va) = d"
        using slot_al4 slot_pg ptinv_dir(2) [OF assms(2)] PDX_less by blast+
      have "kinv kend (st1\<lparr>kbytes := memset p 0 PGSIZE ?m\<rparr>) F'"
        using kinv_only [OF s1(2) _ p(2)] only_page_memset [OF kpage_pg [OF p(1)]] s1(3) by simp
      from kinv_only [OF this _ dF(1), of ?m'] only_page_store4 [OF a(1)] a(2) show ?thesis by simp
    qed
    have "walkpgdir c d va True st = Ret (Some (tab (kbytes ?st2) d (PDX va) + 4 * PTX va), ?st2)"
      using w s1 p(3) nt(2) by (simp add: Let_def)
    then show thesis using new [of p F' ?st2] Cons k2 pt tr nt(1) False by simp
  qed
qed

section \<open>mappages\<close>

text \<open>The \<open>i\<close>-th page from \<open>a\<close>.\<close>

definition nth_page :: "u32 \<Rightarrow> nat \<Rightarrow> u32" where
  "nth_page a i = a + of_nat (4096 * i)"

lemma nth_page_0 [simp]: "nth_page a 0 = a"
  by (simp add: nth_page_def)

lemma nth_page_Suc: "nth_page a (Suc i) = nth_page (a + PGSIZE) i"
  by (simp add: nth_page_def PGSIZE_def algebra_simps)

lemma nth_page_pg:
  assumes "pg a = a" and "unat a + 4096 * i < 2 ^ 32"
  shows "pg (nth_page a i) = nth_page a i" and "unat (nth_page a i) = unat a + 4096 * i"
proof -
  show u: "unat (nth_page a i) = unat a + 4096 * i" unfolding nth_page_def using assms(2) by (rule unat_off)
  have "unat a mod 4096 = 0" using assms(1) by (simp only: pg_mod)
  then have "(unat a + 4096 * i) mod 4096 = 0" by (metis mod_add_self2 mod_mult_self2)
  then show "pg (nth_page a i) = nth_page a i" by (simp only: pg_mod u)
qed

text \<open>One turn of the loop maps one page, finds it mapped already, or fails for want of memory.\<close>

lemma map_one:
  assumes "kinv kend st F" and "ptinv kend (kbytes st) d F"
  obtains (out) st' where "walkpgdir c d va True st = Ret (None, st')" and "kinv kend st' []" and "F = []"
      and "kbytes st' = kbytes st" and "\<not> present (kbytes st) d (PDX va)"
    | (mapped) pte where "walkpgdir c d va True st = Ret (Some pte, st)" and "read4 (kbytes st) pte AND PTE_P \<noteq> 0"
      and "translate (kbytes st) d va AND PTE_P \<noteq> 0"
    | (ok) pte st1 F' where "walkpgdir c d va True st = Ret (Some pte, st1)" and "read4 (kbytes st1) pte AND PTE_P = 0"
      and "kinv kend (st1\<lparr>kbytes := store4 pte w (kbytes st1)\<rparr>) F'" and "ptinv kend (store4 pte w (kbytes st1)) d F'"
      and "\<And>va'. translate (store4 pte w (kbytes st1)) d va' = (if pg va' = pg va then w else translate (kbytes st) d va')"
      and "\<And>x. present (store4 pte w (kbytes st1)) d x \<longleftrightarrow> present (kbytes st) d x \<or> x = PDX va"
      and "length F = length F' + (if present (kbytes st) d (PDX va) then 0 else 1)" and "set F' \<subseteq> set F"
      and "translate (kbytes st) d va AND PTE_P = 0"
proof -
  have fin: thesis
    if k: "kinv kend s1 F1" "ptinv kend (kbytes s1) d F1"
      and p: "\<And>x. present (kbytes s1) d x \<longleftrightarrow> present (kbytes st) d x \<or> x = PDX va"
      and w: "walkpgdir c d va True st = Ret (Some (tab (kbytes s1) d (PDX va) + 4 * PTX va), s1)"
      and tr: "\<And>va'. translate (kbytes s1) d va' = translate (kbytes st) d va'"
      and F1: "length F = length F1 + (if present (kbytes st) d (PDX va) then 0 else 1)" "set F1 \<subseteq> set F"
      and z: "translate (kbytes st) d va AND PTE_P = 0" for s1 F1
  proof -
    have pv: "present (kbytes s1) d (PDX va)" using p by simp
    note sp = set_pte [OF k(2) pv, of w]
    have "read4 (kbytes s1) (tab (kbytes s1) d (PDX va) + 4 * PTX va) AND PTE_P = 0"
      using tr [of va] pv z by (simp add: translate_def)
    moreover have "kinv kend (s1\<lparr>kbytes := store4 (tab (kbytes s1) d (PDX va) + 4 * PTX va) w (kbytes s1)\<rparr>) F1"
      by (rule kinv_only [OF k(1) sp(1) ptinv_tab(3) [OF k(2) pv]])
    ultimately show thesis using ok [OF w _ _ sp(2)] sp(3,4) tr F1 p z by simp
  qed
  show thesis
  proof (rule walk_alloc [OF assms, of va c])
    assume p: "present (kbytes st) d (PDX va)"
      and w: "walkpgdir c d va True st = Ret (Some (tab (kbytes st) d (PDX va) + 4 * PTX va), st)"
    show thesis
    proof (cases "translate (kbytes st) d va AND PTE_P = 0")
      case True
      then show thesis using fin [of st F] assms p w by auto
    next
      case False
      then show thesis using mapped [OF w] p by (simp add: translate_def)
    qed
  next
    fix st' assume "F = []" "walkpgdir c d va True st = Ret (None, st')" "kinv kend st' []" "kbytes st' = kbytes st"
      "\<not> present (kbytes st) d (PDX va)"
    then show thesis using out by simp
  next
    fix st' p F' assume "F = p # F'"
      and "walkpgdir c d va True st = Ret (Some (tab (kbytes st') d (PDX va) + 4 * PTX va), st')"
      and "kinv kend st' F'" "ptinv kend (kbytes st') d F'" and np: "\<not> present (kbytes st) d (PDX va)"
      and "\<And>x. present (kbytes st') d x \<longleftrightarrow> present (kbytes st) d x \<or> x = PDX va"
      and "\<And>va'. translate (kbytes st') d va' = translate (kbytes st) d va'"
    moreover have "translate (kbytes st) d va = 0" using np by (simp add: translate_def)
    ultimately show thesis using fin [of st' F'] by auto
  qed
qed

text \<open>
  The effect of mapping the first \<open>k\<close> pages from \<open>a\<close> on: their translations, the others, and the
  tables there are.
\<close>

definition tables_of :: "u32 \<Rightarrow> nat \<Rightarrow> u32 set" where
  "tables_of a k = (\<lambda>i. PDX (nth_page a i)) ` {..<k}"

definition mapped_upto :: "mem8 \<Rightarrow> mem8 \<Rightarrow> u32 \<Rightarrow> u32 \<Rightarrow> u32 \<Rightarrow> u32 \<Rightarrow> nat \<Rightarrow> bool" where
  "mapped_upto m m' d a pa perm k \<longleftrightarrow>
     (\<forall>i<k. translate m' d (nth_page a i) = nth_page pa i OR perm OR PTE_P)
   \<and> (\<forall>va. (\<forall>i<k. pg va \<noteq> nth_page a i) \<longrightarrow> translate m' d va = translate m d va)
   \<and> (\<forall>x. present m' d x \<longleftrightarrow> present m d x \<or> x \<in> tables_of a k)"

text \<open>How many pages new tables for the first \<open>k\<close> pages take.\<close>

definition new_tables :: "mem8 \<Rightarrow> u32 \<Rightarrow> u32 \<Rightarrow> nat \<Rightarrow> nat" where
  "new_tables m d a k = card (tables_of a k - {x. present m d x})"

lemma tables_of_simps [simp]: "tables_of a 0 = {}" "finite (tables_of a k)"
  by (simp_all add: tables_of_def)

lemma tables_of_Suc: "tables_of a (Suc k) = insert (PDX a) (tables_of (a + PGSIZE) k)"
  by (simp add: tables_of_def lessThan_Suc_eq_insert_0 image_image nth_page_Suc)

lemma new_tables_Suc:
  assumes "\<And>x. present m' d x \<longleftrightarrow> present m d x \<or> x = PDX a"
  shows "new_tables m d a (Suc k) = new_tables m' d (a + PGSIZE) k + (if present m d (PDX a) then 0 else 1)"
proof -
  let ?T = "tables_of (a + PGSIZE) k" and ?P = "{x. present m d x}" and ?P' = "{x. present m' d x}"
  have P': "?P' = insert (PDX a) ?P" using assms by auto
  show ?thesis
  proof (cases "present m d (PDX a)")
    case True
    then have "tables_of a (Suc k) - ?P = ?T - ?P'" using P' by (auto simp: tables_of_Suc)
    then show ?thesis using True by (simp add: new_tables_def)
  next
    case False
    then have "tables_of a (Suc k) - ?P = insert (PDX a) (?T - ?P')" using P' by (auto simp: tables_of_Suc)
    then show ?thesis using False P' by (simp add: new_tables_def)
  qed
qed

lemma mapped_upto_Suc:
  assumes "mapped_upto m1 m' d (a + PGSIZE) (pa + PGSIZE) perm k" and "pg a = a"
    and "\<And>va. translate m1 d va = (if pg va = pg a then pa OR perm OR PTE_P else translate m d va)"
    and "\<And>x. present m1 d x \<longleftrightarrow> present m d x \<or> x = PDX a"
    and "\<And>i. i < k \<Longrightarrow> nth_page (a + PGSIZE) i \<noteq> a"
  shows "mapped_upto m m' d a pa perm (Suc k)"
proof -
  have i: "\<And>i. i < k \<Longrightarrow> translate m' d (nth_page (a + PGSIZE) i) = nth_page (pa + PGSIZE) i OR perm OR PTE_P"
    and o: "\<And>va. (\<forall>i<k. pg va \<noteq> nth_page (a + PGSIZE) i) \<Longrightarrow> translate m' d va = translate m1 d va"
    and p: "\<And>x. present m' d x \<longleftrightarrow> present m1 d x \<or> x \<in> tables_of (a + PGSIZE) k"
    using assms(1) unfolding mapped_upto_def by blast+
  have "translate m' d a = pa OR perm OR PTE_P"
    using o [of a] assms(2,3,5) by (metis (no_types))
  then have "translate m' d (nth_page a j) = nth_page pa j OR perm OR PTE_P" if "j < Suc k" for j
    using that i by (cases j) (simp_all add: nth_page_Suc)
  moreover have "translate m' d va = translate m d va" if v: "\<forall>j<Suc k. pg va \<noteq> nth_page a j" for va
  proof -
    have "\<forall>j<k. pg va \<noteq> nth_page (a + PGSIZE) j" using v by (metis Suc_mono nth_page_Suc)
    moreover have "pg va \<noteq> pg a" using v [rule_format, of 0] assms(2) by simp
    ultimately show ?thesis using o [of va] assms(3) by simp
  qed
  ultimately show ?thesis using p assms(4) by (auto simp: mapped_upto_def tables_of_Suc)
qed

text \<open>
  What a call that returns \<open>rc\<close> has done, for the pages \<open>0..n\<close> from \<open>a\<close> on: it has mapped the first
  \<open>k\<close> of them, all or up to one that needs a table when no page is free.
\<close>

definition map_outcome ::
    "u32 \<Rightarrow> kmem \<Rightarrow> u32 list \<Rightarrow> u32 \<Rightarrow> u32 \<Rightarrow> nat \<Rightarrow> u32 \<Rightarrow> u32 \<Rightarrow> int \<Rightarrow> kmem \<Rightarrow> u32 list \<Rightarrow> nat \<Rightarrow> bool" where
  "map_outcome kend st F d a n pa perm rc st' F' k \<longleftrightarrow>
     kinv kend st' F' \<and> ptinv kend (kbytes st') d F' \<and> set F' \<subseteq> set F
   \<and> length F = length F' + new_tables (kbytes st) d a k
   \<and> mapped_upto (kbytes st) (kbytes st') d a pa perm k
   \<and> (\<forall>i<k. translate (kbytes st) d (nth_page a i) AND PTE_P = 0)
   \<and> (rc = 0 \<and> k = Suc n \<or> rc = -1 \<and> k \<le> n \<and> F' = [] \<and> \<not> present (kbytes st') d (PDX (nth_page a k)))"

lemma mappages_loop_ok:
  assumes "kinv kend st F" and "ptinv kend (kbytes st) d F" and "pg a = a" and "unat a + 4096 * n < 2 ^ 32"
  shows "(\<exists>rc st' F' k. mappages_loop c d a (nth_page a n) pa perm st = Some (Ret (rc, st'))
            \<and> map_outcome kend st F d a n pa perm rc st' F' k)
       \<or> mappages_loop c d a (nth_page a n) pa perm st = Some (Panic ''remap'')
            \<and> (\<exists>i\<le>n. translate (kbytes st) d (nth_page a i) AND PTE_P \<noteq> 0)"
  using assms
proof (induction n arbitrary: a pa st F)
  case (0 a pa st F)
  show ?case
  proof (rule map_one [OF "0.prems"(1,2), where c = c and va = a and w = "pa OR perm OR PTE_P"])
    fix st' assume "walkpgdir c d a True st = Ret (None, st')" "kinv kend st' []" "F = []" "kbytes st' = kbytes st"
      "\<not> present (kbytes st) d (PDX a)"
    moreover from this have "map_outcome kend st F d a 0 pa perm (-1) st' [] 0"
      using "0.prems"(2) by (auto simp: map_outcome_def mapped_upto_def new_tables_def)
    moreover have "mappages_loop c d a (nth_page a 0) pa perm st = Some (Ret (-1, st'))"
      using calculation(1) by (subst mappages_loop.simps) simp
    ultimately show ?thesis by blast
  next
    fix pte assume "walkpgdir c d a True st = Ret (Some pte, st)" "read4 (kbytes st) pte AND PTE_P \<noteq> 0"
      "translate (kbytes st) d a AND PTE_P \<noteq> 0"
    then show ?thesis by (subst (1 2) mappages_loop.simps) simp
  next
    fix pte F' and st1 :: kmem
    let ?st = "st1\<lparr>kbytes := store4 pte (pa OR perm OR PTE_P) (kbytes st1)\<rparr>"
    assume w: "walkpgdir c d a True st = Ret (Some pte, st1)" "read4 (kbytes st1) pte AND PTE_P = 0"
      and r: "kinv kend ?st F'" "ptinv kend (store4 pte (pa OR perm OR PTE_P) (kbytes st1)) d F'"
        "\<And>va'. translate (store4 pte (pa OR perm OR PTE_P) (kbytes st1)) d va' = (if pg va' = pg a then pa OR perm OR PTE_P else translate (kbytes st) d va')"
      and p: "\<And>x. present (store4 pte (pa OR perm OR PTE_P) (kbytes st1)) d x \<longleftrightarrow> present (kbytes st) d x \<or> x = PDX a"
      and l: "length F = length F' + (if present (kbytes st) d (PDX a) then 0 else 1)" "set F' \<subseteq> set F"
      and z: "translate (kbytes st) d a AND PTE_P = 0"
    have "mappages_loop c d a (nth_page a 0) pa perm st = Some (Ret (0, ?st))"
      using w by (subst mappages_loop.simps) simp
    moreover have "length F = length F' + new_tables (kbytes st) d a (Suc 0)"
      using l(1) new_tables_Suc [OF p, of 0] by (simp add: new_tables_def)
    then have "map_outcome kend st F d a 0 pa perm 0 ?st F' (Suc 0)"
      using r p l(2) z "0.prems"(3) by (auto simp: map_outcome_def mapped_upto_def tables_of_Suc)
    ultimately show ?thesis by blast
  qed
next
  case (Suc n a pa st F)
  have pgs: "pg (nth_page a i) = nth_page a i" "unat (nth_page a i) = unat a + 4096 * i" if "i \<le> Suc n" for i
    using nth_page_pg [OF Suc.prems(3), of i] that Suc.prems(4) by simp_all
  have ne: "nth_page a i \<noteq> a" if "0 < i" "i \<le> Suc n" for i using pgs(2) [OF that(2)] that(1) by auto
  let ?w = "pa OR perm OR PTE_P"
  show ?case
  proof (rule map_one [OF Suc.prems(1,2), where c = c and va = a and w = ?w])
    fix st' assume "walkpgdir c d a True st = Ret (None, st')" "kinv kend st' []" "F = []" "kbytes st' = kbytes st"
      "\<not> present (kbytes st) d (PDX a)"
    moreover from this have "map_outcome kend st F d a (Suc n) pa perm (-1) st' [] 0"
      using Suc.prems(2) by (auto simp: map_outcome_def mapped_upto_def new_tables_def)
    moreover have "mappages_loop c d a (nth_page a (Suc n)) pa perm st = Some (Ret (-1, st'))"
      using calculation(1) by (subst mappages_loop.simps) simp
    ultimately show ?thesis by blast
  next
    fix pte assume "walkpgdir c d a True st = Ret (Some pte, st)" "read4 (kbytes st) pte AND PTE_P \<noteq> 0"
      and t: "translate (kbytes st) d a AND PTE_P \<noteq> 0"
    then have "mappages_loop c d a (nth_page a (Suc n)) pa perm st = Some (Panic ''remap'')"
      by (subst mappages_loop.simps) simp
    moreover have "\<exists>i\<le>Suc n. translate (kbytes st) d (nth_page a i) AND PTE_P \<noteq> 0" using t by (intro exI [of _ 0]) simp
    ultimately show ?thesis by blast
  next
    fix pte F' and st1 :: kmem
    let ?m = "store4 pte ?w (kbytes st1)"
    assume w: "walkpgdir c d a True st = Ret (Some pte, st1)" "read4 (kbytes st1) pte AND PTE_P = 0"
      and k: "kinv kend (st1\<lparr>kbytes := ?m\<rparr>) F'" and pt: "ptinv kend ?m d F'"
      and tr: "\<And>va'. translate ?m d va' = (if pg va' = pg a then ?w else translate (kbytes st) d va')"
      and pr: "\<And>x. present ?m d x \<longleftrightarrow> present (kbytes st) d x \<or> x = PDX a"
      and l: "length F = length F' + (if present (kbytes st) d (PDX a) then 0 else 1)" "set F' \<subseteq> set F"
      and z: "translate (kbytes st) d a AND PTE_P = 0"
    have a1: "pg (a + PGSIZE) = a + PGSIZE" "unat (a + PGSIZE) = unat a + 4096" using pgs [of "Suc 0"] by (simp_all add: nth_page_Suc)
    have old: "translate ?m d (nth_page (a + PGSIZE) i) = translate (kbytes st) d (nth_page a (Suc i))" if "i \<le> n" for i
      using tr [of "nth_page a (Suc i)"] ne [of "Suc i"] pgs(1) [of "Suc i"] Suc.prems(3) that nth_page_Suc [of a i] by auto
    have run: "mappages_loop c d a (nth_page a (Suc n)) pa perm st
        = mappages_loop c d (a + PGSIZE) (nth_page (a + PGSIZE) n) (pa + PGSIZE) perm (st1\<lparr>kbytes := ?m\<rparr>)"
      using w ne [of "Suc n"] nth_page_Suc [of a n] by (subst mappages_loop.simps) simp
    from Suc.IH [OF k _ a1(1), of "pa + PGSIZE"] pt a1(2) Suc.prems(4) consider
        (ret) rc st' F'' j where "mappages_loop c d (a + PGSIZE) (nth_page (a + PGSIZE) n) (pa + PGSIZE) perm (st1\<lparr>kbytes := ?m\<rparr>) = Some (Ret (rc, st'))"
          "map_outcome kend (st1\<lparr>kbytes := ?m\<rparr>) F' d (a + PGSIZE) n (pa + PGSIZE) perm rc st' F'' j"
      | (remap) i where "mappages_loop c d (a + PGSIZE) (nth_page (a + PGSIZE) n) (pa + PGSIZE) perm (st1\<lparr>kbytes := ?m\<rparr>) = Some (Panic ''remap'')"
          "i \<le> n" "translate ?m d (nth_page (a + PGSIZE) i) AND PTE_P \<noteq> 0"
      by auto
    then show ?thesis
    proof cases
      case ret
      then have o: "mapped_upto ?m (kbytes st') d (a + PGSIZE) (pa + PGSIZE) perm j" and jn: "j \<le> Suc n"
        and zs: "\<And>i. i < j \<Longrightarrow> translate ?m d (nth_page (a + PGSIZE) i) AND PTE_P = 0"
        by (auto simp: map_outcome_def)
      have "nth_page (a + PGSIZE) i \<noteq> a" if "i < j" for i using ne [of "Suc i"] that jn nth_page_Suc [of a i] by auto
      then have "mapped_upto (kbytes st) (kbytes st') d a pa perm (Suc j)"
        using mapped_upto_Suc [OF o Suc.prems(3) tr pr] by blast
      moreover have "translate (kbytes st) d (nth_page a i) AND PTE_P = 0" if "i < Suc j" for i
        using that z zs old jn by (cases i) auto
      moreover have "length F = length F'' + new_tables (kbytes st) d a (Suc j)"
        using ret(2) l(1) new_tables_Suc [OF pr, of j] by (simp add: map_outcome_def)
      ultimately have "map_outcome kend st F d a (Suc n) pa perm rc st' F'' (Suc j)"
        using ret(2) l(2) by (auto simp: map_outcome_def nth_page_Suc)
      then show ?thesis using ret(1) run by auto
    next
      case remap
      then show ?thesis using run old [of i] by (auto intro: exI [of _ "Suc i"])
    qed
  qed
qed

section \<open>Properties\<close>

lemma pg_div: "unat (pg a) = 4096 * (unat a div 4096)"
proof -
  have m: "unat (a mod 4096) = unat a mod 4096" by (simp add: unat_mod_distrib)
  then have "a mod 4096 \<le> a" by (simp add: word_le_nat_alt)
  from unat_sub [OF this] show ?thesis unfolding pg_diff m by (simp add: minus_mod_eq_mult_div)
qed

text \<open>The pages of a range: from that of its first to that of its last byte.\<close>

lemma range_pages:
  assumes "0 < n" and "unat va + n \<le> 2 ^ 32"
  defines "k \<equiv> (unat va + n - 1) div 4096 - unat va div 4096"
  shows "PGROUNDDOWN (va + of_nat n - 1) = nth_page (pg va) k" and "unat (pg va) + 4096 * k < 2 ^ 32"
proof -
  have le: "unat va div 4096 \<le> (unat va + n - 1) div 4096" using assms(1) by (intro div_le_mono) simp
  have "va + of_nat n - 1 = va + of_nat (n - 1)" using assms(1) by simp
  moreover have "unat (va + of_nat (n - 1)) = unat va + (n - 1)" using assms(1,2) by (intro unat_off) simp
  ultimately have u: "unat (va + of_nat n - 1) = unat va + n - 1" using assms(1) by presburger
  have k: "unat (pg va) + 4096 * k = 4096 * ((unat va + n - 1) div 4096)"
    using le by (simp add: pg_div k_def flip: distrib_left)
  then show "unat (pg va) + 4096 * k < 2 ^ 32" using assms(1,2) by linarith
  from nth_page_pg(2) [OF pg_idem this] have "unat (nth_page (pg va) k) = unat (pg (va + of_nat n - 1))"
    using k u by (simp add: pg_div)
  then show "PGROUNDDOWN (va + of_nat n - 1) = nth_page (pg va) k" by (simp add: pg_eqs word_unat_eq_iff)
qed

text \<open>
  C15: \<open>mappages\<close> maps what it is asked to. For any range of \<open>n > 0\<close> bytes that does not wrap around,
  aligned or not, with a right free list and right tables: it panics only if a page of the range is
  mapped already; otherwise it returns \<open>0\<close> with every page of the range mapped to its own physical
  page with the permissions given, or \<open>-1\<close> with the first pages of the range mapped, up to one that
  needs a table when no page is free. No other translation changes in either case, the free list
  loses exactly the pages of the new tables, and the tables and the free list are right.
\<close>

theorem mappages_maps:
  assumes "kinv kend st F" and "ptinv kend (kbytes st) d F" and "0 < n" and "unat va + n \<le> 2 ^ 32"
  defines "lst \<equiv> (unat va + n - 1) div 4096 - unat va div 4096"
  shows "(\<exists>rc st' F' k. mappages c d va (of_nat n) pa perm st = Ret (rc, st')
            \<and> map_outcome kend st F d (pg va) lst pa perm rc st' F' k)
       \<or> mappages c d va (of_nat n) pa perm st = Panic ''remap''
            \<and> (\<exists>i\<le>lst. translate (kbytes st) d (nth_page (pg va) i) AND PTE_P \<noteq> 0)"
  using mappages_loop_ok [OF assms(1,2) pg_idem, of va lst c pa perm] range_pages [OF assms(3,4)]
  by (auto simp: mappages_def pg_eqs lst_def)

text \<open>A machine with one free page and an empty page directory.\<close>

lemma vm_demo:
  obtains st where "kinv 0x80200000 st [0x80401000]" and "ptinv 0x80200000 (kbytes st) 0x80400000 [0x80401000]"
    and "\<And>va. translate (kbytes st) 0x80400000 va = 0" and "\<And>x. \<not> present (kbytes st) 0x80400000 x"
proof -
  let ?d = "0x80400000 :: u32" and ?p = "0x80401000 :: u32"
  have kd: "kpage 0x80200000 ?d" "kpage 0x80200000 ?p"
    by (auto intro!: kpage_at simp: v2p_def KERNBASE_def PHYSTOP_def)
  obtain st where k: "kinv 0x80200000 st [?p]" and o: "only_page ?p (kbytes kmem0) (kbytes st)"
    using kfree_ok [OF kinv_kmem0 kd(2), of 0] by auto
  have "pde (kbytes st) ?d x = 0" if "unat x < 1024" for x
    using pde_only [OF o kpage_pg [OF kd(1)] _ that] by (simp add: pde_def kmem0_def read4_def)
  then have np: "\<not> present (kbytes st) ?d x" for x by (auto simp: present_def)
  then have "ptinv 0x80200000 (kbytes st) ?d [?p]" using kd(1) by (simp add: ptinv_def)
  then show thesis using that k np by (simp add: translate_def)
qed

theorem mappages_maps_witness:
  "\<exists>st st'. mappages 0 0x80400000 0x1234 0x1000 0x500000 PTE_U st = Ret (0, st')
     \<and> translate (kbytes st') 0x80400000 0x1000 = 0x500005 \<and> translate (kbytes st') 0x80400000 0x2000 = 0x501005"
proof -
  let ?d = "0x80400000 :: u32"
  obtain st where k: "kinv 0x80200000 st [0x80401000]" "ptinv 0x80200000 (kbytes st) ?d [0x80401000]"
    and t: "\<And>va. translate (kbytes st) ?d va = 0" and np: "\<And>x. \<not> present (kbytes st) ?d x"
    by (rule vm_demo, rule that)
  have h: "pg 0x1234 = 0x1000" "PDX 0x1000 = 0" "PDX 0x2000 = 0" by (simp_all add: pg_def PDX_def)
  have nth: "nth_page 0x1000 0 = 0x1000" "nth_page 0x1000 (Suc 0) = 0x2000" by (simp_all add: nth_page_def)
  from mappages_maps [OF k, where c = 0 and va = "0x1234" and n = 4096 and pa = "0x500000" and perm = PTE_U]
  obtain rc st' F' j where e: "mappages 0 ?d 0x1234 0x1000 0x500000 PTE_U st = Ret (rc, st')"
    and o: "map_outcome 0x80200000 st [0x80401000] ?d 0x1000 1 0x500000 PTE_U rc st' F' j"
    using t h(1) by auto
  have "rc = 0 \<and> j = 2"
  proof (rule ccontr)
    assume "\<not> (rc = 0 \<and> j = 2)"
    with o have j: "j \<le> 1" "F' = []" "\<not> present (kbytes st') ?d (PDX (nth_page 0x1000 j))" by (auto simp: map_outcome_def)
    have "new_tables (kbytes st) ?d 0x1000 j = 1" using o j(2) by (simp add: map_outcome_def)
    then have "j \<noteq> 0" by (intro notI) (simp add: new_tables_def)
    with j(1) have "j = 1" by simp
    with o have "present (kbytes st') ?d 0" by (simp add: map_outcome_def mapped_upto_def tables_of_Suc h)
    with j(3) \<open>j = 1\<close> show False by (simp add: nth h)
  qed
  with o have "mapped_upto (kbytes st) (kbytes st') ?d 0x1000 0x500000 PTE_U 2" by (simp add: map_outcome_def)
  then have "\<forall>i<2. translate (kbytes st') ?d (nth_page 0x1000 i) = nth_page 0x500000 i OR PTE_U OR PTE_P"
    by (simp add: mapped_upto_def)
  from this [rule_format, of 0] this [rule_format, of 1] have "translate (kbytes st') ?d 0x1000 = 0x500005"
    "translate (kbytes st') ?d 0x2000 = 0x501005" by (simp_all add: nth) (simp_all add: nth_page_def PTE_U_def PTE_P_def)
  with e \<open>rc = 0 \<and> j = 2\<close> show ?thesis by blast
qed

text \<open>\<open>uva2ka\<close> dereferences the null pointer \<open>walkpgdir\<close> returns for an address without page table.\<close>

theorem uva2ka_faults:
  assumes "\<not> present (kbytes st) d (PDX va)"
  shows "uva2ka c d va st = Fault"
  using walk_absent [OF assms, of c] by (simp add: uva2ka_def)

lemma ptinv_sub: "ptinv kend m d F \<Longrightarrow> set F' \<subseteq> set F \<Longrightarrow> ptinv kend m d F'"
  by (auto simp: ptinv_def)

text \<open>
  \<open>allocuvm\<close> does not look at the result of \<open>mappages\<close>: when the last free page goes to the user
  page and none is left for the page table, it reports success with the page not mapped (and lost).
\<close>

theorem allocuvm_unmapped:
  assumes "kinv kend st [p]" and "ptinv kend (kbytes st) d [p]" and "\<not> present (kbytes st) d (PDX 0)"
  shows "\<exists>st'. allocuvm kend c d 0 4096 st = Ret (4096, st') \<and> translate (kbytes st') d 0 = 0"
proof -
  obtain st1 where s1: "kalloc c st = Ret (p, st1)" "kinv kend st1 []" "kbytes st1 = kbytes st"
    using kalloc_cons [OF assms(1)] by blast
  have p: "kpage kend p" "p \<noteq> 0" "p \<noteq> d"
    using kinv_page [OF assms(1), of p] kpage_nonzero ptinv_dir(3) [OF assms(2)] by auto
  let ?st2 = "st1\<lparr>kbytes := memset p 0 PGSIZE (kbytes st1)\<rparr>"
  have o: "only_page p (kbytes st) (kbytes ?st2)" using only_page_memset [OF kpage_pg [OF p(1)]] s1(3) by simp
  have k2: "kinv kend ?st2 []" using kinv_only [OF s1(2), of p] o s1(3) by simp
  have pt2: "ptinv kend (kbytes ?st2) d []" by (rule ptinv_sub [OF ptinv_only [OF assms(2) o p(3)]]) simp
  have np: "\<not> present (kbytes ?st2) d (PDX 0)" using present_only [OF o ptinv_dir(2) [OF assms(2)] p(3)] assms(3) by simp
  obtain st3 where s3: "walkpgdir c d 0 True ?st2 = Ret (None, st3)" "kbytes st3 = kbytes ?st2"
    using walk_alloc [OF k2 pt2, of 0 c] np by (metis list.distinct(1))
  have "PGROUNDDOWN 0 = 0" "PGROUNDUP 0 = 0" by (simp_all add: PGROUNDDOWN_def PGROUNDUP_def PGSIZE_def)
  then have m: "mappages c d 0 PGSIZE (v2p p) (PTE_W OR PTE_U) ?st2 = Ret (-1, st3)"
    unfolding mappages_def by (subst mappages_loop.simps) (simp add: s3(1))
  have "allocuvm_loop kend c d 0 4096 4096 st3 = Some (Ret (4096, st3))" by (subst allocuvm_loop.simps) simp
  then have "allocuvm_loop kend c d 0 4096 0 st = Some (Ret (4096, st3))"
    using s1(1) p(2) m by (subst allocuvm_loop.simps) (simp add: PGSIZE_def)
  then have "allocuvm kend c d 0 4096 st = Ret (4096, st3)" using \<open>PGROUNDUP 0 = 0\<close> by (simp add: allocuvm_def KERNBASE_def)
  then show ?thesis using np s3(2) by (auto simp: translate_def)
qed

end
