(* ===== verification/Ring.thy ===== *)
theory Ring
  imports Prelude
begin

text \<open>
  Circular buffers with free-running 32-bit counters, as \<open>src/pipe.c\<close> and \<open>src/console.c\<close> use
  them: the counters are never reduced, only the array index is taken modulo the size. The
  contents stay a queue when the counters wrap, because the size divides \<open>2 ^ 32\<close>.
\<close>

definition ring :: "nat \<Rightarrow> (nat \<Rightarrow> 'a) \<Rightarrow> u32 \<Rightarrow> u32 \<Rightarrow> 'a list" where
  "ring N d r w = map (\<lambda>k. d ((unat r + k) mod N)) [0..<unat (w - r)]"

locale ring_index =
  fixes N :: nat
  assumes pos: "0 < N" and small: "N < 2 ^ 32" and divides: "N dvd 2 ^ 32"
begin

lemma index_add: "unat (r + x) mod N = (unat (r :: u32) + unat (x :: u32)) mod N"
proof -
  have "unat (r + x) mod N = (unat r + unat x) mod 2 ^ 32 mod N" by (simp add: unat_word_ariths)
  also have "\<dots> = (unat r + unat x) mod N" by (rule mod_mod_cancel [OF divides])
  finally show ?thesis .
qed

lemma index_Suc: "unat (r + 1) mod N = Suc (unat (r :: u32)) mod N"
  using index_add [of r 1] by simp

lemma ring_empty [simp]: "ring N d r w = [] \<longleftrightarrow> r = w"
  by (auto simp: ring_def unat_eq_zero)

lemma length_ring [simp]: "length (ring N d r w) = unat (w - r)"
  by (simp add: ring_def)

lemma unat_diff_Suc: "unat (w - r) < N \<Longrightarrow> unat (w + 1 - r) = Suc (unat (w - r))" for w r :: u32
proof -
  assume "unat (w - r) < N"
  then have "Suc (unat (w - r)) < 2 ^ 32" using small by linarith
  then have "unat (w - r + 1) = Suc (unat (w - r))" by (simp add: unat_word_ariths)
  then show ?thesis by (simp add: algebra_simps)
qed

lemma index_le:
  assumes "k \<le> l" and "l < N" and "(m + k) mod N = (m + l) mod N"
  shows "k = l"
proof (rule ccontr)
  assume "k \<noteq> l"
  with assms have "0 < l - k" "l - k < N" by linarith+
  then have "\<not> N dvd (m + l) - (m + k)" by (simp add: nat_dvd_not_less)
  moreover have "(m + l) mod N = (m + k) mod N" using assms(3) by (rule sym)
  ultimately show False using mod_eq_dvd_iff_nat [of "m + k" "m + l" N] assms(1) by simp
qed

lemma index_inj: "k < N \<Longrightarrow> l < N \<Longrightarrow> (m + k) mod N = (m + l) mod N \<Longrightarrow> k = l"
  using index_le [of k l m] index_le [of l k m] by linarith

lemma ring_put:
  assumes "unat (w - r) < N"
  shows "ring N (d(unat w mod N := x)) r (w + 1) = ring N d r w @ [x]"
proof -
  let ?n = "unat (w - r)"
  have w: "unat w mod N = (unat r + ?n) mod N" using index_add [of r "w - r"] by simp
  have "(unat r + k) mod N \<noteq> unat w mod N" if "k < ?n" for k
    using that assms index_inj [of k ?n "unat r"] by (auto simp: w)
  then have "map (\<lambda>k. (d(unat w mod N := x)) ((unat r + k) mod N)) [0..<?n] = ring N d r w"
    by (simp add: ring_def)
  then show ?thesis by (simp add: ring_def unat_diff_Suc [OF assms] w)
qed

lemma ring_get:
  assumes "r \<noteq> w"
  shows "ring N d r w = d (unat r mod N) # ring N d (r + 1) w"
proof -
  have n: "unat (w - r) = Suc (unat (w - (r + 1)))"
    using unat_dec_word [of "w - r"] assms by (simp add: algebra_simps unat_gt_0 Suc_leI)
  have "(unat r + Suc k) mod N = (unat (r + 1) + k) mod N" for k
    using mod_add_left_eq [of "unat (r + 1)" N k] mod_add_left_eq [of "Suc (unat r)" N k] by (simp add: index_Suc)
  then show ?thesis unfolding ring_def n by (simp add: upt_conv_Cons map_Suc_upt [symmetric] del: upt_Suc)
qed

lemma ring_split:
  assumes "unat (w - r) \<le> unat (e - r)"
  shows "ring N d r e = ring N d r w @ ring N d w e"
proof -
  have "e - w = (e - r) - (w - r)" by simp
  then have n: "unat (e - r) = unat (w - r) + unat (e - w)"
    using assms unat_sub [of "w - r" "e - r"] by (simp add: word_le_nat_alt)
  have k: "(unat r + (unat (w - r) + k)) mod N = (unat w + k) mod N" for k
    using index_add [of r "w - r"] mod_add_left_eq [of "unat r + unat (w - r)" N k] mod_add_left_eq [of "unat w" N k]
    by (simp add: add.assoc)
  have "[0..<unat (e - r)] = [0..<unat (w - r)] @ map (\<lambda>k. unat (w - r) + k) [0..<unat (e - w)]"
    by (rule nth_equalityI) (auto simp: n nth_append)
  then show ?thesis by (simp add: ring_def o_def k)
qed

lemma ring_unput:
  assumes "r \<noteq> w"
  shows "ring N d r w = ring N d r (w - 1) @ [d (unat (w - 1) mod N)]"
proof -
  have n: "unat (w - r) = Suc (unat (w - 1 - r))"
    using unat_dec_word [of "w - r"] assms by (simp add: algebra_simps unat_gt_0 Suc_leI)
  have "(unat r + unat (w - 1 - r)) mod N = unat (w - 1) mod N" using index_add [of r "w - 1 - r"] by simp
  then show ?thesis by (simp add: ring_def n)
qed

end

end
