(* ===== verification/Pipe.thy ===== *)
theory Pipe
  imports Ring Spinlock
begin

text \<open>
  \<open>src/pipe.c\<close>: reading, writing and closing a pipe. A call runs in segments: from the call, or
  from the return of \<open>sleep\<close>, to the next \<open>sleep\<close> or the return; the pipe lock is held for the
  whole segment (\<open>sleep\<close> gives it up and takes it again). A segment lists the \<open>wakeup\<close> calls it
  makes. The second half interleaves the segments of any number of readers and writers.
\<close>

section \<open>The code\<close>

definition PIPESIZE :: nat where "PIPESIZE = 512"

record pipe =
  p_lock :: spinlock
  p_data :: "nat \<Rightarrow> u8"
  nread :: u32
  nwrite :: u32
  readopen :: u32
  writeopen :: u32

text \<open>The two wait channels, \<open>&p->nread\<close> and \<open>&p->nwrite\<close>.\<close>

datatype pchan = NRead | NWrite

text \<open>How a segment ends: the call returns, or sleeps on a channel.\<close>

datatype pend = PReturn int | PSleep pchan

function pipewrite_loop :: "bool \<Rightarrow> (nat \<Rightarrow> u8) \<Rightarrow> int \<Rightarrow> nat \<Rightarrow> pipe \<Rightarrow> (pend \<times> nat \<times> pchan list) \<times> pipe" where
  "pipewrite_loop kl addr n i p =
     (if int i < n then
        if nwrite p = nread p + of_nat PIPESIZE then
          if readopen p = 0 \<or> kl then ((PReturn (-1), i, []), p)
          else ((PSleep NWrite, i, [NRead]), p)
        else pipewrite_loop kl addr n (Suc i)
               (p\<lparr>p_data := (p_data p)(unat (nwrite p) mod PIPESIZE := addr i), nwrite := nwrite p + 1\<rparr>)
      else ((PReturn n, i, [NRead]), p))"
  by pat_completeness auto
termination by (relation "measure (\<lambda>(kl, addr, n, i, p). nat n - i)") auto

text \<open>A segment of \<open>pipewrite\<close> that has written \<open>i\<close> bytes; the call itself starts with \<open>0\<close>.\<close>

definition pipewrite_at :: "nat \<Rightarrow> nat \<Rightarrow> bool \<Rightarrow> (nat \<Rightarrow> u8) \<Rightarrow> int \<Rightarrow> pipe \<Rightarrow> cpu \<Rightarrow>
    ((pend \<times> nat \<times> pchan list) \<times> pipe \<times> cpu) res" where
  "pipewrite_at i c kl addr n p cp =
     bindr (acquire c (p_lock p) cp) (\<lambda>(l, cp).
     let (r, p) = pipewrite_loop kl addr n i (p\<lparr>p_lock := l\<rparr>)
     in bindr (release c (p_lock p) cp) (\<lambda>(l, cp). Ret (r, p\<lparr>p_lock := l\<rparr>, cp)))"

definition pipewrite :: "nat \<Rightarrow> bool \<Rightarrow> (nat \<Rightarrow> u8) \<Rightarrow> int \<Rightarrow> pipe \<Rightarrow> cpu \<Rightarrow>
    ((pend \<times> nat \<times> pchan list) \<times> pipe \<times> cpu) res" where
  "pipewrite = pipewrite_at 0"

text \<open>The copy loop of \<open>piperead\<close>: the bytes stored at \<open>addr\<close>.\<close>

function piperead_copy :: "int \<Rightarrow> nat \<Rightarrow> pipe \<Rightarrow> u8 list \<times> pipe" where
  "piperead_copy n i p =
     (if int i < n then
        if nread p = nwrite p then ([], p)
        else let (bs, p') = piperead_copy n (Suc i) (p\<lparr>nread := nread p + 1\<rparr>)
             in (p_data p (unat (nread p) mod PIPESIZE) # bs, p')
      else ([], p))"
  by pat_completeness auto
termination by (relation "measure (\<lambda>(n, i, p). nat n - i)") auto

definition piperead_body :: "bool \<Rightarrow> int \<Rightarrow> pipe \<Rightarrow> (pend \<times> u8 list \<times> pchan list) \<times> pipe" where
  "piperead_body kl n p =
     (if nread p = nwrite p \<and> writeopen p \<noteq> 0 then
        if kl then ((PReturn (-1), [], []), p)
        else ((PSleep NRead, [], []), p)
      else let (bs, p) = piperead_copy n 0 p
           in ((PReturn (int (length bs)), bs, [NWrite]), p))"

definition piperead :: "nat \<Rightarrow> bool \<Rightarrow> int \<Rightarrow> pipe \<Rightarrow> cpu \<Rightarrow> ((pend \<times> u8 list \<times> pchan list) \<times> pipe \<times> cpu) res" where
  "piperead c kl n p cp =
     bindr (acquire c (p_lock p) cp) (\<lambda>(l, cp).
     let (r, p) = piperead_body kl n (p\<lparr>p_lock := l\<rparr>)
     in bindr (release c (p_lock p) cp) (\<lambda>(l, cp). Ret (r, p\<lparr>p_lock := l\<rparr>, cp)))"

text \<open>\<open>pipeclose\<close> returns no pipe when it frees the page.\<close>

definition pipeclose :: "nat \<Rightarrow> bool \<Rightarrow> pipe \<Rightarrow> cpu \<Rightarrow> (pchan list \<times> pipe option \<times> cpu) res" where
  "pipeclose c writable p cp =
     bindr (acquire c (p_lock p) cp) (\<lambda>(l, cp).
     let p = p\<lparr>p_lock := l\<rparr>;
         (ws, p) = (if writable then ([NRead], p\<lparr>writeopen := 0\<rparr>) else ([NWrite], p\<lparr>readopen := 0\<rparr>))
     in bindr (release c (p_lock p) cp) (\<lambda>(l, cp).
        Ret (ws, if readopen p = 0 \<and> writeopen p = 0 then None else Some (p\<lparr>p_lock := l\<rparr>), cp)))"

text \<open>What \<open>pipealloc\<close> stores in the page \<open>kalloc\<close> gave it, whatever was there (\<open>q\<close>).\<close>

definition pipe_init :: "pipe \<Rightarrow> pipe" where
  "pipe_init q = q\<lparr>readopen := 1, writeopen := 1, nwrite := 0, nread := 0, p_lock := initlock (p_lock q) ''pipe''\<rparr>"

declare pipewrite_loop.simps [simp del] piperead_copy.simps [simp del]

section \<open>A pipe is a bounded queue\<close>

interpretation pr: ring_index PIPESIZE
  by unfold_locales (simp_all add: PIPESIZE_def)

definition contents :: "pipe \<Rightarrow> u8 list" where
  "contents p = ring PIPESIZE (p_data p) (nread p) (nwrite p)"

definition pipe_ok :: "pipe \<Rightarrow> bool" where
  "pipe_ok p \<longleftrightarrow> length (contents p) \<le> PIPESIZE \<and> locked (p_lock p) = 0"

lemma contents_simps [simp]:
  "contents (p\<lparr>p_lock := l\<rparr>) = contents p" "contents (p\<lparr>readopen := x\<rparr>) = contents p"
  "contents (p\<lparr>writeopen := x\<rparr>) = contents p"
  by (simp_all add: contents_def)

lemma contents_empty [simp]: "nread p = nwrite p \<longleftrightarrow> contents p = []"
  by (simp add: contents_def)

lemma length_contents: "length (contents p) = unat (nwrite p - nread p)"
  by (simp add: contents_def)

lemma contents_full: "nwrite p = nread p + of_nat PIPESIZE \<longleftrightarrow> length (contents p) = PIPESIZE"
proof -
  have "length (contents p) = PIPESIZE \<longleftrightarrow> nwrite p - nread p = of_nat PIPESIZE"
    by (simp add: length_contents word_unat_eq_iff unat_of_nat PIPESIZE_def)
  then show ?thesis by (auto simp: algebra_simps)
qed

lemma contents_put:
  "length (contents p) < PIPESIZE \<Longrightarrow>
   contents (p\<lparr>p_data := (p_data p)(unat (nwrite p) mod PIPESIZE := x), nwrite := nwrite p + 1\<rparr>) = contents p @ [x]"
  using pr.ring_put [of "nwrite p" "nread p"] by (simp add: contents_def)

lemma contents_get:
  "contents p \<noteq> [] \<Longrightarrow>
   contents p = p_data p (unat (nread p) mod PIPESIZE) # contents (p\<lparr>nread := nread p + 1\<rparr>)"
  using pr.ring_get [of "nread p" "nwrite p"] by (simp add: contents_def del: contents_empty)

text \<open>What a segment of \<open>pipewrite\<close> appends, and why it ends.\<close>

definition wrote :: "bool \<Rightarrow> (nat \<Rightarrow> u8) \<Rightarrow> int \<Rightarrow> nat \<Rightarrow> pipe \<Rightarrow> pend \<Rightarrow> nat \<Rightarrow> pchan list \<Rightarrow> pipe \<Rightarrow> bool" where
  "wrote kl addr n i p e j ws p' \<longleftrightarrow>
     i \<le> j \<and> int j \<le> max n (int i) \<and> contents p' = contents p @ map addr [i..<j] \<and> length (contents p') \<le> PIPESIZE
     \<and> readopen p' = readopen p \<and> writeopen p' = writeopen p \<and> p_lock p' = p_lock p
     \<and> (e = PReturn n \<and> n \<le> int j \<and> ws = [NRead]
        \<or> e = PReturn (-1) \<and> (readopen p = 0 \<or> kl) \<and> int j < n \<and> ws = [] \<and> length (contents p') = PIPESIZE
        \<or> e = PSleep NWrite \<and> readopen p \<noteq> 0 \<and> \<not> kl \<and> int j < n \<and> ws = [NRead] \<and> length (contents p') = PIPESIZE)"

lemma pipewrite_loop_wrote:
  "length (contents p) \<le> PIPESIZE \<Longrightarrow> pipewrite_loop kl addr n i p = ((e, j, ws), p') \<Longrightarrow> wrote kl addr n i p e j ws p'"
proof (induction kl addr n i p rule: pipewrite_loop.induct)
  case (1 kl addr n i p)
  show ?case
  proof (cases "int i < n \<and> length (contents p) \<noteq> PIPESIZE")
    case True
    let ?q = "p\<lparr>p_data := (p_data p)(unat (nwrite p) mod PIPESIZE := addr i), nwrite := nwrite p + 1\<rparr>"
    have q: "contents ?q = contents p @ [addr i]" using True "1.prems"(1) by (intro contents_put) simp
    have "wrote kl addr n (Suc i) ?q e j ws p'"
      using True "1.prems" by (intro "1.IH") (auto simp: contents_full q pipewrite_loop.simps [of kl addr n i p])
    then show ?thesis using True by (auto simp: wrote_def q upt_conv_Cons)
  next
    case False
    with "1.prems" show ?thesis
      by (subst (asm) pipewrite_loop.simps) (auto simp: wrote_def contents_full split: if_splits)
  qed
qed

lemma piperead_copy_got:
  "piperead_copy n i p = (bs, p') \<Longrightarrow>
   contents p = bs @ contents p' \<and> readopen p' = readopen p \<and> writeopen p' = writeopen p \<and> p_lock p' = p_lock p
     \<and> length bs \<le> nat n - i \<and> (nat n - i = length bs \<or> contents p' = [])"
proof (induction n i p arbitrary: bs p' rule: piperead_copy.induct)
  case (1 n i p)
  let ?q = "p\<lparr>nread := nread p + 1\<rparr>"
  show ?case
  proof (cases "int i < n \<and> nread p \<noteq> nwrite p")
    case True
    obtain bs' q' where q: "piperead_copy n (Suc i) ?q = (bs', q')" by fastforce
    have c: "contents p = p_data p (unat (nread p) mod PIPESIZE) # contents ?q"
      using True by (intro contents_get) simp
    have "bs = p_data p (unat (nread p) mod PIPESIZE) # bs'" and "p' = q'"
      using "1.prems" True q by (simp_all add: piperead_copy.simps [of n i p])
    moreover have "contents ?q = bs' @ contents q' \<and> readopen q' = readopen ?q \<and> writeopen q' = writeopen ?q
        \<and> p_lock q' = p_lock ?q \<and> length bs' \<le> nat n - Suc i \<and> (nat n - Suc i = length bs' \<or> contents q' = [])"
      using True by (intro "1.IH" q) simp_all
    ultimately show ?thesis using True unfolding c by auto
  next
    case False
    with "1.prems" have "bs = []" "p' = p" by (auto simp: piperead_copy.simps [of n i p] split: if_splits)
    with False show ?thesis by auto
  qed
qed

section \<open>Readers and writers together\<close>

text \<open>
  What a process is doing with the pipe: nothing, or a call of \<open>pipewrite\<close> (with its arguments and
  the bytes written) or \<open>piperead\<close> that sleeps or has been woken. \<open>sent\<close> and \<open>got\<close> record the bytes
  put in and taken out.
\<close>

datatype pmode = PIdle | WSleep "nat \<Rightarrow> u8" int nat | WReady "nat \<Rightarrow> u8" int nat | RSleep int | RReady int

record psys =
  pip :: pipe
  pfreed :: bool
  pth :: "nat \<Rightarrow> pmode"
  sent :: "u8 list"
  got :: "u8 list"

text \<open>The effect of \<open>wakeup\<close> on the sleepers of a channel.\<close>

primrec pwake :: "pchan set \<Rightarrow> pmode \<Rightarrow> pmode" where
  "pwake C PIdle = PIdle"
| "pwake C (WSleep addr n i) = (if NWrite \<in> C then WReady addr n i else WSleep addr n i)"
| "pwake C (WReady addr n i) = WReady addr n i"
| "pwake C (RSleep n) = (if NRead \<in> C then RReady n else RSleep n)"
| "pwake C (RReady n) = RReady n"

fun writing :: "pmode \<Rightarrow> bool" where
  "writing (WSleep addr n i) = True"
| "writing (WReady addr n i) = True"
| "writing m = False"

fun reading :: "pmode \<Rightarrow> bool" where
  "reading (RSleep n) = True"
| "reading (RReady n) = True"
| "reading m = False"

text \<open>
  Segments run one at a time (the pipe lock). A process that calls \<open>pipewrite\<close> or \<open>piperead\<close> holds
  a reference to that end, so the end is open, and an end is closed only when no call uses it.
  \<open>kills\<close> says whether a process may be killed while it writes; \<open>kill\<close> wakes a sleeper.
\<close>

inductive pstep :: "bool \<Rightarrow> psys \<Rightarrow> psys \<Rightarrow> bool" for kills where
  p_write: "pth s t = PIdle \<and> i = 0 \<or> pth s t = WReady addr n i \<Longrightarrow> \<not> pfreed s \<Longrightarrow> writeopen (pip s) \<noteq> 0 \<Longrightarrow>
     kl \<longrightarrow> kills \<Longrightarrow> cpu_ok cp \<Longrightarrow> pipewrite_at i c kl addr n (pip s) cp = Ret ((e, j, ws), p', cp') \<Longrightarrow>
     pstep kills s (s\<lparr>pip := p', sent := sent s @ map addr [i..<j],
       pth := (\<lambda>u. pwake (set ws) (pth s u))(t := case e of PReturn r \<Rightarrow> PIdle | PSleep ch \<Rightarrow> WSleep addr n j)\<rparr>)"
| p_read: "pth s t = PIdle \<or> pth s t = RReady n \<Longrightarrow> \<not> pfreed s \<Longrightarrow> readopen (pip s) \<noteq> 0 \<Longrightarrow>
     cpu_ok cp \<Longrightarrow> piperead c kl n (pip s) cp = Ret ((e, bs, ws), p', cp') \<Longrightarrow>
     pstep kills s (s\<lparr>pip := p', got := got s @ bs,
       pth := (\<lambda>u. pwake (set ws) (pth s u))(t := case e of PReturn r \<Rightarrow> PIdle | PSleep ch \<Rightarrow> RSleep n)\<rparr>)"
| p_close_w: "writeopen (pip s) \<noteq> 0 \<Longrightarrow> \<not> pfreed s \<Longrightarrow> \<forall>t. \<not> writing (pth s t) \<Longrightarrow>
     cpu_ok cp \<Longrightarrow> pipeclose c True (pip s) cp = Ret (ws, po, cp') \<Longrightarrow>
     pstep kills s (s\<lparr>pip := case po of None \<Rightarrow> pip s | Some p \<Rightarrow> p, pfreed := (po = None), pth := \<lambda>u. pwake (set ws) (pth s u)\<rparr>)"
| p_close_r: "readopen (pip s) \<noteq> 0 \<Longrightarrow> \<not> pfreed s \<Longrightarrow> \<forall>t. \<not> reading (pth s t) \<Longrightarrow>
     cpu_ok cp \<Longrightarrow> pipeclose c False (pip s) cp = Ret (ws, po, cp') \<Longrightarrow>
     pstep kills s (s\<lparr>pip := case po of None \<Rightarrow> pip s | Some p \<Rightarrow> p, pfreed := (po = None), pth := \<lambda>u. pwake (set ws) (pth s u)\<rparr>)"
| p_kill: "pstep kills s (s\<lparr>pth := (pth s)(t := pwake {NRead, NWrite} (pth s t))\<rparr>)"

inductive preach :: "bool \<Rightarrow> pipe \<Rightarrow> psys \<Rightarrow> bool" for kills q where
  p_init: "preach kills q \<lparr>pip = pipe_init q, pfreed = False, pth = \<lambda>_. PIdle, sent = [], got = []\<rparr>"
| p_next: "preach kills q s \<Longrightarrow> pstep kills s s' \<Longrightarrow> preach kills q s'"

section \<open>Properties\<close>

lemma pipewrite_segment:
  assumes "pipe_ok p" and "pipewrite_at i c kl addr n p cp = Ret ((e, j, ws), p', cp')"
  shows "pipe_ok p' \<and> (\<exists>l. wrote kl addr n i (p\<lparr>p_lock := l\<rparr>) e j ws (p'\<lparr>p_lock := l\<rparr>))"
proof -
  let ?l = "(p_lock p)\<lparr>locked := 1, lk_cpu := Some c\<rparr>"
  obtain e' j' ws' q where w: "pipewrite_loop kl addr n i (p\<lparr>p_lock := ?l\<rparr>) = ((e', j', ws'), q)"
    by (metis surj_pair)
  have "locked (p_lock p) = 0" using assms(1) by (simp add: pipe_ok_def)
  with assms(2) w obtain l' where r: "release c (p_lock q) (pushcli cp) = Ret (l', cp')"
    and p': "p' = q\<lparr>p_lock := l'\<rparr>" and eq: "e' = e" "j' = j" "ws' = ws"
    by (auto simp: pipewrite_at_def acquire_free res_simps)
  have W: "wrote kl addr n i (p\<lparr>p_lock := ?l\<rparr>) e j ws q"
    using w assms(1) unfolding eq by (intro pipewrite_loop_wrote) (simp_all add: pipe_ok_def)
  then have "q\<lparr>p_lock := ?l\<rparr> = q" by (simp add: wrote_def)
  with release_unlocks [OF r] W show ?thesis
    by (auto simp: p' pipe_ok_def wrote_def intro!: exI [of _ ?l])
qed

text \<open>What a segment of \<open>piperead\<close> takes, and why it ends.\<close>

definition took :: "bool \<Rightarrow> int \<Rightarrow> pipe \<Rightarrow> pend \<Rightarrow> u8 list \<Rightarrow> pchan list \<Rightarrow> pipe \<Rightarrow> bool" where
  "took kl n p e bs ws p' \<longleftrightarrow>
     contents p = bs @ contents p' \<and> readopen p' = readopen p \<and> writeopen p' = writeopen p
     \<and> (e = PReturn (int (length bs)) \<and> ws = [NWrite] \<and> (contents p \<noteq> [] \<or> writeopen p = 0)
          \<and> length bs \<le> nat n \<and> (length bs = nat n \<or> contents p' = [])
        \<or> (e = PReturn (-1) \<and> kl \<or> e = PSleep NRead \<and> \<not> kl) \<and> bs = [] \<and> ws = [] \<and> contents p = [] \<and> writeopen p \<noteq> 0)"

lemma piperead_segment:
  assumes "pipe_ok p" and "piperead c kl n p cp = Ret ((e, bs, ws), p', cp')"
  shows "pipe_ok p' \<and> took kl n p e bs ws p'"
proof -
  let ?p = "p\<lparr>p_lock := (p_lock p)\<lparr>locked := 1, lk_cpu := Some c\<rparr>\<rparr>"
  obtain e' bs' ws' q where w: "piperead_body kl n ?p = ((e', bs', ws'), q)" by (metis surj_pair)
  have "locked (p_lock p) = 0" using assms(1) by (simp add: pipe_ok_def)
  with assms(2) w obtain l' where r: "release c (p_lock q) (pushcli cp) = Ret (l', cp')"
    and p': "p' = q\<lparr>p_lock := l'\<rparr>" and eq: "e' = e" "bs' = bs" "ws' = ws"
    by (auto simp: piperead_def acquire_free res_simps)
  obtain cs q' where c: "piperead_copy n 0 ?p = (cs, q')" by fastforce
  from piperead_copy_got [OF c] w have "took kl n p e bs ws q \<and> length (contents q) \<le> length (contents p)"
    by (auto simp: eq c piperead_body_def took_def split: if_splits)
  with release_unlocks [OF r] assms(1) show ?thesis by (auto simp: p' pipe_ok_def took_def)
qed

lemma pipeclose_ok:
  assumes "pipe_ok p" and "pipeclose c w p cp = Ret (ws, Some p', cp')"
  shows "pipe_ok p' \<and> contents p' = contents p \<and> ws = [if w then NRead else NWrite]
     \<and> writeopen p' = (if w then 0 else writeopen p) \<and> readopen p' = (if w then readopen p else 0)"
  using assms by (auto simp: pipeclose_def acquire_Ret_iff res_simps pipe_ok_def split: if_splits dest!: release_unlocks)

lemma pipeclose_frees:
  "pipeclose c w p cp = Ret (ws, None, cp') \<Longrightarrow> ws = [if w then NRead else NWrite] \<and> (if w then readopen p = 0 else writeopen p = 0)"
  by (auto simp: pipeclose_def acquire_Ret_iff res_simps split: if_splits)

text \<open>The invariant: nothing is lost or reordered, and a sleeper has a reason to sleep.\<close>

definition pinv :: "bool \<Rightarrow> psys \<Rightarrow> bool" where
  "pinv kills s \<longleftrightarrow> pipe_ok (pip s) \<and> sent s = got s @ contents (pip s)
     \<and> (\<forall>t addr n i. pth s t = WSleep addr n i \<longrightarrow> length (contents (pip s)) = PIPESIZE \<and> readopen (pip s) \<noteq> 0)
     \<and> (\<forall>t n. pth s t = RSleep n \<longrightarrow> readopen (pip s) \<noteq> 0 \<and> writeopen (pip s) \<noteq> 0 \<and> (kills \<or> contents (pip s) = []))"

lemma pwake_eqs [simp]:
  "pwake C m = WSleep addr n i \<longleftrightarrow> m = WSleep addr n i \<and> NWrite \<notin> C"
  "pwake C m = RSleep n \<longleftrightarrow> m = RSleep n \<and> NRead \<notin> C"
  by (cases m; auto)+

lemma idle_ends:
  "\<forall>t. \<not> reading (m t) \<Longrightarrow> m t \<noteq> RSleep n" "\<forall>t. \<not> writing (m t) \<Longrightarrow> m t \<noteq> WSleep addr n i"
  by (metis reading.simps(1)) (metis writing.simps(1))

lemma pinv_write:
  assumes "pinv kills s" and "wrote kl addr n i ((pip s)\<lparr>p_lock := l\<rparr>) e j ws (p'\<lparr>p_lock := l\<rparr>)" and "pipe_ok p'" and "kl \<longrightarrow> kills"
  shows "pinv kills (s\<lparr>pip := p', sent := sent s @ map addr [i..<j],
       pth := (\<lambda>u. pwake (set ws) (pth s u))(t := case e of PReturn r \<Rightarrow> PIdle | PSleep ch \<Rightarrow> WSleep addr n j)\<rparr>)"
proof (cases e)
  case (PReturn r)
  with assms show ?thesis by (auto simp: pinv_def wrote_def pipe_ok_def)
next
  case (PSleep ch)
  with assms show ?thesis by (auto simp: pinv_def wrote_def pipe_ok_def)
qed

lemma pinv_close:
  assumes "pinv kills s" and "pipeclose c w (pip s) cp = Ret (ws, po, cp')"
    and "if w then \<forall>t. \<not> writing (pth s t) else \<forall>t. \<not> reading (pth s t)"
  shows "pinv kills (s\<lparr>pip := case po of None \<Rightarrow> pip s | Some p \<Rightarrow> p, pfreed := (po = None), pth := \<lambda>u. pwake (set ws) (pth s u)\<rparr>)"
proof (cases po)
  case None
  with assms pipeclose_frees [of c w "pip s"] show ?thesis by (auto simp: pinv_def)
next
  case (Some p')
  have "pipe_ok (pip s)" using assms(1) by (simp add: pinv_def)
  from pipeclose_ok [OF this assms(2) [unfolded Some]] assms show ?thesis
    by (cases w) (auto simp: pinv_def Some idle_ends)
qed

lemma pinv_step: "pstep kills s s' \<Longrightarrow> pinv kills s \<Longrightarrow> pinv kills s'"
proof (induction rule: pstep.induct)
  case (p_write s t i addr n kl cp c e j ws p' cp')
  then have "pipe_ok (pip s)" by (simp add: pinv_def)
  from pipewrite_segment [OF this p_write.hyps(6)] p_write show ?case by (blast intro: pinv_write)
next
  case (p_read s t n cp c kl e bs ws p' cp')
  then have "pipe_ok (pip s)" by (simp add: pinv_def)
  from piperead_segment [OF this p_read.hyps(5)] p_read show ?case
    by (auto simp: pinv_def took_def PIPESIZE_def split: pend.splits)
next
  case (p_close_w s cp c ws po cp')
  then show ?case by (intro pinv_close [where w = True]) simp_all
next
  case (p_close_r s cp c ws po cp')
  then show ?case by (intro pinv_close [where w = False]) simp_all
next
  case (p_kill s t)
  then show ?case by (auto simp: pinv_def)
qed

lemma preach_pinv: "preach kills q s \<Longrightarrow> pinv kills s"
proof (induction rule: preach.induct)
  case p_init
  then show ?case by (auto simp: pinv_def pipe_ok_def pipe_init_def initlock_def contents_def ring_def)
qed (auto intro: pinv_step)

text \<open>Segments end: neither the lock nor a loop gets stuck.\<close>

lemma pipewrite_returns:
  assumes "pipe_ok p" and "cpu_ok cp"
  shows "\<exists>e j ws p' cp'. pipewrite_at i c kl addr n p cp = Ret ((e, j, ws), p', cp')"
proof -
  let ?l = "(p_lock p)\<lparr>locked := 1, lk_cpu := Some c\<rparr>"
  obtain e j ws q where w: "pipewrite_loop kl addr n i (p\<lparr>p_lock := ?l\<rparr>) = ((e, j, ws), q)" by (metis surj_pair)
  then have "wrote kl addr n i (p\<lparr>p_lock := ?l\<rparr>) e j ws q"
    using assms(1) by (intro pipewrite_loop_wrote) (simp_all add: pipe_ok_def)
  then have "holding (p_lock q) c" by (simp add: wrote_def holding_def)
  from release_held [OF assms(2) this] w assms(1) show ?thesis
    by (simp add: pipewrite_at_def acquire_free pipe_ok_def)
qed

lemma piperead_sleeps:
  assumes "pipe_ok p" and "cpu_ok cp" and "contents p = []" and "writeopen p \<noteq> 0"
  shows "\<exists>p' cp'. piperead c False n p cp = Ret ((PSleep NRead, [], []), p', cp') \<and> contents p' = [] \<and> writeopen p' = writeopen p \<and> readopen p' = readopen p"
  using assms release_held [OF assms(2), of "(p_lock p)\<lparr>locked := 1, lk_cpu := Some c\<rparr>" c]
  by (simp add: piperead_def piperead_body_def acquire_free pipe_ok_def holding_def)

text \<open>
  C12: A pipe is a bounded queue. However readers, writers, closes and kills interleave, the bytes
  written so far are the bytes read so far followed by what the pipe holds, in order, and it holds
  at most \<open>PIPESIZE\<close> bytes; the 32-bit counters may wrap.
\<close>

theorem pipe_fifo:
  assumes "preach kills q s"
  shows "sent s = got s @ contents (pip s) \<and> length (contents (pip s)) \<le> PIPESIZE"
  using preach_pinv [OF assms] by (simp add: pinv_def pipe_ok_def)

definition pipe0 :: pipe where
  "pipe0 = \<lparr>p_lock = \<lparr>locked = 0, lk_name = [], lk_cpu = None\<rparr>, p_data = \<lambda>_. 0, nread = 0, nwrite = 0, readopen = 0, writeopen = 0\<rparr>"

definition cpu0 :: cpu where
  "cpu0 = \<lparr>ncli = 0, intena = False, if_flag = True, cpu_proc = Some 0\<rparr>"

lemma pipe0_ok: "pipe_ok (pipe_init pipe0)" "contents (pipe_init pipe0) = []" "cpu_ok cpu0"
  by (simp_all add: pipe_ok_def pipe_init_def pipe0_def initlock_def contents_def ring_def cpu_ok_def cpu0_def)

theorem pipe_fifo_witness:
  "\<exists>s. preach True pipe0 s \<and> sent s = [1, 2, 3] \<and> got s = [] \<and> contents (pip s) = [1, 2, 3]"
proof -
  let ?s = "\<lparr>pip = pipe_init pipe0, pfreed = False, pth = \<lambda>_. PIdle, sent = [], got = []\<rparr>"
  let ?a = "\<lambda>i. of_nat (Suc i) :: u8"
  obtain e j ws p' cp' where w: "pipewrite_at 0 0 False ?a 3 (pip ?s) cpu0 = Ret ((e, j, ws), p', cp')"
    using pipewrite_returns [OF pipe0_ok(1,3), of 0 0 False ?a 3] by auto
  from pipewrite_segment [OF _ w] pipe0_ok have "j = 3"
    by (auto simp: wrote_def PIPESIZE_def)
  let ?t = "?s\<lparr>pip := p', sent := sent ?s @ map ?a [0..<j],
       pth := (\<lambda>u. pwake (set ws) (pth ?s u))(0 := case e of PReturn r \<Rightarrow> PIdle | PSleep ch \<Rightarrow> WSleep ?a 3 j)\<rparr>"
  have "pstep True ?s ?t" by (rule p_write [OF _ _ _ _ _ w]) (simp_all add: pipe0_ok pipe_init_def)
  with p_init have r: "preach True pipe0 ?t" by (rule p_next)
  have "sent ?t = [1, 2, 3]" by (simp add: \<open>j = 3\<close> upt_rec)
  with pipe_fifo [OF r] r show ?thesis by (intro exI [of _ ?t]) simp
qed

text \<open>
  C18: Sleepers have a reason. Whatever the interleaving, a writer that sleeps has no room and the
  read end is open, and a reader that sleeps has the write end open; if no writer is killed inside
  \<open>pipewrite\<close> (\<open>kills\<close> is false), a reader that sleeps also has nothing to read, so readers and
  writers never sleep at the same time. The condition is needed: see \<open>killed_writer_strands_reader\<close>.
\<close>

theorem pipe_sleepers_must:
  assumes "preach kills q s"
  shows "(pth s t = RSleep n \<longrightarrow> writeopen (pip s) \<noteq> 0 \<and> readopen (pip s) \<noteq> 0 \<and> (kills \<or> contents (pip s) = []))
     \<and> (pth s u = WSleep addr m i \<longrightarrow> length (contents (pip s)) = PIPESIZE \<and> readopen (pip s) \<noteq> 0)"
  using preach_pinv [OF assms] by (auto simp: pinv_def)

lemma reader_waits: "\<exists>s. preach kills pipe0 s \<and> pth s = (\<lambda>_. PIdle)(0 := RSleep 5) \<and> \<not> pfreed s \<and> writeopen (pip s) \<noteq> 0"
proof -
  let ?s = "\<lparr>pip = pipe_init pipe0, pfreed = False, pth = \<lambda>_. PIdle, sent = [], got = []\<rparr>"
  have o: "writeopen (pip ?s) \<noteq> 0" "readopen (pip ?s) \<noteq> 0" by (simp_all add: pipe_init_def)
  obtain p' cp' where r: "piperead 0 False 5 (pip ?s) cpu0 = Ret ((PSleep NRead, [], []), p', cp')"
    and p': "contents p' = []" "writeopen p' = writeopen (pip ?s)"
    using piperead_sleeps [OF pipe0_ok(1,3,2), of 0 5] o by auto
  let ?t = "?s\<lparr>pip := p', got := got ?s @ [], pth := (\<lambda>u. pwake (set []) (pth ?s u))(0 := RSleep 5)\<rparr>"
  have "pstep kills ?s ?t" using p_read [OF _ _ _ _ r, where t = 0] pipe0_ok o by simp
  with p_init have "preach kills pipe0 ?t" by (rule p_next)
  then show ?thesis using p'(2) o by (intro exI [of _ ?t]) auto
qed

theorem pipe_sleepers_must_witness:
  "\<exists>s. preach False pipe0 s \<and> pth s 0 = RSleep 5 \<and> contents (pip s) = []"
proof -
  obtain s where "preach False pipe0 s" and "pth s = (\<lambda>_. PIdle)(0 := RSleep 5)" using reader_waits by blast
  with pipe_sleepers_must [OF this(1), of 0 5 0 "\<lambda>_. 0" 0 0] show ?thesis by auto
qed

text \<open>
  A writer that is killed when the pipe becomes full returns without the \<open>wakeup\<close> of the readers: a
  reader sleeps on with \<open>PIPESIZE\<close> bytes to read.
\<close>

lemma killed_writer_strands_reader:
  "\<exists>s. preach True pipe0 s \<and> pth s 0 = RSleep 5 \<and> length (contents (pip s)) = PIPESIZE"
proof -
  obtain s where r: "preach True pipe0 s" and t: "pth s = (\<lambda>_. PIdle)(0 := RSleep 5)" "\<not> pfreed s" "writeopen (pip s) \<noteq> 0"
    using reader_waits by blast
  have ok: "pipe_ok (pip s)" using preach_pinv [OF r] by (simp add: pinv_def)
  obtain e j ws p' cp' where w: "pipewrite_at 0 1 True (\<lambda>_. 7) 600 (pip s) cpu0 = Ret ((e, j, ws), p', cp')"
    using pipewrite_returns [OF ok pipe0_ok(3)] by blast
  from pipewrite_segment [OF ok w] have f: "length (contents p') = PIPESIZE" "ws = []"
    by (auto simp: wrote_def PIPESIZE_def)
  let ?t = "s\<lparr>pip := p', sent := sent s @ map (\<lambda>_. 7) [0..<j],
       pth := (\<lambda>u. pwake (set ws) (pth s u))(1 := case e of PReturn r \<Rightarrow> PIdle | PSleep ch \<Rightarrow> WSleep (\<lambda>_. 7) 600 j)\<rparr>"
  have "pstep True s ?t" by (rule p_write [OF _ _ _ _ _ w]) (simp_all add: pipe0_ok t)
  with r have "preach True pipe0 ?t" by (rule p_next)
  moreover have "pth ?t 0 = RSleep 5" by (simp add: t f)
  ultimately show ?thesis using f(1) by (intro exI [of _ ?t]) simp
qed

end
