(* ===== verification/Console.thy ===== *)
theory Console
  imports Ring Spinlock
begin

text \<open>
  The console of \<open>src/console.c\<close>: the screen and the serial line behind \<open>consputc\<close>, the line
  discipline of \<open>consoleintr\<close>, and \<open>consoleread\<close> and \<open>consolewrite\<close> under \<open>cons.lock\<close>. As for a pipe,
  a call of \<open>consoleread\<close> runs in segments that end in \<open>sleep\<close> or in the return. The \<open>iunlock\<close> and
  \<open>ilock\<close> calls around the two are those of the inode layer and not repeated here.
\<close>

unbundle bit_operations_syntax

section \<open>The screen and the serial line\<close>

definition BACKSPACE :: int where "BACKSPACE = 0x100"

text \<open>
  \<open>cursor\<close> is the cursor register of the display controller (its bytes 14 and 15), \<open>crt\<close> the display
  memory from \<open>0xb8000\<close> on in 16-bit cells, \<open>serial\<close> the bytes sent on the serial port so far.
\<close>

record screen =
  panicked :: bool
  uart :: bool
  serial :: "u8 list"
  cursor :: u16
  crt :: "nat \<Rightarrow> u16"

definition cgaputc :: "int \<Rightarrow> screen \<Rightarrow> screen res" where
  "cgaputc c s =
     (let pos = uint (cursor s);
          (pos, m) =
            (if c = 10 then (pos + (80 - pos mod 80), crt s)
             else if c = BACKSPACE then (if pos > 0 then pos - 1 else pos, crt s)
             else (pos + 1, (crt s)(nat pos := (word_of_int c AND 0xff) OR 0x0700)))
      in if pos < 0 \<or> pos > 25 * 80 then Panic ''pos under/overflow''
         else
           let (pos, m) =
             (if pos div 80 \<ge> 24 then
                let m = (\<lambda>i. if i < 23 * 80 then m (i + 80) else m i);
                    pos = pos - 80;
                    m = (\<lambda>i. if nat pos \<le> i \<and> i < nat pos + nat (24 * 80 - pos) then 0 else m i)
                in (pos, m)
              else (pos, m))
           in Ret (s\<lparr>cursor := word_of_int pos, crt := m(nat pos := 0x20 OR 0x0700)\<rparr>))"

text \<open>The wait for the transmitter is bounded and the byte is sent whatever it found.\<close>

definition uartputc :: "int \<Rightarrow> screen \<Rightarrow> screen" where
  "uartputc c s = (if uart s then s\<lparr>serial := serial s @ [word_of_int c]\<rparr> else s)"

definition consputc :: "int \<Rightarrow> screen \<Rightarrow> screen res" where
  "consputc c s =
     (if panicked s then Hang
      else cgaputc c (if c = BACKSPACE then uartputc 8 (uartputc 0x20 (uartputc 8 s)) else uartputc c s))"

section \<open>The line discipline\<close>

definition INPUT_BUF :: nat where "INPUT_BUF = 128"

record input =
  i_buf :: "nat \<Rightarrow> u8"
  i_r :: u32
  i_w :: u32
  i_e :: u32

text \<open>The listings a control key asks for, called after the lock is released, in this order.\<close>

datatype listing = Procdump | Cfreelist | Creadylist | Csleeplist | Czombielist

definition listings :: "listing list" where
  "listings = [Procdump, Cfreelist, Creadylist, Csleeplist, Czombielist]"

record console =
  cons_lock :: spinlock
  c_in :: input
  c_scr :: screen

function kill_line :: "input \<Rightarrow> screen \<Rightarrow> (input \<times> screen) res" where
  "kill_line i s =
     (if i_e i \<noteq> i_w i \<and> i_buf i (unat (i_e i - 1) mod INPUT_BUF) \<noteq> 10 then
        bindr (consputc BACKSPACE s) (\<lambda>s. kill_line (i\<lparr>i_e := i_e i - 1\<rparr>) s)
      else Ret (i, s))"
  by pat_completeness auto
termination
proof (relation "measure (\<lambda>(i, s). unat (i_e i - i_w i))", simp, clarsimp)
  fix i :: input
  assume "i_e i \<noteq> i_w i"
  then have "unat (i_e i - i_w i - 1) < unat (i_e i - i_w i)"
    using unat_dec_word [of "i_e i - i_w i"] by (simp add: unat_gt_0)
  then show "unat (i_e i - 1 - i_w i) < unat (i_e i - i_w i)" by (simp add: algebra_simps)
qed

declare kill_line.simps [simp del]

text \<open>One turn of the loop of \<open>consoleintr\<close>: the flags, the number of \<open>wakeup(&input.r)\<close> calls.\<close>

definition intr_key :: "int \<Rightarrow> (listing \<Rightarrow> bool) \<Rightarrow> nat \<Rightarrow> input \<Rightarrow> screen \<Rightarrow>
    ((listing \<Rightarrow> bool) \<times> nat \<times> input \<times> screen) res" where
  "intr_key c dl ws i s =
     (if c = 16 then Ret (dl(Procdump := True), ws, i, s)
      else if c = 21 then bindr (kill_line i s) (\<lambda>(i, s). Ret (dl, ws, i, s))
      else if c = 8 \<or> c = 0x7f then
        if i_e i \<noteq> i_w i then
          bindr (consputc BACKSPACE s) (\<lambda>s. Ret (dl, ws, i\<lparr>i_e := i_e i - 1\<rparr>, s))
        else Ret (dl, ws, i, s)
      else if c = 6 then Ret (dl(Cfreelist := True), ws, i, s)
      else if c = 18 then Ret (dl(Creadylist := True), ws, i, s)
      else if c = 19 then Ret (dl(Csleeplist := True), ws, i, s)
      else if c = 26 then Ret (dl(Czombielist := True), ws, i, s)
      else if c \<noteq> 0 \<and> i_e i - i_r i < of_nat INPUT_BUF then
        let c = (if c = 13 then 10 else c);
            i = i\<lparr>i_buf := (i_buf i)(unat (i_e i) mod INPUT_BUF := word_of_int c), i_e := i_e i + 1\<rparr>
        in bindr (consputc c s) (\<lambda>s.
           if c = 10 \<or> c = 4 \<or> i_e i = i_r i + of_nat INPUT_BUF then Ret (dl, Suc ws, i\<lparr>i_w := i_e i\<rparr>, s)
           else Ret (dl, ws, i, s))
      else Ret (dl, ws, i, s))"

text \<open>\<open>cs\<close> is what \<open>getc\<close> returns, call by call; the end of the list counts as a negative value.\<close>

fun intr_loop :: "int list \<Rightarrow> (listing \<Rightarrow> bool) \<Rightarrow> nat \<Rightarrow> input \<Rightarrow> screen \<Rightarrow>
    ((listing \<Rightarrow> bool) \<times> nat \<times> input \<times> screen) res" where
  "intr_loop [] dl ws i s = Ret (dl, ws, i, s)"
| "intr_loop (c # cs) dl ws i s =
     (if c < 0 then Ret (dl, ws, i, s)
      else bindr (intr_key c dl ws i s) (\<lambda>(dl, ws, i, s). intr_loop cs dl ws i s))"

definition consoleintr :: "nat \<Rightarrow> int list \<Rightarrow> console \<Rightarrow> cpu \<Rightarrow> ((listing list \<times> nat) \<times> console \<times> cpu) res" where
  "consoleintr cid cs k cp =
     bindr (acquire cid (cons_lock k) cp) (\<lambda>(l, cp).
     bindr (intr_loop cs (\<lambda>_. False) 0 (c_in k) (c_scr k)) (\<lambda>(dl, ws, i, s).
     bindr (release cid l cp) (\<lambda>(l, cp).
     Ret ((filter dl listings, ws), k\<lparr>cons_lock := l, c_in := i, c_scr := s\<rparr>, cp))))"

datatype cend = CReturn int | CSleep

text \<open>
  The loop of \<open>consoleread\<close> from \<open>n\<close> bytes left on: how the segment ends, the bytes stored at \<open>dst\<close>,
  the bytes left. \<open>n < target\<close> and \<open>target - n\<close> are unsigned.
\<close>

function consoleread_loop :: "bool \<Rightarrow> u32 \<Rightarrow> int \<Rightarrow> input \<Rightarrow> (cend \<times> u8 list \<times> int) \<times> input" where
  "consoleread_loop kl target n i =
     (if n > 0 then
        if i_r i = i_w i then ((if kl then CReturn (-1) else CSleep, [], n), i)
        else
          let c = i_buf i (unat (i_r i) mod INPUT_BUF);
              i' = i\<lparr>i_r := i_r i + 1\<rparr>
          in if c = 4 then
               ((CReturn (sint (target - word_of_int n)), [], n),
                if word_of_int n < target then i'\<lparr>i_r := i_r i' - 1\<rparr> else i')
             else if c = 10 then ((CReturn (sint (target - word_of_int (n - 1))), [c], n - 1), i')
             else let ((e, bs, m), j) = consoleread_loop kl target (n - 1) i' in ((e, c # bs, m), j)
      else ((CReturn (sint (target - word_of_int n)), [], n), i))"
  by pat_completeness auto
termination by (relation "measure (\<lambda>(kl, target, n, i). nat n)") auto

declare consoleread_loop.simps [simp del]

text \<open>A segment of \<open>consoleread\<close> with \<open>n\<close> bytes left of \<open>target\<close>; the call itself starts with all of them.\<close>

definition consoleread_at :: "u32 \<Rightarrow> nat \<Rightarrow> bool \<Rightarrow> int \<Rightarrow> console \<Rightarrow> cpu \<Rightarrow>
    ((cend \<times> u8 list \<times> int) \<times> console \<times> cpu) res" where
  "consoleread_at target cid kl n k cp =
     bindr (acquire cid (cons_lock k) cp) (\<lambda>(l, cp).
     let (r, i) = consoleread_loop kl target n (c_in k)
     in bindr (release cid l cp) (\<lambda>(l, cp). Ret (r, k\<lparr>cons_lock := l, c_in := i\<rparr>, cp)))"

definition consoleread :: "nat \<Rightarrow> bool \<Rightarrow> int \<Rightarrow> console \<Rightarrow> cpu \<Rightarrow>
    ((cend \<times> u8 list \<times> int) \<times> console \<times> cpu) res" where
  "consoleread cid kl n = consoleread_at (word_of_int n) cid kl n"

fun putall :: "u8 list \<Rightarrow> screen \<Rightarrow> screen res" where
  "putall [] s = Ret s"
| "putall (b # bs) s = bindr (consputc (uint b) s) (\<lambda>s. putall bs s)"

definition consolewrite :: "nat \<Rightarrow> (nat \<Rightarrow> u8) \<Rightarrow> int \<Rightarrow> console \<Rightarrow> cpu \<Rightarrow> (int \<times> console \<times> cpu) res" where
  "consolewrite cid buf n k cp =
     bindr (acquire cid (cons_lock k) cp) (\<lambda>(l, cp).
     bindr (putall (map buf [0..<nat n]) (c_scr k)) (\<lambda>s.
     bindr (release cid l cp) (\<lambda>(l, cp). Ret (n, k\<lparr>cons_lock := l, c_scr := s\<rparr>, cp))))"

section \<open>The screen stays within its memory\<close>

text \<open>The cursor is in the first 24 rows; \<open>same_beyond\<close> compares the memory after them.\<close>

definition screen_ok :: "screen \<Rightarrow> bool" where
  "screen_ok s \<longleftrightarrow> \<not> panicked s \<and> uint (cursor s) < 24 * 80"

definition same_beyond :: "screen \<Rightarrow> screen \<Rightarrow> bool" where
  "same_beyond s t \<longleftrightarrow> (\<forall>a \<ge> 24 * 80. crt t a = crt s a)"

lemma same_beyond_refl [simp]: "same_beyond s s"
  by (simp add: same_beyond_def)

lemma same_beyond_trans: "same_beyond s t \<Longrightarrow> same_beyond t u \<Longrightarrow> same_beyond s u"
  by (simp add: same_beyond_def)

text \<open>The cursor after the character is put, before scrolling.\<close>

lemma next_row: "0 \<le> p \<Longrightarrow> p < 24 * 80 \<Longrightarrow> p + (80 - p mod 80) \<le> 24 * 80 \<and> 0 < p + (80 - p mod 80)" for p :: int
  by presburger

lemma scroll_iff: "0 \<le> p \<Longrightarrow> p \<le> 24 * 80 \<Longrightarrow> 24 \<le> p div 80 \<longleftrightarrow> p = 24 * 80" for p :: int
  by presburger

lemma uint_cursor: "0 \<le> p \<Longrightarrow> p < 24 * 80 \<Longrightarrow> uint (word_of_int p :: u16) = p"
  by (simp add: uint_word_of_int)

lemma cgaputc_ok:
  assumes "screen_ok s"
  shows "\<exists>t. cgaputc c s = Ret t \<and> screen_ok t \<and> same_beyond s t"
proof -
  define p where "p = uint (cursor s)"
  have p: "0 \<le> p" "p < 24 * 80" using assms by (simp_all add: p_def screen_ok_def)
  define q where "q = (if c = 10 then p + (80 - p mod 80) else if c = BACKSPACE then (if p > 0 then p - 1 else p) else p + 1)"
  define m where "m = (if c = 10 \<or> c = BACKSPACE then crt s else (crt s)(nat p := (word_of_int c AND 0xff) OR 0x0700))"
  have q: "0 \<le> q" "q \<le> 24 * 80" using p next_row [OF p] by (auto simp: q_def)
  have m: "m a = crt s a" if "24 * 80 \<le> a" for a using that p by (auto simp: m_def)
  have eq: "(if c = 10 then (p + (80 - p mod 80), crt s)
             else if c = BACKSPACE then (if p > 0 then p - 1 else p, crt s)
             else (p + 1, (crt s)(nat p := (word_of_int c AND 0xff) OR 0x0700))) = (q, m)"
    by (simp add: q_def m_def)
  show ?thesis
  proof (cases "q = 24 * 80")
    case True
    then show ?thesis using assms m
      by (simp add: cgaputc_def eq flip: p_def) (auto simp: screen_ok_def same_beyond_def)
  next
    case False
    with q have "q < 24 * 80" by simp
    moreover have "\<not> 24 \<le> q div 80" using False q by (simp add: scroll_iff)
    ultimately show ?thesis using assms m q
      by (simp add: cgaputc_def eq flip: p_def) (auto simp: screen_ok_def same_beyond_def uint_cursor)
  qed
qed

lemma screen_uartputc [simp]:
  "screen_ok (uartputc c s) = screen_ok s" "same_beyond (uartputc c s) t = same_beyond s t"
  by (simp_all add: uartputc_def screen_ok_def same_beyond_def)

lemma consputc_ok:
  assumes "screen_ok s"
  shows "\<exists>t. consputc c s = Ret t \<and> screen_ok t \<and> same_beyond s t"
proof -
  have "\<not> panicked s" using assms by (simp add: screen_ok_def)
  moreover define u where "u = (if c = BACKSPACE then uartputc 8 (uartputc 0x20 (uartputc 8 s)) else uartputc c s)"
  moreover have "screen_ok u" and "same_beyond u t = same_beyond s t" for t using assms by (simp_all add: u_def)
  ultimately show ?thesis using cgaputc_ok [of u c] by (simp add: consputc_def)
qed

lemma putall_ok: "screen_ok s \<Longrightarrow> \<exists>t. putall bs s = Ret t \<and> screen_ok t \<and> same_beyond s t"
proof (induction bs arbitrary: s)
  case (Cons b bs)
  obtain t where "consputc (uint b) s = Ret t" "screen_ok t" "same_beyond s t" using consputc_ok Cons.prems by blast
  then show ?case using Cons.IH [of t] same_beyond_trans by (auto intro: same_beyond_trans)
qed simp

section \<open>The input buffer is a queue of lines and a line under edit\<close>

interpretation cr: ring_index INPUT_BUF
  by unfold_locales (simp_all add: INPUT_BUF_def)

definition ready :: "input \<Rightarrow> u8 list" where
  "ready i = ring INPUT_BUF (i_buf i) (i_r i) (i_w i)"

definition editing :: "input \<Rightarrow> u8 list" where
  "editing i = ring INPUT_BUF (i_buf i) (i_w i) (i_e i)"

definition input_ok :: "input \<Rightarrow> bool" where
  "input_ok i \<longleftrightarrow> length (ready i) + length (editing i) \<le> INPUT_BUF \<and> 10 \<notin> set (editing i)"

text \<open>
  The discipline on the two queues: what a key does to the bytes ready for a reader and the bytes
  of the line being typed.
\<close>

definition edit :: "int \<Rightarrow> u8 list \<times> u8 list \<Rightarrow> u8 list \<times> u8 list" where
  "edit c = (\<lambda>(q, l).
     if c \<in> {16, 6, 18, 19, 26} then (q, l)
     else if c = 21 then (q, [])
     else if c = 8 \<or> c = 127 then (q, butlast l)
     else if c = 0 \<or> length q + length l = INPUT_BUF then (q, l)
     else let b = (if c = 13 then 10 else word_of_int c)
          in if b = 10 \<or> b = 4 \<or> Suc (length q + length l) = INPUT_BUF then (q @ l @ [b], []) else (q, l @ [b]))"

lemma ready_simps [simp]:
  "ready (i\<lparr>i_e := x\<rparr>) = ready i" "editing (i\<lparr>i_r := x\<rparr>) = editing i" "editing (i\<lparr>i_w := i_e i\<rparr>) = []"
  by (simp_all add: ready_def editing_def)

lemma ready_empty: "i_r i = i_w i \<longleftrightarrow> ready i = []"
  by (simp add: ready_def)

lemma editing_empty: "i_e i = i_w i \<longleftrightarrow> editing i = []"
  by (auto simp: editing_def)

lemma total:
  assumes "input_ok i"
  shows "unat (i_e i - i_r i) = length (ready i) + length (editing i)"
proof -
  have "unat (i_w i - i_r i) + unat (i_e i - i_w i) < 2 ^ 32"
    using assms cr.small by (simp add: input_ok_def ready_def editing_def)
  then have "unat ((i_w i - i_r i) + (i_e i - i_w i)) = unat (i_w i - i_r i) + unat (i_e i - i_w i)"
    by (subst unat_word_ariths(1)) simp
  then show ?thesis by (simp add: ready_def editing_def)
qed

lemma has_room:
  "input_ok i \<Longrightarrow> i_e i - i_r i < of_nat INPUT_BUF \<longleftrightarrow> length (ready i) + length (editing i) < INPUT_BUF"
  using total [of i] by (simp add: word_less_nat_alt INPUT_BUF_def)

lemma erase_editing:
  assumes "i_e i \<noteq> i_w i"
  shows "editing i = editing (i\<lparr>i_e := i_e i - 1\<rparr>) @ [i_buf i (unat (i_e i - 1) mod INPUT_BUF)]"
  using cr.ring_unput [of "i_w i" "i_e i" "i_buf i"] assms by (simp add: editing_def)

lemma store_editing:
  fixes i :: input and b :: u8
  assumes "input_ok i" and "length (ready i) + length (editing i) < INPUT_BUF"
  defines "j \<equiv> i\<lparr>i_buf := (i_buf i)(unat (i_e i) mod INPUT_BUF := b), i_e := i_e i + 1\<rparr>"
  shows "ready j = ready i" "editing j = editing i @ [b]"
proof -
  let ?d = "(i_buf i)(unat (i_e i) mod INPUT_BUF := b)"
  have e: "unat (i_e i - i_r i) < INPUT_BUF" "unat (i_w i - i_r i) \<le> unat (i_e i - i_r i)"
    using assms(2) total [OF assms(1)] by (simp_all add: ready_def)
  show ed: "editing j = editing i @ [b]"
    using cr.ring_put [of "i_e i" "i_w i" "i_buf i" b] assms(2) by (simp add: editing_def j_def)
  have "ring INPUT_BUF ?d (i_r i) (i_e i + 1) = ready i @ editing i @ [b]"
    using cr.ring_put [OF e(1), of "i_buf i" b] cr.ring_split [OF e(2), of "i_buf i"] by (simp add: ready_def editing_def)
  moreover have "ring INPUT_BUF ?d (i_r i) (i_e i + 1) = ready j @ editing j"
    using cr.ring_split [of "i_w i" "i_r i" "i_e i + 1" ?d] e cr.unat_diff_Suc [OF e(1)]
    by (simp add: ready_def editing_def j_def)
  ultimately show "ready j = ready i" by (simp add: ed)
qed

definition queues :: "input \<Rightarrow> u8 list \<times> u8 list" where
  "queues i = (ready i, editing i)"

lemma kill_line_ok:
  "screen_ok s \<Longrightarrow> input_ok i \<Longrightarrow>
   \<exists>j t. kill_line i s = Ret (j, t) \<and> queues j = (ready i, []) \<and> screen_ok t \<and> same_beyond s t"
proof (induction i s rule: kill_line.induct)
  case (1 i s)
  show ?case
  proof (cases "editing i = []")
    case True
    then show ?thesis using "1.prems" by (simp add: kill_line.simps [of i] editing_empty queues_def)
  next
    case False
    let ?j = "i\<lparr>i_e := i_e i - 1\<rparr>"
    from False have ne: "i_e i \<noteq> i_w i" by (simp add: editing_empty)
    note er = erase_editing [OF ne]
    have b: "i_buf i (unat (i_e i - 1) mod INPUT_BUF) \<noteq> 10" using "1.prems"(2) er by (auto simp: input_ok_def)
    have j: "input_ok ?j" using "1.prems"(2) er by (auto simp: input_ok_def)
    obtain t where t: "consputc BACKSPACE s = Ret t" "screen_ok t" "same_beyond s t"
      using consputc_ok "1.prems"(1) by blast
    show ?thesis using "1.IH" [of t] t ne b j by (auto simp: kill_line.simps [of i] intro: same_beyond_trans)
  qed
qed

text \<open>One key, as the loop of \<open>consoleintr\<close> handles it.\<close>

definition key_ok :: "int \<Rightarrow> bool" where
  "key_ok c \<longleftrightarrow> 0 \<le> c \<and> c < 256"

lemma input_ok_queues: "input_ok i \<longleftrightarrow> (case queues i of (q, l) \<Rightarrow> length q + length l \<le> INPUT_BUF \<and> 10 \<notin> set l)"
  by (simp add: input_ok_def queues_def)

lemma byte_eq: "key_ok c \<Longrightarrow> 0 \<le> n \<Longrightarrow> n < 256 \<Longrightarrow> (word_of_int c :: u8) = word_of_int n \<longleftrightarrow> c = n"
  by (simp add: key_ok_def word_of_int_eq_iff take_bit_eq_mod)

lemma intr_key_store:
  assumes "screen_ok s" "input_ok i" "key_ok c" "c \<notin> {16, 6, 18, 19, 26, 21, 8, 127, 0}"
    and "length (ready i) + length (editing i) < INPUT_BUF"
  shows "\<exists>ws' j t. intr_key c dl ws i s = Ret (dl, ws', j, t) \<and> queues j = edit c (queues i)
           \<and> input_ok j \<and> screen_ok t \<and> same_beyond s t"
proof -
  define d where "d = (if c = 13 then 10 else c)"
  define b where "b = (if c = 13 then 10 else word_of_int c :: u8)"
  define j where "j = i\<lparr>i_buf := (i_buf i)(unat (i_e i) mod INPUT_BUF := word_of_int d), i_e := i_e i + 1\<rparr>"
  have b: "word_of_int d = b" "d = 10 \<longleftrightarrow> b = 10" "d = 4 \<longleftrightarrow> b = 4"
    using byte_eq [OF assms(3), of 10] byte_eq [OF assms(3), of 4] by (auto simp: d_def b_def)
  obtain t where t: "consputc d s = Ret t" "screen_ok t" "same_beyond s t" using consputc_ok assms(1) by blast
  note st = store_editing [OF assms(2,5), of "word_of_int d", folded j_def, unfolded b(1)]
  have rn: "input_ok j \<or> b = 10" "length (ready j) + length (editing j) \<le> INPUT_BUF" "i_r j = i_r i" "i_w j = i_w i"
    using assms(2,5) st by (auto simp: input_ok_def j_def)
  have sum: "unat (i_e j - i_r j) = Suc (length (ready i) + length (editing i))"
    using cr.unat_diff_Suc [of "i_e i" "i_r i"] total [OF assms(2)] assms(5) by (simp add: j_def)
  have full: "i_e j = i_r i + of_nat INPUT_BUF \<longleftrightarrow> Suc (length (ready i) + length (editing i)) = INPUT_BUF"
  proof -
    have "i_e j = i_r i + of_nat INPUT_BUF \<longleftrightarrow> i_e j - i_r j = of_nat INPUT_BUF" using rn(3) by (auto simp: algebra_simps)
    also have "\<dots> \<longleftrightarrow> Suc (length (ready i) + length (editing i)) = INPUT_BUF"
      using sum by (auto simp: word_unat_eq_iff INPUT_BUF_def)
    finally show ?thesis .
  qed
  have cm: "ready (j\<lparr>i_w := i_e j\<rparr>) = ready i @ editing i @ [b]"
    using cr.ring_split [of "i_w j" "i_r j" "i_e j" "i_buf j"] sum st rn(3,4) by (simp add: ready_def editing_def)
  have run: "intr_key c dl ws i s = bindr (consputc d s) (\<lambda>s.
       if d = 10 \<or> d = 4 \<or> i_e j = i_r j + of_nat INPUT_BUF then Ret (dl, Suc ws, j\<lparr>i_w := i_e j\<rparr>, s) else Ret (dl, ws, j, s))"
    unfolding j_def using assms(4,5) has_room [OF assms(2)]
    by (simp add: intr_key_def Let_def flip: d_def cong: if_cong)
  have ed: "edit c (queues i) = (if b = 10 \<or> b = 4 \<or> Suc (length (ready i) + length (editing i)) = INPUT_BUF
       then (ready i @ editing i @ [b], []) else (ready i, editing i @ [b]))"
    using assms(4,5) by (simp add: edit_def queues_def Let_def flip: b_def)
  show ?thesis
  proof (cases "b = 10 \<or> b = 4 \<or> Suc (length (ready i) + length (editing i)) = INPUT_BUF")
    case True
    then have "queues (j\<lparr>i_w := i_e j\<rparr>) = edit c (queues i)" unfolding ed by (simp add: queues_def cm)
    moreover from this have "input_ok (j\<lparr>i_w := i_e j\<rparr>)" using True assms(5) by (simp add: input_ok_queues ed)
    ultimately show ?thesis using True t rn(3) by (simp add: run b full)
  next
    case False
    then have "queues j = edit c (queues i)" unfolding ed using st by (simp add: queues_def)
    then show ?thesis using False t rn by (auto simp: run b full)
  qed
qed

lemma intr_key_ok:
  assumes "screen_ok s" "input_ok i" "key_ok c"
  shows "\<exists>dl' ws' j t. intr_key c dl ws i s = Ret (dl', ws', j, t) \<and> queues j = edit c (queues i)
           \<and> input_ok j \<and> screen_ok t \<and> same_beyond s t"
proof -
  consider (list) "c \<in> {16, 6, 18, 19, 26}" | (kill) "c = 21" | (erase) "c = 8 \<or> c = 127"
    | (drop) "c \<notin> {16, 6, 18, 19, 26, 21, 8, 127}" "c = 0 \<or> \<not> length (ready i) + length (editing i) < INPUT_BUF"
    | (store) "c \<notin> {16, 6, 18, 19, 26, 21, 8, 127, 0}" "length (ready i) + length (editing i) < INPUT_BUF"
    by auto
  then show ?thesis
  proof cases
    case list
    then show ?thesis using assms by (auto simp: intr_key_def edit_def queues_def)
  next
    case kill
    obtain j t where "kill_line i s = Ret (j, t)" "queues j = (ready i, [])" "screen_ok t" "same_beyond s t"
      using kill_line_ok assms by blast
    then show ?thesis using kill assms(2) by (simp add: intr_key_def edit_def queues_def input_ok_def)
  next
    case erase
    obtain t where t: "consputc BACKSPACE s = Ret t" "screen_ok t" "same_beyond s t"
      using consputc_ok assms(1) by blast
    show ?thesis
    proof (cases "i_e i = i_w i")
      case True
      then show ?thesis using erase assms by (auto simp: intr_key_def edit_def queues_def editing_empty)
    next
      case False
      note er = erase_editing [OF False]
      have "editing (i\<lparr>i_e := i_e i - 1\<rparr>) = butlast (editing i)" by (simp add: er)
      moreover have "input_ok (i\<lparr>i_e := i_e i - 1\<rparr>)" using assms(2) er by (auto simp: input_ok_def)
      ultimately show ?thesis using erase False t by (auto simp: intr_key_def edit_def queues_def)
    qed
  next
    case drop
    then show ?thesis using assms has_room [OF assms(2)] by (auto simp: intr_key_def edit_def queues_def input_ok_def)
  next
    case store
    then show ?thesis using intr_key_store [OF assms] by blast
  qed
qed

lemma intr_loop_ok:
  "screen_ok s \<Longrightarrow> input_ok i \<Longrightarrow> list_all key_ok cs \<Longrightarrow>
   \<exists>dl' ws' j t. intr_loop cs dl ws i s = Ret (dl', ws', j, t) \<and> queues j = fold edit cs (queues i)
           \<and> input_ok j \<and> screen_ok t \<and> same_beyond s t"
proof (induction cs arbitrary: dl ws i s)
  case (Cons c cs)
  then have c: "key_ok c" "\<not> c < 0" by (simp_all add: key_ok_def)
  obtain dl' ws' j t where j: "intr_key c dl ws i s = Ret (dl', ws', j, t)" "queues j = edit c (queues i)"
    "input_ok j" "screen_ok t" "same_beyond s t"
    using intr_key_ok [OF Cons.prems(1,2) c(1)] by blast
  obtain dl'' ws'' k u where "intr_loop cs dl' ws' j t = Ret (dl'', ws'', k, u)" "queues k = fold edit cs (queues j)"
    "input_ok k" "screen_ok u" "same_beyond t u"
    using Cons.IH [OF j(4,3)] Cons.prems(3) by fastforce
  then show ?case using j c same_beyond_trans [OF j(5)] by simp
qed simp

section \<open>Reading lines\<close>

text \<open>
  What a reader that wants \<open>n\<close> more bytes takes from the bytes ready: up to a newline, and not past
  an end of file (control-D), which is consumed only when the reader has nothing yet (\<open>fresh\<close>).
  The last component says whether the call is complete.
\<close>

fun take_line :: "bool \<Rightarrow> nat \<Rightarrow> u8 list \<Rightarrow> u8 list \<times> u8 list \<times> bool" where
  "take_line fresh 0 q = ([], q, True)"
| "take_line fresh (Suc n) [] = ([], [], False)"
| "take_line fresh (Suc n) (b # q) =
     (if b = 4 then ([], if fresh then q else b # q, True)
      else if b = 10 then ([b], q, True)
      else let (bs, r, d) = take_line False n q in (b # bs, r, d))"

lemma take_line_length: "take_line f n q = (bs, r, d) \<Longrightarrow> length r \<le> length q"
  by (induction f n q arbitrary: bs r d rule: take_line.induct) (fastforce simp: Let_def split: if_splits prod.splits)+

lemma ready_get:
  "i_r i \<noteq> i_w i \<Longrightarrow> ready i = i_buf i (unat (i_r i) mod INPUT_BUF) # ready (i\<lparr>i_r := i_r i + 1\<rparr>)"
  using cr.ring_get [of "i_r i" "i_w i" "i_buf i"] by (simp add: ready_def)

lemma sint_left: "0 \<le> k \<Longrightarrow> k < 2 ^ 31 \<Longrightarrow> sint (word_of_int k :: u32) = k"
  by (simp add: sint_uint uint_word_of_int signed_take_bit_int_eq_self)

lemma left_word:
  assumes "0 \<le> m" "m \<le> n" "n < 2 ^ 31"
  shows "sint (word_of_int n - word_of_int m :: u32) = n - m"
    and "(word_of_int m :: u32) < word_of_int n \<longleftrightarrow> m < n"
proof -
  show "sint (word_of_int n - word_of_int m :: u32) = n - m" using sint_left [of "n - m"] assms by simp
  show "(word_of_int m :: u32) < word_of_int n \<longleftrightarrow> m < n" using assms by (simp add: word_less_def uint_word_of_int)
qed

definition read_end :: "bool \<Rightarrow> bool \<Rightarrow> int \<Rightarrow> int \<Rightarrow> cend" where
  "read_end kl complete n m = (if complete then CReturn (n - m) else if kl then CReturn (-1) else CSleep)"

lemma consoleread_loop_ok:
  assumes "consoleread_loop kl (word_of_int n) m i = ((e, bs, m'), j)" and "0 \<le> m" "m \<le> n" "n < 2 ^ 31"
    and "take_line (m = n) (nat m) (ready i) = (bs', q, d)"
  shows "bs = bs' \<and> ready j = q \<and> editing j = editing i \<and> m' = m - int (length bs) \<and> e = read_end kl d n m'"
  using assms
proof (induction "nat m" arbitrary: m i e bs m' j bs' q d)
  case 0
  then show ?case by (auto simp: consoleread_loop.simps read_end_def sint_left)
next
  case (Suc k)
  then have m: "0 < m" "k = nat (m - 1)" "nat m = Suc k" by auto
  note w = left_word [OF Suc.prems(2-4)]
  show ?case
  proof (cases "i_r i = i_w i")
    case True
    then show ?thesis using Suc.prems m by (auto simp: consoleread_loop.simps [of kl _ m] ready_empty read_end_def)
  next
    case False
    let ?c = "i_buf i (unat (i_r i) mod INPUT_BUF)" and ?i = "i\<lparr>i_r := i_r i + 1\<rparr>"
    note g = ready_get [OF False]
    show ?thesis
    proof (cases "?c = 4 \<or> ?c = 10")
      case True
      have "n - (m - 1) < 2 ^ 31 \<or> m - 1 \<le> n" using Suc.prems by simp
      then have w': "sint (word_of_int n - word_of_int (m - 1) :: u32) = n - (m - 1)"
        using left_word(1) [of "m - 1" n] m Suc.prems(3,4) by simp
      show ?thesis
        using True False Suc.prems m g w w'
        by (auto simp: consoleread_loop.simps [of kl _ m] read_end_def Let_def)
    next
      case other: False
      obtain e1 bs1 m1 j1 where r: "consoleread_loop kl (word_of_int n) (m - 1) ?i = ((e1, bs1, m1), j1)" by (metis surj_pair)
      obtain bs2 q2 d2 where t: "take_line (m - 1 = n) (nat (m - 1)) (ready ?i) = (bs2, q2, d2)" by (metis surj_pair)
      have "m - 1 \<noteq> n" using Suc.prems(3) by simp
      then show ?thesis
        using Suc.hyps(1) [OF m(2) r _ _ Suc.prems(4) t] other False Suc.prems(1,3,5) m g r t
        by (auto simp: consoleread_loop.simps [of kl _ m] Let_def)
    qed
  qed
qed

section \<open>The calls\<close>

definition console_ok :: "console \<Rightarrow> bool" where
  "console_ok k \<longleftrightarrow> locked (cons_lock k) = 0 \<and> input_ok (c_in k) \<and> screen_ok (c_scr k)"

text \<open>Writing to the console returns and keeps the screen within its memory.\<close>

lemma consolewrite_ok:
  assumes "console_ok k" and "cpu_ok cp"
  shows "\<exists>k' cp'. consolewrite cid buf n k cp = Ret (n, k', cp') \<and> console_ok k' \<and> c_in k' = c_in k
           \<and> same_beyond (c_scr k) (c_scr k')"
proof -
  have lk: "locked (cons_lock k) = 0" "input_ok (c_in k)" "screen_ok (c_scr k)" using assms(1) by (auto simp: console_ok_def)
  obtain t where "putall (map buf [0..<nat n]) (c_scr k) = Ret t" "screen_ok t" "same_beyond (c_scr k) t"
    using putall_ok [OF lk(3)] by blast
  then show ?thesis using lk assms(2)
    by (simp add: consolewrite_def acquire_free release_held holding_def console_ok_def)
qed

text \<open>
  C13: Whatever keys an interrupt delivers, \<open>consoleintr\<close> comes back with the console lock released,
  never reaches the \<open>pos under/overflow\<close> panic, keeps the cursor in the first 24 rows and writes no
  display memory after them, and leaves the input buffer as the line discipline says: the keys edit
  the line being typed, and a newline, an end of file or a full buffer hands it to the readers.
\<close>

theorem consoleintr_edits:
  assumes "console_ok k" and "cpu_ok cp" and "list_all key_ok cs"
  shows "\<exists>ls ws k' cp'. consoleintr cid cs k cp = Ret ((ls, ws), k', cp') \<and> console_ok k'
           \<and> queues (c_in k') = fold edit cs (queues (c_in k)) \<and> same_beyond (c_scr k) (c_scr k')"
proof -
  have lk: "locked (cons_lock k) = 0" "input_ok (c_in k)" "screen_ok (c_scr k)" using assms(1) by (auto simp: console_ok_def)
  obtain dl ws j t where "intr_loop cs (\<lambda>_. False) 0 (c_in k) (c_scr k) = Ret (dl, ws, j, t)"
    "queues j = fold edit cs (queues (c_in k))" "input_ok j" "screen_ok t" "same_beyond (c_scr k) t"
    using intr_loop_ok [OF lk(3,2) assms(3)] by blast
  then show ?thesis using lk assms(2)
    by (simp add: consoleintr_def acquire_free release_held holding_def console_ok_def)
qed

text \<open>
  C14: A segment of \<open>consoleread\<close> that has \<open>m\<close> of its \<open>n\<close> bytes left stores the bytes a reader is due,
  in the order they were typed: at most \<open>m\<close>, up to a newline, none past an end of file. What it does not
  take stays for the next reader, the line being typed is left alone, the lock is released, and the call
  returns the number of bytes read, or waits for more input, or fails if the process was killed.
\<close>

theorem consoleread_lines:
  assumes "console_ok k" and "cpu_ok cp" and "0 \<le> m" "m \<le> n" "n < 2 ^ 31"
    and "take_line (m = n) (nat m) (ready (c_in k)) = (bs, q, d)"
  shows "\<exists>k' cp'. consoleread_at (word_of_int n) cid kl m k cp
             = Ret ((read_end kl d n (m - int (length bs)), bs, m - int (length bs)), k', cp')
           \<and> console_ok k' \<and> queues (c_in k') = (q, editing (c_in k)) \<and> c_scr k' = c_scr k"
proof -
  have lk: "locked (cons_lock k) = 0" "input_ok (c_in k)" "screen_ok (c_scr k)" using assms(1) by (auto simp: console_ok_def)
  obtain e bs' m' j where r: "consoleread_loop kl (word_of_int n) m (c_in k) = ((e, bs', m'), j)" by (metis surj_pair)
  note ok = consoleread_loop_ok [OF r assms(3-6)]
  have "length q \<le> length (ready (c_in k))" using take_line_length assms(6) by blast
  then have "input_ok j" using ok lk(2) by (simp add: input_ok_def)
  then show ?thesis using ok r lk assms(2)
    by (simp add: consoleread_at_def acquire_free release_held holding_def console_ok_def queues_def)
qed

section \<open>A line typed and read\<close>

definition demo_console :: console where
  "demo_console = \<lparr>cons_lock = \<lparr>locked = 0, lk_name = ''console'', lk_cpu = None\<rparr>,
     c_in = \<lparr>i_buf = (\<lambda>_. 0)(126 := 104, 127 := 105, 0 := 10, 1 := 120), i_r = 0xfffffffe, i_w = 1, i_e = 2\<rparr>,
     c_scr = \<lparr>panicked = False, uart = True, serial = [], cursor = 0x77f, crt = (\<lambda>_. 0)\<rparr>\<rparr>"

definition console_cpu :: cpu where
  "console_cpu = \<lparr>ncli = 0, intena = False, if_flag = False, cpu_proc = None\<rparr>"

lemma demo_console_ok:
  "console_ok demo_console" "cpu_ok console_cpu" "ready (c_in demo_console) = [104, 105, 10]"
  "editing (c_in demo_console) = [120]"
proof -
  show r: "ready (c_in demo_console) = [104, 105, 10]"
    by (simp add: ready_def ring_def demo_console_def INPUT_BUF_def upt_rec)
  show e: "editing (c_in demo_console) = [120]"
    by (simp add: editing_def ring_def demo_console_def INPUT_BUF_def)
  show "cpu_ok console_cpu" by (simp add: cpu_ok_def console_cpu_def)
  show "console_ok demo_console" using r e
    by (simp add: console_ok_def input_ok_def screen_ok_def INPUT_BUF_def) (simp add: demo_console_def)
qed

theorem consoleintr_edits_witness:
  "\<exists>ls ws k' cp'. consoleintr 0 [8, 97, 98, 127, 13] demo_console console_cpu = Ret ((ls, ws), k', cp')
     \<and> console_ok k' \<and> queues (c_in k') = ([104, 105, 10, 97, 10], [])"
proof -
  have "list_all key_ok [8, 97, 98, 127, 13]" by (simp add: key_ok_def)
  from consoleintr_edits [OF demo_console_ok(1,2) this, of 0] show ?thesis
    by (auto simp: queues_def demo_console_ok edit_def INPUT_BUF_def)
qed

theorem consoleread_lines_witness:
  "\<exists>k' cp'. consoleread_at 100 0 False 100 demo_console console_cpu = Ret ((CReturn 3, [104, 105, 10], 97), k', cp')
     \<and> console_ok k' \<and> queues (c_in k') = ([], [120])"
proof -
  have "take_line True (Suc (Suc (Suc 97))) (ready (c_in demo_console)) = ([104, 105, 10], [], True)"
    unfolding demo_console_ok take_line.simps by simp
  then show ?thesis
    using consoleread_lines [OF demo_console_ok(1,2), of 100 100 "[104, 105, 10]" "[]" True 0 False]
    by (auto simp: demo_console_ok read_end_def)
qed

end
