(* ===== verification/Thread.thy ===== *)
theory Thread
  imports Ptable
begin

text \<open>
  The part of the machine every file-system routine touches: the spin locks of the file system, the
  CPU the thread runs on, and the \<open>wakeup\<close> calls it makes. The routines are modelled as one thread
  runs them when no other thread is active: taking a lock another CPU holds, or sleeping until
  another thread acts, never ends (\<open>Hang\<close>).
\<close>

datatype flk = LkBcache | LkLog | LkIcache | LkFtable

record kthr =
  lks :: "flk \<Rightarrow> spinlock"
  tcpu :: cpu
  tme :: nat
  twoken :: "chan list"

definition acq :: "flk \<Rightarrow> 'a kthr_scheme \<Rightarrow> 'a kthr_scheme res" where
  "acq l s = bindr (acquire (tme s) (lks s l) (tcpu s)) (\<lambda>(k, cp). Ret (s\<lparr>lks := (lks s)(l := k), tcpu := cp\<rparr>))"

definition rel :: "flk \<Rightarrow> 'a kthr_scheme \<Rightarrow> 'a kthr_scheme res" where
  "rel l s = bindr (release (tme s) (lks s l) (tcpu s)) (\<lambda>(k, cp). Ret (s\<lparr>lks := (lks s)(l := k), tcpu := cp\<rparr>))"

definition wake :: "chan \<Rightarrow> 'a kthr_scheme \<Rightarrow> 'a kthr_scheme" where
  "wake ch s = s\<lparr>twoken := twoken s @ [ch]\<rparr>"

section \<open>Critical sections\<close>

text \<open>Between calls every lock is free; inside a section exactly one is held, by this CPU.\<close>

definition quiet :: "'a kthr_scheme \<Rightarrow> bool" where
  "quiet s \<longleftrightarrow> (\<forall>l. locked (lks s l) = 0) \<and> cpu_ok (tcpu s)"

definition ent :: "flk \<Rightarrow> 'a kthr_scheme \<Rightarrow> 'a kthr_scheme" where
  "ent l s = s\<lparr>lks := (lks s)(l := (lks s l)\<lparr>locked := 1, lk_cpu := Some (tme s)\<rparr>), tcpu := pushcli (tcpu s)\<rparr>"

definition lv :: "flk \<Rightarrow> 'a kthr_scheme \<Rightarrow> 'a kthr_scheme" where
  "lv l s = s\<lparr>lks := (lks s)(l := (lks s l)\<lparr>lk_cpu := None, locked := 0\<rparr>),
              tcpu := (tcpu s)\<lparr>ncli := ncli (tcpu s) - 1, if_flag := (ncli (tcpu s) = 1 \<and> intena (tcpu s))\<rparr>\<rparr>"

definition inside :: "flk \<Rightarrow> 'a kthr_scheme \<Rightarrow> bool" where
  "inside l s \<longleftrightarrow> holding (lks s l) (tme s) \<and> (\<forall>k. k \<noteq> l \<longrightarrow> locked (lks s k) = 0) \<and> cpu_ok (tcpu s) \<and> 0 < ncli (tcpu s)"

lemma acq_quiet: "quiet s \<Longrightarrow> acq l s = Ret (ent l s)"
  by (simp add: quiet_def acq_def acquire_free ent_def)

lemma inside_ent: "quiet s \<Longrightarrow> inside l (ent l s)"
  by (auto simp: quiet_def inside_def ent_def holding_def cpu_ok_def pushcli_def Let_def)

lemma rel_inside: "inside l s \<Longrightarrow> rel l s = Ret (lv l s)"
  by (simp add: inside_def rel_def release_def popcli_ok xchg_def lv_def)

lemma quiet_lv: "inside l s \<Longrightarrow> quiet (lv l s)"
  by (auto simp: inside_def quiet_def lv_def cpu_ok_def)

lemmas cs_simps = acq_quiet inside_ent rel_inside quiet_lv

end
