(* ===== verification/Bio.thy ===== *)
theory Bio
  imports Thread
begin

text \<open>
  The buffer cache (\<open>src/bio.c\<close>, \<open>src/buf.h\<close>) over the memory disk of \<open>src/memide.c\<close>: a fixed set
  of buffers on a doubly linked ring in order of use. \<open>bwrites\<close> is a history variable, the disk
  writes so far in order; it is what a power failure can cut short.
\<close>

section \<open>State\<close>

definition BSIZE :: nat where "BSIZE = 512"

definition B_BUSY :: u32 where "B_BUSY = 1"
definition B_VALID :: u32 where "B_VALID = 2"
definition B_DIRTY :: u32 where "B_DIRTY = 4"

text \<open>A pointer to a buffer: \<open>&bcache.head\<close> or \<open>&bcache.buf[i]\<close>.\<close>

datatype bref = BHead | Buf nat

record buf =
  bflags :: u32
  bdev :: u32
  blockno :: u32
  bprev :: bref
  bnext :: bref
  bdata :: "u8 list"

record bst = kthr +
  bufs :: "bref \<Rightarrow> buf"
  memdisk :: "nat \<Rightarrow> u8 list"
  disksize :: u32
  bwrites :: "(nat \<times> u8 list) list"

definition updb :: "bref \<Rightarrow> (buf \<Rightarrow> buf) \<Rightarrow> 'a bst_scheme \<Rightarrow> 'a bst_scheme" where
  "updb b f s = s\<lparr>bufs := (bufs s)(b := f (bufs s b))\<rparr>"

definition busy :: "'a bst_scheme \<Rightarrow> nat \<Rightarrow> bool" where
  "busy s i \<longleftrightarrow> bflags (bufs s (Buf i)) AND B_BUSY \<noteq> 0"

definition valid :: "'a bst_scheme \<Rightarrow> nat \<Rightarrow> bool" where
  "valid s i \<longleftrightarrow> bflags (bufs s (Buf i)) AND B_VALID \<noteq> 0"

definition dirty :: "'a bst_scheme \<Rightarrow> nat \<Rightarrow> bool" where
  "dirty s i \<longleftrightarrow> bflags (bufs s (Buf i)) AND B_DIRTY \<noteq> 0"

section \<open>The disk\<close>

definition iderw :: "nat \<Rightarrow> 'a bst_scheme \<Rightarrow> 'a bst_scheme res" where
  "iderw i s =
     (let b = bufs s (Buf i) in
      if bflags b AND B_BUSY = 0 then Panic ''iderw: buf not busy''
      else if bflags b AND (B_VALID OR B_DIRTY) = B_VALID then Panic ''iderw: nothing to do''
      else if bdev b \<noteq> 1 then Panic ''iderw: request not for disk 1''
      else if blockno b \<ge> disksize s then Panic ''iderw: block out of range''
      else let p = unat (blockno b);
               s = (if bflags b AND B_DIRTY \<noteq> 0
                    then updb (Buf i) (\<lambda>b. b\<lparr>bflags := bflags b AND NOT B_DIRTY\<rparr>)
                           (s\<lparr>memdisk := (memdisk s)(p := bdata b), bwrites := bwrites s @ [(p, bdata b)]\<rparr>)
                    else updb (Buf i) (\<lambda>b. b\<lparr>bdata := memdisk s p\<rparr>) s)
           in Ret (updb (Buf i) (\<lambda>b. b\<lparr>bflags := bflags b OR B_VALID\<rparr>) s))"

section \<open>The cache\<close>

text \<open>\<open>b->next\<close> and \<open>b->prev\<close>, with \<open>&bcache.head\<close> as the end of the list.\<close>

definition fwd :: "'a bst_scheme \<Rightarrow> bref \<Rightarrow> nat option" where
  "fwd s b = (case bnext (bufs s b) of BHead \<Rightarrow> None | Buf i \<Rightarrow> Some i)"

definition bwd :: "'a bst_scheme \<Rightarrow> bref \<Rightarrow> nat option" where
  "bwd s b = (case bprev (bufs s b) of BHead \<Rightarrow> None | Buf i \<Rightarrow> Some i)"

text \<open>Linking a buffer in behind the head.\<close>

definition push_front :: "nat \<Rightarrow> 'a bst_scheme \<Rightarrow> 'a bst_scheme" where
  "push_front i s =
     (let s = updb (Buf i) (\<lambda>b. b\<lparr>bnext := bnext (bufs s BHead)\<rparr>) s;
          s = updb (Buf i) (\<lambda>b. b\<lparr>bprev := BHead\<rparr>) s;
          s = updb (bnext (bufs s BHead)) (\<lambda>b. b\<lparr>bprev := Buf i\<rparr>) s
      in updb BHead (\<lambda>b. b\<lparr>bnext := Buf i\<rparr>) s)"

definition binit :: "'a bst_scheme \<Rightarrow> 'a bst_scheme" where
  "binit s =
     (let s = s\<lparr>lks := (lks s)(LkBcache := initlock (lks s LkBcache) ''bcache'')\<rparr>;
          s = updb BHead (\<lambda>b. b\<lparr>bprev := BHead\<rparr>) s;
          s = updb BHead (\<lambda>b. b\<lparr>bnext := BHead\<rparr>) s
      in fold (\<lambda>i s. updb (Buf i) (\<lambda>b. b\<lparr>bdev := -1\<rparr>) (push_front i s)) [0..<NBUF] s)"

definition bget :: "u32 \<Rightarrow> u32 \<Rightarrow> 'a bst_scheme \<Rightarrow> (nat \<times> 'a bst_scheme) res" where
  "bget d no s0 =
     bindr (acq LkBcache s0) (\<lambda>s.
     bindr (of_loop (find_from (\<lambda>i. bdev (bufs s (Buf i)) = d \<and> blockno (bufs s (Buf i)) = no) (\<lambda>i. fwd s (Buf i)) (fwd s BHead))) (\<lambda>r.
     case r of
       Some i \<Rightarrow>
         if \<not> busy s i
         then bindr (rel LkBcache (updb (Buf i) (\<lambda>b. b\<lparr>bflags := bflags b OR B_BUSY\<rparr>) s)) (\<lambda>s. Ret (i, s))
         else Hang
     | None \<Rightarrow>
         bindr (of_loop (find_from (\<lambda>i. \<not> busy s i \<and> \<not> dirty s i) (\<lambda>i. bwd s (Buf i)) (bwd s BHead))) (\<lambda>r.
         case r of
           Some i \<Rightarrow>
             bindr (rel LkBcache (updb (Buf i) (\<lambda>b. b\<lparr>bdev := d, blockno := no, bflags := B_BUSY\<rparr>) s)) (\<lambda>s. Ret (i, s))
         | None \<Rightarrow> Panic ''bget: no buffers'')))"

definition bread :: "u32 \<Rightarrow> u32 \<Rightarrow> 'a bst_scheme \<Rightarrow> (nat \<times> 'a bst_scheme) res" where
  "bread d no s =
     bindr (bget d no s) (\<lambda>(i, s).
     if \<not> valid s i then bindr (iderw i s) (\<lambda>s. Ret (i, s)) else Ret (i, s))"

definition bwrite :: "nat \<Rightarrow> 'a bst_scheme \<Rightarrow> 'a bst_scheme res" where
  "bwrite i s =
     (if \<not> busy s i then Panic ''bwrite''
      else iderw i (updb (Buf i) (\<lambda>b. b\<lparr>bflags := bflags b OR B_DIRTY\<rparr>) s))"

definition unlink_buf :: "nat \<Rightarrow> 'a bst_scheme \<Rightarrow> 'a bst_scheme" where
  "unlink_buf i s =
     (let s = updb (bnext (bufs s (Buf i))) (\<lambda>b. b\<lparr>bprev := bprev (bufs s (Buf i))\<rparr>) s
      in updb (bprev (bufs s (Buf i))) (\<lambda>b. b\<lparr>bnext := bnext (bufs s (Buf i))\<rparr>) s)"

definition brelse :: "nat \<Rightarrow> 'a bst_scheme \<Rightarrow> 'a bst_scheme res" where
  "brelse i s0 =
     (if \<not> busy s0 i then Panic ''brelse''
      else bindr (acq LkBcache s0) (\<lambda>s.
           let s = push_front i (unlink_buf i s);
               s = updb (Buf i) (\<lambda>b. b\<lparr>bflags := bflags b AND NOT B_BUSY\<rparr>) s
           in rel LkBcache (wake (ChBuf i) s)))"

section \<open>The ring\<close>

text \<open>Consecutive buffers point at each other.\<close>

fun dll :: "('b \<Rightarrow> 'b) \<Rightarrow> ('b \<Rightarrow> 'b) \<Rightarrow> 'b list \<Rightarrow> bool" where
  "dll n p (a # b # r) \<longleftrightarrow> n a = b \<and> p b = a \<and> dll n p (b # r)"
| "dll n p r \<longleftrightarrow> True"

lemma dll_append: "dll n p (xs @ m # ys) \<longleftrightarrow> dll n p (xs @ [m]) \<and> dll n p (m # ys)"
proof (induction xs)
  case (Cons x xs)
  then show ?case by (cases xs) auto
qed simp

lemma dll_cong: "(\<And>x. x \<in> set (butlast xs) \<Longrightarrow> n x = n' x) \<Longrightarrow> (\<And>x. x \<in> set (tl xs) \<Longrightarrow> p x = p' x) \<Longrightarrow> dll n p xs = dll n' p' xs"
proof (induction n p xs rule: dll.induct)
  case (1 n p a b r)
  then show ?case by (cases r) auto
qed auto

lemma dll_upd:
  "a \<notin> set (butlast xs) \<Longrightarrow> b \<notin> set (tl xs) \<Longrightarrow> dll (n(a := u)) (p(b := v)) xs = dll n p xs"
  by (rule dll_cong) auto

definition ring_of :: "(bref \<Rightarrow> bref) \<Rightarrow> (bref \<Rightarrow> bref) \<Rightarrow> nat list \<Rightarrow> bool" where
  "ring_of n p xs \<longleftrightarrow> dll n p (BHead # map Buf xs @ [BHead])"

lemma ring_unlink:
  assumes "ring_of n p (us @ i # vs)" and "distinct (us @ i # vs)"
  shows "ring_of (n(p (Buf i) := n (Buf i))) (p(n (Buf i) := p (Buf i))) (us @ vs)"
proof -
  obtain A a where L: "BHead # map Buf us = A @ [a]" by (metis append_butlast_last_id list.distinct(1))
  obtain b B where R: "map Buf vs @ [BHead] = b # B" by (cases "map Buf vs") auto
  have "dll n p ((A @ [a]) @ Buf i # b # B)"
    using assms(1) unfolding ring_of_def L [symmetric] R [symmetric] by simp
  then have d: "dll n p (A @ [a])" "n a = Buf i" "p (Buf i) = a" "n (Buf i) = b" "p b = Buf i" "dll n p (b # B)"
    using dll_append [of n p A a "Buf i # b # B"] by simp_all
  let ?n = "n(a := b)" and ?p = "p(b := a)"
  have e: "tl (A @ [a]) = map Buf us" "butlast (b # B) = map Buf vs"
    unfolding L [symmetric] R [symmetric] by simp_all
  have "a \<notin> set A" "b \<notin> set (map Buf us)" "a \<notin> set (map Buf vs)" "b \<notin> set B"
    using L R assms(2) by (cases us rule: rev_cases; cases vs; auto)+
  then have "dll ?n ?p (A @ [a])" "dll ?n ?p (b # B)"
    using d(1,6) by (subst dll_upd; simp add: e del: butlast.simps)+
  then have "dll ?n ?p (A @ a # b # B)" using dll_append [of ?n ?p A a "b # B"] by simp
  then show ?thesis unfolding ring_of_def d using L R by (metis append_Cons append_assoc append_Nil map_append)
qed

lemma ring_push:
  assumes "ring_of n p xs" and "i \<notin> set xs" and "distinct xs"
  shows "ring_of (n(Buf i := n BHead, BHead := Buf i)) (p(Buf i := BHead, n BHead := Buf i)) (i # xs)"
proof -
  obtain c C where R: "map Buf xs @ [BHead] = c # C" by (cases "map Buf xs") auto
  have d: "n BHead = c" "dll n p (c # C)" using assms(1) unfolding ring_of_def R by simp_all
  let ?n = "n(Buf i := c, BHead := Buf i)" and ?p = "p(Buf i := BHead, c := Buf i)"
  have "map Buf xs = butlast (c # C)" using R [symmetric] by simp
  moreover have "c \<notin> set C" "c \<noteq> Buf i" "Buf i \<notin> set C" using R assms(2,3) by (cases xs; auto)+
  ultimately have "dll ?n ?p (c # C)"
    using d(2) assms(2) dll_cong [of "c # C" ?n n ?p p] by (metis (no_types, lifting) bref.distinct(1) bref.inject fun_upd_other imageE list.sel(3) list.set_map)
  then show ?thesis unfolding ring_of_def d using R \<open>c \<noteq> Buf i\<close> by simp
qed

section \<open>Flags\<close>

lemma and_bit: "(x :: u32) AND 1 = 0 \<longleftrightarrow> \<not> bit x 0" "x AND 2 = 0 \<longleftrightarrow> \<not> bit x 1" "x AND 4 = 0 \<longleftrightarrow> \<not> bit x 2"
  using and_exp_eq_0_iff_not_bit [of x 0] and_exp_eq_0_iff_not_bit [of x 1] and_exp_eq_0_iff_not_bit [of x 2] by simp_all

lemma flag_tests:
  "busy s i \<longleftrightarrow> bit (bflags (bufs s (Buf i))) 0" "valid s i \<longleftrightarrow> bit (bflags (bufs s (Buf i))) 1"
  "dirty s i \<longleftrightarrow> bit (bflags (bufs s (Buf i))) 2"
  by (simp_all add: busy_def valid_def dirty_def B_BUSY_def B_VALID_def B_DIRTY_def and_bit)

lemma flag_consts:
  "bit B_BUSY k \<longleftrightarrow> k = 0" "bit B_VALID k \<longleftrightarrow> k = 1" "bit B_DIRTY k \<longleftrightarrow> k = 2"
proof -
  have "bit (2 ^ j :: u32) k \<longleftrightarrow> k = j" if "j < 32" for j using that by (auto simp: bit_simps)
  from this [of 0] this [of 1] this [of 2] show "bit B_BUSY k \<longleftrightarrow> k = 0" "bit B_VALID k \<longleftrightarrow> k = 1" "bit B_DIRTY k \<longleftrightarrow> k = 2"
    by (simp_all add: B_BUSY_def B_VALID_def B_DIRTY_def)
qed

lemma nothing_to_do: "x AND (B_VALID OR B_DIRTY) = B_VALID \<longleftrightarrow> bit x 1 \<and> \<not> bit x 2"
proof
  assume "x AND (B_VALID OR B_DIRTY) = B_VALID"
  then have "bit (x AND (B_VALID OR B_DIRTY)) k = bit B_VALID k" for k by simp
  from this [of 1] this [of 2] show "bit x 1 \<and> \<not> bit x 2" by (simp add: bit_simps flag_consts)
next
  assume "bit x 1 \<and> \<not> bit x 2"
  then show "x AND (B_VALID OR B_DIRTY) = B_VALID"
    by (auto intro!: bit_word_eqI simp: bit_simps flag_consts)
qed

lemma flag_and: "x AND B_BUSY = 0 \<longleftrightarrow> \<not> bit x 0" "x AND B_DIRTY = 0 \<longleftrightarrow> \<not> bit x 2"
  by (simp_all add: B_BUSY_def B_DIRTY_def and_bit)

lemma flag_upd:
  "bit (x OR B_BUSY) k \<longleftrightarrow> bit x k \<or> k = 0" "bit (x OR B_VALID) k \<longleftrightarrow> bit x k \<or> k = 1" "bit (x OR B_DIRTY) k \<longleftrightarrow> bit x k \<or> k = 2"
  "bit (x AND NOT B_BUSY) k \<longleftrightarrow> bit x k \<and> k \<noteq> 0" "bit (x AND NOT B_DIRTY) k \<longleftrightarrow> bit x k \<and> k \<noteq> 2" for x :: u32
  by (auto simp: bit_simps flag_consts dest: bit_imp_le_length)

lemma B_DIRTY_nz: "B_DIRTY \<noteq> 0"
  by (simp add: B_DIRTY_def)

lemmas flag_simps = flag_tests flag_consts nothing_to_do flag_and flag_upd

section \<open>What the cache holds\<close>

lemma dll_rev: "dll n p xs = dll p n (rev xs)"
proof (induction n p xs rule: dll.induct)
  case (1 n p a b r)
  then show ?case using dll_append [of p n "rev r" b "[a]"] by auto
qed auto

lemma dll_chain:
  "dll n p (a # map Buf xs @ [BHead]) \<Longrightarrow>
   chain (\<lambda>i. case n (Buf i) of BHead \<Rightarrow> None | Buf j \<Rightarrow> Some j) (case n a of BHead \<Rightarrow> None | Buf j \<Rightarrow> Some j) xs"
  by (induction xs arbitrary: a) auto

lemma ring_chains:
  assumes "ring_of (\<lambda>b. bnext (bufs s b)) (\<lambda>b. bprev (bufs s b)) xs"
  shows "chain (\<lambda>i. fwd s (Buf i)) (fwd s BHead) xs" and "chain (\<lambda>i. bwd s (Buf i)) (bwd s BHead) (rev xs)"
proof -
  show "chain (\<lambda>i. fwd s (Buf i)) (fwd s BHead) xs"
    using assms unfolding ring_of_def fwd_def by (rule dll_chain)
  have "dll (\<lambda>b. bprev (bufs s b)) (\<lambda>b. bnext (bufs s b)) (BHead # map Buf (rev xs) @ [BHead])"
    using assms unfolding ring_of_def by (subst dll_rev) (simp add: rev_map)
  then show "chain (\<lambda>i. bwd s (Buf i)) (bwd s BHead) (rev xs)" unfolding bwd_def by (rule dll_chain)
qed

text \<open>The ring order, the most recently released buffer first.\<close>

definition lru :: "'a bst_scheme \<Rightarrow> nat list \<Rightarrow> bool" where
  "lru s xs \<longleftrightarrow> ring_of (\<lambda>b. bnext (bufs s b)) (\<lambda>b. bprev (bufs s b)) xs \<and> distinct xs \<and> set xs = {..<NBUF}"

definition cached :: "'a bst_scheme \<Rightarrow> nat \<Rightarrow> nat \<Rightarrow> bool" where
  "cached s i n \<longleftrightarrow> i < NBUF \<and> bdev (bufs s (Buf i)) = 1 \<and> unat (blockno (bufs s (Buf i))) = n"

text \<open>
  The cache over its disk stands for the blocks \<open>V\<close>, with the buffers \<open>K\<close> in use: at most one
  buffer per block, every valid buffer has the block's contents, and so has the disk where no
  buffer is dirty.
\<close>

definition brep :: "'a bst_scheme \<Rightarrow> (nat \<Rightarrow> u8 list) \<Rightarrow> nat set \<Rightarrow> bool" where
  "brep s V K \<longleftrightarrow> quiet s \<and> (\<exists>xs. lru s xs) \<and> K \<subseteq> {..<NBUF}
     \<and> (\<forall>i j n. cached s i n \<and> cached s j n \<longrightarrow> i = j)
     \<and> (\<forall>i n. cached s i n \<and> valid s i \<longrightarrow> bdata (bufs s (Buf i)) = V n \<and> n < unat (disksize s))
     \<and> (\<forall>n<unat (disksize s). (\<forall>i. cached s i n \<longrightarrow> \<not> dirty s i) \<longrightarrow> memdisk s n = V n)
     \<and> (\<forall>i<NBUF. dirty s i \<or> i \<in> K \<longrightarrow> valid s i \<and> bdev (bufs s (Buf i)) = 1)
     \<and> (\<forall>i<NBUF. busy s i \<longleftrightarrow> i \<in> K)
     \<and> (\<forall>n<unat (disksize s). length (V n) = BSIZE)"

lemma updb_simps [simp]:
  "bufs (updb b f s) = (bufs s)(b := f (bufs s b))" "memdisk (updb b f s) = memdisk s" "disksize (updb b f s) = disksize s"
  "bwrites (updb b f s) = bwrites s" "lks (updb b f s) = lks s" "tcpu (updb b f s) = tcpu s" "tme (updb b f s) = tme s"
  "bst.more (updb b f s) = bst.more s"
  by (simp_all add: updb_def)

lemma cs_fields [simp]:
  "bufs (ent l s) = bufs s" "memdisk (ent l s) = memdisk s" "disksize (ent l s) = disksize s" "bwrites (ent l s) = bwrites s"
  "bufs (lv l s) = bufs s" "memdisk (lv l s) = memdisk s" "disksize (lv l s) = disksize s" "bwrites (lv l s) = bwrites s"
  "bst.more (ent l s) = bst.more s" "bst.more (lv l s) = bst.more s"
  "bufs (wake ch s) = bufs s" "memdisk (wake ch s) = memdisk s" "disksize (wake ch s) = disksize s" "bwrites (wake ch s) = bwrites s"
  "bst.more (wake ch s) = bst.more s"
  by (simp_all add: ent_def lv_def wake_def)

lemma inside_fields [simp]:
  "inside l (updb b f s) = inside l s" "inside l (wake ch s) = inside l s" "quiet (updb b f s) = quiet s"
  "inside l (s\<lparr>memdisk := x\<rparr>) = inside l s" "quiet (s\<lparr>memdisk := x\<rparr>) = quiet s" "quiet (s\<lparr>bwrites := y\<rparr>) = quiet s"
  by (simp_all add: inside_def quiet_def wake_def)

lemma lru_cong: "(\<And>b. bnext (bufs s' b) = bnext (bufs s b) \<and> bprev (bufs s' b) = bprev (bufs s b)) \<Longrightarrow> lru s' xs = lru s xs"
  by (simp add: lru_def)

lemma brepI:
  assumes "quiet s" and "lru s xs" and "K \<subseteq> {..<NBUF}" and "\<And>i j n. cached s i n \<Longrightarrow> cached s j n \<Longrightarrow> i = j"
    and "\<And>i n. cached s i n \<Longrightarrow> valid s i \<Longrightarrow> bdata (bufs s (Buf i)) = V n" and "\<And>i n. cached s i n \<Longrightarrow> valid s i \<Longrightarrow> n < unat (disksize s)"
    and "\<And>n. n < unat (disksize s) \<Longrightarrow> (\<And>i. cached s i n \<Longrightarrow> \<not> dirty s i) \<Longrightarrow> memdisk s n = V n"
    and "\<And>i. i < NBUF \<Longrightarrow> dirty s i \<or> i \<in> K \<Longrightarrow> valid s i" and "\<And>i. i < NBUF \<Longrightarrow> dirty s i \<or> i \<in> K \<Longrightarrow> bdev (bufs s (Buf i)) = 1"
    and "\<And>i. i < NBUF \<Longrightarrow> busy s i \<longleftrightarrow> i \<in> K" and "\<And>n. n < unat (disksize s) \<Longrightarrow> length (V n) = BSIZE"
  shows "brep s V K"
  using assms unfolding brep_def by blast

lemma brepD:
  assumes "brep s V K"
  shows "quiet s" and "\<exists>xs. lru s xs" and "K \<subseteq> {..<NBUF}" and "\<And>i j n. cached s i n \<Longrightarrow> cached s j n \<Longrightarrow> i = j"
    and "\<And>i n. cached s i n \<Longrightarrow> valid s i \<Longrightarrow> bdata (bufs s (Buf i)) = V n" and "\<And>i n. cached s i n \<Longrightarrow> valid s i \<Longrightarrow> n < unat (disksize s)"
    and "\<And>n. n < unat (disksize s) \<Longrightarrow> (\<And>i. cached s i n \<Longrightarrow> \<not> dirty s i) \<Longrightarrow> memdisk s n = V n"
    and "\<And>i. i < NBUF \<Longrightarrow> dirty s i \<or> i \<in> K \<Longrightarrow> valid s i" and "\<And>i. i < NBUF \<Longrightarrow> dirty s i \<or> i \<in> K \<Longrightarrow> bdev (bufs s (Buf i)) = 1"
    and "\<And>i. i < NBUF \<Longrightarrow> busy s i \<longleftrightarrow> i \<in> K" and "\<And>n. n < unat (disksize s) \<Longrightarrow> length (V n) = BSIZE"
  using assms unfolding brep_def by blast+

lemma cached_fun: "cached s i n \<Longrightarrow> cached s i m \<Longrightarrow> m = n"
  by (simp add: cached_def)

lemma brep_load:
  assumes "brep s V K" and "i < NBUF" and "n < unat (disksize s)" and "quiet t"
    and t: "bufs t = (bufs s)(Buf i := b)" "memdisk t = memdisk s" "disksize t = disksize s"
    and b: "bdev b = 1" "unat (blockno b) = n" "bit (bflags b) 0" "bit (bflags b) (Suc 0)" "bit (bflags b) 2 \<longleftrightarrow> dirty s i"
      "bdata b = V n" "bnext b = bnext (bufs s (Buf i))" "bprev b = bprev (bufs s (Buf i))"
    and d: "dirty s i \<longrightarrow> cached s i n" and u: "\<forall>j. cached s j n \<longrightarrow> j = i"
  shows "brep t V (insert i K)"
proof -
  have f: "cached t j m \<longleftrightarrow> (if j = i then m = n else cached s j m)" "busy t j \<longleftrightarrow> j = i \<or> busy s j"
    "valid t j \<longleftrightarrow> j = i \<or> valid s j" "dirty t j \<longleftrightarrow> dirty s j" "bdev (bufs t (Buf j)) = (if j = i then 1 else bdev (bufs s (Buf j)))"
    "bdata (bufs t (Buf j)) = (if j = i then V n else bdata (bufs s (Buf j)))" for j m
    using assms(2) by (auto simp: cached_def t b flag_tests)
  note B = brepD [OF assms(1)]
  obtain xs where "lru s xs" using B(2) by blast
  then have l: "lru t xs" using lru_cong [of t s xs] by (simp add: t b)
  show ?thesis
  proof (rule brepI [OF assms(4) l])
    fix m
    assume m: "m < unat (disksize t)" and c: "\<And>j. cached t j m \<Longrightarrow> \<not> dirty t j"
    have "\<not> dirty s j" if "cached s j m" for j
      using that c [of j] d cached_fun [of s i n m] by (cases "j = i") (auto simp: f)
    with m show "memdisk t m = V m" using B(7) by (simp add: t)
  qed (use B u assms(2,3) in \<open>auto simp: f t(2,3) split: if_splits\<close>)
qed

lemma find_unique: "x \<in> set xs \<Longrightarrow> P x \<Longrightarrow> (\<And>y. y \<in> set xs \<Longrightarrow> P y \<Longrightarrow> y = x) \<Longrightarrow> find P xs = Some x"
  by (metis find_None_all find_Some_in_set option.exhaust)

lemma cached_test: "i < NBUF \<Longrightarrow> n < 2 ^ 32 \<Longrightarrow> bdev (bufs s (Buf i)) = 1 \<and> blockno (bufs s (Buf i)) = of_nat n \<longleftrightarrow> cached s i n"
  by (auto simp: cached_def unat_of_nat word_unat_eq_iff)

lemma scan_cached:
  assumes "lru s xs" and "n < 2 ^ 32" and "\<And>i j. cached s i n \<Longrightarrow> cached s j n \<Longrightarrow> i = j"
  shows "find_from (\<lambda>i. bdev (bufs s (Buf i)) = 1 \<and> blockno (bufs s (Buf i)) = of_nat n) (\<lambda>i. fwd s (Buf i)) (fwd s BHead)
    = Some (if \<exists>i. cached s i n then Some (THE i. cached s i n) else None)"
proof -
  let ?P = "\<lambda>i. bdev (bufs s (Buf i)) = 1 \<and> blockno (bufs s (Buf i)) = of_nat n"
  have P: "?P i = cached s i n" if "i \<in> set xs" for i
    using that assms(1,2) by (intro cached_test) (auto simp: lru_def)
  have "find_from ?P (\<lambda>i. fwd s (Buf i)) (fwd s BHead) = Some (find ?P xs)"
    using assms(1) by (intro find_from_chain ring_chains) (simp add: lru_def)
  moreover have "find ?P xs = Some (THE i. cached s i n)" if "cached s i n" for i
  proof -
    have "(THE i. cached s i n) = i" using that assms(3) by blast
    moreover have "i \<in> set xs" using that assms(1) by (simp add: cached_def lru_def)
    ultimately show ?thesis using that assms(3) P by (intro find_unique) auto
  qed
  moreover have "find ?P xs = None" if "\<nexists>i. cached s i n" using that P by (simp add: find_None_all)
  ultimately show ?thesis by (cases "\<exists>i. cached s i n") auto
qed

lemma lru_ent [simp]: "lru (ent l s) xs = lru s xs" "cached (ent l s) i n = cached s i n"
  "busy (ent l s) i = busy s i" "dirty (ent l s) i = dirty s i" "valid (ent l s) i = valid s i"
  by (simp_all add: lru_def cached_def busy_def dirty_def valid_def)

lemma bget_hit:
  assumes "brep s V K" and "cached s i n" and "i \<notin> K"
  shows "bget 1 (of_nat n) s = Ret (i, lv LkBcache (updb (Buf i) (\<lambda>b. b\<lparr>bflags := bflags b OR B_BUSY\<rparr>) (ent LkBcache s)))"
proof -
  note B = brepD [OF assms(1)]
  obtain xs where x: "lru s xs" using B(2) by blast
  have n: "n < 2 ^ 32" using assms(2) unat_u32 [of "blockno (bufs s (Buf i))"] by (simp add: cached_def)
  have "(THE i. cached s i n) = i" using assms(2) B(4) by blast
  moreover have "\<not> busy s i" using assms(2,3) B(10) by (simp add: cached_def)
  ultimately show ?thesis
    using scan_cached [of "ent LkBcache s" xs n] x n B(4) assms(2)
    by (auto simp: bget_def cs_simps B(1))
qed

lemma bget_miss:
  assumes "brep s V K" and "lru s xs" and "\<nexists>i. cached s i n" and "n < 2 ^ 32"
  shows "bget 1 (of_nat n) s =
    (case find (\<lambda>i. i \<notin> K \<and> \<not> dirty s i) (rev xs) of
       Some i \<Rightarrow> Ret (i, lv LkBcache (updb (Buf i) (\<lambda>b. b\<lparr>bdev := 1, blockno := of_nat n, bflags := B_BUSY\<rparr>) (ent LkBcache s)))
     | None \<Rightarrow> Panic ''bget: no buffers'')"
proof -
  note B = brepD [OF assms(1)]
  have "find_from (\<lambda>i. \<not> busy (ent LkBcache s) i \<and> \<not> dirty (ent LkBcache s) i) (\<lambda>i. bwd (ent LkBcache s) (Buf i)) (bwd (ent LkBcache s) BHead)
     = Some (find (\<lambda>i. \<not> busy s i \<and> \<not> dirty s i) (rev xs))"
    using assms(2) find_from_chain [OF ring_chains(2) [of "ent LkBcache s" xs]] by (simp add: lru_def)
  moreover have "find (\<lambda>i. \<not> busy s i \<and> \<not> dirty s i) (rev xs) = find (\<lambda>i. i \<notin> K \<and> \<not> dirty s i) (rev xs)"
    using assms(2) B(10) by (intro find_cong) (auto simp: lru_def)
  ultimately show ?thesis
    using scan_cached [of "ent LkBcache s" xs n] assms(2,3,4)
    by (auto simp: bget_def cs_simps B(1) split: option.splits)
qed

text \<open>\<open>bread\<close> returns the block's contents in a buffer of its own.\<close>

definition got_buf :: "'a bst_scheme \<Rightarrow> (nat \<Rightarrow> u8 list) \<Rightarrow> nat set \<Rightarrow> nat \<Rightarrow> nat \<Rightarrow> 'a bst_scheme \<Rightarrow> bool" where
  "got_buf s V K n i s' \<longleftrightarrow> brep s' V (insert i K) \<and> i \<notin> K \<and> cached s' i n \<and> bdata (bufs s' (Buf i)) = V n
     \<and> memdisk s' = memdisk s \<and> disksize s' = disksize s \<and> bwrites s' = bwrites s \<and> bst.more s' = bst.more s
     \<and> (\<forall>j. dirty s' j \<longleftrightarrow> dirty s j) \<and> (\<forall>j m. j \<noteq> i \<longrightarrow> cached s' j m = cached s j m)
     \<and> (\<forall>j. j \<noteq> i \<longrightarrow> bufs s' (Buf j) = bufs s (Buf j)) \<and> (dirty s i \<longrightarrow> cached s i n)
     \<and> (\<forall>xs. lru s' xs = lru s xs)"

lemma got_bufI:
  assumes "brep s V K" and "i < NBUF" and "i \<notin> K" and "n < unat (disksize s)" and "quiet t"
    and t: "bufs t = (bufs s)(Buf i := b)" "memdisk t = memdisk s" "disksize t = disksize s" "bwrites t = bwrites s" "bst.more t = bst.more s"
    and b: "bdev b = 1" "unat (blockno b) = n" "bit (bflags b) 0" "bit (bflags b) (Suc 0)" "bit (bflags b) 2 \<longleftrightarrow> dirty s i"
      "bdata b = V n" "bnext b = bnext (bufs s (Buf i))" "bprev b = bprev (bufs s (Buf i))"
    and d: "dirty s i \<longrightarrow> cached s i n" and u: "\<forall>j. cached s j n \<longrightarrow> j = i"
  shows "got_buf s V K n i t"
proof -
  have "brep t V (insert i K)"
    by (rule brep_load [OF assms(1,2,4,5) t(1-3) b d u])
  moreover have "lru t xs = lru s xs" for xs by (rule lru_cong) (simp add: t b)
  ultimately show ?thesis using assms(2,3) d by (auto simp: got_buf_def t b cached_def flag_tests)
qed

lemma bread_cached:
  assumes "brep s V K" and "cached s i n" and "valid s i" and "i \<notin> K"
  shows "\<exists>s'. bread 1 (of_nat n) s = Ret (i, s') \<and> got_buf s V K n i s'"
proof -
  note B = brepD [OF assms(1)]
  let ?s = "lv LkBcache (updb (Buf i) (\<lambda>b. b\<lparr>bflags := bflags b OR B_BUSY\<rparr>) (ent LkBcache s))"
  have "valid ?s i" using assms(3) by (simp add: flag_tests flag_upd)
  then have "bread 1 (of_nat n) s = Ret (i, ?s)" using bget_hit [OF assms(1,2,4)] by (simp add: bread_def)
  moreover have "got_buf s V K n i ?s"
    using assms B(4,5,6) by (intro got_bufI [where b = "bufs ?s (Buf i)"]) (auto simp: cs_simps B(1) cached_def flag_tests flag_upd)
  ultimately show ?thesis by blast
qed

lemma bread_fill:
  assumes "brep s V K" and "n < unat (disksize s)" and "bget 1 (of_nat n) s = Ret (i, lv LkBcache (updb (Buf i) f (ent LkBcache s)))"
    and "i < NBUF" and "i \<notin> K" and "\<not> dirty s i" and "\<forall>j. cached s j n \<longrightarrow> j = i" and n: "unat (blockno (f (bufs s (Buf i)))) = n"
    and f: "bdev (f (bufs s (Buf i))) = 1" "bit (bflags (f (bufs s (Buf i)))) 0" "\<not> bit (bflags (f (bufs s (Buf i)))) (Suc 0)"
      "\<not> bit (bflags (f (bufs s (Buf i)))) 2" "bnext (f (bufs s (Buf i))) = bnext (bufs s (Buf i))" "bprev (f (bufs s (Buf i))) = bprev (bufs s (Buf i))"
  shows "\<exists>s'. bread 1 (of_nat n) s = Ret (i, s') \<and> got_buf s V K n i s'"
proof -
  note B = brepD [OF assms(1)]
  let ?s = "lv LkBcache (updb (Buf i) f (ent LkBcache s))"
  let ?t = "updb (Buf i) (\<lambda>b. b\<lparr>bflags := bflags b OR B_VALID\<rparr>) (updb (Buf i) (\<lambda>b. b\<lparr>bdata := memdisk s n\<rparr>) ?s)"
  have "iderw i ?s = Ret ?t"
    using assms(2) f n by (simp add: iderw_def flag_and nothing_to_do Let_def word_le_nat_alt)
  moreover have "\<not> valid ?s i" using f by (simp add: flag_tests)
  ultimately have "bread 1 (of_nat n) s = Ret (i, ?t)" using assms(3) by (simp add: bread_def)
  moreover have "memdisk s n = V n" using B(7) assms(2,6,7) by blast
  then have "got_buf s V K n i ?t"
    using assms f n by (intro got_bufI [where b = "bufs ?t (Buf i)"]) (auto simp: cs_simps B(1) flag_upd)
  ultimately show ?thesis by blast
qed

lemma bread_ok:
  assumes "brep s V K" and "n < unat (disksize s)" and "\<forall>i\<in>K. \<not> cached s i n"
    and "(\<exists>i<NBUF. i \<notin> K \<and> \<not> dirty s i) \<or> (\<exists>i. cached s i n)"
  shows "\<exists>i s'. bread 1 (of_nat n) s = Ret (i, s') \<and> got_buf s V K n i s'"
proof -
  note B = brepD [OF assms(1)]
  have n: "n < 2 ^ 32" using assms(2) unat_u32 [of "disksize s"] by simp
  show ?thesis
  proof (cases "\<exists>i. cached s i n")
    case True
    then obtain i where i: "cached s i n" "i \<notin> K" "i < NBUF" using assms(3) by (auto simp: cached_def)
    show ?thesis
    proof (cases "valid s i")
      case True
      then show ?thesis using bread_cached [OF assms(1) i(1) _ i(2)] by blast
    next
      case False
      then have "\<not> dirty s i" using B(8) i by blast
      moreover have "\<not> busy s i" using B(10) i by blast
      ultimately have "\<exists>s'. bread 1 (of_nat n) s = Ret (i, s') \<and> got_buf s V K n i s'"
        using i False B(4) by (intro bread_fill [OF assms(1,2) bget_hit [OF assms(1) i(1,2)] i(3,2)])
          (auto simp: cached_def flag_tests flag_upd)
      then show ?thesis by blast
    qed
  next
    case False
    obtain xs where x: "lru s xs" using B(2) by blast
    let ?r = "find (\<lambda>i. i \<notin> K \<and> \<not> dirty s i) (rev xs)"
    have "?r \<noteq> None" using False assms(4) x by (auto simp: find_None_all lru_def)
    then obtain i where r: "?r = Some i" by auto
    from find_Some_in_set [OF this] x have i: "i < NBUF" "i \<notin> K" "\<not> dirty s i" by (auto simp: lru_def)
    have "bget 1 (of_nat n) s = Ret (i, lv LkBcache (updb (Buf i) (\<lambda>b. b\<lparr>bdev := 1, blockno := of_nat n, bflags := B_BUSY\<rparr>) (ent LkBcache s)))"
      using bget_miss [OF assms(1) x False n] by (simp add: r)
    from bread_fill [OF assms(1,2) this i] False n show ?thesis
      by (auto simp: flag_consts unat_of_nat)
  qed
qed

text \<open>Releasing a buffer moves it to the front of the ring.\<close>

definition put_buf :: "'a bst_scheme \<Rightarrow> (nat \<Rightarrow> u8 list) \<Rightarrow> nat set \<Rightarrow> nat \<Rightarrow> 'a bst_scheme \<Rightarrow> bool" where
  "put_buf s V K i s' \<longleftrightarrow> brep s' V (K - {i}) \<and> memdisk s' = memdisk s \<and> disksize s' = disksize s
     \<and> bwrites s' = bwrites s \<and> bst.more s' = bst.more s \<and> (\<forall>j. dirty s' j \<longleftrightarrow> dirty s j)
     \<and> (\<forall>j m. cached s' j m = cached s j m) \<and> (\<forall>j. bdata (bufs s' (Buf j)) = bdata (bufs s (Buf j)))"

definition relinked :: "nat \<Rightarrow> 'a bst_scheme \<Rightarrow> 'a bst_scheme" where
  "relinked i s = push_front i (unlink_buf i s)"

lemma relinked_fields:
  "bflags (bufs (relinked i s) b) = bflags (bufs s b)" "bdev (bufs (relinked i s) b) = bdev (bufs s b)"
  "blockno (bufs (relinked i s) b) = blockno (bufs s b)" "bdata (bufs (relinked i s) b) = bdata (bufs s b)"
  "memdisk (relinked i s) = memdisk s" "disksize (relinked i s) = disksize s" "bwrites (relinked i s) = bwrites s"
  "bst.more (relinked i s) = bst.more s" "inside l (relinked i s) = inside l s"
  by (simp_all add: relinked_def push_front_def unlink_buf_def Let_def)

lemma relinked_lru:
  assumes "lru s (us @ i # vs)"
  shows "lru (relinked i s) (i # us @ vs)"
proof -
  let ?n = "\<lambda>b. bnext (bufs s b)" and ?p = "\<lambda>b. bprev (bufs s b)"
  have r: "ring_of ?n ?p (us @ i # vs)" and d: "distinct (us @ i # vs)" using assms by (auto simp: lru_def)
  let ?t = "unlink_buf i s"
  have eq: "(\<lambda>b. bnext (bufs ?t b)) = ?n(?p (Buf i) := ?n (Buf i))" "(\<lambda>b. bprev (bufs ?t b)) = ?p(?n (Buf i) := ?p (Buf i))"
    by (auto simp: unlink_buf_def Let_def fun_eq_iff)
  have t: "ring_of (\<lambda>b. bnext (bufs ?t b)) (\<lambda>b. bprev (bufs ?t b)) (us @ vs)"
    unfolding eq by (rule ring_unlink [OF r d])
  have "(\<lambda>b. bnext (bufs (push_front i ?t) b)) = (\<lambda>b. bnext (bufs ?t b))(Buf i := bnext (bufs ?t BHead), BHead := Buf i)"
    "(\<lambda>b. bprev (bufs (push_front i ?t) b)) = (\<lambda>b. bprev (bufs ?t b))(Buf i := BHead, bnext (bufs ?t BHead) := Buf i)"
    by (auto simp: push_front_def Let_def fun_eq_iff)
  then have "ring_of (\<lambda>b. bnext (bufs (relinked i s) b)) (\<lambda>b. bprev (bufs (relinked i s) b)) (i # us @ vs)"
    using ring_push [OF t, of i] d by (simp add: relinked_def)
  then show ?thesis using assms by (auto simp: lru_def)
qed

lemma brelse_eq:
  assumes "quiet s" and "busy s i"
  shows "brelse i s = Ret (lv LkBcache (wake (ChBuf i) (updb (Buf i) (\<lambda>b. b\<lparr>bflags := bflags b AND NOT B_BUSY\<rparr>) (relinked i (ent LkBcache s)))))"
  using assms by (simp add: brelse_def cs_simps relinked_fields relinked_def [symmetric] Let_def)

lemma brelse_ok:
  assumes "brep s V K" and "i \<in> K"
  shows "\<exists>s'. brelse i s = Ret s' \<and> put_buf s V K i s' \<and> (\<forall>us vs. lru s (us @ i # vs) \<longrightarrow> lru s' (i # us @ vs))"
proof -
  note B = brepD [OF assms(1)]
  have i: "i < NBUF" "busy s i" using assms(2) B(3,10) by auto
  let ?r = "relinked i (ent LkBcache s)"
  let ?s = "lv LkBcache (wake (ChBuf i) (updb (Buf i) (\<lambda>b. b\<lparr>bflags := bflags b AND NOT B_BUSY\<rparr>) ?r))"
  have f: "cached ?s j n = cached s j n" "valid ?s j = valid s j" "dirty ?s j = dirty s j" "busy ?s j \<longleftrightarrow> busy s j \<and> j \<noteq> i"
    "bdata (bufs ?s b) = bdata (bufs s b)" "bdev (bufs ?s b) = bdev (bufs s b)" for j n b
    by (auto simp: cached_def flag_tests flag_upd relinked_fields)
  have L: "lru ?s (i # us @ vs)" if "lru s (us @ i # vs)" for us vs
  proof -
    have "lru ?r (i # us @ vs)" using relinked_lru [of "ent LkBcache s" us i vs] that by simp
    then show ?thesis using lru_cong [of ?s ?r] by simp
  qed
  obtain xs where "lru s xs" using B(2) by blast
  moreover from this obtain us vs where "xs = us @ i # vs" using i(1) by (metis lessThan_iff lru_def split_list)
  ultimately have l: "lru ?s (i # us @ vs)" using L by blast
  have "brep ?s V (K - {i})"
  proof (rule brepI [OF _ l])
    show "quiet ?s" using B(1) by (simp add: cs_simps relinked_fields)
  qed (use B in \<open>auto simp: f relinked_fields\<close>)
  then have "put_buf s V K i ?s" by (simp add: put_buf_def f relinked_fields)
  then show ?thesis using brelse_eq [OF B(1) i(2)] L by blast
qed

text \<open>\<open>bwrite\<close> of a buffer with new contents: the block and the disk change together.\<close>

definition set_bdata :: "nat \<Rightarrow> u8 list \<Rightarrow> 'a bst_scheme \<Rightarrow> 'a bst_scheme" where
  "set_bdata i d = updb (Buf i) (\<lambda>b. b\<lparr>bdata := d\<rparr>)"

definition wrote_buf :: "'a bst_scheme \<Rightarrow> (nat \<Rightarrow> u8 list) \<Rightarrow> nat set \<Rightarrow> nat \<Rightarrow> nat \<Rightarrow> u8 list \<Rightarrow> 'a bst_scheme \<Rightarrow> bool" where
  "wrote_buf s V K i n d s' \<longleftrightarrow> brep s' (V(n := d)) K \<and> memdisk s' = (memdisk s)(n := d) \<and> disksize s' = disksize s
     \<and> bwrites s' = bwrites s @ [(n, d)] \<and> bst.more s' = bst.more s \<and> (\<forall>j. dirty s' j \<longleftrightarrow> dirty s j \<and> j \<noteq> i)
     \<and> (\<forall>j m. cached s' j m = cached s j m) \<and> (\<forall>j. j \<noteq> i \<longrightarrow> bufs s' (Buf j) = bufs s (Buf j))"

lemma bwrite_eq:
  assumes "busy s i" and "valid s i" and "bdev (bufs s (Buf i)) = 1" and "cached s i n" and "n < unat (disksize s)"
  shows "bwrite i (set_bdata i d s) =
    Ret (updb (Buf i) (\<lambda>b. b\<lparr>bdata := d, bflags := (bflags b OR B_DIRTY) AND NOT B_DIRTY OR B_VALID\<rparr>)
           (s\<lparr>memdisk := (memdisk s)(n := d), bwrites := bwrites s @ [(n, d)]\<rparr>))"
proof -
  have n: "unat (blockno (bufs s (Buf i))) = n" using assms(4) by (simp add: cached_def)
  then show ?thesis using assms
    by (simp add: bwrite_def set_bdata_def iderw_def flag_tests flag_and nothing_to_do flag_upd Let_def word_le_nat_alt)
      (simp add: updb_def B_DIRTY_nz)
qed

lemma brep_written:
  assumes "brep s V K" and "cached s i n" and "length d = BSIZE" and "quiet t"
    and t: "memdisk t = (memdisk s)(n := d)" "disksize t = disksize s" "\<And>xs. lru t xs = lru s xs"
    and f: "\<And>j m. cached t j m = cached s j m" "\<And>j. valid t j = valid s j" "\<And>j. dirty t j \<longleftrightarrow> dirty s j \<and> j \<noteq> i" "\<And>j. busy t j = busy s j"
      "\<And>j. bdata (bufs t (Buf j)) = (if j = i then d else bdata (bufs s (Buf j)))" "\<And>j. bdev (bufs t (Buf j)) = bdev (bufs s (Buf j))"
  shows "brep t (V(n := d)) K"
proof -
  note B = brepD [OF assms(1)]
  obtain xs where "lru s xs" using B(2) by blast
  then have l: "lru t xs" by (simp add: t)
  show ?thesis
  proof (rule brepI [OF assms(4) l])
    fix m
    assume m: "m < unat (disksize t)" and c: "\<And>j. cached t j m \<Longrightarrow> \<not> dirty t j"
    have "\<not> dirty s j" if "cached s j m" "m \<noteq> n" for j
      using c [of j] that assms(2) cached_fun [of s i n m] by (auto simp: f)
    with m B(7) show "memdisk t m = (V(n := d)) m" by (simp add: t)
  next
    fix j m
    assume "cached t j m" "valid t j"
    then have j: "cached s j m" "valid s j" by (simp_all add: f)
    show "bdata (bufs t (Buf j)) = (V(n := d)) m"
    proof (cases "j = i")
      case True
      with j cached_fun [OF assms(2)] show ?thesis by (auto simp: f)
    next
      case False
      with j B(4) [OF assms(2)] have "m \<noteq> n" by blast
      with False B(5) [OF j] show ?thesis by (simp add: f)
    qed
  next
    fix m
    assume "m < unat (disksize t)"
    then show "length ((V(n := d)) m) = BSIZE" using B(11) assms(3) by (simp add: t)
  qed (use B(3,4,6,8-10) in \<open>auto simp: f(1-4,6) t(2)\<close>)
qed

lemma bwrite_ok:
  assumes "brep s V K" and "i \<in> K" and "cached s i n" and "length d = BSIZE"
  shows "\<exists>s'. bwrite i (set_bdata i d s) = Ret s' \<and> wrote_buf s V K i n d s'"
proof -
  note B = brepD [OF assms(1)]
  have i: "i < NBUF" using assms(2) B(3) by blast
  then have v: "valid s i" using B(8) assms(2) by blast
  let ?s = "updb (Buf i) (\<lambda>b. b\<lparr>bdata := d, bflags := (bflags b OR B_DIRTY) AND NOT B_DIRTY OR B_VALID\<rparr>)
     (s\<lparr>memdisk := (memdisk s)(n := d), bwrites := bwrites s @ [(n, d)]\<rparr>)"
  have f: "cached ?s j m = cached s j m" "valid ?s j = valid s j" "dirty ?s j \<longleftrightarrow> dirty s j \<and> j \<noteq> i" "busy ?s j = busy s j"
    "bdata (bufs ?s (Buf j)) = (if j = i then d else bdata (bufs s (Buf j)))" "bdev (bufs ?s (Buf j)) = bdev (bufs s (Buf j))" for j m
    using v by (auto simp: cached_def flag_tests flag_upd)
  have "lru ?s xs = lru s xs" for xs by (rule lru_cong) simp
  then have "brep ?s (V(n := d)) K"
    by (intro brep_written [OF assms(1,3,4) _ _ _ _ f]) (simp_all add: B(1))
  then have "wrote_buf s V K i n d ?s" by (simp add: wrote_buf_def f)
  moreover have "bwrite i (set_bdata i d s) = Ret ?s"
    using i v assms(2,3) B(6,9,10) by (intro bwrite_eq) blast+
  ultimately show ?thesis by blast
qed

text \<open>The blocks whose newest contents are only in the cache.\<close>

definition dblk :: "'a bst_scheme \<Rightarrow> nat set" where
  "dblk s = {n. \<exists>i. cached s i n \<and> dirty s i}"

lemma dblk_card:
  assumes "brep s V K"
  shows "finite (dblk s)" and "card {i. i < NBUF \<and> dirty s i} \<le> card (dblk s)"
proof -
  note B = brepD [OF assms]
  let ?f = "\<lambda>i. unat (blockno (bufs s (Buf i)))"
  have D: "dblk s = ?f ` {i. i < NBUF \<and> dirty s i}"
    using B(9) by (force simp: dblk_def cached_def)
  then show "finite (dblk s)" by simp
  have "inj_on ?f {i. i < NBUF \<and> dirty s i}"
    using B(4,9) by (auto simp: inj_on_def cached_def)
  then show "card {i. i < NBUF \<and> dirty s i} \<le> card (dblk s)" unfolding D by (simp add: card_image)
qed

lemma clean_left:
  assumes "brep s V K" and "card (dblk s) + card K < NBUF"
  shows "\<exists>i<NBUF. i \<notin> K \<and> \<not> dirty s i"
proof (rule ccontr)
  assume "\<not> ?thesis"
  then have "{..<NBUF} \<subseteq> {i. i < NBUF \<and> dirty s i} \<union> K" by auto
  moreover have "finite K" using brepD(3) [OF assms(1)] finite_subset by blast
  ultimately have "NBUF \<le> card ({i. i < NBUF \<and> dirty s i} \<union> K)"
    by (metis (no_types, lifting) card_lessThan card_mono finite_Collect_less_nat finite_Un rev_finite_subset Collect_mono_iff)
  also have "\<dots> \<le> card {i. i < NBUF \<and> dirty s i} + card K" by (rule card_Un_le)
  also have "\<dots> \<le> card (dblk s) + card K" using dblk_card(2) [OF assms(1)] by simp
  finally show False using assms(2) by simp
qed

lemma bread_blk:
  assumes "brep s V K" and "n < unat (disksize s)" and "\<forall>i\<in>K. \<not> cached s i n" and "card (dblk s) + card K < NBUF"
  shows "\<exists>i s'. bread 1 (of_nat n) s = Ret (i, s') \<and> got_buf s V K n i s'"
  using bread_ok [OF assms(1-3)] clean_left [OF assms(1,4)] by blast

lemma dblk_keep:
  "got_buf s V K n i s' \<Longrightarrow> dblk s' = dblk s" "put_buf s V K i s' \<Longrightarrow> dblk s' = dblk s"
proof -
  assume g: "got_buf s V K n i s'"
  then have "(cached s' j m \<and> dirty s' j) = (cached s j m \<and> dirty s j)" for j m
    using cached_fun [of s i n m] cached_fun [of s' i n m] by (cases "j = i") (auto simp: got_buf_def)
  then show "dblk s' = dblk s" by (simp add: dblk_def)
qed (auto simp: dblk_def put_buf_def)

lemma dblk_written:
  assumes "wrote_buf s V K i n d s'" and "cached s i n" and "brep s V K"
  shows "dblk s' = dblk s - {n}"
proof -
  have "cached s j m \<and> dirty s j \<and> j \<noteq> i \<longleftrightarrow> cached s j m \<and> dirty s j \<and> m \<noteq> n" for j m
    using cached_fun [OF assms(2), of m] brepD(4) [OF assms(3,2), of j] by blast
  then show ?thesis using assms(1) by (auto simp: dblk_def wrote_buf_def)
qed

section \<open>A store of blocks\<close>

text \<open>What a client of the cache relies on: reads return the last write.\<close>

datatype blk_op = BRead nat | BWrite nat "u8 list"

primrec ops_ok :: "nat \<Rightarrow> blk_op list \<Rightarrow> bool" where
  "ops_ok N [] \<longleftrightarrow> True"
| "ops_ok N (x # xs) \<longleftrightarrow> (case x of BRead n \<Rightarrow> n < N | BWrite n d \<Rightarrow> n < N \<and> length d = BSIZE) \<and> ops_ok N xs"

primrec store_run :: "(nat \<Rightarrow> 's \<Rightarrow> (u8 list \<times> 's) res) \<Rightarrow> (nat \<Rightarrow> u8 list \<Rightarrow> 's \<Rightarrow> 's res) \<Rightarrow> blk_op list \<Rightarrow> 's \<Rightarrow> (u8 list list \<times> 's) res" where
  "store_run rd wr [] s = Ret ([], s)"
| "store_run rd wr (x # xs) s =
     (case x of
        BRead n \<Rightarrow> bindr (rd n s) (\<lambda>(d, s). bindr (store_run rd wr xs s) (\<lambda>(ds, s). Ret (d # ds, s)))
      | BWrite n d \<Rightarrow> bindr (wr n d s) (store_run rd wr xs))"

primrec spec_run :: "blk_op list \<Rightarrow> (nat \<Rightarrow> u8 list) \<Rightarrow> u8 list list \<times> (nat \<Rightarrow> u8 list)" where
  "spec_run [] V = ([], V)"
| "spec_run (x # xs) V =
     (case x of
        BRead n \<Rightarrow> (let (ds, V') = spec_run xs V in (V n # ds, V'))
      | BWrite n d \<Rightarrow> spec_run xs (V(n := d)))"

locale block_store =
  fixes rep :: "'s \<Rightarrow> (nat \<Rightarrow> u8 list) \<Rightarrow> bool" and N :: "'s \<Rightarrow> nat"
    and rd :: "nat \<Rightarrow> 's \<Rightarrow> (u8 list \<times> 's) res" and wr :: "nat \<Rightarrow> u8 list \<Rightarrow> 's \<Rightarrow> 's res"
  assumes rd_law: "rep s V \<Longrightarrow> n < N s \<Longrightarrow> \<exists>s'. rd n s = Ret (V n, s') \<and> rep s' V \<and> N s' = N s"
    and wr_law: "rep s V \<Longrightarrow> n < N s \<Longrightarrow> length d = BSIZE \<Longrightarrow> \<exists>s'. wr n d s = Ret s' \<and> rep s' (V(n := d)) \<and> N s' = N s"
begin

lemma run_refines:
  "rep s V \<Longrightarrow> ops_ok (N s) xs \<Longrightarrow>
   \<exists>s'. store_run rd wr xs s = Ret (fst (spec_run xs V), s') \<and> rep s' (snd (spec_run xs V)) \<and> N s' = N s"
proof (induction xs arbitrary: s V)
  case Nil
  then show ?case by auto
next
  case (Cons x xs)
  show ?case
  proof (cases x)
    case (BRead n)
    then obtain s1 where r: "rd n s = Ret (V n, s1)" "rep s1 V" "N s1 = N s" using rd_law Cons.prems by fastforce
    with Cons.IH [of s1 V] Cons.prems BRead show ?thesis by (auto simp: split_beta)
  next
    case (BWrite n d)
    then obtain s1 where r: "wr n d s = Ret s1" "rep s1 (V(n := d))" "N s1 = N s" using wr_law Cons.prems by fastforce
    with Cons.IH [OF r(2)] Cons.prems BWrite show ?thesis by (simp del: fun_upd_apply)
  qed
qed

end

text \<open>Reading and writing a block through the cache.\<close>

definition read_block :: "nat \<Rightarrow> 'a bst_scheme \<Rightarrow> (u8 list \<times> 'a bst_scheme) res" where
  "read_block n s = bindr (bread 1 (of_nat n) s) (\<lambda>(i, s). bindr (brelse i s) (\<lambda>s'. Ret (bdata (bufs s (Buf i)), s')))"

definition write_block :: "nat \<Rightarrow> u8 list \<Rightarrow> 'a bst_scheme \<Rightarrow> 'a bst_scheme res" where
  "write_block n d s = bindr (bread 1 (of_nat n) s) (\<lambda>(i, s). bindr (bwrite i (set_bdata i d s)) (brelse i))"

text \<open>No buffer in use and none dirty: the disk is up to date.\<close>

definition settled :: "'a bst_scheme \<Rightarrow> (nat \<Rightarrow> u8 list) \<Rightarrow> bool" where
  "settled s V \<longleftrightarrow> brep s V {} \<and> (\<forall>i<NBUF. \<not> dirty s i)"

lemma NBUF_pos: "\<exists>i<NBUF. P i" if "\<And>i. i < NBUF \<Longrightarrow> P i"
  using that [of 0] by (intro exI [of _ 0]) (simp add: NBUF_def MAXOPBLOCKS_def)

lemma read_settled:
  assumes "settled s V" and "n < unat (disksize s)"
  shows "\<exists>s'. read_block n s = Ret (V n, s') \<and> settled s' V \<and> unat (disksize s') = unat (disksize s)"
proof -
  have r: "brep s V {}" and c: "\<forall>i<NBUF. \<not> dirty s i" using assms(1) by (auto simp: settled_def)
  obtain i s1 where b: "bread 1 (of_nat n) s = Ret (i, s1)" and g: "got_buf s V {} n i s1"
    using bread_ok [OF r assms(2)] NBUF_pos [of "\<lambda>i. \<not> dirty s i"] c by auto
  then have "brep s1 V (insert i {})" by (simp add: got_buf_def)
  from brelse_ok [OF this] obtain s2 where "brelse i s1 = Ret s2" "put_buf s1 V {i} i s2" by auto
  with b g c show ?thesis by (auto simp: read_block_def got_buf_def put_buf_def settled_def)
qed

lemma write_settled:
  assumes "settled s V" and "n < unat (disksize s)" and "length d = BSIZE"
  shows "\<exists>s'. write_block n d s = Ret s' \<and> settled s' (V(n := d)) \<and> unat (disksize s') = unat (disksize s)"
proof -
  have r: "brep s V {}" and c: "\<forall>i<NBUF. \<not> dirty s i" using assms(1) by (auto simp: settled_def)
  obtain i s1 where b: "bread 1 (of_nat n) s = Ret (i, s1)" and g: "got_buf s V {} n i s1"
    using bread_ok [OF r assms(2)] NBUF_pos [of "\<lambda>i. \<not> dirty s i"] c by auto
  then have g1: "brep s1 V {i}" "cached s1 i n" by (simp_all add: got_buf_def)
  obtain s2 where w: "bwrite i (set_bdata i d s1) = Ret s2" and w2: "wrote_buf s1 V {i} i n d s2"
    using bwrite_ok [OF g1(1) _ g1(2) assms(3)] by auto
  then have "brep s2 (V(n := d)) {i}" by (simp add: wrote_buf_def)
  from brelse_ok [OF this] obtain s3 where "brelse i s2 = Ret s3" "put_buf s2 (V(n := d)) {i} i s3" by auto
  with b w g w2 c show ?thesis by (auto simp: write_block_def got_buf_def wrote_buf_def put_buf_def settled_def)
qed

interpretation bc: block_store settled "\<lambda>s. unat (disksize s)" read_block write_block
  by unfold_locales (fact read_settled, fact write_settled)

text \<open>The cache the kernel starts with (\<open>main\<close> calls \<open>binit\<close> on zeroed static storage).\<close>

definition cold :: "'a bst_scheme \<Rightarrow> bool" where
  "cold s \<longleftrightarrow> (\<forall>l. locked (lks s l) = 0) \<and> cpu_ok (tcpu s) \<and> (\<forall>b. bflags (bufs s b) = 0)
     \<and> (\<forall>n<unat (disksize s). length (memdisk s n) = BSIZE)"

definition linkall :: "nat list \<Rightarrow> 'a bst_scheme \<Rightarrow> 'a bst_scheme" where
  "linkall = fold (\<lambda>i s. updb (Buf i) (\<lambda>b. b\<lparr>bdev := -1\<rparr>) (push_front i s))"

lemma push_front_fields:
  "bflags (bufs (push_front i s) b) = bflags (bufs s b)" "bdev (bufs (push_front i s) b) = bdev (bufs s b)"
  "memdisk (push_front i s) = memdisk s" "disksize (push_front i s) = disksize s" "quiet (push_front i s) = quiet s"
  by (simp_all add: push_front_def Let_def)

lemma linkall_Nil [simp]: "linkall [] s = s"
  by (simp add: linkall_def)

lemma linkall_snoc: "linkall (xs @ [i]) s = updb (Buf i) (\<lambda>b. b\<lparr>bdev := -1\<rparr>) (push_front i (linkall xs s))"
  by (simp add: linkall_def)

lemma linkall_fields:
  "bflags (bufs (linkall xs s) b) = bflags (bufs s b)" "memdisk (linkall xs s) = memdisk s"
  "disksize (linkall xs s) = disksize s" "quiet (linkall xs s) = quiet s"
  "i \<in> set xs \<Longrightarrow> bdev (bufs (linkall xs s) (Buf i)) = -1"
  by (induction xs rule: rev_induct) (auto simp: linkall_snoc push_front_fields)

lemma linkall_ring:
  assumes "bnext (bufs s BHead) = BHead" and "bprev (bufs s BHead) = BHead" and "distinct xs"
  shows "ring_of (\<lambda>b. bnext (bufs (linkall xs s) b)) (\<lambda>b. bprev (bufs (linkall xs s) b)) (rev xs)"
  using assms(3)
proof (induction xs rule: rev_induct)
  case Nil
  show ?case using assms(1,2) by (simp add: linkall_def ring_of_def)
next
  case (snoc i xs)
  let ?t = "linkall xs s"
  have "(\<lambda>b. bnext (bufs (linkall (xs @ [i]) s) b)) = (\<lambda>b. bnext (bufs ?t b))(Buf i := bnext (bufs ?t BHead), BHead := Buf i)"
    "(\<lambda>b. bprev (bufs (linkall (xs @ [i]) s) b)) = (\<lambda>b. bprev (bufs ?t b))(Buf i := BHead, bnext (bufs ?t BHead) := Buf i)"
    by (auto simp: linkall_snoc push_front_def Let_def fun_eq_iff)
  then show ?case using snoc ring_push [of _ _ "rev xs" i] by simp
qed

lemma binit_settled:
  assumes "cold s"
  shows "settled (binit s) (memdisk s) \<and> disksize (binit s) = disksize s"
proof -
  let ?s0 = "updb BHead (\<lambda>b. b\<lparr>bnext := BHead\<rparr>) (updb BHead (\<lambda>b. b\<lparr>bprev := BHead\<rparr>)
     (s\<lparr>lks := (lks s)(LkBcache := initlock (lks s LkBcache) ''bcache'')\<rparr>))"
  let ?t = "linkall [0..<NBUF] ?s0"
  have t: "binit s = ?t" by (simp add: binit_def linkall_def Let_def)
  have l: "lru ?t (rev [0..<NBUF])"
    unfolding lru_def by (intro conjI linkall_ring) (auto simp: atLeast0LessThan)
  have "quiet ?s0" using assms by (simp add: cold_def quiet_def initlock_def)
  then have f: "bflags (bufs ?t b) = 0" "memdisk ?t = memdisk s" "disksize ?t = disksize s" "quiet ?t" for b
    using assms by (simp_all add: linkall_fields cold_def)
  have "\<not> cached ?t i n" for i n by (auto simp: cached_def linkall_fields)
  moreover have "\<not> dirty ?t i" "\<not> busy ?t i" for i by (simp_all add: f flag_tests)
  ultimately have "brep ?t (memdisk s) {}"
    using assms by (intro brepI [OF f(4) l]) (simp_all add: f cold_def)
  then show ?thesis by (simp add: t settled_def f flag_tests)
qed

lemma binit_more: "bst.more (binit s) = bst.more s"
proof -
  have "bst.more (linkall xs t) = bst.more t" for xs and t :: "'a bst_scheme"
    by (induction xs rule: rev_induct) (simp_all add: linkall_snoc push_front_def Let_def)
  then show ?thesis by (simp add: binit_def linkall_def [symmetric] Let_def)
qed

text \<open>
  C11: The buffer cache is transparent. From a cold start, every sequence of block reads and writes
  through it returns (no panic, no buffer is missing), every read gets what was last written to the
  block or what the disk held, and at the end the disk holds the last writes.
\<close>

theorem bcache_transparent:
  assumes "cold s" and "ops_ok (unat (disksize s)) xs"
  shows "\<exists>s'. store_run read_block write_block xs (binit s) = Ret (fst (spec_run xs (memdisk s)), s')
     \<and> (\<forall>n<unat (disksize s). memdisk s' n = snd (spec_run xs (memdisk s)) n)"
proof -
  have i: "settled (binit s) (memdisk s)" "disksize (binit s) = disksize s" using binit_settled [OF assms(1)] by auto
  obtain s' where r: "store_run read_block write_block xs (binit s) = Ret (fst (spec_run xs (memdisk s)), s')"
    and s': "settled s' (snd (spec_run xs (memdisk s)))" "unat (disksize s') = unat (disksize s)"
    using bc.run_refines [OF i(1), of xs] assms(2) i(2) by auto
  have "memdisk s' n = snd (spec_run xs (memdisk s)) n" if "n < unat (disksize s)" for n
    using s' that brepD(7) [of s' "snd (spec_run xs (memdisk s))" "{}" n] by (auto simp: settled_def cached_def)
  with r show ?thesis by blast
qed

definition cold0 :: bst where
  "cold0 = \<lparr>lks = \<lambda>_. \<lparr>locked = 0, lk_name = [], lk_cpu = None\<rparr>, tcpu = \<lparr>ncli = 0, intena = False, if_flag = True, cpu_proc = Some 0\<rparr>,
     tme = 0, twoken = [], bufs = \<lambda>_. \<lparr>bflags = 0, bdev = 0, blockno = 0, bprev = BHead, bnext = BHead, bdata = replicate BSIZE 0\<rparr>,
     memdisk = \<lambda>_. replicate BSIZE 0, disksize = 2000, bwrites = []\<rparr>"

lemma cold0_cold: "cold cold0"
  by (simp add: cold_def cold0_def cpu_ok_def)

theorem bcache_transparent_witness:
  "\<exists>s'. store_run read_block write_block [BRead 7, BWrite 7 (replicate BSIZE 1), BRead 7] (binit cold0) = Ret ([replicate BSIZE 0, replicate BSIZE 1], s')"
  using bcache_transparent [OF cold0_cold, of "[BRead 7, BWrite 7 (replicate BSIZE 1), BRead 7]"]
  by (auto simp: cold0_def)

end
