(* ===== verification/Block.thy ===== *)
theory Block
  imports Physmem
begin

text \<open>
  The contents of a disk block as a list of bytes, and the C structures laid over it: fields of two
  and four bytes in little-endian order at fixed offsets.
\<close>

definition slice :: "nat \<Rightarrow> nat \<Rightarrow> 'a list \<Rightarrow> 'a list" where
  "slice off n d = take n (drop off d)"

definition splice :: "nat \<Rightarrow> 'a list \<Rightarrow> 'a list \<Rightarrow> 'a list" where
  "splice off xs d = take off d @ xs @ drop (off + length xs) d"

definition le2 :: "u16 \<Rightarrow> u8 list" where
  "le2 w = [ucast w, ucast (drop_bit 8 w)]"

definition le4 :: "u32 \<Rightarrow> u8 list" where
  "le4 w = [ucast w, ucast (drop_bit 8 w), ucast (drop_bit 16 w), ucast (drop_bit 24 w)]"

definition get2 :: "u8 list \<Rightarrow> nat \<Rightarrow> u16" where
  "get2 d off = ucast (d ! off) OR push_bit 8 (ucast (d ! (off + 1)))"

definition get4 :: "u8 list \<Rightarrow> nat \<Rightarrow> u32" where
  "get4 d off = ucast (d ! off) OR push_bit 8 (ucast (d ! (off + 1))) OR push_bit 16 (ucast (d ! (off + 2)))
     OR push_bit 24 (ucast (d ! (off + 3)))"

definition put2 :: "nat \<Rightarrow> u16 \<Rightarrow> u8 list \<Rightarrow> u8 list" where
  "put2 off w = splice off (le2 w)"

definition put4 :: "nat \<Rightarrow> u32 \<Rightarrow> u8 list \<Rightarrow> u8 list" where
  "put4 off w = splice off (le4 w)"

section \<open>Laws\<close>

lemma length_slice [simp]: "length (slice off n d) = min n (length d - off)"
  by (simp add: slice_def)

lemma length_splice [simp]: "off + length xs \<le> length d \<Longrightarrow> length (splice off xs d) = length d"
  by (simp add: splice_def)

lemma length_le [simp]: "length (le2 w) = 2" "length (le4 v) = 4"
  by (simp_all add: le2_def le4_def)

lemma length_put [simp]: "off + 2 \<le> length d \<Longrightarrow> length (put2 off w d) = length d" "off + 4 \<le> length d \<Longrightarrow> length (put4 off v d) = length d"
  by (simp_all add: put2_def put4_def)

lemma nth_splice:
  "off + length xs \<le> length d \<Longrightarrow> i < length d \<Longrightarrow>
   splice off xs d ! i = (if off \<le> i \<and> i < off + length xs then xs ! (i - off) else d ! i)"
  by (auto simp: splice_def nth_append min_def)

lemma slice_splice: "off + length xs \<le> length d \<Longrightarrow> slice off (length xs) (splice off xs d) = xs"
  by (simp add: slice_def splice_def)

lemma slice_nth: "i < n \<Longrightarrow> off + n \<le> length d \<Longrightarrow> slice off n d ! i = d ! (off + i)"
  by (simp add: slice_def)

lemma slice_other:
  assumes "off + length xs \<le> length d" and "a + n \<le> length d" and "a + n \<le> off \<or> off + length xs \<le> a"
  shows "slice a n (splice off xs d) = slice a n d"
  using assms by (intro nth_equalityI) (auto simp: slice_nth nth_splice)

lemma halfword_of_bytes: "ucast (ucast w :: u8) OR push_bit 8 (ucast (ucast (drop_bit 8 w) :: u8)) = (w :: u16)" (is "?x = w")
proof (rule bit_word_eqI)
  fix n assume "n < LENGTH(16)"
  then consider "n < 8" | "8 \<le> n" "n < 16" by fastforce
  then show "bit ?x n = bit w n" by cases (auto simp: bit_simps)
qed

lemma get2_put2 [simp]: "off + 2 \<le> length d \<Longrightarrow> get2 (put2 off w d) off = w"
  using halfword_of_bytes [of w] by (simp add: get2_def put2_def nth_splice le2_def)

lemma get4_put4 [simp]: "off + 4 \<le> length d \<Longrightarrow> get4 (put4 off w d) off = w"
  using word_of_bytes [of w] by (simp add: get4_def put4_def nth_splice le4_def numeral_2_eq_2 numeral_3_eq_3)

lemma get4_splice_other:
  "off + length xs \<le> length d \<Longrightarrow> a + 4 \<le> length d \<Longrightarrow> a + 4 \<le> off \<or> off + length xs \<le> a \<Longrightarrow> get4 (splice off xs d) a = get4 d a"
  by (auto simp: get4_def nth_splice)

lemma get2_splice_other:
  "off + length xs \<le> length d \<Longrightarrow> a + 2 \<le> length d \<Longrightarrow> a + 2 \<le> off \<or> off + length xs \<le> a \<Longrightarrow> get2 (splice off xs d) a = get2 d a"
  by (auto simp: get2_def nth_splice)

lemma get_put_other:
  "off + 4 \<le> length d \<Longrightarrow> a + 4 \<le> length d \<Longrightarrow> a + 4 \<le> off \<or> off + 4 \<le> a \<Longrightarrow> get4 (put4 off w d) a = get4 d a"
  "off + 4 \<le> length d \<Longrightarrow> b + 2 \<le> length d \<Longrightarrow> b + 2 \<le> off \<or> off + 4 \<le> b \<Longrightarrow> get2 (put4 off w d) b = get2 d b"
  "off + 2 \<le> length d \<Longrightarrow> a + 4 \<le> length d \<Longrightarrow> a + 4 \<le> off \<or> off + 2 \<le> a \<Longrightarrow> get4 (put2 off v d) a = get4 d a"
  "off + 2 \<le> length d \<Longrightarrow> b + 2 \<le> length d \<Longrightarrow> b + 2 \<le> off \<or> off + 2 \<le> b \<Longrightarrow> get2 (put2 off v d) b = get2 d b"
  by (simp_all add: put2_def put4_def get4_splice_other get2_splice_other)

lemma get4_zero: "off + 4 \<le> n \<Longrightarrow> get4 (replicate n 0) off = 0"
  by (simp add: get4_def)

lemma get4_le4: "get4 (le4 w @ r) 0 = w"
  using word_of_bytes [of w] by (simp add: get4_def le4_def numeral_2_eq_2 numeral_3_eq_3)

lemma get4_shift: "get4 (xs @ r) (length xs + k) = get4 r k"
  by (simp add: get4_def nth_append add.assoc)

lemma get_splice:
  assumes "off + length xs \<le> length d"
  shows "i + 2 \<le> length xs \<Longrightarrow> get2 (splice off xs d) (off + i) = get2 xs i" and "j + 4 \<le> length xs \<Longrightarrow> get4 (splice off xs d) (off + j) = get4 xs j"
  using assms by (simp_all add: get2_def get4_def nth_splice)

lemma get2_le2: "get2 (le2 w) 0 = w"
  by (simp add: get2_def le2_def halfword_of_bytes)

lemma get_append:
  "i + 2 \<le> length xs \<Longrightarrow> get2 (xs @ ys) i = get2 xs i" "length xs \<le> i \<Longrightarrow> get2 (xs @ ys) i = get2 ys (i - length xs)"
  "i + 4 \<le> length xs \<Longrightarrow> get4 (xs @ ys) i = get4 xs i" "length xs \<le> i \<Longrightarrow> get4 (xs @ ys) i = get4 ys (i - length xs)"
  by (simp_all add: get2_def get4_def nth_append Suc_diff_le add.commute)

lemma get4_concat: "j < length ws \<Longrightarrow> get4 (concat (map le4 ws)) (4 * j) = ws ! j"
proof (induction ws arbitrary: j)
  case (Cons w ws)
  then show ?case by (cases j) (simp_all add: get_append get4_le4)
qed simp

end
