(* ===== verification/Log.thy ===== *)
theory Log
  imports Bio Block
begin

text \<open>
  The write-ahead log (\<open>src/log.c\<close>) over the buffer cache: transactions, commit and recovery, and
  \<open>readsb\<close> of \<open>src/fs.c\<close>, which \<open>initlog\<close> calls.
\<close>

section \<open>State\<close>

record superblock =
  sb_size :: u32
  sb_nblocks :: u32
  sb_ninodes :: u32
  sb_nlog :: u32
  sb_logstart :: u32
  sb_inodestart :: u32
  sb_bmapstart :: u32

text \<open>\<open>struct log\<close>; the in-memory header is \<open>lh_n\<close> with the array \<open>lh_block\<close>.\<close>

record lst = bst +
  lg_start :: u32
  lg_size :: int
  outstanding :: int
  committing :: bool
  lg_dev :: u32
  lh_n :: int
  lh_block :: "nat \<Rightarrow> u32"

section \<open>Operations\<close>

definition sb_of :: "u8 list \<Rightarrow> superblock" where
  "sb_of b = \<lparr>sb_size = get4 b 0, sb_nblocks = get4 b 4, sb_ninodes = get4 b 8, sb_nlog = get4 b 12,
              sb_logstart = get4 b 16, sb_inodestart = get4 b 20, sb_bmapstart = get4 b 24\<rparr>"

definition readsb :: "u32 \<Rightarrow> 'a bst_scheme \<Rightarrow> (superblock \<times> 'a bst_scheme) res" where
  "readsb d s =
     bindr (bread d 1 s) (\<lambda>(i, s).
     let sb = sb_of (bdata (bufs s (Buf i)))
     in bindr (brelse i s) (\<lambda>s. Ret (sb, s)))"

text \<open>The loops over the logged blocks, from \<open>tail\<close> with \<open>k\<close> blocks to go.\<close>

primrec install_loop :: "nat \<Rightarrow> nat \<Rightarrow> 'a lst_scheme \<Rightarrow> 'a lst_scheme res" where
  "install_loop tail 0 s = Ret s"
| "install_loop tail (Suc k) s =
     bindr (bread (lg_dev s) (lg_start s + of_nat tail + 1) s) (\<lambda>(lbuf, s).
     bindr (bread (lg_dev s) (lh_block s tail) s) (\<lambda>(dbuf, s).
     let s = set_bdata dbuf (bdata (bufs s (Buf lbuf))) s
     in bindr (bwrite dbuf s) (\<lambda>s.
        bindr (brelse lbuf s) (\<lambda>s.
        bindr (brelse dbuf s) (\<lambda>s.
        install_loop (Suc tail) k s)))))"

definition install_trans :: "'a lst_scheme \<Rightarrow> 'a lst_scheme res" where
  "install_trans s = install_loop 0 (nat (lh_n s)) s"

text \<open>\<open>log.lh\<close> has room for \<open>LOGSIZE\<close> block numbers.\<close>

definition read_head :: "'a lst_scheme \<Rightarrow> 'a lst_scheme res" where
  "read_head s =
     bindr (bread (lg_dev s) (lg_start s) s) (\<lambda>(i, s).
     let b = bdata (bufs s (Buf i)); n = sint (get4 b 0)
     in if n > int LOGSIZE then Fault
        else let s = s\<lparr>lh_n := n, lh_block := \<lambda>k. if int k < n then get4 b (4 + 4 * k) else lh_block s k\<rparr>
             in brelse i s)"

definition put_head :: "int \<Rightarrow> (nat \<Rightarrow> u32) \<Rightarrow> u8 list \<Rightarrow> u8 list" where
  "put_head n blk b = fold (\<lambda>k. put4 (4 + 4 * k) (blk k)) [0..<nat n] (put4 0 (of_int n) b)"

definition write_head :: "'a lst_scheme \<Rightarrow> 'a lst_scheme res" where
  "write_head s =
     bindr (bread (lg_dev s) (lg_start s) s) (\<lambda>(i, s).
     let s = set_bdata i (put_head (lh_n s) (lh_block s) (bdata (bufs s (Buf i)))) s
     in bindr (bwrite i s) (brelse i))"

definition recover_from_log :: "'a lst_scheme \<Rightarrow> 'a lst_scheme res" where
  "recover_from_log s =
     bindr (read_head s) (\<lambda>s.
     bindr (install_trans s) (\<lambda>s.
     write_head (s\<lparr>lh_n := 0\<rparr>)))"

definition initlog :: "u32 \<Rightarrow> 'a lst_scheme \<Rightarrow> 'a lst_scheme res" where
  "initlog d s =
     (if 4 + 4 * LOGSIZE \<ge> BSIZE then Panic ''initlog: too big logheader''
      else let s = s\<lparr>lks := (lks s)(LkLog := initlock (lks s LkLog) ''log'')\<rparr>
           in bindr (readsb d s) (\<lambda>(sb, s).
              recover_from_log (s\<lparr>lg_start := sb_logstart sb, lg_size := sint (sb_nlog sb), lg_dev := d\<rparr>)))"

definition begin_op :: "'a lst_scheme \<Rightarrow> 'a lst_scheme res" where
  "begin_op s =
     bindr (acq LkLog s) (\<lambda>s.
     if committing s then Hang
     else if lh_n s + (outstanding s + 1) * int MAXOPBLOCKS > int LOGSIZE then Hang
     else rel LkLog (s\<lparr>outstanding := outstanding s + 1\<rparr>))"

primrec write_log_loop :: "nat \<Rightarrow> nat \<Rightarrow> 'a lst_scheme \<Rightarrow> 'a lst_scheme res" where
  "write_log_loop tail 0 s = Ret s"
| "write_log_loop tail (Suc k) s =
     bindr (bread (lg_dev s) (lg_start s + of_nat tail + 1) s) (\<lambda>(to, s).
     bindr (bread (lg_dev s) (lh_block s tail) s) (\<lambda>(fr, s).
     let s = set_bdata to (bdata (bufs s (Buf fr))) s
     in bindr (bwrite to s) (\<lambda>s.
        bindr (brelse fr s) (\<lambda>s.
        bindr (brelse to s) (\<lambda>s.
        write_log_loop (Suc tail) k s)))))"

definition write_log :: "'a lst_scheme \<Rightarrow> 'a lst_scheme res" where
  "write_log s = write_log_loop 0 (nat (lh_n s)) s"

definition commit :: "'a lst_scheme \<Rightarrow> 'a lst_scheme res" where
  "commit s =
     (if lh_n s > 0
      then bindr (write_log s) (\<lambda>s.
           bindr (write_head s) (\<lambda>s.
           bindr (install_trans s) (\<lambda>s.
           write_head (s\<lparr>lh_n := 0\<rparr>))))
      else Ret s)"

definition end_op :: "'a lst_scheme \<Rightarrow> 'a lst_scheme res" where
  "end_op s =
     bindr (acq LkLog s) (\<lambda>s.
     let s = s\<lparr>outstanding := outstanding s - 1\<rparr>
     in if committing s then Panic ''log.committing''
        else if outstanding s = 0
        then bindr (rel LkLog (s\<lparr>committing := True\<rparr>)) (\<lambda>s.
             bindr (commit s) (\<lambda>s.
             bindr (acq LkLog s) (\<lambda>s.
             rel LkLog (wake ChLog (s\<lparr>committing := False\<rparr>)))))
        else rel LkLog (wake ChLog s))"

text \<open>What \<open>log_write\<close> does under the lock: log absorption, then the block is pinned.\<close>

definition log_record :: "nat \<Rightarrow> 'a lst_scheme \<Rightarrow> 'a lst_scheme" where
  "log_record b s =
     (let no = blockno (bufs s (Buf b));
          i = length (takeWhile (\<lambda>k. lh_block s k \<noteq> no) [0..<nat (lh_n s)]);
          s = s\<lparr>lh_block := (lh_block s)(i := no)\<rparr>;
          s = (if int i = lh_n s then s\<lparr>lh_n := lh_n s + 1\<rparr> else s)
      in updb (Buf b) (\<lambda>x. x\<lparr>bflags := bflags x OR B_DIRTY\<rparr>) s)"

definition log_write :: "nat \<Rightarrow> 'a lst_scheme \<Rightarrow> 'a lst_scheme res" where
  "log_write b s =
     (if lh_n s \<ge> int LOGSIZE \<or> lh_n s \<ge> lg_size s - 1 then Panic ''too big a transaction''
      else if outstanding s < 1 then Panic ''log_write outside of trans''
      else bindr (acq LkLog s) (\<lambda>s. rel LkLog (log_record b s)))"


section \<open>One block written\<close>

lemma lst_more:
  assumes "bst.more s' = bst.more s"
  shows "lg_start s' = lg_start s" "lg_size s' = lg_size s" "outstanding s' = outstanding s" "committing s' = committing s"
    "lg_dev s' = lg_dev s" "lh_n s' = lh_n s" "lh_block s' = lh_block s" "lst.more s' = lst.more s"
  using assms by (cases s rule: lst.cases_scheme; cases s' rule: lst.cases_scheme; simp)+

text \<open>The state after the cache has written \<open>d\<close> to block \<open>n\<close> and holds no buffer.\<close>

definition after_write :: "'a bst_scheme \<Rightarrow> (nat \<Rightarrow> u8 list) \<Rightarrow> nat \<Rightarrow> u8 list \<Rightarrow> 'a bst_scheme \<Rightarrow> bool" where
  "after_write s V n d s' \<longleftrightarrow> brep s' (V(n := d)) {} \<and> memdisk s' = (memdisk s)(n := d) \<and> disksize s' = disksize s
     \<and> bwrites s' = bwrites s @ [(n, d)] \<and> bst.more s' = bst.more s \<and> dblk s' = dblk s - {n}"

lemma rewrite_block:
  assumes "brep s V {}" and "n < unat (disksize s)" and "length d = BSIZE" and "card (dblk s) < NBUF"
  shows "\<exists>i s1 s2 s3. bread 1 (of_nat n) s = Ret (i, s1) \<and> bst.more s1 = bst.more s \<and> bdata (bufs s1 (Buf i)) = V n
    \<and> bwrite i (set_bdata i d s1) = Ret s2 \<and> brelse i s2 = Ret s3 \<and> after_write s V n d s3"
proof -
  obtain i s1 where b: "bread 1 (of_nat n) s = Ret (i, s1)" and g: "got_buf s V {} n i s1"
    using bread_blk [OF assms(1,2)] assms(4) by auto
  then have r1: "brep s1 V {i}" "cached s1 i n" by (simp_all add: got_buf_def)
  from bwrite_ok [OF r1(1) _ r1(2) assms(3)] obtain s2 where w: "bwrite i (set_bdata i d s1) = Ret s2" "wrote_buf s1 V {i} i n d s2" by auto
  then have r2: "brep s2 (V(n := d)) {i}" by (simp add: wrote_buf_def)
  from brelse_ok [OF r2] obtain s3 where p: "brelse i s2 = Ret s3" "put_buf s2 (V(n := d)) {i} i s3" by auto
  have "dblk s3 = dblk s - {n}"
    using dblk_keep(1) [OF g] dblk_written [OF w(2) r1(2,1)] dblk_keep(2) [OF p(2)] by simp
  then have "after_write s V n d s3" using g w(2) p(2) by (auto simp: after_write_def got_buf_def wrote_buf_def put_buf_def)
  moreover have "bst.more s1 = bst.more s" "bdata (bufs s1 (Buf i)) = V n" using g by (simp_all add: got_buf_def)
  ultimately show ?thesis using b w(1) p(1) by blast
qed

text \<open>Two buffers at once: \<open>y\<close> is read after \<open>x\<close>.\<close>

lemma read_two:
  assumes "brep s V {}" and "a < unat (disksize s)" and "b < unat (disksize s)" and "a \<noteq> b" and "card (dblk s) + 2 \<le> NBUF"
  shows "\<exists>x s1 y s2. bread 1 (of_nat a) s = Ret (x, s1) \<and> bread 1 (of_nat b) s1 = Ret (y, s2) \<and> x \<noteq> y
    \<and> brep s2 V {x, y} \<and> cached s2 x a \<and> cached s2 y b \<and> bdata (bufs s2 (Buf x)) = V a \<and> bdata (bufs s2 (Buf y)) = V b
    \<and> memdisk s2 = memdisk s \<and> disksize s2 = disksize s \<and> bwrites s2 = bwrites s \<and> bst.more s1 = bst.more s \<and> bst.more s2 = bst.more s \<and> dblk s2 = dblk s"
proof -
  obtain x s1 where x: "bread 1 (of_nat a) s = Ret (x, s1)" "got_buf s V {} a x s1"
    using bread_blk [OF assms(1,2)] assms(5) by auto
  then have r1: "brep s1 V {x}" "cached s1 x a" "disksize s1 = disksize s" by (simp_all add: got_buf_def)
  have "\<forall>i\<in>{x}. \<not> cached s1 i b" using r1(2) assms(4) by (auto simp: cached_def)
  then obtain y s2 where y: "bread 1 (of_nat b) s1 = Ret (y, s2)" "got_buf s1 V {x} b y s2"
    using bread_blk [OF r1(1), of b] assms(3,5) r1(3) dblk_keep(1) [OF x(2)] by auto
  have "dblk s2 = dblk s" using dblk_keep(1) [OF x(2)] dblk_keep(1) [OF y(2)] by simp
  moreover have "insert y {x} = {x, y}" by auto
  ultimately show ?thesis using x y by (fastforce simp: got_buf_def)
qed

text \<open>Writing one of them and releasing both, the other one first.\<close>

lemma write_one:
  assumes "brep s V {x, y}" and "x \<noteq> y" and "cached s y b" and "length d = BSIZE"
  shows "\<exists>s1 s2 s3. bwrite y (set_bdata y d s) = Ret s1 \<and> brelse x s1 = Ret s2 \<and> brelse y s2 = Ret s3
    \<and> bst.more s1 = bst.more s \<and> bst.more s2 = bst.more s \<and> after_write s V b d s3"
proof -
  obtain s1 where w: "bwrite y (set_bdata y d s) = Ret s1" "wrote_buf s V {x, y} y b d s1"
    using bwrite_ok [OF assms(1) _ assms(3,4)] by auto
  then have r1: "brep s1 (V(b := d)) {x, y}" by (simp add: wrote_buf_def)
  then obtain s2 where p: "brelse x s1 = Ret s2" "put_buf s1 (V(b := d)) {x, y} x s2" using brelse_ok [OF r1, of x] by auto
  then have r2: "brep s2 (V(b := d)) {y}" using assms(2) by (simp add: put_buf_def insert_Diff_if)
  then obtain s3 where q: "brelse y s2 = Ret s3" "put_buf s2 (V(b := d)) {y} y s3" using brelse_ok [OF r2, of y] by auto
  have "dblk s3 = dblk s - {b}"
    using dblk_written [OF w(2) assms(3,1)] dblk_keep(2) [OF p(2)] dblk_keep(2) [OF q(2)] by simp
  then have "after_write s V b d s3" using w(2) p(2) q(2) by (auto simp: after_write_def wrote_buf_def put_buf_def)
  moreover have "bst.more s1 = bst.more s" "bst.more s2 = bst.more s" using w(2) p(2) by (auto simp: wrote_buf_def put_buf_def)
  ultimately show ?thesis using w(1) p(1) q(1) by blast
qed

section \<open>Sequences of writes\<close>

definition apply_writes :: "(nat \<times> u8 list) list \<Rightarrow> (nat \<Rightarrow> u8 list) \<Rightarrow> nat \<Rightarrow> u8 list" where
  "apply_writes W D = fold (\<lambda>(n, d) D. D(n := d)) W D"

lemma apply_writes_simps [simp]:
  "apply_writes [] D = D" "apply_writes ((n, d) # W) D = apply_writes W (D(n := d))" "apply_writes (W @ W') D = apply_writes W' (apply_writes W D)"
  by (simp_all add: apply_writes_def)

lemma apply_writes_other: "n \<notin> fst ` set W \<Longrightarrow> apply_writes W D n = D n"
  by (induction W arbitrary: D) auto

lemma apply_writes_map:
  "inj_on f (set xs) \<Longrightarrow> x \<in> set xs \<Longrightarrow> apply_writes (map (\<lambda>x. (f x, g x)) xs) D (f x) = g x"
proof (induction xs arbitrary: D)
  case (Cons y xs)
  show ?case
  proof (cases "x \<in> set xs")
    case False
    then have x: "x = y" using Cons.prems(2) by simp
    then have "f x \<notin> fst ` set (map (\<lambda>x. (f x, g x)) xs)" using Cons.prems(1) False by (auto simp: inj_on_def)
    with x show ?thesis by (simp add: apply_writes_other)
  qed (use Cons in auto)
qed simp

definition done_writes :: "'a bst_scheme \<Rightarrow> (nat \<Rightarrow> u8 list) \<Rightarrow> (nat \<times> u8 list) list \<Rightarrow> 'a bst_scheme \<Rightarrow> bool" where
  "done_writes s V W s' \<longleftrightarrow> brep s' (apply_writes W V) {} \<and> memdisk s' = apply_writes W (memdisk s) \<and> disksize s' = disksize s
     \<and> bwrites s' = bwrites s @ W \<and> bst.more s' = bst.more s \<and> dblk s' = dblk s - fst ` set W"

lemma done_writes_Nil: "brep s V {} \<Longrightarrow> done_writes s V [] s"
  by (simp add: done_writes_def)

lemma done_writes_Cons:
  "after_write s V n d s1 \<Longrightarrow> done_writes s1 (V(n := d)) W s' \<Longrightarrow> done_writes s V ((n, d) # W) s'"
  by (auto simp: done_writes_def after_write_def)

lemma loop_addr: "lg + of_nat tail + 1 = (of_nat (Suc (unat lg + tail)) :: u32)"
  by (simp add: ac_simps)

text \<open>The hypotheses of both copy loops: \<open>A\<close> are the log blocks, \<open>B\<close> the home blocks.\<close>

definition copies :: "'a lst_scheme \<Rightarrow> (nat \<Rightarrow> nat) \<Rightarrow> nat set \<Rightarrow> bool" where
  "copies s B J \<longleftrightarrow> lg_dev s = 1 \<and> (\<forall>j\<in>J. Suc (unat (lg_start s) + j) < unat (disksize s) \<and> B j < unat (disksize s)
     \<and> lh_block s j = of_nat (B j) \<and> (\<forall>i\<in>J. Suc (unat (lg_start s) + i) \<noteq> B j))"

lemma copies_more: "bst.more s' = bst.more s \<Longrightarrow> disksize s' = disksize s \<Longrightarrow> copies s' B J = copies s B J"
  using lst_more [of s' s] by (simp add: copies_def)

lemma copies_mono: "copies s B J \<Longrightarrow> J' \<subseteq> J \<Longrightarrow> copies s B J'"
  by (auto simp: copies_def)

lemma copies_apart: "copies s B J \<Longrightarrow> i \<in> J \<Longrightarrow> j \<in> J \<Longrightarrow> B j \<noteq> Suc (unat (lg_start s) + i)"
  by (metis copies_def)

lemma dblk_after: "after_write s V n d s' \<Longrightarrow> brep s V K \<Longrightarrow> card (dblk s') \<le> card (dblk s)"
  using dblk_card(1) [of s V K] by (simp add: after_write_def card_Diff1_le)

lemma install_loop_ok:
  "brep s V {} \<Longrightarrow> copies s B {tail..<tail + k} \<Longrightarrow> card (dblk s) + 2 \<le> NBUF \<Longrightarrow>
   \<exists>s'. install_loop tail k s = Ret s' \<and> done_writes s V (map (\<lambda>j. (B j, V (Suc (unat (lg_start s) + j)))) [tail..<tail + k]) s'"
proof (induction k arbitrary: tail s V)
  case 0
  then show ?case by (simp add: done_writes_Nil)
next
  case (Suc k)
  let ?A = "\<lambda>j. Suc (unat (lg_start s) + j)"
  have c: "lg_dev s = 1" "?A tail < unat (disksize s)" "B tail < unat (disksize s)" "lh_block s tail = of_nat (B tail)" "?A tail \<noteq> B tail"
    using Suc.prems(2) by (auto simp: copies_def)
  obtain x s1 y s2 where r: "bread 1 (of_nat (?A tail)) s = Ret (x, s1)" "bread 1 (of_nat (B tail)) s1 = Ret (y, s2)" "x \<noteq> y"
    "brep s2 V {x, y}" "cached s2 y (B tail)" "bdata (bufs s2 (Buf x)) = V (?A tail)"
    and f: "memdisk s2 = memdisk s" "disksize s2 = disksize s" "bwrites s2 = bwrites s" "bst.more s1 = bst.more s" "bst.more s2 = bst.more s" "dblk s2 = dblk s"
    using read_two [OF Suc.prems(1) c(2,3,5) Suc.prems(3)] by blast
  have "length (V (?A tail)) = BSIZE" using brepD(11) [OF Suc.prems(1)] c(2) by blast
  from write_one [OF r(4,3,5) this] obtain s3 s4 s5 where w: "bwrite y (set_bdata y (V (?A tail)) s2) = Ret s3"
    "brelse x s3 = Ret s4" "brelse y s4 = Ret s5" "after_write s2 V (B tail) (V (?A tail)) s5" by blast
  have a: "after_write s V (B tail) (V (?A tail)) s5" using w(4) f by (simp add: after_write_def)
  then have s5: "bst.more s5 = bst.more s" "disksize s5 = disksize s" "brep s5 (V(B tail := V (?A tail))) {}" by (simp_all add: after_write_def)
  have "copies s5 B {Suc tail..<Suc tail + k}"
    using Suc.prems(2) by (auto simp: copies_more [OF s5(1,2)] elim!: copies_mono)
  moreover have "card (dblk s5) + 2 \<le> NBUF" using dblk_after [OF a Suc.prems(1)] Suc.prems(3) by simp
  ultimately obtain s' where s': "install_loop (Suc tail) k s5 = Ret s'"
    "done_writes s5 (V(B tail := V (?A tail))) (map (\<lambda>j. (B j, (V(B tail := V (?A tail))) (Suc (unat (lg_start s5) + j)))) [Suc tail..<Suc tail + k]) s'"
    using Suc.IH [OF s5(3)] by blast
  have m: "map (\<lambda>j. (B j, (V(B tail := V (?A tail))) (Suc (unat (lg_start s5) + j)))) [Suc tail..<Suc tail + k]
      = map (\<lambda>j. (B j, V (?A j))) [Suc tail..<Suc tail + k]"
    using Suc.prems(2) lst_more(1) [OF s5(1)] by (intro map_cong) (auto simp: copies_def)
  have "done_writes s V (map (\<lambda>j. (B j, V (?A j))) [tail..<tail + Suc k]) s'"
    using done_writes_Cons [OF a s'(2) [unfolded m]] by (simp add: upt_conv_Cons del: upt_Suc)
  moreover have "install_loop tail (Suc k) s = Ret s'"
    using r w(1-3) s'(1) c lst_more [OF f(4)] unfolding install_loop.simps loop_addr by simp
  ultimately show ?case by blast
qed

lemma write_log_loop_ok:
  "brep s V {} \<Longrightarrow> copies s B {tail..<tail + k} \<Longrightarrow> card (dblk s) + 2 \<le> NBUF \<Longrightarrow>
   \<exists>s'. write_log_loop tail k s = Ret s' \<and> done_writes s V (map (\<lambda>j. (Suc (unat (lg_start s) + j), V (B j))) [tail..<tail + k]) s'"
proof (induction k arbitrary: tail s V)
  case 0
  then show ?case by (simp add: done_writes_Nil)
next
  case (Suc k)
  let ?A = "\<lambda>j. Suc (unat (lg_start s) + j)"
  have c: "lg_dev s = 1" "?A tail < unat (disksize s)" "B tail < unat (disksize s)" "lh_block s tail = of_nat (B tail)" "?A tail \<noteq> B tail"
    using Suc.prems(2) by (auto simp: copies_def)
  obtain x s1 y s2 where r: "bread 1 (of_nat (?A tail)) s = Ret (x, s1)" "bread 1 (of_nat (B tail)) s1 = Ret (y, s2)" "y \<noteq> x"
    "brep s2 V {y, x}" "cached s2 x (?A tail)" "bdata (bufs s2 (Buf y)) = V (B tail)"
    and f: "memdisk s2 = memdisk s" "disksize s2 = disksize s" "bwrites s2 = bwrites s" "bst.more s1 = bst.more s" "bst.more s2 = bst.more s" "dblk s2 = dblk s"
    using read_two [OF Suc.prems(1) c(2,3,5) Suc.prems(3)] by (metis insert_commute)
  have "length (V (B tail)) = BSIZE" using brepD(11) [OF Suc.prems(1)] c(3) by blast
  from write_one [OF r(4,3,5) this] obtain s3 s4 s5 where w: "bwrite x (set_bdata x (V (B tail)) s2) = Ret s3"
    "brelse y s3 = Ret s4" "brelse x s4 = Ret s5" "after_write s2 V (?A tail) (V (B tail)) s5" by blast
  have a: "after_write s V (?A tail) (V (B tail)) s5" using w(4) f by (simp add: after_write_def)
  then have s5: "bst.more s5 = bst.more s" "disksize s5 = disksize s" "brep s5 (V(?A tail := V (B tail))) {}" by (simp_all add: after_write_def)
  have "copies s5 B {Suc tail..<Suc tail + k}"
    using Suc.prems(2) by (auto simp: copies_more [OF s5(1,2)] elim!: copies_mono)
  moreover have "card (dblk s5) + 2 \<le> NBUF" using dblk_after [OF a Suc.prems(1)] Suc.prems(3) by simp
  ultimately obtain s' where s': "write_log_loop (Suc tail) k s5 = Ret s'"
    "done_writes s5 (V(?A tail := V (B tail))) (map (\<lambda>j. (Suc (unat (lg_start s5) + j), (V(?A tail := V (B tail))) (B j))) [Suc tail..<Suc tail + k]) s'"
    using Suc.IH [OF s5(3)] by blast
  have m: "map (\<lambda>j. (Suc (unat (lg_start s5) + j), (V(?A tail := V (B tail))) (B j))) [Suc tail..<Suc tail + k]
      = map (\<lambda>j. (?A j, V (B j))) [Suc tail..<Suc tail + k]"
    using copies_apart [OF Suc.prems(2), of tail] lst_more(1) [OF s5(1)] by (intro map_cong) auto
  have "done_writes s V (map (\<lambda>j. (?A j, V (B j))) [tail..<tail + Suc k]) s'"
    using done_writes_Cons [OF a s'(2) [unfolded m]] by (simp add: upt_conv_Cons del: upt_Suc)
  moreover have "write_log_loop tail (Suc k) s = Ret s'"
    using r w(1-3) s'(1) c lst_more [OF f(4)] unfolding write_log_loop.simps loop_addr by simp
  ultimately show ?case by blast
qed

section \<open>The header\<close>

lemma put_head_fold:
  "length b = BSIZE \<Longrightarrow> 4 + 4 * n \<le> BSIZE \<Longrightarrow>
   length (fold (\<lambda>k. put4 (4 + 4 * k) (blk k)) [0..<n] b) = BSIZE \<and> get4 (fold (\<lambda>k. put4 (4 + 4 * k) (blk k)) [0..<n] b) 0 = get4 b 0
   \<and> (\<forall>k<n. get4 (fold (\<lambda>k. put4 (4 + 4 * k) (blk k)) [0..<n] b) (4 + 4 * k) = blk k)"
proof (induction n)
  case (Suc n)
  let ?b = "fold (\<lambda>k. put4 (4 + 4 * k) (blk k)) [0..<n] b"
  have b: "length ?b = BSIZE" "get4 ?b 0 = get4 b 0" "\<forall>k<n. get4 ?b (4 + 4 * k) = blk k" using Suc by auto
  have "get4 (put4 (4 + 4 * n) (blk n) ?b) (4 + 4 * k) = blk k" if "k < Suc n" for k
    using that b Suc.prems by (cases "k = n") (auto simp: get_put_other)
  moreover have "get4 (put4 (4 + 4 * n) (blk n) ?b) 0 = get4 b 0"
    using b Suc.prems by (simp add: get_put_other BSIZE_def)
  ultimately show ?case using b Suc.prems by simp
qed simp

lemma put_head:
  assumes "length b = BSIZE" and "0 \<le> n" and "4 + 4 * nat n \<le> BSIZE"
  shows "length (put_head n blk b) = BSIZE" and "get4 (put_head n blk b) 0 = of_int n"
    and "int k < n \<Longrightarrow> get4 (put_head n blk b) (4 + 4 * k) = blk k"
proof -
  have l: "length (put4 0 (of_int n) b) = BSIZE" using assms(1) by (simp add: BSIZE_def)
  from put_head_fold [OF this assms(3), of blk] assms(1,2)
  show "length (put_head n blk b) = BSIZE" "get4 (put_head n blk b) 0 = of_int n"
    and "int k < n \<Longrightarrow> get4 (put_head n blk b) (4 + 4 * k) = blk k"
    by (auto simp: put_head_def BSIZE_def)
qed

text \<open>The header a block stands for, when it is one.\<close>

definition header :: "u8 list \<Rightarrow> nat list \<Rightarrow> bool" where
  "header b L \<longleftrightarrow> get4 b 0 = of_nat (length L) \<and> (\<forall>k<length L. get4 b (4 + 4 * k) = of_nat (L ! k))"

lemma write_head_ok:
  assumes "brep s V {}" and "lg_dev s = 1" and "unat (lg_start s) < unat (disksize s)" and "card (dblk s) < NBUF"
    and "lh_n s = int (length L)" and "length L \<le> LOGSIZE" and "\<forall>k<length L. lh_block s k = of_nat (L ! k)"
  shows "\<exists>s' h. write_head s = Ret s' \<and> header h L \<and> length h = BSIZE \<and> after_write s V (unat (lg_start s)) h s'"
proof -
  let ?h = "put_head (lh_n s) (lh_block s) (V (unat (lg_start s)))"
  have b: "length (V (unat (lg_start s))) = BSIZE" using brepD(11) [OF assms(1)] assms(3) by blast
  have h: "length ?h = BSIZE" "header ?h L"
    using put_head [OF b, where n = "lh_n s" and blk = "lh_block s"] assms(5-7) by (auto simp: header_def LOGSIZE_def MAXOPBLOCKS_def BSIZE_def)
  obtain i s1 s2 s3 where "bread 1 (of_nat (unat (lg_start s))) s = Ret (i, s1)" "bst.more s1 = bst.more s"
    "bdata (bufs s1 (Buf i)) = V (unat (lg_start s))" "bwrite i (set_bdata i ?h s1) = Ret s2" "brelse i s2 = Ret s3"
    "after_write s V (unat (lg_start s)) ?h s3"
    using rewrite_block [OF assms(1,3) h(1) assms(4)] by blast
  with h assms(2) lst_more [of s1 s] show ?thesis by (auto simp: write_head_def)
qed

section \<open>Transactions\<close>

definition loga :: "'a lst_scheme \<Rightarrow> nat set" where
  "loga s = {unat (lg_start s)..<unat (lg_start s) + nat (lg_size s)}"

definition home :: "'a lst_scheme \<Rightarrow> nat \<Rightarrow> bool" where
  "home s n \<longleftrightarrow> n < unat (disksize s) \<and> n \<notin> loga s \<and> n \<noteq> 1"

text \<open>
  A transaction in progress: the blocks \<open>V\<close> as the cache has them, the logged blocks \<open>L\<close>, which are
  exactly the dirty ones, the buffers \<open>K\<close> in use; the log on disk is empty.
\<close>

definition lrep :: "'a lst_scheme \<Rightarrow> (nat \<Rightarrow> u8 list) \<Rightarrow> nat list \<Rightarrow> nat set \<Rightarrow> bool" where
  "lrep s V L K \<longleftrightarrow> brep s V K \<and> lg_dev s = 1 \<and> lh_n s = int (length L) \<and> (\<forall>k<length L. lh_block s k = of_nat (L ! k))
     \<and> distinct L \<and> int (length L) < lg_size s \<and> length L \<le> LOGSIZE \<and> (\<forall>n\<in>set L. home s n) \<and> dblk s = set L
     \<and> unat (lg_start s) + nat (lg_size s) \<le> unat (disksize s) \<and> header (V (unat (lg_start s))) [] \<and> 1 \<notin> loga s"

lemma loga_mem: "int j < lg_size s \<Longrightarrow> unat (lg_start s) + j \<in> loga s"
  by (simp add: loga_def)

lemma lrep_areas:
  assumes "lrep s V L K"
  shows "unat (lg_start s) \<in> loga s" and "j < length L \<Longrightarrow> Suc (unat (lg_start s) + j) \<in> loga s"
    and "j < length L \<Longrightarrow> L ! j \<notin> loga s" and "j < length L \<Longrightarrow> L ! j < unat (disksize s)" and "n \<in> loga s \<Longrightarrow> n < unat (disksize s)"
    and "j < length L \<Longrightarrow> L ! j \<noteq> 1"
proof -
  have l: "int (length L) < lg_size s" and h: "\<forall>n\<in>set L. home s n" using assms by (auto simp: lrep_def)
  show "unat (lg_start s) \<in> loga s" using loga_mem [of 0 s] l by simp
  show "j < length L \<Longrightarrow> Suc (unat (lg_start s) + j) \<in> loga s" using loga_mem [of "Suc j" s] l by simp
  show "j < length L \<Longrightarrow> L ! j \<notin> loga s" "j < length L \<Longrightarrow> L ! j < unat (disksize s)" "j < length L \<Longrightarrow> L ! j \<noteq> 1"
    using h nth_mem [of j L] by (auto simp: home_def)
  show "n \<in> loga s \<Longrightarrow> n < unat (disksize s)" using assms by (auto simp: lrep_def loga_def)
qed

lemma lrep_copies:
  assumes "lrep s V L K"
  shows "copies s (\<lambda>j. L ! j) {0..<0 + length L}" and "unat (lg_start s) < unat (disksize s)" and "card (dblk s) = length L"
proof -
  note A = lrep_areas [OF assms]
  show "unat (lg_start s) < unat (disksize s)" using A(1,5) by blast
  show "card (dblk s) = length L" using assms by (simp add: lrep_def distinct_card)
  have "Suc (unat (lg_start s) + i) \<noteq> L ! j" if "i < length L" "j < length L" for i j using A(2) [OF that(1)] A(3) [OF that(2)] by auto
  then show "copies s (\<lambda>j. L ! j) {0..<0 + length L}" using assms A by (simp add: copies_def lrep_def)
qed

text \<open>The disk writes of a commit.\<close>

definition commit_writes :: "'a lst_scheme \<Rightarrow> (nat \<Rightarrow> u8 list) \<Rightarrow> nat list \<Rightarrow> u8 list \<Rightarrow> u8 list \<Rightarrow> (nat \<times> u8 list) list" where
  "commit_writes s V L h1 h2 =
     map (\<lambda>j. (Suc (unat (lg_start s) + j), V (L ! j))) [0..<length L] @ [(unat (lg_start s), h1)]
   @ map (\<lambda>j. (L ! j, V (L ! j))) [0..<length L] @ [(unat (lg_start s), h2)]"

lemma done_writes_append:
  "done_writes s V W s1 \<Longrightarrow> done_writes s1 (apply_writes W V) W' s' \<Longrightarrow> done_writes s V (W @ W') s'"
  by (auto simp: done_writes_def)

lemma done_after: "after_write s V n d s' = done_writes s V [(n, d)] s'"
  by (simp add: after_write_def done_writes_def)

lemma done_keeps:
  assumes "done_writes s V W s'"
  shows "brep s' (apply_writes W V) {}" "disksize s' = disksize s" "lg_start s' = lg_start s" "lg_size s' = lg_size s" "lg_dev s' = lg_dev s"
    "lh_n s' = lh_n s" "lh_block s' = lh_block s" "dblk s' = dblk s - fst ` set W" "bst.more s' = bst.more s"
  using assms lst_more [of s' s] by (simp_all add: done_writes_def)


lemma brep_cong:
  assumes "quiet s' = quiet s" "bufs s' = bufs s" "memdisk s' = memdisk s" "disksize s' = disksize s"
  shows "brep s' V K = brep s V K" and "dblk s' = dblk s" and "cached s' i n = cached s i n"
  by (simp_all add: assms brep_def dblk_def lru_def cached_def valid_def dirty_def busy_def)

lemma brep_lst [simp]:
  "brep (s\<lparr>lh_n := a\<rparr>) V K = brep s V K" "dblk (s\<lparr>lh_n := a\<rparr>) = dblk s"
  "brep (s\<lparr>lh_n := a, lh_block := b\<rparr>) V K = brep s V K" "dblk (s\<lparr>lh_n := a, lh_block := b\<rparr>) = dblk s"
  "brep (s\<lparr>lg_start := u, lg_size := z, lg_dev := d\<rparr>) V K = brep s V K" "dblk (s\<lparr>lg_start := u, lg_size := z, lg_dev := d\<rparr>) = dblk s"
  by (rule brep_cong; simp add: quiet_def)+

text \<open>First half: the blocks and the header reach the log.\<close>

lemma commit_logs:
  assumes "lrep s V L {}" and "length L + 2 \<le> NBUF"
  shows "\<exists>s1 s2 h. write_log s = Ret s1 \<and> write_head s1 = Ret s2 \<and> header h L
    \<and> done_writes s V (map (\<lambda>j. (Suc (unat (lg_start s) + j), V (L ! j))) [0..<length L] @ [(unat (lg_start s), h)]) s2"
proof -
  note C = lrep_copies [OF assms(1)]
  have l: "brep s V {}" "lg_dev s = 1" "lh_n s = int (length L)" "\<forall>k<length L. lh_block s k = of_nat (L ! k)" "length L \<le> LOGSIZE"
    using assms(1) by (simp_all add: lrep_def)
  let ?W = "map (\<lambda>j. (Suc (unat (lg_start s) + j), V (L ! j))) [0..<length L]"
  obtain s1 where s1: "write_log s = Ret s1" "done_writes s V ?W s1"
    using write_log_loop_ok [OF l(1) C(1)] C(3) assms(2) by (auto simp: write_log_def l(3))
  note D = done_keeps [OF s1(2)]
  have "card (dblk s1) \<le> length L" using C(3) card_mono [of "dblk s" "dblk s1"] dblk_card(1) [OF l(1)] D(8) by auto
  then obtain s2 h where "write_head s1 = Ret s2" "header h L" "done_writes s1 (apply_writes ?W V) [(unat (lg_start s), h)] s2"
    using write_head_ok [OF D(1), of L] D l C(2) assms(2) by (auto simp: done_after)
  then show ?thesis using s1 done_writes_append [OF s1(2)] by blast
qed

text \<open>Second half: the blocks reach their home locations.\<close>

lemma commit_installs:
  assumes "lrep s V L {}" and "length L + 2 \<le> NBUF"
    and d: "done_writes s V (map (\<lambda>j. (Suc (unat (lg_start s) + j), V (L ! j))) [0..<length L] @ [(unat (lg_start s), h)]) s2"
      (is "done_writes s V ?W s2")
  shows "\<exists>s3. install_trans s2 = Ret s3 \<and> done_writes s V (?W @ map (\<lambda>j. (L ! j, V (L ! j))) [0..<length L]) s3 \<and> dblk s3 = {}"
proof -
  note C = lrep_copies [OF assms(1)] and D = done_keeps [OF d]
  have l: "brep s V {}" "lh_n s = int (length L)" "dblk s = set L" using assms(1) by (simp_all add: lrep_def)
  let ?a = "unat (lg_start s)" and ?V2 = "apply_writes ?W V"
  have "copies s2 (\<lambda>j. L ! j) {0..<0 + length L}" using C(1) copies_more [OF D(9,2)] by simp
  moreover have "card (dblk s2) \<le> length L" using C(3) card_mono [of "dblk s" "dblk s2"] dblk_card(1) [OF l(1)] D(8) by auto
  ultimately obtain s3 where s3: "install_trans s2 = Ret s3" "done_writes s2 ?V2 (map (\<lambda>j. (L ! j, ?V2 (Suc (?a + j)))) [0..<length L]) s3"
    using install_loop_ok [OF D(1), of "\<lambda>j. L ! j" 0 "length L"] assms(2) D l(2) by (auto simp: install_trans_def)
  have "?V2 (Suc (?a + j)) = V (L ! j)" if "j \<in> set [0..<length L]" for j
    using apply_writes_map [of "\<lambda>j. Suc (?a + j)" "[0..<length L]" j "\<lambda>j. V (L ! j)" V] that by (auto simp: inj_on_def)
  then have W: "map (\<lambda>j. (L ! j, ?V2 (Suc (?a + j)))) [0..<length L] = map (\<lambda>j. (L ! j, V (L ! j))) [0..<length L]" by (intro map_cong) auto
  have s3': "done_writes s V (?W @ map (\<lambda>j. (L ! j, V (L ! j))) [0..<length L]) s3" by (rule done_writes_append [OF d s3(2) [unfolded W]])
  moreover have "set L \<subseteq> fst ` set (map (\<lambda>j. (L ! j, V (L ! j))) [0..<length L])" by (force simp: set_conv_nth)
  then have "dblk s3 = {}" using done_keeps(8) [OF s3'] l(3) by auto
  ultimately show ?thesis using s3(1) by blast
qed

lemma commit_ok:
  assumes "lrep s V L {}" and "L \<noteq> []" and "length L + 2 \<le> NBUF"
  shows "\<exists>s' h1 h2. commit s = Ret s' \<and> header h1 L \<and> header h2 [] \<and> bwrites s' = bwrites s @ commit_writes s V L h1 h2
    \<and> lrep s' (apply_writes (commit_writes s V L h1 h2) V) [] {} \<and> disksize s' = disksize s
    \<and> lst.more s' = lst.more s \<and> outstanding s' = outstanding s \<and> committing s' = committing s"
proof -
  note C = lrep_copies [OF assms(1)]
  let ?a = "unat (lg_start s)"
  obtain s1 s2 h1 where s2: "write_log s = Ret s1" "write_head s1 = Ret s2" "header h1 L"
    "done_writes s V (map (\<lambda>j. (Suc (?a + j), V (L ! j))) [0..<length L] @ [(?a, h1)]) s2"
    using commit_logs [OF assms(1,3)] by blast
  obtain s3 W where s3: "install_trans s2 = Ret s3" "done_writes s V W s3" "dblk s3 = {}"
    and W: "W = (map (\<lambda>j. (Suc (?a + j), V (L ! j))) [0..<length L] @ [(?a, h1)]) @ map (\<lambda>j. (L ! j, V (L ! j))) [0..<length L]"
    using commit_installs [OF assms(1,3) s2(4)] by blast
  note D = done_keeps [OF s3(2)]
  let ?t = "s3\<lparr>lh_n := 0\<rparr>"
  have l: "lg_dev s = 1" "lh_n s = int (length L)" using assms(1) by (simp_all add: lrep_def)
  obtain s4 h2 where s4: "write_head ?t = Ret s4" "header h2 []" "after_write ?t (apply_writes W V) ?a h2 s4"
    using write_head_ok [of ?t "apply_writes W V" "[]"] D(1-7) s3(3) l(1) C(2) assms(3) by auto
  have m: "bst.more s4 = bst.more ?t" using s4(3) by (simp add: after_write_def)
  note M = lst_more [OF m]
  have cw: "commit_writes s V L h1 h2 = W @ [(?a, h2)]" by (simp add: commit_writes_def W)
  have "commit s = Ret s4" using s2(1,2) s3(1) s4(1) l(2) assms(2) by (simp add: commit_def)
  moreover have "bwrites s4 = bwrites s @ commit_writes s V L h1 h2" "disksize s4 = disksize s"
    using s4(3) s3(2) by (simp_all add: cw after_write_def done_writes_def)
  moreover have "lrep s4 (apply_writes (commit_writes s V L h1 h2) V) [] {}"
    using s4(2,3) s3(3) assms(1) D(2-7) M by (auto simp: cw lrep_def after_write_def loga_def)
  moreover have "lst.more s4 = lst.more s" "outstanding s4 = outstanding s" "committing s4 = committing s"
    using M lst_more [OF D(9)] by simp_all
  ultimately show ?thesis using s2(3) s4(2) by blast
qed

section \<open>Recovery\<close>

text \<open>A log area described by the super block, with a header for \<open>L\<close>.\<close>

definition logdisk :: "nat \<Rightarrow> (nat \<Rightarrow> u8 list) \<Rightarrow> u32 \<Rightarrow> int \<Rightarrow> nat list \<Rightarrow> bool" where
  "logdisk N V st z L \<longleftrightarrow> get4 (V 1) 16 = st \<and> sint (get4 (V 1) 12) = z \<and> header (V (unat st)) L
     \<and> distinct L \<and> length L \<le> LOGSIZE \<and> int (length L) < z \<and> unat st + nat z \<le> N \<and> 1 < N \<and> 1 \<notin> {unat st..<unat st + nat z}
     \<and> (\<forall>n\<in>set L. n < N \<and> n \<notin> {unat st..<unat st + nat z} \<and> n \<noteq> 1)"

lemma readsb_ok:
  assumes "brep s V {}" and "card (dblk s) < NBUF" and "1 < unat (disksize s)"
  shows "\<exists>s'. readsb 1 s = Ret (sb_of (V 1), s') \<and> done_writes s V [] s'"
proof -
  obtain i s1 where b: "bread 1 1 s = Ret (i, s1)" "got_buf s V {} 1 i s1"
    using bread_blk [OF assms(1,3)] assms(2) by auto
  then have r: "brep s1 V {i}" "bdata (bufs s1 (Buf i)) = V 1" by (simp_all add: got_buf_def)
  obtain s2 where p: "brelse i s1 = Ret s2" "put_buf s1 V {i} i s2" using brelse_ok [OF r(1)] by auto
  have "done_writes s V [] s2"
    using b(2) p(2) dblk_keep(1) [OF b(2)] dblk_keep(2) [OF p(2)] by (simp add: done_writes_def got_buf_def put_buf_def)
  with b(1) p(1) r(2) show ?thesis by (simp add: readsb_def)
qed

lemma sint_small: "n < 2 ^ 31 \<Longrightarrow> sint (of_nat n :: u32) = int n"
  by (simp add: signed_of_nat signed_take_bit_int_eq_self)

lemma read_head_ok:
  assumes "brep s V {}" and "dblk s = {}" and "lg_dev s = 1" and "unat (lg_start s) < unat (disksize s)"
    and "header (V (unat (lg_start s))) L" and "length L \<le> LOGSIZE"
  shows "\<exists>s'. read_head s = Ret s' \<and> brep s' V {} \<and> dblk s' = {} \<and> memdisk s' = memdisk s \<and> disksize s' = disksize s \<and> bwrites s' = bwrites s
    \<and> lg_start s' = lg_start s \<and> lg_size s' = lg_size s \<and> lg_dev s' = 1 \<and> lh_n s' = int (length L) \<and> (\<forall>k<length L. lh_block s' k = of_nat (L ! k))
    \<and> lst.more s' = lst.more s \<and> outstanding s' = outstanding s \<and> committing s' = committing s"
proof -
  let ?b = "V (unat (lg_start s))"
  obtain i s1 where b: "bread 1 (of_nat (unat (lg_start s))) s = Ret (i, s1)" "got_buf s V {} (unat (lg_start s)) i s1"
    using bread_blk [OF assms(1,4)] assms(2) by (auto simp: NBUF_def MAXOPBLOCKS_def)
  then have r: "brep s1 V {i}" "bdata (bufs s1 (Buf i)) = ?b" "bst.more s1 = bst.more s" by (simp_all add: got_buf_def)
  note M = lst_more [OF r(3)]
  have n: "sint (get4 ?b 0) = int (length L)" using assms(5,6)
    by (simp add: header_def sint_small LOGSIZE_def MAXOPBLOCKS_def)
  let ?t = "s1\<lparr>lh_n := int (length L), lh_block := \<lambda>k. if int k < int (length L) then get4 ?b (4 + 4 * k) else lh_block s1 k\<rparr>"
  have t: "brep ?t V {i}" using r(1) by simp
  obtain s2 where p: "brelse i ?t = Ret s2" "put_buf ?t V {i} i s2" using brelse_ok [OF t] by auto
  then have m2: "bst.more s2 = bst.more ?t" by (simp add: put_buf_def)
  note M2 = lst_more [OF m2]
  have "read_head s = Ret s2" using b(1) r(2) n p(1) assms(3,6) by (simp add: read_head_def)
  moreover have "dblk s2 = {}" using dblk_keep(1) [OF b(2)] dblk_keep(2) [OF p(2)] assms(2) by simp
  moreover have "brep s2 V {}" "memdisk s2 = memdisk s" "disksize s2 = disksize s" "bwrites s2 = bwrites s"
    using p(2) b(2) by (simp_all add: put_buf_def got_buf_def)
  moreover have "\<forall>k<length L. lh_block s2 k = of_nat (L ! k)" using M2(7) assms(5) by (simp add: header_def)
  ultimately show ?thesis using M M2 assms(3) by simp
qed

lemma recover_ok:
  assumes "brep s V {}" and "dblk s = {}" and "lg_dev s = 1" and d: "logdisk (unat (disksize s)) V (lg_start s) (lg_size s) L"
  shows "\<exists>s' h. recover_from_log s = Ret s' \<and> lg_start s' = lg_start s \<and> lg_size s' = lg_size s \<and> disksize s' = disksize s \<and> header h []
    \<and> lst.more s' = lst.more s \<and> outstanding s' = outstanding s \<and> committing s' = committing s
    \<and> lrep s' (apply_writes (map (\<lambda>j. (L ! j, V (Suc (unat (lg_start s) + j)))) [0..<length L] @ [(unat (lg_start s), h)]) V) [] {}"
proof -
  let ?a = "unat (lg_start s)"
  have a: "?a < unat (disksize s)" "header (V ?a) L" "length L \<le> LOGSIZE" "int (length L) < lg_size s" using d by (auto simp: logdisk_def)
  from read_head_ok [OF assms(1-3) a(1,2,3)] obtain s1 where s1: "read_head s = Ret s1" "brep s1 V {}" "dblk s1 = {}" "disksize s1 = disksize s"
    "lg_start s1 = lg_start s" "lg_size s1 = lg_size s" "lg_dev s1 = 1" "lh_n s1 = int (length L)" "\<forall>k<length L. lh_block s1 k = of_nat (L ! k)"
    "lst.more s1 = lst.more s" "outstanding s1 = outstanding s" "committing s1 = committing s" by blast
  have "Suc (?a + i) \<noteq> L ! j" if "i < length L" "j < length L" for i j
  proof -
    have "L ! j \<notin> {?a..<?a + nat (lg_size s)}" using d nth_mem [OF that(2)] unfolding logdisk_def by blast
    moreover have "Suc (?a + i) \<in> {?a..<?a + nat (lg_size s)}" using that(1) a(4) by simp
    ultimately show ?thesis by auto
  qed
  then have "copies s1 (\<lambda>j. L ! j) {0..<0 + length L}" using d s1 by (auto simp: copies_def logdisk_def)
  then obtain s2 where s2: "install_trans s1 = Ret s2" "done_writes s1 V (map (\<lambda>j. (L ! j, V (Suc (?a + j)))) [0..<length L]) s2"
    using install_loop_ok [OF s1(2), of "\<lambda>j. L ! j" 0 "length L"] s1 by (auto simp: install_trans_def NBUF_def MAXOPBLOCKS_def)
  note D = done_keeps [OF s2(2)]
  let ?V = "apply_writes (map (\<lambda>j. (L ! j, V (Suc (?a + j)))) [0..<length L]) V" and ?t = "s2\<lparr>lh_n := 0\<rparr>"
  obtain s3 h where s3: "write_head ?t = Ret s3" "header h []" "after_write ?t ?V ?a h s3"
    using write_head_ok [of ?t ?V "[]"] D(1-8) s1 a(1) by (auto simp: NBUF_def MAXOPBLOCKS_def)
  have m3: "bst.more s3 = bst.more ?t" using s3(3) by (simp add: after_write_def)
  note M = lst_more [OF m3] and M2 = lst_more [OF D(9)]
  have "recover_from_log s = Ret s3" using s1(1) s2(1) s3(1) by (simp add: recover_from_log_def)
  moreover have "lrep s3 (apply_writes (map (\<lambda>j. (L ! j, V (Suc (?a + j)))) [0..<length L] @ [(?a, h)]) V) [] {}"
    using s3(2,3) D(2,8) M M2 s1 a(4) d by (auto simp: lrep_def after_write_def logdisk_def loga_def)
  ultimately show ?thesis using M M2 s1 s3(2,3) D(2) by (auto simp: after_write_def)
qed

lemma settled_clean: "settled s V \<Longrightarrow> brep s V {} \<and> dblk s = {}"
  by (auto simp: settled_def dblk_def cached_def)

text \<open>\<open>initlog\<close> after a reset: whatever a complete header on disk lists is copied home.\<close>

lemma initlog_ok:
  assumes "cold t" and "disksize t = N" and d: "logdisk (unat N) (memdisk t) st z L"
  shows "\<exists>r h. initlog 1 (binit t) = Ret r \<and> lg_start r = st \<and> lg_size r = z \<and> disksize r = N \<and> header h []
    \<and> outstanding r = outstanding t \<and> committing r = committing t \<and> lst.more r = lst.more t
    \<and> lrep r (apply_writes (map (\<lambda>j. (L ! j, memdisk t (Suc (unat st + j)))) [0..<length L] @ [(unat st, h)]) (memdisk t)) [] {}"
proof -
  let ?V = "memdisk t" and ?b = "binit t"
  let ?s = "?b\<lparr>lks := (lks ?b)(LkLog := initlock (lks ?b LkLog) ''log'')\<rparr>"
  have b: "brep ?b ?V {}" "dblk ?b = {}" "disksize ?b = N"
    using binit_settled [OF assms(1)] settled_clean [of ?b ?V] assms(2) by auto
  have q: "quiet ?s = quiet ?b" using brepD(1) [OF b(1)] by (auto simp: quiet_def initlock_def)
  have s: "brep ?s ?V {}" "dblk ?s = {}" "disksize ?s = N"
    using b brep_cong [of ?s ?b] q by simp_all
  have N: "1 < unat (disksize ?s)" using d s(3) by (simp add: logdisk_def)
  obtain s1 where s1: "readsb 1 ?s = Ret (sb_of (?V 1), s1)" "done_writes ?s ?V [] s1" using readsb_ok [OF s(1) _ N] s(2) N
    by (auto simp: NBUF_def MAXOPBLOCKS_def)
  note D = done_keeps [OF s1(2)]
  let ?t = "s1\<lparr>lg_start := st, lg_size := z, lg_dev := 1\<rparr>"
  have t: "brep ?t ?V {}" "dblk ?t = {}" "lg_dev ?t = 1" "logdisk (unat (disksize ?t)) ?V (lg_start ?t) (lg_size ?t) L"
    using D s d by simp_all
  have "sb_logstart (sb_of (?V 1)) = st" "sint (sb_nlog (sb_of (?V 1))) = z" using d by (simp_all add: sb_of_def logdisk_def)
  then have "initlog 1 ?b = recover_from_log ?t"
    using s1(1) by (simp add: initlog_def LOGSIZE_def MAXOPBLOCKS_def BSIZE_def Let_def)
  moreover have "outstanding ?t = outstanding t" "committing ?t = committing t" "lst.more ?t = lst.more t"
    using lst_more [OF binit_more, of t] lst_more [OF D(9)] by simp_all
  ultimately show ?thesis using recover_ok [OF t] D(2) s(3) by auto
qed

section \<open>Logging a block\<close>

lemma brep_marked:
  assumes "brep s V K" and "i \<in> K" and "cached s i n" and "length d = BSIZE" and "quiet t"
    and t: "bufs t = (bufs s)(Buf i := (bufs s (Buf i))\<lparr>bdata := d, bflags := bflags (bufs s (Buf i)) OR B_DIRTY\<rparr>)"
      "memdisk t = memdisk s" "disksize t = disksize s"
  shows "brep t (V(n := d)) K \<and> dblk t = insert n (dblk s)"
proof -
  note B = brepD [OF assms(1)]
  have f: "cached t j m = cached s j m" "valid t j = valid s j" "dirty t j \<longleftrightarrow> dirty s j \<or> j = i" "busy t j = busy s j"
    "bdata (bufs t (Buf j)) = (if j = i then d else bdata (bufs s (Buf j)))" "bdev (bufs t (Buf j)) = bdev (bufs s (Buf j))" for j m
    by (auto simp: cached_def flag_tests flag_upd t)
  obtain xs where "lru s xs" using B(2) by blast
  then have l: "lru t xs" using lru_cong [of t s xs] by (simp add: t)
  have "brep t (V(n := d)) K"
  proof (rule brepI [OF assms(5) l])
    fix m
    assume m: "m < unat (disksize t)" and c: "\<And>j. cached t j m \<Longrightarrow> \<not> dirty t j"
    have "m \<noteq> n" using c [of i] assms(3) by (auto simp: f)
    moreover have "\<not> dirty s j" if "cached s j m" for j using c [of j] that by (simp add: f)
    ultimately show "memdisk t m = (V(n := d)) m" using B(7) m by (simp add: t)
  next
    fix j m
    assume "cached t j m" "valid t j"
    then have j: "cached s j m" "valid s j" by (simp_all add: f)
    show "bdata (bufs t (Buf j)) = (V(n := d)) m"
    proof (cases "j = i")
      case True
      with j cached_fun [OF assms(3)] show ?thesis by (auto simp: f)
    next
      case False
      with j B(4) [OF assms(3)] have "m \<noteq> n" by blast
      with False B(5) [OF j] show ?thesis by (simp add: f)
    qed
  next
    fix m
    assume "m < unat (disksize t)"
    then show "length ((V(n := d)) m) = BSIZE" using B(11) assms(4) by (simp add: t)
  qed (use B(3,4,6,8-10) assms(2) in \<open>auto simp: f(1-4,6) t(3)\<close>)
  moreover have "cached s i m \<longleftrightarrow> m = n" for m using assms(3) by (auto simp: cached_def)
  then have "dblk t = insert n (dblk s)" by (auto simp: dblk_def f)
  ultimately show ?thesis by blast
qed

text \<open>The slot \<open>log_write\<close> finds: the block's own, or the next free one.\<close>

lemma log_slot:
  assumes "\<forall>k<length L. blk k = (of_nat (L ! k) :: u32)" and "\<forall>m\<in>set L. m < 2 ^ 32" and "n < 2 ^ 32" and "distinct L"
  shows "n \<notin> set L \<Longrightarrow> length (takeWhile (\<lambda>k. blk k \<noteq> of_nat n) [0..<length L]) = length L"
    and "k < length L \<Longrightarrow> L ! k = n \<Longrightarrow> length (takeWhile (\<lambda>k. blk k \<noteq> of_nat n) [0..<length L]) = k"
proof -
  have eq: "blk k = of_nat n \<longleftrightarrow> L ! k = n" if "k < length L" for k
    using that assms(1-3) by (auto simp: word_unat_eq_iff unat_of_nat)
  show "length (takeWhile (\<lambda>k. blk k \<noteq> of_nat n) [0..<length L]) = length L" if "n \<notin> set L"
  proof -
    have "takeWhile (\<lambda>k. blk k \<noteq> of_nat n) [0..<length L] = [0..<length L]"
      using that eq by (subst takeWhile_eq_all_conv) (metis atLeastLessThan_iff in_set_conv_nth set_upt)
    then show ?thesis by (simp only: length_upt diff_zero)
  qed
  assume k: "k < length L" "L ! k = n"
  then have "blk j \<noteq> of_nat n" if "j < k" for j using that eq [of j] assms(4) by (auto simp: nth_eq_iff_index_eq)
  then have "takeWhile (\<lambda>k. blk k \<noteq> of_nat n) [0..<length L] = [0..<k]"
    using k eq [of k] upt_add_eq_append [of 0 k "length L - k"] by (auto simp: takeWhile_append upt_conv_Cons)
  then show "length (takeWhile (\<lambda>k. blk k \<noteq> of_nat n) [0..<length L]) = k" by (simp only: length_upt diff_zero)
qed

text \<open>The same transaction, up to the blocks and the buffers.\<close>

definition same_trans :: "'a lst_scheme \<Rightarrow> 'a lst_scheme \<Rightarrow> bool" where
  "same_trans s s' \<longleftrightarrow> memdisk s' = memdisk s \<and> disksize s' = disksize s \<and> lg_start s' = lg_start s \<and> lg_size s' = lg_size s \<and> outstanding s' = outstanding s
     \<and> committing s' = committing s \<and> lst.more s' = lst.more s"

definition logged :: "nat \<Rightarrow> nat list \<Rightarrow> nat list" where
  "logged n L = (if n \<in> set L then L else L @ [n])"

lemma logged_simps [simp]: "set (logged n L) = insert n (set L)" "distinct L \<Longrightarrow> distinct (logged n L)" "length (logged n L) \<le> Suc (length L)"
  by (auto simp: logged_def)

lemma log_record_fields:
  "bufs (log_record b s) = (bufs s)(Buf b := (bufs s (Buf b))\<lparr>bflags := bflags (bufs s (Buf b)) OR B_DIRTY\<rparr>)"
  "memdisk (log_record b s) = memdisk s" "disksize (log_record b s) = disksize s" "bwrites (log_record b s) = bwrites s"
  "inside l (log_record b s) = inside l s" "lg_start (log_record b s) = lg_start s" "lg_size (log_record b s) = lg_size s"
  "outstanding (log_record b s) = outstanding s" "committing (log_record b s) = committing s" "lst.more (log_record b s) = lst.more s"
  "lg_dev (log_record b s) = lg_dev s"
  by (simp_all add: log_record_def Let_def inside_def updb_def)

lemma log_record_list:
  assumes "lh_n s = int (length L)" and b: "\<forall>k<length L. lh_block s k = of_nat (L ! k)" and "blockno (bufs s (Buf i)) = of_nat n"
    and "\<forall>m\<in>set L. m < 2 ^ 32" and "n < 2 ^ 32" and "distinct L"
  shows "lh_n (log_record i s) = int (length (logged n L))"
    and "\<forall>k<length (logged n L). lh_block (log_record i s) k = of_nat (logged n L ! k)"
proof -
  let ?k = "length (takeWhile (\<lambda>k. lh_block s k \<noteq> of_nat n) [0..<length L])"
  have k: "n \<notin> set L \<Longrightarrow> ?k = length L" "n \<in> set L \<Longrightarrow> ?k < length L \<and> L ! ?k = n"
    using log_slot [OF b assms(4-6)] by (auto simp: in_set_conv_nth)
  have n: "lh_n (log_record i s) = (if ?k = length L then int (length L) + 1 else int (length L))"
    and blk: "lh_block (log_record i s) = (lh_block s)(?k := of_nat n)"
    using assms(1,3) by (simp_all add: log_record_def Let_def updb_def)
  show "lh_n (log_record i s) = int (length (logged n L))" using k by (auto simp: n logged_def)
  show "\<forall>k<length (logged n L). lh_block (log_record i s) k = of_nat (logged n L ! k)"
    using k b by (auto simp: blk logged_def nth_append less_Suc_eq)
qed

lemma cs_log [simp]:
  "lh_n (ent l s) = lh_n s" "lh_block (ent l s) = lh_block s" "lg_start (ent l s) = lg_start s" "lg_size (ent l s) = lg_size s"
  "outstanding (ent l s) = outstanding s" "committing (ent l s) = committing s" "lst.more (ent l s) = lst.more s" "lg_dev (ent l s) = lg_dev s"
  "lh_n (lv l s) = lh_n s" "lh_block (lv l s) = lh_block s" "lg_start (lv l s) = lg_start s" "lg_size (lv l s) = lg_size s"
  "outstanding (lv l s) = outstanding s" "committing (lv l s) = committing s" "lst.more (lv l s) = lst.more s" "lg_dev (lv l s) = lg_dev s"
  by (simp_all add: ent_def lv_def)

lemma set_bdata_log [simp]:
  "lh_n (set_bdata i d s) = lh_n s" "lh_block (set_bdata i d s) = lh_block s" "lg_start (set_bdata i d s) = lg_start s" "lg_size (set_bdata i d s) = lg_size s"
  "outstanding (set_bdata i d s) = outstanding s" "committing (set_bdata i d s) = committing s" "lst.more (set_bdata i d s) = lst.more s" "lg_dev (set_bdata i d s) = lg_dev s"
  "quiet (set_bdata i d s) = quiet s" "memdisk (set_bdata i d s) = memdisk s" "disksize (set_bdata i d s) = disksize s" "bwrites (set_bdata i d s) = bwrites s"
  "bufs (set_bdata i d s) = (bufs s)(Buf i := (bufs s (Buf i))\<lparr>bdata := d\<rparr>)"
  by (simp_all add: set_bdata_def) (simp_all add: updb_def)

lemma log_write_ok:
  assumes l: "lrep s V L K" and i: "i \<in> K" "cached s i n" and n: "home s n" and d: "length d = BSIZE"
    and r: "length L < LOGSIZE" "int (length L) < lg_size s - 1" "1 \<le> outstanding s"
  shows "\<exists>s'. log_write i (set_bdata i d s) = Ret s' \<and> lrep s' (V(n := d)) (logged n L) K \<and> same_trans s s'
    \<and> memdisk s' = memdisk s \<and> bwrites s' = bwrites s \<and> (\<forall>j m. cached s' j m = cached s j m)
    \<and> bdata (bufs s' (Buf i)) = d \<and> (\<forall>j. j \<noteq> i \<longrightarrow> bufs s' (Buf j) = bufs s (Buf j))"
proof -
  have b: "brep s V K" "lh_n s = int (length L)" "\<forall>k<length L. lh_block s k = of_nat (L ! k)" "distinct L" "\<forall>m\<in>set L. home s m"
    using l by (simp_all add: lrep_def)
  have q: "quiet s" by (rule brepD(1) [OF b(1)])
  have small: "m < 2 ^ 32" if "home s m" for m using that unat_u32 [of "disksize s"] by (simp add: home_def)
  let ?u = "ent LkLog (set_bdata i d s)"
  let ?t = "lv LkLog (log_record i ?u)"
  have "log_write i (set_bdata i d s) = Ret ?t"
    using q b(2) r by (simp add: log_write_def cs_simps log_record_fields)
  moreover have "quiet ?t" using q by (simp add: cs_simps log_record_fields)
  then have rep: "brep ?t (V(n := d)) K \<and> dblk ?t = insert n (dblk s)"
    by (intro brep_marked [OF b(1) i d]) (simp_all add: log_record_fields)
  moreover have h: "home ?t m = home s m" "loga ?t = loga s" for m by (simp_all add: home_def loga_def log_record_fields)
  have "blockno (bufs ?u (Buf i)) = of_nat n" using i(2) by (auto simp: cached_def)
  note R = log_record_list [of ?u L i n, OF _ _ this]
  have "lrep ?t (V(n := d)) (logged n L) K"
    using l rep r n R b small lrep_areas(1) [OF l]
    by (auto simp: lrep_def h log_record_fields logged_def home_def [of s n])
  moreover have "cached ?t j m = cached s j m" for j m by (simp add: cached_def log_record_fields)
  ultimately show ?thesis by (intro exI [of _ ?t]) (simp add: same_trans_def log_record_fields)
qed

lemma lrep_disk: "lrep s V L K \<Longrightarrow> n < unat (disksize s) \<Longrightarrow> n \<notin> set L \<Longrightarrow> memdisk s n = V n"
  using brepD(7) [of s V K n] by (auto simp: lrep_def dblk_def)

section \<open>The buffer cache inside a transaction\<close>

lemma lrep_got: "lrep s V L K \<Longrightarrow> got_buf s V K n i s' \<Longrightarrow> lrep s' V L (insert i K) \<and> same_trans s s'"
  using lst_more [of s' s] dblk_keep(1) [of s V K n i s'] by (auto simp: got_buf_def lrep_def home_def loga_def same_trans_def)

lemma lrep_put: "lrep s V L K \<Longrightarrow> put_buf s V K i s' \<Longrightarrow> lrep s' V L (K - {i}) \<and> same_trans s s'"
  using lst_more [of s' s] dblk_keep(2) [of s V K i s'] by (auto simp: put_buf_def lrep_def home_def loga_def same_trans_def)

lemma same_trans_trans: "same_trans s s' \<Longrightarrow> same_trans s' s'' \<Longrightarrow> same_trans s s''"
  by (simp add: same_trans_def)

lemma home_same: "same_trans s s' \<Longrightarrow> home s' n = home s n" "same_trans s s' \<Longrightarrow> loga s' = loga s"
  by (simp_all add: same_trans_def home_def loga_def)

lemma bread_lrep:
  assumes "lrep s V L K" and "n < unat (disksize s)" and "\<forall>i\<in>K. \<not> cached s i n" and "length L + card K < NBUF"
  shows "\<exists>i s'. bread 1 (of_nat n) s = Ret (i, s') \<and> lrep s' V L (insert i K) \<and> same_trans s s' \<and> i \<notin> K \<and> cached s' i n
     \<and> bdata (bufs s' (Buf i)) = V n \<and> (\<forall>j\<in>K. bufs s' (Buf j) = bufs s (Buf j))"
proof -
  have b: "brep s V K" "card (dblk s) = length L" using assms(1) by (auto simp: lrep_def distinct_card)
  obtain i s' where r: "bread 1 (of_nat n) s = Ret (i, s')" and g: "got_buf s V K n i s'"
    using bread_blk [OF b(1) assms(2,3)] assms(4) b(2) by auto
  then have "i \<notin> K" "cached s' i n" "bdata (bufs s' (Buf i)) = V n" "\<forall>j\<in>K. bufs s' (Buf j) = bufs s (Buf j)"
    by (auto simp: got_buf_def)
  with r lrep_got [OF assms(1) g] show ?thesis by blast
qed

lemma brelse_lrep:
  assumes "lrep s V L K" and "i \<in> K"
  shows "\<exists>s'. brelse i s = Ret s' \<and> lrep s' V L (K - {i}) \<and> same_trans s s' \<and> (\<forall>j n. cached s' j n = cached s j n)
     \<and> (\<forall>j. bdata (bufs s' (Buf j)) = bdata (bufs s (Buf j)))"
proof -
  obtain s' where r: "brelse i s = Ret s'" and p: "put_buf s V K i s'"
    using brelse_ok [of s V K i] assms by (auto simp: lrep_def)
  then have "\<forall>j n. cached s' j n = cached s j n" "\<forall>j. bdata (bufs s' (Buf j)) = bdata (bufs s (Buf j))" by (auto simp: put_buf_def)
  with r lrep_put [OF assms(1) p] show ?thesis by blast
qed

lemma lrep_cong:
  assumes "quiet s' = quiet s" "bufs s' = bufs s" "memdisk s' = memdisk s" "disksize s' = disksize s" "lg_start s' = lg_start s"
    "lg_size s' = lg_size s" "lg_dev s' = lg_dev s" "lh_n s' = lh_n s" "lh_block s' = lh_block s"
  shows "lrep s' V L K = lrep s V L K"
  using assms brep_cong [OF assms(1-4)] by (simp add: lrep_def home_def loga_def)

lemma lrep_count [simp]: "lrep (s\<lparr>outstanding := x\<rparr>) V L K = lrep s V L K" "lrep (s\<lparr>committing := y\<rparr>) V L K = lrep s V L K"
  by (rule lrep_cong; simp add: quiet_def)+

lemma begin_op_ok:
  assumes "lrep s V L K" and "\<not> committing s" and "int (length L) + (outstanding s + 1) * int MAXOPBLOCKS \<le> int LOGSIZE"
  shows "\<exists>s'. begin_op s = Ret s' \<and> lrep s' V L K \<and> outstanding s' = outstanding s + 1 \<and> \<not> committing s' \<and> disksize s' = disksize s
    \<and> lg_start s' = lg_start s \<and> lg_size s' = lg_size s \<and> lst.more s' = lst.more s \<and> memdisk s' = memdisk s"
proof -
  have q: "quiet s" using assms(1) brepD(1) by (auto simp: lrep_def)
  let ?t = "lv LkLog ((ent LkLog s)\<lparr>outstanding := outstanding s + 1\<rparr>)"
  have i: "inside LkLog ((ent LkLog s)\<lparr>outstanding := outstanding s + 1\<rparr>)" using inside_ent [OF q, of LkLog] by (simp add: inside_def)
  have "begin_op s = Ret ?t" using assms i q by (simp add: begin_op_def acq_quiet rel_inside lrep_def)
  moreover have "lrep ?t V L K" using assms(1) lrep_cong [of ?t s V L K] quiet_lv [OF i] q by simp
  ultimately show ?thesis using assms(2) by simp
qed

text \<open>Reading, changing, logging and releasing one block.\<close>

lemma put_block:
  assumes l: "lrep s V L K" and n: "home s n" "\<forall>i\<in>K. \<not> cached s i n" and d: "length d = BSIZE"
    and r: "length L + card K < NBUF" "length L < LOGSIZE" "int (length L) < lg_size s - 1" "1 \<le> outstanding s"
  shows "\<exists>i s1 s2 s3. bread 1 (of_nat n) s = Ret (i, s1) \<and> bdata (bufs s1 (Buf i)) = V n \<and> log_write i (set_bdata i d s1) = Ret s2
    \<and> brelse i s2 = Ret s3 \<and> lrep s3 (V(n := d)) (logged n L) K \<and> same_trans s s3
    \<and> (\<forall>j\<in>K. (\<forall>m. cached s3 j m = cached s j m) \<and> bdata (bufs s3 (Buf j)) = bdata (bufs s (Buf j)))"
proof -
  have N: "n < unat (disksize s)" using n(1) by (simp add: home_def)
  obtain i s1 where b: "bread 1 (of_nat n) s = Ret (i, s1)" "lrep s1 V L (insert i K)" "same_trans s s1" "i \<notin> K" "cached s1 i n"
    "bdata (bufs s1 (Buf i)) = V n" "\<forall>j\<in>K. bufs s1 (Buf j) = bufs s (Buf j)" using bread_lrep [OF l N n(2) r(1)] by blast
  have h: "home s1 n" "int (length L) < lg_size s1 - 1" "1 \<le> outstanding s1" using b(3) n(1) r(3,4) home_same [OF b(3)] by (simp_all add: same_trans_def)
  obtain s2 where w: "log_write i (set_bdata i d s1) = Ret s2" "lrep s2 (V(n := d)) (logged n L) (insert i K)" "same_trans s1 s2"
    "\<forall>j m. cached s2 j m = cached s1 j m" "\<forall>j. j \<noteq> i \<longrightarrow> bufs s2 (Buf j) = bufs s1 (Buf j)"
    using log_write_ok [OF b(2) _ b(5) h(1) d r(2) h(2,3)] by blast
  obtain s3 where p: "brelse i s2 = Ret s3" "lrep s3 (V(n := d)) (logged n L) (insert i K - {i})" "same_trans s2 s3"
    "\<forall>j n. cached s3 j n = cached s2 j n" "\<forall>j. bdata (bufs s3 (Buf j)) = bdata (bufs s2 (Buf j))"
    using brelse_lrep [OF w(2)] by blast
  have "insert i K - {i} = K" using b(4) by blast
  moreover have "same_trans s s3" using b(3) w(3) p(3) same_trans_trans by blast
  moreover have "\<forall>j\<in>K. (\<forall>m. cached s3 j m = cached s j m) \<and> bdata (bufs s3 (Buf j)) = bdata (bufs s (Buf j))"
    using b(4,7) w(4,5) p(4,5) by (auto simp: cached_def)
  ultimately show ?thesis using b(1,6) w(1) p(1,2) by auto
qed

lemma get_block:
  assumes l: "lrep s V L K" and n: "n < unat (disksize s)" "\<forall>i\<in>K. \<not> cached s i n" and r: "length L + card K < NBUF"
  shows "\<exists>i s1 s2. bread 1 (of_nat n) s = Ret (i, s1) \<and> bdata (bufs s1 (Buf i)) = V n \<and> brelse i s1 = Ret s2 \<and> lrep s2 V L K \<and> same_trans s s2
    \<and> (\<forall>j\<in>K. (\<forall>m. cached s2 j m = cached s j m) \<and> bdata (bufs s2 (Buf j)) = bdata (bufs s (Buf j)))"
proof -
  obtain i s1 where b: "bread 1 (of_nat n) s = Ret (i, s1)" "lrep s1 V L (insert i K)" "same_trans s s1" "i \<notin> K"
    "bdata (bufs s1 (Buf i)) = V n" "\<forall>j\<in>K. bufs s1 (Buf j) = bufs s (Buf j)" using bread_lrep [OF l n r] by blast
  obtain s2 where p: "brelse i s1 = Ret s2" "lrep s2 V L (insert i K - {i})" "same_trans s1 s2"
    "\<forall>j n. cached s2 j n = cached s1 j n" "\<forall>j. bdata (bufs s2 (Buf j)) = bdata (bufs s1 (Buf j))"
    using brelse_lrep [OF b(2)] by blast
  have "insert i K - {i} = K" using b(4) by blast
  moreover have "\<forall>j\<in>K. (\<forall>m. cached s2 j m = cached s j m) \<and> bdata (bufs s2 (Buf j)) = bdata (bufs s (Buf j))"
    using b(6) p(4,5) by (auto simp: cached_def)
  ultimately show ?thesis using b(1,3,5) p(1,2,3) same_trans_trans [of s s1 s2] by auto
qed

end
