(* ===== verification/Crash.thy ===== *)
theory Crash
  imports Log
begin

text \<open>
  Crash safety of the log: whatever prefix of the disk writes of \<open>commit\<close> reaches the disk, recovery
  leaves the file system with all of a transaction or with none of it.
\<close>

section \<open>Crashes\<close>

text \<open>The super block in the cache describes the log.\<close>

definition sb_ok :: "'a lst_scheme \<Rightarrow> (nat \<Rightarrow> u8 list) \<Rightarrow> bool" where
  "sb_ok s V \<longleftrightarrow> get4 (V 1) 16 = lg_start s \<and> sint (get4 (V 1) 12) = lg_size s \<and> 1 < unat (disksize s)"

lemma crash_disk:
  assumes "lrep s V L {}" and "sb_ok s V" and "header (D (unat (lg_start s))) L'" and "L' = [] \<or> L' = L" and "D 1 = V 1"
  shows "logdisk (unat (disksize s)) D (lg_start s) (lg_size s) L'"
  using assms unfolding logdisk_def lrep_def sb_ok_def home_def loga_def by fastforce

text \<open>What recovery makes of a disk with header \<open>L'\<close>.\<close>

lemma recovered:
  assumes l: "lrep s V L {}" and b: "sb_ok s V" and t: "cold t" "disksize t = disksize s"
    and h: "header (memdisk t (unat (lg_start s))) L'" "L' = [] \<or> L' = L" "memdisk t 1 = V 1"
  shows "\<exists>r. initlog 1 (binit t) = Ret r \<and> (\<forall>n. home s n \<longrightarrow>
     memdisk r n = apply_writes (map (\<lambda>j. (L' ! j, memdisk t (Suc (unat (lg_start s) + j)))) [0..<length L']) (memdisk t) n)"
proof -
  obtain r g where r: "initlog 1 (binit t) = Ret r" "disksize r = disksize s"
    "lrep r (apply_writes (map (\<lambda>j. (L' ! j, memdisk t (Suc (unat (lg_start s) + j)))) [0..<length L'] @ [(unat (lg_start s), g)]) (memdisk t)) [] {}"
    using initlog_ok [OF t crash_disk [OF l b h]] by blast
  have "unat (lg_start s) \<in> loga s" by (rule lrep_areas(1) [OF l])
  with r lrep_disk [OF r(3)] show ?thesis by (auto simp: home_def)
qed

lemma prefix_cases:
  assumes "X @ Y = P @ x # Q @ [y]"
  shows "(\<exists>k. X = take k P) \<or> (\<exists>k. X = P @ x # take k Q) \<or> X = P @ x # Q @ [y]"
proof -
  have pre: "\<exists>k. A = take k C" if "A @ B = C" for A B C :: "'a list"
    using that by (intro exI [of _ "length A"]) auto
  from assms consider us where "X @ us = P" | us where "X = P @ us" "us @ Y = x # Q @ [y]"
    by (auto simp: append_eq_append_conv2)
  then show ?thesis
  proof cases
    case 1
    then show ?thesis using pre by blast
  next
    case (2 us)
    show ?thesis
    proof (cases us)
      case Nil
      with 2 show ?thesis using pre [of X "[]" P] by auto
    next
      case (Cons u vs)
      with 2 have "u = x" "vs @ Y = Q @ [y]" by auto
      then have "(\<exists>ws. vs @ ws = Q) \<or> vs = Q @ [y]" by (auto simp: append_eq_append_conv2 append_eq_Cons_conv)
      with 2 Cons \<open>u = x\<close> show ?thesis using pre by blast
    qed
  qed
qed

lemma crash_old:
  assumes l: "lrep s V L {}" and b: "sb_ok s V" and t: "cold t" "disksize t = disksize s"
    and m: "memdisk t = apply_writes (take k (map (\<lambda>j. (Suc (unat (lg_start s) + j), V (L ! j))) [0..<length L])) (memdisk s)"
  shows "\<exists>r. initlog 1 (binit t) = Ret r \<and> (\<forall>n. home s n \<longrightarrow> memdisk r n = memdisk s n)"
proof -
  note A = lrep_areas [OF l]
  have "fst ` set (take k (map (\<lambda>j. (Suc (unat (lg_start s) + j), V (L ! j))) [0..<length L])) \<subseteq> {Suc (unat (lg_start s) + j) |j. j < length L}"
    using set_take_subset [of k "map (\<lambda>j. (Suc (unat (lg_start s) + j), V (L ! j))) [0..<length L]"] by fastforce
  then have o: "memdisk t n = memdisk s n" if "n \<notin> {Suc (unat (lg_start s) + j) |j. j < length L}" for n
    using that unfolding m by (intro apply_writes_other) blast
  have n: "n \<notin> {Suc (unat (lg_start s) + j) |j. j < length L}" if "n \<notin> loga s" for n using that A(2) by auto
  have s: "1 \<notin> loga s" "header (V (unat (lg_start s))) []" using l by (simp_all add: lrep_def)
  have "memdisk s (unat (lg_start s)) = V (unat (lg_start s))" using lrep_disk [OF l] A(1,3,5) by (metis in_set_conv_nth)
  then have "header (memdisk t (unat (lg_start s))) []" using s(2) o [of "unat (lg_start s)"] by simp
  moreover have "memdisk t 1 = V 1"
    using o [OF n [OF s(1)]] lrep_disk [OF l, of 1] b A(6) by (auto simp: sb_ok_def in_set_conv_nth)
  ultimately obtain r where "initlog 1 (binit t) = Ret r" "\<forall>n. home s n \<longrightarrow> memdisk r n = memdisk t n"
    using recovered [OF l b t, of "[]"] by auto
  moreover have "memdisk t n = memdisk s n" if "home s n" for n using o [OF n] that by (simp add: home_def)
  ultimately show ?thesis by auto
qed

text \<open>Once the header is written, the new contents come out, however much was installed.\<close>

lemma crash_new:
  assumes l: "lrep s V L {}" and b: "sb_ok s V" and t: "cold t" "disksize t = disksize s"
    and h: "header (memdisk t (unat (lg_start s))) L'" "L' = [] \<and> (\<forall>j<length L. memdisk t (L ! j) = V (L ! j)) \<or>
      L' = L \<and> (\<forall>j<length L. memdisk t (Suc (unat (lg_start s) + j)) = V (L ! j))"
    and o: "\<And>n. n \<notin> loga s \<Longrightarrow> n \<notin> set L \<Longrightarrow> memdisk t n = memdisk s n"
  shows "\<exists>r. initlog 1 (binit t) = Ret r \<and> (\<forall>n. home s n \<longrightarrow> memdisk r n = V n)"
proof -
  note A = lrep_areas [OF l]
  have "1 \<notin> loga s" "1 \<notin> set L" "distinct L" using l A(6) by (auto simp: lrep_def in_set_conv_nth)
  then have "memdisk t 1 = V 1" using o [of 1] lrep_disk [OF l, of 1] b by (simp add: sb_ok_def)
  then obtain r where r: "initlog 1 (binit t) = Ret r" "\<forall>n. home s n \<longrightarrow>
     memdisk r n = apply_writes (map (\<lambda>j. (L' ! j, memdisk t (Suc (unat (lg_start s) + j)))) [0..<length L']) (memdisk t) n"
    using recovered [OF l b t h(1)] h(2) by blast
  have "apply_writes (map (\<lambda>j. (L' ! j, memdisk t (Suc (unat (lg_start s) + j)))) [0..<length L']) (memdisk t) n = V n" if n: "home s n" for n
  proof (cases "n \<in> set L")
    case False
    then have "n \<notin> fst ` set (map (\<lambda>j. (L' ! j, memdisk t (Suc (unat (lg_start s) + j)))) [0..<length L'])"
      using h(2) by (auto simp: in_set_conv_nth)
    with False n show ?thesis using o [of n] lrep_disk [OF l, of n] by (simp add: apply_writes_other home_def)
  next
    case True
    then obtain j where j: "j < length L" "n = L ! j" by (auto simp: in_set_conv_nth)
    have "inj_on (\<lambda>j. L ! j) (set [0..<length L])" using \<open>distinct L\<close> by (simp add: inj_on_def nth_eq_iff_index_eq)
    with j h(2) apply_writes_map [of "\<lambda>j. L ! j" "[0..<length L]" j "\<lambda>j. memdisk t (Suc (unat (lg_start s) + j))"]
    show ?thesis by auto
  qed
  with r show ?thesis by auto
qed

lemma crash_any:
  assumes l: "lrep s V L {}" and b: "sb_ok s V" and h: "header h1 L" "header h2 []"
    and t: "cold t" "disksize t = disksize s" "memdisk t = apply_writes X (memdisk s)" and X: "X @ Y = commit_writes s V L h1 h2"
  shows "\<exists>r. initlog 1 (binit t) = Ret r \<and> (\<forall>n. home s n \<longrightarrow> memdisk r n = (if length X \<le> length L then memdisk s n else V n))"
proof -
  note A = lrep_areas [OF l]
  let ?a = "unat (lg_start s)"
  define P where "P = map (\<lambda>j. (Suc (?a + j), V (L ! j))) [0..<length L]"
  define Q where "Q = map (\<lambda>j. (L ! j, V (L ! j))) [0..<length L]"
  have P: "fst ` set P \<subseteq> loga s - {?a}" and Q: "fst ` set Q = set L" using A(2) by (force simp: P_def Q_def set_conv_nth)+
  have LA: "n \<notin> loga s" if "n \<in> set L" for n using that l by (simp add: lrep_def home_def)
  have a: "?a \<notin> set L" "?a \<in> loga s" using A(1) LA by auto
  have o: "apply_writes (P @ (?a, h1) # Q') D n = D n" if "n \<notin> loga s" "n \<notin> set L" "fst ` set Q' \<subseteq> insert ?a (set L)" for n Q' D
    using that P a by (intro apply_writes_other) auto
  have PA: "apply_writes P D (Suc (?a + j)) = V (L ! j)" if "j < length L" for j D
    using apply_writes_map [of "\<lambda>j. Suc (?a + j)" "[0..<length L]" j "\<lambda>j. V (L ! j)" D] that by (simp add: P_def inj_on_def)
  have QA: "apply_writes Q D (L ! j) = V (L ! j)" if "j < length L" for j D
    using apply_writes_map [of "\<lambda>j. L ! j" "[0..<length L]" j "\<lambda>j. V (L ! j)" D] that l
    by (simp add: Q_def inj_on_def nth_eq_iff_index_eq lrep_def)
  from X consider k where "X = take k P" | k where "X = P @ (?a, h1) # take k Q" | "X = P @ (?a, h1) # Q @ [(?a, h2)]"
    using prefix_cases [of X Y P "(?a, h1)" Q "(?a, h2)"] by (auto simp: commit_writes_def P_def Q_def)
  then show ?thesis
  proof cases
    case 1
    then have "length X \<le> length L" by (simp add: P_def)
    then show ?thesis using crash_old [OF l b t(1,2), of k] t(3) 1 by (simp add: P_def)
  next
    case (2 k)
    have Qk: "fst ` set (take k Q) \<subseteq> set L" using set_take_subset [of k Q] Q by auto
    then have "?a \<notin> fst ` set (take k Q)" using a by blast
    then have "header (memdisk t ?a) L" using h(1) by (simp add: t(3) 2 apply_writes_other)
    moreover have "memdisk t n = memdisk s n" if "n \<notin> loga s" "n \<notin> set L" for n
      using o [OF that, of "take k Q"] Qk unfolding t(3) 2 by blast
    moreover have "memdisk t (Suc (?a + j)) = V (L ! j)" if j: "j < length L" for j
    proof -
      have "Suc (?a + j) \<notin> fst ` set (take k Q)" "Suc (?a + j) \<noteq> ?a" using A(2) [OF j] LA Qk by auto
      then show ?thesis using PA [OF j] by (simp add: t(3) 2 apply_writes_other)
    qed
    moreover have "\<not> length X \<le> length L" by (simp add: 2 P_def)
    ultimately show ?thesis using crash_new [OF l b t(1,2), of L] by auto
  next
    case 3
    have "memdisk t (L ! j) = V (L ! j)" if j: "j < length L" for j using QA [OF j] A(1) A(3) [OF j] by (auto simp: t(3) 3)
    moreover have "memdisk t ?a = h2" by (simp add: t(3) 3)
    moreover have "\<not> length X \<le> length L" by (simp add: 3 P_def)
    ultimately show ?thesis using crash_new [OF l b t(1,2), of "[]"] h(2) o [of _ "Q @ [(?a, h2)]"] Q by (auto simp: t(3) 3)
  qed
qed

section \<open>A small disk\<close>

text \<open>The super block \<open>mkfs\<close> writes, all other blocks zero; and the machine at power-on with a disk.\<close>

definition sb0 :: "u8 list" where
  "sb0 = le4 2000 @ le4 1941 @ le4 200 @ le4 30 @ le4 2 @ le4 32 @ le4 58 @ replicate 484 0"

definition disk0 :: "nat \<Rightarrow> u8 list" where
  "disk0 n = (if n = 1 then sb0 else replicate BSIZE 0)"

definition power_on :: "(nat \<Rightarrow> u8 list) \<Rightarrow> lst" where
  "power_on D = \<lparr>lks = \<lambda>_. \<lparr>locked = 0, lk_name = [], lk_cpu = None\<rparr>, tcpu = \<lparr>ncli = 0, intena = False, if_flag = True, cpu_proc = Some 0\<rparr>,
     tme = 0, twoken = [], bufs = \<lambda>_. \<lparr>bflags = 0, bdev = 0, blockno = 0, bprev = BHead, bnext = BHead, bdata = replicate BSIZE 0\<rparr>,
     memdisk = D, disksize = 2000, bwrites = [], lg_start = 0, lg_size = 0, outstanding = 0, committing = False, lg_dev = 0, lh_n = 0, lh_block = \<lambda>_. 0\<rparr>"

lemma power_on_cold: "(\<And>n. n < 2000 \<Longrightarrow> length (D n) = BSIZE) \<Longrightarrow> cold (power_on D) \<and> disksize (power_on D) = 2000 \<and> memdisk (power_on D) = D"
  by (simp add: cold_def power_on_def cpu_ok_def)

lemma sb0_fields: "get4 sb0 12 = 30" "get4 sb0 16 = 2" "get4 sb0 0 = 2000" "get4 sb0 8 = 200" "get4 sb0 20 = 32" "get4 sb0 24 = 58" "length sb0 = BSIZE"
proof -
  note S = get4_shift [of "le4 2000" _ 8] get4_shift
  show "get4 sb0 0 = 2000" unfolding sb0_def by (rule get4_le4)
  show "length sb0 = BSIZE" by (simp add: sb0_def BSIZE_def)
  show "get4 sb0 8 = 200"
    using get4_shift [of "le4 2000 @ le4 1941" "le4 200 @ le4 30 @ le4 2 @ le4 32 @ le4 58 @ replicate 484 0" 0] by (simp add: sb0_def get4_le4)
  show "get4 sb0 12 = 30"
    using get4_shift [of "le4 2000 @ le4 1941 @ le4 200" "le4 30 @ le4 2 @ le4 32 @ le4 58 @ replicate 484 0" 0] by (simp add: sb0_def get4_le4)
  show "get4 sb0 16 = 2"
    using get4_shift [of "le4 2000 @ le4 1941 @ le4 200 @ le4 30" "le4 2 @ le4 32 @ le4 58 @ replicate 484 0" 0] by (simp add: sb0_def get4_le4)
  show "get4 sb0 20 = 32"
    using get4_shift [of "le4 2000 @ le4 1941 @ le4 200 @ le4 30 @ le4 2" "le4 32 @ le4 58 @ replicate 484 0" 0] by (simp add: sb0_def get4_le4)
  show "get4 sb0 24 = 58"
    using get4_shift [of "le4 2000 @ le4 1941 @ le4 200 @ le4 30 @ le4 2 @ le4 32" "le4 58 @ replicate 484 0" 0] by (simp add: sb0_def get4_le4)
qed

text \<open>A transaction on that disk that has changed block 100.\<close>

lemma demo_boot:
  obtains r :: lst and h where "lrep r (disk0(2 := h)) [] {}" and "lg_start r = 2" and "lg_size r = 30" and "disksize r = 2000"
    and "outstanding r = 0" and "\<not> committing r"
proof -
  have c: "cold (power_on disk0)" "disksize (power_on disk0) = 2000" "memdisk (power_on disk0) = disk0"
    using power_on_cold [of disk0] sb0_fields(7) by (auto simp: disk0_def)
  have "logdisk (unat (2000 :: u32)) disk0 2 30 []"
    using sb0_fields by (simp add: logdisk_def header_def disk0_def get4_zero BSIZE_def)
  then obtain r :: lst and h where r: "lg_start r = 2" "lg_size r = 30" "disksize r = 2000" "outstanding r = outstanding (power_on disk0)"
    "committing r = committing (power_on disk0)"
    "lrep r (apply_writes (map (\<lambda>j. ([] ! j, disk0 (Suc (unat (2 :: u32) + j)))) [0..<length ([] :: nat list)] @ [(unat (2 :: u32), h)]) disk0) [] {}"
    using initlog_ok [OF c(1,2), of 2 30 "[]"] unfolding c(3) by blast
  show thesis by (rule that [of r h]) (use r in \<open>simp_all add: power_on_def\<close>)
qed

lemma demo_trans:
  obtains s :: lst and V where "lrep s V [100] {}" and "sb_ok s V" and "disksize s = 2000" and "home s 100"
    and "memdisk s 100 = replicate BSIZE 0" and "V 100 = replicate BSIZE 7"
proof -
  obtain r :: lst and h where l: "lrep r (disk0(2 := h)) [] {}" and r: "lg_start r = 2" "lg_size r = 30" "disksize r = 2000" "outstanding r = 0" "\<not> committing r"
    by (rule demo_boot)
  obtain s :: lst where s: "lrep s (disk0(2 := h)) [] {}" "outstanding s = 1" "disksize s = 2000" "lg_start s = 2" "lg_size s = 30" "memdisk s = memdisk r"
    using begin_op_ok [OF l r(5)] r by (auto simp: LOGSIZE_def MAXOPBLOCKS_def)
  have h: "home s 100" using s by (simp add: home_def loga_def)
  obtain s3 :: lst where w: "lrep s3 ((disk0(2 := h))(100 := replicate BSIZE 7)) (logged 100 []) {}" "same_trans s s3"
    using put_block [OF s(1) h, of "replicate BSIZE 7"] s by (auto simp: LOGSIZE_def NBUF_def MAXOPBLOCKS_def)
  have d: "disksize s3 = 2000" "lg_start s3 = 2" "lg_size s3 = 30" using w(2) s by (simp_all add: same_trans_def)
  have "sb_ok s3 ((disk0(2 := h))(100 := replicate BSIZE 7))"
    using d sb0_fields by (simp add: sb_ok_def disk0_def)
  moreover have "home s3 100" using h home_same(1) [OF w(2)] by simp
  moreover have "memdisk s3 100 = replicate BSIZE 0"
    using lrep_disk [OF l, of 100] r(3) w(2) s(6) by (simp add: same_trans_def disk0_def)
  ultimately show thesis using that [of s3 "(disk0(2 := h))(100 := replicate BSIZE 7)"] w(1) d by (simp add: logged_def)
qed

section \<open>Properties\<close>

text \<open>
  C2: A commit is atomic. Let a transaction have changed the blocks \<open>L\<close>, so that the cache stands
  for the blocks \<open>V\<close>, and let power fail at any moment of \<open>commit\<close>, that is, after any prefix \<open>X\<close> of
  its disk writes. Then after the reset \<open>initlog\<close> returns, and all blocks of the file system are as
  before the transaction if the header of the log was not yet written, that is, if at most the
  copies of the changed blocks were, and all of them are as the transaction left them otherwise.
  The two spare buffers are what the copy loops hold.
\<close>

theorem crash_atomic:
  fixes s t :: "'a lst_scheme"
  assumes "lrep s V L {}" and "sb_ok s V" and "L \<noteq> []" and "length L + 2 \<le> NBUF"
    and "cold t" and "disksize t = disksize s"
  shows "\<exists>s'. commit s = Ret s' \<and> (\<forall>X Y. bwrites s' = bwrites s @ X @ Y \<and> memdisk t = apply_writes X (memdisk s) \<longrightarrow>
    (\<exists>r. initlog 1 (binit t) = Ret r \<and> (\<forall>n. home s n \<longrightarrow> memdisk r n = (if length X \<le> length L then memdisk s n else V n))))"
  using commit_ok [OF assms(1,3,4)] crash_any [OF assms(1,2) _ _ assms(5,6)] by fastforce

theorem crash_atomic_witness:
  "\<exists>(s :: lst) V (t :: lst) s' r. lrep s V [100] {} \<and> sb_ok s V \<and> memdisk t = memdisk s \<and> commit s = Ret s' \<and> initlog 1 (binit t) = Ret r
     \<and> memdisk r 100 = replicate BSIZE 0 \<and> V 100 = replicate BSIZE 7"
proof -
  obtain s :: lst and V where s: "lrep s V [100] {}" "sb_ok s V" "disksize s = 2000" "home s 100" "memdisk s 100 = replicate BSIZE 0" "V 100 = replicate BSIZE 7"
    by (rule demo_trans)
  have "length (memdisk s n) = BSIZE" if "n < 2000" for n
    using lrep_disk [OF s(1), of n] brepD(11) [of s V "{}" n] s that by (cases "n = 100") (auto simp: lrep_def)
  then have t: "cold (power_on (memdisk s))" "disksize (power_on (memdisk s)) = 2000" "memdisk (power_on (memdisk s)) = memdisk s"
    using power_on_cold [of "memdisk s"] by auto
  obtain s' h1 h2 where c: "commit s = Ret s'" "bwrites s' = bwrites s @ commit_writes s V [100] h1 h2"
    using commit_ok [OF s(1)] by (auto simp: NBUF_def LOGSIZE_def MAXOPBLOCKS_def)
  then obtain r where "initlog 1 (binit (power_on (memdisk s))) = Ret r" "memdisk r 100 = memdisk s 100"
    using crash_atomic [OF s(1,2), of "power_on (memdisk s)"] t s(3,4)
    by (force simp: NBUF_def LOGSIZE_def MAXOPBLOCKS_def dest: spec [of _ "[]"])
  then show ?thesis using s c(1) t(3) by (intro exI [of _ s] exI [of _ V] exI [of _ "power_on (memdisk s)"] exI [of _ s'] exI [of _ r]) simp
qed

end
