(* ===== verification/Fs.thy ===== *)
theory Fs
  imports Log
begin

text \<open>
  The file system of \<open>src/fs.c\<close> over the log: the block allocator, inodes and the inode cache, the
  contents of files, directories and path names. This theory has the definitions; \<open>Fsalloc\<close> and the
  theories after it have what they do.
\<close>

section \<open>State\<close>

definition ROOTINO :: u32 where "ROOTINO = 1"
definition ROOTDEV :: u32 where "ROOTDEV = 1"
definition NDIRECT :: nat where "NDIRECT = 10"
definition NINDIRECT :: nat where "NINDIRECT = BSIZE div 4"
definition MAXFILE :: nat where "MAXFILE = NDIRECT + NINDIRECT"
definition IPB :: nat where "IPB = BSIZE div 64"
definition BPB :: nat where "BPB = BSIZE * 8"
definition DIRSIZ :: nat where "DIRSIZ = 14"

definition T_DIR :: u16 where "T_DIR = 1"
definition T_FILE :: u16 where "T_FILE = 2"
definition T_DEV :: u16 where "T_DEV = 3"

definition I_BUSY :: u32 where "I_BUSY = 1"
definition I_VALID :: u32 where "I_VALID = 2"

text \<open>The inode on disk, 64 bytes.\<close>

record dinode =
  di_type :: u16
  di_major :: u16
  di_minor :: u16
  di_nlink :: u16
  di_uid :: u16
  di_gid :: u16
  di_mode :: u32
  di_size :: u32
  di_addrs :: "u32 list"

definition dinode_at :: "u8 list \<Rightarrow> nat \<Rightarrow> dinode" where
  "dinode_at b k = (let o' = 64 * k in
     \<lparr>di_type = get2 b o', di_major = get2 b (o' + 2), di_minor = get2 b (o' + 4), di_nlink = get2 b (o' + 6),
      di_uid = get2 b (o' + 8), di_gid = get2 b (o' + 10), di_mode = get4 b (o' + 12), di_size = get4 b (o' + 16),
      di_addrs = map (\<lambda>j. get4 b (o' + 20 + 4 * j)) [0..<NDIRECT + 1]\<rparr>)"

definition put_dinode :: "nat \<Rightarrow> dinode \<Rightarrow> u8 list \<Rightarrow> u8 list" where
  "put_dinode k x b = splice (64 * k)
     (le2 (di_type x) @ le2 (di_major x) @ le2 (di_minor x) @ le2 (di_nlink x) @ le2 (di_uid x) @ le2 (di_gid x)
      @ le4 (di_mode x) @ le4 (di_size x) @ concat (map le4 (di_addrs x))) b"

text \<open>
  The inode in memory: \<open>di\<close> is the copy of the disk inode the code keeps in the same fields. The
  super block is the global \<open>sb\<close>, \<open>cwd\<close> the current directory of the running process.
\<close>

record inode =
  i_dev :: u32
  i_inum :: u32
  i_ref :: int
  i_flags :: u32
  di :: dinode

record fsst = lst +
  sb :: superblock
  inodes :: "nat \<Rightarrow> inode"
  cwd :: nat

definition updi :: "nat \<Rightarrow> (inode \<Rightarrow> inode) \<Rightarrow> 'a fsst_scheme \<Rightarrow> 'a fsst_scheme" where
  "updi ip f s = s\<lparr>inodes := (inodes s)(ip := f (inodes s ip))\<rparr>"

definition i_busy :: "'a fsst_scheme \<Rightarrow> nat \<Rightarrow> bool" where
  "i_busy s ip \<longleftrightarrow> i_flags (inodes s ip) AND I_BUSY \<noteq> 0"

definition i_valid :: "'a fsst_scheme \<Rightarrow> nat \<Rightarrow> bool" where
  "i_valid s ip \<longleftrightarrow> i_flags (inodes s ip) AND I_VALID \<noteq> 0"

definition IBLOCK :: "u32 \<Rightarrow> superblock \<Rightarrow> u32" where
  "IBLOCK i x = i div of_nat IPB + sb_inodestart x"

definition BBLOCK :: "u32 \<Rightarrow> superblock \<Rightarrow> u32" where
  "BBLOCK b x = b div of_nat BPB + sb_bmapstart x"

text \<open>The device switch: what the drivers of \<open>devsw\<close> do, if there is one for a major number.\<close>

record 's devsw =
  dread :: "nat \<Rightarrow> (nat \<Rightarrow> u32 \<Rightarrow> 's \<Rightarrow> (int \<times> u8 list \<times> 's) res) option"
  dwrite :: "nat \<Rightarrow> (nat \<Rightarrow> u8 list \<Rightarrow> 's \<Rightarrow> (int \<times> 's) res) option"

section \<open>Blocks\<close>

text \<open>Read a block, change its data, log it and release it.\<close>

definition change_block :: "u32 \<Rightarrow> u32 \<Rightarrow> (u8 list \<Rightarrow> u8 list) \<Rightarrow> 'a lst_scheme \<Rightarrow> 'a lst_scheme res" where
  "change_block dev bno f s =
     bindr (bread dev bno s) (\<lambda>(bp, s).
     bindr (log_write bp (set_bdata bp (f (bdata (bufs s (Buf bp)))) s)) (\<lambda>s.
     brelse bp s))"

definition bzero :: "u32 \<Rightarrow> u32 \<Rightarrow> 'a lst_scheme \<Rightarrow> 'a lst_scheme res" where
  "bzero dev bno s = change_block dev bno (\<lambda>_. replicate BSIZE 0) s"

definition bit_set :: "u8 list \<Rightarrow> nat \<Rightarrow> bool" where
  "bit_set d bi \<longleftrightarrow> d ! (bi div 8) AND push_bit (bi mod 8) 1 \<noteq> 0"

definition mark_bit :: "nat \<Rightarrow> u8 list \<Rightarrow> u8 list" where
  "mark_bit bi d = d[bi div 8 := d ! (bi div 8) OR push_bit (bi mod 8) 1]"

definition clear_bit :: "nat \<Rightarrow> u8 list \<Rightarrow> u8 list" where
  "clear_bit bi d = d[bi div 8 := d ! (bi div 8) AND NOT (push_bit (bi mod 8) 1)]"

text \<open>The list has the values of \<open>b\<close> in the outer loop.\<close>

primrec balloc_loop :: "u32 \<Rightarrow> nat list \<Rightarrow> 'a fsst_scheme \<Rightarrow> (u32 \<times> 'a fsst_scheme) res" where
  "balloc_loop dev [] s = Panic ''balloc: out of blocks''"
| "balloc_loop dev (b # bs) s =
     bindr (bread dev (BBLOCK (of_nat b) (sb s)) s) (\<lambda>(bp, s).
     let d = bdata (bufs s (Buf bp)) in
     case find (\<lambda>bi. \<not> bit_set d bi) [0..<min BPB (unat (sb_size (sb s)) - b)] of
       Some bi \<Rightarrow>
         bindr (log_write bp (set_bdata bp (mark_bit bi d) s)) (\<lambda>s.
         bindr (brelse bp s) (\<lambda>s.
         bindr (bzero dev (of_nat (b + bi)) s) (\<lambda>s.
         Ret (of_nat (b + bi), s))))
     | None \<Rightarrow> bindr (brelse bp s) (balloc_loop dev bs))"

definition bm_starts :: "nat \<Rightarrow> nat list" where
  "bm_starts n = map (\<lambda>k. k * BPB) [0..<(n + BPB - 1) div BPB]"

definition balloc :: "u32 \<Rightarrow> 'a fsst_scheme \<Rightarrow> (u32 \<times> 'a fsst_scheme) res" where
  "balloc dev s = balloc_loop dev (bm_starts (unat (sb_size (sb s)))) s"

definition bfree :: "u32 \<Rightarrow> u32 \<Rightarrow> 'a fsst_scheme \<Rightarrow> 'a fsst_scheme res" where
  "bfree dev b s =
     bindr (readsb dev s) (\<lambda>(x, s). let s = s\<lparr>sb := x\<rparr> in
     bindr (bread dev (BBLOCK b (sb s)) s) (\<lambda>(bp, s).
     let bi = unat b mod BPB; d = bdata (bufs s (Buf bp)) in
     if \<not> bit_set d bi then Panic ''freeing free block''
     else bindr (log_write bp (set_bdata bp (clear_bit bi d) s)) (\<lambda>s. brelse bp s)))"

section \<open>Inodes\<close>

text \<open>The call of \<open>cprintf\<close> is left out.\<close>

definition iinit :: "u32 \<Rightarrow> 'a fsst_scheme \<Rightarrow> 'a fsst_scheme res" where
  "iinit dev s =
     (let s = s\<lparr>lks := (lks s)(LkIcache := initlock (lks s LkIcache) ''icache'')\<rparr>
      in bindr (readsb dev s) (\<lambda>(x, s). Ret (s\<lparr>sb := x\<rparr>)))"

definition iget :: "u32 \<Rightarrow> u32 \<Rightarrow> 'a fsst_scheme \<Rightarrow> (nat \<times> 'a fsst_scheme) res" where
  "iget dev inum s =
     bindr (acq LkIcache s) (\<lambda>s.
     case find (\<lambda>ip. 0 < i_ref (inodes s ip) \<and> i_dev (inodes s ip) = dev \<and> i_inum (inodes s ip) = inum) [0..<NINODE] of
       Some ip \<Rightarrow> bindr (rel LkIcache (updi ip (\<lambda>x. x\<lparr>i_ref := i_ref x + 1\<rparr>) s)) (\<lambda>s. Ret (ip, s))
     | None \<Rightarrow>
       (case find (\<lambda>ip. i_ref (inodes s ip) = 0) [0..<NINODE] of
          None \<Rightarrow> Panic ''iget: no inodes''
        | Some ip \<Rightarrow>
            bindr (rel LkIcache (updi ip (\<lambda>x. x\<lparr>i_dev := dev, i_inum := inum, i_ref := 1, i_flags := 0\<rparr>) s)) (\<lambda>s. Ret (ip, s))))"

definition idup :: "nat \<Rightarrow> 'a fsst_scheme \<Rightarrow> 'a fsst_scheme res" where
  "idup ip s =
     bindr (acq LkIcache s) (\<lambda>s.
     rel LkIcache (updi ip (\<lambda>x. x\<lparr>i_ref := i_ref x + 1\<rparr>) s))"

definition free_dinode :: "u16 \<Rightarrow> dinode" where
  "free_dinode ty = \<lparr>di_type = ty, di_major = 0, di_minor = 0, di_nlink = 0, di_uid = 0, di_gid = 0, di_mode = 0, di_size = 0,
     di_addrs = replicate (NDIRECT + 1) 0\<rparr>"

primrec ialloc_loop :: "u32 \<Rightarrow> u16 \<Rightarrow> nat list \<Rightarrow> 'a fsst_scheme \<Rightarrow> (nat \<times> 'a fsst_scheme) res" where
  "ialloc_loop dev ty [] s = Panic ''ialloc: no inodes''"
| "ialloc_loop dev ty (n # ns) s =
     bindr (bread dev (IBLOCK (of_nat n) (sb s)) s) (\<lambda>(bp, s).
     let d = bdata (bufs s (Buf bp)) in
     if di_type (dinode_at d (n mod IPB)) = 0
     then bindr (log_write bp (set_bdata bp (put_dinode (n mod IPB) (free_dinode ty) d) s)) (\<lambda>s.
          bindr (brelse bp s) (\<lambda>s. iget dev (of_nat n) s))
     else bindr (brelse bp s) (ialloc_loop dev ty ns))"

definition ialloc :: "u32 \<Rightarrow> u16 \<Rightarrow> 'a fsst_scheme \<Rightarrow> (nat \<times> 'a fsst_scheme) res" where
  "ialloc dev ty s = ialloc_loop dev ty [1..<unat (sb_ninodes (sb s))] s"

definition iupdate :: "nat \<Rightarrow> 'a fsst_scheme \<Rightarrow> 'a fsst_scheme res" where
  "iupdate ip s =
     (let x = inodes s ip
      in change_block (i_dev x) (IBLOCK (i_inum x) (sb s)) (put_dinode (unat (i_inum x) mod IPB) (di x)) s)"

text \<open>A null pointer is \<open>None\<close>. An inode that is locked is held by another thread, which never runs.\<close>

definition ilock :: "nat option \<Rightarrow> 'a fsst_scheme \<Rightarrow> 'a fsst_scheme res" where
  "ilock p s =
     (case p of None \<Rightarrow> Panic ''ilock'' | Some ip \<Rightarrow>
      if i_ref (inodes s ip) < 1 then Panic ''ilock''
      else bindr (acq LkIcache s) (\<lambda>s.
           if i_busy s ip then Hang
           else bindr (rel LkIcache (updi ip (\<lambda>x. x\<lparr>i_flags := i_flags x OR I_BUSY\<rparr>) s)) (\<lambda>s.
           if i_valid s ip then Ret s
           else bindr (bread (i_dev (inodes s ip)) (IBLOCK (i_inum (inodes s ip)) (sb s)) s) (\<lambda>(bp, s).
                let d = dinode_at (bdata (bufs s (Buf bp))) (unat (i_inum (inodes s ip)) mod IPB);
                    s = updi ip (\<lambda>x. x\<lparr>di := d\<rparr>) s
                in bindr (brelse bp s) (\<lambda>s.
                   let s = updi ip (\<lambda>x. x\<lparr>i_flags := i_flags x OR I_VALID\<rparr>) s
                   in if di_type (di (inodes s ip)) = 0 then Panic ''ilock: no type'' else Ret s)))))"

definition iunlock :: "nat option \<Rightarrow> 'a fsst_scheme \<Rightarrow> 'a fsst_scheme res" where
  "iunlock p s =
     (case p of None \<Rightarrow> Panic ''iunlock'' | Some ip \<Rightarrow>
      if \<not> i_busy s ip \<or> i_ref (inodes s ip) < 1 then Panic ''iunlock''
      else bindr (acq LkIcache s) (\<lambda>s.
           rel LkIcache (wake (ChInode ip) (updi ip (\<lambda>x. x\<lparr>i_flags := i_flags x AND NOT I_BUSY\<rparr>) s))))"

section \<open>Inode content\<close>

definition set_addr :: "nat \<Rightarrow> nat \<Rightarrow> u32 \<Rightarrow> 'a fsst_scheme \<Rightarrow> 'a fsst_scheme" where
  "set_addr ip k a s = updi ip (\<lambda>x. x\<lparr>di := (di x)\<lparr>di_addrs := (di_addrs (di x))[k := a]\<rparr>\<rparr>) s"

text \<open>The block in \<open>addrs[k]\<close>, allocated if there is none.\<close>

definition get_addr :: "nat \<Rightarrow> nat \<Rightarrow> 'a fsst_scheme \<Rightarrow> (u32 \<times> 'a fsst_scheme) res" where
  "get_addr ip k s =
     (let addr = di_addrs (di (inodes s ip)) ! k in
      if addr = 0 then bindr (balloc (i_dev (inodes s ip)) s) (\<lambda>(addr, s). Ret (addr, set_addr ip k addr s))
      else Ret (addr, s))"

definition bmap :: "nat \<Rightarrow> nat \<Rightarrow> 'a fsst_scheme \<Rightarrow> (u32 \<times> 'a fsst_scheme) res" where
  "bmap ip bn s =
     (if bn < NDIRECT then get_addr ip bn s
      else if bn - NDIRECT < NINDIRECT then
        bindr (get_addr ip NDIRECT s) (\<lambda>(addr, s).
        bindr (bread (i_dev (inodes s ip)) addr s) (\<lambda>(bp, s).
        let addr = get4 (bdata (bufs s (Buf bp))) (4 * (bn - NDIRECT)) in
        bindr
          (if addr = 0
           then bindr (balloc (i_dev (inodes s ip)) s) (\<lambda>(addr, s).
                bindr (log_write bp (set_bdata bp (put4 (4 * (bn - NDIRECT)) addr (bdata (bufs s (Buf bp)))) s)) (\<lambda>s.
                Ret (addr, s)))
           else Ret (addr, s))
          (\<lambda>(addr, s). bindr (brelse bp s) (\<lambda>s. Ret (addr, s)))))
      else Panic ''bmap: out of range'')"

primrec trunc_direct :: "nat \<Rightarrow> nat list \<Rightarrow> 'a fsst_scheme \<Rightarrow> 'a fsst_scheme res" where
  "trunc_direct ip [] s = Ret s"
| "trunc_direct ip (k # ks) s =
     (if di_addrs (di (inodes s ip)) ! k \<noteq> 0
      then bindr (bfree (i_dev (inodes s ip)) (di_addrs (di (inodes s ip)) ! k) s) (\<lambda>s. trunc_direct ip ks (set_addr ip k 0 s))
      else trunc_direct ip ks s)"

primrec trunc_indirect :: "nat \<Rightarrow> nat \<Rightarrow> nat list \<Rightarrow> 'a fsst_scheme \<Rightarrow> 'a fsst_scheme res" where
  "trunc_indirect ip bp [] s = Ret s"
| "trunc_indirect ip bp (j # js) s =
     (let a = get4 (bdata (bufs s (Buf bp))) (4 * j) in
      if a \<noteq> 0 then bindr (bfree (i_dev (inodes s ip)) a s) (trunc_indirect ip bp js)
      else trunc_indirect ip bp js s)"

definition itrunc :: "nat \<Rightarrow> 'a fsst_scheme \<Rightarrow> 'a fsst_scheme res" where
  "itrunc ip s =
     bindr (trunc_direct ip [0..<NDIRECT] s) (\<lambda>s.
     bindr
       (if di_addrs (di (inodes s ip)) ! NDIRECT \<noteq> 0
        then bindr (bread (i_dev (inodes s ip)) (di_addrs (di (inodes s ip)) ! NDIRECT) s) (\<lambda>(bp, s).
             bindr (trunc_indirect ip bp [0..<NINDIRECT] s) (\<lambda>s.
             bindr (brelse bp s) (\<lambda>s.
             bindr (bfree (i_dev (inodes s ip)) (di_addrs (di (inodes s ip)) ! NDIRECT) s) (\<lambda>s.
             Ret (set_addr ip NDIRECT 0 s)))))
        else Ret s)
       (\<lambda>s. iupdate ip (updi ip (\<lambda>x. x\<lparr>di := (di x)\<lparr>di_size := 0\<rparr>\<rparr>) s)))"

definition iput :: "nat \<Rightarrow> 'a fsst_scheme \<Rightarrow> 'a fsst_scheme res" where
  "iput ip s =
     bindr (acq LkIcache s) (\<lambda>s.
     bindr
       (if i_ref (inodes s ip) = 1 \<and> i_valid s ip \<and> di_nlink (di (inodes s ip)) = 0
        then if i_busy s ip then Panic ''iput busy''
             else bindr (rel LkIcache (updi ip (\<lambda>x. x\<lparr>i_flags := i_flags x OR I_BUSY\<rparr>) s)) (\<lambda>s.
                  bindr (itrunc ip s) (\<lambda>s.
                  bindr (iupdate ip (updi ip (\<lambda>x. x\<lparr>di := (di x)\<lparr>di_type := 0\<rparr>\<rparr>) s)) (\<lambda>s.
                  bindr (acq LkIcache s) (\<lambda>s.
                  Ret (wake (ChInode ip) (updi ip (\<lambda>x. x\<lparr>i_flags := 0\<rparr>) s))))))
        else Ret s)
       (\<lambda>s. rel LkIcache (updi ip (\<lambda>x. x\<lparr>i_ref := i_ref x - 1\<rparr>) s)))"

definition iunlockput :: "nat \<Rightarrow> 'a fsst_scheme \<Rightarrow> 'a fsst_scheme res" where
  "iunlockput ip s = bindr (iunlock (Some ip) s) (iput ip)"

record stat =
  st_type :: u16
  st_dev :: u32
  st_ino :: u32
  st_nlink :: u16
  st_uid :: u16
  st_gid :: u16
  st_mode :: u32
  st_size :: u32

definition stati :: "nat \<Rightarrow> 'a fsst_scheme \<Rightarrow> stat" where
  "stati ip s = (let x = inodes s ip in
     \<lparr>st_type = di_type (di x), st_dev = i_dev x, st_ino = i_inum x, st_nlink = di_nlink (di x), st_uid = di_uid (di x),
      st_gid = di_gid (di x), st_mode = di_mode (di x), st_size = di_size (di x)\<rparr>)"

text \<open>The loop of \<open>readi\<close>, with \<open>n - tot\<close> bytes to go.\<close>

function readi_loop :: "nat \<Rightarrow> nat \<Rightarrow> nat \<Rightarrow> 'a fsst_scheme \<Rightarrow> (u8 list \<times> 'a fsst_scheme) res" where
  "readi_loop ip off n s =
     (if n = 0 then Ret ([], s)
      else bindr (bmap ip (off div BSIZE) s) (\<lambda>(addr, s).
           bindr (bread (i_dev (inodes s ip)) addr s) (\<lambda>(bp, s).
           let m = min n (BSIZE - off mod BSIZE);
               x = slice (off mod BSIZE) m (bdata (bufs s (Buf bp)))
           in bindr (brelse bp s) (\<lambda>s.
              bindr (readi_loop ip (off + m) (n - m) s) (\<lambda>(xs, s). Ret (x @ xs, s))))))"
  by pat_completeness auto
termination
  by (relation "measure (\<lambda>(ip, off, n, s). n)") (auto simp: BSIZE_def)

declare readi_loop.simps [simp del]

text \<open>The result and the bytes put at \<open>dst\<close>.\<close>

definition readi :: "'a fsst_scheme devsw \<Rightarrow> nat \<Rightarrow> u32 \<Rightarrow> u32 \<Rightarrow> 'a fsst_scheme \<Rightarrow> (int \<times> u8 list \<times> 'a fsst_scheme) res" where
  "readi D ip off n s =
     (let x = di (inodes s ip) in
      if di_type x = T_DEV
      then if sint (di_major x) < 0 \<or> sint (di_major x) \<ge> int NDEV then Ret (-1, [], s)
           else (case dread D (nat (sint (di_major x))) of None \<Rightarrow> Ret (-1, [], s) | Some f \<Rightarrow> f ip n s)
      else if off > di_size x \<or> off + n < off then Ret (-1, [], s)
      else let n = (if off + n > di_size x then di_size x - off else n)
           in bindr (readi_loop ip (unat off) (unat n) s) (\<lambda>(xs, s). Ret (sint n, xs, s)))"

text \<open>The loop of \<open>writei\<close> over the bytes left at \<open>src\<close>.\<close>

function writei_loop :: "nat \<Rightarrow> nat \<Rightarrow> u8 list \<Rightarrow> 'a fsst_scheme \<Rightarrow> (nat \<times> 'a fsst_scheme) res" where
  "writei_loop ip off src s =
     (if src = [] then Ret (off, s)
      else bindr (bmap ip (off div BSIZE) s) (\<lambda>(addr, s).
           let m = min (length src) (BSIZE - off mod BSIZE)
           in bindr (change_block (i_dev (inodes s ip)) addr (splice (off mod BSIZE) (take m src)) s) (\<lambda>s.
              writei_loop ip (off + m) (drop m src) s)))"
  by pat_completeness auto
termination
  by (relation "measure (\<lambda>(ip, off, src, s). length src)") (auto simp: BSIZE_def)

declare writei_loop.simps [simp del]

definition writei :: "'a fsst_scheme devsw \<Rightarrow> nat \<Rightarrow> u8 list \<Rightarrow> u32 \<Rightarrow> u32 \<Rightarrow> 'a fsst_scheme \<Rightarrow> (int \<times> 'a fsst_scheme) res" where
  "writei D ip src off n s =
     (let x = di (inodes s ip) in
      if di_type x = T_DEV
      then if sint (di_major x) < 0 \<or> sint (di_major x) \<ge> int NDEV then Ret (-1, s)
           else (case dwrite D (nat (sint (di_major x))) of None \<Rightarrow> Ret (-1, s) | Some f \<Rightarrow> f ip (take (unat n) src) s)
      else if off > di_size x \<or> off + n < off then Ret (-1, s)
      else if off + n > of_nat (MAXFILE * BSIZE) then Ret (-1, s)
      else bindr (writei_loop ip (unat off) (take (unat n) src) s) (\<lambda>(off, s).
           bindr (if n > 0 \<and> of_nat off > di_size (di (inodes s ip))
                  then iupdate ip (updi ip (\<lambda>x. x\<lparr>di := (di x)\<lparr>di_size := of_nat off\<rparr>\<rparr>) s)
                  else Ret s) (\<lambda>s. Ret (sint n, s))))"

end
