(* ===== verification/Fsdir.thy ===== *)
theory Fsdir
  imports Fs
begin

text \<open>
  Directories and path names (\<open>src/fs.c\<close>, from \<open>namecmp\<close> on). A name buffer is an array of \<open>DIRSIZ\<close>
  bytes; a path is the list of its bytes before the null byte.
\<close>

section \<open>Directories\<close>

fun namecmp :: "u8 list \<Rightarrow> u8 list \<Rightarrow> int" where
  "namecmp (p # ps) (q # qs) = (if p \<noteq> 0 \<and> p = q then namecmp ps qs else uint p - uint q)"
| "namecmp ps qs = 0"

record dirent =
  de_inum :: u16
  de_name :: "u8 list"

definition dirent_of :: "u8 list \<Rightarrow> dirent" where
  "dirent_of b = \<lparr>de_inum = get2 b 0, de_name = slice 2 DIRSIZ b\<rparr>"

definition bytes_of :: "dirent \<Rightarrow> u8 list" where
  "bytes_of e = le2 (de_inum e) @ de_name e"

text \<open>\<open>strncpy\<close> into the name of a directory entry.\<close>

definition strncpy_name :: "u8 list \<Rightarrow> u8 list" where
  "strncpy_name nm = (let x = takeWhile (\<lambda>c. c \<noteq> 0) (take DIRSIZ nm) in x @ replicate (DIRSIZ - length x) 0)"

text \<open>The offsets of the entries of a directory of \<open>n\<close> bytes.\<close>

definition entries :: "nat \<Rightarrow> nat list" where
  "entries n = map (\<lambda>k. 16 * k) [0..<(n + 15) div 16]"

definition read_dirent :: "'a fsst_scheme devsw \<Rightarrow> nat \<Rightarrow> nat \<Rightarrow> 'a fsst_scheme \<Rightarrow> (dirent \<times> 'a fsst_scheme) res" where
  "read_dirent D dp off s =
     bindr (readi D dp (of_nat off) 16 s) (\<lambda>(r, b, s).
     if r \<noteq> 16 then Panic ''dirlink read'' else Ret (dirent_of b, s))"

primrec dirlookup_loop :: "'a fsst_scheme devsw \<Rightarrow> nat \<Rightarrow> u8 list \<Rightarrow> nat list \<Rightarrow> 'a fsst_scheme \<Rightarrow> ((nat \<times> nat) option \<times> 'a fsst_scheme) res" where
  "dirlookup_loop D dp nm [] s = Ret (None, s)"
| "dirlookup_loop D dp nm (off # offs) s =
     bindr (read_dirent D dp off s) (\<lambda>(de, s).
     if de_inum de = 0 then dirlookup_loop D dp nm offs s
     else if namecmp nm (de_name de) = 0
     then bindr (iget (i_dev (inodes s dp)) (ucast (de_inum de)) s) (\<lambda>(ip, s). Ret (Some (ip, off), s))
     else dirlookup_loop D dp nm offs s)"

text \<open>The inode found and the offset of its entry, which the caller may ask for.\<close>

definition dirlookup :: "'a fsst_scheme devsw \<Rightarrow> nat \<Rightarrow> u8 list \<Rightarrow> 'a fsst_scheme \<Rightarrow> ((nat \<times> nat) option \<times> 'a fsst_scheme) res" where
  "dirlookup D dp nm s =
     (if di_type (di (inodes s dp)) \<noteq> T_DIR then Panic ''dirlookup not DIR''
      else dirlookup_loop D dp nm (entries (unat (di_size (di (inodes s dp))))) s)"

primrec empty_slot :: "'a fsst_scheme devsw \<Rightarrow> nat \<Rightarrow> nat list \<Rightarrow> 'a fsst_scheme \<Rightarrow> (nat option \<times> 'a fsst_scheme) res" where
  "empty_slot D dp [] s = Ret (None, s)"
| "empty_slot D dp (off # offs) s =
     bindr (read_dirent D dp off s) (\<lambda>(de, s). if de_inum de = 0 then Ret (Some off, s) else empty_slot D dp offs s)"

definition dirlink :: "'a fsst_scheme devsw \<Rightarrow> nat \<Rightarrow> u8 list \<Rightarrow> u32 \<Rightarrow> 'a fsst_scheme \<Rightarrow> (int \<times> 'a fsst_scheme) res" where
  "dirlink D dp nm inum s =
     bindr (dirlookup D dp nm s) (\<lambda>(r, s).
     case r of
       Some (ip, _) \<Rightarrow> bindr (iput ip s) (\<lambda>s. Ret (-1, s))
     | None \<Rightarrow>
         let offs = entries (unat (di_size (di (inodes s dp)))) in
         bindr (empty_slot D dp offs s) (\<lambda>(slot, s).
         let off = (case slot of Some off \<Rightarrow> off | None \<Rightarrow> 16 * length offs);
             de = \<lparr>de_inum = ucast inum, de_name = strncpy_name nm\<rparr>
         in bindr (writei D dp (bytes_of de) (of_nat off) 16 s) (\<lambda>(r, s).
            if r \<noteq> 16 then Panic ''dirlink'' else Ret (0, s))))"

section \<open>Paths\<close>

abbreviation slash :: u8 where "slash \<equiv> 0x2F"

definition skipelem :: "u8 list \<Rightarrow> u8 list \<Rightarrow> u8 list option \<times> u8 list" where
  "skipelem path nm =
     (let path = dropWhile (\<lambda>c. c = slash) path in
      if path = [] then (None, nm)
      else let el = takeWhile (\<lambda>c. c \<noteq> slash) path;
               path = drop (length el) path;
               nm = (if length el \<ge> DIRSIZ then splice 0 (take DIRSIZ el) nm else splice 0 (el @ [0]) nm)
           in (Some (dropWhile (\<lambda>c. c = slash) path), nm))"

lemma skipelem_shorter [simp]:
  assumes "skipelem path nm = (Some path', nm')"
  shows "length path' < length path"
proof -
  let ?p = "dropWhile (\<lambda>c. c = slash) path"
  let ?e = "takeWhile (\<lambda>c. c \<noteq> slash) ?p"
  have p: "?p \<noteq> []" "path' = dropWhile (\<lambda>c. c = slash) (drop (length ?e) ?p)"
    using assms by (auto simp: skipelem_def Let_def split: if_splits)
  then have "?e \<noteq> []" using hd_dropWhile [of "\<lambda>c. c = slash" path] by (cases ?p) auto
  then have "length (drop (length ?e) ?p) < length ?p" using p(1) by simp
  moreover have "length path' \<le> length (drop (length ?e) ?p)" unfolding p(2) by (rule length_dropWhile_le)
  ultimately show ?thesis using length_dropWhile_le [of "\<lambda>c. c = slash" path] by linarith
qed

function namex_loop :: "'a fsst_scheme devsw \<Rightarrow> nat \<Rightarrow> u8 list \<Rightarrow> bool \<Rightarrow> u8 list \<Rightarrow> 'a fsst_scheme \<Rightarrow> (nat option \<times> u8 list \<times> 'a fsst_scheme) res" where
  "namex_loop D ip path nameiparent nm s =
     (case skipelem path nm of
        (None, nm) \<Rightarrow>
          if nameiparent then bindr (iput ip s) (\<lambda>s. Ret (None, nm, s)) else Ret (Some ip, nm, s)
      | (Some path, nm) \<Rightarrow>
          bindr (ilock (Some ip) s) (\<lambda>s.
          if di_type (di (inodes s ip)) \<noteq> T_DIR then bindr (iunlockput ip s) (\<lambda>s. Ret (None, nm, s))
          else if nameiparent \<and> path = [] then bindr (iunlock (Some ip) s) (\<lambda>s. Ret (Some ip, nm, s))
          else bindr (dirlookup D ip nm s) (\<lambda>(r, s).
               case r of
                 None \<Rightarrow> bindr (iunlockput ip s) (\<lambda>s. Ret (None, nm, s))
               | Some (next', _) \<Rightarrow> bindr (iunlockput ip s) (\<lambda>s. namex_loop D next' path nameiparent nm s))))"
  by pat_completeness auto
termination
  by (relation "measure (\<lambda>(D, ip, path, nameiparent, nm, s). length path)") (auto dest: sym)

declare namex_loop.simps [simp del]

definition namex :: "'a fsst_scheme devsw \<Rightarrow> u8 list \<Rightarrow> bool \<Rightarrow> u8 list \<Rightarrow> 'a fsst_scheme \<Rightarrow> (nat option \<times> u8 list \<times> 'a fsst_scheme) res" where
  "namex D path nameiparent nm s =
     bindr (if take 1 path = [slash] then iget ROOTDEV ROOTINO s else bindr (idup (cwd s) s) (\<lambda>s. Ret (cwd s, s))) (\<lambda>(ip, s).
     namex_loop D ip path nameiparent nm s)"

text \<open>The local name buffer of \<open>namei\<close> has no defined contents; \<open>junk\<close> is what it holds.\<close>

definition namei :: "'a fsst_scheme devsw \<Rightarrow> u8 list \<Rightarrow> u8 list \<Rightarrow> 'a fsst_scheme \<Rightarrow> (nat option \<times> 'a fsst_scheme) res" where
  "namei D junk path s = bindr (namex D path False junk s) (\<lambda>(ip, _, s). Ret (ip, s))"

definition nameiparent :: "'a fsst_scheme devsw \<Rightarrow> u8 list \<Rightarrow> u8 list \<Rightarrow> 'a fsst_scheme \<Rightarrow> (nat option \<times> u8 list \<times> 'a fsst_scheme) res" where
  "nameiparent D path nm s = namex D path True nm s"

section \<open>Protection\<close>

text \<open>\<open>chmod\<close>, \<open>chown\<close> and \<open>chgrp\<close> differ in the field they set.\<close>

definition change_inode :: "'a fsst_scheme devsw \<Rightarrow> u8 list \<Rightarrow> u8 list \<Rightarrow> (dinode \<Rightarrow> dinode) \<Rightarrow> 'a fsst_scheme \<Rightarrow> (int \<times> 'a fsst_scheme) res" where
  "change_inode D junk path f s =
     bindr (begin_op s) (\<lambda>s.
     bindr (namei D junk path s) (\<lambda>(temp, s).
     case temp of
       Some ip \<Rightarrow>
         bindr (ilock (Some ip) s) (\<lambda>s.
         bindr (iupdate ip (updi ip (\<lambda>x. x\<lparr>di := f (di x)\<rparr>) s)) (\<lambda>s.
         bindr (iunlock (Some ip) s) (\<lambda>s.
         bindr (end_op s) (\<lambda>s. Ret (0, s)))))
     | None \<Rightarrow> bindr (end_op s) (\<lambda>s. Ret (-1, s))))"

definition chmod :: "'a fsst_scheme devsw \<Rightarrow> u8 list \<Rightarrow> u8 list \<Rightarrow> u32 \<Rightarrow> 'a fsst_scheme \<Rightarrow> (int \<times> 'a fsst_scheme) res" where
  "chmod D junk pathname mode s = change_inode D junk pathname (\<lambda>d. d\<lparr>di_mode := mode\<rparr>) s"

definition chown :: "'a fsst_scheme devsw \<Rightarrow> u8 list \<Rightarrow> u8 list \<Rightarrow> u32 \<Rightarrow> 'a fsst_scheme \<Rightarrow> (int \<times> 'a fsst_scheme) res" where
  "chown D junk pathname owner s = change_inode D junk pathname (\<lambda>d. d\<lparr>di_uid := ucast owner\<rparr>) s"

definition chgrp :: "'a fsst_scheme devsw \<Rightarrow> u8 list \<Rightarrow> u8 list \<Rightarrow> u32 \<Rightarrow> 'a fsst_scheme \<Rightarrow> (int \<times> 'a fsst_scheme) res" where
  "chgrp D junk pathname grp s = change_inode D junk pathname (\<lambda>d. d\<lparr>di_gid := ucast grp\<rparr>) s"

end
