(* ===== verification/Fsalloc.thy ===== *)
theory Fsalloc
  imports Fs
begin

text \<open>
  What the block allocator does: \<open>balloc\<close> hands out the first block the bitmap has as free, zeroed, and
  \<open>bfree\<close> gives one back. The blocks are those the transaction stands for (\<open>lrep\<close> of \<open>Log\<close>).
\<close>

section \<open>Bits\<close>

lemma bit_set_bit: "bit_set d i \<longleftrightarrow> bit (d ! (i div 8)) (i mod 8)"
  by (simp add: bit_set_def bit_iff_and_push_bit_not_eq_0)

lemma bit_exp8: "k < 8 \<Longrightarrow> bit ((2 :: u8) ^ k) n \<longleftrightarrow> n = k"
  by (auto simp: bit_exp_iff)

lemma same_bit: "i div 8 = j div 8 \<Longrightarrow> j = (i :: nat) \<longleftrightarrow> j mod 8 = i mod 8"
  by (metis mult_div_mod_eq)

lemma bit_set_mark: "i div 8 < length d \<Longrightarrow> bit_set (mark_bit i d) j \<longleftrightarrow> j = i \<or> bit_set d j"
  by (cases "i div 8 = j div 8")
    (use same_bit [of i j] in \<open>auto simp: bit_set_bit mark_bit_def nth_list_update bit_or_iff bit_exp8\<close>)

lemma bit_set_clear: "i div 8 < length d \<Longrightarrow> bit_set (clear_bit i d) j \<longleftrightarrow> j \<noteq> i \<and> bit_set d j"
  by (cases "i div 8 = j div 8")
    (use same_bit [of i j] in \<open>auto simp: bit_set_bit clear_bit_def nth_list_update bit_and_iff bit_not_iff bit_exp8\<close>)

lemma length_bits [simp]: "length (mark_bit i d) = length d" "length (clear_bit i d) = length d"
  by (simp_all add: mark_bit_def clear_bit_def)

section \<open>Room in the transaction\<close>

text \<open>\<open>n\<close> more blocks fit, in the log and in the cache besides the buffers \<open>K\<close>.\<close>

definition room :: "nat \<Rightarrow> 'a lst_scheme \<Rightarrow> nat list \<Rightarrow> nat set \<Rightarrow> bool" where
  "room n s L K \<longleftrightarrow> 1 \<le> outstanding s \<and> int (length L + n) \<le> lg_size s - 1 \<and> length L + n + card K \<le> NBUF"

text \<open>The buffers \<open>K\<close> are as before.\<close>

definition kept :: "nat set \<Rightarrow> 'a bst_scheme \<Rightarrow> 'a bst_scheme \<Rightarrow> bool" where
  "kept K s s' \<longleftrightarrow> (\<forall>j\<in>K. (\<forall>m. cached s' j m = cached s j m) \<and> bdata (bufs s' (Buf j)) = bdata (bufs s (Buf j)))"

lemma room_mono: "room n s L K \<Longrightarrow> m \<le> n \<Longrightarrow> room m s L K"
  by (simp add: room_def)

lemma room_same: "room n s L K \<Longrightarrow> same_trans s s' \<Longrightarrow> length L' + m \<le> length L + n \<Longrightarrow> room m s' L' K"
  by (simp add: room_def same_trans_def)

lemma kept_refl: "kept K s s"
  by (simp add: kept_def)

lemma kept_trans: "kept K s s' \<Longrightarrow> kept K s' s'' \<Longrightarrow> kept K s s''"
  by (simp add: kept_def)

lemma same_trans_refl: "same_trans s s"
  by (simp add: same_trans_def)

lemma fsst_more:
  assumes "lst.more s' = lst.more s"
  shows "sb s' = sb s" "inodes s' = inodes s" "cwd s' = cwd s" "fsst.more s' = fsst.more s"
  using assms by (cases s rule: fsst.cases_scheme; cases s' rule: fsst.cases_scheme; simp)+

lemma same_fs:
  assumes "same_trans s s'"
  shows "sb s' = sb s" "inodes s' = inodes s" "cwd s' = cwd s" "disksize s' = disksize s"
  using assms fsst_more [of s' s] by (simp_all add: same_trans_def)

section \<open>One block changed\<close>

lemma change_block_ok:
  assumes "lrep s V L K" and "home s n" and "\<forall>i\<in>K. \<not> cached s i n" and "length (f (V n)) = BSIZE" and "room 1 s L K"
  shows "\<exists>s'. change_block 1 (of_nat n) f s = Ret s' \<and> lrep s' (V(n := f (V n))) (logged n L) K \<and> same_trans s s' \<and> kept K s s'"
proof -
  have "length L + card K < NBUF" "length L < LOGSIZE" "int (length L) < lg_size s - 1" "1 \<le> outstanding s"
    using assms(5) by (auto simp: room_def NBUF_def LOGSIZE_def)
  then show ?thesis using put_block [OF assms(1-4)] by (auto simp: change_block_def kept_def)
qed

section \<open>The bitmap\<close>

text \<open>The block of the bitmap with the bit of \<open>b\<close>, and whether the bit is set.\<close>

definition bmb :: "superblock \<Rightarrow> nat \<Rightarrow> nat" where
  "bmb x b = unat (sb_bmapstart x) + b div BPB"

definition used :: "superblock \<Rightarrow> (nat \<Rightarrow> u8 list) \<Rightarrow> nat \<Rightarrow> bool" where
  "used x V b \<longleftrightarrow> bit_set (V (bmb x b)) (b mod BPB)"

text \<open>
  The disk is laid out for the allocator: the blocks of the bitmap and the free blocks belong to the
  file system, and no free block is one of the bitmap.
\<close>

definition bm_ok :: "'a fsst_scheme \<Rightarrow> (nat \<Rightarrow> u8 list) \<Rightarrow> bool" where
  "bm_ok s V \<longleftrightarrow> sb_size (sb s) = disksize s \<and> sb s = sb_of (V 1) \<and> (\<forall>b<unat (sb_size (sb s)). home s (bmb (sb s) b)) \<and>
     (\<forall>b<unat (sb_size (sb s)). \<not> used (sb s) V b \<longrightarrow> home s b \<and> b \<noteq> 0 \<and> (\<forall>c<unat (sb_size (sb s)). b \<noteq> bmb (sb s) c))"

lemma BBLOCK_bmb:
  assumes "b < unat (sb_size x)"
  shows "BBLOCK (of_nat b) x = of_nat (bmb x b)"
proof -
  have "b < 2 ^ 32" using assms unat_u32 [of "sb_size x"] by linarith
  then have b: "unat (of_nat b :: u32) = b" "unat (of_nat (b div BPB) :: u32) = b div BPB"
    by (simp_all add: unat_of_nat take_bit_nat_eq_self div_le_dividend [THEN le_less_trans])
  moreover have "unat (of_nat BPB :: u32) = BPB" by (simp add: BPB_def BSIZE_def)
  ultimately have "(of_nat b :: u32) div of_nat BPB = of_nat (b div BPB)" by (simp add: word_unat_eq_iff unat_div)
  then show ?thesis by (simp add: BBLOCK_def bmb_def)
qed

section \<open>Allocation\<close>

text \<open>The blocks one turn of the outer loop looks at.\<close>

definition chunk :: "nat \<Rightarrow> nat \<Rightarrow> nat list" where
  "chunk N b = [b..<min (b + BPB) N]"

lemma BPB_pos [simp]: "0 < BPB"
  by (simp add: BPB_def BSIZE_def)

lemma chunks_upto: "concat (map (\<lambda>k. chunk N (k * BPB)) [0..<k]) = [0..<min (k * BPB) N]"
proof (induction k)
  case (Suc k)
  have "[0..<min (k * BPB) N] @ [k * BPB..<min (k * BPB + BPB) N] = [0..<min (k * BPB + BPB) N]"
    using upt_add_eq_append [of 0 "k * BPB" "min (k * BPB + BPB) N - k * BPB"] by (cases "k * BPB < N") (auto simp: min_def)
  then show ?case using Suc by (simp add: chunk_def add.commute)
qed simp

lemma chunks_all: "concat (map (chunk N) (bm_starts N)) = [0..<N]"
proof -
  have "N \<le> (N + BPB - 1) div BPB * BPB" using div_mult_mod_eq [of "N + BPB - 1" BPB] mod_less_divisor [OF BPB_pos, of "N + BPB - 1"] by linarith
  then show ?thesis using chunks_upto [of N "(N + BPB - 1) div BPB"] by (simp add: bm_starts_def comp_def min_absorb2)
qed

lemma find_map: "find P (map f xs) = map_option f (find (\<lambda>x. P (f x)) xs)"
  by (induction xs) auto

lemma find_append: "find P (xs @ ys) = (case find P xs of None \<Rightarrow> find P ys | Some x \<Rightarrow> Some x)"
  by (induction xs) auto

lemma chunk_used: "b mod BPB = 0 \<Longrightarrow> bi < BPB \<Longrightarrow> bmb x (b + bi) = bmb x b \<and> (b + bi) mod BPB = bi"
  by (auto simp: bmb_def mod_add_left_eq [symmetric] elim!: dvdE simp: dvd_eq_mod_eq_0 [symmetric])

lemma find_chunk:
  assumes "b mod BPB = 0" and "b < N"
  shows "find (\<lambda>c. \<not> used x V c) (chunk N b) = map_option (\<lambda>bi. b + bi) (find (\<lambda>bi. \<not> bit_set (V (bmb x b)) bi) [0..<min BPB (N - b)])"
proof -
  have "chunk N b = map (\<lambda>bi. b + bi) [0..<min BPB (N - b)]"
    using assms(2) map_add_upt [of b "min BPB (N - b)"] by (simp add: chunk_def min_def add.commute)
  moreover have "find (\<lambda>bi. \<not> used x V (b + bi)) xs = find (\<lambda>bi. \<not> bit_set (V (bmb x b)) bi) xs" if "set xs \<subseteq> {..<BPB}" for xs
    using that chunk_used [OF assms(1), of _ x] by (induction xs) (auto simp: used_def)
  ultimately show ?thesis by (auto simp: find_map subset_eq)
qed

text \<open>The blocks after \<open>b\<close> was handed out.\<close>

definition alloc_blocks :: "superblock \<Rightarrow> nat \<Rightarrow> (nat \<Rightarrow> u8 list) \<Rightarrow> nat \<Rightarrow> u8 list" where
  "alloc_blocks x b V = V(bmb x b := mark_bit (b mod BPB) (V (bmb x b)), b := replicate BSIZE 0)"

text \<open>None of the buffers \<open>K\<close> holds a block of the bitmap or a free block.\<close>

definition clear_of_bm :: "nat set \<Rightarrow> 'a fsst_scheme \<Rightarrow> (nat \<Rightarrow> u8 list) \<Rightarrow> bool" where
  "clear_of_bm K s V \<longleftrightarrow> (\<forall>i\<in>K. \<forall>b<unat (sb_size (sb s)). \<not> cached s i (bmb (sb s) b) \<and> (\<not> used (sb s) V b \<longrightarrow> \<not> cached s i b))"

lemma room_put: "room 1 s L K \<Longrightarrow> length L + card K < NBUF \<and> length L < LOGSIZE \<and> int (length L) < lg_size s - 1 \<and> 1 \<le> outstanding s"
  by (auto simp: room_def NBUF_def LOGSIZE_def)

lemma balloc_found:
  assumes l: "lrep s V L K" and m: "bm_ok s V" and r: "room 2 s L K" and c: "clear_of_bm K s V"
    and b: "b mod BPB = 0" "b < unat (sb_size (sb s))" and f: "find (\<lambda>bi. \<not> bit_set (V (bmb (sb s) b)) bi) [0..<min BPB (unat (sb_size (sb s)) - b)] = Some bi"
  shows "\<exists>s'. balloc_loop 1 (b # bs) s = Ret (of_nat (b + bi), s') \<and> lrep s' (alloc_blocks (sb s) (b + bi) V) (logged (b + bi) (logged (bmb (sb s) b) L)) K
    \<and> same_trans s s' \<and> kept K s s'"
proof -
  let ?n = "bmb (sb s) b" and ?c = "b + bi" and ?N = "unat (sb_size (sb s))"
  have bi: "bi < BPB" "?c < ?N" "\<not> bit_set (V ?n) bi" using f b(2) by (auto simp: find_Some_iff)
  note C = chunk_used [OF b(1) bi(1), of "sb s"]
  have free: "\<not> used (sb s) V ?c" using C bi(3) by (simp add: used_def)
  have h: "home s ?n" "home s ?c" "?c \<noteq> ?n" using m b(2) bi(2) free unfolding bm_ok_def by blast+
  have k: "\<forall>i\<in>K. \<not> cached s i ?n" "\<forall>i\<in>K. \<not> cached s i ?c" using c b(2) bi(2) free by (auto simp: clear_of_bm_def)
  have len: "length (V ?n) = BSIZE" using brepD(11) [of s V K ?n] l h(1) by (simp add: lrep_def home_def)
  obtain i s1 s2 s3 where p: "bread 1 (of_nat ?n) s = Ret (i, s1)" "bdata (bufs s1 (Buf i)) = V ?n" "log_write i (set_bdata i (mark_bit bi (V ?n)) s1) = Ret s2"
    "brelse i s2 = Ret s3" "lrep s3 (V(?n := mark_bit bi (V ?n))) (logged ?n L) K" "same_trans s s3" "kept K s s3" and s1: "same_trans s s1"
    using put_block [OF l h(1) k(1), of "mark_bit bi (V ?n)"] room_put [OF room_mono [OF r]] len bread_lrep [OF l _ k(1)] h(1)
    by (fastforce simp: kept_def home_def)
  have "room 1 s3 (logged ?n L) K" using room_same [OF r p(6), of "logged ?n L" 1] by simp
  moreover have "home s3 ?c" "\<forall>i\<in>K. \<not> cached s3 i ?c" using h(2) k(2) home_same(1) [OF p(6)] p(7) by (simp_all add: kept_def)
  ultimately obtain s' where z: "bzero 1 (of_nat ?c) s3 = Ret s'" "lrep s' ((V(?n := mark_bit bi (V ?n)))(?c := replicate BSIZE 0)) (logged ?c (logged ?n L)) K"
    "same_trans s3 s'" "kept K s3 s'"
    using change_block_ok [OF p(5), of ?c "\<lambda>_. replicate BSIZE 0"] by (auto simp: bzero_def)
  have "balloc_loop 1 (b # bs) s = Ret (of_nat ?c, s')"
    using p(1-4) z(1) f BBLOCK_bmb [OF b(2)] same_fs(1) [OF s1] by (simp add: Let_def)
  then show ?thesis using z C same_trans_trans [OF p(6) z(3)] kept_trans [OF p(7) z(4)] by (auto simp: alloc_blocks_def)
qed

lemma bm_same: "same_trans s s' \<Longrightarrow> bm_ok s' V = bm_ok s V"
  using same_fs [of s s'] home_same(1) [of s s'] by (simp add: bm_ok_def)

lemma clear_same: "same_trans s s' \<Longrightarrow> kept K s s' \<Longrightarrow> clear_of_bm K s' V = clear_of_bm K s V"
  using same_fs [of s s'] by (simp add: clear_of_bm_def kept_def)

lemma balloc_loop_ok:
  assumes "lrep s V L K" and "bm_ok s V" and "room 2 s L K" and "clear_of_bm K s V"
    and "\<forall>b\<in>set bs. b mod BPB = 0 \<and> b < unat (sb_size (sb s))"
  shows "case find (\<lambda>b. \<not> used (sb s) V b) (concat (map (chunk (unat (sb_size (sb s)))) bs)) of
      None \<Rightarrow> balloc_loop 1 bs s = Panic ''balloc: out of blocks''
    | Some b \<Rightarrow> \<exists>s'. balloc_loop 1 bs s = Ret (of_nat b, s') \<and> lrep s' (alloc_blocks (sb s) b V) (logged b (logged (bmb (sb s) b) L)) K
        \<and> same_trans s s' \<and> kept K s s'"
  using assms
proof (induction bs arbitrary: s)
  case (Cons b bs)
  let ?N = "unat (sb_size (sb s))" and ?n = "bmb (sb s) b"
  have b: "b mod BPB = 0" "b < ?N" using Cons.prems(5) by auto
  show ?case
  proof (cases "find (\<lambda>bi. \<not> bit_set (V ?n) bi) [0..<min BPB (?N - b)]")
    case (Some bi)
    have "bmb (sb s) (b + bi) = ?n" using Some chunk_used [OF b(1), of bi] by (auto simp: find_Some_iff)
    then show ?thesis using balloc_found [OF Cons.prems(1-4) b Some, of bs] Some
      by (simp add: find_append find_chunk [OF b] del: balloc_loop.simps)
  next
    case None
    have "home s ?n" "\<forall>i\<in>K. \<not> cached s i ?n" using Cons.prems(2,4) b(2) by (auto simp: bm_ok_def clear_of_bm_def)
    then obtain i s1 s2 where g: "bread 1 (of_nat ?n) s = Ret (i, s1)" "bdata (bufs s1 (Buf i)) = V ?n" "brelse i s1 = Ret s2" "lrep s2 V L K"
      "same_trans s s2" "kept K s s2" and s1: "same_trans s s1"
      using get_block [OF Cons.prems(1), of ?n] bread_lrep [OF Cons.prems(1), of ?n] room_put [OF room_mono [OF Cons.prems(3)]] by (fastforce simp: kept_def home_def)
    have "balloc_loop 1 (b # bs) s = balloc_loop 1 bs s2"
      using g(1-3) None BBLOCK_bmb [OF b(2)] same_fs(1) [OF s1] by (simp add: Let_def)
    moreover have "room 2 s2 L K" using room_same [OF Cons.prems(3) g(5)] by simp
    ultimately show ?thesis
      using Cons.IH [OF g(4)] Cons.prems(2,4,5) bm_same [OF g(5), of V] clear_same [OF g(5,6), of V] same_fs(1) [OF g(5)] None
        same_trans_trans [OF g(5)] kept_trans [OF g(6)]
      by (auto simp: find_append find_chunk [OF b] split: option.splits simp del: balloc_loop.simps)
  qed
qed simp

lemma bm_starts_below: "\<forall>b\<in>set (bm_starts N). b mod BPB = 0 \<and> b < N"
proof -
  have "k * BPB < N" if "k < (N + BPB - 1) div BPB" for k
  proof -
    have "Suc k * BPB \<le> (N + BPB - 1) div BPB * BPB" using that by (intro mult_le_mono1) simp
    then show ?thesis using div_times_less_eq_dividend [of "N + BPB - 1" BPB] BPB_pos unfolding mult_Suc by linarith
  qed
  then show ?thesis by (auto simp: bm_starts_def)
qed

lemma balloc_ok:
  assumes "lrep s V L K" and "bm_ok s V" and "room 2 s L K" and "clear_of_bm K s V"
  shows "case find (\<lambda>b. \<not> used (sb s) V b) [0..<unat (sb_size (sb s))] of
      None \<Rightarrow> balloc 1 s = Panic ''balloc: out of blocks''
    | Some b \<Rightarrow> \<exists>s'. balloc 1 s = Ret (of_nat b, s') \<and> lrep s' (alloc_blocks (sb s) b V) (logged b (logged (bmb (sb s) b) L)) K
        \<and> same_trans s s' \<and> kept K s s'"
  using balloc_loop_ok [OF assms bm_starts_below] unfolding balloc_def chunks_all .

section \<open>Freeing\<close>

lemma bfree_ok:
  assumes l: "lrep s V L K" and m: "bm_ok s V" and r: "room 1 s L K" and b: "b < unat (sb_size (sb s))"
    and k: "\<forall>i\<in>K. \<not> cached s i (bmb (sb s) b) \<and> \<not> cached s i 1" and d: "1 < unat (disksize s)"
  shows "if used (sb s) V b
     then \<exists>s'. bfree 1 (of_nat b) s = Ret s' \<and> lrep s' (V(bmb (sb s) b := clear_bit (b mod BPB) (V (bmb (sb s) b)))) (logged (bmb (sb s) b) L) K
       \<and> same_trans s s' \<and> kept K s s'
     else bfree 1 (of_nat b) s = Panic ''freeing free block''"
proof -
  let ?n = "bmb (sb s) b"
  have x: "sb s = sb_of (V 1)" "home s ?n" using m b unfolding bm_ok_def by blast+
  have b': "unat (of_nat b :: u32) = b" using b unat_u32 [of "sb_size (sb s)"] by (simp add: unat_of_nat take_bit_nat_eq_self)
  have len: "length (V ?n) = BSIZE" using brepD(11) [of s V K ?n] l x(2) by (simp add: lrep_def home_def)
  obtain i s1 s2 where g: "bread 1 1 s = Ret (i, s1)" "bdata (bufs s1 (Buf i)) = V 1" "brelse i s1 = Ret s2" "lrep s2 V L K" "same_trans s s2" "kept K s s2"
    using get_block [OF l d] k room_put [OF r] by (auto simp: kept_def)
  have sb: "s2\<lparr>sb := sb s\<rparr> = s2" using same_fs(1) [OF g(5)] by simp
  have rs: "readsb 1 s = Ret (sb s, s2)" using g(1-3) x(1) by (simp add: readsb_def Let_def)
  have h2: "home s2 ?n" "\<forall>i\<in>K. \<not> cached s2 i ?n" "room 1 s2 L K" "sb s2 = sb s"
    using x(2) home_same(1) [OF g(5)] k g(6) room_same [OF r g(5)] same_fs(1) [OF g(5)] by (simp_all add: kept_def)
  have st: "bfree 1 (of_nat b) s = bindr (bread 1 (of_nat ?n) s2) (\<lambda>(bp, s). let d = bdata (bufs s (Buf bp)) in
     if \<not> bit_set d (b mod BPB) then Panic ''freeing free block''
     else bindr (log_write bp (set_bdata bp (clear_bit (b mod BPB) d) s)) (\<lambda>s. brelse bp s))"
    using rs BBLOCK_bmb [OF b] h2(4) b' by (simp add: bfree_def Let_def sb)
  obtain i2 t1 t2 t3 where p: "bread 1 (of_nat ?n) s2 = Ret (i2, t1)" "bdata (bufs t1 (Buf i2)) = V ?n" "log_write i2 (set_bdata i2 (clear_bit (b mod BPB) (V ?n)) t1) = Ret t2"
    "brelse i2 t2 = Ret t3" "lrep t3 (V(?n := clear_bit (b mod BPB) (V ?n))) (logged ?n L) K" "same_trans s2 t3" "kept K s2 t3"
    using put_block [OF g(4) h2(1,2), of "clear_bit (b mod BPB) (V ?n)"] room_put [OF h2(3)] len by (auto simp: kept_def)
  show ?thesis using st p same_trans_trans [OF g(5) p(6)] kept_trans [OF g(6) p(7)] by (simp add: used_def Let_def)
qed

section \<open>The bitmap after a call\<close>

definition free_blocks :: "'a fsst_scheme \<Rightarrow> (nat \<Rightarrow> u8 list) \<Rightarrow> nat set" where
  "free_blocks s V = {b. b < unat (sb_size (sb s)) \<and> \<not> used (sb s) V b}"

lemma bm_bit: "b mod BPB div 8 < BSIZE"
  using mod_less_divisor [OF BPB_pos, of b] by (simp add: BPB_def BSIZE_def less_mult_imp_div_less)

lemma bmb_inj: "bmb x b = bmb x c \<Longrightarrow> b mod BPB = c mod BPB \<Longrightarrow> b = c"
  by (simp add: bmb_def) (metis mult_div_mod_eq)

lemma lrep_length: "lrep s V L K \<Longrightarrow> n < unat (disksize s) \<Longrightarrow> length (V n) = BSIZE"
  using brepD(11) by (auto simp: lrep_def)

lemma bm_homeD:
  assumes "bm_ok s V" and "b < unat (sb_size (sb s))"
  shows "home s (bmb (sb s) b)" and "\<not> used (sb s) V b \<Longrightarrow> home s b" and "\<not> used (sb s) V b \<Longrightarrow> b \<noteq> 0"
    and "\<not> used (sb s) V b \<Longrightarrow> c < unat (sb_size (sb s)) \<Longrightarrow> b \<noteq> bmb (sb s) c"
  using assms unfolding bm_ok_def by blast+

lemma used_alloc:
  assumes "lrep s V L K" and "bm_ok s V" and "b \<in> free_blocks s V" and "c < unat (sb_size (sb s))"
  shows "used (sb s) (alloc_blocks (sb s) b V) c \<longleftrightarrow> used (sb s) V c \<or> c = b"
proof -
  have b: "b < unat (sb_size (sb s))" "\<not> used (sb s) V b" using assms(3) by (auto simp: free_blocks_def)
  have len: "length (V (bmb (sb s) b)) = BSIZE" using lrep_length [OF assms(1)] bm_homeD(1) [OF assms(2) b(1)] by (simp add: home_def)
  have "bmb (sb s) c \<noteq> b" using bm_homeD(4) [OF assms(2) b assms(4)] by simp
  then show ?thesis
    using bit_set_mark [of "b mod BPB" "V (bmb (sb s) b)" "c mod BPB"] bm_bit [of b] len bmb_inj [of "sb s" c b]
    by (auto simp: used_def alloc_blocks_def)
qed

lemma used_free:
  assumes "lrep s V L K" and "bm_ok s V" and "b < unat (sb_size (sb s))"
  shows "used (sb s) (V(bmb (sb s) b := clear_bit (b mod BPB) (V (bmb (sb s) b)))) c \<longleftrightarrow> used (sb s) V c \<and> c \<noteq> b"
proof -
  have "length (V (bmb (sb s) b)) = BSIZE" using lrep_length [OF assms(1)] bm_homeD(1) [OF assms(2,3)] by (simp add: home_def)
  then show ?thesis
    using bit_set_clear [of "b mod BPB" "V (bmb (sb s) b)" "c mod BPB"] bm_bit [of b] bmb_inj [of "sb s" c b] by (auto simp: used_def)
qed

lemma bm_alloc:
  assumes "lrep s V L K" and "bm_ok s V" and "b \<in> free_blocks s V"
  shows "bm_ok s (alloc_blocks (sb s) b V)" and "free_blocks s (alloc_blocks (sb s) b V) = free_blocks s V - {b}"
proof -
  have b: "b < unat (sb_size (sb s))" "\<not> used (sb s) V b" using assms(3) by (auto simp: free_blocks_def)
  note U = used_alloc [OF assms]
  have "alloc_blocks (sb s) b V 1 = V 1"
    using bm_homeD(1,2) [OF assms(2) b(1)] b(2) by (auto simp: alloc_blocks_def home_def)
  moreover have "\<forall>c<unat (sb_size (sb s)). \<not> used (sb s) (alloc_blocks (sb s) b V) c \<longrightarrow> \<not> used (sb s) V c" using U by blast
  ultimately show "bm_ok s (alloc_blocks (sb s) b V)" using assms(2) unfolding bm_ok_def by metis
  show "free_blocks s (alloc_blocks (sb s) b V) = free_blocks s V - {b}" using U by (auto simp: free_blocks_def)
qed

lemma find_upt_Some: "find P [0..<n] = Some b \<Longrightarrow> b < n \<and> P b \<and> (\<forall>c<b. \<not> P c)"
  by (induction n) (auto simp: find_append less_Suc_eq split: option.splits if_splits simp: find_None_iff)

lemma find_upt_None: "find P [0..<n] = None \<longleftrightarrow> (\<forall>c<n. \<not> P c)"
  by (auto simp: find_None_iff)

lemma balloc_none: "find (\<lambda>b. \<not> used (sb s) V b) [0..<unat (sb_size (sb s))] = None \<longleftrightarrow> free_blocks s V = {}"
  by (auto simp: find_upt_None free_blocks_def)

lemma balloc_ret:
  assumes "lrep s V L K" and "bm_ok s V" and "room 2 s L K" and "clear_of_bm K s V" and "free_blocks s V \<noteq> {}"
  obtains b s' where "b \<in> free_blocks s V" and "\<forall>c\<in>free_blocks s V. b \<le> c" and "balloc 1 s = Ret (of_nat b, s')"
    and "lrep s' (alloc_blocks (sb s) b V) (logged b (logged (bmb (sb s) b) L)) K" and "same_trans s s'" and "kept K s s'"
proof -
  obtain b where b: "find (\<lambda>b. \<not> used (sb s) V b) [0..<unat (sb_size (sb s))] = Some b"
    using assms(5) balloc_none [of s V] by (cases "find (\<lambda>b. \<not> used (sb s) V b) [0..<unat (sb_size (sb s))]") auto
  then have "b \<in> free_blocks s V" "\<forall>c\<in>free_blocks s V. b \<le> c"
    using find_upt_Some [OF b] by (auto simp: free_blocks_def not_less [symmetric])
  then show thesis using balloc_ok [OF assms(1-4)] b that by auto
qed

section \<open>Properties\<close>

text \<open>
  C27: \<open>balloc\<close> panics exactly when the bitmap has no free block. Otherwise it returns the first free
  block, which is then in use and zeroed while every other block but that of the bitmap is as before,
  and \<open>bfree\<close> of the block succeeds and leaves the bitmap as it was before the allocation.
\<close>

theorem balloc_bfree:
  assumes "lrep s V L {}" and "bm_ok s V" and "room 3 s L {}" and "1 < unat (disksize s)"
  shows "if free_blocks s V = {} then balloc 1 s = Panic ''balloc: out of blocks''
    else \<exists>b s' V' L' s'' V'' L''. balloc 1 s = Ret (of_nat b, s') \<and> lrep s' V' L' {} \<and> b = Min (free_blocks s V) \<and> V' b = replicate BSIZE 0
      \<and> free_blocks s' V' = free_blocks s V - {b} \<and> (\<forall>n. n \<noteq> b \<and> n \<noteq> bmb (sb s) b \<longrightarrow> V' n = V n)
      \<and> bfree 1 (of_nat b) s' = Ret s'' \<and> lrep s'' V'' L'' {} \<and> free_blocks s'' V'' = free_blocks s V"
proof (cases "free_blocks s V = {}")
  case True
  then show ?thesis using balloc_ok [OF assms(1,2) room_mono [OF assms(3)]] balloc_none [of s V] by (simp add: clear_of_bm_def)
next
  case False
  obtain b s' where b: "b \<in> free_blocks s V" "\<forall>c\<in>free_blocks s V. b \<le> c" "balloc 1 s = Ret (of_nat b, s')"
    "lrep s' (alloc_blocks (sb s) b V) (logged b (logged (bmb (sb s) b) L)) {}" "same_trans s s'"
    by (rule balloc_ret [OF assms(1,2) room_mono [OF assms(3)] _ False]) (simp_all add: clear_of_bm_def)
  let ?V = "alloc_blocks (sb s) b V" and ?L = "logged b (logged (bmb (sb s) b) L)"
  note A = bm_alloc [OF assms(1,2) b(1)] and S = same_fs [OF b(5)]
  have n: "b < unat (sb_size (sb s'))" using b(1) S(1) by (simp add: free_blocks_def)
  have m: "bm_ok s' ?V" using A(1) bm_same [OF b(5)] by simp
  have "length ?L + 1 \<le> length L + 3" using logged_simps(3) [of b "logged (bmb (sb s) b) L"] logged_simps(3) [of "bmb (sb s) b" L] by linarith
  then have r: "room 1 s' ?L {}" by (rule room_same [OF assms(3) b(5)])
  have "used (sb s') ?V b" using used_alloc [OF assms(1,2) b(1)] b(1) S(1) by (simp add: free_blocks_def)
  then obtain s'' where f: "bfree 1 (of_nat b) s' = Ret s''" "lrep s'' (?V(bmb (sb s') b := clear_bit (b mod BPB) (?V (bmb (sb s') b)))) (logged (bmb (sb s') b) ?L) {}"
    "same_trans s' s''" using bfree_ok [OF b(4) m r n] assms(4) S(4) by auto
  have "free_blocks s'' (?V(bmb (sb s') b := clear_bit (b mod BPB) (?V (bmb (sb s') b)))) = free_blocks s V"
    using used_free [OF b(4) m n] same_fs(1) [OF f(3)] S(1) A(2) b(1) by (auto simp: free_blocks_def)
  moreover have "free_blocks s' ?V = free_blocks s V - {b}" using A(2) S(1) by (simp add: free_blocks_def)
  moreover have "b = Min (free_blocks s V)" using b(1,2) by (intro Min_eqI [symmetric]) (auto simp: free_blocks_def)
  moreover have "?V b = replicate BSIZE 0" "\<forall>n. n \<noteq> b \<and> n \<noteq> bmb (sb s) b \<longrightarrow> ?V n = V n" by (auto simp: alloc_blocks_def)
  ultimately show ?thesis using False b(3,4) f(1,2) by (simp only: if_False) blast
qed

end
