(* ===== verification/Fsfile.thy ===== *)
theory Fsfile
  imports Fsalloc
begin

text \<open>
  The contents of a file: \<open>bmap\<close> finds or allocates the block of a file position, \<open>readi\<close> returns the
  bytes of the file and \<open>writei\<close> replaces and extends them.
\<close>

section \<open>Inode updates\<close>

lemma updi_fields [simp]:
  "sb (updi ip f s) = sb s" "cwd (updi ip f s) = cwd s" "inodes (updi ip f s) = (inodes s)(ip := f (inodes s ip))"
  "bufs (updi ip f s) = bufs s" "memdisk (updi ip f s) = memdisk s" "disksize (updi ip f s) = disksize s" "outstanding (updi ip f s) = outstanding s"
  "lg_start (updi ip f s) = lg_start s" "lg_size (updi ip f s) = lg_size s" "committing (updi ip f s) = committing s" "quiet (updi ip f s) = quiet s"
  by (simp_all add: updi_def quiet_def)

lemma updi_reps [simp]:
  "lrep (updi ip f s) V L K = lrep s V L K" "home (updi ip f s) n = home s n" "room n (updi ip f s) L K = room n s L K"
  "bm_ok (updi ip f s) V = bm_ok s V" "free_blocks (updi ip f s) V = free_blocks s V" "cached (updi ip f s) i n = cached s i n"
proof -
  show "lrep (updi ip f s) V L K = lrep s V L K" by (rule lrep_cong) (simp_all add: updi_def quiet_def)
  show "home (updi ip f s) n = home s n" by (simp add: home_def loga_def)
  then have "home (updi ip f s) m = home s m" for m by (simp add: home_def loga_def)
  then show "bm_ok (updi ip f s) V = bm_ok s V" by (simp add: bm_ok_def)
qed (simp_all add: room_def free_blocks_def cached_def)

abbreviation addrs :: "'a fsst_scheme \<Rightarrow> nat \<Rightarrow> u32 list" where
  "addrs s ip \<equiv> di_addrs (di (inodes s ip))"

definition set_addrs :: "nat \<Rightarrow> u32 list \<Rightarrow> 'a fsst_scheme \<Rightarrow> 'a fsst_scheme" where
  "set_addrs ip al s = updi ip (\<lambda>x. x\<lparr>di := (di x)\<lparr>di_addrs := al\<rparr>\<rparr>) s"

lemma set_addr_addrs: "set_addr ip k a s = set_addrs ip ((addrs s ip)[k := a]) s"
  by (simp add: set_addr_def set_addrs_def updi_def)

lemma same_updi: "same_trans s s' \<Longrightarrow> same_trans (updi ip f s) (updi ip f s')"
  using fsst_more [of s' s] by (cases s rule: fsst.cases_scheme; cases s' rule: fsst.cases_scheme) (simp add: same_trans_def updi_def)

section \<open>The blocks of a file\<close>

definition fblk :: "u32 list \<Rightarrow> (nat \<Rightarrow> u8 list) \<Rightarrow> nat \<Rightarrow> nat" where
  "fblk a V bn = (if bn < NDIRECT then unat (a ! bn)
     else if a ! NDIRECT = 0 then 0 else unat (get4 (V (unat (a ! NDIRECT))) (4 * (bn - NDIRECT))))"

text \<open>A block in use that holds data: it is not one of the bitmap.\<close>

definition data :: "'a fsst_scheme \<Rightarrow> (nat \<Rightarrow> u8 list) \<Rightarrow> nat \<Rightarrow> bool" where
  "data s V n \<longleftrightarrow> n < unat (sb_size (sb s)) \<and> n \<noteq> 0 \<and> used (sb s) V n \<and> home s n \<and> (\<forall>c<unat (sb_size (sb s)). n \<noteq> bmb (sb s) c)"

definition iblk :: "'a fsst_scheme \<Rightarrow> nat \<Rightarrow> nat" where
  "iblk s ip = unat (IBLOCK (i_inum (inodes s ip)) (sb s))"

text \<open>The blocks of the file, the indirect block and the block of the inode are distinct data blocks.\<close>

definition own :: "u32 list \<Rightarrow> (nat \<Rightarrow> u8 list) \<Rightarrow> nat \<Rightarrow> nat \<Rightarrow> nat" where
  "own a V ib k = (if k < MAXFILE then fblk a V k else if k = MAXFILE then unat (a ! NDIRECT) else ib)"

definition file_ok :: "'a fsst_scheme \<Rightarrow> (nat \<Rightarrow> u8 list) \<Rightarrow> nat \<Rightarrow> bool" where
  "file_ok s V ip \<longleftrightarrow> length (addrs s ip) = NDIRECT + 1 \<and> i_dev (inodes s ip) = 1 \<and>
     (let w = own (addrs s ip) V (iblk s ip) in
      (\<forall>j\<le>MAXFILE + 1. w j \<noteq> 0 \<longrightarrow> data s V (w j) \<and> (\<forall>k\<le>MAXFILE + 1. k \<noteq> j \<longrightarrow> w k \<noteq> w j)) \<and> w (MAXFILE + 1) \<noteq> 0)"

lemma fs_consts: "NDIRECT = 10" "NINDIRECT = 128" "MAXFILE = 138" "BSIZE = 512"
  by (simp_all add: NDIRECT_def NINDIRECT_def MAXFILE_def BSIZE_def)

lemma data_alloc:
  assumes "lrep s V L K" and "bm_ok s V" and "b \<in> free_blocks s V" and "data s V n"
  shows "data s (alloc_blocks (sb s) b V) n" and "alloc_blocks (sb s) b V n = V n" and "n \<noteq> b"
proof -
  have b: "b < unat (sb_size (sb s))" "\<not> used (sb s) V b" using assms(3) by (auto simp: free_blocks_def)
  then show n: "n \<noteq> b" using assms(4) by (auto simp: data_def)
  then show "alloc_blocks (sb s) b V n = V n" using assms(4) b(1) by (auto simp: alloc_blocks_def data_def)
  show "data s (alloc_blocks (sb s) b V) n" using assms(4) used_alloc [OF assms(1-3)] by (simp add: data_def)
qed

lemma data_new:
  assumes "lrep s V L K" and "bm_ok s V" and "b \<in> free_blocks s V"
  shows "data s (alloc_blocks (sb s) b V) b" and "alloc_blocks (sb s) b V b = replicate BSIZE 0"
proof -
  have b: "b < unat (sb_size (sb s))" "\<not> used (sb s) V b" using assms(3) by (auto simp: free_blocks_def)
  show "data s (alloc_blocks (sb s) b V) b" using used_alloc [OF assms b(1)] bm_homeD(2-4) [OF assms(2) b(1)] b by (simp add: data_def)
  show "alloc_blocks (sb s) b V b = replicate BSIZE 0" by (simp add: alloc_blocks_def)
qed

text \<open>A file stays in order when one of its missing blocks is filled in.\<close>

lemma file_ok_fill:
  assumes f: "file_ok s V ip" and d: "\<And>n. data s V n \<Longrightarrow> data s' V' n \<and> n \<noteq> b" and b: "data s' V' b"
    and s': "length (addrs s' ip) = NDIRECT + 1" "i_dev (inodes s' ip) = 1" "iblk s' ip = iblk s ip"
    and k: "k \<le> MAXFILE" "own (addrs s ip) V (iblk s ip) k = 0" "own (addrs s' ip) V' (iblk s ip) k = b"
    and o: "\<And>j. j \<le> MAXFILE + 1 \<Longrightarrow> j \<noteq> k \<Longrightarrow> own (addrs s' ip) V' (iblk s ip) j = own (addrs s ip) V (iblk s ip) j"
  shows "file_ok s' V' ip"
proof -
  let ?w = "own (addrs s ip) V (iblk s ip)" and ?w' = "own (addrs s' ip) V' (iblk s ip)"
  have w: "\<And>j. j \<le> MAXFILE + 1 \<Longrightarrow> ?w j \<noteq> 0 \<Longrightarrow> data s V (?w j) \<and> (\<forall>i\<le>MAXFILE + 1. i \<noteq> j \<longrightarrow> ?w i \<noteq> ?w j)" "?w (MAXFILE + 1) \<noteq> 0"
    using f by (auto simp: file_ok_def Let_def)
  have "data s' V' (?w' j) \<and> (\<forall>i\<le>MAXFILE + 1. i \<noteq> j \<longrightarrow> ?w' i \<noteq> ?w' j)" if j: "j \<le> MAXFILE + 1" "?w' j \<noteq> 0" for j
  proof (cases "j = k")
    case True
    have "?w' i \<noteq> b" if "i \<le> MAXFILE + 1" "i \<noteq> k" for i
      using o [OF that] w(1) [OF that(1)] d b by (cases "?w i = 0") (auto simp: data_def)
    then show ?thesis using True k(3) b by auto
  next
    case False
    have e: "?w' j = ?w j" "?w j \<noteq> 0" using o [OF j(1) False] j(2) by simp_all
    have D: "data s V (?w j)" "\<And>i. i \<le> MAXFILE + 1 \<Longrightarrow> i \<noteq> j \<Longrightarrow> ?w i \<noteq> ?w j" using w(1) [OF j(1) e(2)] by auto
    have "?w' i \<noteq> ?w j" if "i \<le> MAXFILE + 1" "i \<noteq> j" for i
      using D(2) [OF that] o [OF that(1)] k(3) d [OF D(1)] by (cases "i = k") auto
    then show ?thesis using e d [OF D(1)] by auto
  qed
  then show ?thesis using s' w(2) o [of "MAXFILE + 1"] k(1) by (auto simp: file_ok_def Let_def)
qed

lemma file_okD:
  assumes "file_ok s V ip"
  shows "length (addrs s ip) = NDIRECT + 1" and "i_dev (inodes s ip) = 1"
    and "bn < MAXFILE \<Longrightarrow> fblk (addrs s ip) V bn \<noteq> 0 \<Longrightarrow> data s V (fblk (addrs s ip) V bn)"
    and "addrs s ip ! NDIRECT \<noteq> 0 \<Longrightarrow> data s V (unat (addrs s ip ! NDIRECT))"
    and "bn < MAXFILE \<Longrightarrow> fblk (addrs s ip) V bn \<noteq> 0 \<Longrightarrow> fblk (addrs s ip) V bn \<noteq> unat (addrs s ip ! NDIRECT)"
    and "bn < MAXFILE \<Longrightarrow> fblk (addrs s ip) V bn \<noteq> 0 \<Longrightarrow> fblk (addrs s ip) V bn \<noteq> iblk s ip"
    and "j < MAXFILE \<Longrightarrow> bn < MAXFILE \<Longrightarrow> j \<noteq> bn \<Longrightarrow> fblk (addrs s ip) V bn \<noteq> 0 \<Longrightarrow> fblk (addrs s ip) V j \<noteq> fblk (addrs s ip) V bn"
    and "data s V (iblk s ip)" and "addrs s ip ! NDIRECT \<noteq> 0 \<Longrightarrow> unat (addrs s ip ! NDIRECT) \<noteq> iblk s ip"
proof -
  let ?w = "own (addrs s ip) V (iblk s ip)"
  have w: "\<And>j. j \<le> MAXFILE + 1 \<Longrightarrow> ?w j \<noteq> 0 \<Longrightarrow> data s V (?w j)" "\<And>j i. j \<le> MAXFILE + 1 \<Longrightarrow> ?w j \<noteq> 0 \<Longrightarrow> i \<le> MAXFILE + 1 \<Longrightarrow> i \<noteq> j \<Longrightarrow> ?w i \<noteq> ?w j"
    "?w (MAXFILE + 1) \<noteq> 0"
    using assms by (auto simp: file_ok_def Let_def)
  have W: "\<And>k. k < MAXFILE \<Longrightarrow> ?w k = fblk (addrs s ip) V k" "?w MAXFILE = unat (addrs s ip ! NDIRECT)" "?w (MAXFILE + 1) = iblk s ip" by (simp_all add: own_def)
  have z: "unat (addrs s ip ! NDIRECT) \<noteq> 0 \<longleftrightarrow> addrs s ip ! NDIRECT \<noteq> 0" by (simp add: unat_eq_0)
  show "length (addrs s ip) = NDIRECT + 1" "i_dev (inodes s ip) = 1" using assms by (simp_all add: file_ok_def)
  show "bn < MAXFILE \<Longrightarrow> fblk (addrs s ip) V bn \<noteq> 0 \<Longrightarrow> data s V (fblk (addrs s ip) V bn)" using w(1) [of bn] W(1) [of bn] by simp
  show "addrs s ip ! NDIRECT \<noteq> 0 \<Longrightarrow> data s V (unat (addrs s ip ! NDIRECT))" using w(1) [of MAXFILE] W(2) z by simp
  show "bn < MAXFILE \<Longrightarrow> fblk (addrs s ip) V bn \<noteq> 0 \<Longrightarrow> fblk (addrs s ip) V bn \<noteq> unat (addrs s ip ! NDIRECT)" using w(2) [of bn MAXFILE] W by simp
  show "bn < MAXFILE \<Longrightarrow> fblk (addrs s ip) V bn \<noteq> 0 \<Longrightarrow> fblk (addrs s ip) V bn \<noteq> iblk s ip" using w(2) [of bn "MAXFILE + 1"] W by simp
  show "j < MAXFILE \<Longrightarrow> bn < MAXFILE \<Longrightarrow> j \<noteq> bn \<Longrightarrow> fblk (addrs s ip) V bn \<noteq> 0 \<Longrightarrow> fblk (addrs s ip) V j \<noteq> fblk (addrs s ip) V bn"
    using w(2) [of bn j] W by simp
  show "data s V (iblk s ip)" using w(1) [of "MAXFILE + 1"] w(3) W by simp
  show "addrs s ip ! NDIRECT \<noteq> 0 \<Longrightarrow> unat (addrs s ip ! NDIRECT) \<noteq> iblk s ip" using w(2) [of MAXFILE "MAXFILE + 1"] W z by simp
qed

section \<open>Allocating blocks of a file\<close>

text \<open>What a step that only adds blocks to the file keeps.\<close>

definition ext :: "nat \<Rightarrow> 'a fsst_scheme \<Rightarrow> (nat \<Rightarrow> u8 list) \<Rightarrow> 'a fsst_scheme \<Rightarrow> (nat \<Rightarrow> u8 list) \<Rightarrow> nat list \<Rightarrow> bool" where
  "ext ip s V s' V' L' \<longleftrightarrow> lrep s' V' L' {} \<and> bm_ok s' V' \<and> file_ok s' V' ip \<and> (\<exists>al. same_trans (set_addrs ip al s) s')
     \<and> (\<forall>n. data s V n \<longrightarrow> data s' V' n)"

lemma set_addrs_fields [simp]:
  "sb (set_addrs ip al s) = sb s" "cwd (set_addrs ip al s) = cwd s" "addrs (set_addrs ip al s) ip = al" "i_inum (inodes (set_addrs ip al s) p) = i_inum (inodes s p)"
  "i_dev (inodes (set_addrs ip al s) p) = i_dev (inodes s p)" "i_flags (inodes (set_addrs ip al s) p) = i_flags (inodes s p)"
  "i_ref (inodes (set_addrs ip al s) p) = i_ref (inodes s p)" "di_size (di (inodes (set_addrs ip al s) p)) = di_size (di (inodes s p))"
  "di_type (di (inodes (set_addrs ip al s) p)) = di_type (di (inodes s p))" "p \<noteq> ip \<Longrightarrow> inodes (set_addrs ip al s) p = inodes s p"
  "set_addrs ip al (set_addrs ip bl s) = set_addrs ip al s" "disksize (set_addrs ip al s) = disksize s"
  "room n (set_addrs ip al s) L K = room n s L K" "home (set_addrs ip al s) n = home s n" "iblk (set_addrs ip al s) ip = iblk s ip"
  by (simp_all add: set_addrs_def iblk_def) (simp add: updi_def)

lemma set_addrs_same: "set_addrs ip (addrs s ip) s = s"
  by (simp add: set_addrs_def updi_def)

lemma same_set_addrs: "same_trans s s' \<Longrightarrow> same_trans (set_addrs ip al s) (set_addrs ip al s')"
  unfolding set_addrs_def by (rule same_updi)

lemma ext_refl: "lrep s V L {} \<Longrightarrow> bm_ok s V \<Longrightarrow> file_ok s V ip \<Longrightarrow> ext ip s V s V L"
  using set_addrs_same [of ip s] same_trans_refl [of s] by (auto simp: ext_def intro: exI [of _ "addrs s ip"])

lemma ext_trans:
  assumes "ext ip s V s1 V1 L1" and "ext ip s1 V1 s2 V2 L2"
  shows "ext ip s V s2 V2 L2"
proof -
  obtain al bl where "same_trans (set_addrs ip al s) s1" "same_trans (set_addrs ip bl s1) s2" using assms by (auto simp: ext_def)
  then have "same_trans (set_addrs ip bl s) s2" using same_set_addrs [of "set_addrs ip al s" s1 ip bl] same_trans_trans by simp blast
  then show ?thesis using assms by (auto simp: ext_def)
qed

lemma data_same: "same_trans s s' \<Longrightarrow> data s' V n = data s V n"
  using same_fs [of s s'] home_same(1) [of s s'] by (simp add: data_def)

lemma data_set_addrs [simp]: "data (set_addrs ip al s) V n = data s V n" "bm_ok (set_addrs ip al s) V = bm_ok s V" "free_blocks (set_addrs ip al s) V = free_blocks s V"
  "lrep (set_addrs ip al s) V L K = lrep s V L K"
  by (simp_all add: data_def set_addrs_def)

lemma fblk_set_direct:
  "k < NDIRECT \<Longrightarrow> length a = NDIRECT + 1 \<Longrightarrow> V' (unat (a ! NDIRECT)) = V (unat (a ! NDIRECT)) \<or> a ! NDIRECT = 0 \<Longrightarrow>
    fblk (a[k := b]) V' j = (if j = k then unat b else fblk a V j)"
  by (auto simp: fblk_def nth_list_update)

lemma fblk_set_indirect:
  "length a = NDIRECT + 1 \<Longrightarrow> a ! NDIRECT = 0 \<Longrightarrow> V' (unat b) = replicate BSIZE 0 \<Longrightarrow> j < MAXFILE \<Longrightarrow> fblk (a[NDIRECT := b]) V' j = fblk a V j"
  by (auto simp: fblk_def nth_list_update get4_zero fs_consts)

lemma alloc_slot:
  assumes l: "lrep s V L {}" and m: "bm_ok s V" and f: "file_ok s V ip" and r: "room 2 s L {}" and n: "free_blocks s V \<noteq> {}"
    and k: "k \<le> NDIRECT" "addrs s ip ! k = 0"
  obtains b s1 where "balloc 1 s = Ret (of_nat b, s1)" and "b \<in> free_blocks s V" and "same_trans s s1"
    and "ext ip s V (set_addr ip k (of_nat b) s1) (alloc_blocks (sb s) b V) (logged b (logged (bmb (sb s) b) L))"
    and "\<forall>j<MAXFILE. j \<noteq> k \<or> k = NDIRECT \<longrightarrow> fblk ((addrs s ip)[k := of_nat b]) (alloc_blocks (sb s) b V) j = fblk (addrs s ip) V j"
    and "unat (of_nat b :: u32) = b" and "b \<noteq> 0"
proof -
  obtain b s1 where b: "b \<in> free_blocks s V" "balloc 1 s = Ret (of_nat b, s1)" "lrep s1 (alloc_blocks (sb s) b V) (logged b (logged (bmb (sb s) b) L)) {}" "same_trans s s1"
    by (rule balloc_ret [OF l m r _ n]) (simp add: clear_of_bm_def)
  let ?V = "alloc_blocks (sb s) b V" and ?a = "(addrs s ip)[k := of_nat b]"
  have bN: "b < unat (sb_size (sb s))" using b(1) by (simp add: free_blocks_def)
  then have u: "unat (of_nat b :: u32) = b" using unat_u32 [of "sb_size (sb s)"] by (simp add: unat_of_nat take_bit_nat_eq_self)
  note D = data_new [OF l m b(1)] data_alloc [OF l m b(1)] and F = file_okD [OF f]
  have b0: "b \<noteq> 0" using D(1) by (simp add: data_def)
  have st: "set_addr ip k (of_nat b) s1 = set_addrs ip ?a s1" using same_fs(2) [OF b(4)] by (simp add: set_addr_addrs)
  have sm: "same_trans (set_addrs ip ?a s) (set_addrs ip ?a s1)" by (rule same_set_addrs [OF b(4)])
  have ind: "?V (unat (addrs s ip ! NDIRECT)) = V (unat (addrs s ip ! NDIRECT)) \<or> addrs s ip ! NDIRECT = 0" using F(4) D(4) by auto
  have fb: "\<forall>j<MAXFILE. j \<noteq> k \<or> k = NDIRECT \<longrightarrow> fblk ?a ?V j = fblk (addrs s ip) V j"
    using fblk_set_direct [of k "addrs s ip" ?V V "of_nat b"] fblk_set_indirect [of "addrs s ip" ?V "of_nat b" _ V] ind F(1) k D(2) u
    by (cases "k = NDIRECT") auto
  let ?w = "own (addrs s ip) V (iblk s ip)" and ?w' = "own ?a ?V (iblk s ip)" and ?k = "if k = NDIRECT then MAXFILE else k"
  have w: "?k \<le> MAXFILE" "?w ?k = 0" "?w' ?k = b" using k u F(1) by (auto simp: own_def fblk_def fs_consts)
  have wo: "?w' j = ?w j" if "j \<le> MAXFILE + 1" "j \<noteq> ?k" for j
    using that fb k F(1) by (auto simp: own_def fs_consts split: if_splits)
  have "file_ok (set_addrs ip ?a s1) ?V ip"
    by (rule file_ok_fill [OF f, where b = b and k = ?k])
      (use D F w wo same_fs [OF b(4)] data_same [OF b(4)] in \<open>auto simp: iblk_def\<close>)
  then have "ext ip s V (set_addrs ip ?a s1) ?V (logged b (logged (bmb (sb s) b) L))"
    using b(3) sm bm_alloc(1) [OF l m b(1)] bm_same [OF b(4)] D(3) data_same [OF b(4)] by (auto simp: ext_def)
  with st show thesis using that [OF b(2,1,4)] fb u b0 by simp
qed

text \<open>Changing a data block leaves the bitmap alone.\<close>

lemma data_write:
  assumes "data s V m"
  shows "data s (V(m := d)) n = data s V n" and "bm_ok s (V(m := d)) = bm_ok s V" and "free_blocks s (V(m := d)) = free_blocks s V"
proof -
  have m: "\<forall>c<unat (sb_size (sb s)). m \<noteq> bmb (sb s) c" "m \<noteq> 1" using assms by (simp_all add: data_def home_def)
  have u: "used (sb s) (V(m := d)) c = used (sb s) V c" if "c < unat (sb_size (sb s))" for c using that m(1) by (auto simp: used_def)
  show "data s (V(m := d)) n = data s V n" using u by (auto simp: data_def)
  show "free_blocks s (V(m := d)) = free_blocks s V" using u by (auto simp: free_blocks_def)
  show "bm_ok s (V(m := d)) = bm_ok s V" using u m(2) unfolding bm_ok_def by auto
qed

lemma bmap_indirect:
  assumes l: "lrep s V L {}" and f: "file_ok s V ip" and r: "room 1 s L {}"
    and n: "NDIRECT \<le> bn" "bn < MAXFILE" "addrs s ip ! NDIRECT \<noteq> 0"
  obtains i s1 where "bread 1 (addrs s ip ! NDIRECT) s = Ret (i, s1)" and "lrep s1 V L {i}" and "same_trans s s1"
    and "cached s1 i (unat (addrs s ip ! NDIRECT))" and "bdata (bufs s1 (Buf i)) = V (unat (addrs s ip ! NDIRECT))"
    and "bmap ip bn s = (let addr = get4 (V (unat (addrs s ip ! NDIRECT))) (4 * (bn - NDIRECT)) in
        bindr
          (if addr = 0
           then bindr (balloc 1 s1) (\<lambda>(addr, s).
                bindr (log_write i (set_bdata i (put4 (4 * (bn - NDIRECT)) addr (bdata (bufs s (Buf i)))) s)) (\<lambda>s.
                Ret (addr, s)))
           else Ret (addr, s1))
          (\<lambda>(addr, s). bindr (brelse i s) (\<lambda>s. Ret (addr, s))))"
proof -
  let ?n = "unat (addrs s ip ! NDIRECT)"
  note F = file_okD [OF f]
  have d: "data s V ?n" "?n < unat (disksize s)" using F(4) [OF n(3)] by (auto simp: data_def home_def)
  obtain i s1 where b: "bread 1 (addrs s ip ! NDIRECT) s = Ret (i, s1)" "lrep s1 V L {i}" "same_trans s s1" "cached s1 i ?n" "bdata (bufs s1 (Buf i)) = V ?n"
    using bread_lrep [OF l d(2)] room_put [OF r] by auto
  have e: "i_dev (inodes s1 ip) = 1" "bn - NDIRECT < NINDIRECT" "\<not> bn < NDIRECT" using same_fs(2) [OF b(3)] F(2) n by (auto simp: MAXFILE_def)
  show thesis by (rule that [OF b]) (use e n(3) b(1,5) F(2) in \<open>simp add: bmap_def get_addr_def Let_def\<close>)
qed

lemma bmap_have:
  assumes l: "lrep s V L {}" and f: "file_ok s V ip" and r: "room 1 s L {}" and n: "bn < MAXFILE" "fblk (addrs s ip) V bn \<noteq> 0"
  obtains s' where "bmap ip bn s = Ret (of_nat (fblk (addrs s ip) V bn), s')" and "lrep s' V L {}" and "same_trans s s'"
proof (cases "bn < NDIRECT")
  case True
  then have "bmap ip bn s = Ret (of_nat (fblk (addrs s ip) V bn), s)" using n(2) by (auto simp: bmap_def get_addr_def fblk_def Let_def)
  then show thesis using that l same_trans_refl by blast
next
  case False
  then have i: "NDIRECT \<le> bn" "addrs s ip ! NDIRECT \<noteq> 0" using n(2) by (auto simp: fblk_def split: if_splits)
  then have g: "get4 (V (unat (addrs s ip ! NDIRECT))) (4 * (bn - NDIRECT)) = of_nat (fblk (addrs s ip) V bn)" by (simp add: fblk_def)
  then have z: "get4 (V (unat (addrs s ip ! NDIRECT))) (4 * (bn - NDIRECT)) \<noteq> 0" using n(2) i by (auto simp: fblk_def)
  obtain j s1 where b: "lrep s1 V L {j}" "same_trans s s1" and e: "bmap ip bn s = bindr (Ret (get4 (V (unat (addrs s ip ! NDIRECT))) (4 * (bn - NDIRECT)), s1))
     (\<lambda>(addr, s). bindr (brelse j s) (\<lambda>s. Ret (addr, s)))"
    by (rule bmap_indirect [OF l f r i(1) n(1) i(2)]) (use z in \<open>simp add: Let_def\<close>)
  obtain s2 where "brelse j s1 = Ret s2" "lrep s2 V L ({j} - {j})" "same_trans s1 s2" using brelse_lrep [OF b(1)] by auto
  then show thesis using that [of s2] e g same_trans_trans [OF b(2)] by simp
qed

text \<open>What \<open>bmap\<close> does: block \<open>bn\<close> is there afterwards, new ones are zeroed, and nothing else changes.\<close>

definition bmapped :: "nat \<Rightarrow> nat \<Rightarrow> 'a fsst_scheme \<Rightarrow> (nat \<Rightarrow> u8 list) \<Rightarrow> nat list \<Rightarrow> 'a fsst_scheme \<Rightarrow> (nat \<Rightarrow> u8 list) \<Rightarrow> nat list \<Rightarrow> nat \<Rightarrow> bool" where
  "bmapped ip bn s V L s' V' L' m \<longleftrightarrow> ext ip s V s' V' L' \<and> fblk (addrs s' ip) V' bn \<noteq> 0
     \<and> (\<forall>k<MAXFILE. k \<noteq> bn \<or> fblk (addrs s ip) V bn \<noteq> 0 \<longrightarrow> fblk (addrs s' ip) V' k = fblk (addrs s ip) V k)
     \<and> (fblk (addrs s ip) V bn = 0 \<longrightarrow> V' (fblk (addrs s' ip) V' bn) = replicate BSIZE 0)
     \<and> (\<forall>n. data s V n \<and> n \<noteq> unat (addrs s ip ! NDIRECT) \<longrightarrow> V' n = V n)
     \<and> card (free_blocks s V) \<le> card (free_blocks s' V') + m \<and> length L' \<le> length L + 2 * m + 1"

lemma room_held: "room (Suc n) s L {} \<Longrightarrow> room n s L {i}"
  by (simp add: room_def)

lemma clear_data:
  assumes "data s V n" and "cached s i n"
  shows "clear_of_bm {i} s V"
  using assms(1) cached_fun [OF assms(2)] unfolding clear_of_bm_def data_def by blast

lemma card_alloc:
  assumes "lrep s V L K" and "bm_ok s V" and "b \<in> free_blocks s V"
  shows "card (free_blocks s V) = card (free_blocks s (alloc_blocks (sb s) b V)) + 1"
proof -
  have "finite (free_blocks s V)" by (simp add: free_blocks_def)
  then show ?thesis using card.remove [OF _ assms(3)] bm_alloc(2) [OF assms] by simp
qed

lemma fblk_entry:
  assumes "\<not> bn < NDIRECT" and "bn < MAXFILE" and "j < MAXFILE" and "a ! NDIRECT \<noteq> 0" and "length (V (unat (a ! NDIRECT))) = BSIZE"
  shows "fblk a (V(unat (a ! NDIRECT) := put4 (4 * (bn - NDIRECT)) w (V (unat (a ! NDIRECT))))) j = (if j = bn then unat w else fblk a V j)"
proof -
  have "4 * (j - NDIRECT) + 4 \<le> 4 * (bn - NDIRECT) \<or> 4 * (bn - NDIRECT) + 4 \<le> 4 * (j - NDIRECT)" if "j \<noteq> bn" "\<not> j < NDIRECT"
    using that assms(1) by (auto simp: fs_consts)
  then show ?thesis using assms by (auto simp: fblk_def fs_consts get_put_other(1))
qed

lemma bmap_entry:
  assumes l: "lrep s V L {}" and m: "bm_ok s V" and f: "file_ok s V ip" and r: "room 3 s L {}" and fr: "free_blocks s V \<noteq> {}"
    and n: "\<not> bn < NDIRECT" "bn < MAXFILE" "addrs s ip ! NDIRECT \<noteq> 0" "fblk (addrs s ip) V bn = 0"
  shows "\<exists>s' V' L'. bmap ip bn s = Ret (of_nat (fblk (addrs s' ip) V' bn), s') \<and> bmapped ip bn s V L s' V' L' 1"
proof -
  let ?n = "unat (addrs s ip ! NDIRECT)" and ?o = "4 * (bn - NDIRECT)"
  note F = file_okD [OF f]
  have z: "get4 (V ?n) ?o = 0" using n by (simp add: fblk_def unat_eq_0)
  obtain i s1 where b: "lrep s1 V L {i}" "same_trans s s1" "cached s1 i ?n" "bdata (bufs s1 (Buf i)) = V ?n" and e: "bmap ip bn s =
      bindr (bindr (balloc 1 s1) (\<lambda>(addr, s). bindr (log_write i (set_bdata i (put4 ?o addr (bdata (bufs s (Buf i)))) s)) (\<lambda>s. Ret (addr, s))))
        (\<lambda>(addr, s). bindr (brelse i s) (\<lambda>s. Ret (addr, s)))"
    by (rule bmap_indirect [OF l f room_mono [OF r] _ n(2,3)]) (use n(1) z in \<open>simp_all add: Let_def\<close>)
  have d: "data s1 V ?n" using F(4) [OF n(3)] data_same [OF b(2)] by simp
  have "room 2 s L {i}" using room_held [of 2 s L i] r by simp
  then have s1: "bm_ok s1 V" "room 2 s1 L {i}" "free_blocks s1 V \<noteq> {}" "sb s1 = sb s"
    using m bm_same [OF b(2)] room_same [OF _ b(2), of 2 L "{i}" L 2] fr same_fs(1) [OF b(2)] by (auto simp: free_blocks_def)
  obtain a s2 where a: "a \<in> free_blocks s1 V" "balloc 1 s1 = Ret (of_nat a, s2)" "lrep s2 (alloc_blocks (sb s1) a V) (logged a (logged (bmb (sb s1) a) L)) {i}"
    "same_trans s1 s2" "kept {i} s1 s2"
    by (rule balloc_ret [OF b(1) s1(1,2) clear_data [OF d b(3)] s1(3)])
  let ?V = "alloc_blocks (sb s1) a V" and ?L = "logged a (logged (bmb (sb s1) a) L)"
  note A = data_alloc [OF b(1) s1(1) a(1)] and N = data_new [OF b(1) s1(1) a(1)]
  have k: "cached s2 i ?n" "bdata (bufs s2 (Buf i)) = V ?n" using a(5) b(3,4) by (simp_all add: kept_def)
  have hd: "home s2 ?n" "length (V ?n) = BSIZE" using d home_same(1) [OF a(4)] lrep_length [OF b(1)] by (auto simp: data_def home_def)
  have len: "length ?L \<le> length L + 2" using logged_simps(3) [of a "logged (bmb (sb s1) a) L"] logged_simps(3) [of "bmb (sb s1) a" L] by linarith
  have "room 1 s2 ?L {}" by (rule room_same [OF r same_trans_trans [OF b(2) a(4)]]) (use len in simp)
  note R = room_put [OF this]
  have o4: "?o + 4 \<le> BSIZE" using n by (auto simp: fs_consts)
  obtain s3 where w: "log_write i (set_bdata i (put4 ?o (of_nat a) (V ?n)) s2) = Ret s3" "lrep s3 (?V(?n := put4 ?o (of_nat a) (V ?n))) (logged ?n ?L) {i}" "same_trans s2 s3"
    using log_write_ok [OF a(3) _ k(1) hd(1), of "put4 ?o (of_nat a) (V ?n)"] R hd(2) o4 by auto
  obtain s4 where p: "brelse i s3 = Ret s4" "lrep s4 (?V(?n := put4 ?o (of_nat a) (V ?n))) (logged ?n ?L) {}" "same_trans s3 s4"
    using brelse_lrep [OF w(2)] by auto
  let ?W = "?V(?n := put4 ?o (of_nat a) (V ?n))"
  have S: "same_trans s s4" by (meson b(2) a(4) w(3) p(3) same_trans_trans)
  have aN: "a < unat (sb_size (sb s))" "a \<noteq> ?n" using a(1) s1(4) A(3) [OF d] by (simp_all add: free_blocks_def)
  have u: "unat (of_nat a :: u32) = a" using aN(1) unat_u32 [of "sb_size (sb s)"] by (simp add: unat_of_nat take_bit_nat_eq_self)
  have Vn: "?V ?n = V ?n" by (rule A(2) [OF d])
  have fb: "fblk (addrs s ip) ?W j = (if j = bn then a else fblk (addrs s ip) V j)" if "j < MAXFILE" for j
  proof -
    have "fblk (addrs s ip) ?V j = fblk (addrs s ip) V j" using Vn by (simp add: fblk_def)
    then show ?thesis using fblk_entry [OF n(1,2) that n(3), of ?V "of_nat a"] Vn hd(2) u by simp
  qed
  have dW: "data s ?W x = data s ?V x" "bm_ok s ?W = bm_ok s ?V" "free_blocks s ?W = free_blocks s ?V" for x
    using data_write [of s ?V ?n] A(1) [OF d] data_same [OF b(2)] by auto
  have Dall: "data s V x \<Longrightarrow> data s ?W x \<and> x \<noteq> a" "data s ?W a" for x using A(1,3) N(1) dW(1) data_same [OF b(2)] by auto
  have "file_ok s4 ?W ip"
  proof (rule file_ok_fill [OF f, where b = a and k = bn])
    show "own (addrs s4 ip) ?W (iblk s ip) j = own (addrs s ip) V (iblk s ip) j" if "j \<le> MAXFILE + 1" "j \<noteq> bn" for j
      using that fb [of j] same_fs(2) [OF S] by (auto simp: own_def)
  qed (use Dall data_same [OF S] F(1,2) same_fs [OF S] n fb [of bn] in \<open>auto simp: iblk_def own_def\<close>)
  moreover have "bm_ok s4 ?W" using bm_same [OF S] dW(2) bm_alloc(1) [OF b(1) s1(1) a(1)] bm_same [OF b(2)] by simp
  ultimately have X: "ext ip s V s4 ?W (logged ?n ?L)"
    using p(2) Dall(1) data_same [OF S] S set_addrs_same [of ip s] by (auto simp: ext_def intro!: exI [of _ "addrs s ip"])
  have same: "addrs s4 ip = addrs s ip" using same_fs(2) [OF S] by simp
  have "card (free_blocks s V) \<le> card (free_blocks s4 ?W) + 1"
    using card_alloc [OF b(1) s1(1) a(1)] dW(3) same_fs(1) [OF b(2)] same_fs(1) [OF S] by (simp add: free_blocks_def)
  moreover have "?W x = V x" if "data s V x" "x \<noteq> ?n" for x using that A(2) data_same [OF b(2)] by simp
  moreover have "bmap ip bn s = Ret (of_nat a, s4)" using e a(2) k(2) w(1) p(1) by simp
  moreover have "a \<noteq> 0" using N(1) by (simp add: data_def)
  moreover have "length (logged ?n ?L) \<le> length L + 3" using logged_simps(3) [of ?n ?L] len by linarith
  ultimately show ?thesis using X fb [of bn] fb n N(2) aN(2) same
    by (intro exI [of _ s4] exI [of _ ?W] exI [of _ "logged ?n ?L"]) (auto simp: bmapped_def)
qed

lemma bmapped_have:
  assumes "lrep s' V L {}" and "bm_ok s V" and "file_ok s V ip" and "same_trans s s'" and "fblk (addrs s ip) V bn \<noteq> 0"
  shows "bmapped ip bn s V L s' V L m"
proof -
  have S: "addrs s' ip = addrs s ip" "sb s' = sb s" using same_fs [OF assms(4)] by simp_all
  have "file_ok s' V ip" using assms(3) S data_same [OF assms(4)] same_fs [OF assms(4)] by (simp add: file_ok_def iblk_def)
  then have "ext ip s V s' V L" using assms bm_same [OF assms(4)] data_same [OF assms(4)] set_addrs_same [of ip s]
    by (auto simp: ext_def intro!: exI [of _ "addrs s ip"])
  then show ?thesis using assms(5) S by (simp add: bmapped_def free_blocks_def)
qed

lemma bmap_direct:
  assumes l: "lrep s V L {}" and m: "bm_ok s V" and f: "file_ok s V ip" and r: "room 2 s L {}" and fr: "free_blocks s V \<noteq> {}"
    and n: "bn < NDIRECT" "fblk (addrs s ip) V bn = 0"
  shows "\<exists>s' V' L'. bmap ip bn s = Ret (of_nat (fblk (addrs s' ip) V' bn), s') \<and> bmapped ip bn s V L s' V' L' 1"
proof -
  have z: "addrs s ip ! bn = 0" using n by (simp add: fblk_def unat_eq_0)
  obtain b s1 where b: "balloc 1 s = Ret (of_nat b, s1)" "b \<in> free_blocks s V" "same_trans s s1"
    "ext ip s V (set_addr ip bn (of_nat b) s1) (alloc_blocks (sb s) b V) (logged b (logged (bmb (sb s) b) L))"
    "\<forall>j<MAXFILE. j \<noteq> bn \<or> bn = NDIRECT \<longrightarrow> fblk ((addrs s ip)[bn := of_nat b]) (alloc_blocks (sb s) b V) j = fblk (addrs s ip) V j"
    "unat (of_nat b :: u32) = b" "b \<noteq> 0"
    by (rule alloc_slot [OF l m f r fr _ z]) (use n in simp)
  let ?s = "set_addr ip bn (of_nat b) s1" and ?V = "alloc_blocks (sb s) b V"
  note F = file_okD [OF f]
  have a: "addrs ?s ip = (addrs s ip)[bn := of_nat b]" using same_fs(2) [OF b(3)] by (simp add: set_addr_addrs)
  have fb: "fblk (addrs ?s ip) ?V bn = b" using n F(1) b(6) by (simp add: a fblk_def)
  have "bmap ip bn s = Ret (of_nat b, ?s)" using n z b(1) F(2) by (simp add: bmap_def get_addr_def Let_def)
  moreover have "card (free_blocks s V) \<le> card (free_blocks ?s ?V) + 1"
    using card_alloc [OF l m b(2)] same_fs(1) [OF b(3)] by (simp add: free_blocks_def set_addr_addrs)
  moreover have "?V b = replicate BSIZE 0" by (rule data_new(2) [OF l m b(2)])
  moreover have "\<forall>n. data s V n \<longrightarrow> ?V n = V n" using data_alloc(2) [OF l m b(2)] by blast
  moreover have "length (logged b (logged (bmb (sb s) b) L)) \<le> length L + 3"
    using logged_simps(3) [of b "logged (bmb (sb s) b) L"] logged_simps(3) [of "bmb (sb s) b" L] by linarith
  ultimately show ?thesis using b(4,5,7) fb a n
    by (intro exI [of _ ?s] exI [of _ ?V] exI [of _ "logged b (logged (bmb (sb s) b) L)"]) (auto simp: bmapped_def)
qed

lemma extD:
  assumes "ext ip s V s' V' L'"
  shows "lrep s' V' L' {}" "bm_ok s' V'" "file_ok s' V' ip" "sb s' = sb s" "data s V n \<Longrightarrow> data s' V' n" "disksize s' = disksize s"
    "length L' + m \<le> length L + n \<Longrightarrow> room n s L {} \<Longrightarrow> room m s' L' {}"
proof -
  obtain al where s: "same_trans (set_addrs ip al s) s'" using assms by (auto simp: ext_def)
  show "length L' + m \<le> length L + n \<Longrightarrow> room n s L {} \<Longrightarrow> room m s' L' {}" using room_same [OF _ s] by simp
  show "sb s' = sb s" "disksize s' = disksize s" using same_fs [OF s] by simp_all
qed (use assms in \<open>auto simp: ext_def\<close>)

lemma bmap_ok:
  assumes l: "lrep s V L {}" and m: "bm_ok s V" and f: "file_ok s V ip" and r: "room 5 s L {}" and fr: "2 \<le> card (free_blocks s V)" and n: "bn < MAXFILE"
  shows "\<exists>s' V' L'. bmap ip bn s = Ret (of_nat (fblk (addrs s' ip) V' bn), s') \<and> bmapped ip bn s V L s' V' L' 2"
proof -
  have fin: "free_blocks s V \<noteq> {}" using fr by auto
  have r2: "room 2 s L {}" "room 3 s L {}" using room_mono [OF r] by simp_all
  have up: "bmapped ip bn s V L s' V' L' 2" if "bmapped ip bn s V L s' V' L' 1" for s' V' L' using that by (auto simp: bmapped_def)
  consider "fblk (addrs s ip) V bn \<noteq> 0" | "fblk (addrs s ip) V bn = 0" "bn < NDIRECT" | "fblk (addrs s ip) V bn = 0" "\<not> bn < NDIRECT" "addrs s ip ! NDIRECT \<noteq> 0"
    | "\<not> bn < NDIRECT" "addrs s ip ! NDIRECT = 0" by blast
  then show ?thesis
  proof cases
    case 1
    obtain s' where e: "bmap ip bn s = Ret (of_nat (fblk (addrs s ip) V bn), s')" "lrep s' V L {}" "same_trans s s'"
      by (rule bmap_have [OF l f room_mono [OF r] n 1]) simp
    then have "addrs s' ip = addrs s ip" using same_fs(2) [OF e(3)] by simp
    then show ?thesis using bmapped_have [OF e(2) m f e(3) 1, of 2] e(1) by (intro exI [of _ s'] exI [of _ V] exI [of _ L]) simp
  next
    case 2
    then show ?thesis using bmap_direct [OF l m f r2(1) fin 2(2,1)] up by blast
  next
    case 3
    then show ?thesis using bmap_entry [OF l m f r2(2) fin 3(2) n 3(3,1)] up by blast
  next
    case 4
    obtain b s1 where b: "balloc 1 s = Ret (of_nat b, s1)" "b \<in> free_blocks s V" "same_trans s s1"
      "ext ip s V (set_addr ip NDIRECT (of_nat b) s1) (alloc_blocks (sb s) b V) (logged b (logged (bmb (sb s) b) L))"
      "\<forall>j<MAXFILE. j \<noteq> NDIRECT \<or> NDIRECT = NDIRECT \<longrightarrow> fblk ((addrs s ip)[NDIRECT := of_nat b]) (alloc_blocks (sb s) b V) j = fblk (addrs s ip) V j"
      "unat (of_nat b :: u32) = b" "b \<noteq> 0"
      by (rule alloc_slot [OF l m f room_mono [OF r] fin _ 4(2)]) simp_all
    let ?s = "set_addr ip NDIRECT (of_nat b) s1" and ?V = "alloc_blocks (sb s) b V" and ?L = "logged b (logged (bmb (sb s) b) L)"
    note F = file_okD [OF f] and X = extD [OF b(4)]
    have a: "addrs ?s ip = (addrs s ip)[NDIRECT := of_nat b]" using same_fs(2) [OF b(3)] by (simp add: set_addr_addrs)
    have b0: "(of_nat b :: u32) \<noteq> 0" using b(6,7) by (metis unat_0)
    then have i: "addrs ?s ip ! NDIRECT \<noteq> 0" "unat (addrs ?s ip ! NDIRECT) = b" using F(1) b(6) by (simp_all add: a)
    have z: "fblk (addrs s ip) V bn = 0" using 4 by (simp add: fblk_def)
    then have fz: "fblk (addrs ?s ip) ?V bn = 0" using b(5) n a by simp
    have "bmap ip bn s = bmap ip bn ?s"
      using 4 b(1) b0 F(1,2) same_fs(2) [OF b(3)] by (simp add: bmap_def get_addr_def Let_def set_addr_addrs)
    moreover have len: "length ?L \<le> length L + 2"
      using logged_simps(3) [of b "logged (bmb (sb s) b) L"] logged_simps(3) [of "bmb (sb s) b" L] by linarith
    have c: "card (free_blocks s V) = card (free_blocks ?s ?V) + 1"
      using card_alloc [OF l m b(2)] same_fs(1) [OF b(3)] by (simp add: free_blocks_def set_addr_addrs)
    then have "free_blocks ?s ?V \<noteq> {}" using fr by auto
    then obtain s' V' L' where e: "bmap ip bn ?s = Ret (of_nat (fblk (addrs s' ip) V' bn), s')" "bmapped ip bn ?s ?V ?L s' V' L' 1"
      using bmap_entry [OF X(1-3) X(7) [of 3 L 5] _ 4(1) n i(1) fz] len r by auto
    moreover have "bmapped ip bn s V L s' V' L' 2"
      using e(2) ext_trans [OF b(4)] z fz b(5) a c len X(5) data_alloc(2,3) [OF l m b(2)] i(2) 4(2)
      by (auto simp: bmapped_def)
    ultimately show ?thesis by auto
  qed
qed

section \<open>Reading\<close>

definition fbyte :: "'a fsst_scheme \<Rightarrow> (nat \<Rightarrow> u8 list) \<Rightarrow> nat \<Rightarrow> nat \<Rightarrow> u8" where
  "fbyte s V ip k = V (fblk (addrs s ip) V (k div BSIZE)) ! (k mod BSIZE)"

text \<open>Every block of the first \<open>n\<close> bytes is there.\<close>

definition present :: "'a fsst_scheme \<Rightarrow> (nat \<Rightarrow> u8 list) \<Rightarrow> nat \<Rightarrow> nat \<Rightarrow> bool" where
  "present s V ip n \<longleftrightarrow> n \<le> MAXFILE * BSIZE \<and> (\<forall>k<n. fblk (addrs s ip) V (k div BSIZE) \<noteq> 0)"

lemma BSIZE_pos [simp]: "0 < BSIZE"
  by (simp add: BSIZE_def)

lemma block_range: "k < MAXFILE * BSIZE \<Longrightarrow> k div BSIZE < MAXFILE"
  by (simp add: less_mult_imp_div_less)

lemma within_block:
  assumes "i < BSIZE - off mod BSIZE"
  shows "(off + i) div BSIZE = off div BSIZE" and "(off + i) mod BSIZE = off mod BSIZE + i"
proof -
  have "off + i = off div BSIZE * BSIZE + (off mod BSIZE + i)" "off mod BSIZE + i < BSIZE" using assms by simp_all
  then show "(off + i) div BSIZE = off div BSIZE" "(off + i) mod BSIZE = off mod BSIZE + i"
    by (metis div_mult_self3 BSIZE_pos add.right_neutral div_less neq0_conv) (metis \<open>off + i = _\<close> \<open>_ < BSIZE\<close> mod_mult_self3 mod_less)
qed

lemma fbyte_same: "same_trans s s' \<Longrightarrow> fbyte s' V ip = fbyte s V ip" "same_trans s s' \<Longrightarrow> present s' V ip n = present s V ip n"
  using same_fs(2) [of s s'] by (simp_all add: fbyte_def present_def fun_eq_iff)

lemma file_ok_same: "same_trans s s' \<Longrightarrow> file_ok s' V ip = file_ok s V ip"
  using same_fs [of s s'] data_same [of s s' V] by (simp add: file_ok_def iblk_def)

lemma readi_loop_ok:
  assumes "lrep s V L {}" and "file_ok s V ip" and "room 1 s L {}" and "present s V ip (off + n)"
  shows "\<exists>s'. readi_loop ip off n s = Ret (map (fbyte s V ip) [off..<off + n], s') \<and> lrep s' V L {} \<and> same_trans s s'"
  using assms
proof (induction n arbitrary: off s rule: less_induct)
  case (less n)
  show ?case
  proof (cases "n = 0")
    case True
    then show ?thesis using less.prems(1) same_trans_refl [of s] by (simp add: readi_loop.simps)
  next
    case False
    let ?b = "fblk (addrs s ip) V (off div BSIZE)" and ?m = "min n (BSIZE - off mod BSIZE)"
    have b: "off div BSIZE < MAXFILE" "?b \<noteq> 0" using less.prems(4) False block_range [of off] by (auto simp: present_def)
    obtain s1 where s1: "bmap ip (off div BSIZE) s = Ret (of_nat ?b, s1)" "lrep s1 V L {}" "same_trans s s1"
      by (rule bmap_have [OF less.prems(1,2,3) b])
    have d: "?b < unat (disksize s1)" "length (V ?b) = BSIZE"
      using file_okD(3) [OF less.prems(2) b] same_fs(4) [OF s1(3)] lrep_length [OF less.prems(1)] by (auto simp: data_def home_def)
    have r1: "room 1 s1 L {}" using room_same [OF less.prems(3) s1(3)] by simp
    obtain i s2 s3 where g: "bread 1 (of_nat ?b) s1 = Ret (i, s2)" "bdata (bufs s2 (Buf i)) = V ?b" "brelse i s2 = Ret s3" "lrep s3 V L {}" "same_trans s1 s3"
      using get_block [OF s1(2) d(1)] room_put [OF r1] by auto
    have S: "same_trans s s3" by (rule same_trans_trans [OF s1(3) g(5)])
    have m: "0 < ?m" "?m \<le> n" using False mod_less_divisor [OF BSIZE_pos, of off] by auto
    have x: "slice (off mod BSIZE) ?m (V ?b) = map (fbyte s V ip) [off..<off + ?m]"
      using d(2) by (intro nth_equalityI) (auto simp: slice_nth fbyte_def within_block)
    obtain s' where IH: "readi_loop ip (off + ?m) (n - ?m) s3 = Ret (map (fbyte s3 V ip) [off + ?m..<off + ?m + (n - ?m)], s')" "lrep s' V L {}" "same_trans s3 s'"
      using less.IH [of "n - ?m" s3 "off + ?m"] m False g(4) less.prems(2-4) file_ok_same [OF S] room_same [OF less.prems(3) S, of L 1] fbyte_same(2) [OF S] by auto
    have "readi_loop ip off n s = Ret (map (fbyte s V ip) [off..<off + ?m] @ map (fbyte s V ip) [off + ?m..<off + n], s')"
      using False s1(1) g(1-3) IH(1) m x same_fs(2) [OF s1(3)] file_okD(2) [OF less.prems(2)] fbyte_same(1) [OF S, of V ip]
      by (subst readi_loop.simps) (simp add: Let_def)
    moreover have "[off..<off + n] = [off..<off + ?m] @ [off + ?m..<off + n]" using m upt_add_eq_append [of off "off + ?m" "n - ?m"] by simp
    ultimately show ?thesis using IH(2) same_trans_trans [OF S IH(3)] by simp
  qed
qed

section \<open>Writing\<close>

text \<open>The bytes \<open>x\<close> were written at \<open>off\<close>; the inode on disk is untouched.\<close>

definition written :: "nat \<Rightarrow> nat \<Rightarrow> u8 list \<Rightarrow> 'a fsst_scheme \<Rightarrow> (nat \<Rightarrow> u8 list) \<Rightarrow> 'a fsst_scheme \<Rightarrow> (nat \<Rightarrow> u8 list) \<Rightarrow> bool" where
  "written ip off x s V s' V' \<longleftrightarrow>
     (\<forall>k<MAXFILE * BSIZE. off \<le> k \<and> k < off + length x \<longrightarrow> fblk (addrs s' ip) V' (k div BSIZE) \<noteq> 0 \<and> fbyte s' V' ip k = x ! (k - off)) \<and>
     (\<forall>k<MAXFILE * BSIZE. \<not> (off \<le> k \<and> k < off + length x) \<and> fblk (addrs s ip) V (k div BSIZE) \<noteq> 0 \<longrightarrow>
        fblk (addrs s' ip) V' (k div BSIZE) \<noteq> 0 \<and> fbyte s' V' ip k = fbyte s V ip k) \<and>
     (\<forall>k<MAXFILE. fblk (addrs s ip) V k \<noteq> 0 \<longrightarrow> fblk (addrs s' ip) V' k = fblk (addrs s ip) V k) \<and>
     V' (iblk s ip) = V (iblk s ip)"

lemma fblk_write:
  assumes "file_ok s V ip" and "bn < MAXFILE" and "fblk (addrs s ip) V bn \<noteq> 0"
  shows "fblk (addrs s ip) (V(fblk (addrs s ip) V bn := d)) k = fblk (addrs s ip) V k"
  using file_okD(5) [OF assms] unfolding fblk_def by auto

lemma ext_write:
  assumes x: "ext ip s V s1 V1 L1" and b: "bn < MAXFILE" "fblk (addrs s1 ip) V1 bn \<noteq> 0"
    and l: "lrep s2 (V1(fblk (addrs s1 ip) V1 bn := d)) L2 {}" and t: "same_trans s1 s2"
  shows "ext ip s V s2 (V1(fblk (addrs s1 ip) V1 bn := d)) L2"
    and "fblk (addrs s2 ip) (V1(fblk (addrs s1 ip) V1 bn := d)) k = fblk (addrs s1 ip) V1 k"
proof -
  let ?n = "fblk (addrs s1 ip) V1 bn" and ?V = "V1(fblk (addrs s1 ip) V1 bn := d)"
  note X = extD [OF x] and F = file_okD [OF extD(3) [OF x]]
  have S: "addrs s2 ip = addrs s1 ip" using same_fs(2) [OF t] by simp
  have fb: "fblk (addrs s1 ip) ?V j = fblk (addrs s1 ip) V1 j" for j by (rule fblk_write [OF X(3) b])
  then show "fblk (addrs s2 ip) ?V k = fblk (addrs s1 ip) V1 k" using S by simp
  have dt: "data s1 ?V m = data s1 V1 m" "bm_ok s1 ?V = bm_ok s1 V1" for m using data_write [OF F(3) [OF b]] by auto
  have "own (addrs s1 ip) ?V i j = own (addrs s1 ip) V1 i j" for i j using fb by (simp add: own_def)
  then have "file_ok s1 ?V ip" using X(3) dt(1) by (simp add: file_ok_def Let_def)
  then have "file_ok s2 ?V ip" using file_ok_same [OF t] by simp
  moreover obtain al where "same_trans (set_addrs ip al s) s2" using x same_trans_trans [OF _ t] by (auto simp: ext_def)
  ultimately show "ext ip s V s2 ?V L2"
    using l X(2,5) dt bm_same [OF t] data_same [OF t] by (auto simp: ext_def)
qed

lemma in_block:
  assumes "off mod BSIZE + n \<le> BSIZE"
  shows "off \<le> k \<and> k < off + n \<longleftrightarrow> k div BSIZE = off div BSIZE \<and> off mod BSIZE \<le> k mod BSIZE \<and> k mod BSIZE < off mod BSIZE + n"
    and "off \<le> k \<Longrightarrow> k < off + n \<Longrightarrow> k - off = k mod BSIZE - off mod BSIZE"
proof -
  have w: "k div BSIZE = off div BSIZE \<and> k mod BSIZE = off mod BSIZE + (k - off)" if "off \<le> k" "k < off + n"
    using within_block [of "k - off" off] that assms by simp
  show "off \<le> k \<Longrightarrow> k < off + n \<Longrightarrow> k - off = k mod BSIZE - off mod BSIZE" using w by simp
  have "off \<le> k \<and> k < off + n" if h: "k div BSIZE = off div BSIZE" "off mod BSIZE \<le> k mod BSIZE" "k mod BSIZE < off mod BSIZE + n"
  proof -
    have "k = off div BSIZE * BSIZE + k mod BSIZE" "off = off div BSIZE * BSIZE + off mod BSIZE" using div_mult_mod_eq [of k BSIZE] h(1) by simp_all
    then show ?thesis using h(2,3) by linarith
  qed
  then show "off \<le> k \<and> k < off + n \<longleftrightarrow> k div BSIZE = off div BSIZE \<and> off mod BSIZE \<le> k mod BSIZE \<and> k mod BSIZE < off mod BSIZE + n"
    using w by auto
qed

lemma ext_iblk: "ext ip s V s' V' L' \<Longrightarrow> iblk s' ip = iblk s ip"
  using same_fs(1,2) [of "set_addrs ip _ s" s'] by (auto simp: ext_def iblk_def)

lemma file_iblk: "file_ok s V ip \<Longrightarrow> iblk s ip \<noteq> unat (addrs s ip ! NDIRECT)"
  using file_okD(8,9) [of s V ip] by (cases "addrs s ip ! NDIRECT = 0") (auto simp: data_def)

lemma write_step:
  assumes l: "lrep s V L {}" and m: "bm_ok s V" and f: "file_ok s V ip" and r: "room 6 s L {}" and fr: "2 \<le> card (free_blocks s V)"
    and n: "off < MAXFILE * BSIZE" and x: "off mod BSIZE + length x \<le> BSIZE"
  shows "\<exists>a s1 s2 V2 L2. bmap ip (off div BSIZE) s = Ret (a, s1) \<and> i_dev (inodes s1 ip) = 1 \<and> change_block 1 a (splice (off mod BSIZE) x) s1 = Ret s2
    \<and> ext ip s V s2 V2 L2 \<and> written ip off x s V s2 V2 \<and> card (free_blocks s V) \<le> card (free_blocks s2 V2) + 2 \<and> length L2 \<le> length L + 6"
proof -
  let ?bn = "off div BSIZE"
  have bn: "?bn < MAXFILE" by (rule block_range [OF n])
  have "room 5 s L {}" by (rule room_mono [OF r]) simp
  then obtain s1 V1 L1 where e: "bmap ip ?bn s = Ret (of_nat (fblk (addrs s1 ip) V1 ?bn), s1)" "bmapped ip ?bn s V L s1 V1 L1 2"
    using bmap_ok [OF l m f _ fr bn] by blast
  let ?a = "fblk (addrs s1 ip) V1 ?bn"
  have X: "ext ip s V s1 V1 L1" "?a \<noteq> 0" "length L1 \<le> length L + 5" "card (free_blocks s V) \<le> card (free_blocks s1 V1) + 2"
    and old: "\<And>k. k < MAXFILE \<Longrightarrow> k \<noteq> ?bn \<or> fblk (addrs s ip) V ?bn \<noteq> 0 \<Longrightarrow> fblk (addrs s1 ip) V1 k = fblk (addrs s ip) V k"
    and Vo: "\<And>n. data s V n \<Longrightarrow> n \<noteq> unat (addrs s ip ! NDIRECT) \<Longrightarrow> V1 n = V n" using e(2) by (auto simp: bmapped_def)
  note E = extD [OF X(1)] and F = file_okD [OF extD(3) [OF X(1)]]
  have da: "data s1 V1 ?a" "home s1 ?a" using F(3) [OF bn X(2)] by (simp_all add: data_def)
  have la: "length (V1 ?a) = BSIZE" using lrep_length [OF E(1)] da(2) by (simp add: home_def)
  let ?V = "V1(?a := splice (off mod BSIZE) x (V1 ?a))"
  have "room 1 s1 L1 {}" using E(7) [of 1 L 6] r X(3) by simp
  then obtain s2 where c: "change_block 1 (of_nat ?a) (splice (off mod BSIZE) x) s1 = Ret s2" "lrep s2 ?V (logged ?a L1) {}" "same_trans s1 s2"
    using change_block_ok [OF E(1) da(2), of "splice (off mod BSIZE) x"] la x by auto
  note W = ext_write [OF X(1) bn X(2) c(2,3)]
  have S: "addrs s2 ip = addrs s1 ip" using same_fs(2) [OF c(3)] by simp
  have ne: "fblk (addrs s1 ip) V1 (k div BSIZE) \<noteq> ?a" if "k < MAXFILE * BSIZE" "k div BSIZE \<noteq> ?bn" for k
    using F(7) [OF block_range [OF that(1)] bn that(2) X(2)] .
  have mine: "fbyte s2 ?V ip k = (if off mod BSIZE \<le> k mod BSIZE \<and> k mod BSIZE < off mod BSIZE + length x then x ! (k mod BSIZE - off mod BSIZE) else V1 ?a ! (k mod BSIZE))"
    if "k div BSIZE = ?bn" for k using that W(2) la x by (simp add: fbyte_def nth_splice)
  have other: "fbyte s2 ?V ip k = V1 (fblk (addrs s1 ip) V1 (k div BSIZE)) ! (k mod BSIZE)" if "k < MAXFILE * BSIZE" "k div BSIZE \<noteq> ?bn" for k
    using W(2) ne [OF that] by (simp add: fbyte_def)
  have "written ip off x s V s2 ?V"
    unfolding written_def
  proof (intro conjI allI impI, goal_cases)
    case (1 k)
    then show ?case using W(2) X(2) in_block [OF x, of k] by simp
  next
    case (2 k)
    then show ?case using in_block [OF x, of k] mine [of k] by simp
  next
    case (3 k)
    then show ?case using W(2) X(2) old [OF block_range [of k]] by (cases "k div BSIZE = ?bn") simp_all
  next
    case (4 k)
    let ?o = "fblk (addrs s ip) V (k div BSIZE)"
    have o: "V1 ?o = V ?o" using 4 Vo file_okD(3,5) [OF f block_range [of k]] by simp
    have "fblk (addrs s1 ip) V1 (k div BSIZE) = ?o" using 4 old [OF block_range [of k]] by (cases "k div BSIZE = ?bn") simp_all
    then show ?case using 4 o in_block [OF x, of k] mine [of k] other [of k] by (cases "k div BSIZE = ?bn") (auto simp: fbyte_def)
  next
    case (5 k)
    then show ?case using W(2) old [of k] by (cases "k = ?bn") simp_all
  next
    case 6
    have "iblk s1 ip = iblk s ip" by (rule ext_iblk [OF X(1)])
    then show ?case using F(6) [OF bn X(2)] Vo [OF file_okD(8) [OF f]] file_iblk [OF f] by simp
  qed
  moreover have "card (free_blocks s1 V1) = card (free_blocks s2 ?V)" using data_write(3) [OF da(1)] same_fs(1) [OF c(3)] by (simp add: free_blocks_def)
  moreover have "length (logged ?a L1) \<le> length L + 6" using logged_simps(3) [of ?a L1] X(3) by linarith
  moreover have "i_dev (inodes s1 ip) = 1" by (rule F(2))
  ultimately show ?thesis using e(1) c(1) W(1) X(4) by (metis (no_types, lifting))
qed

lemma written_Nil: "written ip off [] s V s V"
  by (simp add: written_def)

lemma written_append:
  assumes "written ip off x s V s1 V1" and "written ip (off + length x) y s1 V1 s2 V2" and "iblk s1 ip = iblk s ip"
  shows "written ip off (x @ y) s V s2 V2"
proof -
  have a: "fblk (addrs s2 ip) V2 (k div BSIZE) \<noteq> 0 \<and> fbyte s2 V2 ip k = (x @ y) ! (k - off)" if k: "k < MAXFILE * BSIZE" "off \<le> k" "k < off + length (x @ y)" for k
  proof (cases "k < off + length x")
    case True
    then have "fblk (addrs s1 ip) V1 (k div BSIZE) \<noteq> 0 \<and> fbyte s1 V1 ip k = x ! (k - off)" using k assms(1) by (simp add: written_def)
    then have "fblk (addrs s2 ip) V2 (k div BSIZE) \<noteq> 0 \<and> fbyte s2 V2 ip k = x ! (k - off)" using k True assms(2) by (simp add: written_def)
    then show ?thesis using True k(2) by (simp add: nth_append less_diff_conv2)
  next
    case False
    have "fblk (addrs s2 ip) V2 (k div BSIZE) \<noteq> 0 \<and> fbyte s2 V2 ip k = y ! (k - (off + length x))" using k False assms(2) by (simp add: written_def)
    moreover have "\<not> k - off < length x" "k - off - length x = k - (off + length x)" using False k(2) by linarith+
    ultimately show ?thesis by (simp add: nth_append)
  qed
  have b: "fblk (addrs s2 ip) V2 (k div BSIZE) \<noteq> 0 \<and> fbyte s2 V2 ip k = fbyte s V ip k"
    if k: "k < MAXFILE * BSIZE" "\<not> (off \<le> k \<and> k < off + length (x @ y))" "fblk (addrs s ip) V (k div BSIZE) \<noteq> 0" for k
  proof -
    have "fblk (addrs s1 ip) V1 (k div BSIZE) \<noteq> 0 \<and> fbyte s1 V1 ip k = fbyte s V ip k" using k assms(1) by (auto simp: written_def)
    then show ?thesis using k(1,2) assms(2) by (auto simp: written_def)
  qed
  have "fblk (addrs s2 ip) V2 k = fblk (addrs s ip) V k" if "k < MAXFILE" "fblk (addrs s ip) V k \<noteq> 0" for k
    using that assms(1,2) by (simp add: written_def)
  moreover have "V2 (iblk s ip) = V (iblk s ip)" using assms by (simp add: written_def)
  ultimately show ?thesis unfolding written_def using a b by blast
qed

lemma block_advance:
  fixes off :: nat and src :: "'b list"
  assumes "src \<noteq> []"
  defines "m \<equiv> min (length src) (BSIZE - off mod BSIZE)"
  shows "0 < m" and "off mod BSIZE + length (take m src) \<le> BSIZE"
    and "src = [] \<or> off mod BSIZE + length src \<le> Suc t * BSIZE \<Longrightarrow> drop m src = [] \<or> (off + m) mod BSIZE + length (drop m src) \<le> t * BSIZE"
proof -
  have B: "off mod BSIZE < BSIZE" by simp
  have S: "0 < length src" using assms(1) by simp
  have len: "length (take m src) = m" by (simp add: m_def)
  show "0 < m" using S B unfolding m_def by linarith
  have "off mod BSIZE + m \<le> BSIZE" using B unfolding m_def by linarith
  then show "off mod BSIZE + length (take m src) \<le> BSIZE" by (simp only: len)
  show "drop m src = [] \<or> (off + m) mod BSIZE + length (drop m src) \<le> t * BSIZE" if h: "src = [] \<or> off mod BSIZE + length src \<le> Suc t * BSIZE"
  proof (cases "m = length src")
    case False
    then have mm: "m = BSIZE - off mod BSIZE" by (simp add: m_def min_def split: if_splits)
    then have "off + m = off div BSIZE * BSIZE + BSIZE" using div_mult_mod_eq [of off BSIZE] B by linarith
    then have "(off + m) mod BSIZE = 0" by simp
    then show ?thesis using h mm B assms(1) by auto
  qed simp
qed

lemma writei_loop_ok:
  assumes "lrep s V L {}" and "bm_ok s V" and "file_ok s V ip" and "room (6 * t) s L {}" and "2 * t \<le> card (free_blocks s V)"
    and "off + length src \<le> MAXFILE * BSIZE" and "src = [] \<or> off mod BSIZE + length src \<le> t * BSIZE"
  shows "\<exists>s' V' L'. writei_loop ip off src s = Ret (off + length src, s') \<and> ext ip s V s' V' L' \<and> written ip off src s V s' V' \<and> length L' \<le> length L + 6 * t"
  using assms
proof (induction t arbitrary: off src s V L)
  case 0
  then have "src = []" by auto
  then show ?case using 0 written_Nil [of ip off s V] ext_refl [of s V L ip]
      by (intro exI [of _ s] exI [of _ V] exI [of _ L]) (simp add: writei_loop.simps)
next
  case (Suc t)
  show ?case
  proof (cases "src = []")
    case True
    then show ?thesis using Suc.prems written_Nil [of ip off s V] ext_refl [of s V L ip]
      by (intro exI [of _ s] exI [of _ V] exI [of _ L]) (simp add: writei_loop.simps)
  next
    case False
    let ?m = "min (length src) (BSIZE - off mod BSIZE)"
    note A = block_advance [OF False, of off]
    have m: "length (take ?m src) = ?m" "off < MAXFILE * BSIZE" using Suc.prems(6) False length_greater_0_conv [of src] by (simp, linarith)
    have "room 6 s L {}" "2 \<le> card (free_blocks s V)" using room_mono [OF Suc.prems(4), of 6] Suc.prems(5) by simp_all
    then obtain a s1 s2 V2 L2 where e: "bmap ip (off div BSIZE) s = Ret (a, s1)" "i_dev (inodes s1 ip) = 1" "change_block 1 a (splice (off mod BSIZE) (take ?m src)) s1 = Ret s2"
      "ext ip s V s2 V2 L2" "written ip off (take ?m src) s V s2 V2" "card (free_blocks s V) \<le> card (free_blocks s2 V2) + 2" "length L2 \<le> length L + 6"
      using write_step [OF Suc.prems(1-3) _ _ m(2) A(2)] by blast
    note X = extD [OF e(4)]
    have "room (6 * t) s2 L2 {}" using X(7) [of "6 * t" L "6 * Suc t"] e(7) Suc.prems(4) by simp
    moreover have "2 * t \<le> card (free_blocks s2 V2)" using e(6) Suc.prems(5) by simp
    moreover have "off + ?m + length (drop ?m src) \<le> MAXFILE * BSIZE" using Suc.prems(6) by simp
    ultimately obtain s' V' L' where IH: "writei_loop ip (off + ?m) (drop ?m src) s2 = Ret (off + ?m + length (drop ?m src), s')" "ext ip s2 V2 s' V' L'"
      "written ip (off + ?m) (drop ?m src) s2 V2 s' V'" "length L' \<le> length L2 + 6 * t"
      using Suc.IH [OF X(1-3) _ _ _ A(3) [OF Suc.prems(7)]] by blast
    have "writei_loop ip off src s = Ret (off + length src, s')"
      using False e(1-3) IH(1) by (subst writei_loop.simps) (simp add: Let_def)
    moreover have "written ip off (take ?m src @ drop ?m src) s V s' V'"
      using written_append [OF e(5) _ ext_iblk [OF e(4)], of "drop ?m src" s' V'] IH(3) m(1) by simp
    ultimately show ?thesis using ext_trans [OF e(4) IH(2)] IH(4) e(7) by (intro exI [of _ s'] exI [of _ V'] exI [of _ L']) simp
  qed
qed

end
