(* ===== verification/Fsrw.thy ===== *)
theory Fsrw
  imports Fsfile Crash
begin

text \<open>
  Reading and writing files through \<open>readi\<close> and \<open>writei\<close>: the layout of the inode on disk, \<open>iupdate\<close>, and
  the bytes of a file as the two routines see them; then a file system to run them on.
\<close>

section \<open>The inode on disk\<close>

lemma dinode_at_put:
  assumes "length (di_addrs x) = NDIRECT + 1" and "k < IPB" and "length b = BSIZE"
  shows "dinode_at (put_dinode k x b) k = x"
proof -
  let ?h = "le2 (di_type x) @ le2 (di_major x) @ le2 (di_minor x) @ le2 (di_nlink x) @ le2 (di_uid x) @ le2 (di_gid x) @ le4 (di_mode x) @ le4 (di_size x)"
  let ?t = "concat (map le4 (di_addrs x))"
  have t: "length ?t = 44" using assms(1) by (simp add: length_concat comp_def sum_list_triv fs_consts)
  have fit: "64 * k + length (?h @ ?t) \<le> length b" using assms(2,3) t by (simp add: IPB_def BSIZE_def)
  have p: "put_dinode k x b = splice (64 * k) (?h @ ?t) b" by (simp add: put_dinode_def)
  have g2: "get2 (put_dinode k x b) (64 * k + i) = get2 (?h @ ?t) i" if "i + 2 \<le> 20" for i
    unfolding p by (rule get_splice(1) [OF fit]) (use that t in simp)
  have g4: "get4 (put_dinode k x b) (64 * k + i) = get4 (?h @ ?t) i" if "i + 4 \<le> 64" for i
    unfolding p by (rule get_splice(2) [OF fit]) (use that t in simp)
  have a: "get4 (put_dinode k x b) (64 * k + 20 + 4 * j) = di_addrs x ! j" if "j < NDIRECT + 1" for j
  proof -
    have "get4 (put_dinode k x b) (64 * k + (20 + 4 * j)) = get4 (?h @ ?t) (20 + 4 * j)" using that by (intro g4) (simp add: fs_consts)
    also have "\<dots> = get4 ?t (4 * j)" using get4_shift [of ?h ?t "4 * j"] by simp
    finally show ?thesis using get4_concat [of j "di_addrs x"] that assms(1) by (simp add: add.assoc)
  qed
  have "map (\<lambda>j. get4 (put_dinode k x b) (64 * k + 20 + 4 * j)) [0..<NDIRECT + 1] = di_addrs x"
    using a assms(1) by (intro nth_equalityI) (simp_all del: upt_Suc)
  moreover have "get2 (put_dinode k x b) (64 * k) = di_type x" "get2 (put_dinode k x b) (64 * k + 2) = di_major x" "get2 (put_dinode k x b) (64 * k + 4) = di_minor x"
    "get2 (put_dinode k x b) (64 * k + 6) = di_nlink x" "get2 (put_dinode k x b) (64 * k + 8) = di_uid x" "get2 (put_dinode k x b) (64 * k + 10) = di_gid x"
    using g2 [of 0] g2 [of 2] g2 [of 4] g2 [of 6] g2 [of 8] g2 [of 10] by (simp_all add: get_append get2_le2)
  moreover have "get4 (put_dinode k x b) (64 * k + 12) = di_mode x" "get4 (put_dinode k x b) (64 * k + 16) = di_size x"
    using g4 [of 12] g4 [of 16] by (simp_all add: get_append get4_le4)
  ultimately show ?thesis by (simp add: dinode_at_def Let_def del: upt_Suc)
qed

lemma length_put_dinode: "length (di_addrs x) = NDIRECT + 1 \<Longrightarrow> k < IPB \<Longrightarrow> length b = BSIZE \<Longrightarrow> length (put_dinode k x b) = BSIZE"
  by (simp add: put_dinode_def length_concat comp_def sum_list_triv fs_consts IPB_def)

section \<open>Updating the inode\<close>

text \<open>The slot of the inode in its block; the copies in memory and on disk agree.\<close>

definition islot :: "'a fsst_scheme \<Rightarrow> nat \<Rightarrow> nat" where
  "islot s ip = unat (i_inum (inodes s ip)) mod IPB"

definition synced :: "'a fsst_scheme \<Rightarrow> (nat \<Rightarrow> u8 list) \<Rightarrow> nat \<Rightarrow> bool" where
  "synced s V ip \<longleftrightarrow> dinode_at (V (iblk s ip)) (islot s ip) = di (inodes s ip)"

lemma islot_less: "islot s ip < IPB"
  by (simp add: islot_def IPB_def BSIZE_def)

lemma iblk_not_file:
  assumes "file_ok s V ip"
  shows "fblk (addrs s ip) (V(iblk s ip := d)) k = fblk (addrs s ip) V k"
  using file_iblk [OF assms] by (auto simp: fblk_def)

lemma file_ok_iblk:
  assumes "file_ok s V ip"
  shows "file_ok s (V(iblk s ip := d)) ip" and "bm_ok s (V(iblk s ip := d)) = bm_ok s V"
proof -
  note dw = data_write [OF file_okD(8) [OF assms], of d]
  have "own (addrs s ip) (V(iblk s ip := d)) i j = own (addrs s ip) V i j" for i j using iblk_not_file [OF assms] by (simp add: own_def)
  then show "file_ok s (V(iblk s ip := d)) ip" using assms dw(1) by (simp add: file_ok_def Let_def)
  show "bm_ok s (V(iblk s ip := d)) = bm_ok s V" by (rule dw(2))
qed

lemma fbyte_iblk:
  assumes "file_ok s V ip" and "k < MAXFILE * BSIZE" and "fblk (addrs s ip) V (k div BSIZE) \<noteq> 0"
  shows "fbyte s (V(iblk s ip := d)) ip k = fbyte s V ip k"
  using iblk_not_file [OF assms(1)] file_okD(6) [OF assms(1) block_range [OF assms(2)] assms(3)] by (simp add: fbyte_def)

lemma iupdate_ok:
  assumes l: "lrep s V L {}" and f: "file_ok s V ip" and r: "room 1 s L {}"
  obtains s' d L' where "iupdate ip s = Ret s'" and "lrep s' (V(iblk s ip := d)) L' {}" and "same_trans s s'" and "synced s' (V(iblk s ip := d)) ip"
    and "length L' \<le> length L + 1"
proof -
  have h: "home s (iblk s ip)" "length (V (iblk s ip)) = BSIZE"
    using file_okD(8) [OF f] lrep_length [OF l, of "iblk s ip"] by (simp_all add: data_def home_def)
  let ?f = "put_dinode (islot s ip) (di (inodes s ip))"
  have len: "length (?f (V (iblk s ip))) = BSIZE" by (rule length_put_dinode [OF file_okD(1) [OF f] islot_less h(2)])
  obtain s' where c: "change_block 1 (of_nat (iblk s ip)) ?f s = Ret s'" "lrep s' (V(iblk s ip := ?f (V (iblk s ip)))) (logged (iblk s ip) L) {}" "same_trans s s'"
    using change_block_ok [where f = ?f, OF l h(1) _ len r] by auto
  have "iupdate ip s = Ret s'" using c(1) file_okD(2) [OF f] by (simp add: iupdate_def Let_def iblk_def islot_def)
  moreover have "synced s' (V(iblk s ip := ?f (V (iblk s ip)))) ip"
    using same_fs(1,2) [OF c(3)] dinode_at_put [OF file_okD(1) [OF f] islot_less h(2)] by (simp add: synced_def iblk_def islot_def)
  moreover have "length (logged (iblk s ip) L) \<le> length L + 1" using logged_simps(3) [of "iblk s ip" L] by simp
  ultimately show thesis using that c(2,3) by blast
qed

section \<open>Bytes of a file\<close>

abbreviation isize :: "'a fsst_scheme \<Rightarrow> nat \<Rightarrow> nat" where
  "isize s ip \<equiv> unat (di_size (di (inodes s ip)))"

definition content :: "'a fsst_scheme \<Rightarrow> (nat \<Rightarrow> u8 list) \<Rightarrow> nat \<Rightarrow> u8 list" where
  "content s V ip = map (fbyte s V ip) [0..<isize s ip]"

lemma length_content [simp]: "length (content s V ip) = isize s ip"
  by (simp add: content_def)

text \<open>A regular file in order: its blocks are there up to its size, and the disk has its inode.\<close>

definition file_body :: "'a fsst_scheme \<Rightarrow> (nat \<Rightarrow> u8 list) \<Rightarrow> nat \<Rightarrow> bool" where
  "file_body s V ip \<longleftrightarrow> bm_ok s V \<and> file_ok s V ip \<and> present s V ip (isize s ip) \<and> di_type (di (inodes s ip)) \<noteq> T_DEV"

definition is_file :: "'a fsst_scheme \<Rightarrow> (nat \<Rightarrow> u8 list) \<Rightarrow> nat \<Rightarrow> bool" where
  "is_file s V ip \<longleftrightarrow> file_body s V ip \<and> synced s V ip"

lemma no_wrap:
  assumes "unat off + unat n \<le> MAXFILE * BSIZE"
  shows "unat (off + n :: u32) = unat off + unat n" and "\<not> off + n < off"
proof -
  have "unat off + unat n < 2 ^ 32" using assms by (simp add: fs_consts)
  then show "unat (off + n) = unat off + unat n" by (simp add: unat_word_ariths)
  then show "\<not> off + n < off" by (simp add: word_less_nat_alt)
qed

lemma sint_size:
  assumes "unat (n :: u32) \<le> MAXFILE * BSIZE"
  shows "sint n = int (unat n)"
proof -
  have "uint n < 2 ^ 31" "0 \<le> uint n" using assms by (simp_all add: fs_consts flip: nat_uint_eq)
  then have "- (2 ^ 31) \<le> uint n" by linarith
  then show ?thesis using \<open>uint n < 2 ^ 31\<close> signed_take_bit_int_eq_self [of 31 "uint n"] by (simp add: sint_uint)
qed

text \<open>What \<open>readi\<close> returns: the bytes asked for, up to the end of the file.\<close>

lemma readi_ok:
  assumes l: "lrep s V L {}" and f: "is_file s V ip" and r: "room 1 s L {}" and o: "unat off \<le> isize s ip" "\<not> off + n < off"
  obtains s' where "readi D ip off n s = Ret (int (length (take (unat n) (drop (unat off) (content s V ip)))), take (unat n) (drop (unat off) (content s V ip)), s')"
    and "lrep s' V L {}" and "same_trans s s'"
proof -
  let ?x = "di (inodes s ip)" and ?n = "if off + n > di_size (di (inodes s ip)) then di_size (di (inodes s ip)) - off else n"
  have F: "file_ok s V ip" "present s V ip (isize s ip)" "di_type ?x \<noteq> T_DEV" using f by (simp_all add: is_file_def file_body_def)
  have w: "unat (off + n) = unat off + unat n" using o(2) by (simp add: word_less_nat_alt unat_plus_simple [symmetric] word_le_nat_alt)
  have n: "unat ?n = min (unat n) (isize s ip - unat off)" using o(1) w by (auto simp: word_less_nat_alt unat_sub word_le_nat_alt min_def)
  then have N: "unat off + unat ?n \<le> isize s ip" using o(1) by simp
  then have p: "present s V ip (unat off + unat ?n)" "unat ?n \<le> MAXFILE * BSIZE" using F(2) by (auto simp: present_def)
  have x: "map (fbyte s V ip) [unat off..<unat off + unat ?n] = take (unat n) (drop (unat off) (content s V ip))"
    using N n by (intro nth_equalityI) (auto simp: content_def)
  obtain s' where s': "readi_loop ip (unat off) (unat ?n) s = Ret (take (unat n) (drop (unat off) (content s V ip)), s')" "lrep s' V L {}" "same_trans s s'"
    using readi_loop_ok [OF l F(1) r p(1)] x by auto
  have "readi D ip off n s = Ret (sint ?n, take (unat n) (drop (unat off) (content s V ip)), s')"
    using F(3) o s'(1) by (simp add: readi_def Let_def word_less_nat_alt)
  then show thesis using that s'(2,3) sint_size [OF p(2)] n by (simp add: min.commute)
qed

section \<open>Writing a file\<close>

text \<open>Where the file has its blocks already, \<open>writei\<close> leaves the inode alone.\<close>

lemma rewrite_step:
  assumes l: "lrep s V L {}" and m: "bm_ok s V" and f: "file_ok s V ip" and r: "room 1 s L {}"
    and p: "off < MAXFILE * BSIZE" "fblk (addrs s ip) V (off div BSIZE) \<noteq> 0" and x: "off mod BSIZE + length x \<le> BSIZE"
  obtains a s1 s2 V2 L2 where "bmap ip (off div BSIZE) s = Ret (a, s1)" and "i_dev (inodes s1 ip) = 1" and "change_block 1 a (splice (off mod BSIZE) x) s1 = Ret s2"
    and "lrep s2 V2 L2 {}" and "bm_ok s2 V2" and "file_ok s2 V2 ip" and "same_trans s s2" and "length L2 \<le> length L + 1"
    and "\<forall>k. fblk (addrs s2 ip) V2 k = fblk (addrs s ip) V k"
proof -
  let ?bn = "off div BSIZE" and ?a = "fblk (addrs s ip) V (off div BSIZE)"
  have bn: "?bn < MAXFILE" by (rule block_range [OF p(1)])
  obtain s1 where b: "bmap ip ?bn s = Ret (of_nat ?a, s1)" "lrep s1 V L {}" "same_trans s s1" by (rule bmap_have [OF l f r bn p(2)])
  have S: "addrs s1 ip = addrs s ip" using same_fs(2) [OF b(3)] by simp
  have f1: "file_ok s1 V ip" "bm_ok s1 V" using file_ok_same [OF b(3)] f bm_same [OF b(3)] m by simp_all
  have a: "home s1 ?a" "length (V ?a) = BSIZE"
    using file_okD(3) [OF f bn p(2)] lrep_length [OF l, of ?a] home_same(1) [OF b(3)] by (auto simp: data_def home_def)
  let ?V = "V(?a := splice (off mod BSIZE) x (V ?a))"
  have "room 1 s1 L {}" using room_same [OF r b(3)] by simp
  then obtain s2 where c: "change_block 1 (of_nat ?a) (splice (off mod BSIZE) x) s1 = Ret s2" "lrep s2 ?V (logged ?a L) {}" "same_trans s1 s2"
    using change_block_ok [OF b(2) a(1), of "splice (off mod BSIZE) x"] a(2) x by auto
  have X: "ext ip s1 V s1 V L" by (rule ext_refl [OF b(2) f1(2,1)])
  have E: "ext ip s1 V s2 ?V (logged ?a L)" "\<And>k. fblk (addrs s2 ip) ?V k = fblk (addrs s ip) V k"
    using ext_write [OF X bn _ _ c(3), of "splice (off mod BSIZE) x (V ?a)" "logged ?a L"] c(2) p(2) unfolding S by auto
  show thesis
    by (rule that [OF b(1) _ c(1,2) extD(2,3) [OF E(1)] same_trans_trans [OF b(3) c(3)]])
      (use file_okD(2) [OF f1(1)] logged_simps(3) [of ?a L] E(2) in auto)
qed

lemma writei_loop_have:
  assumes "lrep s V L {}" and "bm_ok s V" and "file_ok s V ip" and "room t s L {}" and "present s V ip (off + length src)"
    and "src = [] \<or> off mod BSIZE + length src \<le> t * BSIZE"
  shows "\<exists>s'. writei_loop ip off src s = Ret (off + length src, s') \<and> inodes s' = inodes s"
  using assms
proof (induction t arbitrary: off src s V L)
  case 0
  then show ?case by (auto simp: writei_loop.simps)
next
  case (Suc t)
  show ?case
  proof (cases "src = []")
    case True
    then show ?thesis by (simp add: writei_loop.simps)
  next
    case False
    let ?m = "min (length src) (BSIZE - off mod BSIZE)"
    note A = block_advance [OF False, of off]
    have p: "off < MAXFILE * BSIZE" "fblk (addrs s ip) V (off div BSIZE) \<noteq> 0"
      using Suc.prems(5) length_greater_0_conv [of src] False unfolding present_def by (linarith, simp)
    have "room 1 s L {}" by (rule room_mono [OF Suc.prems(4)]) simp
    then obtain a s1 s2 V2 L2 where e: "bmap ip (off div BSIZE) s = Ret (a, s1)" "i_dev (inodes s1 ip) = 1" "change_block 1 a (splice (off mod BSIZE) (take ?m src)) s1 = Ret s2"
      "lrep s2 V2 L2 {}" "bm_ok s2 V2" "file_ok s2 V2 ip" "same_trans s s2" "length L2 \<le> length L + 1" "\<forall>k. fblk (addrs s2 ip) V2 k = fblk (addrs s ip) V k"
      by (rule rewrite_step [OF Suc.prems(1-3) _ p A(2)])
    have "room t s2 L2 {}" by (rule room_same [OF Suc.prems(4) e(7)]) (use e(8) in simp)
    moreover have "present s2 V2 ip (off + ?m + length (drop ?m src))" using Suc.prems(5) e(9) by (simp add: present_def)
    ultimately obtain s' where IH: "writei_loop ip (off + ?m) (drop ?m src) s2 = Ret (off + ?m + length (drop ?m src), s')" "inodes s' = inodes s2"
      using Suc.IH [OF e(4-6) _ _ A(3) [OF Suc.prems(6)]] by blast
    have "writei_loop ip off src s = Ret (off + length src, s')"
      using False e(1-3) IH(1) by (subst writei_loop.simps) (simp add: Let_def)
    then show ?thesis using IH(2) same_fs(2) [OF e(7)] by simp
  qed
qed

lemma written_bytes:
  assumes w: "written ip off x s V s1 V1" and p: "present s V ip (isize s ip)" and o: "off \<le> isize s ip" "off + length x \<le> MAXFILE * BSIZE"
  shows "present s1 V1 ip (max (isize s ip) (off + length x))"
    and "map (fbyte s1 V1 ip) [0..<max (isize s ip) (off + length x)] = take off (content s V ip) @ x @ drop (off + length x) (content s V ip)"
proof -
  have M: "max (isize s ip) (off + length x) \<le> MAXFILE * BSIZE" using p o by (simp add: present_def)
  have a: "fblk (addrs s1 ip) V1 (k div BSIZE) \<noteq> 0 \<and> fbyte s1 V1 ip k = (if off \<le> k \<and> k < off + length x then x ! (k - off) else content s V ip ! k)"
    if k: "k < max (isize s ip) (off + length x)" for k
  proof -
    have kM: "k < MAXFILE * BSIZE" using k M by linarith
    show ?thesis
    proof (cases "off \<le> k \<and> k < off + length x")
      case True
      then show ?thesis using w kM by (simp add: written_def)
    next
      case False
      then have "k < isize s ip" using k o(1) by linarith
      then show ?thesis using w kM p False by (auto simp: written_def present_def content_def)
    qed
  qed
  then show "present s1 V1 ip (max (isize s ip) (off + length x))" using M by (simp add: present_def)
  show "map (fbyte s1 V1 ip) [0..<max (isize s ip) (off + length x)] = take off (content s V ip) @ x @ drop (off + length x) (content s V ip)"
    using a o(1) by (cases "isize s ip \<le> off + length x"; intro nth_equalityI) (auto simp: nth_append min_absorb1 max_def)
qed

definition set_size :: "nat \<Rightarrow> u32 \<Rightarrow> 'a fsst_scheme \<Rightarrow> 'a fsst_scheme" where
  "set_size ip z s = updi ip (\<lambda>x. x\<lparr>di := (di x)\<lparr>di_size := z\<rparr>\<rparr>) s"

lemma size_fields [simp]:
  "addrs (set_size ip z s) ip = addrs s ip" "isize (set_size ip z s) ip = unat z" "iblk (set_size ip z s) ip = iblk s ip"
  "file_ok (set_size ip z s) V ip = file_ok s V ip" "fbyte (set_size ip z s) V ip = fbyte s V ip" "present (set_size ip z s) V ip n = present s V ip n"
  "di_type (di (inodes (set_size ip z s) ip)) = di_type (di (inodes s ip))" "lrep (set_size ip z s) V L K = lrep s V L K"
  "room n (set_size ip z s) L K = room n s L K" "bm_ok (set_size ip z s) V = bm_ok s V"
  by (simp_all add: set_size_def iblk_def file_ok_def data_def fbyte_def present_def fun_eq_iff Let_def)

lemma is_file_iblk:
  assumes "file_body s V ip"
    and "same_trans s s'" and "synced s' (V(iblk s ip := d)) ip"
  shows "is_file s' (V(iblk s ip := d)) ip" and "content s' (V(iblk s ip := d)) ip = content s V ip"
proof -
  have F: "bm_ok s V" "file_ok s V ip" "present s V ip (isize s ip)" "di_type (di (inodes s ip)) \<noteq> T_DEV" using assms(1) by (auto simp: file_body_def)
  have S: "inodes s' = inodes s" by (rule same_fs(2) [OF assms(2)])
  have p: "present s (V(iblk s ip := d)) ip (isize s ip)" using F(3) iblk_not_file [OF F(2), of d] by (simp add: present_def)
  show "is_file s' (V(iblk s ip := d)) ip"
    using F file_ok_iblk [OF F(2), of d] file_ok_same [OF assms(2)] bm_same [OF assms(2)] fbyte_same(2) [OF assms(2)] p assms(3) S by (simp add: is_file_def file_body_def)
  have "fbyte s (V(iblk s ip := d)) ip k = fbyte s V ip k" if "k < isize s ip" for k
    using fbyte_iblk [OF F(2), of k d] F(3) that by (simp add: present_def)
  then show "content s' (V(iblk s ip := d)) ip = content s V ip" using S fbyte_same(1) [OF assms(2)] by (simp add: content_def)
qed

text \<open>The entries of the cache are those of before, up to the contents of inodes.\<close>

definition same_refs :: "'a fsst_scheme \<Rightarrow> 'a fsst_scheme \<Rightarrow> bool" where
  "same_refs s s' \<longleftrightarrow> (\<forall>p. i_dev (inodes s' p) = i_dev (inodes s p) \<and> i_inum (inodes s' p) = i_inum (inodes s p) \<and> i_ref (inodes s' p) = i_ref (inodes s p)
     \<and> i_flags (inodes s' p) = i_flags (inodes s p) \<and> di_type (di (inodes s' p)) = di_type (di (inodes s p)) \<and> di_nlink (di (inodes s' p)) = di_nlink (di (inodes s p)))"

lemma writei_ok:
  assumes l: "lrep s V L {}" and f: "is_file s V ip" and r: "room (6 * t + 1) s L {}" and fr: "2 * t \<le> card (free_blocks s V)"
    and o: "unat off \<le> isize s ip" "unat off + unat n \<le> MAXFILE * BSIZE" and n: "unat n \<le> length src" "unat off mod BSIZE + unat n \<le> t * BSIZE"
  obtains s' V' L' where "writei D ip src off n s = Ret (int (unat n), s')" and "lrep s' V' L' {}" and "is_file s' V' ip" and "length L' \<le> length L + 6 * t + 1"
    and "content s' V' ip = take (unat off) (content s V ip) @ take (unat n) src @ drop (unat off + unat n) (content s V ip)" and "outstanding s' = outstanding s"
    and "lg_size s' = lg_size s" and "same_refs s s'"
proof -
  let ?o = "unat off" and ?x = "take (unat n) src" and ?c = "content s V ip" and ?e = "unat off + unat n"
  have F: "bm_ok s V" "file_ok s V ip" "present s V ip (isize s ip)" "di_type (di (inodes s ip)) \<noteq> T_DEV" "synced s V ip"
    using f by (simp_all add: is_file_def file_body_def)
  have x: "length ?x = unat n" using n(1) by simp
  have r6: "room (6 * t) s L {}" by (rule room_mono [OF r]) simp
  obtain s1 V1 L1 where s1: "writei_loop ip ?o ?x s = Ret (?e, s1)" "ext ip s V s1 V1 L1" "written ip ?o ?x s V s1 V1" "length L1 \<le> length L + 6 * t"
    using writei_loop_ok [OF l F(1,2) r6 fr, of ?o ?x] o(2) n(2) unfolding x by blast
  note X = extD [OF s1(2)] and W = written_bytes [OF s1(3) F(3) o(1), unfolded x, OF o(2)]
  obtain al where al: "same_trans (set_addrs ip al s) s1" using s1(2) by (auto simp: ext_def)
  have S: "di_size (di (inodes s1 ip)) = di_size (di (inodes s ip))" "di_type (di (inodes s1 ip)) = di_type (di (inodes s ip))"
    "iblk s1 ip = iblk s ip" "islot s1 ip = islot s ip" "outstanding s1 = outstanding s" "lg_size s1 = lg_size s"
    using same_fs [OF al] al by (simp_all add: iblk_def islot_def same_trans_def set_addrs_def)
  have refs: "same_refs s s1" using same_fs(2) [OF al] by (simp add: same_refs_def set_addrs_def)
  note nw = no_wrap [OF o(2)]
  have e: "of_nat ?e = off + n" by simp
  have guards: "\<not> off > di_size (di (inodes s ip))" "\<not> off + n > of_nat (MAXFILE * BSIZE)" "sint n = int (unat n)"
    using o nw(1) sint_size [of n] by (simp_all add: word_less_nat_alt fs_consts)
  show thesis
  proof (cases "isize s ip < ?e")
    case True
    then have g: "n > 0" "off + n > di_size (di (inodes s1 ip))" using o(1) S(1) nw(1) by (auto simp: word_less_nat_alt)
    let ?s = "set_size ip (off + n) s1"
    have body: "file_body ?s V1 ip" using X(2,3) W(1) S(2) F(4) True nw(1) by (simp add: file_body_def)
    have "room 1 ?s L1 {}" using X(7) [of 1 L "6 * t + 1"] s1(4) r by simp
    then obtain s2 d L2 where u: "iupdate ip ?s = Ret s2" "lrep s2 (V1(iblk ?s ip := d)) L2 {}" "same_trans ?s s2" "synced s2 (V1(iblk ?s ip := d)) ip" "length L2 \<le> length L1 + 1"
      using iupdate_ok [of ?s V1 L1 ip] X(1,3) by (metis size_fields(4,8))
    note Y = is_file_iblk [OF body u(3,4)]
    have "writei D ip src off n s = Ret (int (unat n), s2)"
      using F(4) nw(2) guards s1(1) g u(1) by (simp add: writei_def Let_def set_size_def)
    moreover have "content s2 (V1(iblk ?s ip := d)) ip = take ?o ?c @ ?x @ drop ?e ?c" using Y(2) W(2) True nw(1) by (simp add: content_def)
    moreover have "outstanding s2 = outstanding s" "lg_size s2 = lg_size s" using u(3) S(5,6) by (simp_all add: same_trans_def set_size_def)
    moreover have "same_refs s s2" using refs same_fs(2) [OF u(3)] by (simp add: same_refs_def set_size_def)
    ultimately show ?thesis using that u(2,5) Y(1) s1(4) by (meson add_le_mono1 le_trans)
  next
    case False
    have "present s V ip (?o + length ?x)" using F(3) False unfolding x present_def by auto
    moreover have "room t s L {}" by (rule room_mono [OF r]) simp
    ultimately have I: "inodes s1 = inodes s" using writei_loop_have [OF l F(1,2), of t ?o ?x] s1(1) n(2) unfolding x by auto
    have "writei D ip src off n s = Ret (int (unat n), s1)"
      using F(4) nw guards s1(1) False I by (simp add: writei_def Let_def word_less_nat_alt)
    moreover have "content s1 V1 ip = take ?o ?c @ ?x @ drop ?e ?c" using W(2) False I by (simp add: content_def max_absorb1)
    moreover have "is_file s1 V1 ip"
      using X(2,3) W(1) False I F(4,5) S(3,4) s1(3) by (simp add: is_file_def file_body_def max_absorb1 synced_def written_def)
    ultimately show ?thesis using that X(1) s1(4) S(5,6) refs by (metis add.commute le_Suc_eq plus_1_eq_Suc)
  qed
qed

lemma writei_rejects:
  assumes "is_file s V ip" and "isize s ip < unat off \<or> MAXFILE * BSIZE < unat off + unat n"
  shows "writei D ip src off n s = Ret (-1, s)"
proof -
  have "di_size (di (inodes s ip)) < off \<or> off + n < off \<or> of_nat (MAXFILE * BSIZE) < off + n"
  proof (cases "off + n < off")
    case False
    then have "unat (off + n) = unat off + unat n" by (simp add: word_less_nat_alt unat_plus_simple [symmetric] word_le_nat_alt)
    then show ?thesis using assms(2) by (auto simp: word_less_nat_alt fs_consts)
  qed simp
  then show ?thesis using assms(1) by (auto simp: writei_def Let_def is_file_def file_body_def)
qed

section \<open>A small file system\<close>

text \<open>
  The disk \<open>mkfs\<close> would make with no files but inode 2, an empty one: the blocks up to the bitmap, block
  58, are in use.
\<close>

definition empty_file :: dinode where
  "empty_file = (free_dinode T_FILE)\<lparr>di_nlink := 1\<rparr>"

definition bitmap0 :: "u8 list" where
  "bitmap0 = replicate 7 255 @ [7] @ replicate 504 0"

definition fsdisk :: "nat \<Rightarrow> u8 list" where
  "fsdisk = disk0(58 := bitmap0, 32 := put_dinode 2 empty_file (replicate BSIZE 0))"

definition fs_on :: fsst where
  "fs_on = \<lparr>lks = \<lambda>_. \<lparr>locked = 0, lk_name = [], lk_cpu = None\<rparr>, tcpu = \<lparr>ncli = 0, intena = False, if_flag = True, cpu_proc = Some 0\<rparr>,
     tme = 0, twoken = [], bufs = \<lambda>_. \<lparr>bflags = 0, bdev = 0, blockno = 0, bprev = BHead, bnext = BHead, bdata = replicate BSIZE 0\<rparr>,
     memdisk = fsdisk, disksize = 2000, bwrites = [], lg_start = 0, lg_size = 0, outstanding = 0, committing = False, lg_dev = 0, lh_n = 0, lh_block = \<lambda>_. 0,
     sb = sb_of sb0, inodes = \<lambda>_. \<lparr>i_dev = 1, i_inum = 2, i_ref = 1, i_flags = 3, di = empty_file\<rparr>, cwd = 0\<rparr>"

lemma length_fsdisk: "length (fsdisk n) = BSIZE"
  using sb0_fields(7) length_put_dinode [of empty_file 2 "replicate BSIZE 0"]
  by (auto simp: fsdisk_def disk0_def bitmap0_def BSIZE_def empty_file_def free_dinode_def IPB_def)

lemma sb_of_sb0: "sb_size (sb_of sb0) = 2000" "sb_bmapstart (sb_of sb0) = 58" "sb_inodestart (sb_of sb0) = 32" "sb_ninodes (sb_of sb0) = 200"
  using sb0_fields by (simp_all add: sb_of_def)

lemma bmb0: "b < 2000 \<Longrightarrow> bmb (sb_of sb0) b = 58"
  by (simp add: bmb_def sb_of_sb0 BPB_def BSIZE_def)

lemma used0:
  assumes "b < 2000"
  shows "used (sb_of sb0) (fsdisk(2 := h)) b \<longleftrightarrow> b < 59"
proof -
  have "used (sb_of sb0) (fsdisk(2 := h)) b \<longleftrightarrow> bit (bitmap0 ! (b div 8)) (b mod 8)"
    using assms by (simp add: used_def bmb0 bit_set_bit fsdisk_def BPB_def BSIZE_def)
  moreover have "b div 8 < 250" using assms by simp
  moreover have "bit (255 :: u8) k" if "k < 8" for k using that bit_mask_iff [of 8 k, where 'a = u8] by (simp add: mask_eq_exp_minus_1)
  moreover have "bit (7 :: u8) k \<longleftrightarrow> k < 3" if "k < 8" for k using that bit_mask_iff [of 3 k, where 'a = u8] by (simp add: mask_eq_exp_minus_1)
  moreover have "b = 8 * (b div 8) + b mod 8" "b mod 8 < 8" by simp_all
  ultimately show ?thesis by (cases "b div 8" "7 :: nat" rule: linorder_cases) (simp_all add: bitmap0_def nth_append nth_Cons', (linarith | auto)+)
qed

lemma demo_fs:
  obtains s :: fsst and V where "lrep s V [] {}" and "is_file s V 0" and "room 28 s [] {}" and "free_blocks s V = {59..<2000}" and "content s V 0 = []"
    and "disksize s = 2000" and "sb s = sb_of sb0" and "inodes s = inodes fs_on"
proof -
  have c: "cold fs_on" "disksize fs_on = 2000" "memdisk fs_on = fsdisk" using length_fsdisk by (simp_all add: cold_def fs_on_def cpu_ok_def)
  have "logdisk (unat (2000 :: u32)) fsdisk 2 30 []"
    using sb0_fields by (simp add: logdisk_def header_def fsdisk_def disk0_def get4_zero BSIZE_def)
  then obtain r :: fsst and h where r: "lg_start r = 2" "lg_size r = 30" "disksize r = 2000" "outstanding r = outstanding fs_on" "lst.more r = lst.more fs_on"
    "committing r = committing fs_on" "lrep r (apply_writes (map (\<lambda>j. ([] ! j, fsdisk (Suc (unat (2 :: u32) + j)))) [0..<length ([] :: nat list)] @ [(unat (2 :: u32), h)]) fsdisk) [] {}"
    using initlog_ok [OF c(1,2), of 2 30 "[]"] unfolding c(3) by blast
  let ?V = "fsdisk(2 := h)"
  have l: "lrep r ?V [] {}" "\<not> committing r" "outstanding r = 0" using r by (simp_all add: fs_on_def)
  obtain s :: fsst where s: "lrep s ?V [] {}" "outstanding s = 1" "disksize s = 2000" "lg_start s = 2" "lg_size s = 30" "lst.more s = lst.more r"
    using begin_op_ok [OF l(1,2)] r(1-3) l(3) by (auto simp: LOGSIZE_def MAXOPBLOCKS_def)
  have m: "sb s = sb_of sb0" "inodes s = inodes fs_on" using fsst_more [OF s(6)] fsst_more [OF r(5)] by (simp_all add: fs_on_def)
  have h: "home s n \<longleftrightarrow> n < 2000 \<and> n \<notin> {2..<32} \<and> n \<noteq> 1" for n using s by (auto simp: home_def loga_def)
  have ip: "inodes s 0 = \<lparr>i_dev = 1, i_inum = 2, i_ref = 1, i_flags = 3, di = empty_file\<rparr>" by (simp add: m(2) fs_on_def)
  have ib: "iblk s 0 = 32" "islot s 0 = 2" by (simp_all add: iblk_def islot_def ip IBLOCK_def m(1) sb_of_sb0 IPB_def BSIZE_def)
  have e: "di_addrs empty_file = replicate 11 0" "di_size empty_file = 0" "di_type empty_file = T_FILE" by (simp_all add: empty_file_def free_dinode_def NDIRECT_def)
  have d: "data s ?V 32" by (simp add: data_def m(1) sb_of_sb0 used0 h bmb0)
  have "?V 1 = sb0" by (simp add: fsdisk_def disk0_def)
  then have bm: "bm_ok s ?V" unfolding bm_ok_def m(1) sb_of_sb0 by (auto simp: s(3) sb_of_sb0 used0 h bmb0)
  have "fblk (replicate 11 0) V k = 0" for V k by (simp add: fblk_def fs_consts)
  then have "file_ok s ?V 0" using d by (auto simp: file_ok_def ip ib e own_def fs_consts)
  moreover have "synced s ?V 0"
    using dinode_at_put [of empty_file 2 "replicate BSIZE 0"] e(1) by (simp add: synced_def ib ip fsdisk_def NDIRECT_def IPB_def BSIZE_def)
  ultimately have "is_file s ?V 0" using bm by (simp add: is_file_def file_body_def present_def ip e T_FILE_def T_DEV_def)
  moreover have "free_blocks s ?V = {59..<2000}" by (auto simp: free_blocks_def m(1) sb_of_sb0 used0)
  moreover have "content s ?V 0 = []" by (simp add: content_def ip e)
  moreover have "room 28 s [] {}" using s by (simp add: room_def NBUF_def LOGSIZE_def MAXOPBLOCKS_def)
  ultimately show thesis using that s(1,3) m by blast
qed

section \<open>Properties\<close>

theorem balloc_bfree_witness:
  "\<exists>(s :: fsst) V s'. lrep s V [] {} \<and> free_blocks s V = {59..<2000} \<and> balloc 1 s = Ret (59, s')"
proof -
  obtain s :: fsst and V where s: "lrep s V [] {}" "is_file s V 0" "room 28 s [] {}" "free_blocks s V = {59..<2000}" "disksize s = 2000"
    by (rule demo_fs)
  have "bm_ok s V" "room 3 s [] {}" using s(2) room_mono [OF s(3), of 3] by (simp_all add: is_file_def file_body_def)
  moreover have "Min {59..<2000 :: nat} = 59" by (rule Min_eqI) auto
  ultimately obtain s' where "balloc 1 s = Ret (59, s')" using balloc_bfree [OF s(1)] s(4,5) by auto
  then show ?thesis using s(1,4) by blast
qed

text \<open>
  C4: \<open>writei\<close> and \<open>readi\<close> on a regular file. A write that starts beyond the end of the file, or would
  make it longer than \<open>MAXFILE\<close> blocks, returns -1 and changes nothing. Any other returns the number
  of bytes asked for; the bytes of the file from \<open>off\<close> on are then those of the source, the file is
  extended if need be and its other bytes are as before; the file is still in order, with its inode
  on disk up to date; and \<open>readi\<close> at the same place returns what was written. The transaction must
  have room for the at most six blocks that each block of the file can change and for the inode, and
  the disk the two free blocks that each may need.
\<close>

theorem writei_readi:
  assumes "lrep s V L {}" and "is_file s V ip" and "room (6 * t + 2) s L {}" and "2 * t \<le> card (free_blocks s V)"
    and "unat off mod BSIZE + unat n \<le> t * BSIZE" and "unat n \<le> length src"
  shows "if isize s ip < unat off \<or> MAXFILE * BSIZE < unat off + unat n then writei D ip src off n s = Ret (-1, s)
    else \<exists>s' V' L' s''. writei D ip src off n s = Ret (int (unat n), s') \<and> lrep s' V' L' {} \<and> is_file s' V' ip
      \<and> content s' V' ip = take (unat off) (content s V ip) @ take (unat n) src @ drop (unat off + unat n) (content s V ip)
      \<and> readi D ip off n s' = Ret (int (unat n), take (unat n) src, s'')"
proof (cases "isize s ip < unat off \<or> MAXFILE * BSIZE < unat off + unat n")
  case True
  then show ?thesis using writei_rejects [OF assms(2)] by simp
next
  case False
  then have o: "unat off \<le> isize s ip" "unat off + unat n \<le> MAXFILE * BSIZE" by auto
  have "room (6 * t + 1) s L {}" by (rule room_mono [OF assms(3)]) simp
  then obtain s' V' L' where w: "writei D ip src off n s = Ret (int (unat n), s')" "lrep s' V' L' {}" "is_file s' V' ip" "length L' \<le> length L + 6 * t + 1"
    "content s' V' ip = take (unat off) (content s V ip) @ take (unat n) src @ drop (unat off + unat n) (content s V ip)" "outstanding s' = outstanding s" "lg_size s' = lg_size s"
    by (rule writei_ok [OF assms(1,2) _ assms(4) o assms(6,5)])
  have r: "room 1 s' L' {}" using assms(3) w(4,6,7) by (simp add: room_def)
  have "length (content s' V' ip) = isize s' ip" by simp
  then have "unat off \<le> isize s' ip" using w(5) o(1) by simp
  moreover have "take (unat n) (drop (unat off) (content s' V' ip)) = take (unat n) src" using o(1) assms(6) by (simp add: w(5) min_absorb1)
  ultimately obtain s'' where "readi D ip off n s' = Ret (int (unat n), take (unat n) src, s'')"
    using readi_ok [OF w(2,3) r _ no_wrap(2) [OF o(2)], of D] assms(6) by (metis length_take min_absorb2)
  then show ?thesis using False w(1-3,5) by auto
qed

theorem writei_readi_witness:
  "\<exists>D (s :: fsst) V s' V' L' s''. lrep s V [] {} \<and> content s V 0 = [] \<and> writei D 0 [104, 105, 33] 0 2 s = Ret (2, s') \<and> lrep s' V' L' {}
     \<and> content s' V' 0 = [104, 105] \<and> readi D 0 0 2 s' = Ret (2, [104, 105], s'')"
proof -
  obtain s :: fsst and V where s: "lrep s V [] {}" "is_file s V 0" "room 28 s [] {}" "free_blocks s V = {59..<2000}" "content s V 0 = []"
    by (rule demo_fs)
  have "isize s 0 = 0" using length_content [of s V 0] s(5) by simp
  moreover have "room (6 * 1 + 2) s [] {}" using room_mono [OF s(3), of 8] by simp
  ultimately show ?thesis
    using writei_readi [OF s(1,2), of 1 0 2 "[104, 105, 33]" "\<lparr>dread = \<lambda>_. None, dwrite = \<lambda>_. None\<rparr>"] s(1,4,5) by (fastforce simp: fs_consts)
qed

end
