(* ===== verification/Fsicache.thy ===== *)
theory Fsicache
  imports Fsrw
begin

text \<open>
  The inode cache: \<open>iget\<close>, \<open>idup\<close>, \<open>ilock\<close>, \<open>iunlock\<close> and \<open>iput\<close> of \<open>src/fs.c\<close>. An inode in use has one
  entry of the table, and the reference counts are those of the inodes.
\<close>

section \<open>One section under the lock of the cache\<close>

definition isect :: "nat \<Rightarrow> (inode \<Rightarrow> inode) \<Rightarrow> 'a fsst_scheme \<Rightarrow> 'a fsst_scheme" where
  "isect ip f s = lv LkIcache (updi ip f (ent LkIcache s))"

lemma cs_fs [simp]:
  "sb (ent l s) = sb s" "inodes (ent l s) = inodes s" "cwd (ent l s) = cwd s" "fsst.more (ent l s) = fsst.more s"
  "sb (lv l s) = sb s" "inodes (lv l s) = inodes s" "cwd (lv l s) = cwd s" "fsst.more (lv l s) = fsst.more s"
  "sb (wake ch s) = sb s" "inodes (wake ch s) = inodes s" "cwd (wake ch s) = cwd s" "fsst.more (wake ch s) = fsst.more s"
  "lh_n (wake ch s) = lh_n s" "lh_block (wake ch s) = lh_block s" "lg_start (wake ch s) = lg_start s" "lg_size (wake ch s) = lg_size s"
  "outstanding (wake ch s) = outstanding s" "committing (wake ch s) = committing s" "lg_dev (wake ch s) = lg_dev s"
  by (simp_all add: ent_def lv_def wake_def)

lemma updi_cs [simp]: "inside l (updi ip f s) = inside l s" "quiet (updi ip f s) = quiet s" "fsst.more (updi ip f s) = fsst.more s"
  "lh_n (updi ip f s) = lh_n s" "lh_block (updi ip f s) = lh_block s" "lg_dev (updi ip f s) = lg_dev s"
  by (simp_all add: updi_def inside_def quiet_def)

text \<open>The same file system, up to the table of inodes, the locks and the calls of \<open>wakeup\<close>.\<close>

definition same_disk :: "'a fsst_scheme \<Rightarrow> 'a fsst_scheme \<Rightarrow> bool" where
  "same_disk s s' \<longleftrightarrow> sb s' = sb s \<and> cwd s' = cwd s \<and> disksize s' = disksize s \<and> lg_start s' = lg_start s \<and> lg_size s' = lg_size s
     \<and> outstanding s' = outstanding s \<and> committing s' = committing s \<and> fsst.more s' = fsst.more s"

lemma same_disk_refl [simp]: "same_disk s s"
  by (simp add: same_disk_def)

lemma same_disk_trans: "same_disk s s' \<Longrightarrow> same_disk s' s'' \<Longrightarrow> same_disk s s''"
  by (simp add: same_disk_def)

lemma same_trans_disk: "same_trans s s' \<Longrightarrow> same_disk s s'"
  using fsst_more [of s' s] by (simp add: same_trans_def same_disk_def)

lemma same_diskD:
  assumes "same_disk s s'"
  shows "room n s' L K = room n s L K" "home s' m = home s m" "bm_ok s' V = bm_ok s V" "data s' V m = data s V m" "free_blocks s' V = free_blocks s V"
proof -
  show h: "home s' m = home s m" for m using assms by (simp add: same_disk_def home_def loga_def)
  show "room n s' L K = room n s L K" using assms by (simp add: same_disk_def room_def)
  show "data s' V m = data s V m" using assms h by (simp add: same_disk_def data_def)
  show "bm_ok s' V = bm_ok s V" using assms h by (simp add: same_disk_def bm_ok_def)
  show "free_blocks s' V = free_blocks s V" using assms by (simp add: same_disk_def free_blocks_def)
qed

lemma isect_ok:
  assumes "lrep s V L K"
  shows "bindr (acq LkIcache s) (\<lambda>s. rel LkIcache (updi ip f s)) = Ret (isect ip f s)"
    and "lrep (isect ip f s) V L K" and "same_disk s (isect ip f s)" and "inodes (isect ip f s) = (inodes s)(ip := f (inodes s ip))"
proof -
  have q: "quiet s" using assms brepD(1) by (auto simp: lrep_def)
  have i: "inside LkIcache (updi ip f (ent LkIcache s))" using inside_ent [OF q] by simp
  show "bindr (acq LkIcache s) (\<lambda>s. rel LkIcache (updi ip f s)) = Ret (isect ip f s)"
    using i by (simp add: acq_quiet [OF q] rel_inside isect_def)
  have "quiet (isect ip f s)" using quiet_lv [OF i] by (simp add: isect_def)
  then show "lrep (isect ip f s) V L K" using assms lrep_cong [of "isect ip f s" s V L K] q by (simp add: isect_def)
  show "same_disk s (isect ip f s)" by (simp add: same_disk_def isect_def)
  show "inodes (isect ip f s) = (inodes s)(ip := f (inodes s ip))" by (simp add: isect_def)
qed

section \<open>The table\<close>

text \<open>The inode an entry is for, the references to an inode, and that the table is in order.\<close>

definition ikey :: "inode \<Rightarrow> u32 \<times> u32" where
  "ikey x = (i_dev x, i_inum x)"

definition iref :: "(nat \<Rightarrow> inode) \<Rightarrow> u32 \<times> u32 \<Rightarrow> int" where
  "iref I k = (\<Sum>ip<NINODE. if ikey (I ip) = k then i_ref (I ip) else 0)"

definition icache_ok :: "(nat \<Rightarrow> inode) \<Rightarrow> bool" where
  "icache_ok I \<longleftrightarrow> (\<forall>ip<NINODE. 0 \<le> i_ref (I ip)) \<and>
     (\<forall>ip<NINODE. \<forall>jp<NINODE. 0 < i_ref (I ip) \<and> 0 < i_ref (I jp) \<and> ikey (I ip) = ikey (I jp) \<longrightarrow> ip = jp)"

lemma iref_upd:
  assumes "ip < NINODE"
  shows "iref (I(ip := x)) k = iref I k - (if ikey (I ip) = k then i_ref (I ip) else 0) + (if ikey x = k then i_ref x else 0)"
proof -
  let ?g = "\<lambda>J j. if ikey (J j) = k then i_ref (J j) else 0"
  have S: "iref J k = ?g J ip + sum (?g J) ({..<NINODE} - {ip})" for J unfolding iref_def using assms by (subst sum.remove [of _ ip]) auto
  have "sum (?g (I(ip := x))) ({..<NINODE} - {ip}) = sum (?g I) ({..<NINODE} - {ip})" by (rule sum.cong) auto
  then show ?thesis using S [of I] S [of "I(ip := x)"] by simp
qed

lemma iref_entry:
  assumes "icache_ok I" and "ip < NINODE" and "0 < i_ref (I ip)"
  shows "iref I (ikey (I ip)) = i_ref (I ip)"
proof -
  have "iref I (ikey (I ip)) = i_ref (I ip) + (\<Sum>jp\<in>{..<NINODE} - {ip}. if ikey (I jp) = ikey (I ip) then i_ref (I jp) else 0)"
    unfolding iref_def using assms(2) by (subst sum.remove [of _ ip]) auto
  moreover have "(if ikey (I jp) = ikey (I ip) then i_ref (I jp) else 0) = 0" if "jp \<in> {..<NINODE} - {ip}" for jp
    using assms that unfolding icache_ok_def by (cases "i_ref (I jp) = 0") (auto simp: order_less_le)
  ultimately show ?thesis by (simp add: sum.neutral)
qed

lemma icache_upd:
  assumes "icache_ok I" and "0 \<le> i_ref x" and "\<And>jp. jp < NINODE \<Longrightarrow> jp \<noteq> ip \<Longrightarrow> 0 < i_ref x \<Longrightarrow> 0 < i_ref (I jp) \<Longrightarrow> ikey (I jp) \<noteq> ikey x"
  shows "icache_ok (I(ip := x))"
  using assms unfolding icache_ok_def fun_upd_apply by metis

section \<open>References\<close>

definition is_cached :: "(nat \<Rightarrow> inode) \<Rightarrow> u32 \<times> u32 \<Rightarrow> bool" where
  "is_cached I k \<longleftrightarrow> (\<exists>ip<NINODE. 0 < i_ref (I ip) \<and> ikey (I ip) = k)"

definition free_entries :: "(nat \<Rightarrow> inode) \<Rightarrow> nat set" where
  "free_entries I = {ip. ip < NINODE \<and> i_ref (I ip) = 0}"

text \<open>What \<open>iget\<close> makes of the entry.\<close>

definition got_inode :: "(nat \<Rightarrow> inode) \<Rightarrow> u32 \<times> u32 \<Rightarrow> nat \<Rightarrow> inode" where
  "got_inode I k ip = (if is_cached I k then (I ip)\<lparr>i_ref := i_ref (I ip) + 1\<rparr> else (I ip)\<lparr>i_dev := fst k, i_inum := snd k, i_ref := 1, i_flags := 0\<rparr>)"

lemma iget_hit:
  assumes "lrep s V L K" and "icache_ok (inodes s)" and "is_cached (inodes s) (dev, inum)"
  obtains ip where "ip < NINODE" and "0 < i_ref (inodes s ip)" and "ikey (inodes s ip) = (dev, inum)"
    and "iget dev inum s = Ret (ip, isect ip (\<lambda>x. x\<lparr>i_ref := i_ref x + 1\<rparr>) s)"
proof -
  let ?P = "\<lambda>ip. 0 < i_ref (inodes s ip) \<and> i_dev (inodes s ip) = dev \<and> i_inum (inodes s ip) = inum"
  have "find ?P [0..<NINODE] \<noteq> None" using assms(3) by (auto simp: find_upt_None is_cached_def ikey_def)
  then obtain ip where ip: "find ?P [0..<NINODE] = Some ip" by blast
  have q: "quiet s" using assms(1) brepD(1) by (auto simp: lrep_def)
  have "iget dev inum s = Ret (ip, isect ip (\<lambda>x. x\<lparr>i_ref := i_ref x + 1\<rparr>) s)"
    using ip isect_ok(1) [OF assms(1), of ip "\<lambda>x. x\<lparr>i_ref := i_ref x + 1\<rparr>"] by (simp add: iget_def acq_quiet [OF q])
  then show thesis using that [of ip] find_upt_Some [OF ip] by (simp add: ikey_def)
qed

lemma iget_miss:
  assumes "lrep s V L K" and "icache_ok (inodes s)" and "\<not> is_cached (inodes s) (dev, inum)"
  shows "if free_entries (inodes s) = {} then iget dev inum s = Panic ''iget: no inodes''
    else \<exists>ip\<in>free_entries (inodes s). iget dev inum s = Ret (ip, isect ip (\<lambda>x. x\<lparr>i_dev := dev, i_inum := inum, i_ref := 1, i_flags := 0\<rparr>) s)"
proof -
  let ?P = "\<lambda>ip. 0 < i_ref (inodes s ip) \<and> i_dev (inodes s ip) = dev \<and> i_inum (inodes s ip) = inum" and ?Q = "\<lambda>ip. i_ref (inodes s ip) = 0"
  have P: "find ?P [0..<NINODE] = None" using assms(3) by (auto simp: find_upt_None is_cached_def ikey_def)
  have q: "quiet s" using assms(1) brepD(1) by (auto simp: lrep_def)
  show ?thesis
  proof (cases "find ?Q [0..<NINODE]")
    case None
    then have "free_entries (inodes s) = {}" by (auto simp: find_upt_None free_entries_def)
    moreover have "iget dev inum s = Panic ''iget: no inodes''" using P None by (simp add: iget_def acq_quiet [OF q])
    ultimately show ?thesis by simp
  next
    case (Some ip)
    then have "ip \<in> free_entries (inodes s)" using find_upt_Some [OF Some] by (simp add: free_entries_def)
    moreover have "iget dev inum s = Ret (ip, isect ip (\<lambda>x. x\<lparr>i_dev := dev, i_inum := inum, i_ref := 1, i_flags := 0\<rparr>) s)"
      using P Some isect_ok(1) [OF assms(1), of ip "\<lambda>x. x\<lparr>i_dev := dev, i_inum := inum, i_ref := 1, i_flags := 0\<rparr>"] by (simp add: iget_def acq_quiet [OF q])
    ultimately show ?thesis by auto
  qed
qed

text \<open>What a step of the cache promises: the blocks are as before, the table is in order, the references are \<open>R\<close>.\<close>

definition istep :: "'a fsst_scheme \<Rightarrow> (nat \<Rightarrow> u8 list) \<Rightarrow> nat list \<Rightarrow> nat set \<Rightarrow> 'a fsst_scheme \<Rightarrow> (u32 \<times> u32 \<Rightarrow> int) \<Rightarrow> bool" where
  "istep s V L K s' R \<longleftrightarrow> lrep s' V L K \<and> same_disk s s' \<and> icache_ok (inodes s') \<and> iref (inodes s') = R"

lemma iget_ok:
  assumes l: "lrep s V L K" and c: "icache_ok (inodes s)"
  shows "if is_cached (inodes s) (dev, inum) \<or> free_entries (inodes s) \<noteq> {}
    then \<exists>ip s'. iget dev inum s = Ret (ip, s') \<and> ip < NINODE \<and> istep s V L K s' ((iref (inodes s))((dev, inum) := iref (inodes s) (dev, inum) + 1))
      \<and> inodes s' = (inodes s)(ip := got_inode (inodes s) (dev, inum) ip)
      \<and> (if is_cached (inodes s) (dev, inum) then 0 < i_ref (inodes s ip) \<and> ikey (inodes s ip) = (dev, inum) else i_ref (inodes s ip) = 0)
    else iget dev inum s = Panic ''iget: no inodes''"
proof (cases "is_cached (inodes s) (dev, inum)")
  case True
  obtain ip where ip: "ip < NINODE" "0 < i_ref (inodes s ip)" "ikey (inodes s ip) = (dev, inum)"
    "iget dev inum s = Ret (ip, isect ip (\<lambda>x. x\<lparr>i_ref := i_ref x + 1\<rparr>) s)" by (rule iget_hit [OF l c True])
  note I = isect_ok(2-4) [OF l, of ip "\<lambda>x. x\<lparr>i_ref := i_ref x + 1\<rparr>"]
  let ?x = "(inodes s ip)\<lparr>i_ref := i_ref (inodes s ip) + 1\<rparr>"
  have "icache_ok ((inodes s)(ip := ?x))" by (rule icache_upd [OF c]) (use c ip in \<open>auto simp: icache_ok_def ikey_def\<close>)
  moreover have "iref ((inodes s)(ip := ?x)) = (iref (inodes s))((dev, inum) := iref (inodes s) (dev, inum) + 1)"
    using ip(3) by (auto simp: iref_upd [OF ip(1)] ikey_def)
  ultimately show ?thesis using True ip I by (auto simp: istep_def got_inode_def)
next
  case False
  show ?thesis
  proof (cases "free_entries (inodes s) = {}")
    case True
    then show ?thesis using False iget_miss [OF l c False] by simp
  next
    case F: False
    let ?f = "\<lambda>x. x\<lparr>i_dev := dev, i_inum := inum, i_ref := 1, i_flags := 0\<rparr>"
    obtain ip where "ip \<in> free_entries (inodes s)" "iget dev inum s = Ret (ip, isect ip ?f s)" using iget_miss [OF l c False] F by auto
    then have ip: "ip < NINODE" "i_ref (inodes s ip) = 0" "iget dev inum s = Ret (ip, isect ip ?f s)" by (simp_all add: free_entries_def)
    have "icache_ok ((inodes s)(ip := ?f (inodes s ip)))" by (rule icache_upd [OF c]) (use False in \<open>auto simp: is_cached_def ikey_def\<close>)
    moreover have "iref ((inodes s)(ip := ?f (inodes s ip))) = (iref (inodes s))((dev, inum) := iref (inodes s) (dev, inum) + 1)"
      using ip(2) by (auto simp: iref_upd [OF ip(1)] ikey_def)
    ultimately show ?thesis using False F ip isect_ok(2-4) [OF l, of ip ?f] by (auto simp: istep_def got_inode_def)
  qed
qed

lemma idup_ok:
  assumes l: "lrep s V L K" and c: "icache_ok (inodes s)" and ip: "ip < NINODE" "0 < i_ref (inodes s ip)"
  obtains s' where "idup ip s = Ret s'" and "istep s V L K s' ((iref (inodes s))(ikey (inodes s ip) := i_ref (inodes s ip) + 1))"
    and "inodes s' = (inodes s)(ip := (inodes s ip)\<lparr>i_ref := i_ref (inodes s ip) + 1\<rparr>)"
proof -
  let ?x = "(inodes s ip)\<lparr>i_ref := i_ref (inodes s ip) + 1\<rparr>"
  note I = isect_ok [OF l, of ip "\<lambda>x. x\<lparr>i_ref := i_ref x + 1\<rparr>"]
  have "icache_ok ((inodes s)(ip := ?x))" by (rule icache_upd [OF c]) (use c ip in \<open>auto simp: icache_ok_def ikey_def\<close>)
  moreover have "iref ((inodes s)(ip := ?x)) = (iref (inodes s))(ikey (inodes s ip) := i_ref (inodes s ip) + 1)"
    using iref_entry [OF c ip] by (auto simp: iref_upd [OF ip(1)] ikey_def)
  ultimately show thesis using that I by (simp add: idup_def istep_def)
qed

text \<open>The last reference to an inode without links frees it on disk; any other is just dropped.\<close>

lemma iput_ok:
  assumes l: "lrep s V L K" and c: "icache_ok (inodes s)" and ip: "ip < NINODE" "0 < i_ref (inodes s ip)"
    and n: "i_ref (inodes s ip) = 1 \<Longrightarrow> i_valid s ip \<Longrightarrow> di_nlink (di (inodes s ip)) \<noteq> 0"
  obtains s' where "iput ip s = Ret s'" and "istep s V L K s' ((iref (inodes s))(ikey (inodes s ip) := i_ref (inodes s ip) - 1))"
    and "inodes s' = (inodes s)(ip := (inodes s ip)\<lparr>i_ref := i_ref (inodes s ip) - 1\<rparr>)"
proof -
  let ?x = "(inodes s ip)\<lparr>i_ref := i_ref (inodes s ip) - 1\<rparr>"
  note I = isect_ok [OF l, of ip "\<lambda>x. x\<lparr>i_ref := i_ref x - 1\<rparr>"]
  have q: "quiet s" using l brepD(1) by (auto simp: lrep_def)
  have "icache_ok ((inodes s)(ip := ?x))" by (rule icache_upd [OF c]) (use c ip in \<open>auto simp: icache_ok_def ikey_def\<close>)
  moreover have "iref ((inodes s)(ip := ?x)) = (iref (inodes s))(ikey (inodes s ip) := i_ref (inodes s ip) - 1)"
    using iref_entry [OF c ip] by (auto simp: iref_upd [OF ip(1)] ikey_def)
  moreover have "iput ip s = Ret (isect ip (\<lambda>x. x\<lparr>i_ref := i_ref x - 1\<rparr>) s)"
    using I(1) n by (auto simp: iput_def acq_quiet [OF q] i_valid_def)
  ultimately show thesis using that I by (simp add: istep_def)
qed

section \<open>Locking\<close>

definition dino :: "superblock \<Rightarrow> (nat \<Rightarrow> u8 list) \<Rightarrow> u32 \<Rightarrow> dinode" where
  "dino x V n = dinode_at (V (unat (IBLOCK n x))) (unat n mod IPB)"

lemma synced_dino: "synced s V ip \<longleftrightarrow> di (inodes s ip) = dino (sb s) V (i_inum (inodes s ip))"
  by (auto simp: synced_def dino_def iblk_def islot_def)

text \<open>The entry of an inode its owner has locked.\<close>

definition locked_inode :: "superblock \<Rightarrow> (nat \<Rightarrow> u8 list) \<Rightarrow> inode \<Rightarrow> inode" where
  "locked_inode x V y = y\<lparr>di := dino x V (i_inum y), i_flags := (i_flags y OR I_BUSY) OR I_VALID\<rparr>"

lemma flag_set:
  fixes f :: u32
  assumes "f AND I_VALID \<noteq> 0"
  shows "(f OR I_BUSY) OR I_VALID = f OR I_BUSY"
proof -
  have "bit f 1" using assms by (simp add: I_VALID_def and_bit)
  then show ?thesis by (intro bit_word_eqI) (auto simp: bit_or_iff I_VALID_def bit_2_iff)
qed

text \<open>The part of \<open>ilock\<close> that fills the entry from the disk.\<close>

definition ifill :: "nat \<Rightarrow> 'a fsst_scheme \<Rightarrow> 'a fsst_scheme res" where
  "ifill ip s =
     bindr (bread (i_dev (inodes s ip)) (IBLOCK (i_inum (inodes s ip)) (sb s)) s) (\<lambda>(bp, s).
     let d = dinode_at (bdata (bufs s (Buf bp))) (unat (i_inum (inodes s ip)) mod IPB); s = updi ip (\<lambda>x. x\<lparr>di := d\<rparr>) s
     in bindr (brelse bp s) (\<lambda>s. let s = updi ip (\<lambda>x. x\<lparr>i_flags := i_flags x OR I_VALID\<rparr>) s
        in if di_type (di (inodes s ip)) = 0 then Panic ''ilock: no type'' else Ret s))"

lemma ifill_ok:
  assumes l: "lrep s V L {}" and r: "room 1 s L {}" and ref: "i_dev (inodes s ip) = 1"
    and d: "iblk s ip < unat (disksize s)" and t: "di_type (dino (sb s) V (i_inum (inodes s ip))) \<noteq> 0"
  obtains s' where "ifill ip s = Ret s'" and "lrep s' V L {}" and "same_disk s s'"
    and "inodes s' = (inodes s)(ip := (inodes s ip)\<lparr>di := dino (sb s) V (i_inum (inodes s ip)), i_flags := i_flags (inodes s ip) OR I_VALID\<rparr>)"
proof -
  obtain i s1 where b: "bread 1 (of_nat (iblk s ip)) s = Ret (i, s1)" "lrep s1 V L {i}" "same_trans s s1" "bdata (bufs s1 (Buf i)) = V (iblk s ip)"
    using bread_lrep [OF l d] room_put [OF r] by auto
  note S1 = same_fs [OF b(3)]
  let ?f = "\<lambda>x. x\<lparr>di := dino (sb s) V (i_inum (inodes s ip))\<rparr>" and ?g = "\<lambda>x. x\<lparr>i_flags := i_flags x OR I_VALID\<rparr>"
  have "lrep (updi ip ?f s1) V L {i}" using b(2) by simp
  then obtain s2 where p: "brelse i (updi ip ?f s1) = Ret s2" "lrep s2 V L {}" "same_trans (updi ip ?f s1) s2"
    using brelse_lrep [of "updi ip ?f s1" V L "{i}" i] by auto
  have I: "inodes s2 = (inodes s)(ip := ?f (inodes s ip))" using same_fs(2) [OF p(3)] S1 by simp
  have "ifill ip s = Ret (updi ip ?g s2)"
    using b(1,4) p(1) S1 ref t I by (simp add: ifill_def Let_def iblk_def dino_def)
  moreover have "same_disk s (updi ip ?g s2)"
    using same_trans_disk [OF b(3)] same_trans_disk [OF p(3)] by (simp add: same_disk_def)
  ultimately show thesis using that p(2) I by simp
qed

lemma ilock_ok:
  assumes l: "lrep s V L {}" and r: "room 1 s L {}" and ref: "0 < i_ref (inodes s ip)" "i_dev (inodes s ip) = 1" and b: "\<not> i_busy s ip"
    and v: "i_valid s ip \<Longrightarrow> synced s V ip" and d: "iblk s ip < unat (disksize s)" and t: "di_type (dino (sb s) V (i_inum (inodes s ip))) \<noteq> 0"
  obtains s' where "ilock (Some ip) s = Ret s'" and "lrep s' V L {}" and "same_disk s s'"
    and "inodes s' = (inodes s)(ip := locked_inode (sb s) V (inodes s ip))"
proof -
  let ?f = "\<lambda>x. x\<lparr>i_flags := i_flags x OR I_BUSY\<rparr>"
  let ?s = "isect ip ?f s"
  note I = isect_ok [OF l, of ip ?f]
  have q: "quiet s" using l brepD(1) by (auto simp: lrep_def)
  have e: "ilock (Some ip) s = (if i_valid ?s ip then Ret ?s else ifill ip ?s)"
    using ref(1) b I(1) by (simp add: ilock_def acq_quiet [OF q] i_busy_def isect_def rel_inside inside_ent [OF q] ifill_def)
  have V: "i_valid ?s ip = i_valid s ip" using I(4) by (simp add: i_valid_def I_VALID_def I_BUSY_def and_bit bit_or_iff bit_1_iff)
  show thesis
  proof (cases "i_valid s ip")
    case True
    then have f: "(i_flags (inodes s ip) OR I_BUSY) OR I_VALID = i_flags (inodes s ip) OR I_BUSY" by (intro flag_set) (simp add: i_valid_def)
    have "ilock (Some ip) s = Ret ?s" using e True V by simp
    moreover have "locked_inode (sb s) V (inodes s ip) = ?f (inodes s ip)" using v [OF True] f by (simp add: locked_inode_def synced_dino)
    ultimately show thesis using that I by simp
  next
    case False
    have S: "sb ?s = sb s" "disksize ?s = disksize s" using I(3) by (simp_all add: same_disk_def)
    have "room 1 ?s L {}" "i_dev (inodes ?s ip) = 1" "iblk ?s ip < unat (disksize ?s)" "di_type (dino (sb ?s) V (i_inum (inodes ?s ip))) \<noteq> 0"
      using same_diskD(1) [OF I(3)] r ref(2) d t S I(4) by (simp_all add: iblk_def)
    then obtain s' where "ifill ip ?s = Ret s'" "lrep s' V L {}" "same_disk ?s s'"
      "inodes s' = (inodes ?s)(ip := (inodes ?s ip)\<lparr>di := dino (sb ?s) V (i_inum (inodes ?s ip)), i_flags := i_flags (inodes ?s ip) OR I_VALID\<rparr>)"
      by (rule ifill_ok [OF I(2)])
    then show thesis using that [of s'] e False V same_disk_trans [OF I(3)] S I(4) by (simp add: locked_inode_def)
  qed
qed

lemma iunlock_ok:
  assumes l: "lrep s V L K" and "i_busy s ip" and "0 < i_ref (inodes s ip)"
  obtains s' where "iunlock (Some ip) s = Ret s'" and "lrep s' V L K" and "same_disk s s'"
    and "inodes s' = (inodes s)(ip := (inodes s ip)\<lparr>i_flags := i_flags (inodes s ip) AND NOT I_BUSY\<rparr>)"
proof -
  let ?f = "\<lambda>x. x\<lparr>i_flags := i_flags x AND NOT I_BUSY\<rparr>"
  let ?t = "wake (ChInode ip) (updi ip ?f (ent LkIcache s))"
  have q: "quiet s" using l brepD(1) by (auto simp: lrep_def)
  have i: "inside LkIcache ?t" using inside_ent [OF q] by simp
  have "iunlock (Some ip) s = Ret (lv LkIcache ?t)" using assms(2,3) i by (simp add: iunlock_def acq_quiet [OF q] rel_inside)
  moreover have "lrep (lv LkIcache ?t) V L K" using l lrep_cong [of "lv LkIcache ?t" s V L K] q quiet_lv [OF i] by simp
  moreover have "same_disk s (lv LkIcache ?t)" by (simp add: same_disk_def)
  ultimately show thesis using that [of "lv LkIcache ?t"] by simp
qed

section \<open>Clients of the cache\<close>

text \<open>
  A client holds references: pointers in the code, inode numbers in the specification. It asks for an
  inode, duplicates or drops a reference, or reads the inode under its lock.
\<close>

datatype iop = IGet u32 | IDup nat | IPut nat | IRead nat

primrec iop_run :: "iop \<Rightarrow> nat list \<Rightarrow> 'a fsst_scheme \<Rightarrow> (dinode list \<times> nat list \<times> 'a fsst_scheme) res" where
  "iop_run (IGet n) hs s = bindr (iget 1 n s) (\<lambda>(ip, s). Ret ([], hs @ [ip], s))"
| "iop_run (IDup k) hs s = bindr (idup (hs ! k) s) (\<lambda>s. Ret ([], hs @ [hs ! k], s))"
| "iop_run (IPut k) hs s = bindr (iput (hs ! k) s) (\<lambda>s. Ret ([], take k hs @ drop (Suc k) hs, s))"
| "iop_run (IRead k) hs s = bindr (ilock (Some (hs ! k)) s) (\<lambda>s.
     let d = di (inodes s (hs ! k)) in bindr (iunlock (Some (hs ! k)) s) (\<lambda>s. Ret ([d], hs, s)))"

primrec iops_run :: "iop list \<Rightarrow> nat list \<Rightarrow> 'a fsst_scheme \<Rightarrow> (dinode list \<times> nat list \<times> 'a fsst_scheme) res" where
  "iops_run [] hs s = Ret ([], hs, s)"
| "iops_run (x # xs) hs s = bindr (iop_run x hs s) (\<lambda>(d, hs, s). bindr (iops_run xs hs s) (\<lambda>(ds, hs, s). Ret (d @ ds, hs, s)))"

primrec iop_spec :: "(u32 \<Rightarrow> dinode) \<Rightarrow> iop \<Rightarrow> u32 list \<Rightarrow> dinode list \<times> u32 list" where
  "iop_spec D (IGet n) ns = ([], ns @ [n])"
| "iop_spec D (IDup k) ns = ([], ns @ [ns ! k])"
| "iop_spec D (IPut k) ns = ([], take k ns @ drop (Suc k) ns)"
| "iop_spec D (IRead k) ns = ([D (ns ! k)], ns)"

primrec iops_spec :: "(u32 \<Rightarrow> dinode) \<Rightarrow> iop list \<Rightarrow> u32 list \<Rightarrow> dinode list \<times> u32 list" where
  "iops_spec D [] ns = ([], ns)"
| "iops_spec D (x # xs) ns = (let (d, ns) = iop_spec D x ns; (ds, ns) = iops_spec D xs ns in (d @ ds, ns))"

primrec iop_ok :: "(u32 \<Rightarrow> bool) \<Rightarrow> u32 list \<Rightarrow> iop \<Rightarrow> bool" where
  "iop_ok G ns (IGet n) \<longleftrightarrow> G n \<and> length ns < NINODE"
| "iop_ok G ns (IDup k) \<longleftrightarrow> k < length ns"
| "iop_ok G ns (IPut k) \<longleftrightarrow> k < length ns"
| "iop_ok G ns (IRead k) \<longleftrightarrow> k < length ns"

primrec iops_ok :: "(u32 \<Rightarrow> bool) \<Rightarrow> u32 list \<Rightarrow> iop list \<Rightarrow> bool" where
  "iops_ok G ns [] \<longleftrightarrow> True"
| "iops_ok G ns (x # xs) \<longleftrightarrow> iop_ok G ns x \<and> iops_ok G (snd (iop_spec (\<lambda>_. free_dinode 0) x ns)) xs"

text \<open>An inode a client may ask for is on the disk, allocated and linked.\<close>

definition good_inum :: "superblock \<Rightarrow> u32 \<Rightarrow> (nat \<Rightarrow> u8 list) \<Rightarrow> u32 \<Rightarrow> bool" where
  "good_inum x z V n \<longleftrightarrow> unat (IBLOCK n x) < unat z \<and> di_type (dino x V n) \<noteq> 0 \<and> di_nlink (dino x V n) \<noteq> 0"

text \<open>The table when the references are the pointers \<open>hs\<close> and those in \<open>B\<close> are locked.\<close>

definition held :: "'a fsst_scheme \<Rightarrow> (nat \<Rightarrow> u8 list) \<Rightarrow> nat set \<Rightarrow> nat list \<Rightarrow> bool" where
  "held s V B hs \<longleftrightarrow> icache_ok (inodes s) \<and> B \<subseteq> set hs \<and> (\<forall>ip\<in>set hs. ip < NINODE) \<and>
     (\<forall>ip<NINODE. i_ref (inodes s ip) = int (count_list hs ip) \<and>
       (0 < i_ref (inodes s ip) \<longrightarrow> i_dev (inodes s ip) = 1 \<and> (i_busy s ip \<longleftrightarrow> ip \<in> B) \<and> good_inum (sb s) (disksize s) V (i_inum (inodes s ip)) \<and>
          (i_valid s ip \<longrightarrow> synced s V ip)))"

lemma held_free: "held s V B hs \<Longrightarrow> length hs < NINODE \<Longrightarrow> free_entries (inodes s) \<noteq> {}"
proof -
  assume h: "held s V B hs" and "length hs < NINODE"
  then have "card (set hs) < card {..<NINODE}" using card_length [of hs] by simp
  then obtain ip where "ip < NINODE" "ip \<notin> set hs" by (metis card_mono finite_set lessThan_iff not_less subsetI)
  then have "ip \<in> free_entries (inodes s)" using h by (simp add: held_def free_entries_def count_list_0_iff)
  then show ?thesis by blast
qed

lemma held_entry:
  assumes "held s V B hs" and "ip \<in> set hs"
  shows "ip < NINODE" "0 < i_ref (inodes s ip)" "i_dev (inodes s ip) = 1" "i_busy s ip \<longleftrightarrow> ip \<in> B" "good_inum (sb s) (disksize s) V (i_inum (inodes s ip))"
    "i_valid s ip \<Longrightarrow> synced s V ip"
proof -
  have "0 < count_list hs ip" using assms(2) count_list_0_iff [of hs ip] by simp
  then show "ip < NINODE" "0 < i_ref (inodes s ip)" "i_dev (inodes s ip) = 1" "i_busy s ip \<longleftrightarrow> ip \<in> B" "good_inum (sb s) (disksize s) V (i_inum (inodes s ip))"
    "i_valid s ip \<Longrightarrow> synced s V ip" using assms by (auto simp: held_def)
qed

lemma held_upd:
  assumes "held s V B hs" and "same_disk s s'" and "inodes s' = (inodes s)(ip := x)" and "icache_ok (inodes s')" and "ip < NINODE"
    and "B' \<subseteq> set hs'" and "set hs' \<subseteq> insert ip (set hs)" and "\<And>jp. jp \<noteq> ip \<Longrightarrow> count_list hs' jp = count_list hs jp \<and> (jp \<in> B' \<longleftrightarrow> jp \<in> B)"
    and "i_ref x = int (count_list hs' ip)"
    and "0 < i_ref x \<Longrightarrow> i_dev x = 1 \<and> (i_flags x AND I_BUSY \<noteq> 0 \<longleftrightarrow> ip \<in> B') \<and> good_inum (sb s) (disksize s) V (i_inum x) \<and> (i_flags x AND I_VALID \<noteq> 0 \<longrightarrow> di x = dino (sb s) V (i_inum x))"
  shows "held s' V B' hs'"
proof -
  have S: "sb s' = sb s" "disksize s' = disksize s" using assms(2) by (simp_all add: same_disk_def)
  have "i_ref (inodes s' jp) = int (count_list hs' jp) \<and> (0 < i_ref (inodes s' jp) \<longrightarrow> i_dev (inodes s' jp) = 1 \<and> (i_busy s' jp \<longleftrightarrow> jp \<in> B')
      \<and> good_inum (sb s') (disksize s') V (i_inum (inodes s' jp)) \<and> (i_valid s' jp \<longrightarrow> synced s' V jp))" if "jp < NINODE" for jp
  proof (cases "jp = ip")
    case True
    then show ?thesis using assms(3,9,10) S by (auto simp: synced_dino i_busy_def i_valid_def)
  next
    case False
    then show ?thesis using assms(1,3,8) S that by (simp add: held_def synced_dino i_busy_def i_valid_def)
  qed
  then show ?thesis using assms(1,4-7) by (auto simp: held_def)
qed

lemma count_list_remove: "k < length hs \<Longrightarrow> count_list (take k hs @ drop (Suc k) hs) x = count_list hs x - (if x = hs ! k then 1 else 0)"
  by (subst (3) id_take_nth_drop [of k hs]) auto

text \<open>The entries in \<open>A\<close> are for the same inodes.\<close>

definition same_inums :: "nat set \<Rightarrow> 'a fsst_scheme \<Rightarrow> 'a fsst_scheme \<Rightarrow> bool" where
  "same_inums A s s' \<longleftrightarrow> (\<forall>ip\<in>A. i_inum (inodes s' ip) = i_inum (inodes s ip))"

lemma held_get:
  assumes l: "lrep s V L {}" and h: "held s V B hs" and n: "good_inum (sb s) (disksize s) V n" "length hs < NINODE"
  obtains ip s' where "iget 1 n s = Ret (ip, s')" and "lrep s' V L {}" and "same_disk s s'" and "held s' V B (hs @ [ip])" and "i_inum (inodes s' ip) = n"
    and "same_inums (set hs) s s'"
proof -
  have c: "icache_ok (inodes s)" using h by (simp add: held_def)
  let ?k = "(1 :: u32, n)"
  obtain ip s' where g: "iget 1 n s = Ret (ip, s')" "ip < NINODE" "istep s V L {} s' ((iref (inodes s))(?k := iref (inodes s) ?k + 1))"
    "inodes s' = (inodes s)(ip := got_inode (inodes s) ?k ip)"
    "if is_cached (inodes s) ?k then 0 < i_ref (inodes s ip) \<and> ikey (inodes s ip) = ?k else i_ref (inodes s ip) = 0"
    using iget_ok [OF l c, of 1 n] held_free [OF h n(2)] by auto
  let ?x = "got_inode (inodes s) ?k ip"
  have r: "i_ref (inodes s ip) = int (count_list hs ip)" using h g(2) by (simp add: held_def)
  have x: "i_ref ?x = int (count_list (hs @ [ip]) ip)" "i_dev ?x = 1" "i_inum ?x = n" using g(5) r by (auto simp: got_inode_def ikey_def split: if_splits)
  have ok: "(i_flags ?x AND I_BUSY \<noteq> 0 \<longleftrightarrow> ip \<in> B) \<and> (i_flags ?x AND I_VALID \<noteq> 0 \<longrightarrow> di ?x = dino (sb s) V n)"
  proof (cases "is_cached (inodes s) ?k")
    case True
    then have "0 < i_ref (inodes s ip)" "i_inum (inodes s ip) = n" using g(5) by (simp_all add: ikey_def)
    then have "i_busy s ip \<longleftrightarrow> ip \<in> B" "i_valid s ip \<longrightarrow> synced s V ip" using h g(2) by (auto simp: held_def)
    then show ?thesis using True \<open>i_inum (inodes s ip) = n\<close> by (simp add: got_inode_def i_busy_def i_valid_def synced_dino)
  next
    case False
    then have "ip \<notin> set hs" using g(5) r by (simp add: count_list_0_iff)
    then show ?thesis using False h by (auto simp: got_inode_def held_def)
  qed
  have S: "lrep s' V L {}" "same_disk s s'" "icache_ok (inodes s')" using g(3) by (simp_all add: istep_def)
  have "B \<subseteq> set (hs @ [ip])" using h by (auto simp: held_def)
  then have "held s' V B (hs @ [ip])" by (rule held_upd [OF h S(2) g(4) S(3) g(2)]) (use x ok n(1) in auto)
  moreover have "same_inums (set hs) s s'" using g(4,5) r x(3) by (auto simp: same_inums_def ikey_def count_list_0_iff split: if_splits)
  ultimately show thesis using that g(1,4) S(1,2) x(3) by simp
qed

lemma held_dup:
  assumes l: "lrep s V L {}" and h: "held s V B hs" and m: "ip \<in> set hs"
  obtains s' where "idup ip s = Ret s'" and "lrep s' V L {}" and "same_disk s s'" and "held s' V B (hs @ [ip])" and "same_inums UNIV s s'"
proof -
  have c: "icache_ok (inodes s)" using h by (simp add: held_def)
  note E = held_entry [OF h m]
  obtain s' where g: "idup ip s = Ret s'" "istep s V L {} s' ((iref (inodes s))(ikey (inodes s ip) := i_ref (inodes s ip) + 1))"
    "inodes s' = (inodes s)(ip := (inodes s ip)\<lparr>i_ref := i_ref (inodes s ip) + 1\<rparr>)" by (rule idup_ok [OF l c E(1,2)])
  have S: "lrep s' V L {}" "same_disk s s'" "icache_ok (inodes s')" using g(2) by (simp_all add: istep_def)
  have "i_ref (inodes s ip) = int (count_list hs ip)" "B \<subseteq> set (hs @ [ip])" using h E(1) by (auto simp: held_def)
  then have "held s' V B (hs @ [ip])"
    by (intro held_upd [OF h S(2) g(3) S(3) E(1)]) (use E in \<open>auto simp: i_busy_def i_valid_def synced_dino\<close>)
  then show thesis using that g(1,3) S(1,2) by (simp add: same_inums_def)
qed

lemma held_put:
  assumes l: "lrep s V L {}" and h: "held s V B hs" and k: "k < length hs" and b: "B \<subseteq> set (take k hs @ drop (Suc k) hs)"
  obtains s' where "iput (hs ! k) s = Ret s'" and "lrep s' V L {}" and "same_disk s s'" and "held s' V B (take k hs @ drop (Suc k) hs)" and "same_inums UNIV s s'"
proof -
  have c: "icache_ok (inodes s)" and m: "hs ! k \<in> set hs" using h k by (simp_all add: held_def)
  note E = held_entry [OF h m]
  have n: "i_valid s (hs ! k) \<Longrightarrow> di_nlink (di (inodes s (hs ! k))) \<noteq> 0" using E(5,6) by (simp add: synced_dino good_inum_def)
  obtain s' where g: "iput (hs ! k) s = Ret s'" "istep s V L {} s' ((iref (inodes s))(ikey (inodes s (hs ! k)) := i_ref (inodes s (hs ! k)) - 1))"
    "inodes s' = (inodes s)(hs ! k := (inodes s (hs ! k))\<lparr>i_ref := i_ref (inodes s (hs ! k)) - 1\<rparr>)" by (rule iput_ok [OF l c E(1,2) n])
  have S: "lrep s' V L {}" "same_disk s s'" "icache_ok (inodes s')" using g(2) by (simp_all add: istep_def)
  have r: "i_ref (inodes s (hs ! k)) = int (count_list hs (hs ! k))" using h E(1) by (simp add: held_def)
  have "set (take k hs @ drop (Suc k) hs) \<subseteq> insert (hs ! k) (set hs)" using set_take_subset [of k hs] set_drop_subset [of "Suc k" hs] by auto
  then have "held s' V B (take k hs @ drop (Suc k) hs)"
    by (rule held_upd [OF h S(2) g(3) S(3) E(1) b]) (use E r count_list_remove [OF k] in \<open>auto simp: i_busy_def i_valid_def synced_dino\<close>)
  then show thesis using that g(1,3) S(1,2) by (simp add: same_inums_def)
qed

lemma flag_locked:
  fixes f :: u32
  shows "((f OR I_BUSY) OR I_VALID) AND I_BUSY \<noteq> 0" and "((f OR I_BUSY) OR I_VALID) AND I_VALID \<noteq> 0"
  by (simp_all add: I_BUSY_def I_VALID_def and_bit bit_or_iff)

lemma held_lock:
  assumes l: "lrep s V L {}" and r: "room 1 s L {}" and h: "held s V B hs" and m: "ip \<in> set hs" "ip \<notin> B"
  obtains s' where "ilock (Some ip) s = Ret s'" and "lrep s' V L {}" and "same_disk s s'" and "held s' V (insert ip B) hs"
    and "di (inodes s' ip) = dino (sb s) V (i_inum (inodes s ip))" and "same_inums UNIV s s'"
proof -
  have c: "icache_ok (inodes s)" using h by (simp add: held_def)
  note E = held_entry [OF h m(1)]
  have n: "iblk s ip < unat (disksize s)" "di_type (dino (sb s) V (i_inum (inodes s ip))) \<noteq> 0" "\<not> i_busy s ip"
    using E(4,5) m(2) by (simp_all add: good_inum_def iblk_def)
  obtain s' where a: "ilock (Some ip) s = Ret s'" "lrep s' V L {}" "same_disk s s'" "inodes s' = (inodes s)(ip := locked_inode (sb s) V (inodes s ip))"
    by (rule ilock_ok [OF l r E(2,3) n(3) E(6) n(1,2)])
  have "icache_ok (inodes s')" unfolding a(4) by (rule icache_upd [OF c]) (use c E(1,2) in \<open>auto simp: icache_ok_def ikey_def locked_inode_def\<close>)
  moreover have "insert ip B \<subseteq> set hs" using h m(1) by (simp add: held_def)
  ultimately have "held s' V (insert ip B) hs"
    by (rule held_upd [OF h a(3,4) _ E(1)]) (use h E flag_locked in \<open>auto simp: held_def locked_inode_def\<close>)
  then show thesis using that a by (simp add: locked_inode_def same_inums_def)
qed

lemma held_unlock:
  assumes l: "lrep s V L {}" and h: "held s V B hs" and m: "ip \<in> B"
  obtains s' where "iunlock (Some ip) s = Ret s'" and "lrep s' V L {}" and "same_disk s s'" and "held s' V (B - {ip}) hs" and "same_inums UNIV s s'"
proof -
  have c: "icache_ok (inodes s)" "ip \<in> set hs" using h m by (auto simp: held_def)
  note E = held_entry [OF h c(2)]
  have b: "i_busy s ip" using E(4) m by simp
  obtain s' where u: "iunlock (Some ip) s = Ret s'" "lrep s' V L {}" "same_disk s s'"
    "inodes s' = (inodes s)(ip := (inodes s ip)\<lparr>i_flags := i_flags (inodes s ip) AND NOT I_BUSY\<rparr>)" by (rule iunlock_ok [OF l b E(2)])
  have f: "(i_flags (inodes s ip) AND NOT I_BUSY) AND I_BUSY = 0" "(i_flags (inodes s ip) AND NOT I_BUSY) AND I_VALID = i_flags (inodes s ip) AND I_VALID"
    by (auto intro: bit_word_eqI simp: bit_and_iff bit_not_iff I_BUSY_def I_VALID_def bit_2_iff bit_1_iff)
  have "icache_ok (inodes s')" unfolding u(4) by (rule icache_upd [OF c(1)]) (use c E(1,2) in \<open>auto simp: icache_ok_def ikey_def\<close>)
  moreover have "B - {ip} \<subseteq> set hs" using h by (auto simp: held_def)
  ultimately have "held s' V (B - {ip}) hs"
    by (rule held_upd [OF h u(3,4) _ E(1)]) (use h E f in \<open>auto simp: held_def i_valid_def synced_dino\<close>)
  then show thesis using that u by (simp add: same_inums_def)
qed

text \<open>The inode numbers a client holds when its pointers are \<open>hs\<close>.\<close>

definition inums :: "'a fsst_scheme \<Rightarrow> nat list \<Rightarrow> u32 list" where
  "inums s hs = map (\<lambda>ip. i_inum (inodes s ip)) hs"

lemma inums_Nil [simp]: "inums s [] = []"
  by (simp add: inums_def)

lemma inums_same: "same_inums A s s' \<Longrightarrow> set hs \<subseteq> A \<Longrightarrow> inums s' hs = inums s hs"
  by (auto simp: inums_def same_inums_def)

definition iop_good :: "'a fsst_scheme \<Rightarrow> (nat \<Rightarrow> u8 list) \<Rightarrow> nat list \<Rightarrow> iop \<Rightarrow> nat list \<Rightarrow> bool" where
  "iop_good s V L x hs \<longleftrightarrow> (\<exists>d hs' s'. iop_run x hs s = Ret (d, hs', s') \<and> lrep s' V L {} \<and> same_disk s s' \<and> held s' V {} hs'
     \<and> (d, inums s' hs') = iop_spec (dino (sb s) V) x (inums s hs))"

lemma get_good:
  assumes "lrep s V L {}" and "held s V {} hs" and "good_inum (sb s) (disksize s) V n" "length hs < NINODE"
  shows "iop_good s V L (IGet n) hs"
proof -
  obtain ip s' where "iget 1 n s = Ret (ip, s')" "lrep s' V L {}" "same_disk s s'" "held s' V {} (hs @ [ip])" "i_inum (inodes s' ip) = n" "same_inums (set hs) s s'"
    by (rule held_get [OF assms])
  then show ?thesis by (simp add: iop_good_def inums_def same_inums_def)
qed

lemma dup_good:
  assumes "lrep s V L {}" and "held s V {} hs" and "k < length hs"
  shows "iop_good s V L (IDup k) hs"
proof -
  obtain s' where "idup (hs ! k) s = Ret s'" "lrep s' V L {}" "same_disk s s'" "held s' V {} (hs @ [hs ! k])" "same_inums UNIV s s'"
    by (rule held_dup [OF assms(1,2), of "hs ! k"]) (use assms(3) in simp)
  then show ?thesis using assms(3) by (simp add: iop_good_def inums_def same_inums_def)
qed

lemma put_good:
  assumes "lrep s V L {}" and "held s V {} hs" and "k < length hs"
  shows "iop_good s V L (IPut k) hs"
proof -
  obtain s' where "iput (hs ! k) s = Ret s'" "lrep s' V L {}" "same_disk s s'" "held s' V {} (take k hs @ drop (Suc k) hs)" "same_inums UNIV s s'"
    by (rule held_put [OF assms]) simp
  then show ?thesis by (simp add: iop_good_def inums_def same_inums_def take_map drop_map)
qed

lemma read_good:
  assumes "lrep s V L {}" and r: "room 1 s L {}" and h: "held s V {} hs" and k: "k < length hs"
  shows "iop_good s V L (IRead k) hs"
proof -
  obtain s1 where a: "ilock (Some (hs ! k)) s = Ret s1" "lrep s1 V L {}" "same_disk s s1" "held s1 V {hs ! k} hs"
    "di (inodes s1 (hs ! k)) = dino (sb s) V (i_inum (inodes s (hs ! k)))" "same_inums UNIV s s1"
    by (rule held_lock [OF assms(1) r h, of "hs ! k"]) (use k in simp_all)
  obtain s2 where "iunlock (Some (hs ! k)) s1 = Ret s2" "lrep s2 V L {}" "same_disk s1 s2" "held s2 V ({hs ! k} - {hs ! k}) hs" "same_inums UNIV s1 s2"
    by (rule held_unlock [OF a(2,4)]) simp
  then show ?thesis using a same_disk_trans [OF a(3)] k by (simp add: iop_good_def inums_def same_inums_def)
qed

lemma iop_step: "lrep s V L {} \<Longrightarrow> room 1 s L {} \<Longrightarrow> held s V {} hs \<Longrightarrow> iop_ok (good_inum (sb s) (disksize s) V) (inums s hs) x \<Longrightarrow> iop_good s V L x hs"
  using get_good dup_good put_good read_good by (cases x) (auto simp: inums_def)

lemma iops_ok_refine:
  assumes "lrep s V L {}" and "room 1 s L {}" and "held s V {} hs" and "iops_ok (good_inum (sb s) (disksize s) V) (inums s hs) ops"
  shows "\<exists>ds hs' s'. iops_run ops hs s = Ret (ds, hs', s') \<and> lrep s' V L {} \<and> held s' V {} hs' \<and> (ds, inums s' hs') = iops_spec (dino (sb s) V) ops (inums s hs)"
  using assms
proof (induction ops arbitrary: s hs)
  case (Cons x xs)
  then have "iop_good s V L x hs" by (intro iop_step) simp_all
  then obtain d hs1 s1 where a: "iop_run x hs s = Ret (d, hs1, s1)" "lrep s1 V L {}" "same_disk s s1" "held s1 V {} hs1"
    "(d, inums s1 hs1) = iop_spec (dino (sb s) V) x (inums s hs)" by (auto simp: iop_good_def)
  have S: "sb s1 = sb s" "disksize s1 = disksize s" "room 1 s1 L {}" using a(3) same_diskD(1) [OF a(3)] Cons.prems(2) by (simp_all add: same_disk_def)
  have n: "inums s1 hs1 = snd (iop_spec (\<lambda>_. free_dinode 0) x (inums s hs))" using a(5) by (cases x) auto
  then obtain ds hs' s' where b: "iops_run xs hs1 s1 = Ret (ds, hs', s')" "lrep s' V L {}" "held s' V {} hs'"
    "(ds, inums s' hs') = iops_spec (dino (sb s) V) xs (inums s1 hs1)" using Cons.IH [OF a(2) S(3) a(4)] Cons.prems(4) S(1,2) by auto
  have "iops_spec (dino (sb s) V) (x # xs) (inums s hs) = (d @ ds, inums s' hs')"
    unfolding iops_spec.simps a(5) [symmetric] by (simp add: b(4) [symmetric])
  then show ?case using a(1) b by (intro exI [of _ "d @ ds"] exI [of _ hs'] exI [of _ s']) simp
qed simp

section \<open>Properties\<close>

text \<open>
  C8: The inode cache is transparent and counts references right. Whatever sequence of \<open>iget\<close>, \<open>idup\<close>,
  \<open>iput\<close> and locked reads a client does, starting from a table without references and holding at most
  \<open>NINODE\<close> references to allocated, linked inodes, every call returns; every read sees the inode on
  disk; the pointers held are entries of the table for the inodes asked for, two of them are equal if they are for the same
  inode; and the count of every entry of the table is the number of pointers to it the client holds.
\<close>

theorem icache_transparent:
  assumes "lrep s V L {}" and "room 1 s L {}" and "\<forall>ip<NINODE. i_ref (inodes s ip) = 0" and "iops_ok (good_inum (sb s) (disksize s) V) [] ops"
  shows "\<exists>ds hs s'. iops_run ops [] s = Ret (ds, hs, s') \<and> lrep s' V L {} \<and> (ds, map (\<lambda>ip. i_inum (inodes s' ip)) hs) = iops_spec (dino (sb s) V) ops []
    \<and> (\<forall>ip\<in>set hs. \<forall>jp\<in>set hs. i_inum (inodes s' ip) = i_inum (inodes s' jp) \<longrightarrow> ip = jp)
    \<and> (\<forall>ip\<in>set hs. ip < NINODE) \<and> (\<forall>ip<NINODE. i_ref (inodes s' ip) = int (count_list hs ip))"
proof -
  have "held s V {} []" using assms(3) by (simp add: held_def icache_ok_def)
  then obtain ds hs s' where a: "iops_run ops [] s = Ret (ds, hs, s')" "lrep s' V L {}" "held s' V {} hs" "(ds, inums s' hs) = iops_spec (dino (sb s) V) ops []"
    using iops_ok_refine [OF assms(1,2), of "[]" ops] assms(4) unfolding inums_Nil by blast
  have "ip = jp" if "ip \<in> set hs" "jp \<in> set hs" "i_inum (inodes s' ip) = i_inum (inodes s' jp)" for ip jp
    using held_entry(1-3) [OF a(3) that(1)] held_entry(1-3) [OF a(3) that(2)] that(3) a(3) by (simp add: held_def icache_ok_def ikey_def)
  then show ?thesis using a by (fastforce simp: held_def inums_def)
qed

theorem icache_transparent_witness:
  "\<exists>(s :: fsst) V p s'. lrep s V [] {} \<and> iops_run [IGet 2, IGet 2, IDup 0, IPut 1, IRead 0] [] s = Ret ([empty_file], [p, p], s') \<and> i_ref (inodes s' p) = 2"
proof -
  obtain r :: fsst and V where r: "lrep r V [] {}" "is_file r V 0" "room 28 r [] {}" "disksize r = 2000" "sb r = sb_of sb0" "inodes r = inodes fs_on"
    by (rule demo_fs)
  let ?s = "r\<lparr>inodes := \<lambda>_. (inodes fs_on 0)\<lparr>i_ref := 0\<rparr>\<rparr>"
  have s: "lrep ?s V [] {}" "room 1 ?s [] {}" using r(1,3) lrep_cong [of ?s r V "[]" "{}"] by (simp_all add: quiet_def room_def)
  have d: "dino (sb r) V 2 = empty_file" using r(2,6) by (simp add: is_file_def synced_dino fs_on_def)
  have "good_inum (sb r) (disksize r) V 2"
    using d by (simp add: good_inum_def r(4,5) IBLOCK_def sb_of_sb0 IPB_def BSIZE_def empty_file_def free_dinode_def T_FILE_def)
  then have k: "iops_ok (good_inum (sb ?s) (disksize ?s) V) [] [IGet 2, IGet 2, IDup 0, IPut 1, IRead 0]" by (simp add: NINODE_def)
  have z: "\<forall>ip<NINODE. i_ref (inodes ?s ip) = 0" by simp
  let ?ops = "[IGet 2, IGet 2, IDup 0, IPut 1, IRead 0]"
  obtain ds hs s' where a: "iops_run ?ops [] ?s = Ret (ds, hs, s')" "(ds, map (\<lambda>ip. i_inum (inodes s' ip)) hs) = iops_spec (dino (sb ?s) V) ?ops []"
    "\<forall>ip\<in>set hs. \<forall>jp\<in>set hs. i_inum (inodes s' ip) = i_inum (inodes s' jp) \<longrightarrow> ip = jp" "\<forall>ip\<in>set hs. ip < NINODE"
    "\<forall>ip<NINODE. i_ref (inodes s' ip) = int (count_list hs ip)"
    using icache_transparent [OF s z k] by blast
  have ds: "ds = [empty_file]" "map (\<lambda>ip. i_inum (inodes s' ip)) hs = [2, 2]" using a(2) d by simp_all
  then obtain p q where pq: "hs = [p, q]" "i_inum (inodes s' p) = 2" "i_inum (inodes s' q) = 2" by (auto simp: map_eq_Cons_conv)
  have "p = q" by (rule a(3) [rule_format]) (simp_all add: pq)
  then have e: "hs = [p, p]" using pq(1) by simp
  then have "i_ref (inodes s' p) = 2" using a(4,5) by simp
  then show ?thesis using s(1) a(1) ds(1) e by blast
qed

end
