(* ===== verification/Fspath.thy ===== *)
theory Fspath
  imports Fsdir Fsicache
begin

text \<open>
  Directories as lists of entries: what \<open>dirlookup\<close> finds and what \<open>dirlink\<close> adds.
\<close>

section \<open>Names\<close>

text \<open>A name the code compares is \<open>DIRSIZ\<close> bytes long or ends earlier with a null byte.\<close>

definition name_ok :: "u8 list \<Rightarrow> bool" where
  "name_ok nm \<longleftrightarrow> DIRSIZ \<le> length nm \<or> 0 \<in> set nm"

lemma length_strncpy_name [simp]: "length (strncpy_name nm) = DIRSIZ"
proof -
  have "length (takeWhile (\<lambda>c. c \<noteq> 0) (take DIRSIZ nm)) \<le> length (take DIRSIZ nm)" by (rule length_takeWhile_le)
  also have "\<dots> \<le> DIRSIZ" by simp
  finally show ?thesis by (simp add: strncpy_name_def Let_def)
qed

lemma takeWhile_strncpy: "takeWhile (\<lambda>c. c \<noteq> 0) (strncpy_name nm) = takeWhile (\<lambda>c. c \<noteq> 0) (take DIRSIZ nm)"
proof -
  let ?P = "\<lambda>c :: u8. c \<noteq> 0"
  have z: "takeWhile ?P (replicate k 0) = []" for k by (cases k) simp_all
  have "takeWhile ?P (takeWhile ?P xs @ replicate k 0) = takeWhile ?P xs" for xs k
    by (subst takeWhile_append2) (auto simp: z dest: set_takeWhileD)
  then show ?thesis unfolding strncpy_name_def Let_def .
qed

lemma strncpy_eq: "strncpy_name x = strncpy_name y \<longleftrightarrow> takeWhile (\<lambda>c. c \<noteq> 0) (take DIRSIZ x) = takeWhile (\<lambda>c. c \<noteq> 0) (take DIRSIZ y)"
proof
  assume "strncpy_name x = strncpy_name y"
  then show "takeWhile (\<lambda>c. c \<noteq> 0) (take DIRSIZ x) = takeWhile (\<lambda>c. c \<noteq> 0) (take DIRSIZ y)" by (metis takeWhile_strncpy)
next
  assume "takeWhile (\<lambda>c. c \<noteq> 0) (take DIRSIZ x) = takeWhile (\<lambda>c. c \<noteq> 0) (take DIRSIZ y)"
  then show "strncpy_name x = strncpy_name y" unfolding strncpy_name_def by simp
qed

lemma namecmp_takeWhile:
  "length qs \<le> length ps \<or> 0 \<in> set ps \<Longrightarrow> namecmp ps qs = 0 \<longleftrightarrow> takeWhile (\<lambda>c. c \<noteq> 0) (take (length qs) ps) = takeWhile (\<lambda>c. c \<noteq> 0) qs"
  by (induction ps qs rule: namecmp.induct) (auto simp: word_uint_eq_iff)

lemma namecmp_strncpy: "name_ok nm \<Longrightarrow> length y = DIRSIZ \<Longrightarrow> namecmp nm y = 0 \<longleftrightarrow> strncpy_name nm = strncpy_name y"
  using namecmp_takeWhile [of y nm] by (simp add: name_ok_def strncpy_eq)

lemma strncpy_idem [simp]: "strncpy_name (strncpy_name nm) = strncpy_name nm"
  by (simp add: strncpy_eq takeWhile_strncpy)

section \<open>Entries\<close>

definition dents :: "u8 list \<Rightarrow> dirent list" where
  "dents c = map (\<lambda>k. dirent_of (slice (16 * k) 16 c)) [0..<length c div 16]"

text \<open>The first entry in use with a name, and the inode it names.\<close>

definition has_name :: "u8 list \<Rightarrow> dirent \<Rightarrow> bool" where
  "has_name nm e \<longleftrightarrow> de_inum e \<noteq> 0 \<and> namecmp nm (de_name e) = 0"

definition dir_find :: "u8 list \<Rightarrow> dirent list \<Rightarrow> nat option" where
  "dir_find nm es = find (\<lambda>k. has_name nm (es ! k)) [0..<length es]"

definition dir_inum :: "dirent list \<Rightarrow> u8 list \<Rightarrow> u16 option" where
  "dir_inum es nm = map_option de_inum (find (has_name nm) es)"

lemma length_dents [simp]: "length (dents c) = length c div 16"
  by (simp add: dents_def)

lemma dir_inum_find: "dir_inum es nm = map_option (\<lambda>k. de_inum (es ! k)) (dir_find nm es)"
proof -
  have "find (has_name nm) (map (\<lambda>k. es ! k) [0..<length es]) = map_option (\<lambda>k. es ! k) (dir_find nm es)" by (simp add: find_map dir_find_def)
  then show ?thesis by (simp add: dir_inum_def map_nth option.map_comp comp_def)
qed

text \<open>A directory: a file of entries.\<close>

definition is_dir :: "'a fsst_scheme \<Rightarrow> (nat \<Rightarrow> u8 list) \<Rightarrow> nat \<Rightarrow> bool" where
  "is_dir s V dp \<longleftrightarrow> is_file s V dp \<and> di_type (di (inodes s dp)) = T_DIR \<and> isize s dp mod 16 = 0"

lemma is_file_same: "same_trans s s' \<Longrightarrow> is_file s' V ip = is_file s V ip" "same_trans s s' \<Longrightarrow> content s' V ip = content s V ip"
  "same_trans s s' \<Longrightarrow> is_dir s' V ip = is_dir s V ip"
proof -
  assume t: "same_trans s s'"
  note S = same_fs [OF t]
  show f: "is_file s' V ip = is_file s V ip"
    using S bm_same [OF t] file_ok_same [OF t] fbyte_same(2) [OF t] by (simp add: is_file_def file_body_def synced_def iblk_def islot_def)
  show "content s' V ip = content s V ip" using S(2) fbyte_same(1) [OF t] by (simp add: content_def)
  show "is_dir s' V ip = is_dir s V ip" using f S(2) by (simp add: is_dir_def)
qed

lemma dir_size: "is_dir s V dp \<Longrightarrow> isize s dp \<le> MAXFILE * BSIZE"
  by (simp add: is_dir_def is_file_def file_body_def present_def)

lemma read_dirent_ok:
  assumes l: "lrep s V L {}" and d: "is_dir s V dp" and r: "room 1 s L {}" and k: "k < isize s dp div 16"
  obtains s' where "read_dirent D dp (16 * k) s = Ret (dents (content s V dp) ! k, s')" and "lrep s' V L {}" and "same_trans s s'"
proof -
  let ?o = "of_nat (16 * k) :: u32" and ?c = "content s V dp"
  have K: "16 * k + 16 \<le> isize s dp" using k d by (auto simp: is_dir_def)
  have M: "isize s dp \<le> 70656" using dir_size [OF d] by (simp add: fs_consts)
  have o: "unat ?o = 16 * k" using K M by (simp add: unat_of_nat take_bit_nat_eq_self del: of_nat_mult)
  have "unat ?o \<le> isize s dp" "\<not> ?o + 16 < ?o" using o K M no_wrap(2) [of ?o 16] by (simp_all add: fs_consts)
  moreover have "is_file s V dp" using d by (simp add: is_dir_def)
  ultimately obtain s' where s': "readi D dp ?o 16 s = Ret (int (length (take 16 (drop (16 * k) ?c))), take 16 (drop (16 * k) ?c), s')" "lrep s' V L {}" "same_trans s s'"
    using readi_ok [OF l _ r, of dp ?o 16 D] o by auto
  have "length (take 16 (drop (16 * k) ?c)) = 16" using K by simp
  then have "read_dirent D dp (16 * k) s = Ret (dents ?c ! k, s')" using s'(1) k by (simp add: read_dirent_def dents_def slice_def del: of_nat_mult)
  then show thesis using that s'(2,3) by blast
qed

lemma dirlookup_loop_ok:
  assumes "lrep s V L {}" and "is_dir s V dp" and "room 1 s L {}" and "set ks \<subseteq> {..<isize s dp div 16}"
  shows "\<exists>s'. lrep s' V L {} \<and> same_trans s s' \<and> dirlookup_loop D dp nm (map (\<lambda>k. 16 * k) ks) s =
    (case find (\<lambda>k. has_name nm (dents (content s V dp) ! k)) ks of None \<Rightarrow> Ret (None, s')
     | Some k \<Rightarrow> bindr (iget 1 (ucast (de_inum (dents (content s V dp) ! k))) s') (\<lambda>(ip, s). Ret (Some (ip, 16 * k), s)))"
  using assms
proof (induction ks arbitrary: s)
  case Nil
  then show ?case using same_trans_refl by auto
next
  case (Cons k ks)
  let ?e = "dents (content s V dp) ! k"
  have "k < isize s dp div 16" using Cons.prems(4) by simp
  then obtain s1 where r: "read_dirent D dp (16 * k) s = Ret (?e, s1)" "lrep s1 V L {}" "same_trans s s1"
    by (rule read_dirent_ok [OF Cons.prems(1-3)])
  note S = same_fs(2) [OF r(3)] is_file_same(2,3) [OF r(3)]
  show ?case
  proof (cases "has_name nm ?e")
    case True
    have "i_dev (inodes s1 dp) = 1" using Cons.prems(2) S(1) file_okD(2) by (auto simp: is_dir_def is_file_def file_body_def)
    then show ?thesis using True r by (intro exI [of _ s1]) (simp add: has_name_def)
  next
    case False
    have "room 1 s1 L {}" using room_same [OF Cons.prems(3) r(3)] by simp
    moreover have "is_dir s1 V dp" "set ks \<subseteq> {..<isize s1 dp div 16}" using Cons.prems(2,4) S by simp_all
    ultimately obtain s' where s': "lrep s' V L {}" "same_trans s1 s'" "dirlookup_loop D dp nm (map (\<lambda>k. 16 * k) ks) s1 =
      (case find (\<lambda>k. has_name nm (dents (content s V dp) ! k)) ks of None \<Rightarrow> Ret (None, s')
       | Some k \<Rightarrow> bindr (iget 1 (ucast (de_inum (dents (content s V dp) ! k))) s') (\<lambda>(ip, s). Ret (Some (ip, 16 * k), s)))"
      using Cons.IH [OF r(2)] unfolding S(2) by blast
    have "dirlookup_loop D dp nm (map (\<lambda>k. 16 * k) (k # ks)) s = dirlookup_loop D dp nm (map (\<lambda>k. 16 * k) ks) s1"
      using False r(1) by (auto simp: has_name_def)
    then show ?thesis using s' same_trans_trans [OF r(3) s'(2)] False by (intro exI [of _ s']) simp
  qed
qed

lemma entries_dir: "isize s dp mod 16 = 0 \<Longrightarrow> entries (isize s dp) = map (\<lambda>k. 16 * k) [0..<isize s dp div 16]"
  by (auto simp: entries_def)

lemma dirlookup_ok:
  assumes "lrep s V L {}" and "is_dir s V dp" and "room 1 s L {}"
  obtains s' where "lrep s' V L {}" and "same_trans s s'" and "dirlookup D dp nm s =
    (case dir_find nm (dents (content s V dp)) of None \<Rightarrow> Ret (None, s')
     | Some k \<Rightarrow> bindr (iget 1 (ucast (de_inum (dents (content s V dp) ! k))) s') (\<lambda>(ip, s). Ret (Some (ip, 16 * k), s)))"
proof -
  have d: "di_type (di (inodes s dp)) = T_DIR" "isize s dp mod 16 = 0" using assms(2) by (simp_all add: is_dir_def)
  have "set [0..<isize s dp div 16] \<subseteq> {..<isize s dp div 16}" by auto
  then show thesis using dirlookup_loop_ok [OF assms, of "[0..<isize s dp div 16]" D nm] that d entries_dir [OF d(2)]
    by (auto simp: dirlookup_def dir_find_def)
qed

lemma empty_slot_ok:
  assumes "lrep s V L {}" and "is_dir s V dp" and "room 1 s L {}" and "set ks \<subseteq> {..<isize s dp div 16}"
  shows "\<exists>s'. lrep s' V L {} \<and> same_trans s s' \<and> empty_slot D dp (map (\<lambda>k. 16 * k) ks) s =
    Ret (map_option (\<lambda>k. 16 * k) (find (\<lambda>k. de_inum (dents (content s V dp) ! k) = 0) ks), s')"
  using assms
proof (induction ks arbitrary: s)
  case Nil
  then show ?case using same_trans_refl by auto
next
  case (Cons k ks)
  have "k < isize s dp div 16" using Cons.prems(4) by simp
  then obtain s1 where r: "read_dirent D dp (16 * k) s = Ret (dents (content s V dp) ! k, s1)" "lrep s1 V L {}" "same_trans s s1"
    by (rule read_dirent_ok [OF Cons.prems(1-3)])
  note S = same_fs(2) [OF r(3)] is_file_same(2,3) [OF r(3)]
  have "room 1 s1 L {}" using room_same [OF Cons.prems(3) r(3)] by simp
  moreover have "is_dir s1 V dp" "set ks \<subseteq> {..<isize s1 dp div 16}" using Cons.prems(2,4) S by simp_all
  ultimately obtain s' where "lrep s' V L {}" "same_trans s1 s'"
    "empty_slot D dp (map (\<lambda>k. 16 * k) ks) s1 = Ret (map_option (\<lambda>k. 16 * k) (find (\<lambda>k. de_inum (dents (content s V dp) ! k) = 0) ks), s')"
    using Cons.IH [OF r(2)] unfolding S(2) by blast
  then show ?case using r same_trans_trans [OF r(3)]
    by (cases "de_inum (dents (content s V dp) ! k) = 0") (auto intro: exI [of _ s1] exI [of _ s'])
qed

text \<open>A reference taken and dropped at once leaves the counts as they were.\<close>

lemma iget_iput:
  assumes l: "lrep s V L K" and c: "icache_ok (inodes s)" and f: "is_cached (inodes s) (dev, inum) \<or> free_entries (inodes s) \<noteq> {}"
  obtains ip s1 s2 where "iget dev inum s = Ret (ip, s1)" and "iput ip s1 = Ret s2" and "istep s V L K s2 (iref (inodes s))"
proof -
  let ?k = "(dev, inum)"
  obtain ip s1 where g: "iget dev inum s = Ret (ip, s1)" "ip < NINODE" "istep s V L K s1 ((iref (inodes s))(?k := iref (inodes s) ?k + 1))"
    "inodes s1 = (inodes s)(ip := got_inode (inodes s) ?k ip)"
    "if is_cached (inodes s) ?k then 0 < i_ref (inodes s ip) \<and> ikey (inodes s ip) = ?k else i_ref (inodes s ip) = 0"
    using iget_ok [OF l c, of dev inum] f by auto
  have S: "lrep s1 V L K" "same_disk s s1" "icache_ok (inodes s1)" "iref (inodes s1) = (iref (inodes s))(?k := iref (inodes s) ?k + 1)"
    using g(3) by (simp_all add: istep_def)
  have e: "0 < i_ref (inodes s1 ip)" "ikey (inodes s1 ip) = ?k" using g(4,5) by (auto simp: got_inode_def ikey_def split: if_splits)
  have n: "i_ref (inodes s1 ip) = 1 \<Longrightarrow> i_valid s1 ip \<Longrightarrow> di_nlink (di (inodes s1 ip)) \<noteq> 0"
    using g(4,5) by (auto simp: got_inode_def i_valid_def split: if_splits)
  obtain s2 where p: "iput ip s1 = Ret s2" "istep s1 V L K s2 ((iref (inodes s1))(ikey (inodes s1 ip) := i_ref (inodes s1 ip) - 1))"
    by (rule iput_ok [OF S(1,3) g(2) e(1) n])
  have "i_ref (inodes s1 ip) = iref (inodes s) ?k + 1" using iref_entry [OF S(3) g(2) e(1)] e(2) S(4) by simp
  then have "(iref (inodes s1))(ikey (inodes s1 ip) := i_ref (inodes s1 ip) - 1) = iref (inodes s)" using e(2) S(4) by auto
  then have "istep s V L K s2 (iref (inodes s))" using p(2) same_disk_trans [OF S(2)] by (auto simp: istep_def)
  then show thesis using that g(1) p(1) by blast
qed

section \<open>Adding an entry\<close>

lemma dirent_of_bytes: "length (de_name e) = DIRSIZ \<Longrightarrow> dirent_of (bytes_of e) = e"
  by (simp add: dirent_of_def bytes_of_def get_append get2_le2 slice_def)

lemma dents_name: "e \<in> set (dents c) \<Longrightarrow> length (de_name e) = DIRSIZ"
proof -
  assume "e \<in> set (dents c)"
  then obtain k where k: "k < length c div 16" "e = dirent_of (slice (16 * k) 16 c)" by (auto simp: dents_def)
  then have "16 * k + 16 \<le> length c" by linarith
  then show ?thesis using k(2) by (simp add: dirent_of_def DIRSIZ_def)
qed

definition put_dent :: "dirent list \<Rightarrow> nat \<Rightarrow> dirent \<Rightarrow> dirent list" where
  "put_dent es k e = (if k < length es then es[k := e] else es @ [e])"

lemma dents_put:
  assumes "length c mod 16 = 0" and "k \<le> length c div 16" and "length b = 16"
  shows "dents (take (16 * k) c @ b @ drop (16 * k + 16) c) = put_dent (dents c) k (dirent_of b)"
proof -
  have k: "16 * k \<le> length c" using assms(1,2) by auto
  let ?c = "take (16 * k) c @ b @ drop (16 * k + 16) c"
  have len: "length ?c div 16 = (if k < length c div 16 then length c div 16 else Suc (length c div 16))"
    using assms k by (auto simp: min_absorb2)
  have at: "slice (16 * j) 16 ?c = (if j = k then b else slice (16 * j) 16 c)" if j: "16 * j + 16 \<le> length ?c" for j
  proof (cases j k rule: linorder_cases)
    case less
    have "min 16 (16 * k - 16 * j) = 16" using less by simp
    then show ?thesis using k less by (simp add: slice_def min_absorb2 drop_take)
  next
    case equal
    then show ?thesis using k assms(3) by (simp add: slice_def min_absorb2)
  next
    case greater
    then have e: "drop (16 * j) ?c = drop (16 * j) c" using k assms(3) by (simp add: min_absorb2)
    show ?thesis using greater unfolding slice_def e by simp
  qed
  have b: "16 * j + 16 \<le> length ?c" if "j < length ?c div 16" for j using that by linarith
  show ?thesis
  proof (rule nth_equalityI)
    show "length (dents ?c) = length (put_dent (dents c) k (dirent_of b))" using len by (simp add: put_dent_def)
    show "dents ?c ! j = put_dent (dents c) k (dirent_of b) ! j" if "j < length (dents ?c)" for j
      using that at [OF b] len assms(2) by (auto simp: dents_def put_dent_def nth_append nth_list_update simp del: length_append)
  qed
qed

lemma find_put:
  assumes "k \<le> length es" and "k < length es \<Longrightarrow> \<not> P (es ! k)" and "P e \<Longrightarrow> find P es = None"
  shows "find P (put_dent es k e) = (if P e then Some e else find P es)"
proof (cases "k < length es")
  case True
  have "find P es = find P (take k es @ es ! k # drop (Suc k) es)" using id_take_nth_drop [OF True] by simp
  then have old: "find P es = find P (take k es @ drop (Suc k) es)" using assms(2) [OF True] by (simp add: find_append split: option.splits)
  have new: "put_dent es k e = take k es @ e # drop (Suc k) es" using True by (simp add: put_dent_def upd_conv_take_nth_drop)
  show ?thesis
  proof (cases "P e")
    case True
    then have "find P (take k es) = None" using assms(3) old by (simp add: find_append split: option.splits)
    then show ?thesis using True new by (simp add: find_append split: option.splits)
  next
    case False
    then show ?thesis using old new by (simp add: find_append split: option.splits)
  qed
next
  case False
  then show ?thesis using assms(3) by (auto simp: put_dent_def find_append split: option.splits)
qed

lemma has_name_strncpy: "name_ok nm \<Longrightarrow> length (de_name e) = DIRSIZ \<Longrightarrow> has_name nm e \<longleftrightarrow> de_inum e \<noteq> 0 \<and> strncpy_name nm = strncpy_name (de_name e)"
  by (simp add: has_name_def namecmp_strncpy)

lemma dir_inum_put:
  assumes es: "\<And>e. e \<in> set es \<Longrightarrow> length (de_name e) = DIRSIZ" and k: "k \<le> length es" "k < length es \<Longrightarrow> de_inum (es ! k) = 0"
    and new: "dir_inum es nm = None" "name_ok nm" "n \<noteq> 0" and nm': "name_ok nm'"
  shows "dir_inum (put_dent es k \<lparr>de_inum = n, de_name = strncpy_name nm\<rparr>) nm' = (if strncpy_name nm' = strncpy_name nm then Some n else dir_inum es nm')"
proof -
  let ?e = "\<lparr>de_inum = n, de_name = strncpy_name nm\<rparr>"
  have P: "has_name nm' ?e \<longleftrightarrow> strncpy_name nm' = strncpy_name nm" using nm' new(3) by (simp add: has_name_strncpy)
  have "find (has_name nm') es = None" if "has_name nm' ?e"
    using that P new(1,2) nm' es by (auto simp: dir_inum_def find_None_iff has_name_strncpy)
  then have "find (has_name nm') (put_dent es k ?e) = (if has_name nm' ?e then Some ?e else find (has_name nm') es)"
    using k by (intro find_put) (auto simp: has_name_def)
  then show ?thesis using P by (simp add: dir_inum_def)
qed

lemma find_or_end:
  assumes "k = (case find P [0..<n] of Some k \<Rightarrow> k | None \<Rightarrow> n)"
  shows "k \<le> n \<and> (k < n \<longrightarrow> P k)"
proof (cases "find P [0..<n]")
  case None
  then show ?thesis using assms by simp
next
  case (Some j)
  then show ?thesis using find_upt_Some [OF Some] assms by simp
qed

lemma dirlink_new:
  assumes l: "lrep s V L {}" and d: "is_dir s V dp" and r: "room 8 s L {}" and fr: "2 \<le> card (free_blocks s V)" and z: "isize s dp + 16 \<le> MAXFILE * BSIZE"
    and n: "dir_find nm (dents (content s V dp)) = None"
  obtains s' V' L' k where "dirlink D dp nm inum s = Ret (0, s')" and "lrep s' V' L' {}"
    and "dents (content s' V' dp) = put_dent (dents (content s V dp)) k \<lparr>de_inum = ucast inum, de_name = strncpy_name nm\<rparr>"
    and "is_dir s' V' dp" and "same_refs s s'" and "room 1 s' L' {}"
    and "k \<le> length (dents (content s V dp))" and "k < length (dents (content s V dp)) \<Longrightarrow> de_inum (dents (content s V dp) ! k) = 0"
proof -
  let ?c = "content s V dp" and ?n = "isize s dp div 16" and ?e = "\<lparr>de_inum = ucast inum, de_name = strncpy_name nm\<rparr>"
  have m: "isize s dp mod 16 = 0" using d by (simp add: is_dir_def)
  have r1: "room 1 s L {}" by (rule room_mono [OF r]) simp
  obtain s1 where a: "lrep s1 V L {}" "same_trans s s1" "dirlookup D dp nm s = Ret (None, s1)"
    by (rule dirlookup_ok [OF l d r1, of D nm]) (use n in simp)
  have S1: "inodes s1 = inodes s" "content s1 V dp = ?c" "is_dir s1 V dp" "room 1 s1 L {}"
    using same_fs(2) [OF a(2)] is_file_same(2,3) [OF a(2)] d room_same [OF r1 a(2)] by simp_all
  have "set [0..<?n] \<subseteq> {..<isize s1 dp div 16}" using S1(1) by auto
  then obtain s2 where b: "lrep s2 V L {}" "same_trans s1 s2"
    "empty_slot D dp (map (\<lambda>k. 16 * k) [0..<?n]) s1 = Ret (map_option (\<lambda>k. 16 * k) (find (\<lambda>k. de_inum (dents ?c ! k) = 0) [0..<?n]), s2)"
    using empty_slot_ok [OF a(1) S1(3,4)] unfolding S1(2) by blast
  define k where "k = (case find (\<lambda>k. de_inum (dents ?c ! k) = 0) [0..<?n] of Some k \<Rightarrow> k | None \<Rightarrow> ?n)"
  have k: "k \<le> ?n" "k < ?n \<Longrightarrow> de_inum (dents ?c ! k) = 0" using find_or_end [OF k_def] by blast+
  have t: "same_trans s s2" by (rule same_trans_trans [OF a(2) b(2)])
  have S2: "inodes s2 = inodes s" "content s2 V dp = ?c" "is_file s2 V dp" "room 7 s2 L {}" "2 \<le> card (free_blocks s2 V)"
    using same_fs(2) [OF t] is_file_same(1,2) [OF t] d room_same [OF r t, of L 7] same_diskD(5) [OF same_trans_disk [OF t]] fr by (simp_all add: is_dir_def)
  let ?o = "of_nat (16 * k) :: u32"
  have K: "16 * k \<le> isize s dp" "16 * k + 16 \<le> 70656" using k(1) m z by (auto simp: fs_consts)
  then have o: "unat ?o = 16 * k" by (simp add: unat_of_nat take_bit_nat_eq_self del: of_nat_mult)
  have "16 * k mod 512 + 16 \<le> 512" using mult_mod_right [of 16 k 32] by simp
  then have O: "unat ?o mod BSIZE + unat (16 :: u32) \<le> 1 * BSIZE" "unat ?o \<le> isize s2 dp" "unat ?o + unat (16 :: u32) \<le> MAXFILE * BSIZE"
    unfolding o S2(1) using K by (simp_all add: fs_consts)
  have B: "length (bytes_of ?e) = 16" by (simp add: bytes_of_def DIRSIZ_def)
  have r7: "room (6 * 1 + 1) s2 L {}" "2 * 1 \<le> card (free_blocks s2 V)" "unat (16 :: u32) \<le> length (bytes_of ?e)" using S2(4,5) B by simp_all
  obtain s' V' L' where w: "writei D dp (bytes_of ?e) ?o 16 s2 = Ret (int (unat (16 :: u32)), s')" "lrep s' V' L' {}" "is_file s' V' dp"
    "content s' V' dp = take (unat ?o) (content s2 V dp) @ take (unat (16 :: u32)) (bytes_of ?e) @ drop (unat ?o + unat (16 :: u32)) (content s2 V dp)"
    "length L' \<le> length L + 6 * 1 + 1" "outstanding s' = outstanding s2" "lg_size s' = lg_size s2" "same_refs s2 s'"
    by (rule writei_ok [OF b(1) S2(3) r7(1,2) O(2,3) r7(3) O(1)])
  have C: "content s' V' dp = take (16 * k) ?c @ bytes_of ?e @ drop (16 * k + 16) ?c" using w(4) B unfolding o S2(2) by simp
  then have c: "dents (content s' V' dp) = put_dent (dents ?c) k ?e" using dents_put [of ?c k "bytes_of ?e"] m k(1) B dirent_of_bytes [of ?e] by simp
  have "dirlink D dp nm inum s = Ret (0, s')"
    using a(3) b(3) w(1) S1(1) m by (simp add: dirlink_def Let_def entries_dir k_def split: option.splits)
  moreover have "is_dir s' V' dp"
  proof -
    have "isize s' dp = length (content s' V' dp)" by simp
    also have "\<dots> mod 16 = 0" unfolding C using B K(1) m by (simp add: min_absorb2 mod_simps) presburger
    finally show ?thesis using w(3,8) S2(1) d by (simp add: is_dir_def same_refs_def)
  qed
  moreover have "room 1 s' L' {}" using S2(4) w(5-7) r same_trans_disk [OF t] by (simp add: room_def same_disk_def)
  moreover have "same_refs s s'" using w(8) S2(1) by (simp add: same_refs_def)
  ultimately show thesis using that w(2) c k by simp
qed

lemma icache_same_refs:
  assumes "same_refs s s'"
  shows "icache_ok (inodes s') = icache_ok (inodes s)" "iref (inodes s') = iref (inodes s)" "free_entries (inodes s') = free_entries (inodes s)"
proof -
  have e: "ikey (inodes s' p) = ikey (inodes s p)" "i_ref (inodes s' p) = i_ref (inodes s p)" for p using assms by (simp_all add: same_refs_def ikey_def)
  show "icache_ok (inodes s') = icache_ok (inodes s)" "free_entries (inodes s') = free_entries (inodes s)" by (simp_all add: icache_ok_def free_entries_def e)
  show "iref (inodes s') = iref (inodes s)" by (rule ext) (auto simp: iref_def e intro!: sum.cong)
qed

lemma dirlink_old:
  assumes l: "lrep s V L {}" and d: "is_dir s V dp" and r: "room 1 s L {}" and c: "icache_ok (inodes s)" "free_entries (inodes s) \<noteq> {}"
    and n: "dir_find nm (dents (content s V dp)) = Some k"
  obtains s' where "dirlink D dp nm inum s = Ret (-1, s')" and "istep s V L {} s' (iref (inodes s))"
proof -
  let ?i = "ucast (de_inum (dents (content s V dp) ! k)) :: u32"
  obtain s1 where a: "lrep s1 V L {}" "same_trans s s1" "dirlookup D dp nm s = bindr (iget 1 ?i s1) (\<lambda>(ip, s). Ret (Some (ip, 16 * k), s))"
    by (rule dirlookup_ok [OF l d r, of D nm]) (use n in simp)
  have S: "inodes s1 = inodes s" by (rule same_fs(2) [OF a(2)])
  have "icache_ok (inodes s1)" "is_cached (inodes s1) (1, ?i) \<or> free_entries (inodes s1) \<noteq> {}" using c S by simp_all
  then obtain ip s2 s3 where g: "iget 1 ?i s1 = Ret (ip, s2)" "iput ip s2 = Ret s3" "istep s1 V L {} s3 (iref (inodes s1))" by (rule iget_iput [OF a(1)])
  have "dirlink D dp nm inum s = Ret (-1, s3)" using a(3) g(1,2) by (simp add: dirlink_def)
  moreover have "istep s V L {} s3 (iref (inodes s))" using g(3) S same_disk_trans [OF same_trans_disk [OF a(2)]] by (simp add: istep_def)
  ultimately show thesis by (rule that)
qed

lemma dirlookup_hit:
  assumes l: "lrep s V L {}" and d: "is_dir s V dp" and r: "room 1 s L {}" and c: "icache_ok (inodes s)" "free_entries (inodes s) \<noteq> {}"
    and n: "dir_inum (dents (content s V dp)) nm = Some i"
  obtains ip off s' where "dirlookup D dp nm s = Ret (Some (ip, off), s')" and "i_inum (inodes s' ip) = ucast i" and "i_dev (inodes s' ip) = 1" and "ip < NINODE"
    and "istep s V L {} s' ((iref (inodes s))((1, ucast i) := iref (inodes s) (1, ucast i) + 1))"
    and "inodes s' = (inodes s)(ip := got_inode (inodes s) (1, ucast i) ip)"
proof -
  obtain k where k: "dir_find nm (dents (content s V dp)) = Some k" "de_inum (dents (content s V dp) ! k) = i" using n by (auto simp: dir_inum_find)
  obtain s1 where a: "lrep s1 V L {}" "same_trans s s1" "dirlookup D dp nm s = bindr (iget 1 (ucast i) s1) (\<lambda>(ip, s). Ret (Some (ip, 16 * k), s))"
    by (rule dirlookup_ok [OF l d r, of D nm]) (use k in simp)
  have S: "inodes s1 = inodes s" by (rule same_fs(2) [OF a(2)])
  let ?k = "(1 :: u32, ucast i :: u32)"
  obtain ip s' where g: "iget 1 (ucast i) s1 = Ret (ip, s')" "ip < NINODE" "istep s1 V L {} s' ((iref (inodes s))(?k := iref (inodes s) ?k + 1))"
    "inodes s' = (inodes s)(ip := got_inode (inodes s) ?k ip)"
    "if is_cached (inodes s) ?k then 0 < i_ref (inodes s ip) \<and> ikey (inodes s ip) = ?k else i_ref (inodes s ip) = 0"
    using iget_ok [OF a(1), of 1 "ucast i"] c unfolding S by auto
  have "i_inum (inodes s' ip) = ucast i" "i_dev (inodes s' ip) = 1" using g(4,5) by (auto simp: got_inode_def ikey_def split: if_splits)
  moreover have "istep s V L {} s' ((iref (inodes s))(?k := iref (inodes s) ?k + 1))"
    using g(3) same_disk_trans [OF same_trans_disk [OF a(2)]] by (simp add: istep_def)
  ultimately show thesis using that a(3) g(1,2,4) by simp
qed

section \<open>A small directory\<close>

text \<open>The file of \<open>demo_fs\<close>, made a directory, in a cache without other references.\<close>

definition dir_cache :: "nat \<Rightarrow> inode" where
  "dir_cache ip = (let x = inodes fs_on 0 in x\<lparr>i_ref := (if ip = 0 then 1 else 0), di := (di x)\<lparr>di_type := T_DIR\<rparr>\<rparr>)"

lemma dir_cache_ok: "icache_ok dir_cache" "free_entries dir_cache \<noteq> {}"
proof -
  show "icache_ok dir_cache" by (auto simp: icache_ok_def dir_cache_def Let_def split: if_splits)
  have "1 \<in> free_entries dir_cache" by (simp add: free_entries_def dir_cache_def Let_def NINODE_def)
  then show "free_entries dir_cache \<noteq> {}" by blast
qed

lemma demo_dir:
  obtains s :: fsst and V L where "lrep s V L {}" and "is_dir s V 0" and "room 20 s L {}" and "free_blocks s V = {59..<2000}" and "content s V 0 = []"
    and "inodes s = dir_cache"
proof -
  obtain r :: fsst and V where r: "lrep r V [] {}" "is_file r V 0" "room 28 r [] {}" "free_blocks r V = {59..<2000}" "content r V 0 = []" "disksize r = 2000"
    "sb r = sb_of sb0" "inodes r = inodes fs_on" by (rule demo_fs)
  let ?t = "r\<lparr>inodes := dir_cache\<rparr>"
  have T: "lrep ?t V [] {}" "room 28 ?t [] {}" using r(1,3) lrep_cong [of ?t r V "[]" "{}"] by (simp_all add: quiet_def room_def)
  have D: "same_disk r ?t" by (simp add: same_disk_def)
  have i: "addrs ?t 0 = addrs r 0" "iblk ?t 0 = iblk r 0" "i_dev (inodes ?t 0) = i_dev (inodes r 0)" "isize ?t 0 = isize r 0"
    by (simp_all add: r(8) dir_cache_def Let_def iblk_def)
  have "bm_ok ?t V" "present ?t V 0 (isize ?t 0)" using r(2) same_diskD(3) [OF D] unfolding i present_def by (simp_all add: is_file_def file_body_def present_def)
  moreover have "file_ok ?t V 0" using r(2) unfolding is_file_def file_body_def file_ok_def i same_diskD(4) [OF D] by blast
  moreover have "di_type (di (inodes ?t 0)) \<noteq> T_DEV" by (simp add: dir_cache_def Let_def T_DIR_def T_DEV_def)
  ultimately have body: "file_body ?t V 0" by (simp only: file_body_def simp_thms)
  have fo: "file_ok ?t V 0" "room 1 ?t [] {}" using body room_mono [OF T(2), of 1] by (simp_all add: file_body_def)
  obtain s d L where u: "lrep s (V(iblk ?t 0 := d)) L {}" "same_trans ?t s" "synced s (V(iblk ?t 0 := d)) 0" "length L \<le> length ([] :: nat list) + 1"
    by (rule iupdate_ok [OF T(1) fo])
  have F: "is_file s (V(iblk ?t 0 := d)) 0" "content s (V(iblk ?t 0 := d)) 0 = content ?t V 0" by (rule is_file_iblk [OF body u(2,3)])+
  have I: "inodes s = dir_cache" using same_fs(2) [OF u(2)] by simp
  have z: "isize r 0 = 0" using r(5) length_content [of r V 0] by simp
  have "is_dir s (V(iblk ?t 0 := d)) 0" using F(1) I i(4) z by (simp add: is_dir_def dir_cache_def Let_def)
  moreover have "room 20 s L {}" by (rule room_same [OF T(2) u(2)]) (use u(4) in simp)
  moreover have "content s (V(iblk ?t 0 := d)) 0 = []" using F(2) i(4) z by (simp add: content_def)
  moreover have "data ?t V (iblk ?t 0)" by (rule file_okD(8) [OF fo(1)])
  then have "free_blocks s (V(iblk ?t 0 := d)) = {59..<2000}"
    using data_write(3) [of ?t V "iblk ?t 0" d] same_diskD(5) [OF same_trans_disk [OF u(2)]] r(4) by (simp add: free_blocks_def)
  ultimately show thesis using that u(1) I by blast
qed

section \<open>Properties of directories\<close>

text \<open>
  C10: \<open>dirlink\<close> and \<open>dirlookup\<close>. If the directory has an entry in use with the name, \<open>dirlink\<close> returns -1, no
  block has changed and every inode has as many references as before. Otherwise it returns 0; the
  directory is still one, the name now leads to the new inode and every other name where it led
  before (names agree if their first \<open>DIRSIZ\<close> bytes do, up to a null byte); and \<open>dirlookup\<close> of the name
  returns a pointer to an entry of the inode cache for the new inode.
\<close>

theorem dirlink_dirlookup:
  assumes "lrep s V L {}" and "is_dir s V dp" and "room 8 s L {}" and "2 \<le> card (free_blocks s V)" and "isize s dp + 16 \<le> MAXFILE * BSIZE"
    and "icache_ok (inodes s)" and "free_entries (inodes s) \<noteq> {}" and "name_ok nm" and "(ucast inum :: u16) \<noteq> 0"
  shows "if dir_inum (dents (content s V dp)) nm \<noteq> None
    then \<exists>s'. dirlink D dp nm inum s = Ret (-1, s') \<and> lrep s' V L {} \<and> iref (inodes s') = iref (inodes s)
    else \<exists>s' V' L' ip off s''. dirlink D dp nm inum s = Ret (0, s') \<and> lrep s' V' L' {} \<and> is_dir s' V' dp
      \<and> (\<forall>nm'. name_ok nm' \<longrightarrow> dir_inum (dents (content s' V' dp)) nm' =
           (if strncpy_name nm' = strncpy_name nm then Some (ucast inum) else dir_inum (dents (content s V dp)) nm'))
      \<and> dirlookup D dp nm s' = Ret (Some (ip, off), s'') \<and> i_inum (inodes s'' ip) = ucast (ucast inum :: u16)"
proof (cases "dir_find nm (dents (content s V dp))")
  case (Some k)
  have "room 1 s L {}" by (rule room_mono [OF assms(3)]) simp
  then obtain s' where "dirlink D dp nm inum s = Ret (-1, s')" "istep s V L {} s' (iref (inodes s))"
    by (rule dirlink_old [OF assms(1,2) _ assms(6,7) Some])
  then show ?thesis using Some by (auto simp: istep_def dir_inum_find)
next
  case None
  let ?es = "dents (content s V dp)"
  obtain s' V' L' k where w: "dirlink D dp nm inum s = Ret (0, s')" "lrep s' V' L' {}"
    "dents (content s' V' dp) = put_dent ?es k \<lparr>de_inum = ucast inum, de_name = strncpy_name nm\<rparr>"
    "is_dir s' V' dp" "same_refs s s'" "room 1 s' L' {}" "k \<le> length ?es" "k < length ?es \<Longrightarrow> de_inum (?es ! k) = 0"
    by (rule dirlink_new [OF assms(1-5) None, of D inum]) blast
  have z: "dir_inum ?es nm = None" using None by (simp add: dir_inum_find)
  have i: "dir_inum (dents (content s' V' dp)) nm' = (if strncpy_name nm' = strncpy_name nm then Some (ucast inum) else dir_inum ?es nm')" if "name_ok nm'" for nm'
    unfolding w(3) by (rule dir_inum_put [OF dents_name w(7,8) z assms(8,9) that])
  have "icache_ok (inodes s')" "free_entries (inodes s') \<noteq> {}" using icache_same_refs [OF w(5)] assms(6,7) by simp_all
  moreover have "dir_inum (dents (content s' V' dp)) nm = Some (ucast inum)" using i [OF assms(8)] by simp
  ultimately obtain ip off s'' where "dirlookup D dp nm s' = Ret (Some (ip, off), s'')" "i_inum (inodes s'' ip) = ucast (ucast inum :: u16)"
    by (rule dirlookup_hit [OF w(2,4,6)])
  then show ?thesis using z w(1,2,4) i by auto
qed

theorem dirlink_dirlookup_witness:
  "\<exists>D (s :: fsst) V L s' V' L' ip off s''. lrep s V L {} \<and> dents (content s V 0) = [] \<and> dirlink D 0 [97, 0] 7 s = Ret (0, s') \<and> lrep s' V' L' {}
     \<and> dir_inum (dents (content s' V' 0)) [97, 0] = Some 7 \<and> dir_inum (dents (content s' V' 0)) [98, 0] = None
     \<and> dirlookup D 0 [97, 0] s' = Ret (Some (ip, off), s'') \<and> i_inum (inodes s'' ip) = 7"
proof -
  let ?D = "\<lparr>dread = \<lambda>_. None, dwrite = \<lambda>_. None\<rparr> :: fsst devsw"
  obtain s :: fsst and V L where s: "lrep s V L {}" "is_dir s V 0" "room 20 s L {}" "free_blocks s V = {59..<2000}" "content s V 0 = []" "inodes s = dir_cache"
    by (rule demo_dir)
  have e: "dents (content s V 0) = []" "isize s 0 = 0" using s(5) length_content [of s V 0] by (simp_all add: dents_def)
  have n: "name_ok [97, 0]" "name_ok [98, 0]" "(ucast (7 :: u32) :: u16) \<noteq> 0" "ucast (ucast (7 :: u32) :: u16) = (7 :: u32)" "ucast (7 :: u32) = (7 :: u16)"
    "strncpy_name [98, 0] \<noteq> strncpy_name [97, 0]" by (simp_all add: name_ok_def strncpy_eq DIRSIZ_def)
  have "room 8 s L {}" "2 \<le> card (free_blocks s V)" "isize s 0 + 16 \<le> MAXFILE * BSIZE" using room_mono [OF s(3), of 8] s(4) e(2) by (simp_all add: fs_consts)
  then have X: "if dir_inum (dents (content s V 0)) [97, 0] \<noteq> None
    then \<exists>s'. dirlink ?D 0 [97, 0] 7 s = Ret (-1, s') \<and> lrep s' V L {} \<and> iref (inodes s') = iref (inodes s)
    else \<exists>s' V' L' ip off s''. dirlink ?D 0 [97, 0] 7 s = Ret (0, s') \<and> lrep s' V' L' {} \<and> is_dir s' V' 0
      \<and> (\<forall>nm'. name_ok nm' \<longrightarrow> dir_inum (dents (content s' V' 0)) nm' =
           (if strncpy_name nm' = strncpy_name [97, 0] then Some (ucast (7 :: u32)) else dir_inum (dents (content s V 0)) nm'))
      \<and> dirlookup ?D 0 [97, 0] s' = Ret (Some (ip, off), s'') \<and> i_inum (inodes s'' ip) = ucast (ucast (7 :: u32) :: u16)"
    using dirlink_dirlookup [OF s(1,2) _ _ _ _ _ n(1,3), of ?D] dir_cache_ok s(6) by simp
  then obtain s' V' L' ip off s'' where w: "dirlink ?D 0 [97, 0] 7 s = Ret (0, s')" "lrep s' V' L' {}"
    "\<forall>nm'. name_ok nm' \<longrightarrow> dir_inum (dents (content s' V' 0)) nm' = (if strncpy_name nm' = strncpy_name [97, 0] then Some 7 else None)"
    "dirlookup ?D 0 [97, 0] s' = Ret (Some (ip, off), s'')" "i_inum (inodes s'' ip) = 7"
    unfolding e(1) n(4,5) by (auto simp: dir_inum_def)
  have "dir_inum (dents (content s' V' 0)) [97, 0] = Some 7" "dir_inum (dents (content s' V' 0)) [98, 0] = None" using w(3) n(1,2,6) by simp_all
  then show ?thesis using s(1) e(1) w(1,2,4,5) by blast
qed

end
