(* ===== verification/Fsname.thy ===== *)
theory Fsname
  imports Fspath
begin

text \<open>
  Paths: \<open>skipelem\<close> takes a path apart at its slashes, and \<open>namei\<close> follows the elements through the
  directories on disk.
\<close>

section \<open>Elements of a path\<close>

function path_elems :: "u8 list \<Rightarrow> u8 list list" where
  "path_elems path = (let p = dropWhile (\<lambda>c. c = slash) path in
     if p = [] then [] else takeWhile (\<lambda>c. c \<noteq> slash) p # path_elems (dropWhile (\<lambda>c. c \<noteq> slash) p))"
  by pat_completeness auto
termination
proof (relation "measure length", simp)
  fix path p :: "u8 list"
  assume p: "p = dropWhile (\<lambda>c. c = slash) path" "p \<noteq> []"
  then have "hd p \<noteq> slash" using hd_dropWhile [of "\<lambda>c. c = slash" path] by simp
  then have "length (dropWhile (\<lambda>c. c \<noteq> slash) p) < length p" using p(2) length_dropWhile_le [of "\<lambda>c. c \<noteq> slash" "tl p"] by (cases p) auto
  then show "(dropWhile (\<lambda>c. c \<noteq> slash) p, path) \<in> measure length" using p(1) length_dropWhile_le [of "\<lambda>c. c = slash" path] by simp
qed

declare path_elems.simps [simp del]

lemma path_elems_step:
  "path_elems path = (if dropWhile (\<lambda>c. c = slash) path = [] then [] else takeWhile (\<lambda>c. c \<noteq> slash) (dropWhile (\<lambda>c. c = slash) path) #
     path_elems (dropWhile (\<lambda>c. c \<noteq> slash) (dropWhile (\<lambda>c. c = slash) path)))"
  by (subst path_elems.simps) (simp only: Let_def)

lemma path_elems_slashes: "path_elems (dropWhile (\<lambda>c. c = slash) path) = path_elems path"
  by (subst (1 2) path_elems.simps) (simp add: dropWhile_idem)

text \<open>What \<open>skipelem\<close> leaves in the name buffer.\<close>

definition copy_elem :: "u8 list \<Rightarrow> u8 list \<Rightarrow> u8 list" where
  "copy_elem el nm = (if length el \<ge> DIRSIZ then splice 0 (take DIRSIZ el) nm else splice 0 (el @ [0]) nm)"

lemma skipelem_elems:
  "case path_elems path of [] \<Rightarrow> skipelem path nm = (None, nm)
   | el # els \<Rightarrow> \<exists>path'. skipelem path nm = (Some path', copy_elem el nm) \<and> path_elems path' = els \<and> (path' = [] \<longleftrightarrow> els = [])"
proof -
  let ?p = "dropWhile (\<lambda>c. c = slash) path"
  let ?el = "takeWhile (\<lambda>c. c \<noteq> slash) ?p" and ?r = "dropWhile (\<lambda>c. c \<noteq> slash) ?p"
  show ?thesis
  proof (cases "?p = []")
    case True
    then have "path_elems path = []" "skipelem path nm = (None, nm)" by (simp_all add: path_elems_step [of path] skipelem_def Let_def del: dropWhile_eq_Nil_conv)
    then show ?thesis by simp
  next
    case False
    have e: "path_elems path = ?el # path_elems ?r" using False by (simp only: path_elems_step [of path] if_False)
    have "skipelem path nm = (Some (dropWhile (\<lambda>c. c = slash) ?r), copy_elem ?el nm)"
      using False by (simp add: skipelem_def Let_def copy_elem_def dropWhile_eq_drop [symmetric] del: dropWhile_eq_Nil_conv)
    moreover have "dropWhile (\<lambda>c. c = slash) ?r = [] \<longleftrightarrow> path_elems ?r = []"
      by (subst path_elems_step) (simp del: dropWhile_eq_Nil_conv)
    ultimately show ?thesis using path_elems_slashes [of ?r] e by simp
  qed
qed

lemma copy_elem_name:
  assumes "0 \<notin> set el" and "length nm = DIRSIZ"
  shows "length (copy_elem el nm) = DIRSIZ" and "strncpy_name (copy_elem el nm) = strncpy_name el"
proof -
  show "length (copy_elem el nm) = DIRSIZ" using assms(2) by (simp add: copy_elem_def)
  show "strncpy_name (copy_elem el nm) = strncpy_name el"
  proof (cases "DIRSIZ \<le> length el")
    case True
    then show ?thesis using assms(2) by (simp add: copy_elem_def strncpy_eq splice_def)
  next
    case False
    have "takeWhile (\<lambda>c. c \<noteq> 0) (el @ 0 # ys) = el" for ys using assms(1) by (subst takeWhile_append2) auto
    moreover have "takeWhile (\<lambda>c. c \<noteq> 0) el = el" by (subst takeWhile_eq_all_conv) (use assms(1) in auto)
    ultimately show ?thesis using False assms(2) by (simp add: copy_elem_def strncpy_eq splice_def del: takeWhile_eq_all_conv)
  qed
qed

lemma elems_no_null: "0 \<notin> set path \<Longrightarrow> el \<in> set (path_elems path) \<Longrightarrow> 0 \<notin> set el"
proof (induction path rule: path_elems.induct)
  case (1 path)
  let ?p = "dropWhile (\<lambda>c. c = slash) path"
  have "0 \<notin> set ?p" using 1(2) set_dropWhileD by metis
  then have z: "0 \<notin> set (takeWhile (\<lambda>c. c \<noteq> slash) ?p)" "0 \<notin> set (dropWhile (\<lambda>c. c \<noteq> slash) ?p)" using set_takeWhileD set_dropWhileD by metis+
  show ?case
  proof (cases "?p = []")
    case True
    then show ?thesis using 1(3) by (simp only: path_elems_step [of path] if_True) simp
  next
    case False
    then have "el = takeWhile (\<lambda>c. c \<noteq> slash) ?p \<or> el \<in> set (path_elems (dropWhile (\<lambda>c. c \<noteq> slash) ?p))" using 1(3) by (simp only: path_elems_step [of path] if_False list.set insert_iff)
    then show ?thesis using z 1(1) [OF refl False z(2)] by blast
  qed
qed

section \<open>Directories on disk\<close>

text \<open>The entry of the cache that shows an inode of the disk, and the directory as it shows there.\<close>

definition shown :: "superblock \<Rightarrow> (nat \<Rightarrow> u8 list) \<Rightarrow> u32 \<Rightarrow> inode" where
  "shown x V n = \<lparr>i_dev = 1, i_inum = n, i_ref = 1, i_flags = 0, di = dino x V n\<rparr>"

definition view :: "'a fsst_scheme \<Rightarrow> (nat \<Rightarrow> u8 list) \<Rightarrow> u32 \<Rightarrow> 'a fsst_scheme" where
  "view s V n = s\<lparr>inodes := \<lambda>_. shown (sb s) V n\<rparr>"

definition dir_on_disk :: "superblock \<Rightarrow> (nat \<Rightarrow> u8 list) \<Rightarrow> u32 \<Rightarrow> dirent list" where
  "dir_on_disk x V n = (let d = dino x V n in
     dents (map (\<lambda>k. V (fblk (di_addrs d) V (k div BSIZE)) ! (k mod BSIZE)) [0..<unat (di_size d)]))"

text \<open>Where the elements of a path lead, from inode \<open>n\<close> on; with \<open>par\<close>, to the directory of the last one.\<close>

fun walk :: "bool \<Rightarrow> superblock \<Rightarrow> (nat \<Rightarrow> u8 list) \<Rightarrow> u32 \<Rightarrow> u8 list list \<Rightarrow> u32 option" where
  "walk par x V n [] = (if par then None else Some n)"
| "walk par x V n (el # els) = (if di_type (dino x V n) \<noteq> T_DIR then None
     else if par \<and> els = [] then Some n
     else case dir_inum (dir_on_disk x V n) (strncpy_name el) of None \<Rightarrow> None | Some i \<Rightarrow> walk par x V (ucast i) els)"

text \<open>The inodes \<open>N\<close> are in order: they are allocated, and the directories among them lead to inodes of \<open>N\<close>.\<close>

definition tree_ok :: "'a fsst_scheme \<Rightarrow> (nat \<Rightarrow> u8 list) \<Rightarrow> u32 set \<Rightarrow> bool" where
  "tree_ok s V N \<longleftrightarrow> (\<forall>n\<in>N. good_inum (sb s) (disksize s) V n \<and> (di_type (dino (sb s) V n) = T_DIR \<longrightarrow> is_dir (view s V n) V 0 \<and>
     (\<forall>e\<in>set (dir_on_disk (sb s) V n). de_inum e \<noteq> 0 \<longrightarrow> ucast (de_inum e) \<in> N)))"

lemma same_disk_view: "same_disk s (view s V n)"
  by (simp add: same_disk_def view_def)

lemma T_DIR_not_DEV [simp]: "T_DIR \<noteq> T_DEV"
  by (simp add: T_DIR_def T_DEV_def)

lemma is_dir_cong:
  assumes d: "is_dir s V ip" and S: "sb t = sb s" "disksize t = disksize s" "\<And>n. home t n = home s n"
    and i: "i_dev (inodes t jp) = i_dev (inodes s ip)" "i_inum (inodes t jp) = i_inum (inodes s ip)" "di (inodes t jp) = di (inodes s ip)"
  shows "is_dir t V jp" and "content t V jp = content s V ip"
proof -
  have D: "data t V n = data s V n" "bm_ok t V = bm_ok s V" for n using S by (simp_all add: data_def bm_ok_def)
  have I: "addrs t jp = addrs s ip" "iblk t jp = iblk s ip" "islot t jp = islot s ip" "isize t jp = isize s ip" using i S(1) by (simp_all add: iblk_def islot_def)
  have "file_ok t V jp" using d unfolding is_dir_def is_file_def file_body_def file_ok_def I D i(1) by blast
  then show "is_dir t V jp" using d D(2) I i(3) by (simp add: is_dir_def is_file_def file_body_def present_def synced_def)
  show "content t V jp = content s V ip" using I by (simp add: content_def fbyte_def)
qed

lemma dir_shown:
  assumes "is_dir (view s V n) V 0" and "same_disk s t" and "i_dev (inodes t ip) = 1" and "i_inum (inodes t ip) = n" and "di (inodes t ip) = dino (sb s) V n"
  shows "is_dir t V ip" and "dents (content t V ip) = dir_on_disk (sb s) V n"
proof -
  have S: "sb t = sb (view s V n)" "disksize t = disksize (view s V n)" "\<And>m. home t m = home (view s V n) m"
    using assms(2) by (simp_all add: same_disk_def view_def home_def loga_def)
  show "is_dir t V ip" by (rule is_dir_cong(1) [OF assms(1) S]) (use assms(3-5) in \<open>simp_all add: view_def shown_def\<close>)
  show "dents (content t V ip) = dir_on_disk (sb s) V n" using assms(5) by (simp add: content_def dir_on_disk_def Let_def fbyte_def cong: map_cong)
qed

lemma tree_same: "same_disk s t \<Longrightarrow> tree_ok t V N = tree_ok s V N"
proof -
  assume D: "same_disk s t"
  then have S: "sb t = sb s" "disksize t = disksize s" by (simp_all add: same_disk_def)
  have "is_dir (view t V n) V 0 = is_dir (view s V n) V 0" for n
  proof -
    have "same_disk s (view t V n)" "same_disk t (view s V n)" using D by (simp_all add: same_disk_def view_def)
    then show ?thesis using dir_shown(1) [of s V n "view t V n" 0] dir_shown(1) [of t V n "view s V n" 0] S by (auto simp: view_def shown_def)
  qed
  then show ?thesis using S by (simp add: tree_ok_def)
qed

lemma dir_inum_name: "name_ok nm \<Longrightarrow> name_ok nm' \<Longrightarrow> strncpy_name nm = strncpy_name nm' \<Longrightarrow> \<forall>e\<in>set es. length (de_name e) = DIRSIZ \<Longrightarrow> dir_inum es nm = dir_inum es nm'"
  unfolding dir_inum_def by (auto intro!: arg_cong [where f = "map_option de_inum"] find_cong simp: has_name_strncpy)

lemma dir_inum_Some: "dir_inum es nm = Some i \<Longrightarrow> \<exists>e\<in>set es. de_inum e = i \<and> i \<noteq> 0"
  by (auto simp: dir_inum_def find_Some_iff has_name_def)

section \<open>The walk of namex\<close>

lemma same_inums_trans: "same_inums A s s' \<Longrightarrow> same_inums B s' s'' \<Longrightarrow> C \<subseteq> A \<inter> B \<Longrightarrow> same_inums C s s''"
  unfolding same_inums_def by (metis IntD1 IntD2 subsetD)

lemma held_same: "same_trans s s' \<Longrightarrow> held s' V B hs = held s V B hs"
  using same_fs [of s s'] by (simp add: held_def i_busy_def i_valid_def synced_dino)

lemma held_unlockput:
  assumes "lrep s V L {}" and "held s V {ip} (hs @ ip # ks)"
  obtains s' where "iunlockput ip s = Ret s'" and "lrep s' V L {}" and "same_disk s s'" and "held s' V {} (hs @ ks)" and "same_inums UNIV s s'"
proof -
  obtain s1 where u: "iunlock (Some ip) s = Ret s1" "lrep s1 V L {}" "same_disk s s1" "held s1 V ({ip} - {ip}) (hs @ ip # ks)" "same_inums UNIV s s1"
    by (rule held_unlock [OF assms]) simp
  have h: "held s1 V {} (hs @ ip # ks)" using u(4) by simp
  obtain s2 where p: "iput ((hs @ ip # ks) ! length hs) s1 = Ret s2" "lrep s2 V L {}" "same_disk s1 s2"
    "held s2 V {} (take (length hs) (hs @ ip # ks) @ drop (Suc (length hs)) (hs @ ip # ks))" "same_inums UNIV s1 s2"
    by (rule held_put [OF u(2) h, of "length hs"]) simp_all
  have "iunlockput ip s = Ret s2" using u(1) p(1) by (simp add: iunlockput_def)
  then show thesis using that p(2,4) same_disk_trans [OF u(3) p(3)] same_inums_trans [OF u(5) p(5), of UNIV] by simp
qed

text \<open>Looking up an element in a locked directory and moving on.\<close>

lemma held_lookup:
  assumes l: "lrep s V L {}" and r: "room 1 s L {}" and h: "held s V {ip} (hs @ [ip])" and t: "tree_ok s V N" and n: "i_inum (inodes s ip) \<in> N"
    and d: "di (inodes s ip) = dino (sb s) V (i_inum (inodes s ip))" "di_type (di (inodes s ip)) = T_DIR" and z: "length hs + 2 \<le> NINODE"
    and el: "name_ok nm" "strncpy_name nm = strncpy_name el"
  shows "case dir_inum (dir_on_disk (sb s) V (i_inum (inodes s ip))) (strncpy_name el) of
      None \<Rightarrow> \<exists>s'. dirlookup D ip nm s = Ret (None, s') \<and> lrep s' V L {} \<and> same_disk s s' \<and> held s' V {ip} (hs @ [ip]) \<and> same_inums UNIV s s'
    | Some i \<Rightarrow> \<exists>jp off s'. dirlookup D ip nm s = Ret (Some (jp, off), s') \<and> lrep s' V L {} \<and> same_disk s s' \<and> held s' V {ip} (hs @ [ip, jp])
        \<and> i_inum (inodes s' jp) = ucast i \<and> ucast i \<in> N \<and> same_inums (set (hs @ [ip])) s s'"
proof -
  let ?n = "i_inum (inodes s ip)" and ?es = "dir_on_disk (sb s) V (i_inum (inodes s ip))"
  have T: "is_dir (view s V ?n) V 0" "\<forall>e\<in>set ?es. de_inum e \<noteq> 0 \<longrightarrow> ucast (de_inum e) \<in> N" using t n d by (auto simp: tree_ok_def)
  have dev: "i_dev (inodes s ip) = 1" using held_entry(3) [OF h] by simp
  have D: "is_dir s V ip" "dents (content s V ip) = ?es" by (rule dir_shown [OF T(1) same_disk_refl dev refl d(1)])+
  have "\<forall>e\<in>set ?es. length (de_name e) = DIRSIZ" using dents_name [of _ "content s V ip"] D(2) by simp
  moreover have "name_ok (strncpy_name el)" by (simp add: name_ok_def)
  ultimately have e: "dir_inum ?es nm = dir_inum ?es (strncpy_name el)" using el by (intro dir_inum_name) simp_all
  obtain s1 where a: "lrep s1 V L {}" "same_trans s s1" "dirlookup D ip nm s =
    (case dir_find nm ?es of None \<Rightarrow> Ret (None, s1) | Some k \<Rightarrow> bindr (iget 1 (ucast (de_inum (?es ! k))) s1) (\<lambda>(ip, s). Ret (Some (ip, 16 * k), s)))"
    using dirlookup_ok [OF l D(1) r, of D nm] unfolding D(2) by blast
  have h1: "held s1 V {ip} (hs @ [ip])" using h held_same [OF a(2)] by simp
  have S: "same_disk s s1" "inodes s1 = inodes s" "sb s1 = sb s" "disksize s1 = disksize s" using same_trans_disk [OF a(2)] same_fs [OF a(2)] by simp_all
  show ?thesis
  proof (cases "dir_find nm ?es")
    case None
    then have "dir_inum ?es (strncpy_name el) = None" using e by (simp add: dir_inum_find)
    then show ?thesis using None a S h1 by (auto simp: same_inums_def)
  next
    case (Some k)
    let ?i = "de_inum (?es ! k)"
    have i: "dir_inum ?es (strncpy_name el) = Some ?i" using Some e by (simp add: dir_inum_find)
    then have N: "ucast ?i \<in> N" using dir_inum_Some [OF i] T(2) by auto
    then have "good_inum (sb s1) (disksize s1) V (ucast ?i)" "length (hs @ [ip]) < NINODE" using t S z by (simp_all add: tree_ok_def)
    then obtain jp s2 where g: "iget 1 (ucast ?i) s1 = Ret (jp, s2)" "lrep s2 V L {}" "same_disk s1 s2" "held s2 V {ip} ((hs @ [ip]) @ [jp])"
      "i_inum (inodes s2 jp) = ucast ?i" "same_inums (set (hs @ [ip])) s1 s2" by (rule held_get [OF a(1) h1])
    have "dirlookup D ip nm s = Ret (Some (jp, 16 * k), s2)" using a(3) Some g(1) by simp
    then show ?thesis using i N g(2,4,5,6) same_disk_trans [OF S(1) g(3)] S(2) by (auto simp: same_inums_def)
  qed
qed

definition walked :: "'a fsst_scheme \<Rightarrow> (nat \<Rightarrow> u8 list) \<Rightarrow> nat list \<Rightarrow> nat list \<Rightarrow> u32 option \<Rightarrow> u8 list list \<Rightarrow> (nat option \<times> u8 list \<times> 'a fsst_scheme) res \<Rightarrow> bool" where
  "walked s V L hs w ns r \<longleftrightarrow> (\<exists>q nm s'. r = Ret (q, nm, s') \<and> lrep s' V L {} \<and> same_disk s s' \<and> same_inums (set hs) s s' \<and>
     (case w of None \<Rightarrow> q = None \<and> held s' V {} hs
      | Some n \<Rightarrow> \<exists>jp. q = Some jp \<and> held s' V {} (hs @ [jp]) \<and> i_inum (inodes s' jp) = n \<and> strncpy_name nm = strncpy_name (last ns)))"

lemma walked_later:
  assumes "walked s1 V L hs w ns r" and "same_disk s s1" and "same_inums (set hs) s s1" and "strncpy_name (last ns) = strncpy_name (last ns')"
  shows "walked s V L hs w ns' r"
proof -
  obtain q nm s' where r: "r = Ret (q, nm, s')" "lrep s' V L {}" "same_disk s1 s'" "same_inums (set hs) s1 s'"
    "case w of None \<Rightarrow> q = None \<and> held s' V {} hs
     | Some n \<Rightarrow> \<exists>jp. q = Some jp \<and> held s' V {} (hs @ [jp]) \<and> i_inum (inodes s' jp) = n \<and> strncpy_name nm = strncpy_name (last ns)"
    using assms(1) unfolding walked_def by blast
  have "same_disk s s'" "same_inums (set hs) s s'" using same_disk_trans [OF assms(2) r(3)] same_inums_trans [OF assms(3) r(4)] by simp_all
  then show ?thesis using r(1,2,5) assms(4) unfolding walked_def by (cases w) auto
qed

lemma namex_step:
  assumes l: "lrep s V L {}" and r: "room 1 s L {}" and h: "held s V {ip} (hs @ [ip])" and t: "tree_ok s V N" and n: "i_inum (inodes s ip) \<in> N"
    and d: "di (inodes s ip) = dino (sb s) V (i_inum (inodes s ip))" "di_type (di (inodes s ip)) = T_DIR" and z: "length hs + 2 \<le> NINODE"
    and el: "name_ok nm" "strncpy_name nm = strncpy_name el"
    and R: "R = bindr (dirlookup D ip nm s) (\<lambda>(r, s). case r of None \<Rightarrow> bindr (iunlockput ip s) f | Some (jp, _) \<Rightarrow> bindr (iunlockput ip s) (g jp))"
  shows "case dir_inum (dir_on_disk (sb s) V (i_inum (inodes s ip))) (strncpy_name el) of
      None \<Rightarrow> \<exists>s'. R = f s' \<and> lrep s' V L {} \<and> same_disk s s' \<and> held s' V {} hs \<and> same_inums (set hs) s s'
    | Some i \<Rightarrow> \<exists>jp s'. R = g jp s' \<and> lrep s' V L {} \<and> same_disk s s' \<and> held s' V {} (hs @ [jp]) \<and> i_inum (inodes s' jp) = ucast i \<and> ucast i \<in> N
        \<and> same_inums (set hs) s s'"
proof (cases "dir_inum (dir_on_disk (sb s) V (i_inum (inodes s ip))) (strncpy_name el)")
  case None
  then obtain s1 where a: "dirlookup D ip nm s = Ret (None, s1)" "lrep s1 V L {}" "same_disk s s1" "held s1 V {ip} (hs @ [ip])" "same_inums UNIV s s1"
    using held_lookup [OF l r h t n d z el, of D] by auto
  obtain s2 where "iunlockput ip s1 = Ret s2" "lrep s2 V L {}" "same_disk s1 s2" "held s2 V {} (hs @ [])" "same_inums UNIV s1 s2"
    by (rule held_unlockput [OF a(2,4)])
  then show ?thesis using None a same_disk_trans [OF a(3)] by (auto simp: R same_inums_def)
next
  case (Some i)
  then obtain jp off s1 where a: "dirlookup D ip nm s = Ret (Some (jp, off), s1)" "lrep s1 V L {}" "same_disk s s1" "held s1 V {ip} (hs @ [ip, jp])"
    "i_inum (inodes s1 jp) = ucast i" "ucast i \<in> N" "same_inums (set (hs @ [ip])) s s1"
    using held_lookup [OF l r h t n d z el, of D] by auto
  obtain s2 where b: "iunlockput ip s1 = Ret s2" "lrep s2 V L {}" "same_disk s1 s2" "held s2 V {} (hs @ [jp])" "same_inums UNIV s1 s2"
    by (rule held_unlockput [OF a(2,4)])
  have "same_inums (set hs) s s2" by (rule same_inums_trans [OF a(7) b(5)]) auto
  moreover have "i_inum (inodes s2 jp) = ucast i" using a(5) b(5) by (simp add: same_inums_def)
  ultimately show ?thesis using Some a(1,6) b(1,2,4) same_disk_trans [OF a(3) b(3)] by (auto simp: R)
qed

lemma namex_elem:
  assumes "skipelem path nm = (Some path', nm')" and "ilock (Some ip) s = Ret s1"
  shows "namex_loop D ip path par nm s = (if di_type (di (inodes s1 ip)) \<noteq> T_DIR then bindr (iunlockput ip s1) (\<lambda>s. Ret (None, nm', s))
      else if par \<and> path' = [] then bindr (iunlock (Some ip) s1) (\<lambda>s. Ret (Some ip, nm', s))
      else bindr (dirlookup D ip nm' s1) (\<lambda>(r, s). case r of None \<Rightarrow> bindr (iunlockput ip s) (\<lambda>s. Ret (None, nm', s))
        | Some (next', _) \<Rightarrow> bindr (iunlockput ip s) (\<lambda>s. namex_loop D next' path' par nm' s)))"
  using assms by (subst namex_loop.simps) simp

lemma namex_loop_ok:
  assumes "lrep s V L {}" and "room 1 s L {}" and "held s V {} (hs @ [ip])" and "tree_ok s V N" and "i_inum (inodes s ip) \<in> N" and "length hs + 2 \<le> NINODE"
    and "\<forall>el\<in>set els. 0 \<notin> set el" and "length nm = DIRSIZ" and "path_elems path = els"
  shows "walked s V L hs (walk par (sb s) V (i_inum (inodes s ip)) els) (nm # els) (namex_loop D ip path par nm s)"
  using assms
proof (induction els arbitrary: s ip nm path)
  case Nil
  have k: "skipelem path nm = (None, nm)" using skipelem_elems [of path nm] Nil.prems(9) by simp
  show ?case
  proof (cases par)
    case True
    obtain s' where "iput ((hs @ [ip]) ! length hs) s = Ret s'" "lrep s' V L {}" "same_disk s s'"
      "held s' V {} (take (length hs) (hs @ [ip]) @ drop (Suc (length hs)) (hs @ [ip]))" "same_inums UNIV s s'"
      by (rule held_put [OF Nil.prems(1,3), of "length hs"]) simp_all
    then show ?thesis using True k by (subst namex_loop.simps) (simp add: walked_def same_inums_def)
  next
    case False
    then show ?thesis using k Nil.prems(1,3) by (subst namex_loop.simps) (simp add: walked_def same_inums_def)
  qed
next
  case (Cons el els)
  let ?n = "i_inum (inodes s ip)"
  obtain path' where k: "skipelem path nm = (Some path', copy_elem el nm)" "path_elems path' = els" "path' = [] \<longleftrightarrow> els = []"
    using skipelem_elems [of path nm] Cons.prems(9) by auto
  have nm: "length (copy_elem el nm) = DIRSIZ" "strncpy_name (copy_elem el nm) = strncpy_name el" "name_ok (copy_elem el nm)"
    using copy_elem_name [OF _ Cons.prems(8), of el] Cons.prems(7) by (simp_all add: name_ok_def)
  obtain s1 where a: "ilock (Some ip) s = Ret s1" "lrep s1 V L {}" "same_disk s s1" "held s1 V {ip} (hs @ [ip])" "di (inodes s1 ip) = dino (sb s) V ?n" "same_inums UNIV s s1"
    by (rule held_lock [OF Cons.prems(1-3), of ip]) simp_all
  have S: "sb s1 = sb s" "i_inum (inodes s1 ip) = ?n" "room 1 s1 L {}" "tree_ok s1 V N"
    using a(3,6) same_diskD(1) [OF a(3)] Cons.prems(2,4) tree_same [OF a(3)] by (simp_all add: same_disk_def same_inums_def)
  note e = namex_elem [OF k(1) a(1), of D par, unfolded k(3)]
  have T: "di_type (di (inodes s1 ip)) = di_type (dino (sb s) V ?n)" using a(5) by simp
  have I: "same_inums (set hs) s s1" using a(6) by (simp add: same_inums_def)
  consider (plain) "di_type (dino (sb s) V ?n) \<noteq> T_DIR" | (stop) "di_type (dino (sb s) V ?n) = T_DIR" "par" "els = []"
    | (deeper) "di_type (dino (sb s) V ?n) = T_DIR" "\<not> (par \<and> els = [])" by blast
  then show ?case
  proof cases
    case plain
    obtain s2 where "iunlockput ip s1 = Ret s2" "lrep s2 V L {}" "same_disk s1 s2" "held s2 V {} (hs @ [])" "same_inums UNIV s1 s2"
      by (rule held_unlockput [OF a(2,4)])
    then have "walked s1 V L hs None (nm # el # els) (namex_loop D ip path par nm s)" using e T plain by (simp add: walked_def same_inums_def)
    then have "walked s V L hs None (nm # el # els) (namex_loop D ip path par nm s)" by (rule walked_later [OF _ a(3) I refl])
    then show ?thesis using plain by simp
  next
    case stop
    obtain s2 where "iunlock (Some ip) s1 = Ret s2" "lrep s2 V L {}" "same_disk s1 s2" "held s2 V ({ip} - {ip}) (hs @ [ip])" "same_inums UNIV s1 s2"
      by (rule held_unlock [OF a(2,4)]) simp
    then have "walked s1 V L hs (Some ?n) [nm, el] (namex_loop D ip path par nm s)" using e T stop nm(2) S(2) by (simp add: walked_def same_inums_def)
    then have "walked s V L hs (Some ?n) [nm, el] (namex_loop D ip path par nm s)" by (rule walked_later [OF _ a(3) I refl])
    then show ?thesis using stop by simp
  next
    case deeper
    let ?f = "\<lambda>s. Ret (None, copy_elem el nm, s)" and ?g = "\<lambda>jp s. namex_loop D jp path' par (copy_elem el nm) s"
    let ?R = "bindr (dirlookup D ip (copy_elem el nm) s1) (\<lambda>(r, s). case r of None \<Rightarrow> bindr (iunlockput ip s) ?f | Some (jp, _) \<Rightarrow> bindr (iunlockput ip s) (?g jp))"
    have "i_inum (inodes s1 ip) \<in> N" "di (inodes s1 ip) = dino (sb s1) V (i_inum (inodes s1 ip))" "di_type (di (inodes s1 ip)) = T_DIR"
      using Cons.prems(5) S a(5) T deeper by simp_all
    note st = namex_step [OF a(2) S(3) a(4) S(4) this Cons.prems(6) nm(3,2) refl, of D ?f ?g, unfolded S(1,2)]
    have R: "namex_loop D ip path par nm s = ?R" using e T deeper by (auto cong: option.case_cong)
    have W: "walk par (sb s) V ?n (el # els) = (case dir_inum (dir_on_disk (sb s) V ?n) (strncpy_name el) of None \<Rightarrow> None | Some i \<Rightarrow> walk par (sb s) V (ucast i) els)"
      using deeper by auto
    show ?thesis
    proof (cases "dir_inum (dir_on_disk (sb s) V ?n) (strncpy_name el)")
      case None
      then obtain s2 where "?R = ?f s2" "lrep s2 V L {}" "same_disk s1 s2" "held s2 V {} hs" "same_inums (set hs) s1 s2" using st by auto
      then have "walked s1 V L hs None (nm # el # els) ?R" by (simp add: walked_def)
      then have "walked s V L hs None (nm # el # els) ?R" by (rule walked_later [OF _ a(3) I refl])
      then show ?thesis unfolding W R using None by simp
    next
      case (Some i)
      then obtain jp s2 where b: "?R = ?g jp s2" "lrep s2 V L {}" "same_disk s1 s2" "held s2 V {} (hs @ [jp])" "i_inum (inodes s2 jp) = ucast i" "ucast i \<in> N"
        "same_inums (set hs) s1 s2" using st by auto
      have S2: "same_disk s s2" "same_inums (set hs) s s2" using same_disk_trans [OF a(3) b(3)] same_inums_trans [OF I b(7)] by simp_all
      have "room 1 s2 L {}" "tree_ok s2 V N" "sb s2 = sb s" using same_diskD(1) [OF S2(1)] tree_same [OF S2(1)] Cons.prems(2,4) S2(1) by (simp_all add: same_disk_def)
      then have "walked s2 V L hs (walk par (sb s) V (ucast i) els) (copy_elem el nm # els) (?g jp s2)"
        using Cons.IH [OF b(2) _ b(4) _ _ Cons.prems(6) _ nm(1) k(2)] b(5,6) Cons.prems(7) by simp
      then have "walked s V L hs (walk par (sb s) V (ucast i) els) (nm # el # els) (?g jp s2)"
        by (rule walked_later [OF _ S2]) (use nm(2) in simp)
      then show ?thesis unfolding W R b(1) using Some by simp
    qed
  qed
qed

text \<open>The inode a path starts at.\<close>

definition start_inum :: "'a fsst_scheme \<Rightarrow> u8 list \<Rightarrow> u32" where
  "start_inum s path = (if take 1 path = [slash] then ROOTINO else i_inum (inodes s (cwd s)))"

lemma namex_ok:
  assumes l: "lrep s V L {}" and r: "room 1 s L {}" and h: "held s V {} hs" and c: "cwd s \<in> set hs" and t: "tree_ok s V N" and n: "start_inum s path \<in> N"
    and z: "length hs + 2 \<le> NINODE" and p: "0 \<notin> set path" "length nm = DIRSIZ"
  shows "walked s V L hs (walk par (sb s) V (start_inum s path) (path_elems path)) (nm # path_elems path) (namex D path par nm s)"
proof -
  obtain ip s1 where a: "(if take 1 path = [slash] then iget ROOTDEV ROOTINO s else bindr (idup (cwd s) s) (\<lambda>s. Ret (cwd s, s))) = Ret (ip, s1)" "lrep s1 V L {}" "same_disk s s1"
    "held s1 V {} (hs @ [ip])" "i_inum (inodes s1 ip) = start_inum s path" "same_inums (set hs) s s1"
  proof (cases "take 1 path = [slash]")
    case True
    have "good_inum (sb s) (disksize s) V ROOTINO" "length hs < NINODE" using t n z True by (simp_all add: tree_ok_def start_inum_def)
    then obtain ip s1 where "iget 1 ROOTINO s = Ret (ip, s1)" "lrep s1 V L {}" "same_disk s s1" "held s1 V {} (hs @ [ip])" "i_inum (inodes s1 ip) = ROOTINO" "same_inums (set hs) s s1"
      by (rule held_get [OF l h])
    then show thesis using that True by (simp add: start_inum_def ROOTDEV_def)
  next
    case False
    obtain s1 where d: "idup (cwd s) s = Ret s1" "lrep s1 V L {}" "same_disk s s1" "held s1 V {} (hs @ [cwd s])" "same_inums UNIV s s1" by (rule held_dup [OF l h c])
    then have "cwd s1 = cwd s" "same_inums (set hs) s s1" "i_inum (inodes s1 (cwd s)) = i_inum (inodes s (cwd s))" by (simp_all add: same_disk_def same_inums_def)
    then show thesis using that [of "cwd s" s1] d False by (simp add: start_inum_def)
  qed
  have S: "room 1 s1 L {}" "tree_ok s1 V N" "sb s1 = sb s" using r t same_diskD(1) [OF a(3)] tree_same [OF a(3)] a(3) by (simp_all add: same_disk_def)
  have "\<forall>el\<in>set (path_elems path). 0 \<notin> set el" using elems_no_null [OF p(1)] by blast
  then have "walked s1 V L hs (walk par (sb s) V (start_inum s path) (path_elems path)) (nm # path_elems path) (namex_loop D ip path par nm s1)"
    using namex_loop_ok [OF a(2) S(1) a(4) S(2) _ z _ p(2) refl] a(5) n S(3) by simp
  then show ?thesis using walked_later [OF _ a(3,6) refl] a(1) by (simp add: namex_def)
qed

section \<open>A small tree\<close>

text \<open>The directory of \<open>demo_dir\<close> with one entry, \<open>a\<close>, for itself; its inode is the current directory.\<close>

lemma demo_tree:
  obtains s :: fsst and V L where "lrep s V L {}" and "room 1 s L {}" and "held s V {} [0]" and "cwd s = 0" and "tree_ok s V {2}" and "i_inum (inodes s 0) = 2"
    and "dir_on_disk (sb s) V 2 = [\<lparr>de_inum = 2, de_name = strncpy_name [97]\<rparr>]" and "di_type (dino (sb s) V 2) = T_DIR"
proof -
  let ?D = "\<lparr>dread = \<lambda>_. None, dwrite = \<lambda>_. None\<rparr> :: fsst devsw" and ?e = "\<lparr>de_inum = 2, de_name = strncpy_name [97 :: u8]\<rparr>"
  obtain r :: fsst and V L where r: "lrep r V L {}" "is_dir r V 0" "room 20 r L {}" "free_blocks r V = {59..<2000}" "content r V 0 = []" "inodes r = dir_cache"
    by (rule demo_dir)
  have z: "isize r 0 = 0" "dents (content r V 0) = []" using r(5) length_content [of r V 0] by (simp_all add: dents_def)
  have q: "room 8 r L {}" "2 \<le> card (free_blocks r V)" "isize r 0 + 16 \<le> MAXFILE * BSIZE" "dir_find [97] (dents (content r V 0)) = None"
    using room_mono [OF r(3), of 8] r(4) z by (simp_all add: fs_consts dir_find_def)
  obtain t :: fsst and V' L' k where t: "lrep t V' L' {}" "dents (content t V' 0) = put_dent (dents (content r V 0)) k \<lparr>de_inum = ucast (2 :: u32), de_name = strncpy_name [97]\<rparr>"
    "is_dir t V' 0" "same_refs r t" "room 1 t L' {}" by (rule dirlink_new [OF r(1,2) q, of ?D 2])
  have e: "dents (content t V' 0) = [?e]" using t(2) z(2) by (simp add: put_dent_def)
  have i: "i_dev (inodes t 0) = 1" "i_inum (inodes t 0) = 2" "di_type (di (inodes t 0)) = T_DIR" "di_nlink (di (inodes t 0)) = 1"
    using t(4) r(6) by (simp_all add: same_refs_def dir_cache_def fs_on_def empty_file_def free_dinode_def Let_def)
  have d: "dino (sb t) V' 2 = di (inodes t 0)" using t(3) i(2) by (simp add: is_dir_def is_file_def synced_dino)
  let ?s = "t\<lparr>inodes := \<lambda>ip. (shown (sb t) V' 2)\<lparr>i_ref := if ip = 0 then 1 else 0\<rparr>, cwd := 0\<rparr>"
  have "lrep ?s V' L' {}" "room 1 ?s L' {}" using t(1,5) lrep_cong [of ?s t V' L' "{}"] by (simp_all add: quiet_def room_def)
  moreover have S: "sb (view ?s V' 2) = sb t" "disksize (view ?s V' 2) = disksize t" "\<And>n. home (view ?s V' 2) n = home t n" by (simp_all add: view_def home_def loga_def)
  have "is_dir (view ?s V' 2) V' 0" by (rule is_dir_cong(1) [OF t(3) S]) (use i(1,2) d in \<open>simp_all add: view_def shown_def\<close>)
  moreover have dd: "dir_on_disk (sb ?s) V' 2 = [?e]"
    using e d by (simp add: dir_on_disk_def Let_def content_def fbyte_def cong: map_cong)
  moreover have "unat (IBLOCK 2 (sb t)) < unat (disksize t)"
    using t(3) i(2) file_okD(8) [of t V' 0] by (auto simp: is_dir_def is_file_def file_body_def data_def home_def iblk_def)
  then have g: "good_inum (sb t) (disksize t) V' 2" using d i(3,4) by (simp add: good_inum_def T_DIR_def)
  moreover have "held ?s V' {} [0]"
    using g by (auto simp: held_def icache_ok_def shown_def i_busy_def i_valid_def NINODE_def)
  ultimately show thesis using that [of ?s V' L'] d i(3) by (simp add: tree_ok_def shown_def)
qed

section \<open>Properties\<close>

text \<open>
  C9: \<open>namei\<close> and \<open>nameiparent\<close> follow a path through the directories. Let the inodes \<open>N\<close> be in order, the one
  the path starts at among them, the references in the cache be those of the pointers \<open>hs\<close>, none locked,
  and two more fit. Then \<open>namei\<close> returns; it finds an inode exactly if the elements of the path, looked
  up one after the other in the directories on disk, lead to one, and returns a pointer to that
  inode; \<open>nameiparent\<close> the same for the directory of the last element, whose name it leaves in the
  buffer. No block has changed, no inode is locked, and the references are those of before and that of
  the pointer returned.
\<close>

theorem namei_walks:
  assumes "lrep s V L {}" and "room 1 s L {}" and "held s V {} hs" and "cwd s \<in> set hs" and "tree_ok s V N" and "start_inum s path \<in> N"
    and "length hs + 2 \<le> NINODE" and "0 \<notin> set path" and "length nm = DIRSIZ"
  shows "(case walk False (sb s) V (start_inum s path) (path_elems path) of
      None \<Rightarrow> \<exists>s'. namei D nm path s = Ret (None, s') \<and> lrep s' V L {} \<and> held s' V {} hs
    | Some n \<Rightarrow> \<exists>ip s'. namei D nm path s = Ret (Some ip, s') \<and> lrep s' V L {} \<and> held s' V {} (hs @ [ip]) \<and> i_inum (inodes s' ip) = n)
    \<and> (case walk True (sb s) V (start_inum s path) (path_elems path) of
      None \<Rightarrow> \<exists>nm' s'. nameiparent D path nm s = Ret (None, nm', s') \<and> lrep s' V L {} \<and> held s' V {} hs
    | Some n \<Rightarrow> \<exists>ip nm' s'. nameiparent D path nm s = Ret (Some ip, nm', s') \<and> lrep s' V L {} \<and> held s' V {} (hs @ [ip]) \<and> i_inum (inodes s' ip) = n
        \<and> strncpy_name nm' = strncpy_name (last (nm # path_elems path)))"
  using namex_ok [OF assms(1-9), of False D] namex_ok [OF assms(1-9), of True D]
  by (auto simp: walked_def namei_def nameiparent_def split: option.splits)

theorem namei_walks_witness:
  "\<exists>D nm (s :: fsst) V L ip s'. lrep s V L {} \<and> namei D nm [97, 47, 97] s = Ret (Some ip, s') \<and> i_inum (inodes s' ip) = 2 \<and> held s' V {} [0, ip]"
proof -
  let ?D = "\<lparr>dread = \<lambda>_. None, dwrite = \<lambda>_. None\<rparr> :: fsst devsw" and ?nm = "replicate DIRSIZ (0 :: u8)"
  obtain s :: fsst and V L where s: "lrep s V L {}" "room 1 s L {}" "held s V {} [0]" "cwd s = 0" "tree_ok s V {2}" "i_inum (inodes s 0) = 2"
    "dir_on_disk (sb s) V 2 = [\<lparr>de_inum = 2, de_name = strncpy_name [97]\<rparr>]" "di_type (dino (sb s) V 2) = T_DIR" by (rule demo_tree)
  have st: "start_inum s [97, 47, 97] = 2" "cwd s \<in> set [0]" using s(4,6) by (simp_all add: start_inum_def)
  have el: "path_elems [97, 47, 97] = [[97], [97]]" by (simp add: path_elems_step)
  have "has_name (strncpy_name [97]) \<lparr>de_inum = 2, de_name = strncpy_name [97]\<rparr>" by (simp add: has_name_strncpy name_ok_def)
  then have i: "dir_inum (dir_on_disk (sb s) V 2) (strncpy_name [97]) = Some 2" by (simp add: s(7) dir_inum_def)
  have w: "walk False (sb s) V 2 [[97], [97]] = Some 2" using s(8) i by simp
  have "2 \<in> {2 :: u32}" "length [0 :: nat] + 2 \<le> NINODE" "0 \<notin> set [97, 47, 97 :: u8]" "length ?nm = DIRSIZ" by (simp_all add: NINODE_def)
  then obtain ip s' where "namei ?D ?nm [97, 47, 97] s = Ret (Some ip, s')" "held s' V {} ([0] @ [ip])" "i_inum (inodes s' ip) = 2"
    using namei_walks [OF s(1-3) st(2) s(5), of "[97, 47, 97]" ?nm ?D] unfolding st(1) el w by auto
  then show ?thesis using s(1) by (intro exI [of _ ?D] exI [of _ ?nm] exI [of _ s] exI [of _ V] exI [of _ L] exI [of _ ip] exI [of _ s']) simp
qed

end
