(* ===== verification/Shparse.thy ===== *)
theory Shparse
  imports Prelude
begin

text \<open>
  The command parser of the shell, \<open>src/sh.c\<close>. The command line is the list of the characters before
  the null character; a pointer into it is an index, \<open>es\<close> is its length. A word of the command tree is
  the pair of its two pointers, \<open>argv[i]\<close> and \<open>eargv[i]\<close> or \<open>file\<close> and \<open>efile\<close>. \<open>malloc\<close> is taken to succeed.
\<close>

section \<open>Commands\<close>

definition MAXARGS :: nat where "MAXARGS = 10"

definition O_RDONLY :: nat where "O_RDONLY = 0x000"
definition O_WRONLY :: nat where "O_WRONLY = 0x001"
definition O_RDWR :: nat where "O_RDWR = 0x002"
definition O_CREATE :: nat where "O_CREATE = 0x200"

text \<open>The tree of a command, over pointers or over the words themselves.\<close>

datatype 'w cmd =
    EXEC "'w list"
  | REDIR "'w cmd" 'w nat nat
  | PIPE "'w cmd" "'w cmd"
  | LIST "'w cmd" "'w cmd"
  | BACK "'w cmd"

type_synonym word_ptr = "nat \<times> nat"

definition execcmd :: "'w cmd" where
  [simp]: "execcmd = EXEC []"

definition redircmd :: "'w cmd \<Rightarrow> 'w \<Rightarrow> nat \<Rightarrow> nat \<Rightarrow> 'w cmd" where
  [simp]: "redircmd subcmd file mode fd = REDIR subcmd file mode fd"

definition pipecmd :: "'w cmd \<Rightarrow> 'w cmd \<Rightarrow> 'w cmd" where
  [simp]: "pipecmd left right = PIPE left right"

definition listcmd :: "'w cmd \<Rightarrow> 'w cmd \<Rightarrow> 'w cmd" where
  [simp]: "listcmd left right = LIST left right"

definition backcmd :: "'w cmd \<Rightarrow> 'w cmd" where
  [simp]: "backcmd subcmd = BACK subcmd"

section \<open>Tokens\<close>

definition whitespace :: string where
  "whitespace = [CHR '' '', CHR 0x09, CHR 0x0D, CHR 0x0A, CHR 0x0B]"

definition symbols :: string where "symbols = ''<|>&;()''"

text \<open>The character at a pointer; the null character ends the line.\<close>

definition at :: "string \<Rightarrow> nat \<Rightarrow> char" where
  "at b s = (if s < length b then b ! s else CHR 0x00)"

text \<open>The loops \<open>while(s < es && P(*s)) s++\<close>.\<close>

function scan :: "(char \<Rightarrow> bool) \<Rightarrow> string \<Rightarrow> nat \<Rightarrow> nat" where
  "scan P b s = (if s < length b \<and> P (b ! s) then scan P b (s + 1) else s)"
  by pat_completeness auto
termination
  by (relation "measure (\<lambda>(P, b, s). length b - s)") auto

declare scan.simps [simp del]

abbreviation blank :: "char \<Rightarrow> bool" where "blank c \<equiv> c \<in> set whitespace"
abbreviation wordch :: "char \<Rightarrow> bool" where "wordch c \<equiv> c \<notin> set whitespace \<and> c \<notin> set symbols"

text \<open>The token, where it starts and ends, and the start of what follows.\<close>

definition gettoken :: "string \<Rightarrow> nat \<Rightarrow> char \<times> word_ptr \<times> nat" where
  "gettoken b ps = (let s = scan blank b ps; q = s; c = at b s;
     (ret, s) =
       (if c = CHR 0x00 then (c, s)
        else if c \<in> set ''|();&<'' then (c, s + 1)
        else if c = CHR ''>'' then (if at b (s + 1) = CHR ''>'' then (CHR ''+'', s + 2) else (c, s + 1))
        else (CHR ''a'', scan wordch b s));
     eq = s in (ret, (q, eq), scan blank b s))"

definition peek :: "string \<Rightarrow> nat \<Rightarrow> string \<Rightarrow> bool \<times> nat" where
  "peek b ps toks = (let s = scan blank b ps in (at b s \<noteq> CHR 0x00 \<and> at b s \<in> set toks, s))"

abbreviation after_token :: "string \<Rightarrow> nat \<Rightarrow> nat" where "after_token b s \<equiv> snd (snd (gettoken b s))"

lemma scan_bounds: "s \<le> scan P b s" "s \<le> length b \<Longrightarrow> scan P b s \<le> length b"
proof (induction P b s rule: scan.induct)
  case (1 P b s)
  { case 1 then show ?case using "1.IH" by (subst scan.simps) auto }
  { case 2 then show ?case using "1.IH" by (subst scan.simps) auto }
qed

lemma scan_drop: "s \<le> length b \<Longrightarrow> drop (scan P b s) b = dropWhile P (drop s b)"
proof (induction P b s rule: scan.induct)
  case (1 P b s)
  then show ?case by (cases "s < length b") (subst scan.simps, auto simp: Cons_nth_drop_Suc [symmetric])+
qed

lemma scan_range: "(\<forall>i. s \<le> i \<and> i < scan P b s \<longrightarrow> P (b ! i)) \<and> (scan P b s < length b \<longrightarrow> \<not> P (b ! scan P b s))"
proof (induction P b s rule: scan.induct)
  case (1 P b s)
  show ?case
  proof (cases "s < length b \<and> P (b ! s)")
    case True
    then have "scan P b s = scan P b (s + 1)" by (subst scan.simps) simp
    moreover have "P (b ! i)" if "s \<le> i" "i < scan P b (s + 1)" for i
      using 1 True that by (cases "i = s") auto
    ultimately show ?thesis using 1 True by auto
  next
    case False
    then have "scan P b s = s" by (subst scan.simps) auto
    with False show ?thesis by auto
  qed
qed

lemma scan_take: "s \<le> length b \<Longrightarrow> take (scan P b s - s) (drop s b) = takeWhile P (drop s b)"
proof -
  assume s: "s \<le> length b"
  have "drop (scan P b s - s) (drop s b) = dropWhile P (drop s b)" using scan_drop [OF s, of P] scan_bounds(1) [of s P b] by simp
  then show ?thesis by (metis append_take_drop_id append_same_eq takeWhile_dropWhile_id)
qed

lemma at_drop: "s \<le> length b \<Longrightarrow> at b s = (case drop s b of [] \<Rightarrow> CHR 0x00 | c # cs \<Rightarrow> c)"
  by (auto simp: at_def Cons_nth_drop_Suc [symmetric])

lemma peek_True:
  assumes "peek b ps toks = (True, s)"
  shows "ps \<le> s" and "s < length b" and "b ! s \<in> set toks" and "\<not> blank (b ! s)"
proof -
  have s: "s = scan blank b ps" "at b s \<noteq> CHR 0x00" "at b s \<in> set toks" using assms by (auto simp: peek_def Let_def)
  then show "ps \<le> s" "s < length b" "b ! s \<in> set toks" by (auto simp: at_def scan_bounds split: if_splits)
  show "\<not> blank (b ! s)" using \<open>s < length b\<close> s(1) scan_range [of ps blank b] by simp
qed

text \<open>Tokens by the rest of the line: \<open>rest b s\<close> is what is left from \<open>s\<close> on, without leading blanks.\<close>

definition rest :: "string \<Rightarrow> nat \<Rightarrow> string" where
  "rest b s = dropWhile blank (drop s b)"

lemma rest_scan: "s \<le> length b \<Longrightarrow> drop (scan blank b s) b = rest b s"
  by (simp add: rest_def scan_drop)

lemma rest_Cons: "rest b s = c # r \<Longrightarrow> \<not> blank c"
  by (metis rest_def hd_dropWhile list.discI list.sel(1))

lemma rest_rest [simp]: "dropWhile blank (rest b s) = rest b s"
  by (cases "rest b s") (auto dest: rest_Cons)

lemma at_scan: "s \<le> length b \<Longrightarrow> at b (scan blank b s) = (case rest b s of [] \<Rightarrow> CHR 0x00 | c # r \<Rightarrow> c)"
  by (simp add: at_drop scan_bounds rest_scan)

lemma peek_rest:
  assumes "s \<le> length b"
  shows "fst (peek b s toks) \<longleftrightarrow> (case rest b s of [] \<Rightarrow> False | c # r \<Rightarrow> c \<noteq> CHR 0x00 \<and> c \<in> set toks)"
    and "drop (snd (peek b s toks)) b = rest b s" and "snd (peek b s toks) \<le> length b" and "s \<le> snd (peek b s toks)"
  using assms by (auto simp: peek_def Let_def at_scan rest_scan scan_bounds split: list.splits)

lemma rest_at:
  assumes "s \<le> length b" and "rest b s = c # r"
  shows "at b (scan blank b s) = c" and "scan blank b s < length b" and "drop (Suc (scan blank b s)) b = r"
    and "drop (scan blank b s) b = c # r" and "s \<le> scan blank b s"
proof -
  show d: "drop (scan blank b s) b = c # r" using assms by (simp add: rest_scan)
  then show "scan blank b s < length b" by (metis drop_all list.discI not_less)
  show "drop (Suc (scan blank b s)) b = r" using d by (metis drop_Suc tl_drop list.sel(3))
qed (use assms in \<open>simp_all add: at_scan scan_bounds\<close>)

lemma gettoken_symbol:
  assumes "s \<le> length b" and "rest b s = c # r" and "c \<in> set ''|();&<''"
  shows "fst (gettoken b s) = c" and "drop (after_token b s) b = dropWhile blank r" and "s < after_token b s" and "after_token b s \<le> length b"
  using assms(3) rest_at [OF assms(1,2)] scan_bounds(1) [of "Suc (scan blank b s)" blank b] scan_bounds(2) [of "Suc (scan blank b s)" b blank]
  by (auto simp: gettoken_def Let_def scan_drop)

lemma gettoken_end:
  assumes "s \<le> length b" and "rest b s = []"
  shows "fst (gettoken b s) = CHR 0x00" and "after_token b s = length b"
proof -
  have "drop (scan blank b s) b = []" "at b (scan blank b s) = CHR 0x00" using assms by (simp_all add: rest_scan at_scan)
  moreover from this(1) have "scan blank b s = length b" using scan_bounds(2) [OF assms(1), of blank] by simp
  ultimately show "fst (gettoken b s) = CHR 0x00" "after_token b s = length b"
    by (simp_all add: gettoken_def Let_def scan.simps [of _ _ "length b"])
qed

lemma gettoken_redir:
  assumes "s \<le> length b" and "rest b s = CHR ''>'' # r"
  shows "fst (gettoken b s) \<in> {CHR ''>'', CHR ''+''}" and "s < after_token b s" and "after_token b s \<le> length b"
    and "take 1 r \<noteq> ''>'' \<Longrightarrow> fst (gettoken b s) = CHR ''>'' \<and> drop (after_token b s) b = dropWhile blank r"
proof -
  let ?n = "scan blank b s"
  note R = rest_at [OF assms]
  have a: "at b (Suc ?n) = (case r of [] \<Rightarrow> CHR 0x00 | c # cs \<Rightarrow> c)" using R by (simp add: at_drop)
  have "Suc (Suc ?n) \<le> length b" if "at b (Suc ?n) = CHR ''>''" using that by (auto simp: at_def split: if_splits)
  then show "fst (gettoken b s) \<in> {CHR ''>'', CHR ''+''}" "s < after_token b s" "after_token b s \<le> length b"
    using R scan_bounds(1) [of "Suc ?n" blank b] scan_bounds(2) [of "Suc ?n" b blank]
       scan_bounds(1) [of "Suc (Suc ?n)" blank b] scan_bounds(2) [of "Suc (Suc ?n)" b blank]
    by (auto simp: gettoken_def Let_def)
  show "fst (gettoken b s) = CHR ''>'' \<and> drop (after_token b s) b = dropWhile blank r" if "take 1 r \<noteq> ''>''"
    using that R a by (cases r) (simp_all add: gettoken_def Let_def scan_drop)
qed

text \<open>A word of the line: its two pointers enclose characters of words, and no such character follows.\<close>

definition is_word :: "string \<Rightarrow> word_ptr \<Rightarrow> bool" where
  "is_word b w \<longleftrightarrow> fst w < snd w \<and> snd w \<le> length b \<and> (\<forall>i. fst w \<le> i \<and> i < snd w \<longrightarrow> wordch (b ! i))
     \<and> (snd w < length b \<longrightarrow> \<not> wordch (b ! snd w))"

definition word_of :: "string \<Rightarrow> word_ptr \<Rightarrow> string" where
  "word_of b w = take (snd w - fst w) (drop (fst w) b)"

lemma gettoken_word:
  assumes "s \<le> length b" and "rest b s = c # r" and "c \<notin> set symbols" and "c \<noteq> CHR 0x00"
  shows "fst (gettoken b s) = CHR ''a''" and "drop (after_token b s) b = dropWhile blank (dropWhile wordch (c # r))"
    and "s < after_token b s" and "after_token b s \<le> length b" and "is_word b (fst (snd (gettoken b s)))"
    and "word_of b (fst (snd (gettoken b s))) = takeWhile wordch (c # r)"
proof -
  let ?n = "scan blank b s" and ?e = "scan wordch b (scan blank b s)"
  note R = rest_at [OF assms(1,2)]
  have g: "gettoken b s = (CHR ''a'', (?n, ?e), scan blank b ?e)"
    using R assms(3,4) by (simp add: gettoken_def Let_def symbols_def)
  have w: "wordch c" "b ! ?n = c" using assms(3) rest_Cons [OF assms(2)] R by (simp_all add: at_def)
  then have "?e = scan wordch b (?n + 1)" using R(2) by (subst scan.simps) simp
  then have e: "?n < ?e" using scan_bounds(1) [of "?n + 1" wordch b] by simp
  have l: "?e \<le> length b" using scan_bounds(2) [of ?n b wordch] R(2) by simp
  show "fst (gettoken b s) = CHR ''a''" using g by simp
  show "drop (after_token b s) b = dropWhile blank (dropWhile wordch (c # r))"
    using g l R(2,4) scan_drop [of ?e b blank] scan_drop [of ?n b wordch] by simp
  show "s < after_token b s" "after_token b s \<le> length b"
    using g e l R(5) scan_bounds(1) [of ?e blank b] scan_bounds(2) [of ?e b blank] by simp_all
  show "is_word b (fst (snd (gettoken b s)))" using g e l scan_range [of ?n wordch b] by (simp add: is_word_def)
  show "word_of b (fst (snd (gettoken b s))) = takeWhile wordch (c # r)"
    using g R(2,4) scan_take [of ?n b wordch] by (simp add: word_of_def)
qed

lemma peek_token:
  assumes "peek b ps toks = (True, s)" and "set toks \<subseteq> set symbols"
  shows "ps \<le> s" and "s < after_token b s" and "after_token b s \<le> length b"
proof -
  note P = peek_True [OF assms(1)]
  then have "drop s b = b ! s # drop (Suc s) b" by (simp add: Cons_nth_drop_Suc)
  then have r: "rest b s = b ! s # drop (Suc s) b" using P by (simp add: rest_def)
  have "b ! s \<in> set ''|();&<'' \<or> b ! s = CHR ''>''" using P(3) assms(2) by (auto simp: symbols_def)
  then show "s < after_token b s" "after_token b s \<le> length b"
    using gettoken_symbol(3,4) [of s b, OF _ r] gettoken_redir(2,3) [of s b "drop (Suc s) b"] r P(2) by auto
  show "ps \<le> s" by (rule P(1))
qed

lemma gettoken_bounds:
  assumes "s \<le> length b"
  shows "s \<le> after_token b s" and "after_token b s \<le> length b"
proof -
  have "s \<le> after_token b s \<and> after_token b s \<le> length b"
  proof (cases "rest b s")
    case Nil
    then show ?thesis using gettoken_end(2) [OF assms] assms by simp
  next
    case (Cons c r)
    consider "c = CHR 0x00" | "c \<in> set ''|();&<''" | "c = CHR ''>''" | "c \<notin> set symbols" "c \<noteq> CHR 0x00"
      by (auto simp: symbols_def)
    then show ?thesis
    proof cases
      case 1
      then have "after_token b s = scan blank b (scan blank b s)" using rest_at(1) [OF assms Cons] by (simp add: gettoken_def Let_def)
      then show ?thesis using scan_bounds(2) [of s b blank] scan_bounds(2) [of "scan blank b s" b blank] assms
        by (metis scan_bounds(1) le_trans)
    next
      case 2
      then show ?thesis using gettoken_symbol(3,4) [OF assms Cons] by simp
    next
      case 3
      then show ?thesis using gettoken_redir(2,3) [of s b r] assms Cons by simp
    next
      case 4
      then show ?thesis using gettoken_word(3,4) [OF assms Cons] by simp
    qed
  qed
  then show "s \<le> after_token b s" "after_token b s \<le> length b" by auto
qed

section \<open>The parser\<close>

function parseredirs :: "word_ptr cmd \<Rightarrow> string \<Rightarrow> nat \<Rightarrow> (word_ptr cmd \<times> nat) res" where
  "parseredirs c b ps = (case peek b ps ''<>'' of (more, s) \<Rightarrow>
     if \<not> more then Ret (c, s)
     else case gettoken b s of (tok, _, s1) \<Rightarrow> case gettoken b s1 of (tok2, w, s2) \<Rightarrow>
       if tok2 \<noteq> CHR ''a'' then Panic ''missing file for redirection''
       else parseredirs
         (if tok = CHR ''<'' then redircmd c w O_RDONLY 0
          else if tok = CHR ''>'' then redircmd c w (O_WRONLY OR O_CREATE) 1
          else if tok = CHR ''+'' then redircmd c w (O_WRONLY OR O_CREATE) 1
          else c) b s2)"
  by pat_completeness auto
termination
proof (relation "measure (\<lambda>(c, b, s). length b - s)", goal_cases)
  case (2 c b ps more s tok y w1 s1 tok2 y2 w s2)
  then have "peek b ps ''<>'' = (True, s)" "after_token b s = s1" "after_token b s1 = s2" by (metis snd_conv)+
  with peek_token [of b ps "''<>''" s] gettoken_bounds [of s1 b] have "ps < s2" "s2 \<le> length b" by (auto simp: symbols_def)
  then show ?case by simp
qed simp

function back_loop :: "word_ptr cmd \<Rightarrow> string \<Rightarrow> nat \<Rightarrow> word_ptr cmd \<times> nat" where
  "back_loop c b ps = (case peek b ps ''&'' of (more, s) \<Rightarrow>
     if \<not> more then (c, s) else back_loop (backcmd c) b (after_token b s))"
  by pat_completeness auto
termination
proof (relation "measure (\<lambda>(c, b, s). length b - s)", goal_cases)
  case (2 c b ps more s)
  then have "peek b ps ''&'' = (True, s)" by simp
  with peek_token [of b ps "''&''" s] show ?case by (auto simp: symbols_def)
qed simp

text \<open>
  The arguments of a command. \<open>parseexec\<close> keeps a pointer to the innermost node, so an argument goes
  there, below the redirections already read.
\<close>

fun add_arg :: "'w \<Rightarrow> 'w cmd \<Rightarrow> 'w cmd" where
  "add_arg w (EXEC ws) = EXEC (ws @ [w])"
| "add_arg w (REDIR c f m d) = REDIR (add_arg w c) f m d"
| "add_arg w c = c"

function args_loop :: "nat \<Rightarrow> word_ptr cmd \<Rightarrow> string \<Rightarrow> nat \<Rightarrow> (word_ptr cmd \<times> nat) res" where
  "args_loop argc ret b ps = (case peek b ps ''|)&;'' of (stop, s) \<Rightarrow>
     if stop then Ret (ret, s)
     else case gettoken b s of (tok, w, s) \<Rightarrow>
       if tok = CHR 0x00 then Ret (ret, s)
       else if tok \<noteq> CHR ''a'' then Panic ''syntax''
       else if argc + 1 \<ge> MAXARGS then Panic ''too many args''
       else bindr (parseredirs (add_arg w ret) b s) (\<lambda>(ret, s). args_loop (argc + 1) ret b s))"
  by pat_completeness auto
termination
  by (relation "measure (\<lambda>(argc, ret, b, s). MAXARGS - argc)") auto

declare parseredirs.simps [simp del] back_loop.simps [simp del] args_loop.simps [simp del]

text \<open>
  The recursive descent, with a bound on its depth; running out of it is \<open>Hang\<close>. \<open>parsecmd\<close> gives four
  levels for every character, which theorem \<open>parsecmd_returns\<close> shows to be enough.
\<close>

fun parseline :: "nat \<Rightarrow> string \<Rightarrow> nat \<Rightarrow> (word_ptr cmd \<times> nat) res"
  and parsepipe :: "nat \<Rightarrow> string \<Rightarrow> nat \<Rightarrow> (word_ptr cmd \<times> nat) res"
  and parseexec :: "nat \<Rightarrow> string \<Rightarrow> nat \<Rightarrow> (word_ptr cmd \<times> nat) res"
  and parseblock :: "nat \<Rightarrow> string \<Rightarrow> nat \<Rightarrow> (word_ptr cmd \<times> nat) res" where
  "parseline 0 b s = Hang"
| "parsepipe 0 b s = Hang"
| "parseexec 0 b s = Hang"
| "parseblock 0 b s = Hang"
| "parseline (Suc k) b s = bindr (parsepipe k b s) (\<lambda>(c, s). case back_loop c b s of (c, s) \<Rightarrow>
     case peek b s '';'' of (more, s) \<Rightarrow>
       if more then bindr (parseline k b (after_token b s)) (\<lambda>(d, s). Ret (listcmd c d, s)) else Ret (c, s))"
| "parsepipe (Suc k) b s = bindr (parseexec k b s) (\<lambda>(c, s). case peek b s ''|'' of (more, s) \<Rightarrow>
     if more then bindr (parsepipe k b (after_token b s)) (\<lambda>(d, s). Ret (pipecmd c d, s)) else Ret (c, s))"
| "parseexec (Suc k) b s = (case peek b s ''('' of (block, s) \<Rightarrow>
     if block then parseblock k b s
     else bindr (parseredirs execcmd b s) (\<lambda>(ret, s). args_loop 0 ret b s))"
| "parseblock (Suc k) b s = (case peek b s ''('' of (open1, s) \<Rightarrow>
     if \<not> open1 then Panic ''parseblock''
     else bindr (parseline k b (after_token b s)) (\<lambda>(c, s). case peek b s '')'' of (close1, s) \<Rightarrow>
       if \<not> close1 then Panic ''syntax - missing )'' else parseredirs c b (after_token b s)))"

text \<open>\<open>nulterminate\<close> writes a null character behind every word, into the line with its own null character.\<close>

fun nulterminate :: "word_ptr cmd \<Rightarrow> string \<Rightarrow> string" where
  "nulterminate (EXEC ws) b = foldl (\<lambda>b w. b[snd w := CHR 0x00]) b ws"
| "nulterminate (REDIR c w m d) b = (nulterminate c b)[snd w := CHR 0x00]"
| "nulterminate (PIPE l r) b = nulterminate r (nulterminate l b)"
| "nulterminate (LIST l r) b = nulterminate r (nulterminate l b)"
| "nulterminate (BACK c) b = nulterminate c b"

definition parsecmd :: "string \<Rightarrow> (word_ptr cmd \<times> string) res" where
  "parsecmd b = bindr (parseline (4 * length b + 4) b 0) (\<lambda>(c, s).
     if snd (peek b s []) \<noteq> length b then Panic ''syntax'' else Ret (c, nulterminate c (b @ [CHR 0x00])))"

section \<open>The parser stays inside the line and ends\<close>

definition good :: "string \<Rightarrow> nat \<Rightarrow> (word_ptr cmd \<times> nat) res \<Rightarrow> bool" where
  "good b s r \<longleftrightarrow> (case r of Ret (c, s') \<Rightarrow> s \<le> s' \<and> s' \<le> length b \<and> (\<forall>w\<in>set_cmd c. is_word b w)
     | Panic m \<Rightarrow> True | Fault \<Rightarrow> False | Hang \<Rightarrow> False)"

lemma good_simps [simp]:
  "good b s (Ret (c, s')) \<longleftrightarrow> s \<le> s' \<and> s' \<le> length b \<and> (\<forall>w\<in>set_cmd c. is_word b w)"
  "good b s (Panic m)" "\<not> good b s Fault" "\<not> good b s Hang"
  by (simp_all add: good_def)

lemma good_bind:
  assumes "good b s r" and "\<And>c s'. r = Ret (c, s') \<Longrightarrow> s \<le> s' \<Longrightarrow> s' \<le> length b \<Longrightarrow> \<forall>w\<in>set_cmd c. is_word b w \<Longrightarrow> good b s' (f (c, s'))"
  shows "good b s (bindr r f)"
proof (cases r)
  case (Ret x)
  obtain c s' where x: "x = (c, s')" by fastforce
  with Ret assms(1) have "good b s' (f x)" "s \<le> s'" using assms(2) by simp_all
  then show ?thesis using Ret by (auto simp: good_def split: res.splits)
qed (use assms(1) in simp_all)

lemma good_later: "good b s' r \<Longrightarrow> s \<le> s' \<Longrightarrow> good b s r"
  by (auto simp: good_def split: res.splits)

lemma gettoken_a:
  assumes "s \<le> length b" and "gettoken b s = (CHR ''a'', w, s')"
  shows "is_word b w" and "s < s'" and "s' \<le> length b"
proof -
  have "fst (gettoken b s) = CHR ''a''" using assms(2) by simp
  then obtain c r where r: "rest b s = c # r" "c \<notin> set symbols" "c \<noteq> CHR 0x00"
    using gettoken_end(1) [OF assms(1)] gettoken_symbol(1) [OF assms(1)] gettoken_redir(1) [OF assms(1)] at_scan [OF assms(1)]
    by (cases "rest b s") (force simp: symbols_def gettoken_def Let_def)+
  then show "is_word b w" "s < s'" "s' \<le> length b" using gettoken_word [OF assms(1) r] assms(2) by auto
qed

lemma peek_pos:
  assumes "peek b ps toks = (p, s)" and "ps \<le> length b"
  shows "ps \<le> s" and "s \<le> length b"
  using peek_rest(3,4) [OF assms(2), of toks] assms(1) by simp_all

lemma parseredirs_good: "s \<le> length b \<Longrightarrow> \<forall>w\<in>set_cmd c. is_word b w \<Longrightarrow> good b s (parseredirs c b s)"
proof (induction c b s rule: parseredirs.induct)
  case (1 c b ps)
  obtain more s tok w1 s1 tok2 w s2 where e: "peek b ps ''<>'' = (more, s)" "gettoken b s = (tok, w1, s1)" "gettoken b s1 = (tok2, w, s2)"
    by (metis prod_cases3 surj_pair)
  note P = peek_pos [OF e(1) 1(2)] and B = gettoken_bounds [of s b]
  show ?case
  proof (cases "more \<and> tok2 = CHR ''a''")
    case True
    have s1: "s1 \<le> length b" "s \<le> s1" using B P e(2) by auto
    note W = gettoken_a [OF s1(1), of w s2]
    have "good b s2 (parseredirs c' b s2)" if "\<forall>w\<in>set_cmd c'. is_word b w"
      "c' = (if tok = CHR ''<'' then redircmd c w O_RDONLY 0 else if tok = CHR ''>'' then redircmd c w (O_WRONLY OR O_CREATE) 1
        else if tok = CHR ''+'' then redircmd c w (O_WRONLY OR O_CREATE) 1 else c)" for c'
      using 1(1) [of more s tok "(w1, s1)" w1 s1 tok2 "(w, s2)" w s2] e True W that by simp
    then show ?thesis using e True W 1(3) P s1 by (subst parseredirs.simps) (auto intro: good_later [of b s2])
  next
    case False
    then show ?thesis using e P 1(3) by (subst parseredirs.simps) auto
  qed
qed

lemma back_loop_good: "s \<le> length b \<Longrightarrow> \<forall>w\<in>set_cmd c. is_word b w \<Longrightarrow> good b s (Ret (back_loop c b s))"
proof (induction c b s rule: back_loop.induct)
  case (1 c b ps)
  obtain more s where e: "peek b ps ''&'' = (more, s)" by fastforce
  note P = peek_pos [OF e 1(2)] and B = gettoken_bounds [of s b]
  then have "good b ps (Ret (back_loop (BACK c) b (after_token b s)))" if more
    using 1(1) [OF e [symmetric]] that 1(3) by (auto intro: good_later [of b "after_token b s"])
  then show ?case using e P 1(3) by (subst back_loop.simps) auto
qed

lemma set_add_arg: "set_cmd (add_arg w c) \<subseteq> insert w (set_cmd c)"
  by (induction w c rule: add_arg.induct) auto

lemma args_loop_good: "s \<le> length b \<Longrightarrow> \<forall>w\<in>set_cmd c. is_word b w \<Longrightarrow> good b s (args_loop n c b s)"
proof (induction n c b s rule: args_loop.induct)
  case (1 n c b ps)
  obtain stop s tok w s1 where e: "peek b ps ''|)&;'' = (stop, s)" "gettoken b s = (tok, w, s1)" by (metis prod_cases3 surj_pair)
  note P = peek_pos [OF e(1) 1(2)] and B = gettoken_bounds [of s b]
  show ?case
  proof (cases "\<not> stop \<and> tok = CHR ''a'' \<and> \<not> n + 1 \<ge> MAXARGS")
    case True
    note W = gettoken_a [OF P(2), of w s1]
    have "\<forall>v\<in>set_cmd (add_arg w c). is_word b v" using W(1) e True 1(3) set_add_arg [of w c] by auto
    then have "good b s1 (parseredirs (add_arg w c) b s1)" using parseredirs_good W e True by blast
    then have "good b s1 (bindr (parseredirs (add_arg w c) b s1) (\<lambda>(ret, s). args_loop (n + 1) ret b s))"
      using 1(1) [of stop s tok "(w, s1)" w s1] e True by (auto intro!: good_bind)
    then show ?thesis using e True W P by (subst args_loop.simps) (auto intro: good_later [of b s1])
  next
    case False
    then show ?thesis using e P B 1(3) by (subst args_loop.simps) auto
  qed
qed

lemma parse_good:
  "s \<le> length b \<Longrightarrow> 4 * (length b - s) + 4 \<le> k \<Longrightarrow> good b s (parseline k b s)"
  "s \<le> length b \<Longrightarrow> 4 * (length b - s) + 3 \<le> k \<Longrightarrow> good b s (parsepipe k b s)"
  "s \<le> length b \<Longrightarrow> 4 * (length b - s) + 2 \<le> k \<Longrightarrow> good b s (parseexec k b s)"
  "s \<le> length b \<Longrightarrow> 4 * (length b - s) + 1 \<le> k \<Longrightarrow> good b s (parseblock k b s)"
proof (induction k arbitrary: s)
  case (Suc k)
  note IH = Suc.IH
  { case 1
    show ?case unfolding parseline.simps
    proof (rule good_bind, rule IH(2))
      fix c s1 assume c: "s \<le> s1" "s1 \<le> length b" "\<forall>w\<in>set_cmd c. is_word b w"
      obtain d s2 more s3 where e: "back_loop c b s1 = (d, s2)" "peek b s2 '';'' = (more, s3)" by fastforce
      have d: "s1 \<le> s2" "s2 \<le> length b" "\<forall>w\<in>set_cmd d. is_word b w" using back_loop_good [OF c(2,3)] e by auto
      note P = peek_pos [OF e(2) d(2)]
      have "good b s1 (bindr (parseline k b (after_token b s3)) (\<lambda>(f, s). Ret (listcmd d f, s)))" if more
        using peek_token [of b s2 "'';''" s3] that e d 1 c
        by (intro good_later [OF good_bind [OF IH(1)]]) (auto simp: symbols_def)
      then show "good b s1 (case (c, s1) of (c, s) \<Rightarrow> case back_loop c b s of (c, s) \<Rightarrow> case peek b s '';'' of (more, s) \<Rightarrow>
         if more then bindr (parseline k b (after_token b s)) (\<lambda>(d, s). Ret (listcmd c d, s)) else Ret (c, s))"
        using e d P by auto
    qed (use 1 in simp_all) }
  { case 2
    show ?case unfolding parsepipe.simps
    proof (rule good_bind, rule IH(3))
      fix c s1 assume c: "s \<le> s1" "s1 \<le> length b" "\<forall>w\<in>set_cmd c. is_word b w"
      obtain more s2 where e: "peek b s1 ''|'' = (more, s2)" by fastforce
      note P = peek_pos [OF e c(2)]
      have "good b s1 (bindr (parsepipe k b (after_token b s2)) (\<lambda>(f, s). Ret (pipecmd c f, s)))" if more
        using peek_token [of b s1 "''|''" s2] that e c 2
        by (intro good_later [OF good_bind [OF IH(2)]]) (auto simp: symbols_def)
      then show "good b s1 (case (c, s1) of (c, s) \<Rightarrow> case peek b s ''|'' of (more, s) \<Rightarrow>
         if more then bindr (parsepipe k b (after_token b s)) (\<lambda>(d, s). Ret (pipecmd c d, s)) else Ret (c, s))"
        using e c P by auto
    qed (use 2 in simp_all) }
  { case 3
    obtain blk s1 where e: "peek b s ''('' = (blk, s1)" by fastforce
    note P = peek_pos [OF e 3(1)]
    have "good b s1 (bindr (parseredirs execcmd b s1) (\<lambda>(ret, s). args_loop 0 ret b s))"
      using P by (intro good_bind [OF parseredirs_good]) (auto intro: args_loop_good)
    moreover have "good b s1 (parseblock k b s1)" using P 3 by (intro IH(4)) auto
    ultimately show ?case using e P by (auto intro: good_later) }
  { case 4
    obtain op s1 where e: "peek b s ''('' = (op, s1)" by fastforce
    have "good b (after_token b s1) (parseline k b (after_token b s1))" if op
      using peek_token [of b s "''(''" s1] that e 4 by (intro IH(1)) (auto simp: symbols_def)
    moreover have "good b s' (case (c, s') of (c, s) \<Rightarrow> case peek b s '')'' of (close1, s) \<Rightarrow>
       if \<not> close1 then Panic ''syntax - missing )'' else parseredirs c b (after_token b s))"
      if "s' \<le> length b" "\<forall>w\<in>set_cmd c. is_word b w" for c s'
      using that peek_pos [of b s' "'')''"] gettoken_bounds
      by (auto split: prod.split intro!: good_later [OF parseredirs_good]) (meson gettoken_bounds le_trans)
    ultimately have "good b (after_token b s1) (bindr (parseline k b (after_token b s1)) (\<lambda>(c, s). case peek b s '')'' of (close1, s) \<Rightarrow>
       if \<not> close1 then Panic ''syntax - missing )'' else parseredirs c b (after_token b s)))" if op
      using that by (intro good_bind) auto
    then show ?case using e peek_token [of b s "''(''" s1] by (auto simp: symbols_def intro: good_later) }
qed simp_all

section \<open>Null characters behind the words\<close>

definition cstr :: "string \<Rightarrow> nat \<Rightarrow> string" where
  "cstr buf p = takeWhile (\<lambda>c. c \<noteq> CHR 0x00) (drop p buf)"

text \<open>The command as \<open>runcmd\<close> reads it from the buffer.\<close>

definition text_of :: "string \<Rightarrow> word_ptr cmd \<Rightarrow> string cmd" where
  "text_of buf c = map_cmd (\<lambda>w. cstr buf (fst w)) c"

lemma foldl_update:
  "length (foldl (\<lambda>b w. b[snd w := x]) buf ws) = length buf"
  "i < length buf \<Longrightarrow> foldl (\<lambda>b w. b[snd w := x]) buf ws ! i = (if i \<in> snd ` set ws then x else buf ! i)"
  by (induction ws arbitrary: buf) (auto simp: nth_list_update)

lemma nulterminate_length [simp]: "length (nulterminate c buf) = length buf"
  by (induction c arbitrary: buf) (auto simp: foldl_update)

lemma nulterminate_nth:
  "i < length buf \<Longrightarrow> nulterminate c buf ! i = (if i \<in> snd ` set_cmd c then CHR 0x00 else buf ! i)"
proof (induction c arbitrary: buf)
  case (REDIR c w m d)
  then show ?case by (cases "i = snd w") (auto simp: nth_list_update)
qed (simp_all add: foldl_update image_Un)

lemma nulterminate_word:
  assumes "\<forall>w\<in>set_cmd c. is_word b w" and "CHR 0x00 \<notin> set b" and "w \<in> set_cmd c"
  shows "cstr (nulterminate c (b @ [CHR 0x00])) (fst w) = word_of b w"
proof -
  let ?n = "nulterminate c (b @ [CHR 0x00])"
  have w: "fst w < snd w" "snd w \<le> length b" "\<And>i. fst w \<le> i \<Longrightarrow> i < snd w \<Longrightarrow> wordch (b ! i)" using assms(1,3) by (auto simp: is_word_def)
  have same: "?n ! i = b ! i \<and> b ! i \<noteq> CHR 0x00" if i: "fst w \<le> i" "i < snd w" for i
  proof -
    have "i \<notin> snd ` set_cmd c" using assms(1) w(2) w(3) [OF i] i by (force simp: is_word_def)
    moreover have "b ! i \<noteq> CHR 0x00" using i w(2) assms(2) nth_mem [of i b] by force
    ultimately show ?thesis using i w(2) nulterminate_nth [of i "b @ [CHR 0x00]" c] by (simp add: nth_append)
  qed
  have "drop (fst w) ?n = word_of b w @ CHR 0x00 # drop (Suc (snd w)) ?n"
  proof (rule nth_equalityI)
    fix i assume i: "i < length (drop (fst w) ?n)"
    consider "fst w + i < snd w" | "fst w + i = snd w" | "snd w < fst w + i" by linarith
    then show "drop (fst w) ?n ! i = (word_of b w @ CHR 0x00 # drop (Suc (snd w)) ?n) ! i"
    proof cases
      case 1
      then have "i < snd w - fst w" by simp
      then show ?thesis using 1 same [of "fst w + i"] w i by (simp add: word_of_def nth_append)
    next
      case 2
      have "?n ! snd w = CHR 0x00" using assms(3) w(2) by (simp add: nulterminate_nth)
      moreover have "i = snd w - fst w" using 2 by simp
      ultimately show ?thesis using 2 w i by (simp add: word_of_def nth_append)
    next
      case 3
      then have "i - (snd w - fst w) = Suc (i - Suc (snd w - fst w))" using w(1) by simp
      moreover have "\<not> i < snd w - fst w" using 3 by simp
      ultimately show ?thesis using 3 w i by (simp add: word_of_def nth_append add.commute)
    qed
  qed (use w in \<open>simp add: word_of_def\<close>)
  moreover have "\<forall>x\<in>set (word_of b w). x \<noteq> CHR 0x00" using assms(2) by (auto simp: word_of_def dest!: in_set_takeD in_set_dropD)
  ultimately show ?thesis by (simp add: cstr_def takeWhile_append2 takeWhile_tail)
qed

lemma nulterminate_text:
  "\<forall>w\<in>set_cmd c. is_word b w \<Longrightarrow> CHR 0x00 \<notin> set b \<Longrightarrow> text_of (nulterminate c (b @ [CHR 0x00])) c = map_cmd (word_of b) c"
  unfolding text_of_def by (rule cmd.map_cong0) (rule nulterminate_word)

section \<open>Printing commands\<close>

definition show_redir :: "string \<Rightarrow> nat \<Rightarrow> string" where
  "show_redir w m = (if m = O_RDONLY then ''<'' else ''>'') @ '' '' @ w @ '' ''"

text \<open>Level 0 is a simple command or a block, 1 a pipeline, 2 a background command and 3 a list.\<close>

fun show_at :: "nat \<Rightarrow> string cmd \<Rightarrow> string" where
  "show_at lv (EXEC ws) = concat (map (\<lambda>w. w @ '' '') ws)"
| "show_at lv (REDIR c w m d) = show_at 0 c @ show_redir w m"
| "show_at lv (PIPE l r) = (if lv < 1 then ''('' else []) @ show_at 0 l @ ''|'' @ show_at 1 r @ (if lv < 1 then '')'' else [])"
| "show_at lv (BACK c) = (if lv < 2 then ''('' else []) @ show_at 2 c @ ''&'' @ (if lv < 2 then '')'' else [])"
| "show_at lv (LIST l r) = (if lv < 3 then ''('' else []) @ show_at 2 l @ '';'' @ show_at 3 r @ (if lv < 3 then '')'' else [])"

definition ok_word :: "string \<Rightarrow> bool" where
  "ok_word w \<longleftrightarrow> w \<noteq> [] \<and> (\<forall>c\<in>set w. wordch c \<and> c \<noteq> CHR 0x00)"

definition ok_redir :: "nat \<Rightarrow> nat \<Rightarrow> bool" where
  "ok_redir m d \<longleftrightarrow> m = O_RDONLY \<and> d = 0 \<or> m = O_WRONLY OR O_CREATE \<and> d = 1"

fun ok_cmd :: "string cmd \<Rightarrow> bool" where
  "ok_cmd (EXEC ws) \<longleftrightarrow> length ws < MAXARGS \<and> (\<forall>w\<in>set ws. ok_word w)"
| "ok_cmd (REDIR c w m d) \<longleftrightarrow> ok_cmd c \<and> ok_word w \<and> ok_redir m d"
| "ok_cmd (PIPE l r) \<longleftrightarrow> ok_cmd l \<and> ok_cmd r"
| "ok_cmd (LIST l r) \<longleftrightarrow> ok_cmd l \<and> ok_cmd r"
| "ok_cmd (BACK c) \<longleftrightarrow> ok_cmd c"

abbreviation strip :: "string \<Rightarrow> string" where "strip \<equiv> dropWhile blank"

definition follow :: "string \<Rightarrow> string \<Rightarrow> bool" where
  "follow F r \<longleftrightarrow> (case strip r of [] \<Rightarrow> True | c # cs \<Rightarrow> c \<in> set F)"

lemma strip_strip [simp]: "strip (strip xs) = strip xs"
  by (induction xs) auto

lemma strip_shorter: "length (strip ys) \<le> length (strip (xs @ ys))"
  by (induction xs) (auto intro: order_trans [OF length_dropWhile_le])

lemma strip_word: "ok_word w \<Longrightarrow> strip (w @ r) = w @ r" "ok_word w \<Longrightarrow> \<exists>c u. w = c # u \<and> wordch c \<and> c \<noteq> CHR 0x00"
  by (cases w; simp add: ok_word_def)+

text \<open>Reading a word of the printed line.\<close>

lemma read_word:
  assumes "s \<le> length b" and "rest b s = strip (w @ '' '' @ r)" and "ok_word w"
  obtains p s' where "gettoken b s = (CHR ''a'', p, s')" and "word_of b p = w" and "rest b s' = strip r"
    and "s' \<le> length b" and "length (strip r) < length (rest b s)"
proof -
  obtain c u where w: "w = c # u" "wordch c" "c \<noteq> CHR 0x00" using strip_word(2) [OF assms(3)] by blast
  have r: "rest b s = c # (u @ '' '' @ r)" using assms(2) strip_word(1) [OF assms(3)] w by simp
  note G = gettoken_word [OF assms(1) r]
  have "takeWhile wordch (w @ '' '' @ r) = w" "dropWhile wordch (w @ '' '' @ r) = '' '' @ r"
    using assms(3) by (auto simp: ok_word_def takeWhile_append2 dropWhile_append2 whitespace_def)
  then have "word_of b (fst (snd (gettoken b s))) = w" "drop (after_token b s) b = strip r" using G(2,6) w by (simp_all add: whitespace_def)
  moreover have "length (strip r) < length (rest b s)" using length_dropWhile_le [of blank r] r by simp
  ultimately show thesis using that [of "fst (snd (gettoken b s))" "after_token b s"] G(1,4) w by (simp add: rest_def prod_eq_iff)
qed

text \<open>Redirections behind a command.\<close>

definition wrap :: "'w cmd \<Rightarrow> ('w \<times> nat \<times> nat) list \<Rightarrow> 'w cmd" where
  "wrap c rs = foldl (\<lambda>c (w, m, d). REDIR c w m d) c rs"

definition show_redirs :: "(string \<times> nat \<times> nat) list \<Rightarrow> string" where
  "show_redirs rs = concat (map (\<lambda>(w, m, d). show_redir w m) rs)"

definition ok_redirs :: "(string \<times> nat \<times> nat) list \<Rightarrow> bool" where
  "ok_redirs rs \<longleftrightarrow> (\<forall>(w, m, d)\<in>set rs. ok_word w \<and> ok_redir m d)"

lemma ok_redirs_Nil [simp]: "ok_redirs []"
  by (simp add: ok_redirs_def)

lemma wrap_simps [simp]: "wrap c [] = c" "wrap c ((w, m, d) # rs) = wrap (REDIR c w m d) rs"
  by (simp_all add: wrap_def)

lemma show_wrap: "rs \<noteq> [] \<or> lv = 0 \<Longrightarrow> show_at lv (wrap c rs) = show_at 0 c @ show_redirs rs"
  by (induction rs arbitrary: c lv rule: rev_induct) (auto simp: wrap_def show_redirs_def)

lemma ok_wrap [simp]: "ok_cmd (wrap c rs) \<longleftrightarrow> ok_cmd c \<and> ok_redirs rs"
  by (induction rs arbitrary: c) (auto simp: wrap_def ok_redirs_def)

lemma map_wrap: "map_cmd f (wrap c rs) = wrap (map_cmd f c) (map (\<lambda>(w, m, d). (f w, m, d)) rs)"
  by (induction rs arbitrary: c) (auto simp: wrap_def)

lemma add_arg_wrap: "add_arg w (wrap (EXEC ws) rs) = wrap (EXEC (ws @ [w])) rs"
  by (induction rs rule: rev_induct) (auto simp: wrap_def)

text \<open>One symbol of the printed line.\<close>

lemma peek_obtain:
  assumes "s \<le> length b"
  obtains s' where "peek b s toks = (fst (peek b s toks), s')" and "rest b s' = rest b s" and "s' \<le> length b"
  using that [of "snd (peek b s toks)"] peek_rest(2,3) [OF assms, of toks] by (simp add: rest_def)

lemma read_symbol:
  assumes "s \<le> length b" and "rest b s = c # r" and "c \<in> set ''|();&''" and "c \<in> set toks"
  obtains s' where "peek b s toks = (True, s')" and "rest b s' = c # r" and "s' \<le> length b"
    and "rest b (after_token b s') = strip r" and "after_token b s' \<le> length b" and "length (strip r) < length (rest b s)"
proof -
  have c: "c \<noteq> CHR 0x00" using assms(3) by auto
  have "fst (peek b s toks)" using peek_rest(1) [OF assms(1), of toks] assms(2,4) c by simp
  moreover obtain s' where "peek b s toks = (fst (peek b s toks), s')" "rest b s' = rest b s" "s' \<le> length b"
    by (rule peek_obtain [OF assms(1)])
  ultimately have s': "peek b s toks = (True, s')" "rest b s' = c # r" "s' \<le> length b" using assms(2) by simp_all
  moreover have "rest b (after_token b s') = strip r" "after_token b s' \<le> length b"
    using gettoken_symbol [OF s'(3,2)] assms(3) by (auto simp: rest_def)
  moreover have "length (strip r) < length (rest b s)" using assms(2) length_dropWhile_le [of blank r] by simp
  ultimately show thesis by (rule that)
qed

lemma peek_other:
  assumes "s \<le> length b" and "\<And>c r. rest b s = c # r \<Longrightarrow> c \<notin> set toks"
  obtains s' where "peek b s toks = (False, s')" and "rest b s' = rest b s" and "s' \<le> length b"
proof -
  have "\<not> fst (peek b s toks)" using peek_rest(1) [OF assms(1), of toks] assms(2) by (auto split: list.splits)
  then show thesis using peek_obtain [OF assms(1), of toks] that by metis
qed

lemma open_modes: "O_WRONLY OR O_CREATE = 0x201" "O_RDONLY = 0"
  by (simp_all add: O_WRONLY_def O_CREATE_def O_RDONLY_def)

lemma read_redir_op:
  assumes "s \<le> length b" and "rest b s = (if x then CHR ''<'' else CHR ''>'') # '' '' @ r"
  shows "fst (gettoken b s) = (if x then CHR ''<'' else CHR ''>'')" and "rest b (after_token b s) = strip r" and "after_token b s \<le> length b"
  using gettoken_symbol [OF assms(1), of "CHR ''<''" "'' '' @ r"] gettoken_redir(3,4) [OF assms(1), of "'' '' @ r"] assms(2)
  by (auto simp: rest_def whitespace_def split: if_splits)

lemma parseredirs_show:
  assumes "s \<le> length b" and "rest b s = strip (show_redirs rs @ r)" and "ok_redirs rs" and "\<forall>c r'. strip r = c # r' \<longrightarrow> c \<notin> set ''<>''"
  shows "\<exists>rs' s'. parseredirs c b s = Ret (wrap c rs', s') \<and> s' \<le> length b \<and> rest b s' = strip r
    \<and> map (\<lambda>(w, m, d). (word_of b w, m, d)) rs' = rs"
  using assms
proof (induction rs arbitrary: c s)
  case Nil
  then have e: "rest b s = strip r" by (simp add: show_redirs_def)
  obtain s' where "peek b s ''<>'' = (False, s')" "rest b s' = strip r" "s' \<le> length b"
    using peek_other [OF Nil(1), of "''<>''"] Nil(4) e by metis
  moreover from this have "parseredirs c b s = Ret (wrap c [], s')" by (subst parseredirs.simps) simp
  ultimately show ?case by (intro exI [of _ "[]"]) simp
next
  case (Cons x rs)
  obtain w m d where x: "x = (w, m, d)" by (cases x)
  let ?o = "if m = O_RDONLY then CHR ''<'' else CHR ''>''" and ?R = "show_redirs rs @ r"
  have ok: "ok_word w" "ok_redir m d" "ok_redirs rs" using Cons.prems(3) x by (auto simp: ok_redirs_def)
  have e: "rest b s = ?o # '' '' @ w @ '' '' @ ?R"
    using Cons.prems(2) x by (auto simp: show_redirs_def show_redir_def whitespace_def)
  obtain s1 where P: "peek b s ''<>'' = (True, s1)" "s1 \<le> length b" "rest b s1 = ?o # '' '' @ w @ '' '' @ ?R"
  proof -
    have "fst (peek b s ''<>'')" using peek_rest(1) [OF Cons.prems(1), of "''<>''"] e by simp
    moreover obtain s1 where "peek b s ''<>'' = (fst (peek b s ''<>''), s1)" "rest b s1 = rest b s" "s1 \<le> length b"
      by (rule peek_obtain [OF Cons.prems(1)])
    ultimately show thesis using that [of s1] e by simp
  qed
  obtain y s2 where T: "gettoken b s1 = (?o, y, s2)" "rest b s2 = strip (w @ '' '' @ ?R)" "s2 \<le> length b"
    using read_redir_op [OF P(2,3)] by (cases "gettoken b s1") auto
  obtain p s3 where p: "gettoken b s2 = (CHR ''a'', p, s3)" "word_of b p = w" "rest b s3 = strip ?R" "s3 \<le> length b"
    by (rule read_word [OF T(3,2) ok(1)])
  obtain rs' s' where IH: "parseredirs (REDIR c p m d) b s3 = Ret (wrap (REDIR c p m d) rs', s')"
    "s' \<le> length b" "rest b s' = strip r" "map (\<lambda>(w, m, d). (word_of b w, m, d)) rs' = rs"
    using Cons.IH [where c = "REDIR c p m d", OF p(4,3) ok(3) Cons.prems(4)] by blast
  have "parseredirs c b s = parseredirs (REDIR c p m d) b s3"
    using P(1) T(1) p(1) ok(2) by (subst parseredirs.simps) (auto simp: ok_redir_def open_modes)
  with IH p(2) x show ?case by (intro exI [of _ "(p, m, d) # rs'"] exI [of _ s']) simp
qed

text \<open>The arguments of a simple command, then its redirections.\<close>

definition show_args :: "string list \<Rightarrow> string" where
  "show_args ws = concat (map (\<lambda>w. w @ '' '') ws)"

lemma show_redirs_hd:
  assumes "strip (show_redirs rs @ r) = c # r'"
  shows "c \<in> set ''<>'' \<or> rs = [] \<and> strip r = c # r'"
  using assms by (cases rs) (auto simp: show_redirs_def show_redir_def whitespace_def split: if_splits)

lemma show_args_hd:
  assumes "\<forall>w\<in>set ws. ok_word w" and "strip (show_args ws @ r) = c # r'"
  shows "wordch c \<or> ws = [] \<and> strip r = c # r'"
proof (cases ws)
  case (Cons w ws')
  then have "ok_word w" using assms(1) by simp
  then obtain d u where w: "w = d # u" "wordch d" using strip_word(2) by blast
  have "show_args ws @ r = w @ ('' '' @ show_args ws' @ r)" using Cons by (simp add: show_args_def)
  then show ?thesis using strip_word(1) [OF \<open>ok_word w\<close>] assms(2) w by simp
qed (use assms(2) in \<open>simp add: show_args_def\<close>)

lemma follow_hd: "follow F r \<Longrightarrow> strip r = c # r' \<Longrightarrow> c \<in> set F"
  by (simp add: follow_def)

lemma args_stop:
  assumes "s \<le> length b" and "rest b s = strip r" and "follow ''|)&;'' r"
  shows "\<exists>s'. args_loop n c b s = Ret (c, s') \<and> s' \<le> length b \<and> rest b s' = strip r"
proof (cases "strip r")
  case Nil
  obtain s' where P: "peek b s ''|)&;'' = (False, s')" "rest b s' = []" "s' \<le> length b"
    using peek_other [OF assms(1), of "''|)&;''"] assms(2) Nil by auto
  obtain w where "gettoken b s' = (CHR 0x00, w, length b)" using gettoken_end [OF P(3,2)] by (metis prod.collapse)
  then have "args_loop n c b s = Ret (c, length b)" using P(1) by (subst args_loop.simps) simp
  moreover have "rest b (length b) = strip r" unfolding Nil by (simp add: rest_def)
  ultimately show ?thesis by simp
next
  case (Cons x xs)
  then have "x \<in> set ''|)&;''" using assms(3) by (simp add: follow_def)
  then obtain s' where "peek b s ''|)&;'' = (True, s')" "rest b s' = strip r" "s' \<le> length b"
    using read_symbol [OF assms(1), of x xs "''|)&;''"] assms(2) Cons by auto
  then show ?thesis by (subst args_loop.simps) auto
qed

lemma args_loop_show:
  assumes "s \<le> length b" and "rest b s = strip (show_args ws @ show_redirs rs @ r)" and "ws \<noteq> []"
    and "\<forall>w\<in>set ws. ok_word w" and "length ws + n < MAXARGS" and "ok_redirs rs" and "follow ''|)&;'' r"
  shows "\<exists>ws' rs' s'. args_loop n (EXEC us) b s = Ret (wrap (EXEC (us @ ws')) rs', s') \<and> s' \<le> length b \<and> rest b s' = strip r
    \<and> map (word_of b) ws' = ws \<and> map (\<lambda>(w, m, d). (word_of b w, m, d)) rs' = rs"
  using assms
proof (induction ws arbitrary: us s n)
  case (Cons w ws)
  let ?R = "show_args ws @ show_redirs rs @ r" and ?rs = "if ws = [] then rs else []" and ?r = "(if ws = [] then [] else show_args ws @ show_redirs rs) @ r"
  have w: "ok_word w" "rest b s = strip (w @ '' '' @ ?R)" using Cons.prems(2,4) by (simp_all add: show_args_def)
  obtain x xs where x: "w = x # xs" "wordch x" "x \<noteq> CHR 0x00" using strip_word(2) [OF w(1)] by blast
  obtain s0 where P: "peek b s ''|)&;'' = (False, s0)" "rest b s0 = strip (w @ '' '' @ ?R)" "s0 \<le> length b"
    using peek_other [OF Cons.prems(1), of "''|)&;''"] w strip_word(1) [OF w(1)] x by (auto simp: symbols_def)
  obtain p s2 where p: "gettoken b s0 = (CHR ''a'', p, s2)" "word_of b p = w" "rest b s2 = strip ?R" "s2 \<le> length b"
    by (rule read_word [OF P(3,2) w(1)])
  have R: "?R = show_redirs ?rs @ ?r" by (simp add: show_args_def show_redirs_def)
  have "c \<notin> set ''<>''" if "strip ?r = c # r'" for c r'
    using that show_args_hd [of ws "show_redirs rs @ r" c r'] Cons.prems(4) follow_hd [OF Cons.prems(7), of c r'] by (auto simp: symbols_def split: if_splits)
  then have hd: "\<forall>c r'. strip ?r = c # r' \<longrightarrow> c \<notin> set ''<>''" by blast
  have "ok_redirs ?rs" using Cons.prems(6) by (simp add: ok_redirs_def)
  then obtain rs' s1 where q: "parseredirs (EXEC (us @ [p])) b s2 = Ret (wrap (EXEC (us @ [p])) rs', s1)" "s1 \<le> length b"
    "rest b s1 = strip ?r" "map (\<lambda>(w, m, d). (word_of b w, m, d)) rs' = ?rs"
    using parseredirs_show [OF p(4) p(3) [unfolded R] _ hd, of "EXEC (us @ [p])"] by blast
  have step: "args_loop n (EXEC us) b s = args_loop (n + 1) (wrap (EXEC (us @ [p])) rs') b s1"
    using P(1) p(1) q(1) Cons.prems(5) by (subst args_loop.simps) simp
  show ?case
  proof (cases "ws = []")
    case True
    then obtain s' where "args_loop (n + 1) (wrap (EXEC (us @ [p])) rs') b s1 = Ret (wrap (EXEC (us @ [p])) rs', s')" "s' \<le> length b" "rest b s' = strip r"
      using args_stop [OF q(2), of r "n + 1" "wrap (EXEC (us @ [p])) rs'"] q(3) Cons.prems(7) by auto
    with step q(4) p(2) True show ?thesis by (intro exI [of _ "[p]"] exI [of _ rs'] exI [of _ s']) simp
  next
    case False
    with q(4) have "rs' = []" by simp
    obtain ws' rs1 s' where "args_loop (n + 1) (EXEC (us @ [p])) b s1 = Ret (wrap (EXEC ((us @ [p]) @ ws')) rs1, s')" "s' \<le> length b" "rest b s' = strip r"
      "map (word_of b) ws' = ws" "map (\<lambda>(w, m, d). (word_of b w, m, d)) rs1 = rs"
      using Cons.IH [OF q(2) _ False, of "n + 1" "us @ [p]"] q(3) False Cons.prems(4-7) by auto
    with step \<open>rs' = []\<close> p(2) show ?thesis by (intro exI [of _ "p # ws'"] exI [of _ rs1] exI [of _ s']) simp
  qed
qed simp

section \<open>Parsing a printed command\<close>

text \<open>The parser \<open>p\<close> reads back a command printed at a level, when one of the characters \<open>F\<close> or the end follows.\<close>

definition reads :: "string \<Rightarrow> (nat \<Rightarrow> string \<Rightarrow> nat \<Rightarrow> (word_ptr cmd \<times> nat) res) \<Rightarrow> nat \<Rightarrow> nat \<Rightarrow> string \<Rightarrow> string cmd \<Rightarrow> bool" where
  "reads b p n lv F c \<longleftrightarrow> (\<forall>k s r. s \<le> length b \<and> rest b s = strip (show_at lv c @ r) \<and> follow F r \<and> 4 * length (rest b s) + n \<le> k \<longrightarrow>
     (\<exists>c' s'. p k b s = Ret (c', s') \<and> s' \<le> length b \<and> rest b s' = strip r \<and> map_cmd (word_of b) c' = c))"

text \<open>A background command, before the loop that looks for more \<open>&\<close> ends.\<close>

definition backs :: "string \<Rightarrow> string cmd \<Rightarrow> bool" where
  "backs b c \<longleftrightarrow> (\<forall>k s r. s \<le> length b \<and> rest b s = strip (show_at 2 c @ r) \<and> follow ''&;)'' r \<and> 4 * length (rest b s) + 3 \<le> k \<longrightarrow>
     (\<exists>c1 s1 c' s'. parsepipe k b s = Ret (c1, s1) \<and> back_loop c1 b s1 = back_loop c' b s'
        \<and> s' \<le> length b \<and> rest b s' = strip r \<and> map_cmd (word_of b) c' = c))"

lemma readsD:
  assumes "reads b p n lv F c" and "s \<le> length b" and "rest b s = strip (show_at lv c @ r)" and "follow F r" and "4 * length (rest b s) + n \<le> k"
  obtains c' s' where "p k b s = Ret (c', s')" and "s' \<le> length b" and "rest b s' = strip r" and "map_cmd (word_of b) c' = c"
  using assms unfolding reads_def by blast

lemma readsI:
  assumes "\<And>k s r. s \<le> length b \<Longrightarrow> rest b s = strip (show_at lv c @ r) \<Longrightarrow> follow F r \<Longrightarrow> 4 * length (rest b s) + n \<le> Suc k \<Longrightarrow>
     \<exists>c' s'. p (Suc k) b s = Ret (c', s') \<and> s' \<le> length b \<and> rest b s' = strip r \<and> map_cmd (word_of b) c' = c" and "0 < n"
  shows "reads b p n lv F c"
  unfolding reads_def
proof (intro allI impI)
  fix k s r assume "s \<le> length b \<and> rest b s = strip (show_at lv c @ r) \<and> follow F r \<and> 4 * length (rest b s) + n \<le> k"
  with assms show "\<exists>c' s'. p k b s = Ret (c', s') \<and> s' \<le> length b \<and> rest b s' = strip r \<and> map_cmd (word_of b) c' = c"
    by (cases k) auto
qed

lemma follow_symbol [simp]: "x \<in> set symbols \<Longrightarrow> follow F (x # r) \<longleftrightarrow> x \<in> set F"
  by (auto simp: follow_def symbols_def whitespace_def)

lemma symbol_simps [simp]:
  "\<not> blank CHR ''(''" "\<not> blank CHR '')''" "\<not> blank CHR ''|''" "\<not> blank CHR ''&''" "\<not> blank CHR '';''"
  "CHR ''('' \<in> set symbols" "CHR '')'' \<in> set symbols" "CHR ''|'' \<in> set symbols" "CHR ''&'' \<in> set symbols" "CHR '';'' \<in> set symbols"
  by (simp_all add: whitespace_def symbols_def)

lemma exec_reads:
  assumes "ok_cmd (wrap (EXEC ws) rs)"
  shows "reads b parseexec 2 0 ''|)&;'' (wrap (EXEC ws) rs)"
proof (rule readsI)
  fix k s r assume s: "s \<le> length b" "rest b s = strip (show_at 0 (wrap (EXEC ws) rs) @ r)" "follow ''|)&;'' r"
  have e: "rest b s = strip (show_args ws @ show_redirs rs @ r)" using s(2) by (simp add: show_wrap show_args_def)
  have ok: "\<forall>w\<in>set ws. ok_word w" "length ws < MAXARGS" "ok_redirs rs" using assms by auto
  have hd: "c \<noteq> CHR ''(''" if "rest b s = c # r'" for c r'
    using show_args_hd [OF ok(1), of "show_redirs rs @ r" c r'] show_redirs_hd [of rs r c r'] follow_hd [OF s(3), of c r'] that e by (auto simp: symbols_def)
  obtain s1 where s1: "peek b s ''('' = (False, s1)" "rest b s1 = rest b s" "s1 \<le> length b"
    using peek_other [OF s(1), of "''(''"] hd by auto
  show "\<exists>c' s'. parseexec (Suc k) b s = Ret (c', s') \<and> s' \<le> length b \<and> rest b s' = strip r \<and> map_cmd (word_of b) c' = wrap (EXEC ws) rs"
  proof (cases "ws = []")
    case True
    have "rest b s1 = strip (show_redirs rs @ r)" using True e s1(2) by (simp add: show_args_def)
    moreover have "\<forall>c r'. strip r = c # r' \<longrightarrow> c \<notin> set ''<>''" using follow_hd [OF s(3)] by fastforce
    ultimately obtain rs' s2 where q: "parseredirs (EXEC []) b s1 = Ret (wrap (EXEC []) rs', s2)" "s2 \<le> length b" "rest b s2 = strip r"
      "map (\<lambda>(w, m, d). (word_of b w, m, d)) rs' = rs" using parseredirs_show [OF s1(3) _ ok(3), of r "EXEC []"] by blast
    obtain s' where "args_loop 0 (wrap (EXEC []) rs') b s2 = Ret (wrap (EXEC []) rs', s')" "s' \<le> length b" "rest b s' = strip r"
      using args_stop [OF q(2,3) s(3)] by blast
    then show ?thesis using s1(1) q True by (simp add: map_wrap)
  next
    case False
    have "\<forall>c r'. strip (show_args ws @ show_redirs rs @ r) = c # r' \<longrightarrow> c \<notin> set ''<>''"
      using show_args_hd [OF ok(1), of "show_redirs rs @ r"] False by (fastforce simp: symbols_def)
    then obtain rs0 s2 where q: "parseredirs (EXEC []) b s1 = Ret (wrap (EXEC []) rs0, s2)" "s2 \<le> length b"
      "rest b s2 = strip (show_args ws @ show_redirs rs @ r)" "map (\<lambda>(w, m, d). (word_of b w, m, d)) rs0 = []"
      using parseredirs_show [OF s1(3), of "[]" "show_args ws @ show_redirs rs @ r" "EXEC []"] s1(2) e by (auto simp: show_redirs_def ok_redirs_def)
    then have "rs0 = []" by simp
    obtain ws' rs' s' where "args_loop 0 (EXEC []) b s2 = Ret (wrap (EXEC ([] @ ws')) rs', s')" "s' \<le> length b" "rest b s' = strip r"
      "map (word_of b) ws' = ws" "map (\<lambda>(w, m, d). (word_of b w, m, d)) rs' = rs"
      using args_loop_show [OF q(2,3) False ok(1) _ ok(3) s(3), of 0 "[]"] ok(2) by auto
    then show ?thesis using s1(1) q(1) \<open>rs0 = []\<close> by (auto simp: map_wrap)
  qed
qed simp

lemma block_reads:
  assumes L: "reads b parseline 4 3 '')'' h" and h: "show_at 0 h = ''('' @ show_at 3 h @ '')''" and rs: "ok_redirs rs"
  shows "reads b parseexec 2 0 ''|)&;'' (wrap h rs)"
proof (rule readsI)
  fix k s r assume s: "s \<le> length b" "rest b s = strip (show_at 0 (wrap h rs) @ r)" "follow ''|)&;'' r" "4 * length (rest b s) + 2 \<le> Suc k"
  let ?r = "CHR '')'' # show_redirs rs @ r"
  have e: "rest b s = CHR ''('' # (show_at 3 h @ ?r)" using s(2) h by (simp add: show_wrap symbols_def)
  obtain s1 where s1: "peek b s ''('' = (True, s1)" "rest b s1 = CHR ''('' # (show_at 3 h @ ?r)" "s1 \<le> length b"
    using read_symbol [OF s(1) e, of "''(''"] by auto
  obtain s2 where s2: "peek b s1 ''('' = (True, s2)" "rest b (after_token b s2) = strip (show_at 3 h @ ?r)" "after_token b s2 \<le> length b"
    "length (strip (show_at 3 h @ ?r)) < length (rest b s1)"
    using read_symbol [OF s1(3,2), of "''(''"] by auto
  obtain k' where k: "k = Suc k'" using s(4) by (cases k) auto
  have "4 * length (rest b (after_token b s2)) + 4 \<le> k'" using s2 s(4) s1(2) e k by simp
  then obtain c s3 where c: "parseline k' b (after_token b s2) = Ret (c, s3)" "s3 \<le> length b" "rest b s3 = strip ?r" "map_cmd (word_of b) c = h"
    using readsD [OF L s2(3,2)] by (auto simp: symbols_def)
  obtain s4 where s4: "peek b s3 '')'' = (True, s4)" "rest b (after_token b s4) = strip (show_redirs rs @ r)" "after_token b s4 \<le> length b"
    using read_symbol [OF c(2), of "CHR '')''" "show_redirs rs @ r" "'')''"] c(3) by (auto simp: symbols_def)
  have "\<forall>c r'. strip r = c # r' \<longrightarrow> c \<notin> set ''<>''" using follow_hd [OF s(3)] by fastforce
  then obtain rs' s' where "parseredirs c b (after_token b s4) = Ret (wrap c rs', s')" "s' \<le> length b" "rest b s' = strip r"
    "map (\<lambda>(w, m, d). (word_of b w, m, d)) rs' = rs" using parseredirs_show [OF s4(3,2) rs] by blast
  then show "\<exists>c' s'. parseexec (Suc k) b s = Ret (c', s') \<and> s' \<le> length b \<and> rest b s' = strip r \<and> map_cmd (word_of b) c' = wrap h rs"
    using s1(1) s2(1) c s4(1) k by (simp add: map_wrap)
qed simp

lemma pipe_reads:
  assumes l: "reads b parseexec 2 0 ''|)&;'' l" and r: "reads b parsepipe 3 1 ''&;)'' d"
  shows "reads b parsepipe 3 1 ''&;)'' (PIPE l d)"
proof (rule readsI)
  fix k s r assume s: "s \<le> length b" "rest b s = strip (show_at 1 (PIPE l d) @ r)" "follow ''&;)'' r" "4 * length (rest b s) + 3 \<le> Suc k"
  let ?r = "CHR ''|'' # show_at 1 d @ r"
  have e: "rest b s = strip (show_at 0 l @ ?r)" using s(2) by simp
  obtain c1 s1 where c1: "parseexec k b s = Ret (c1, s1)" "s1 \<le> length b" "rest b s1 = strip ?r" "map_cmd (word_of b) c1 = l"
    using readsD [OF l s(1) e, of k] s(4) by (auto simp: symbols_def)
  then have e1: "rest b s1 = CHR ''|'' # (show_at 1 d @ r)" by (simp add: symbols_def)
  obtain s2 where s2: "peek b s1 ''|'' = (True, s2)" "rest b (after_token b s2) = strip (show_at 1 d @ r)" "after_token b s2 \<le> length b"
    "length (strip (show_at 1 d @ r)) < length (rest b s1)"
    using read_symbol [OF c1(2) e1, of "''|''"] by auto
  have "4 * length (rest b (after_token b s2)) + 3 \<le> k" using s2(2,4) s(4) c1(3) e strip_shorter [of ?r "show_at 0 l"] by simp
  then obtain c2 s' where "parsepipe k b (after_token b s2) = Ret (c2, s')" "s' \<le> length b" "rest b s' = strip r" "map_cmd (word_of b) c2 = d"
    using readsD [OF r s2(3,2) s(3)] by auto
  then show "\<exists>c' s'. parsepipe (Suc k) b s = Ret (c', s') \<and> s' \<le> length b \<and> rest b s' = strip r \<and> map_cmd (word_of b) c' = PIPE l d"
    using c1 s2(1) by simp
qed simp

lemma follow_mono: "follow F r \<Longrightarrow> set F \<subseteq> set G \<Longrightarrow> follow G r"
  by (auto simp: follow_def split: list.splits simp del: dropWhile_eq_Nil_conv)

lemma peek_follow:
  assumes "s \<le> length b" and "rest b s = strip r" and "follow F r" and "set F \<inter> set toks = {}"
  obtains s' where "peek b s toks = (False, s')" and "rest b s' = strip r" and "s' \<le> length b"
proof (rule peek_other [OF assms(1), of toks])
  show "c \<notin> set toks" if "rest b s = c # r'" for c r' using that assms(2,4) follow_hd [OF assms(3), of c r'] by auto
qed (use that assms(2) in simp)

lemma exec_as_pipe:
  assumes "reads b parseexec 2 0 ''|)&;'' c" and "show_at 1 c = show_at 0 c"
  shows "reads b parsepipe 3 1 ''&;)'' c"
proof (rule readsI)
  fix k s r assume s: "s \<le> length b" "rest b s = strip (show_at 1 c @ r)" "follow ''&;)'' r" "4 * length (rest b s) + 3 \<le> Suc k"
  obtain c1 s1 where c1: "parseexec k b s = Ret (c1, s1)" "s1 \<le> length b" "rest b s1 = strip r" "map_cmd (word_of b) c1 = c"
    using readsD [OF assms(1) s(1), of r k] s(2-4) assms(2) follow_mono [of "''&;)''" r "''|)&;''"] by auto
  obtain s' where "peek b s1 ''|'' = (False, s')" "rest b s' = strip r" "s' \<le> length b"
    using peek_follow [OF c1(2,3) s(3), of "''|''"] by auto
  then show "\<exists>c' s'. parsepipe (Suc k) b s = Ret (c', s') \<and> s' \<le> length b \<and> rest b s' = strip r \<and> map_cmd (word_of b) c' = c"
    using c1 by simp
qed simp

lemma pipe_as_back: "reads b parsepipe 3 1 ''&;)'' c \<Longrightarrow> show_at 2 c = show_at 1 c \<Longrightarrow> backs b c"
  unfolding backs_def reads_def by metis

lemma back_backs:
  assumes "backs b c"
  shows "backs b (BACK c)"
  unfolding backs_def
proof (intro allI impI, elim conjE)
  fix k s r assume s: "s \<le> length b" "rest b s = strip (show_at 2 (BACK c) @ r)" "follow ''&;)'' r" "4 * length (rest b s) + 3 \<le> k"
  have "rest b s = strip (show_at 2 c @ CHR ''&'' # r)" "follow ''&;)'' (CHR ''&'' # r)" using s(2) by (simp_all add: symbols_def)
  then obtain c1 s1 c' s' where c: "parsepipe k b s = Ret (c1, s1)" "back_loop c1 b s1 = back_loop c' b s'"
    "s' \<le> length b" "rest b s' = strip (CHR ''&'' # r)" "map_cmd (word_of b) c' = c"
    using assms s(1,4) unfolding backs_def by blast
  then have e: "rest b s' = CHR ''&'' # r" by (simp add: symbols_def)
  obtain s2 where s2: "peek b s' ''&'' = (True, s2)" "rest b (after_token b s2) = strip r" "after_token b s2 \<le> length b"
    using read_symbol [OF c(3) e, of "''&''"] by auto
  then have "back_loop c' b s' = back_loop (BACK c') b (after_token b s2)" by (subst back_loop.simps) simp
  then show "\<exists>c1 s1 c' s'. parsepipe k b s = Ret (c1, s1) \<and> back_loop c1 b s1 = back_loop c' b s'
        \<and> s' \<le> length b \<and> rest b s' = strip r \<and> map_cmd (word_of b) c' = BACK c"
    using c s2 by (intro exI [of _ c1] exI [of _ s1] exI [of _ "BACK c'"] exI [of _ "after_token b s2"]) simp
qed

lemma backs_read:
  assumes "backs b c" and "s \<le> length b" and "rest b s = strip (show_at 2 c @ r)" and "follow '';)'' r" and "4 * length (rest b s) + 3 \<le> k"
  obtains c1 s1 c' s' where "parsepipe k b s = Ret (c1, s1)" and "back_loop c1 b s1 = (c', s')" and "s' \<le> length b"
    and "rest b s' = strip r" and "map_cmd (word_of b) c' = c"
proof -
  obtain c1 s1 c' s2 where c: "parsepipe k b s = Ret (c1, s1)" "back_loop c1 b s1 = back_loop c' b s2"
    "s2 \<le> length b" "rest b s2 = strip r" "map_cmd (word_of b) c' = c"
    using assms(1,2,3,5) follow_mono [OF assms(4), of "''&;)''"] unfolding backs_def by fastforce
  obtain s' where "peek b s2 ''&'' = (False, s')" "rest b s' = strip r" "s' \<le> length b" using peek_follow [OF c(3,4) assms(4), of "''&''"] by auto
  moreover from this have "back_loop c' b s2 = (c', s')" by (subst back_loop.simps) simp
  ultimately show thesis using that c by simp
qed

lemma list_reads:
  assumes l: "backs b l" and r: "reads b parseline 4 3 '')'' d"
  shows "reads b parseline 4 3 '')'' (LIST l d)"
proof (rule readsI)
  fix k s r assume s: "s \<le> length b" "rest b s = strip (show_at 3 (LIST l d) @ r)" "follow '')'' r" "4 * length (rest b s) + 4 \<le> Suc k"
  let ?r = "CHR '';'' # show_at 3 d @ r"
  have e: "rest b s = strip (show_at 2 l @ ?r)" using s(2) by simp
  obtain c1 s1 c2 s2 where c: "parsepipe k b s = Ret (c1, s1)" "back_loop c1 b s1 = (c2, s2)" "s2 \<le> length b" "rest b s2 = strip ?r" "map_cmd (word_of b) c2 = l"
    by (rule backs_read [OF l s(1) e, of k]) (use s(4) in simp_all)
  then have e1: "rest b s2 = CHR '';'' # (show_at 3 d @ r)" by (simp add: symbols_def)
  obtain s3 where s3: "peek b s2 '';'' = (True, s3)" "rest b (after_token b s3) = strip (show_at 3 d @ r)" "after_token b s3 \<le> length b"
    "length (strip (show_at 3 d @ r)) < length (rest b s2)"
    using read_symbol [OF c(3) e1, of "'';''"] by auto
  have "4 * length (rest b (after_token b s3)) + 4 \<le> k" using s3(2,4) s(4) c(4) e strip_shorter [of ?r "show_at 2 l"] by simp
  then obtain c3 s' where "parseline k b (after_token b s3) = Ret (c3, s')" "s' \<le> length b" "rest b s' = strip r" "map_cmd (word_of b) c3 = d"
    using readsD [OF r s3(3,2) s(3)] by auto
  then show "\<exists>c' s'. parseline (Suc k) b s = Ret (c', s') \<and> s' \<le> length b \<and> rest b s' = strip r \<and> map_cmd (word_of b) c' = LIST l d"
    using c s3(1) by simp
qed simp

lemma back_as_list:
  assumes "backs b c" and "show_at 3 c = show_at 2 c"
  shows "reads b parseline 4 3 '')'' c"
proof (rule readsI)
  fix k s r assume s: "s \<le> length b" "rest b s = strip (show_at 3 c @ r)" "follow '')'' r" "4 * length (rest b s) + 4 \<le> Suc k"
  obtain c1 s1 c2 s2 where c: "parsepipe k b s = Ret (c1, s1)" "back_loop c1 b s1 = (c2, s2)" "s2 \<le> length b" "rest b s2 = strip r" "map_cmd (word_of b) c2 = c"
    by (rule backs_read [OF assms(1) s(1), of r k]) (use s(2-4) assms(2) follow_mono [of "'')''" r "'';)''"] in simp_all)
  obtain s' where "peek b s2 '';'' = (False, s')" "rest b s' = strip r" "s' \<le> length b" using peek_follow [OF c(3,4) s(3), of "'';''"] by auto
  then show "\<exists>c' s'. parseline (Suc k) b s = Ret (c', s') \<and> s' \<le> length b \<and> rest b s' = strip r \<and> map_cmd (word_of b) c' = c"
    using c by simp
qed simp

text \<open>Every printed command is read back, at every level and with redirections behind it.\<close>

lemma all_read:
  assumes "ok_cmd c"
  shows "(\<forall>rs. ok_redirs rs \<longrightarrow> reads b parseexec 2 0 ''|)&;'' (wrap c rs)) \<and> reads b parsepipe 3 1 ''&;)'' c
    \<and> backs b c \<and> reads b parseline 4 3 '')'' c"
  using assms
proof (induction c)
  case (EXEC ws)
  then have w: "\<forall>rs. ok_redirs rs \<longrightarrow> reads b parseexec 2 0 ''|)&;'' (wrap (EXEC ws) rs)" using exec_reads by auto
  then have "reads b parsepipe 3 1 ''&;)'' (EXEC ws)" using exec_as_pipe [of b "EXEC ws"] by (auto dest: spec [of _ "[]"])
  then show ?case using w pipe_as_back [of b "EXEC ws"] back_as_list [of b "EXEC ws"] by simp
next
  case (REDIR c w m d)
  have "reads b parseexec 2 0 ''|)&;'' (wrap c ((w, m, d) # rs))" if "ok_redirs rs" for rs
    using REDIR that by (auto simp: ok_redirs_def simp del: wrap_simps)
  then have w: "\<forall>rs. ok_redirs rs \<longrightarrow> reads b parseexec 2 0 ''|)&;'' (wrap (REDIR c w m d) rs)" by simp
  then have "reads b parsepipe 3 1 ''&;)'' (REDIR c w m d)" using exec_as_pipe [of b "REDIR c w m d"] by (auto dest: spec [of _ "[]"])
  then show ?case using w pipe_as_back [of b "REDIR c w m d"] back_as_list [of b "REDIR c w m d"] by simp
next
  case (PIPE l r)
  then have "reads b parseexec 2 0 ''|)&;'' (wrap l [])" "reads b parsepipe 3 1 ''&;)'' r" by (simp_all only: ok_cmd.simps ok_redirs_Nil simp_thms)
  then have p: "reads b parsepipe 3 1 ''&;)'' (PIPE l r)" using pipe_reads by simp
  then show ?case using pipe_as_back [of b "PIPE l r"] back_as_list [of b "PIPE l r"] block_reads [of b "PIPE l r"] by simp
next
  case (LIST l r)
  then have "backs b l" "reads b parseline 4 3 '')'' r" by simp_all
  then have p: "reads b parseline 4 3 '')'' (LIST l r)" by (rule list_reads)
  then have w: "\<forall>rs. ok_redirs rs \<longrightarrow> reads b parseexec 2 0 ''|)&;'' (wrap (LIST l r) rs)" using block_reads [of b "LIST l r"] by simp
  then have "reads b parsepipe 3 1 ''&;)'' (LIST l r)" using exec_as_pipe [of b "LIST l r"] by (auto dest: spec [of _ "[]"])
  then show ?case using w p pipe_as_back [of b "LIST l r"] by simp
next
  case (BACK c)
  then have "backs b (BACK c)" using back_backs by simp
  then have w: "\<forall>rs. ok_redirs rs \<longrightarrow> reads b parseexec 2 0 ''|)&;'' (wrap (BACK c) rs)" and p: "reads b parseline 4 3 '')'' (BACK c)"
    using block_reads [of b "BACK c"] back_as_list [of b "BACK c"] by simp_all
  then have "reads b parsepipe 3 1 ''&;)'' (BACK c)" using exec_as_pipe [of b "BACK c"] by (auto dest: spec [of _ "[]"])
  then show ?case using w p \<open>backs b (BACK c)\<close> by simp
qed

lemma show_no_nul: "ok_cmd c \<Longrightarrow> CHR 0x00 \<notin> set (show_at lv c)"
  by (induction c arbitrary: lv) (auto simp: ok_word_def show_redir_def)

lemma peek_end: "s \<le> length b \<Longrightarrow> snd (peek b s toks) = length b \<longleftrightarrow> rest b s = []"
  using peek_rest(2,3) [of s b toks] by (metis drop_eq_Nil le_antisym order_refl)

section \<open>Properties\<close>

text \<open>
  C32: The parser of the shell always returns or reports a syntax error: it never runs for ever and the
  depth bound of the model is never reached. The words of the tree it returns lie inside the line, are
  not empty, and end where a blank, a symbol or the end of the line follows, so that \<open>nulterminate\<close>
  makes each of them a proper string without touching another.
\<close>

theorem parsecmd_returns:
  assumes "CHR 0x00 \<notin> set b"
  shows "(\<exists>m. parsecmd b = Panic m) \<or>
    (\<exists>c buf. parsecmd b = Ret (c, buf) \<and> (\<forall>w\<in>set_cmd c. is_word b w \<and> cstr buf (fst w) = word_of b w))"
proof -
  have g: "good b 0 (parseline (4 * length b + 4) b 0)" by (rule parse_good(1)) simp_all
  show ?thesis
  proof (cases "parseline (4 * length b + 4) b 0")
    case (Ret x)
    obtain c s where x: "x = (c, s)" by fastforce
    with Ret g have w: "\<forall>w\<in>set_cmd c. is_word b w" by simp
    with Ret x show ?thesis using nulterminate_word [OF w assms] by (simp add: parsecmd_def)
  qed (use g in \<open>simp_all add: parsecmd_def\<close>)
qed

theorem parsecmd_returns_witness:
  "(\<exists>m. parsecmd ''ls | wc > f'' = Panic m) \<or>
    (\<exists>c buf. parsecmd ''ls | wc > f'' = Ret (c, buf) \<and> (\<forall>w\<in>set_cmd c. is_word ''ls | wc > f'' w \<and> cstr buf (fst w) = word_of ''ls | wc > f'' w))"
  by (rule parsecmd_returns) simp

text \<open>
  C17: Every command can be written so that the shell reads it back: printing a command tree, with
  parentheses where the grammar needs them, and parsing the line gives the same tree, words included,
  as \<open>runcmd\<close> finds them in the buffer after \<open>nulterminate\<close>. The tree may have any shape; its words are
  not empty and have no blanks, symbols or null characters, and a simple command has fewer than
  \<open>MAXARGS\<close> words.
\<close>

theorem parsecmd_show:
  assumes "ok_cmd c"
  shows "\<exists>c' buf. parsecmd (show_at 3 c) = Ret (c', buf) \<and> text_of buf c' = c"
proof -
  let ?b = "show_at 3 c"
  have "length (rest ?b 0) \<le> length ?b" by (simp add: rest_def length_dropWhile_le)
  then have f: "4 * length (rest ?b 0) + 4 \<le> 4 * length ?b + 4" by linarith
  have R: "reads ?b parseline 4 3 '')'' c" using all_read [OF assms] by blast
  have e: "0 \<le> length ?b" "rest ?b 0 = strip (show_at 3 c @ [])" "follow '')'' []" by (simp_all add: rest_def follow_def)
  obtain c' s where c: "parseline (4 * length ?b + 4) ?b 0 = Ret (c', s)" "s \<le> length ?b" "rest ?b s = strip []" "map_cmd (word_of ?b) c' = c"
    by (rule readsD [OF R e f])
  have "good ?b 0 (parseline (4 * length ?b + 4) ?b 0)" by (rule parse_good(1)) simp_all
  then have w: "\<forall>w\<in>set_cmd c'. is_word ?b w" using c(1) by simp
  have "text_of (nulterminate c' (?b @ [CHR 0x00])) c' = c" by (rule trans [OF nulterminate_text [OF w show_no_nul [OF assms]] c(4)])
  moreover have "snd (peek ?b s []) = length ?b" using peek_end [OF c(2)] c(3) by simp
  ultimately show ?thesis using c(1) by (simp add: parsecmd_def)
qed

theorem parsecmd_show_witness:
  "\<exists>c' buf. parsecmd ''(ls |wc )> f &'' = Ret (c', buf) \<and> text_of buf c' = BACK (REDIR (PIPE (EXEC [''ls'']) (EXEC [''wc''])) ''f'' 0x201 1)"
proof -
  let ?c = "BACK (REDIR (PIPE (EXEC [''ls'']) (EXEC [''wc''])) ''f'' 0x201 1)"
  have "ok_cmd ?c" by (simp add: ok_word_def ok_redir_def open_modes MAXARGS_def whitespace_def symbols_def)
  moreover have "show_at 3 ?c = ''(ls |wc )> f &''" by (simp add: show_redir_def open_modes)
  ultimately show ?thesis using parsecmd_show [of ?c] by simp
qed

end
