(* ===== verification/Grep.thy ===== *)
theory Grep
  imports Prelude
begin

text \<open>
  The pattern matcher and the line loop of \<open>src/grep.c\<close>. A C string is the list of its characters
  before the null character, so a pointer into it is a suffix. The matcher is compared with the
  language of the pattern, the line loop with the lines of the whole input.
\<close>

section \<open>The matcher\<close>

abbreviation NUL :: char where "NUL \<equiv> CHR 0x00"
abbreviation NL :: char where "NL \<equiv> CHR 0x0A"

function (sequential) matchhere :: "string \<Rightarrow> string \<Rightarrow> bool" and matchstar :: "char \<Rightarrow> string \<Rightarrow> string \<Rightarrow> bool" where
  "matchhere [] tx = True"
| "matchhere [c] [] = (c = CHR ''$'')"
| "matchhere [c] (t # tx) = (c \<noteq> CHR ''$'' \<and> (c = CHR ''.'' \<or> c = t) \<and> matchhere [] tx)"
| "matchhere (c # d # re) tx =
    (if d = CHR ''*'' then matchstar c re tx
     else case tx of [] \<Rightarrow> False | t # tx' \<Rightarrow> (c = CHR ''.'' \<or> c = t) \<and> matchhere (d # re) tx')"
| "matchstar c re [] = matchhere re []"
| "matchstar c re (t # tx) = (matchhere re (t # tx) \<or> (t = c \<or> c = CHR ''.'') \<and> matchstar c re tx)"
  by pat_completeness auto
termination
  by (relation "measures [\<lambda>x. case x of Inl (re, tx) \<Rightarrow> 2 * length re | Inr (c, re, tx) \<Rightarrow> 2 * length re + 1,
     \<lambda>x. case x of Inl (re, tx) \<Rightarrow> length tx | Inr (c, re, tx) \<Rightarrow> length tx]") auto

fun match_from :: "string \<Rightarrow> string \<Rightarrow> bool" where
  "match_from re [] = matchhere re []"
| "match_from re (t # tx) = (matchhere re (t # tx) \<or> match_from re tx)"

definition match :: "string \<Rightarrow> string \<Rightarrow> bool" where
  "match re tx = (case re of c # re' \<Rightarrow> if c = CHR ''^'' then matchhere re' tx else match_from re tx | [] \<Rightarrow> match_from re tx)"

section \<open>The language of a pattern\<close>

text \<open>The pieces of a pattern: one character, a starred character, and the end of the line.\<close>

datatype piece = One char | Many char | Eol

fun pieces :: "string \<Rightarrow> piece list" where
  "pieces [] = []"
| "pieces [c] = (if c = CHR ''$'' then [Eol] else [One c])"
| "pieces (c # d # re) = (if d = CHR ''*'' then Many c # pieces re else One c # pieces (d # re))"

definition stands :: "char \<Rightarrow> char \<Rightarrow> bool" where
  "stands c t \<longleftrightarrow> c = CHR ''.'' \<or> c = t"

text \<open>\<open>spells ps w v\<close>: the pieces spell the word \<open>w\<close> when \<open>v\<close> is what follows on the line.\<close>

inductive spells :: "piece list \<Rightarrow> string \<Rightarrow> string \<Rightarrow> bool" where
  spells_Nil: "spells [] [] v"
| spells_One: "stands c t \<Longrightarrow> spells ps w v \<Longrightarrow> spells (One c # ps) (t # w) v"
| spells_Many: "\<forall>t\<in>set u. stands c t \<Longrightarrow> spells ps w v \<Longrightarrow> spells (Many c # ps) (u @ w) v"
| spells_Eol: "spells [Eol] [] []"

inductive_simps spells_simps [simp]: "spells [] w v" "spells (One c # ps) w v" "spells [Eol] w v"
inductive_cases spells_ManyE: "spells (Many c # ps) w v"

lemma spells_Many_Nil: "(\<exists>w v. [] = w @ v \<and> spells (Many c # ps) w v) = (\<exists>w v. [] = w @ v \<and> spells ps w v)"
  by (auto elim!: spells_ManyE intro: spells_Many [of "[]", simplified])

lemma spells_Many_Cons:
  "(\<exists>w v. t # tx = w @ v \<and> spells (Many c # ps) w v) =
   ((\<exists>w v. t # tx = w @ v \<and> spells ps w v) \<or> stands c t \<and> (\<exists>w v. tx = w @ v \<and> spells (Many c # ps) w v))" (is "?l = (?a \<or> ?b)")
proof
  assume ?l
  then obtain u w v where u: "t # tx = (u @ w) @ v" "\<forall>t\<in>set u. stands c t" "spells ps w v" by (auto elim!: spells_ManyE)
  show "?a \<or> ?b"
  proof (cases u)
    case Nil
    with u show ?thesis by auto
  next
    case (Cons x xs)
    with u have "stands c t" "tx = (xs @ w) @ v" "spells (Many c # ps) (xs @ w) v" by (auto intro: spells_Many)
    then show ?thesis by blast
  qed
next
  assume "?a \<or> ?b"
  then show ?l
  proof
    assume ?a
    then show ?l using spells_Many [of "[]" c ps] by auto
  next
    assume ?b
    then obtain u w v where "tx = (u @ w) @ v" "\<forall>t\<in>set (t # u). stands c t" "spells ps w v" by (auto elim!: spells_ManyE)
    then show ?l using spells_Many [of "t # u" c ps w v] by (intro exI [of _ "(t # u) @ w"] exI [of _ v]) simp
  qed
qed

lemma spells_One_ex:
  "(\<exists>w v. tx = w @ v \<and> spells (One c # ps) w v) = (\<exists>t tx'. tx = t # tx' \<and> stands c t \<and> (\<exists>w v. tx' = w @ v \<and> spells ps w v))"
  by (auto intro: append_Cons [symmetric] spells_One) (metis append_Cons)

lemma matchhere_spells:
  "matchhere re tx \<longleftrightarrow> (\<exists>w v. tx = w @ v \<and> spells (pieces re) w v)"
  "matchstar c re tx \<longleftrightarrow> (\<exists>w v. tx = w @ v \<and> spells (Many c # pieces re) w v)"
proof (induction re tx and c re tx rule: matchhere_matchstar.induct)
  case (3 c t tx)
  then show ?case using spells_One_ex [of "t # tx" c "[]"] by (auto simp: stands_def simp del: spells_simps(2))
next
  case (4 c d re tx)
  then show ?case using spells_One_ex [of tx c "pieces (d # re)"] by (cases tx) (auto simp: stands_def simp del: spells_simps)
next
  case (5 c re)
  then show ?case using spells_Many_Nil [of c "pieces re"] by simp
next
  case (6 c re t tx)
  then show ?case using spells_Many_Cons [of t tx c "pieces re"] by (auto simp: stands_def)
qed (auto simp: stands_def Cons_eq_append_conv)

lemma match_from_suffix: "match_from re tx \<longleftrightarrow> (\<exists>u t. tx = u @ t \<and> matchhere re t)"
  by (induction tx) (auto simp: Cons_eq_append_conv)

section \<open>The line loop\<close>

text \<open>
  \<open>strchr(p, '\n')\<close> on the buffer: the line before the first newline and what follows it, unless a
  null character comes first.
\<close>

definition next_line :: "string \<Rightarrow> (string \<times> string) option" where
  "next_line p = (let a = takeWhile (\<lambda>c. c \<noteq> NUL \<and> c \<noteq> NL) p in
     case drop (length a) p of [] \<Rightarrow> None | c # q \<Rightarrow> if c = NL then Some (a, q) else None)"

lemma next_line_shorter [simp]: "next_line p = Some (a, q) \<Longrightarrow> length q < length p"
  by (auto simp: next_line_def Let_def split: list.splits if_splits dest: arg_cong [of _ _ length])

text \<open>The inner loop: what it writes, and the unfinished line it leaves.\<close>

function grep_lines :: "string \<Rightarrow> string \<Rightarrow> string \<times> string" where
  "grep_lines pattern p = (case next_line p of None \<Rightarrow> ([], p)
     | Some (a, q) \<Rightarrow> let (out, rest) = grep_lines pattern q in ((if match pattern a then a @ [NL] else []) @ out, rest))"
  by pat_completeness auto
termination
  by (relation "measure (\<lambda>(pattern, p). length p)") auto

declare grep_lines.simps [simp del]

text \<open>
  The outer loop: \<open>b\<close> is the part of \<open>buf\<close> in use, of length \<open>m\<close>, and the list has what the calls of
  \<open>read\<close> return. A read that returns nothing ends the loop.
\<close>

fun grep_loop :: "string \<Rightarrow> string \<Rightarrow> string list \<Rightarrow> string" where
  "grep_loop pattern b [] = []"
| "grep_loop pattern b (r # rs) =
    (if r = [] then []
     else let (out, rest) = grep_lines pattern (b @ r) in
       out @ grep_loop pattern (if length rest = length (b @ r) then [] else rest) rs)"

definition grep :: "string \<Rightarrow> string list \<Rightarrow> string" where
  "grep pattern rs = grep_loop pattern [] rs"

text \<open>What a filter of lines prints for a whole input.\<close>

fun lines_of :: "string \<Rightarrow> string list" where
  "lines_of xs = (case next_line xs of None \<Rightarrow> [] | Some (a, q) \<Rightarrow> a # lines_of q)"

declare lines_of.simps [simp del]

definition out_lines :: "string \<Rightarrow> string \<Rightarrow> string" where
  "out_lines pattern xs = concat (map (\<lambda>a. a @ [NL]) (filter (match pattern) (lines_of xs)))"

lemma next_line_eq:
  "NUL \<notin> set a \<Longrightarrow> NL \<notin> set a \<Longrightarrow> next_line (a @ NL # q) = Some (a, q)"
  by (subst next_line_def, subst takeWhile_append2) auto

lemma next_line_Some: "next_line p = Some (a, q) \<Longrightarrow> p = a @ NL # q \<and> NUL \<notin> set a \<and> NL \<notin> set a"
  using takeWhile_dropWhile_id [of "\<lambda>c. c \<noteq> NUL \<and> c \<noteq> NL" p]
  by (auto simp: next_line_def Let_def dropWhile_eq_drop split: list.splits if_splits dest!: set_takeWhileD)

lemma next_line_None:
  assumes "NUL \<notin> set p"
  shows "next_line p = None \<longleftrightarrow> NL \<notin> set p"
proof (cases "NL \<in> set p")
  case True
  then obtain a q where "p = a @ NL # q" "NL \<notin> set a" by (meson split_list_first)
  with assms True show ?thesis using next_line_eq [of a q] by simp
next
  case False
  then show ?thesis using next_line_Some [of p] by (cases "next_line p") auto
qed

lemma grep_lines_step:
  assumes "next_line p = Some (a, q)"
  shows "grep_lines pattern p = ((if match pattern a then a @ [NL] else []) @ fst (grep_lines pattern q), snd (grep_lines pattern q))"
    and "out_lines pattern (p @ r) = (if match pattern a then a @ [NL] else []) @ out_lines pattern (q @ r)"
proof -
  show "grep_lines pattern p = ((if match pattern a then a @ [NL] else []) @ fst (grep_lines pattern q), snd (grep_lines pattern q))"
    using assms by (simp add: grep_lines.simps [of pattern p] split_beta)
  have "next_line (p @ r) = Some (a, q @ r)" using next_line_Some [OF assms] next_line_eq [of a "q @ r"] by simp
  then show "out_lines pattern (p @ r) = (if match pattern a then a @ [NL] else []) @ out_lines pattern (q @ r)"
    by (simp add: out_lines_def lines_of.simps [of "p @ r"])
qed

lemma grep_lines_out:
  assumes "NUL \<notin> set p"
  shows "out_lines pattern (p @ r) = fst (grep_lines pattern p) @ out_lines pattern (snd (grep_lines pattern p) @ r)
    \<and> NUL \<notin> set (snd (grep_lines pattern p)) \<and> NL \<notin> set (snd (grep_lines pattern p))
    \<and> length (snd (grep_lines pattern p)) \<le> length p - (if NL \<in> set p then 1 else 0)"
  using assms
proof (induction p rule: length_induct)
  case (1 p)
  show ?case
  proof (cases "next_line p")
    case None
    then show ?thesis using next_line_None [OF 1(2)] 1(2) by (simp add: grep_lines.simps [of pattern p])
  next
    case (Some x)
    then obtain a q where n: "next_line p = Some (a, q)" by (cases x) auto
    then have p: "p = a @ NL # q" using next_line_Some by blast
    then have "NUL \<notin> set q" "length q < length p" using 1(2) by auto
    note IH = 1(1) [rule_format, OF this(2,1)]
    then have "length (snd (grep_lines pattern q)) \<le> length q" by linarith
    moreover have "NL \<in> set p" "length q < length p" using p by auto
    ultimately show ?thesis using IH grep_lines_step(2) [OF n, of pattern r]
      unfolding grep_lines_step(1) [OF n, of pattern] by auto
  qed
qed

section \<open>Properties\<close>

text \<open>
  C31: The matcher of \<open>grep\<close> accepts a line exactly when some part of it is spelled by the pattern, where
  a leading \<open>^\<close> asks for the start of the line, a last \<open>$\<close> for its end, \<open>.\<close> stands for any character and
  \<open>c*\<close> for any number of \<open>c\<close>. The matcher always ends.
\<close>

theorem match_spells:
  "match re line \<longleftrightarrow> (\<exists>u w v. line = u @ w @ v \<and>
     (if take 1 re = ''^'' then u = [] \<and> spells (pieces (tl re)) w v else spells (pieces re) w v))"
proof (cases "take 1 re = ''^''")
  case True
  then show ?thesis by (cases re) (auto simp: match_def matchhere_spells)
next
  case False
  then have "match re line = match_from re line" by (cases re) (auto simp: match_def)
  with False show ?thesis by (auto simp: match_from_suffix matchhere_spells)
qed

text \<open>
  C33: When every read ends after a newline has come in, and the input has no null characters, \<open>grep\<close>
  prints the matching lines of the whole input, in order, however the reads cut it into pieces.
\<close>

theorem grep_filters:
  assumes "\<forall>r\<in>set rs. NL \<in> set r \<and> NUL \<notin> set r"
  shows "grep pattern rs = out_lines pattern (concat rs)"
proof -
  have "grep_loop pattern b rs = out_lines pattern (b @ concat rs)" if "NUL \<notin> set b" "NL \<notin> set b" for b
    using assms that
  proof (induction rs arbitrary: b)
    case Nil
    then show ?case using next_line_None [of b] by (simp add: out_lines_def lines_of.simps)
  next
    case (Cons r rs)
    obtain out rest where g: "grep_lines pattern (b @ r) = (out, rest)" by fastforce
    have r: "r \<noteq> []" "NL \<in> set (b @ r)" "NUL \<notin> set (b @ r)" using Cons.prems by auto
    then have "out_lines pattern (b @ concat (r # rs)) = out @ out_lines pattern (rest @ concat rs)"
      "NUL \<notin> set rest" "NL \<notin> set rest" "length rest \<le> length (b @ r) - 1"
      using grep_lines_out [OF r(3), of pattern "concat rs"] g by (simp_all del: set_append length_append)
    moreover from this have "length rest \<noteq> length (b @ r)" using r(1) by (cases r) auto
    ultimately show ?case using Cons.IH [of rest] Cons.prems g r(1) by simp
  qed
  from this [of "[]"] show ?thesis by (simp add: grep_def)
qed

theorem grep_filters_witness:
  "grep ''.b'' [''ab'' @ [NL] @ ''c'', ''b'' @ [NL]] = out_lines ''.b'' (''ab'' @ [NL] @ ''cb'' @ [NL])"
  using grep_filters [of "[''ab'' @ [NL] @ ''c'', ''b'' @ [NL]]" "''.b''"] by simp

text \<open>
  A read that brings no newline makes the loop forget what it read: the matching line \<open>x\<close> that arrives
  in two reads is not printed.
\<close>

lemma grep_drops_line:
  "grep ''x'' [''x'', [NL]] = [] \<and> out_lines ''x'' (concat [''x'', [NL]]) = ''x'' @ [NL]"
  by code_simp

end
