(* ===== verification/Spec2Isabelle.thy ===== *)
theory Spec2Isabelle
  imports Procspec Procfork Procinfo Vmspec Pipe Console Crash Fsname Shparse Grep
begin

text \<open>
  A verification development for the TRON-BOSS-OS kernel, an xv6 derivative whose process table has
  one list per state and a multi-level feedback queue. The C sources are under \<open>src/\<close>; the model is
  that of the configuration the Makefile builds (\<open>CS333_P3P4\<close> and \<open>CS333_P5\<close>).

  \<^bold>\<open>Conventions\<close> (\<open>Prelude\<close>). C code that may fail is a function into \<open>res\<close>: it returns (\<open>Ret\<close>),
  panics (\<open>Panic\<close>, with the message), dereferences a null pointer (\<open>Fault\<close>) or never comes back
  (\<open>Hang\<close>: it spins on a lock it cannot get, sleeps with nobody to wake it, or loops). Machine
  integers are words of their width, so that wrap-around is in the model; \<open>int\<close> variables that
  the code only compares or returns are \<open>int\<close>. Pointers into a table are indices, null is \<open>None\<close>.
  \<open>chain\<close> relates a linked list in the heap to the list of its elements.

  \<^bold>\<open>Locks\<close> (\<open>src/spinlock.c\<close>): \<open>Spinlock\<close>. Acquire, release and the nesting of disabled interrupts as
  functions, and the same code as a step relation of several CPUs, in which mutual exclusion is shown.

  \<^bold>\<open>Processes\<close> (\<open>src/proc.c\<close>, \<open>src/proc.h\<close>). \<open>Ptable\<close> has the table and the list routines, \<open>Proc\<close> and
  \<open>Proclife\<close> the operations, each the whole function of the source. \<open>Plists\<close> relates the table to the
  lists it stands for; \<open>Wakeup\<close>, \<open>Procops\<close>, \<open>Procexit\<close>, \<open>Prockill\<close> and \<open>Procsched\<close> show what each
  operation does to them. \<open>Procsys\<close> is the transition system of any number of CPUs. A step is one
  critical section of the table lock, the taking or giving back of another lock, or one part of
  \<open>sleep\<close> (\<open>sleep_parts\<close>: take the table lock, release the caller's lock, block), so that a waker can
  come between any two parts; a process can be preempted between the two critical sections of \<open>fork\<close>.
  \<open>Procinv\<close> and \<open>Procrun\<close> show the invariant of this system and that every operation returns, and
  \<open>Procspec\<close> states the consequences for the states reachable from \<open>userinit\<close>, among them that no
  wakeup is lost. \<open>Procapi\<close> and \<open>Procfork\<close> say what each call does for its caller, \<open>Procinfo\<close> the text
  of the listings on the console and \<open>getprocs\<close>. The memory and file operations that \<open>fork\<close>, \<open>wait\<close>,
  \<open>growproc\<close> and \<open>exit\<close> call are a parameter (record \<open>os\<close>) of these theories. Nothing is assumed of
  them: \<open>fork\<close> and \<open>wait\<close> are described by the outcome of the calls they make, panics included.
  \<open>Procdemo\<close> has a concrete parameter and concrete runs.

  \<^bold>\<open>Strings and numbers\<close> (\<open>src/string.c\<close>, \<open>src/ulib.c\<close>, \<open>src/printf.c\<close>, the \<open>cprintf\<close> of
  \<open>src/console.c\<close>): \<open>Cstring\<close>, over a byte memory with 32-bit addresses, and \<open>Printf\<close>.

  \<^bold>\<open>Memory\<close> (\<open>src/kalloc.c\<close>, \<open>src/vm.c\<close>). \<open>Physmem\<close> has pages and words, \<open>Kalloc\<close> the allocator with its
  list inside the free pages and the interface \<open>page_allocator\<close>, \<open>Vm\<close> the page tables as words in the
  allocated pages, \<open>Vmspec\<close> the translation they stand for.

  \<^bold>\<open>Pipes\<close> (\<open>src/pipe.c\<close>): \<open>Ring\<close> is the interface of buffers with free-running counters, \<open>Pipe\<close> the
  calls in segments from one sleep to the next, and all interleavings of them.

  \<^bold>\<open>Console\<close> (\<open>src/console.c\<close>): \<open>Console\<close> has the screen, the line discipline of \<open>consoleintr\<close>, which
  refines an editor of two byte queues over the same interface \<open>Ring\<close>, and the segments of \<open>consoleread\<close>.

  \<^bold>\<open>File system\<close>, from the disk up; each layer extends the state record of the one below
  (\<open>kthr\<close>, \<open>bst\<close>, \<open>lst\<close>, \<open>fsst\<close>). The routines are modelled as one thread runs them while no other is
  active (\<open>Thread\<close>). \<open>Bio\<close> (\<open>src/bio.c\<close>, \<open>src/memide.c\<close>) is the buffer cache, which implements an array
  of blocks (interface \<open>block_store\<close>); \<open>Block\<close> has the layout of numbers in blocks; \<open>Log\<close> (\<open>src/log.c\<close>)
  transactions, with \<open>lrep s V L K\<close>: the open transaction stands for the blocks \<open>V\<close> and has logged \<open>L\<close>;
  \<open>Crash\<close> that a commit is atomic under power failure. \<open>Fs\<close> and \<open>Fsdir\<close> (\<open>src/fs.c\<close>) have the block
  allocator, inodes, file contents, directories, paths and the changes of protection. \<open>Fsalloc\<close> is
  about the bitmap, \<open>Fsfile\<close> about \<open>bmap\<close> and the loops of \<open>readi\<close> and \<open>writei\<close>, \<open>Fsrw\<close> about whole reads
  and writes and the inode on disk, \<open>Fsicache\<close> about the table of inodes and its reference counts,
  \<open>Fspath\<close> about the entries of directories, \<open>Fsname\<close> about paths and the walk of \<open>namei\<close>.

  \<^bold>\<open>User programs\<close>: \<open>Shparse\<close> is the parser of the shell (\<open>src/sh.c\<close>), \<open>Grep\<close> the pattern matcher and
  the line loop of \<open>src/grep.c\<close>.

  \<^bold>\<open>Bounds and fuel.\<close> Loops over lists are \<open>partial_function (option)\<close> (\<open>None\<close> becomes \<open>Hang\<close>), and the
  lemmas show that they return. The shell's parser is mutually recursive and gets fuel
  \<open>4 * length + 4\<close>: every four calls consume a character, and that it never runs out is part of its
  property. \<open>room n s L K\<close> bounds what a step adds to a transaction; \<open>writei\<close> is given six blocks of the
  log for each block it writes (bitmap and data for the block and for the indirect block, the
  block itself and the indirect block) and one for the inode.

  \<^bold>\<open>Not modelled.\<close> Boot code, segment set-up, assembly entry points and context switch
  (\<open>src/bootasm.S\<close>, \<open>src/bootmain.c\<close>, \<open>src/entry.S\<close>, \<open>src/swtch.S\<close>, \<open>src/main.c\<close>), interrupt
  controllers and device drivers (\<open>src/lapic.c\<close>, \<open>src/ioapic.c\<close>, \<open>src/picirq.c\<close>, \<open>src/mp.c\<close>, \<open>src/ide.c\<close>,
  \<open>src/kbd.c\<close>, \<open>src/uart.c\<close>, \<open>src/timer.c\<close>) are register traffic with hardware. The trap and system call
  dispatch, the file table, \<open>src/sysfile.c\<close>, \<open>src/sysproc.c\<close> and \<open>src/exec.c\<close>,
  the user allocator and \<open>src/mkfs.c\<close> are not modelled; nor are the test programs and the small user
  programs, which only make system calls. Concurrent threads inside the file system are not: there a
  thread that would wait hangs. For the changes of
  protection (\<open>chmod\<close>, \<open>chown\<close>, \<open>chgrp\<close>), \<open>itrunc\<close> and \<open>ialloc\<close> there are definitions but no properties.
\<close>

end
